(* ===== verification/Ane_Prelude.thy ===== *)
theory Ane_Prelude
  imports Main "HOL-Library.Word" "HOL-Library.Monad_Syntax"
begin

text \<open>
  Shared vocabulary of the development: the C integer types as words, \<open>errno\<close> values as
  integers, byte buffers with bounds-checked reads and writes, little-endian decoding,
  alignment arithmetic, and counted loops.

  A computation whose result type is an \<open>option\<close> returns \<open>None\<close> exactly where the C code
  has no defined behaviour (an access outside an object, a double free, a division by
  zero); errors the code reports are ordinary values under \<open>Some\<close>.
\<close>

unbundle bit_operations_syntax

type_synonym u8 = "8 word"
type_synonym u16 = "16 word"
type_synonym u32 = "32 word"
type_synonym u64 = "64 word"
type_synonym bytes = "u8 list"

text \<open>A heap pointer that is only ever compared with NULL, passed on or freed.\<close>
type_synonym ptr = "nat option"

named_theorems mem_simps "bounds-checked buffer accesses"
named_theorems word_nat "reading word expressions as natural numbers"

section \<open>Error numbers (Linux, asm-generic)\<close>

abbreviation ENOENT :: int where "ENOENT \<equiv> 2"
abbreviation EINTR :: int where "EINTR \<equiv> 4"
abbreviation EBADF :: int where "EBADF \<equiv> 9"
abbreviation ENOMEM :: int where "ENOMEM \<equiv> 12"
abbreviation EACCES :: int where "EACCES \<equiv> 13"
abbreviation EBUSY :: int where "EBUSY \<equiv> 16"
abbreviation ENODEV :: int where "ENODEV \<equiv> 19"
abbreviation EINVAL :: int where "EINVAL \<equiv> 22"
abbreviation ENOSPC :: int where "ENOSPC \<equiv> 28"
abbreviation ETIMEDOUT :: int where "ETIMEDOUT \<equiv> 110"
abbreviation EPROBE_DEFER :: int where "EPROBE_DEFER \<equiv> 517"

section \<open>Words as numbers\<close>

lemma unat_of_nat_less [word_nat]:
  "n < 2 ^ LENGTH('a) \<Longrightarrow> unat (of_nat n :: 'a::len word) = n"
  by (simp add: unat_of_nat)

lemma unat_ucast_widen [word_nat]:
  assumes "LENGTH('a) \<le> LENGTH('b)"
  shows "unat (ucast (x :: 'a::len word) :: 'b::len word) = unat x"
proof -
  have "unat x < 2 ^ LENGTH('b)"
    by (rule less_le_trans [OF unsigned_less]) (use assms in \<open>simp add: power_increasing\<close>)
  then show ?thesis
    by (simp add: unsigned_ucast_eq take_bit_nat_eq_self)
qed

lemma unat_u32_u64 [simp]: "unat (ucast (x :: u32) :: u64) = unat x"
  by (rule unat_ucast_widen) simp

lemma unat_plus_less [word_nat]:
  "unat x + unat y < 2 ^ LENGTH('a) \<Longrightarrow> unat (x + y :: 'a::len word) = unat x + unat y"
  by (simp add: unat_plus_if')

lemma unat_mult_less [word_nat]:
  "unat x * unat y < 2 ^ LENGTH('a) \<Longrightarrow> unat (x * y :: 'a::len word) = unat x * unat y"
  by (simp add: unat_mult_lem [THEN iffD1])

lemma u32_less: "unat (x :: u32) < 4294967296"
  using unsigned_less [of x, where ?'a = nat] by simp

lemma u64_less: "unat (x :: u64) < 18446744073709551616"
  using unsigned_less [of x, where ?'a = nat] by simp

lemma unat_and_not_mask:
  "unat (x AND NOT (mask k) :: 'a::len word) = unat x - unat x mod 2 ^ k"
proof -
  have "x AND NOT (mask k) = push_bit k (drop_bit k x)"
    by (rule bit_eqI) (auto simp: bit_simps)
  also have "\<dots> = x - take_bit k x"
    using bits_ident [of k x] by (simp add: algebra_simps)
  finally have "x AND NOT (mask k) = x - take_bit k x" .
  moreover have "unat (take_bit k x) = unat x mod 2 ^ k"
    by (simp only: unsigned_take_bit_eq) (simp add: take_bit_eq_mod)
  moreover from this have "take_bit k x \<le> x"
    by (simp add: word_le_nat_alt)
  ultimately show ?thesis
    by (simp add: unat_sub)
qed

section \<open>Byte buffers\<close>

text \<open>
  \<open>mem_read b off n\<close> and \<open>mem_write b off xs\<close> are \<open>memcpy\<close> out of and into an object
  of \<open>length b\<close> bytes; an access that leaves the object has no result.
\<close>

definition mem_read :: "'a list \<Rightarrow> nat \<Rightarrow> nat \<Rightarrow> 'a list option" where
  "mem_read b off n = (if off + n \<le> length b then Some (take n (drop off b)) else None)"

definition mem_write :: "'a list \<Rightarrow> nat \<Rightarrow> 'a list \<Rightarrow> 'a list option" where
  "mem_write b off xs =
     (if off + length xs \<le> length b
      then Some (take off b @ xs @ drop (off + length xs) b) else None)"

lemma mem_read_Some_iff [mem_simps]:
  "mem_read b off n = Some xs \<longleftrightarrow> off + n \<le> length b \<and> xs = take n (drop off b)"
  by (auto simp: mem_read_def)

lemma mem_read_None_iff [mem_simps]: "mem_read b off n = None \<longleftrightarrow> length b < off + n"
  by (auto simp: mem_read_def)

lemma mem_read_length: "mem_read b off n = Some xs \<Longrightarrow> length xs = n"
  by (auto simp: mem_simps)

lemma mem_write_Some_iff:
  "mem_write b off xs = Some b' \<longleftrightarrow>
     off + length xs \<le> length b \<and> b' = take off b @ xs @ drop (off + length xs) b"
  by (auto simp: mem_write_def)

lemma mem_write_ok: "off + length xs \<le> length b \<Longrightarrow> \<exists>b'. mem_write b off xs = Some b'"
  by (simp add: mem_write_def)

lemma mem_write_length [mem_simps]: "mem_write b off xs = Some b' \<Longrightarrow> length b' = length b"
  by (auto simp: mem_write_Some_iff)

lemma mem_write_nth:
  assumes "mem_write b off xs = Some b'" and "i < length b"
  shows "b' ! i = (if off \<le> i \<and> i < off + length xs then xs ! (i - off) else b ! i)"
  using assms by (auto simp: mem_write_Some_iff nth_append min_def)

lemma mem_read_write_same:
  assumes "mem_write b off xs = Some b'"
  shows "mem_read b' off (length xs) = Some xs"
  using assms by (auto simp: mem_write_Some_iff mem_read_def)

lemma mem_read_write_other:
  assumes "mem_write b off xs = Some b'" and "pos + n \<le> off \<or> off + length xs \<le> pos"
  shows "mem_read b' pos n = mem_read b pos n"
proof -
  have len: "length b' = length b"
    using assms(1) by (rule mem_write_length)
  have "take n (drop pos b') = take n (drop pos b)" if "pos + n \<le> length b"
  proof (rule nth_equalityI)
    show "length (take n (drop pos b')) = length (take n (drop pos b))"
      by (simp add: len)
  next
    fix i assume "i < length (take n (drop pos b'))"
    then show "take n (drop pos b') ! i = take n (drop pos b) ! i"
      using that assms(2) by (auto simp: len mem_write_nth [OF assms(1)])
  qed
  then show ?thesis
    by (simp add: mem_read_def len)
qed

lemma mem_read_append_left:
  "off + n \<le> length xs \<Longrightarrow> mem_read (xs @ ys) off n = mem_read xs off n"
  by (simp add: mem_read_def)

lemma mem_read_append_right:
  "length xs \<le> off \<Longrightarrow> mem_read (xs @ ys) off n = mem_read ys (off - length xs) n"
  by (auto simp: mem_read_def)

section \<open>Little-endian integers\<close>

fun le_nat :: "bytes \<Rightarrow> nat" where
  "le_nat [] = 0"
| "le_nat (b # bs) = unat b + 256 * le_nat bs"

fun nat_le :: "nat \<Rightarrow> nat \<Rightarrow> bytes" where
  "nat_le 0 x = []"
| "nat_le (Suc n) x = of_nat (x mod 256) # nat_le n (x div 256)"

lemma length_nat_le [simp]: "length (nat_le n x) = n"
  by (induction n arbitrary: x) auto

lemma le_nat_nat_le: "le_nat (nat_le n x) = x mod 256 ^ n"
proof (induction n arbitrary: x)
  case 0
  then show ?case by simp
next
  case (Suc n)
  then show ?case
    by (simp add: unat_of_nat mod_mult2_eq)
qed

lemma nat_le_le_nat: "nat_le (length bs) (le_nat bs) = bs"
proof (induction bs)
  case Nil
  then show ?case by simp
next
  case (Cons b bs)
  have "unat b < 256"
    using unsigned_less [of b, where ?'a = nat] by simp
  with Cons show ?case by simp
qed

lemma le_nat_bound: "le_nat bs < 256 ^ length bs"
  by (metis le_nat_nat_le mod_less_divisor nat_le_le_nat zero_less_numeral zero_less_power)

text \<open>A fixed-width load of the little-endian integer at an offset.\<close>

definition get_u16 :: "bytes \<Rightarrow> nat \<Rightarrow> u16 option" where
  "get_u16 b off = map_option (\<lambda>x. of_nat (le_nat x)) (mem_read b off 2)"

definition get_u32 :: "bytes \<Rightarrow> nat \<Rightarrow> u32 option" where
  "get_u32 b off = map_option (\<lambda>x. of_nat (le_nat x)) (mem_read b off 4)"

definition get_u64 :: "bytes \<Rightarrow> nat \<Rightarrow> u64 option" where
  "get_u64 b off = map_option (\<lambda>x. of_nat (le_nat x)) (mem_read b off 8)"

definition le32 :: "u32 \<Rightarrow> bytes" where
  "le32 x = nat_le 4 (unat x)"

definition le64 :: "u64 \<Rightarrow> bytes" where
  "le64 x = nat_le 8 (unat x)"

lemma length_le32 [simp]: "length (le32 x) = 4"
  by (simp add: le32_def)

lemma length_le64 [simp]: "length (le64 x) = 8"
  by (simp add: le64_def)

lemma get_u32_None_iff [mem_simps]: "get_u32 b off = None \<longleftrightarrow> length b < off + 4"
  by (simp add: get_u32_def mem_simps)

lemma get_u64_None_iff [mem_simps]: "get_u64 b off = None \<longleftrightarrow> length b < off + 8"
  by (simp add: get_u64_def mem_simps)

lemma get_u32_le32:
  assumes "mem_read b off 4 = Some (le32 x)"
  shows "get_u32 b off = Some x"
proof -
  have "le_nat (nat_le 4 (unat x)) = unat x"
    using u32_less [of x] by (simp add: le_nat_nat_le)
  then show ?thesis
    by (simp add: get_u32_def assms le32_def)
qed

lemma get_u64_le64:
  assumes "mem_read b off 8 = Some (le64 x)"
  shows "get_u64 b off = Some x"
proof -
  have "le_nat (nat_le 8 (unat x)) = unat x"
    using u64_less [of x] by (simp add: le_nat_nat_le)
  then show ?thesis
    by (simp add: get_u64_def assms le64_def)
qed

lemma get_u32_exact: "get_u32 (le32 x @ ys) 0 = Some x"
  by (rule get_u32_le32) (simp add: mem_read_def)

lemma le32_of_get:
  assumes "get_u32 b off = Some x"
  shows "mem_read b off 4 = Some (le32 x)"
proof -
  from assms obtain bs where bs: "mem_read b off 4 = Some bs" and x: "x = of_nat (le_nat bs)"
    by (auto simp: get_u32_def)
  have len: "length bs = 4"
    using bs by (rule mem_read_length)
  then have "unat x = le_nat bs"
    using le_nat_bound [of bs] by (simp add: x unat_of_nat)
  then have "le32 x = bs"
    using nat_le_le_nat [of bs] len by (simp add: le32_def)
  with bs show ?thesis by simp
qed

section \<open>Alignment\<close>

text \<open>
  The kernel's \<open>round_up(x, y)\<close> for a power of two \<open>y\<close>: \<open>((x - 1) | (y - 1)) + 1\<close>.
\<close>

definition round_up :: "u64 \<Rightarrow> u64 \<Rightarrow> u64" where
  "round_up x y = ((x - 1) OR (y - 1)) + 1"

lemma unat_mask_less: "k < LENGTH('a) \<Longrightarrow> unat (mask k :: 'a::len word) = 2 ^ k - 1"
proof -
  assume k: "k < LENGTH('a)"
  have "(2 ^ k :: nat) < 2 ^ LENGTH('a)" using k by simp
  then have "(mask k :: nat) < 2 ^ LENGTH('a)"
    unfolding mask_eq_exp_minus_1 by (rule less_imp_diff_less)
  then have "unat (of_nat (mask k) :: 'a word) = mask k" by (rule unat_of_nat_less)
  then show ?thesis by (simp add: of_nat_mask_eq mask_eq_exp_minus_1)
qed

lemma or_mask_eq: "x OR mask k = (x AND NOT (mask k)) + (mask k :: 'a::len word)"
proof -
  have "(x AND NOT (mask k)) + mask k = (x AND NOT (mask k)) OR mask k"
    by (rule disjunctive_add) (auto simp: bit_simps)
  also have "\<dots> = x OR mask k"
    by (rule bit_eqI) (auto simp: bit_simps)
  finally show ?thesis by simp
qed

text \<open>Rounding up to a multiple of a power of two, when the result fits.\<close>

lemma unat_round_up:
  assumes k: "k < 64" and fits: "unat x + 2 ^ k \<le> 2 ^ 64"
  shows "unat (round_up x (push_bit k 1)) = (unat x + (2 ^ k - 1)) div 2 ^ k * 2 ^ k"
proof (cases "x = 0")
  case True
  then show ?thesis by (simp add: round_up_def)
next
  case False
  define z where "z = x - 1"
  have z: "unat z = unat x - 1" "0 < unat x"
    using False by (simp_all add: z_def unat_minus_one unat_gt_0)
  have mask: "(push_bit k 1 - 1 :: u64) = mask k" by (simp add: mask_eq_exp_minus_1 push_bit_eq_mult)
  have m: "unat (mask k :: u64) = 2 ^ k - 1" using k by (simp add: unat_mask_less)
  let ?a = "unat z - unat z mod 2 ^ k"
  have a: "unat (z AND NOT (mask k)) = ?a" by (rule unat_and_not_mask)
  have total: "?a + (2 ^ k - 1) + 1 = (unat x + (2 ^ k - 1)) div 2 ^ k * 2 ^ k"
  proof -
    have "?a = unat z div 2 ^ k * 2 ^ k" by (rule minus_mod_eq_div_mult)
    moreover have "unat x + (2 ^ k - 1) = unat z + 2 ^ k" using z by simp
    moreover have "(unat z + 2 ^ k) div 2 ^ k = unat z div 2 ^ k + 1"
      by (rule div_add_self2) simp
    ultimately show ?thesis by simp
  qed
  show ?thesis
  proof (cases "?a + (2 ^ k - 1) + 1 < 2 ^ 64")
    case True
    then show ?thesis
      unfolding round_up_def z_def [symmetric] mask or_mask_eq total [symmetric]
      by (simp add: unat_plus_less a m)
  next
    case over: False
    have "?a \<le> unat z" "(0 :: nat) < 2 ^ k" by simp_all
    with over fits z have False by linarith
    then show ?thesis ..
  qed
qed

section \<open>Counted loops\<close>

text \<open>\<open>for (i = a; i < a + n; i++) body\<close> over a state, where the body may be undefined.\<close>

fun for_loop :: "nat \<Rightarrow> nat \<Rightarrow> (nat \<Rightarrow> 's \<Rightarrow> 's option) \<Rightarrow> 's \<Rightarrow> 's option" where
  "for_loop a 0 f s = Some s"
| "for_loop a (Suc n) f s = Option.bind (f a s) (for_loop (Suc a) n f)"

lemma for_loop_invariant:
  assumes "P a s"
    and "\<And>i s. a \<le> i \<Longrightarrow> i < a + n \<Longrightarrow> P i s \<Longrightarrow> \<exists>s'. f i s = Some s' \<and> P (Suc i) s'"
  shows "\<exists>s'. for_loop a n f s = Some s' \<and> P (a + n) s'"
  using assms
proof (induction n arbitrary: a s)
  case 0
  then show ?case by simp
next
  case (Suc n)
  obtain s1 where s1: "f a s = Some s1" "P (Suc a) s1"
    using Suc.prems(2) [of a s] Suc.prems(1) by auto
  have "\<exists>s'. for_loop (Suc a) n f s1 = Some s' \<and> P (Suc a + n) s'"
    by (rule Suc.IH) (use s1 Suc.prems(2) in auto)
  with s1 show ?case by simp
qed

lemma for_loop_append:
  "for_loop a (m + n) f s = Option.bind (for_loop a m f s) (for_loop (a + m) n f)"
  by (induction m arbitrary: a s) (auto split: bind_splits)

text \<open>
  An array of C structs with its element count in a separate variable: the first \<open>n\<close>
  elements, defined only if the array has that many.
\<close>

definition arr_prefix :: "'a list \<Rightarrow> nat \<Rightarrow> 'a list option" where
  "arr_prefix xs n = (if n \<le> length xs then Some (take n xs) else None)"

lemma arr_prefix_all [simp]: "arr_prefix xs (length xs) = Some xs"
  by (simp add: arr_prefix_def)

text \<open>The non-NULL pointers of a list.\<close>

definition blocks :: "ptr list \<Rightarrow> nat list" where
  "blocks ps = concat (map (\<lambda>p. case p of None \<Rightarrow> [] | Some b \<Rightarrow> [b]) ps)"

lemma blocks_simps [simp]:
  "blocks [] = []"
  "blocks (None # ps) = blocks ps"
  "blocks (Some b # ps) = b # blocks ps"
  "blocks (ps @ qs) = blocks ps @ blocks qs"
  by (simp_all add: blocks_def)

section \<open>Numbers as text\<close>

text \<open>The digits \<open>%d\<close> and \<open>{:d}\<close> print for a natural number.\<close>

fun decimal :: "nat \<Rightarrow> string" where
  "decimal n = (if n < 10 then [char_of (48 + n)] else decimal (n div 10) @ [char_of (48 + n mod 10)])"

declare decimal.simps [simp del]

end
