(* ===== verification/Hwx_Io.thy ===== *)
theory Hwx_Io
  imports Ane_Prelude
begin

text \<open>
  The part of the C library and of the kernel that \<open>src/src/libane/hwx.c\<close> uses: file
  descriptors, \<open>pread\<close> (with interrupted, failing and short reads), the heap with
  failing allocations, and \<open>errno\<close>. The state records which descriptors are open and
  which heap blocks are live, so that leaks and double frees are visible.

  The environment is adversarial but finite: \<open>preads\<close> and \<open>alloc_fail\<close> script the
  behaviour of the next calls; once a script is used up, reads are complete and
  allocations succeed. Every terminating execution of the C code is one of these scripts.
  On top of it: the helpers \<open>hwx_within_file\<close>, \<open>hwx_trim_name\<close> and \<open>hwx_pread_exact\<close>.
\<close>

section \<open>The environment\<close>

datatype pread_out =
    Failed int    \<comment> \<open>\<open>pread\<close> returns -1 with this \<open>errno\<close> (\<open>EINTR\<close> included)\<close>
  | Short nat     \<comment> \<open>at most \<open>Suc n\<close> bytes are delivered\<close>

text \<open>A file as \<open>fstat\<close> and \<open>pread\<close> see it: the \<open>errno\<close> of a failing \<open>fstat\<close>, the
  file type and the contents, which do not change while the file is open.\<close>
record inode =
  stat_error :: "int option"
  is_regular :: bool
  contents :: bytes

record io =
  paths :: "string \<Rightarrow> int + inode"   \<comment> \<open>what \<open>open\<close> of a path gives: an \<open>errno\<close> or a file\<close>
  fds :: "nat \<rightharpoonup> inode"
  live :: "nat set"
  fresh :: nat
  preads :: "pread_out list"
  alloc_fail :: "bool list"
  errno :: int

definition os_open :: "string \<Rightarrow> io \<Rightarrow> nat option \<times> io" where
  "os_open path w =
     (case paths w path of
        Inl e \<Rightarrow> (None, w\<lparr>errno := e\<rparr>)
      | Inr ino \<Rightarrow> (Some (fresh w), w\<lparr>fds := (fds w)(fresh w \<mapsto> ino), fresh := Suc (fresh w)\<rparr>))"

definition os_close :: "nat \<Rightarrow> io \<Rightarrow> io" where
  "os_close fd w = w\<lparr>fds := (fds w)(fd := None)\<rparr>"

text \<open>\<open>malloc\<close>, \<open>calloc\<close>: a new block, or NULL when the script says so.\<close>

definition os_malloc :: "io \<Rightarrow> ptr \<times> io" where
  "os_malloc w =
     (case alloc_fail w of
        True # r \<Rightarrow> (None, w\<lparr>alloc_fail := r, errno := ENOMEM\<rparr>)
      | r \<Rightarrow> (Some (fresh w),
               w\<lparr>alloc_fail := tl r, live := insert (fresh w) (live w), fresh := Suc (fresh w)\<rparr>))"

text \<open>Freeing NULL does nothing; freeing a block that is not live is undefined.\<close>

definition os_free :: "ptr \<Rightarrow> io \<Rightarrow> io option" where
  "os_free p w =
     (case p of
        None \<Rightarrow> Some w
      | Some b \<Rightarrow> if b \<in> live w then Some (w\<lparr>live := live w - {b}\<rparr>) else None)"

text \<open>\<open>realloc\<close>: on failure the old block stays live, on success it is replaced.\<close>

definition os_realloc :: "ptr \<Rightarrow> io \<Rightarrow> (ptr \<times> io) option" where
  "os_realloc p w =
     (case os_malloc w of
        (None, w1) \<Rightarrow> Some (None, w1)
      | (Some b, w1) \<Rightarrow> map_option (\<lambda>w2. (Some b, w2)) (os_free p w1))"

text \<open>Freeing a list of pointers, as the loops over an array of structs do.\<close>

fun free_all :: "ptr list \<Rightarrow> io \<Rightarrow> io option" where
  "free_all [] w = Some w"
| "free_all (p # ps) w = Option.bind (os_free p w) (free_all ps)"

text \<open>\<open>pread(fd, buf, n, off)\<close>: the bytes delivered, or an \<open>errno\<close>. An offset beyond
  \<open>2^63\<close> is a negative \<open>off_t\<close>; no byte is delivered only at the end of the file.\<close>

definition os_pread :: "nat \<Rightarrow> nat \<Rightarrow> u64 \<Rightarrow> io \<Rightarrow> (int + bytes) \<times> io" where
  "os_pread fd n off w =
     (case fds w fd of
        None \<Rightarrow> (Inl EBADF, w)
      | Some ino \<Rightarrow>
          if 2 ^ 63 \<le> unat off then (Inl EINVAL, w)
          else case preads w of
              [] \<Rightarrow> (Inr (take n (drop (unat off) (contents ino))), w)
            | Failed e # r \<Rightarrow> (Inl e, w\<lparr>preads := r\<rparr>)
            | Short k # r \<Rightarrow>
                (Inr (take (min (Suc k) n) (drop (unat off) (contents ino))), w\<lparr>preads := r\<rparr>))"

section \<open>Helpers of hwx.c\<close>

definition hwx_within_file :: "u64 \<Rightarrow> u64 \<Rightarrow> u64 \<Rightarrow> bool" where
  "hwx_within_file file_size offset len =
     (if offset > file_size then False
      else if len > file_size - offset then False
      else True)"

text \<open>The loop of \<open>hwx_trim_name\<close> counts the bytes before the first NUL, at most
  \<open>max_len\<close>; the destination is the C string of these bytes.\<close>

fun trim_len :: "bytes \<Rightarrow> nat \<Rightarrow> nat \<Rightarrow> nat option" where
  "trim_len src 0 len = Some len"
| "trim_len src (Suc left) len =
     (if len < length src
      then if src ! len \<noteq> 0 then trim_len src left (Suc len) else Some len
      else None)"

definition hwx_trim_name :: "bytes \<Rightarrow> nat \<Rightarrow> bytes option" where
  "hwx_trim_name src max_len =
     Option.bind (trim_len src max_len 0) (\<lambda>len. mem_read src 0 len)"

text \<open>\<open>hwx_pread_exact\<close>: \<open>acc\<close> holds the \<open>total\<close> bytes already read into the buffer.
  The result is \<open>None\<close> for -1, with \<open>errno\<close> set.\<close>

function hwx_pread_loop :: "nat \<Rightarrow> nat \<Rightarrow> u64 \<Rightarrow> bytes \<Rightarrow> io \<Rightarrow> bytes option \<times> io" where
  "hwx_pread_loop fd sz offset acc w =
     (if length acc < sz then
        (case os_pread fd (sz - length acc) (offset + of_nat (length acc)) w of
           (Inl e, w1) \<Rightarrow>
             if e = EINTR then hwx_pread_loop fd sz offset acc (w1\<lparr>errno := e\<rparr>)
             else (None, w1\<lparr>errno := e\<rparr>)
         | (Inr bs, w1) \<Rightarrow>
             if bs = [] then (None, w1\<lparr>errno := EINVAL\<rparr>)
             else hwx_pread_loop fd sz offset (acc @ bs) w1)
      else (Some acc, w))"
  by pat_completeness auto
termination
proof (relation "measure (\<lambda>(fd, sz, offset, acc, w). (sz - length acc) + length (preads w))",
       goal_cases)
  case 1
  then show ?case by simp
next
  case (2 fd sz offset acc w x y e)
  then show ?case
    by (auto simp: os_pread_def split: option.splits if_splits list.splits pread_out.splits)
next
  case (3 fd sz offset acc w x y bs)
  then have "length (preads y) \<le> length (preads w)"
    by (auto simp: os_pread_def split: option.splits if_splits list.splits pread_out.splits)
  then show ?case
    using 3 by (cases bs) auto
qed

declare hwx_pread_loop.simps [simp del]

definition hwx_pread_exact :: "nat \<Rightarrow> nat \<Rightarrow> u64 \<Rightarrow> io \<Rightarrow> bytes option \<times> io" where
  "hwx_pread_exact fd sz offset w = hwx_pread_loop fd sz offset [] w"

section \<open>Facts about the helpers\<close>

lemma hwx_within_file_iff:
  "hwx_within_file fsz off len \<longleftrightarrow> unat off + unat len \<le> unat fsz"
  by (auto simp: hwx_within_file_def word_less_nat_alt unat_sub_if')

lemma trim_len_takeWhile:
  assumes "len + left \<le> length src"
  shows "trim_len src left len =
           Some (len + length (takeWhile (\<lambda>b. b \<noteq> 0) (take left (drop len src))))"
  using assms
proof (induction left arbitrary: len)
  case 0
  then show ?case by simp
next
  case (Suc left)
  then have "drop len src = src ! len # drop (Suc len) src"
    by (simp add: Cons_nth_drop_Suc)
  with Suc show ?case by simp
qed

lemma take_length_takeWhile: "take (length (takeWhile P xs)) xs = takeWhile P xs"
  by (metis takeWhile_eq_take)

lemma hwx_trim_name_eq:
  assumes "n \<le> length src"
  shows "hwx_trim_name src n = Some (takeWhile (\<lambda>b. b \<noteq> 0) (take n src))"
proof -
  let ?t = "takeWhile (\<lambda>b. b \<noteq> 0) (take n src)"
  have le: "length ?t \<le> n"
    using length_takeWhile_le [of "\<lambda>b. b \<noteq> 0" "take n src"] by simp
  have "take (length ?t) src = take (length ?t) (take n src)"
    unfolding take_take using le by (simp only: min_absorb1)
  also have "\<dots> = ?t"
    by (rule take_length_takeWhile)
  finally have "take (length ?t) src = ?t" .
  then show ?thesis
    using assms le trim_len_takeWhile [of 0 n src] by (simp add: hwx_trim_name_def mem_read_def)
qed

text \<open>What a call leaves alone: open files, live blocks, the allocator.\<close>

definition same_res :: "io \<Rightarrow> io \<Rightarrow> bool" where
  "same_res w w1 \<longleftrightarrow> fds w1 = fds w \<and> live w1 = live w \<and> fresh w1 = fresh w"

lemma same_res_refl [simp]: "same_res w w"
  by (simp add: same_res_def)

lemma same_res_trans: "same_res w w1 \<Longrightarrow> same_res w1 w2 \<Longrightarrow> same_res w w2"
  by (simp add: same_res_def)

lemma same_res_simps [simp]:
  "same_res w (w1\<lparr>errno := e\<rparr>) = same_res w w1"
  "same_res (w\<lparr>errno := e\<rparr>) w1 = same_res w w1"
  "same_res (w\<lparr>preads := r\<rparr>) w1 = same_res w w1"
  "same_res w (w1\<lparr>preads := r\<rparr>) = same_res w w1"
  by (simp_all add: same_res_def)

lemma os_pread_same_res: "os_pread fd n off w = (r, w1) \<Longrightarrow> same_res w w1"
  by (auto simp: os_pread_def same_res_def
      split: option.splits if_splits list.splits pread_out.splits)

text \<open>A read that ends the loop with -1: a failure other than \<open>EINTR\<close>, or the end of the file.\<close>

definition pread_fails :: "nat \<Rightarrow> nat \<Rightarrow> u64 \<Rightarrow> bytes \<Rightarrow> io \<Rightarrow> io \<Rightarrow> bool" where
  "pread_fails fd n off acc w w' \<longleftrightarrow> length acc < n \<and>
     (case os_pread fd (n - length acc) (off + of_nat (length acc)) w of
        (Inl e, w1) \<Rightarrow> e \<noteq> EINTR \<and> w' = w1\<lparr>errno := e\<rparr>
      | (Inr bs, w1) \<Rightarrow> bs = [] \<and> w' = w1\<lparr>errno := EINVAL\<rparr>)"

lemma pread_fails_same_res: "pread_fails fd n off acc w w' \<Longrightarrow> same_res w w'"
  by (auto simp: pread_fails_def dest: os_pread_same_res split: prod.splits sum.splits)

text \<open>
  The rule for the read loop: an invariant of the accumulated bytes and the state that every
  interrupted and every delivering \<open>pread\<close> keeps holds for the bytes returned, and a failure
  is a failing \<open>pread\<close> or the end of the file, reached from a state of the invariant.
\<close>

lemma hwx_pread_loop_rule:
  assumes "hwx_pread_loop fd n off acc w = (r, w')" and "I acc w"
    and intr: "\<And>acc w w1. I acc w \<Longrightarrow> length acc < n \<Longrightarrow>
       os_pread fd (n - length acc) (off + of_nat (length acc)) w = (Inl EINTR, w1) \<Longrightarrow>
       I acc (w1\<lparr>errno := EINTR\<rparr>)"
    and data: "\<And>acc w w1 bs. I acc w \<Longrightarrow> length acc < n \<Longrightarrow>
       os_pread fd (n - length acc) (off + of_nat (length acc)) w = (Inr bs, w1) \<Longrightarrow>
       bs \<noteq> [] \<Longrightarrow> I (acc @ bs) w1"
  shows "case r of
      Some bs \<Rightarrow> I bs w' \<and> n \<le> length bs
    | None \<Rightarrow> \<exists>acc0 w0. I acc0 w0 \<and> pread_fails fd n off acc0 w0 w'"
  using assms
proof (induction fd n off acc w arbitrary: r w' rule: hwx_pread_loop.induct)
  case (1 fd n off acc w)
  show ?case
  proof (cases "length acc < n")
    case False
    with "1.prems"(1,2) show ?thesis by (subst (asm) hwx_pread_loop.simps) auto
  next
    case True
    obtain x w2 where x: "os_pread fd (n - length acc) (off + of_nat (length acc)) w = (x, w2)"
      by fastforce
    consider (intr) "x = Inl EINTR" | (fail) e where "x = Inl e" "e \<noteq> EINTR"
      | (eof) "x = Inr []" | (data) bs where "x = Inr bs" "bs \<noteq> []"
      by (cases x) auto
    then show ?thesis
    proof cases
      case intr
      with "1.prems"(1) True x have "hwx_pread_loop fd n off acc (w2\<lparr>errno := EINTR\<rparr>) = (r, w')"
        by (subst (asm) hwx_pread_loop.simps) simp
      then show ?thesis
        by (rule "1.IH"(1) [OF True x [symmetric] intr refl])
          (use "1.prems" True x intr in auto)
    next
      case fail
      with "1.prems"(1) True x have "r = None" "w' = w2\<lparr>errno := e\<rparr>"
        by (subst (asm) hwx_pread_loop.simps; simp)+
      with fail True x have "pread_fails fd n off acc w w'"
        by (simp add: pread_fails_def)
      with \<open>r = None\<close> "1.prems"(2) show ?thesis by auto
    next
      case eof
      with "1.prems"(1) True x have "r = None" "w' = w2\<lparr>errno := EINVAL\<rparr>"
        by (subst (asm) hwx_pread_loop.simps; simp)+
      with eof True x have "pread_fails fd n off acc w w'"
        by (simp add: pread_fails_def)
      with \<open>r = None\<close> "1.prems"(2) show ?thesis by auto
    next
      case data
      with "1.prems"(1) True x have "hwx_pread_loop fd n off (acc @ bs) w2 = (r, w')"
        by (subst (asm) hwx_pread_loop.simps) simp
      then show ?thesis
        by (rule "1.IH"(2) [OF True x [symmetric] data(1) data(2)])
          (use "1.prems" True x data in auto)
    qed
  qed
qed

lemma hwx_pread_exact_same_res:
  assumes "hwx_pread_exact fd n off w = (r, w')"
  shows "same_res w w'"
proof -
  from assms have "hwx_pread_loop fd n off [] w = (r, w')"
    by (simp add: hwx_pread_exact_def)
  then have "case r of Some bs \<Rightarrow> same_res w w' \<and> n \<le> length bs
     | None \<Rightarrow> \<exists>acc0 w0. same_res w w0 \<and> pread_fails fd n off acc0 w0 w'"
    by (rule hwx_pread_loop_rule [where I = "\<lambda>_. same_res w"])
      (auto dest: os_pread_same_res intro: same_res_trans)
  then show ?thesis
    by (auto split: option.splits dest: pread_fails_same_res intro: same_res_trans)
qed

text \<open>The bytes a successful read returns are the file's, however the reads were split.\<close>

lemma os_pread_data:
  assumes "os_pread fd k off w = (Inr bs, w1)" and "fds w fd = Some ino"
  shows "\<exists>j\<le>k. bs = take j (drop (unat off) (contents ino))"
  using assms
  by (auto simp: os_pread_def split: if_splits list.splits pread_out.splits)
    (metis min.cobounded2)

lemma take_eq_take_length: "ys = take m xs \<Longrightarrow> ys = take (length ys) xs"
  by (simp add: min_def)

text \<open>The bytes accumulated so far are the file's at the offset.\<close>

definition pread_inv :: "inode \<Rightarrow> nat \<Rightarrow> nat \<Rightarrow> u64 \<Rightarrow> bytes \<Rightarrow> io \<Rightarrow> bool" where
  "pread_inv ino fd n off acc w \<longleftrightarrow> fds w fd = Some ino \<and> length acc \<le> n \<and>
     (\<exists>m. acc = take m (drop (unat off) (contents ino)))"

lemma pread_inv_offset:
  assumes "pread_inv ino fd n off acc w" and "length (contents ino) < 2 ^ 63"
  shows "unat (off + of_nat (length acc)) = unat off + length acc"
proof (cases "acc = []")
  case True
  then show ?thesis by simp
next
  case False
  have "length acc \<le> length (contents ino) - unat off"
    using assms(1) by (auto simp: pread_inv_def)
  with False assms(2) have "unat off + length acc < 2 ^ 63" by (cases acc) auto
  then show ?thesis by (simp add: unat_plus_if' unat_of_nat)
qed

lemma pread_inv_intr:
  "pread_inv ino fd n off acc w \<Longrightarrow> os_pread fd k o1 w = (r, w1) \<Longrightarrow>
     pread_inv ino fd n off acc (w1\<lparr>errno := e\<rparr>)"
  by (auto simp: pread_inv_def same_res_def dest!: os_pread_same_res)

lemma pread_inv_data:
  assumes inv: "pread_inv ino fd n off acc w" and small: "length (contents ino) < 2 ^ 63"
    and p: "os_pread fd (n - length acc) (off + of_nat (length acc)) w = (Inr xs, w1)"
  shows "pread_inv ino fd n off (acc @ xs) w1"
proof -
  obtain j where j: "j \<le> n - length acc"
    and xs: "xs = take j (drop (unat (off + of_nat (length acc))) (contents ino))"
    using os_pread_data [OF p] inv by (auto simp: pread_inv_def)
  have "xs = take j (drop (length acc) (drop (unat off) (contents ino)))"
    using xs by (simp add: pread_inv_offset [OF inv small] add.commute)
  moreover have "acc = take (length acc) (drop (unat off) (contents ino))"
    using inv by (auto simp: pread_inv_def intro: take_eq_take_length)
  ultimately have "acc @ xs = take (length acc + j) (drop (unat off) (contents ino))"
    by (metis take_add)
  moreover have "length xs \<le> j" by (simp add: xs)
  ultimately show ?thesis
    using j inv os_pread_same_res [OF p] by (auto simp: pread_inv_def same_res_def)
qed

lemma pread_inv_full:
  assumes "pread_inv ino fd n off bs w" and "n \<le> length bs" and "0 < n"
  shows "length bs = n \<and> mem_read (contents ino) (unat off) n = Some bs"
  using assms by (auto simp: pread_inv_def mem_read_def min_def split: if_splits)

lemma hwx_pread_exact_data:
  assumes read: "hwx_pread_exact fd n off w = (Some bs, w')"
    and ino: "fds w fd = Some ino" and small: "length (contents ino) < 2 ^ 63" and n: "0 < n"
  shows "length bs = n \<and> mem_read (contents ino) (unat off) n = Some bs"
proof -
  have "hwx_pread_loop fd n off [] w = (Some bs, w')"
    using read by (simp add: hwx_pread_exact_def)
  then have "case Some bs of Some xs \<Rightarrow> pread_inv ino fd n off xs w' \<and> n \<le> length xs
     | None \<Rightarrow> \<exists>acc0 w0. pread_inv ino fd n off acc0 w0 \<and> pread_fails fd n off acc0 w0 w'"
    by (rule hwx_pread_loop_rule)
      (use ino small in \<open>auto simp: pread_inv_def [of ino fd n off "[]"]
         intro: pread_inv_intr pread_inv_data\<close>)
  then show ?thesis
    using n by (auto dest: pread_inv_full)
qed

text \<open>
  With no failure but interruptions in the script, the loop always ends: with the requested
  bytes when the file has them, and with \<open>EINVAL\<close> when it does not.
\<close>

fun delivers_or_intr :: "pread_out \<Rightarrow> bool" where
  "delivers_or_intr (Failed e) = (e = EINTR)"
| "delivers_or_intr (Short k) = True"

definition only_intr :: "io \<Rightarrow> bool" where
  "only_intr w \<longleftrightarrow> list_all delivers_or_intr (preads w)"

lemma only_intr_errno [simp]: "only_intr (w\<lparr>errno := e\<rparr>) = only_intr w"
  by (simp add: only_intr_def)

lemma os_pread_only_intr:
  assumes "only_intr w" and "os_pread fd k off w = (r, w1)" and "fds w fd = Some ino"
  shows "only_intr w1"
    and "r = Inl e \<Longrightarrow> e = EINTR \<or> e = EINVAL \<and> 2 ^ 63 \<le> unat off"
    and "r = Inr [] \<Longrightarrow> k = 0 \<or> length (contents ino) \<le> unat off"
  using assms
  by (auto simp: os_pread_def only_intr_def split: if_splits list.splits pread_out.splits)

lemma hwx_pread_exact_ends:
  assumes intr: "only_intr w" and ino: "fds w fd = Some ino"
    and small: "length (contents ino) < 2 ^ 63" and n: "0 < n"
    and read: "hwx_pread_exact fd n off w = (r, w')"
  shows "r = mem_read (contents ino) (unat off) n \<and> (r = None \<longrightarrow> errno w' = EINVAL)"
proof -
  define I where "I acc w1 \<longleftrightarrow> pread_inv ino fd n off acc w1 \<and> only_intr w1" for acc w1
  have fd: "I acc w1 \<Longrightarrow> fds w1 fd = Some ino" for acc w1
    by (simp add: I_def pread_inv_def)
  have "hwx_pread_loop fd n off [] w = (r, w')"
    using read by (simp add: hwx_pread_exact_def)
  then have res: "case r of Some bs \<Rightarrow> I bs w' \<and> n \<le> length bs
     | None \<Rightarrow> \<exists>acc0 w0. I acc0 w0 \<and> pread_fails fd n off acc0 w0 w'"
  proof (rule hwx_pread_loop_rule)
    show "I [] w" using ino intr by (auto simp: I_def pread_inv_def)
  next
    fix acc w0 w1
    assume "I acc w0"
      "os_pread fd (n - length acc) (off + of_nat (length acc)) w0 = (Inl EINTR, w1)"
    then show "I acc (w1\<lparr>errno := EINTR\<rparr>)"
      using fd [of acc w0] by (auto simp: I_def intro: pread_inv_intr os_pread_only_intr(1))
  next
    fix acc w0 w1 and bs :: bytes
    assume "I acc w0"
      "os_pread fd (n - length acc) (off + of_nat (length acc)) w0 = (Inr bs, w1)"
    then show "I (acc @ bs) w1"
      using small fd [of acc w0]
      by (auto simp: I_def intro: pread_inv_data os_pread_only_intr(1))
  qed
  show ?thesis
  proof (cases r)
    case (Some bs)
    with res n show ?thesis by (auto simp: I_def dest: pread_inv_full)
  next
    case None
    with res obtain acc0 w0 where I: "I acc0 w0" and f: "pread_fails fd n off acc0 w0 w'"
      by auto
    obtain p w1 where p: "os_pread fd (n - length acc0) (off + of_nat (length acc0)) w0 = (p, w1)"
      by fastforce
    have off: "unat (off + of_nat (length acc0)) = unat off + length acc0"
      using I small by (auto simp: I_def intro: pread_inv_offset)
    have "length (contents ino) \<le> unat off + length acc0 \<and> errno w' = EINVAL"
      using f p off small os_pread_only_intr(2,3) [OF _ p fd [OF I]] I
      by (cases p) (fastforce simp: pread_fails_def I_def)+
    with f None show ?thesis by (auto simp: pread_fails_def mem_read_def)
  qed
qed

end
