(* ===== verification/Hwx_Format.thy ===== *)
theory Hwx_Format
  imports Hwx_Io
begin

text \<open>
  The HWX container of \<open>src/src/libane/hwx.h\<close> and the on-disk structures at the top of
  \<open>hwx.c\<close>: a Mach-O like header, load commands, segments with sections, thread states.
  On-disk structures are decoded from bytes at the offsets of their C layout; the decoders
  have no result when the structure leaves the buffer. Also here: the queries on an open
  file that only look things up (CPU subtype, task descriptor version, segments, sections,
  thread states), which \<open>hwx_open\<close> itself uses.

  An array with its count is a list; the count field is kept beside it as the code has it,
  and the loops over the array visit its first \<open>count\<close> elements.
\<close>

section \<open>Constants\<close>

abbreviation HWX_MACHO_MAGIC_64 :: u32 where "HWX_MACHO_MAGIC_64 \<equiv> 0xBEEFFACE"
abbreviation HWX_LOAD_COMMAND_SEGMENT_64 :: u32 where "HWX_LOAD_COMMAND_SEGMENT_64 \<equiv> 0x19"
abbreviation HWX_LOAD_COMMAND_THREAD :: u32 where "HWX_LOAD_COMMAND_THREAD \<equiv> 0x04"
abbreviation HWX_ANE_TD_STATE :: u32 where "HWX_ANE_TD_STATE \<equiv> 1"
abbreviation HWX_ANE_BIND_STATE :: u32 where "HWX_ANE_BIND_STATE \<equiv> 3"
abbreviation HWX_ANE_SEG_STATE :: u32 where "HWX_ANE_SEG_STATE \<equiv> 4"
abbreviation HWX_CPU_SUBTYPE_MASK :: u32 where "HWX_CPU_SUBTYPE_MASK \<equiv> 0xFF"

text \<open>A C string literal as bytes.\<close>
definition cstr :: "string \<Rightarrow> bytes" where
  "cstr s = map (\<lambda>c. of_char c) s"

section \<open>Structures\<close>

record mach_header =
  hd_magic :: u32
  hd_cputype :: u32
  hd_cpusubtype :: u32
  hd_filetype :: u32
  hd_ncmds :: u32
  hd_sizeofcmds :: u32
  hd_flags :: u32
  hd_reserved :: u32

record load_command =
  lc_cmd :: u32
  lc_cmdsize :: u32

record hwx_section =
  sec_segment_name :: bytes
  sec_section_name :: bytes
  sec_addr :: u64
  sec_size :: u64
  sec_offset :: u32
  sec_align :: u32
  sec_reloff :: u32
  sec_nreloc :: u32
  sec_flags :: u32
  sec_reserved1 :: u32
  sec_reserved2 :: u32
  sec_reserved3 :: u32

record hwx_segment =
  seg_name :: bytes
  seg_vmaddr :: u64
  seg_vmsize :: u64
  seg_fileoff :: u64
  seg_filesize :: u64
  seg_maxprot :: u32
  seg_initprot :: u32
  seg_flags :: u32
  seg_section_count :: u32
  seg_sections :: "hwx_section list"
  seg_sections_ptr :: ptr

record hwx_thread_state =
  thr_flavor :: u32
  thr_count :: u32
  thr_byte_size :: u32
  thr_data :: bytes
  thr_data_ptr :: ptr

record hwx_file =
  hf_fd :: nat
  hf_file_size :: u64
  hf_header :: mach_header
  hf_segments :: "hwx_segment list"
  hf_segments_ptr :: ptr
  hf_segment_count :: u32
  hf_td_version :: u32
  hf_thread_states :: "hwx_thread_state list"
  hf_thread_states_ptr :: ptr
  hf_thread_state_count :: u32
  hf_self :: nat

section \<open>Decoding the on-disk structures\<close>

definition get_mach_header :: "bytes \<Rightarrow> mach_header option" where
  "get_mach_header b = do {
     magic \<leftarrow> get_u32 b 0; cputype \<leftarrow> get_u32 b 4; cpusubtype \<leftarrow> get_u32 b 8;
     filetype \<leftarrow> get_u32 b 12; ncmds \<leftarrow> get_u32 b 16; sizeofcmds \<leftarrow> get_u32 b 20;
     flags \<leftarrow> get_u32 b 24; reserved \<leftarrow> get_u32 b 28;
     Some \<lparr>hd_magic = magic, hd_cputype = cputype, hd_cpusubtype = cpusubtype,
       hd_filetype = filetype, hd_ncmds = ncmds, hd_sizeofcmds = sizeofcmds,
       hd_flags = flags, hd_reserved = reserved\<rparr> }"

definition get_load_command :: "bytes \<Rightarrow> load_command option" where
  "get_load_command b = do {
     cmd \<leftarrow> get_u32 b 0; cmdsize \<leftarrow> get_u32 b 4;
     Some \<lparr>lc_cmd = cmd, lc_cmdsize = cmdsize\<rparr> }"

text \<open>The \<open>Section64\<close> at an offset, copied field by field into a \<open>struct hwx_section\<close>.\<close>

definition get_section64 :: "bytes \<Rightarrow> nat \<Rightarrow> hwx_section option" where
  "get_section64 b off = do {
     raw_sect \<leftarrow> mem_read b off 16; raw_seg \<leftarrow> mem_read b (off + 16) 16;
     segname \<leftarrow> hwx_trim_name raw_seg 16; sectname \<leftarrow> hwx_trim_name raw_sect 16;
     addr \<leftarrow> get_u64 b (off + 32); sz \<leftarrow> get_u64 b (off + 40);
     offset \<leftarrow> get_u32 b (off + 48); align \<leftarrow> get_u32 b (off + 52);
     reloff \<leftarrow> get_u32 b (off + 56); nreloc \<leftarrow> get_u32 b (off + 60);
     flags \<leftarrow> get_u32 b (off + 64); reserved1 \<leftarrow> get_u32 b (off + 68);
     reserved2 \<leftarrow> get_u32 b (off + 72); reserved3 \<leftarrow> get_u32 b (off + 76);
     Some \<lparr>sec_segment_name = segname, sec_section_name = sectname, sec_addr = addr,
       sec_size = sz, sec_offset = offset, sec_align = align, sec_reloff = reloff,
       sec_nreloc = nreloc, sec_flags = flags, sec_reserved1 = reserved1,
       sec_reserved2 = reserved2, sec_reserved3 = reserved3\<rparr> }"

section \<open>CPU subtypes\<close>

datatype hwx_cpu_subtype = CPU_M9 | CPU_H11 | CPU_T0 | CPU_H12 | CPU_H13 | CPU_H14 | CPU_H15
  | CPU_UNKNOWN

text \<open>The numeric value of an enumerator, and the enumerator of a masked number.\<close>

fun cpu_subtype_value :: "hwx_cpu_subtype \<Rightarrow> u32" where
  "cpu_subtype_value CPU_M9 = 0"
| "cpu_subtype_value CPU_H11 = 1"
| "cpu_subtype_value CPU_T0 = 2"
| "cpu_subtype_value CPU_H12 = 3"
| "cpu_subtype_value CPU_H13 = 4"
| "cpu_subtype_value CPU_H14 = 5"
| "cpu_subtype_value CPU_H15 = 6"
| "cpu_subtype_value CPU_UNKNOWN = 0xFFFFFFFF"

definition cpu_subtype_of :: "u32 \<Rightarrow> hwx_cpu_subtype" where
  "cpu_subtype_of x =
     (if x = 0 then CPU_M9 else if x = 1 then CPU_H11 else if x = 2 then CPU_T0
      else if x = 3 then CPU_H12 else if x = 4 then CPU_H13 else if x = 5 then CPU_H14
      else if x = 6 then CPU_H15 else CPU_UNKNOWN)"

fun hwx_td_version_for_cpu :: "hwx_cpu_subtype \<Rightarrow> u32" where
  "hwx_td_version_for_cpu CPU_T0 = 4"
| "hwx_td_version_for_cpu CPU_M9 = 5"
| "hwx_td_version_for_cpu CPU_H11 = 5"
| "hwx_td_version_for_cpu CPU_H12 = 6"
| "hwx_td_version_for_cpu CPU_H13 = 7"
| "hwx_td_version_for_cpu CPU_H15 = 8"
| "hwx_td_version_for_cpu CPU_H14 = 11"
| "hwx_td_version_for_cpu CPU_UNKNOWN = 0"

definition hwx_cpu_subtype :: "hwx_file option \<Rightarrow> hwx_cpu_subtype" where
  "hwx_cpu_subtype f =
     (case f of
        None \<Rightarrow> CPU_UNKNOWN
      | Some file \<Rightarrow> cpu_subtype_of (hd_cpusubtype (hf_header file) AND HWX_CPU_SUBTYPE_MASK))"

fun hwx_cpu_subtype_name :: "hwx_cpu_subtype \<Rightarrow> string" where
  "hwx_cpu_subtype_name CPU_M9 = ''m9''"
| "hwx_cpu_subtype_name CPU_H11 = ''h11''"
| "hwx_cpu_subtype_name CPU_T0 = ''t0''"
| "hwx_cpu_subtype_name CPU_H12 = ''h12''"
| "hwx_cpu_subtype_name CPU_H13 = ''h13''"
| "hwx_cpu_subtype_name CPU_H14 = ''h14''"
| "hwx_cpu_subtype_name CPU_H15 = ''h15''"
| "hwx_cpu_subtype_name CPU_UNKNOWN = ''unknown''"

definition hwx_cpu_subtype_name_raw :: "u32 \<Rightarrow> string" where
  "hwx_cpu_subtype_name_raw subtype =
     hwx_cpu_subtype_name (cpu_subtype_of (subtype AND HWX_CPU_SUBTYPE_MASK))"

section \<open>Accessors and lookups\<close>

definition hwx_header :: "hwx_file option \<Rightarrow> mach_header option" where
  "hwx_header f = map_option hf_header f"

definition hwx_td_version :: "hwx_file option \<Rightarrow> u32" where
  "hwx_td_version f = (case f of None \<Rightarrow> 0 | Some file \<Rightarrow> hf_td_version file)"

definition hwx_segment_count :: "hwx_file option \<Rightarrow> u32" where
  "hwx_segment_count f = (case f of None \<Rightarrow> 0 | Some file \<Rightarrow> hf_segment_count file)"

definition hwx_segments :: "hwx_file option \<Rightarrow> ptr" where
  "hwx_segments f = (case f of None \<Rightarrow> None | Some file \<Rightarrow> hf_segments_ptr file)"

definition hwx_thread_state_count :: "hwx_file option \<Rightarrow> u32" where
  "hwx_thread_state_count f = (case f of None \<Rightarrow> 0 | Some file \<Rightarrow> hf_thread_state_count file)"

definition hwx_thread_states :: "hwx_file option \<Rightarrow> ptr" where
  "hwx_thread_states f = (case f of None \<Rightarrow> None | Some file \<Rightarrow> hf_thread_states_ptr file)"

text \<open>
  A lookup returns NULL with \<open>errno\<close> set for a NULL argument (\<open>Inl\<close>), and otherwise the
  element found or NULL (\<open>Inr\<close>).
\<close>

definition hwx_segment_by_name :: "hwx_file option \<Rightarrow> bytes option \<Rightarrow> int + hwx_segment option" where
  "hwx_segment_by_name f name =
     (case (f, name) of
        (Some file, Some n) \<Rightarrow>
          Inr (find (\<lambda>sg. seg_name sg = n) (take (unat (hf_segment_count file)) (hf_segments file)))
      | _ \<Rightarrow> Inl EINVAL)"

fun find_section :: "bytes option \<Rightarrow> bytes \<Rightarrow> hwx_segment list \<Rightarrow> hwx_section option" where
  "find_section segname sectname [] = None"
| "find_section segname sectname (sg # sgs) =
     (if (case segname of None \<Rightarrow> False | Some n \<Rightarrow> n \<noteq> [] \<and> seg_name sg \<noteq> n)
      then find_section segname sectname sgs
      else case find (\<lambda>s. sec_section_name s = sectname)
                  (take (unat (seg_section_count sg)) (seg_sections sg)) of
          Some s \<Rightarrow> Some s
        | None \<Rightarrow> find_section segname sectname sgs)"

definition hwx_section_by_name ::
  "hwx_file option \<Rightarrow> bytes option \<Rightarrow> bytes option \<Rightarrow> int + hwx_section option" where
  "hwx_section_by_name f segment_name section_name =
     (case (f, section_name) of
        (Some file, Some n) \<Rightarrow>
          Inr (find_section segment_name n (take (unat (hf_segment_count file)) (hf_segments file)))
      | _ \<Rightarrow> Inl EINVAL)"

definition hwx_get_tsk_section :: "hwx_file option \<Rightarrow> int + hwx_section option" where
  "hwx_get_tsk_section f = hwx_section_by_name f (Some (cstr ''__TEXT'')) (Some (cstr ''__text''))"

definition hwx_get_krn_section :: "hwx_file option \<Rightarrow> int + hwx_section option" where
  "hwx_get_krn_section f = hwx_section_by_name f (Some (cstr ''__TEXT'')) (Some (cstr ''__const''))"

text \<open>The pointer a lookup returns, NULL in both failure cases.\<close>

definition found :: "int + 'a option \<Rightarrow> 'a option" where
  "found r = (case r of Inl e \<Rightarrow> None | Inr x \<Rightarrow> x)"

text \<open>
  \<open>hwx_thread_state_next\<close>: \<open>current\<close> is the index of the element the pointer points to
  (NULL is \<open>None\<close>); a pointer outside the array is an error.
\<close>

fun find_flavor :: "u32 \<Rightarrow> hwx_thread_state list \<Rightarrow> nat \<Rightarrow> nat option" where
  "find_flavor flavor [] i = None"
| "find_flavor flavor (s # ss) i =
     (if thr_flavor s = flavor then Some i else find_flavor flavor ss (Suc i))"

definition hwx_thread_state_next :: "hwx_file option \<Rightarrow> u32 \<Rightarrow> nat option \<Rightarrow> int + nat option" where
  "hwx_thread_state_next f flavor current =
     (case f of
        None \<Rightarrow> Inl EINVAL
      | Some file \<Rightarrow>
          let states = take (unat (hf_thread_state_count file)) (hf_thread_states file) in
          (case current of
             None \<Rightarrow> Inr (find_flavor flavor states 0)
           | Some i \<Rightarrow>
               if unat (hf_thread_state_count file) \<le> i then Inl EINVAL
               else Inr (find_flavor flavor (drop (Suc i) states) (Suc i))))"

end
