(* ===== verification/Hwx_Open.thy ===== *)
theory Hwx_Open
  imports Hwx_Format
begin

text \<open>
  The loader of \<open>hwx.c\<close>: \<open>hwx_open\<close> with its loop over the load commands, the two kinds of
  command it decodes, the error label that releases everything, and \<open>hwx_close\<close>.

  A step of the loader returns whether it succeeded (\<open>False\<close> is the jump to \<open>error\<close>) with
  the local variables and the environment at that point; it has no result (\<open>None\<close>) when
  the C code reads outside a buffer or frees a block twice.
\<close>

section \<open>State of the loader\<close>

text \<open>The local variables of \<open>hwx_open\<close> that the loop changes.\<close>

record loader =
  ld_offset :: u64
  ld_remaining_bytes :: u64
  ld_segments :: "hwx_segment list"
  ld_segments_ptr :: ptr
  ld_segment_count :: u32
  ld_thread_states :: "hwx_thread_state list"
  ld_thread_states_ptr :: ptr
  ld_thread_state_count :: u32

type_synonym step_result = "(bool \<times> loader \<times> io) option"

text \<open>\<open>free(buffer); goto error\<close>, with \<open>errno\<close> set first by the caller or not.\<close>

definition fail_free :: "ptr list \<Rightarrow> loader \<Rightarrow> io \<Rightarrow> step_result" where
  "fail_free ps ld w = map_option (\<lambda>w1. (False, ld, w1)) (free_all ps w)"

section \<open>LC_SEGMENT_64\<close>

text \<open>\<open>sizeof(struct SegmentCommand64) = 72\<close>, \<open>sizeof(struct Section64) = 80\<close>; the section
  loop decodes \<open>src_sections[i]\<close> for \<open>i < section_count\<close> and stops with \<open>Some None\<close> at the
  first section whose contents leave the file.\<close>

fun load_sections ::
  "u64 \<Rightarrow> bytes \<Rightarrow> nat \<Rightarrow> nat \<Rightarrow> hwx_section list \<Rightarrow> hwx_section list option option" where
  "load_sections file_size buf i 0 acc = Some (Some acc)"
| "load_sections file_size buf i (Suc n) acc =
     Option.bind (get_section64 buf (72 + 80 * i)) (\<lambda>dst.
       if sec_size dst \<noteq> 0 \<and> \<not> hwx_within_file file_size (ucast (sec_offset dst)) (sec_size dst)
       then Some None
       else load_sections file_size buf (Suc i) n (acc @ [dst]))"

definition segment_expected :: "u32 \<Rightarrow> u64" where
  "segment_expected nsects = 72 + ucast nsects * 80"

text \<open>\<open>segments[segment_count] = segment\<close> after growing the array by one element.\<close>

definition push_segment :: "hwx_segment \<Rightarrow> ptr \<Rightarrow> loader \<Rightarrow> io \<Rightarrow> step_result" where
  "push_segment sg buffer ld w =
     Option.bind (os_realloc (ld_segments_ptr ld) w) (\<lambda>(new_segments, w1).
       case new_segments of
         None \<Rightarrow> fail_free [buffer, seg_sections_ptr sg] ld w1
       | Some p \<Rightarrow> map_option (\<lambda>w2. (True,
             ld\<lparr>ld_segments_ptr := Some p, ld_segments := ld_segments ld @ [sg],
                ld_segment_count := ld_segment_count ld + 1\<rparr>, w2))
           (os_free buffer w1))"

text \<open>The fields of the segment command in a buffer that holds it (72 bytes at least).\<close>

definition get_segment64 :: "bytes \<Rightarrow> u32 \<Rightarrow> hwx_segment option" where
  "get_segment64 buf nsects = do {
     raw \<leftarrow> mem_read buf 8 16; name \<leftarrow> hwx_trim_name raw 16;
     vmaddr \<leftarrow> get_u64 buf 24; vmsize \<leftarrow> get_u64 buf 32;
     fileoff \<leftarrow> get_u64 buf 40; filesize \<leftarrow> get_u64 buf 48;
     maxprot \<leftarrow> get_u32 buf 56; initprot \<leftarrow> get_u32 buf 60; flags \<leftarrow> get_u32 buf 68;
     Some \<lparr>seg_name = name, seg_vmaddr = vmaddr, seg_vmsize = vmsize, seg_fileoff = fileoff,
       seg_filesize = filesize, seg_maxprot = maxprot, seg_initprot = initprot,
       seg_flags = flags, seg_section_count = nsects, seg_sections = [],
       seg_sections_ptr = None\<rparr> }"

text \<open>The part of the command that runs once the buffer is filled. The section count is
  read before the size of the command is checked.\<close>

definition parse_segment :: "u64 \<Rightarrow> u32 \<Rightarrow> bytes \<Rightarrow> ptr \<Rightarrow> loader \<Rightarrow> io \<Rightarrow> step_result" where
  "parse_segment file_size cmdsize buf buffer ld w =
     Option.bind (get_u32 buf 64) (\<lambda>nsects.
       if ucast cmdsize < segment_expected nsects
       then fail_free [buffer] ld (w\<lparr>errno := EINVAL\<rparr>)
       else Option.bind (get_segment64 buf nsects) (\<lambda>sg.
         if \<not> hwx_within_file file_size (seg_fileoff sg) (seg_filesize sg)
         then fail_free [buffer] ld (w\<lparr>errno := EINVAL\<rparr>)
         else if seg_section_count sg > 0
         then (case os_malloc w of
             (None, w1) \<Rightarrow> fail_free [buffer] ld w1
           | (Some p, w1) \<Rightarrow>
               Option.bind (load_sections file_size buf 0 (unat (seg_section_count sg)) [])
                 (\<lambda>r. case r of
                    None \<Rightarrow> map_option (\<lambda>(ok, ld1, w2). (ok, ld1, w2\<lparr>errno := EINVAL\<rparr>))
                              (fail_free [buffer, Some p] ld w1)
                  | Some ss \<Rightarrow>
                      push_segment (sg\<lparr>seg_sections := ss, seg_sections_ptr := Some p\<rparr>)
                        buffer ld w1))
         else push_segment sg buffer ld w))"

text \<open>\<open>malloc(lc.cmdsize)\<close> and the read of the whole command, shared by both branches.\<close>

definition with_command ::
  "nat \<Rightarrow> u32 \<Rightarrow> (bytes \<Rightarrow> ptr \<Rightarrow> loader \<Rightarrow> io \<Rightarrow> step_result) \<Rightarrow> loader \<Rightarrow> io \<Rightarrow> step_result" where
  "with_command fd cmdsize parse ld w =
     (case os_malloc w of
        (None, w1) \<Rightarrow> Some (False, ld, w1)
      | (Some b, w1) \<Rightarrow>
          (case hwx_pread_exact fd (unat cmdsize) (ld_offset ld) w1 of
             (None, w2) \<Rightarrow> fail_free [Some b] ld w2
           | (Some buf, w2) \<Rightarrow> parse buf (Some b) ld w2))"

section \<open>LC_THREAD\<close>

text \<open>One thread state is appended to the array.\<close>

definition push_thread_state ::
  "hwx_thread_state \<Rightarrow> ptr \<Rightarrow> loader \<Rightarrow> io \<Rightarrow> step_result" where
  "push_thread_state st buffer ld w =
     Option.bind (os_realloc (ld_thread_states_ptr ld) w) (\<lambda>(new_states, w1).
       case new_states of
         None \<Rightarrow> fail_free [thr_data_ptr st, buffer] ld w1
       | Some p \<Rightarrow> Some (True,
             ld\<lparr>ld_thread_states_ptr := Some p, ld_thread_states := ld_thread_states ld @ [st],
                ld_thread_state_count := ld_thread_state_count ld + 1\<rparr>, w1))"

text \<open>
  The number of payload bytes kept for a state of \<open>count\<close> words with \<open>remaining\<close> bytes
  left: \<open>None\<close> for the overflow check, else clipped to the command and to 32 bits.
\<close>

definition payload_bytes :: "u32 \<Rightarrow> nat \<Rightarrow> nat option" where
  "payload_bytes count remaining =
     (let byte_count = unat count * 4 in
      if count \<noteq> 0 \<and> byte_count div 4 \<noteq> unat count then None
      else let b1 = (if byte_count > remaining then remaining else byte_count);
               b2 = (if b1 > 0xFFFFFFFF then 0xFFFFFFFF else b1)
           in Some b2)"

function parse_thread_states ::
  "bytes \<Rightarrow> ptr \<Rightarrow> nat \<Rightarrow> nat \<Rightarrow> loader \<Rightarrow> io \<Rightarrow> step_result" where
  "parse_thread_states buf buffer cursor remaining ld w =
     (if remaining < 8 then map_option (\<lambda>w1. (True, ld, w1)) (os_free buffer w)
      else Option.bind (get_u32 buf cursor) (\<lambda>flavor.
        Option.bind (get_u32 buf (cursor + 4)) (\<lambda>count.
        case payload_bytes count (remaining - 8) of
          None \<Rightarrow> fail_free [buffer] ld (w\<lparr>errno := EINVAL\<rparr>)
        | Some n \<Rightarrow>
            let st = \<lparr>thr_flavor = flavor, thr_count = count, thr_byte_size = of_nat n,
                      thr_data = [], thr_data_ptr = None\<rparr> in
            (if n > 0
             then (case os_malloc w of
                 (None, w1) \<Rightarrow> fail_free [buffer] ld w1
               | (Some p, w1) \<Rightarrow>
                   Option.bind (mem_read buf (cursor + 8) n) (\<lambda>payload.
                   Option.bind (push_thread_state
                       (st\<lparr>thr_data := payload, thr_data_ptr := Some p\<rparr>) buffer ld w1)
                     (\<lambda>(ok, ld1, w2).
                       if ok then parse_thread_states buf buffer (cursor + 8 + n)
                                    (remaining - 8 - n) ld1 w2
                       else Some (False, ld1, w2))))
             else Option.bind (push_thread_state st buffer ld w)
                    (\<lambda>(ok, ld1, w2).
                      if ok then parse_thread_states buf buffer (cursor + 8) (remaining - 8) ld1 w2
                      else Some (False, ld1, w2))))))"
  by pat_completeness auto
termination
  by (relation "measure (\<lambda>(buf, buffer, cursor, remaining, ld, w). remaining)") auto

declare parse_thread_states.simps [simp del]

definition parse_thread :: "u32 \<Rightarrow> bytes \<Rightarrow> ptr \<Rightarrow> loader \<Rightarrow> io \<Rightarrow> step_result" where
  "parse_thread cmdsize buf buffer ld w =
     (if unat cmdsize < 8 then fail_free [buffer] ld (w\<lparr>errno := EINVAL\<rparr>)
      else parse_thread_states buf buffer 8 (unat cmdsize - 8) ld w)"

section \<open>The loop over the load commands\<close>

definition load_command_body :: "nat \<Rightarrow> u64 \<Rightarrow> load_command \<Rightarrow> loader \<Rightarrow> io \<Rightarrow> step_result" where
  "load_command_body fd file_size lc ld w =
     (if lc_cmd lc = HWX_LOAD_COMMAND_SEGMENT_64
      then with_command fd (lc_cmdsize lc) (parse_segment file_size (lc_cmdsize lc)) ld w
      else if lc_cmd lc = HWX_LOAD_COMMAND_THREAD
      then (if unat (lc_cmdsize lc) < 16 then Some (False, ld, w\<lparr>errno := EINVAL\<rparr>)
            else with_command fd (lc_cmdsize lc) (parse_thread (lc_cmdsize lc)) ld w)
      else Some (True, ld, w))"

text \<open>\<open>offset += lc.cmdsize; remaining_bytes -= lc.cmdsize\<close>.\<close>

definition advance :: "u32 \<Rightarrow> loader \<Rightarrow> loader" where
  "advance cmdsize ld = ld\<lparr>ld_offset := ld_offset ld + ucast cmdsize,
     ld_remaining_bytes := ld_remaining_bytes ld - ucast cmdsize\<rparr>"

fun load_commands :: "nat \<Rightarrow> nat \<Rightarrow> u64 \<Rightarrow> loader \<Rightarrow> io \<Rightarrow> step_result" where
  "load_commands 0 fd file_size ld w = Some (True, ld, w)"
| "load_commands (Suc remaining_cmds) fd file_size ld w =
     (if ld_remaining_bytes ld < 8 then Some (False, ld, w\<lparr>errno := EINVAL\<rparr>)
      else case hwx_pread_exact fd 8 (ld_offset ld) w of
        (None, w1) \<Rightarrow> Some (False, ld, w1)
      | (Some raw, w1) \<Rightarrow>
          Option.bind (get_load_command raw) (\<lambda>lc.
            if lc_cmdsize lc < 8 \<or> ucast (lc_cmdsize lc) > ld_remaining_bytes ld
            then Some (False, ld, w1\<lparr>errno := EINVAL\<rparr>)
            else Option.bind (load_command_body fd file_size lc ld w1) (\<lambda>(ok, ld1, w2).
              if ok then load_commands remaining_cmds fd file_size (advance (lc_cmdsize lc) ld1) w2
              else Some (False, ld1, w2))))"

section \<open>Opening and closing a file\<close>

definition hwx_free_segments :: "hwx_segment list \<Rightarrow> ptr \<Rightarrow> u32 \<Rightarrow> io \<Rightarrow> io option" where
  "hwx_free_segments segments p count w =
     (if p = None then Some w
      else Option.bind (arr_prefix segments (unat count)) (\<lambda>sgs.
        free_all (map seg_sections_ptr sgs @ [p]) w))"

definition hwx_free_thread_states :: "hwx_thread_state list \<Rightarrow> ptr \<Rightarrow> u32 \<Rightarrow> io \<Rightarrow> io option" where
  "hwx_free_thread_states states p count w =
     (if p = None then Some w
      else Option.bind (arr_prefix states (unat count)) (\<lambda>sts.
        free_all (map thr_data_ptr sts @ [p]) w))"

text \<open>The label \<open>error\<close> of \<open>hwx_open\<close>.\<close>

definition open_error :: "nat \<Rightarrow> ptr \<Rightarrow> loader \<Rightarrow> io \<Rightarrow> (hwx_file option \<times> io) option" where
  "open_error fd file ld w = do {
     w1 \<leftarrow> hwx_free_thread_states (ld_thread_states ld) (ld_thread_states_ptr ld)
             (ld_thread_state_count ld) w;
     w2 \<leftarrow> hwx_free_segments (ld_segments ld) (ld_segments_ptr ld) (ld_segment_count ld) w1;
     w3 \<leftarrow> os_free file (os_close fd w2);
     Some (None, w3) }"

definition init_loader :: "mach_header \<Rightarrow> loader" where
  "init_loader header = \<lparr>ld_offset = 32, ld_remaining_bytes = ucast (hd_sizeofcmds header),
     ld_segments = [], ld_segments_ptr = None, ld_segment_count = 0,
     ld_thread_states = [], ld_thread_states_ptr = None, ld_thread_state_count = 0\<rparr>"

definition loaded_file :: "nat \<Rightarrow> u64 \<Rightarrow> mach_header \<Rightarrow> nat \<Rightarrow> loader \<Rightarrow> hwx_file" where
  "loaded_file fd file_size header self ld =
     (let file = \<lparr>hf_fd = fd, hf_file_size = file_size, hf_header = header,
          hf_segments = ld_segments ld, hf_segments_ptr = ld_segments_ptr ld,
          hf_segment_count = ld_segment_count ld, hf_td_version = 0,
          hf_thread_states = ld_thread_states ld, hf_thread_states_ptr = ld_thread_states_ptr ld,
          hf_thread_state_count = ld_thread_state_count ld, hf_self = self\<rparr>
      in file\<lparr>hf_td_version := hwx_td_version_for_cpu (hwx_cpu_subtype (Some file))\<rparr>)"

text \<open>\<open>hwx_open\<close> from the point where the \<open>struct hwx_file\<close> is allocated.\<close>

definition open_commands :: "nat \<Rightarrow> u64 \<Rightarrow> mach_header \<Rightarrow> nat \<Rightarrow> io \<Rightarrow> (hwx_file option \<times> io) option" where
  "open_commands fd file_size header self w =
     Option.bind (load_commands (unat (hd_ncmds header)) fd file_size (init_loader header) w)
       (\<lambda>(ok, ld, w1).
         if \<not> ok then open_error fd (Some self) ld w1
         else if ld_remaining_bytes ld \<noteq> 0
         then open_error fd (Some self) ld (w1\<lparr>errno := EINVAL\<rparr>)
         else let file = loaded_file fd file_size header self ld in
           if found (hwx_get_tsk_section (Some file)) = None \<or>
              found (hwx_get_krn_section (Some file)) = None
           then open_error fd (Some self) ld (w1\<lparr>errno := ENOENT\<rparr>)
           else Some (Some file, w1))"

definition open_header :: "nat \<Rightarrow> u64 \<Rightarrow> io \<Rightarrow> (hwx_file option \<times> io) option" where
  "open_header fd file_size w =
     (case hwx_pread_exact fd 32 0 w of
        (None, w1) \<Rightarrow> Some (None, os_close fd w1)
      | (Some raw, w1) \<Rightarrow>
          Option.bind (get_mach_header raw) (\<lambda>header.
            if hd_magic header \<noteq> HWX_MACHO_MAGIC_64
            then Some (None, (os_close fd w1)\<lparr>errno := EINVAL\<rparr>)
            else if \<not> hwx_within_file file_size 32 (ucast (hd_sizeofcmds header))
            then Some (None, (os_close fd w1)\<lparr>errno := EINVAL\<rparr>)
            else case os_malloc w1 of
                (None, w2) \<Rightarrow> Some (None, os_close fd w2)
              | (Some self, w2) \<Rightarrow> open_commands fd file_size header self w2))"

definition hwx_open :: "string option \<Rightarrow> io \<Rightarrow> (hwx_file option \<times> io) option" where
  "hwx_open path w =
     (case path of
        None \<Rightarrow> Some (None, w\<lparr>errno := EINVAL\<rparr>)
      | Some p \<Rightarrow>
          (case os_open p w of
             (None, w1) \<Rightarrow> Some (None, w1)
           | (Some fd, w1) \<Rightarrow>
               Option.bind (fds w1 fd) (\<lambda>ino.
                 case stat_error ino of
                   Some e \<Rightarrow> Some (None, os_close fd (w1\<lparr>errno := e\<rparr>))
                 | None \<Rightarrow>
                     if \<not> is_regular ino then Some (None, (os_close fd w1)\<lparr>errno := EINVAL\<rparr>)
                     else open_header fd (of_nat (length (contents ino))) w1)))"

definition hwx_close :: "hwx_file option \<Rightarrow> io \<Rightarrow> io option" where
  "hwx_close f w =
     (case f of
        None \<Rightarrow> Some w
      | Some file \<Rightarrow> do {
          w1 \<leftarrow> hwx_free_segments (hf_segments file) (hf_segments_ptr file)
                  (hf_segment_count file) w;
          w2 \<leftarrow> hwx_free_thread_states (hf_thread_states file) (hf_thread_states_ptr file)
                  (hf_thread_state_count file) w1;
          os_free (Some (hf_self file)) (os_close (hf_fd file) w2) })"

end
