(* ===== verification/Hwx_Open_Safe.thy ===== *)
theory Hwx_Open_Safe
  imports Hwx_Open "HOL-Library.Multiset"
begin

text \<open>
  Memory and resource safety of the loader. \<open>heap_ok L M w\<close> says that the live blocks are
  those of the caller (\<open>L\<close>) and, each once, the blocks of the multiset \<open>M\<close> the loader
  owns; every step of the loader keeps it, on success and on every error path. What a step
  may do when its input is a truncated segment command is stated with it.
\<close>

section \<open>The heap\<close>

definition heap_ok :: "nat set \<Rightarrow> nat multiset \<Rightarrow> io \<Rightarrow> bool" where
  "heap_ok L M w \<longleftrightarrow> live w = L \<union> set_mset M \<and> (\<forall>x \<in># M. count M x = 1 \<and> x \<notin> L) \<and>
     (\<forall>b \<in> live w. b < fresh w)"

lemma heap_ok_errno [simp]: "heap_ok L M (w\<lparr>errno := e\<rparr>) = heap_ok L M w"
  by (simp add: heap_ok_def)

lemma heap_ok_same_res: "same_res w w1 \<Longrightarrow> heap_ok L M w1 = heap_ok L M w"
  by (simp add: heap_ok_def same_res_def)

lemma heap_ok_close [simp]: "heap_ok L M (os_close fd w) = heap_ok L M w"
  by (simp add: heap_ok_def os_close_def)

lemma heap_ok_fresh:
  assumes "heap_ok L M w"
  shows "heap_ok L (add_mset (fresh w) M)
    (w\<lparr>alloc_fail := r, live := insert (fresh w) (live w), fresh := Suc (fresh w)\<rparr>)"
proof -
  have "fresh w \<notin> live w"
    using assms by (auto simp: heap_ok_def)
  with assms show ?thesis
    by (auto simp: heap_ok_def count_eq_zero_iff less_Suc_eq)
qed

lemma os_malloc_cases:
  assumes "heap_ok L M w"
  obtains (null) w1 where "os_malloc w = (None, w1)" "heap_ok L M w1" "fds w1 = fds w"
  | (block) b w1 where "os_malloc w = (Some b, w1)" "heap_ok L (add_mset b M) w1" "fds w1 = fds w"
proof -
  let ?ok = "w\<lparr>alloc_fail := tl (alloc_fail w), live := insert (fresh w) (live w),
    fresh := Suc (fresh w)\<rparr>"
  have "os_malloc w = (Some (fresh w), ?ok) \<or>
      os_malloc w = (None, w\<lparr>alloc_fail := tl (alloc_fail w), errno := ENOMEM\<rparr>)"
    by (auto simp: os_malloc_def split: list.split bool.split)
  then show thesis
  proof
    assume "os_malloc w = (Some (fresh w), ?ok)"
    then show thesis
      by (rule block [OF _ heap_ok_fresh [OF assms]]) simp
  next
    assume m: "os_malloc w = (None, w\<lparr>alloc_fail := tl (alloc_fail w), errno := ENOMEM\<rparr>)"
    have "heap_ok L M (w\<lparr>alloc_fail := tl (alloc_fail w), errno := ENOMEM\<rparr>)"
      using assms by (simp add: heap_ok_def)
    with m show thesis by (rule null) simp
  qed
qed

lemma heap_ok_free:
  assumes "heap_ok L (add_mset b M) w"
  shows "\<exists>w1. os_free (Some b) w = Some w1 \<and> heap_ok L M w1 \<and> fds w1 = fds w \<and> errno w1 = errno w"
proof -
  have b: "b \<notin># M" "b \<notin> L"
    using assms by (auto simp: heap_ok_def count_eq_zero_iff)
  have "count M x = 1 \<and> x \<notin> L" if "x \<in># M" for x
    using assms that b by (auto simp: heap_ok_def split: if_splits)
  with assms b show ?thesis
    by (auto simp: heap_ok_def os_free_def)
qed

lemma heap_ok_free_all:
  assumes "heap_ok L (mset (blocks ps) + M) w"
  shows "\<exists>w1. free_all ps w = Some w1 \<and> heap_ok L M w1 \<and> fds w1 = fds w \<and> errno w1 = errno w"
  using assms
proof (induction ps arbitrary: w)
  case Nil
  then show ?case by simp
next
  case (Cons p ps)
  show ?case
  proof (cases p)
    case None
    with Cons show ?thesis by (auto simp: os_free_def)
  next
    case (Some b)
    with Cons.prems have "heap_ok L (add_mset b (mset (blocks ps) + M)) w" by simp
    from heap_ok_free [OF this] obtain w1 where
      "os_free (Some b) w = Some w1" "heap_ok L (mset (blocks ps) + M) w1"
      "fds w1 = fds w" "errno w1 = errno w" by blast
    with Cons.IH Some show ?thesis by fastforce
  qed
qed

lemma os_realloc_cases:
  assumes "heap_ok L (mset (blocks [p]) + M) w"
  obtains (null) w1 where "os_realloc p w = Some (None, w1)"
      "heap_ok L (mset (blocks [p]) + M) w1" "fds w1 = fds w"
  | (block) b w1 where "os_realloc p w = Some (Some b, w1)"
      "heap_ok L (add_mset b M) w1" "fds w1 = fds w"
  using assms
proof (cases rule: os_malloc_cases)
  case (null w1)
  then have "os_realloc p w = Some (None, w1)"
    by (simp add: os_realloc_def)
  with null show thesis by (intro that(1))
next
  case (block b w1)
  have "heap_ok L (mset (blocks [p]) + add_mset b M) w1"
    using block(2) by simp
  from heap_ok_free_all [OF this] obtain w2 where
    w2: "free_all [p] w1 = Some w2" "heap_ok L (add_mset b M) w2" "fds w2 = fds w1" by blast
  then have "os_free p w1 = Some w2" by (cases "os_free p w1") auto
  with block have "os_realloc p w = Some (Some b, w2)"
    by (simp add: os_realloc_def)
  then show thesis
    by (rule that(2) [OF _ w2(2)]) (use block w2 in simp)
qed

section \<open>The loader's invariant\<close>

definition seg_blocks :: "loader \<Rightarrow> ptr list" where
  "seg_blocks ld = map seg_sections_ptr (ld_segments ld) @ [ld_segments_ptr ld]"

definition thr_blocks :: "loader \<Rightarrow> ptr list" where
  "thr_blocks ld = map thr_data_ptr (ld_thread_states ld) @ [ld_thread_states_ptr ld]"

definition owned :: "loader \<Rightarrow> nat multiset" where
  "owned ld = mset (blocks (seg_blocks ld)) + mset (blocks (thr_blocks ld))"

definition section_wf :: "u64 \<Rightarrow> hwx_section \<Rightarrow> bool" where
  "section_wf fsz s \<longleftrightarrow>
     (sec_size s = 0 \<or> hwx_within_file fsz (ucast (sec_offset s)) (sec_size s)) \<and>
     length (sec_section_name s) \<le> 16 \<and> 0 \<notin> set (sec_section_name s) \<and>
     length (sec_segment_name s) \<le> 16 \<and> 0 \<notin> set (sec_segment_name s)"

definition segment_wf :: "u64 \<Rightarrow> hwx_segment \<Rightarrow> bool" where
  "segment_wf fsz sg \<longleftrightarrow> hwx_within_file fsz (seg_fileoff sg) (seg_filesize sg) \<and>
     length (seg_name sg) \<le> 16 \<and> 0 \<notin> set (seg_name sg) \<and>
     unat (seg_section_count sg) = length (seg_sections sg) \<and>
     (seg_sections_ptr sg = None \<longleftrightarrow> seg_sections sg = []) \<and>
     list_all (section_wf fsz) (seg_sections sg)"

definition thread_wf :: "hwx_thread_state \<Rightarrow> bool" where
  "thread_wf st \<longleftrightarrow> unat (thr_byte_size st) = length (thr_data st) \<and>
     length (thr_data st) \<le> 4 * unat (thr_count st) \<and>
     (thr_data_ptr st = None \<longleftrightarrow> thr_data st = [])"

definition shape_ok :: "u64 \<Rightarrow> loader \<Rightarrow> bool" where
  "shape_ok fsz ld \<longleftrightarrow>
     unat (ld_segment_count ld) = length (ld_segments ld) \<and>
     unat (ld_thread_state_count ld) = length (ld_thread_states ld) \<and>
     (ld_segments_ptr ld = None \<longleftrightarrow> ld_segments ld = []) \<and>
     (ld_thread_states_ptr ld = None \<longleftrightarrow> ld_thread_states ld = []) \<and>
     list_all (segment_wf fsz) (ld_segments ld) \<and>
     list_all thread_wf (ld_thread_states ld)"

text \<open>Entries loaded so far; every entry took at least eight bytes of the commands.\<close>
definition entries :: "loader \<Rightarrow> nat" where
  "entries ld = length (ld_segments ld) + length (ld_thread_states ld)"

definition loader_ok :: "(nat \<rightharpoonup> inode) \<Rightarrow> nat set \<Rightarrow> u64 \<Rightarrow> nat multiset \<Rightarrow> loader \<Rightarrow> io \<Rightarrow> bool" where
  "loader_ok F L fsz M ld w \<longleftrightarrow> heap_ok L (M + owned ld) w \<and> shape_ok fsz ld \<and> fds w = F"

text \<open>
  The result of a step: undefined only under \<open>Q\<close>; otherwise the invariant holds with
  nothing else owned, the cursor fields are unchanged, and after a success at most \<open>n\<close>
  entries were added.
\<close>
definition step_ok ::
  "(nat \<rightharpoonup> inode) \<Rightarrow> nat set \<Rightarrow> u64 \<Rightarrow> bool \<Rightarrow> nat \<Rightarrow> loader \<Rightarrow> step_result \<Rightarrow> bool" where
  "step_ok F L fsz Q n ld res \<longleftrightarrow>
     (case res of
        None \<Rightarrow> Q
      | Some (ok, ld1, w1) \<Rightarrow> loader_ok F L fsz {#} ld1 w1 \<and>
          ld_offset ld1 = ld_offset ld \<and> ld_remaining_bytes ld1 = ld_remaining_bytes ld \<and>
          (ok \<longrightarrow> entries ld1 \<le> entries ld + n))"

lemma loader_ok_errno [simp]: "loader_ok F L fsz M ld (w\<lparr>errno := e\<rparr>) = loader_ok F L fsz M ld w"
  by (simp add: loader_ok_def)

lemma step_ok_fail:
  assumes "loader_ok F L fsz (mset (blocks ps)) ld w"
  shows "step_ok F L fsz Q n ld (fail_free ps ld w)"
proof -
  have "heap_ok L (mset (blocks ps) + owned ld) w"
    using assms by (simp add: loader_ok_def)
  from heap_ok_free_all [OF this] assms show ?thesis
    by (auto simp: step_ok_def fail_free_def loader_ok_def)
qed

section \<open>Segment commands\<close>

lemma hwx_trim_name_16:
  assumes "length raw = 16" and "hwx_trim_name raw 16 = Some name"
  shows "length name \<le> 16" and "0 \<notin> set name"
proof -
  have name: "name = takeWhile (\<lambda>b. b \<noteq> 0) (take 16 raw)"
    using assms by (simp add: hwx_trim_name_eq)
  show "length name \<le> 16"
    using assms(1) length_takeWhile_le [of _ raw] by (simp add: name)
  show "0 \<notin> set name"
    by (auto simp: name dest: set_takeWhileD)
qed

lemma get_section64_names:
  assumes "get_section64 b off = Some s"
  shows "length (sec_section_name s) \<le> 16 \<and> 0 \<notin> set (sec_section_name s) \<and>
    length (sec_segment_name s) \<le> 16 \<and> 0 \<notin> set (sec_segment_name s)"
  using assms
  by (auto simp: get_section64_def bind_eq_Some_conv
      dest!: mem_read_length dest: hwx_trim_name_16)

lemma get_section64_ok:
  assumes "off + 80 \<le> length b"
  shows "\<exists>s. get_section64 b off = Some s \<and>
    length (sec_section_name s) \<le> 16 \<and> 0 \<notin> set (sec_section_name s) \<and>
    length (sec_segment_name s) \<le> 16 \<and> 0 \<notin> set (sec_segment_name s)"
proof -
  have "hwx_trim_name raw 16 \<noteq> None" if "mem_read b k 16 = Some raw" for k raw
    using mem_read_length [OF that] by (simp add: hwx_trim_name_eq)
  then have "get_section64 b off \<noteq> None"
    using assms by (auto simp: get_section64_def bind_eq_None_conv get_u32_None_iff
        get_u64_None_iff mem_read_None_iff)
  then obtain s where "get_section64 b off = Some s" by blast
  with get_section64_names [OF this] show ?thesis by blast
qed

lemma load_sections_ok:
  assumes "72 + 80 * (i + n) \<le> length buf" and "list_all (section_wf fsz) acc"
  shows "\<exists>r. load_sections fsz buf i n acc = Some r \<and>
    (\<forall>ss. r = Some ss \<longrightarrow> length ss = length acc + n \<and> list_all (section_wf fsz) ss)"
  using assms
proof (induction n arbitrary: i acc)
  case 0
  then show ?case by simp
next
  case (Suc n)
  obtain s where s: "get_section64 buf (72 + 80 * i) = Some s"
    "length (sec_section_name s) \<le> 16 \<and> 0 \<notin> set (sec_section_name s) \<and>
     length (sec_segment_name s) \<le> 16 \<and> 0 \<notin> set (sec_segment_name s)"
    using get_section64_ok [of "72 + 80 * i" buf] Suc.prems(1) by auto
  show ?case
  proof (cases "sec_size s \<noteq> 0 \<and> \<not> hwx_within_file fsz (ucast (sec_offset s)) (sec_size s)")
    case True
    with s show ?thesis by simp
  next
    case False
    then have "section_wf fsz s"
      using s(2) by (auto simp: section_wf_def)
    with Suc.prems(2) have "list_all (section_wf fsz) (acc @ [s])" by simp
    with Suc.IH [of "Suc i" "acc @ [s]"] Suc.prems(1) False s show ?thesis
      by auto
  qed
qed

lemma push_segment_ok:
  assumes ok: "loader_ok F L fsz (mset (blocks [buffer, seg_sections_ptr sg])) ld w"
    and sg: "segment_wf fsz sg" and room: "Suc (entries ld) < 2 ^ 32"
  shows "step_ok F L fsz False 1 ld (push_segment sg buffer ld w)"
proof -
  define R where "R = mset (blocks [buffer]) + mset (blocks [seg_sections_ptr sg]) +
    mset (blocks (map seg_sections_ptr (ld_segments ld))) + mset (blocks (thr_blocks ld))"
  have "mset (blocks [ld_segments_ptr ld]) + R = mset (blocks [buffer, seg_sections_ptr sg]) + owned ld"
    by (cases buffer; cases "seg_sections_ptr sg"; cases "ld_segments_ptr ld")
      (simp_all add: R_def owned_def seg_blocks_def)
  then have "heap_ok L (mset (blocks [ld_segments_ptr ld]) + R) w"
    using ok by (simp add: loader_ok_def)
  then show ?thesis
  proof (cases rule: os_realloc_cases)
    case (null w1)
    then have "loader_ok F L fsz (mset (blocks [buffer, seg_sections_ptr sg])) ld w1"
      using ok \<open>_ = mset (blocks [buffer, seg_sections_ptr sg]) + owned ld\<close>
      by (simp add: loader_ok_def)
    from step_ok_fail [OF this] null show ?thesis
      by (simp add: push_segment_def)
  next
    case (block p w1)
    define ld1 where "ld1 = ld\<lparr>ld_segments_ptr := Some p, ld_segments := ld_segments ld @ [sg],
      ld_segment_count := ld_segment_count ld + 1\<rparr>"
    have "mset (blocks [buffer]) + owned ld1 = add_mset p R"
      by (cases buffer; cases "seg_sections_ptr sg")
        (simp_all add: R_def owned_def seg_blocks_def thr_blocks_def ld1_def)
    then have "heap_ok L (mset (blocks [buffer]) + owned ld1) w1"
      using block by simp
    from heap_ok_free_all [OF this] obtain w2 where
      w2: "free_all [buffer] w1 = Some w2" "heap_ok L (owned ld1) w2" "fds w2 = fds w1" by blast
    then have "os_free buffer w1 = Some w2" by (cases "os_free buffer w1") auto
    moreover have "shape_ok fsz ld1"
      using ok sg room
      by (simp add: shape_ok_def loader_ok_def ld1_def entries_def unat_plus_if')
    ultimately show ?thesis
      using block w2 ok
      by (simp add: push_segment_def step_ok_def loader_ok_def ld1_def entries_def)
  qed
qed

lemma get_segment64_fields:
  assumes "get_segment64 buf n = Some sg"
  shows "seg_section_count sg = n" and "seg_sections sg = []" and "seg_sections_ptr sg = None"
    and "length (seg_name sg) \<le> 16" and "0 \<notin> set (seg_name sg)"
  using assms
  by (auto simp: get_segment64_def bind_eq_Some_conv
      dest!: mem_read_length dest: hwx_trim_name_16)

lemma get_segment64_ok:
  assumes "72 \<le> length buf"
  shows "\<exists>sg. get_segment64 buf n = Some sg"
proof -
  have "hwx_trim_name raw 16 \<noteq> None" if "mem_read buf k 16 = Some raw" for k raw
    using mem_read_length [OF that] by (simp add: hwx_trim_name_eq)
  then have "get_segment64 buf n \<noteq> None"
    using assms by (auto simp: get_segment64_def bind_eq_None_conv get_u32_None_iff
        get_u64_None_iff mem_read_None_iff)
  then show ?thesis by blast
qed

lemma unat_segment_expected: "unat (segment_expected n) = 72 + 80 * unat n"
proof -
  have "unat (ucast n * 80 :: u64) = unat n * 80"
    using u32_less [of n] by (subst unat_mult_less) auto
  then show ?thesis
    using u32_less [of n] by (simp add: segment_expected_def unat_plus_if')
qed

lemma step_ok_mono: "step_ok F L fsz Q n ld res \<Longrightarrow> (Q \<Longrightarrow> Q') \<Longrightarrow> n \<le> m \<Longrightarrow> step_ok F L fsz Q' m ld res"
  by (auto simp: step_ok_def split: option.splits)

lemma parse_segment_ok:
  assumes ok: "loader_ok F L fsz (mset (blocks [buffer])) ld w"
    and len: "length buf = unat cmdsize" and room: "Suc (entries ld) < 2 ^ 32"
  shows "step_ok F L fsz (unat cmdsize < 68) 1 ld (parse_segment fsz cmdsize buf buffer ld w)"
proof (cases "get_u32 buf 64")
  case None
  then have "unat cmdsize < 68"
    using len by (simp add: get_u32_None_iff)
  with None show ?thesis
    by (simp add: parse_segment_def step_ok_def)
next
  case nsects: (Some nsects)
  have fail: "step_ok F L fsz (unat cmdsize < 68) 1 ld (fail_free [buffer] ld (w\<lparr>errno := e\<rparr>))" for e
    using ok by (intro step_ok_fail) simp
  show ?thesis
  proof (cases "ucast cmdsize < segment_expected nsects")
    case True
    with nsects fail show ?thesis by (simp add: parse_segment_def)
  next
    case False
    then have size: "72 + 80 * unat nsects \<le> length buf"
      by (simp add: len word_less_nat_alt unat_segment_expected)
    obtain sg where sg: "get_segment64 buf nsects = Some sg"
      using get_segment64_ok [of buf nsects] size by auto
    note fields = get_segment64_fields [OF sg]
    show ?thesis
    proof (cases "hwx_within_file fsz (seg_fileoff sg) (seg_filesize sg)")
      case outside: False
      with nsects sg fail \<open>\<not> ucast cmdsize < _\<close> show ?thesis by (simp add: parse_segment_def)
    next
      case within: True
      show ?thesis
      proof (cases "nsects = 0")
        case True
        with within fields have "segment_wf fsz sg" by (simp add: segment_wf_def)
        then have "step_ok F L fsz False 1 ld (push_segment sg buffer ld w)"
          using ok fields room by (intro push_segment_ok) (cases buffer; simp)+
        with nsects sg within True fields \<open>\<not> ucast cmdsize < _\<close> show ?thesis
          by (auto simp: parse_segment_def intro: step_ok_mono)
      next
        case nz: False
        then have pos: "seg_section_count sg > 0"
          by (simp add: fields word_gt_0)
        from ok have "heap_ok L (mset (blocks [buffer]) + owned ld) w"
          by (simp add: loader_ok_def)
        then show ?thesis
        proof (cases rule: os_malloc_cases)
          case (null w1)
          then have "loader_ok F L fsz (mset (blocks [buffer])) ld w1"
            using ok by (simp add: loader_ok_def)
          from step_ok_fail [OF this] null nsects sg within pos \<open>\<not> ucast cmdsize < _\<close>
          show ?thesis by (simp add: parse_segment_def)
        next
          case (block p w1)
          then have ok1: "loader_ok F L fsz (mset (blocks [buffer, Some p])) ld w1"
            using ok by (cases buffer) (simp_all add: loader_ok_def add_mset_commute)
          obtain r where r: "load_sections fsz buf 0 (unat nsects) [] = Some r"
            "\<And>ss. r = Some ss \<Longrightarrow> length ss = unat nsects \<and> list_all (section_wf fsz) ss"
            using load_sections_ok [of 0 "unat nsects" buf fsz "[]"] size by auto
          show ?thesis
          proof (cases r)
            case None
            from step_ok_fail [OF ok1, of "unat cmdsize < 68" 1]
            have "step_ok F L fsz (unat cmdsize < 68) 1 ld
              (map_option (\<lambda>(ok, ld1, w2). (ok, ld1, w2\<lparr>errno := EINVAL\<rparr>))
                (fail_free [buffer, Some p] ld w1))"
              by (auto simp: step_ok_def split: option.splits)
            with None r(1) block nsects sg within pos fields \<open>\<not> ucast cmdsize < _\<close>
            show ?thesis by (simp add: parse_segment_def)
          next
            case (Some ss)
            let ?sg = "sg\<lparr>seg_sections := ss, seg_sections_ptr := Some p\<rparr>"
            have "segment_wf fsz ?sg"
              using r(2) [OF Some] within fields nz
              by (auto simp: segment_wf_def unat_eq_zero [symmetric] simp del: unat_eq_zero)
            then have "step_ok F L fsz False 1 ld (push_segment ?sg buffer ld w1)"
              using ok1 room by (intro push_segment_ok) auto
            with Some r(1) block nsects sg within pos fields \<open>\<not> ucast cmdsize < _\<close>
            show ?thesis by (auto simp: parse_segment_def intro: step_ok_mono)
          qed
        qed
      qed
    qed
  qed
qed

section \<open>Thread commands\<close>

lemma push_thread_state_ok:
  assumes ok: "loader_ok F L fsz (mset (blocks [thr_data_ptr st, buffer])) ld w"
    and st: "thread_wf st" and room: "Suc (entries ld) < 2 ^ 32"
  obtains (fail) w1 where "push_thread_state st buffer ld w = Some (False, ld, w1)"
      "loader_ok F L fsz {#} ld w1"
  | (pushed) ld1 w1 where "push_thread_state st buffer ld w = Some (True, ld1, w1)"
      "loader_ok F L fsz (mset (blocks [buffer])) ld1 w1" "entries ld1 = Suc (entries ld)"
      "ld_offset ld1 = ld_offset ld" "ld_remaining_bytes ld1 = ld_remaining_bytes ld"
proof -
  define R where "R = mset (blocks [buffer]) + mset (blocks [thr_data_ptr st]) +
    mset (blocks (map thr_data_ptr (ld_thread_states ld))) + mset (blocks (seg_blocks ld))"
  have R: "mset (blocks [ld_thread_states_ptr ld]) + R =
      mset (blocks [thr_data_ptr st, buffer]) + owned ld"
    by (cases buffer; cases "thr_data_ptr st"; cases "ld_thread_states_ptr ld")
      (simp_all add: R_def owned_def thr_blocks_def)
  then have "heap_ok L (mset (blocks [ld_thread_states_ptr ld]) + R) w"
    using ok by (simp add: loader_ok_def)
  then show thesis
  proof (cases rule: os_realloc_cases)
    case (null w1)
    then have "heap_ok L (mset (blocks [thr_data_ptr st, buffer]) + owned ld) w1"
      using R by simp
    from heap_ok_free_all [OF this] obtain w2 where
      w2: "free_all [thr_data_ptr st, buffer] w1 = Some w2" "heap_ok L (owned ld) w2"
        "fds w2 = fds w1" by blast
    show thesis
      by (rule fail) (use null w2 ok in \<open>simp_all add: push_thread_state_def fail_free_def
        loader_ok_def del: free_all.simps\<close>)
  next
    case (block p w1)
    define ld1 where "ld1 = ld\<lparr>ld_thread_states_ptr := Some p,
      ld_thread_states := ld_thread_states ld @ [st],
      ld_thread_state_count := ld_thread_state_count ld + 1\<rparr>"
    have "mset (blocks [buffer]) + owned ld1 = add_mset p R"
      by (cases buffer; cases "thr_data_ptr st")
        (simp_all add: R_def owned_def seg_blocks_def thr_blocks_def ld1_def)
    then have "heap_ok L (mset (blocks [buffer]) + owned ld1) w1"
      using block by simp
    moreover have "shape_ok fsz ld1"
      using ok st room by (simp add: shape_ok_def loader_ok_def ld1_def entries_def unat_plus_if')
    ultimately show thesis
      by (intro pushed [of ld1 w1])
        (use block ok in \<open>simp_all add: push_thread_state_def loader_ok_def ld1_def entries_def\<close>)
  qed
qed

lemma payload_bytes_eq: "payload_bytes cnt rem = Some (min (min (4 * unat cnt) rem) 0xFFFFFFFF)"
  by (auto simp: payload_bytes_def Let_def min_def)

lemma parse_thread_states_ok:
  assumes "loader_ok F L fsz (mset (blocks [buffer])) ld w"
    and "cursor + remaining = length buf" and "entries ld + remaining div 8 < 2 ^ 32"
  shows "step_ok F L fsz False (remaining div 8) ld
    (parse_thread_states buf buffer cursor remaining ld w)"
  using assms
proof (induction buf buffer cursor remaining ld w rule: parse_thread_states.induct)
  case (1 buf buffer cursor remaining ld w)
  note IH = "1.IH" and ok = "1.prems"(1) and len = "1.prems"(2) and room = "1.prems"(3)
  show ?case
  proof (cases "remaining < 8")
    case True
    have "step_ok F L fsz False (remaining div 8) ld
        (map_option (\<lambda>w1. (True, ld, w1)) (free_all [buffer] w))"
      using step_ok_fail [OF ok, of False 0]
      by (auto simp: step_ok_def fail_free_def split: option.splits)
    moreover have "free_all [buffer] w = os_free buffer w"
      by (cases "os_free buffer w") auto
    ultimately show ?thesis
      using True by (subst parse_thread_states.simps) simp
  next
    case False
    then obtain flavor where flavor: "get_u32 buf cursor = Some flavor"
      using len by (cases "get_u32 buf cursor") (auto simp: get_u32_None_iff)
    obtain cnt where cnt: "get_u32 buf (cursor + 4) = Some cnt"
      using len False by (cases "get_u32 buf (cursor + 4)") (auto simp: get_u32_None_iff)
    define n where "n = min (min (4 * unat cnt) (remaining - 8)) 0xFFFFFFFF"
    have n: "payload_bytes cnt (remaining - 8) = Some n"
      by (simp add: payload_bytes_eq n_def)
    have n_le: "n \<le> remaining - 8" "n \<le> 4 * unat cnt" "n < 2 ^ 32"
      by (simp_all add: n_def)
    define st where "st = \<lparr>thr_flavor = flavor, thr_count = cnt, thr_byte_size = of_nat n,
      thr_data = [], thr_data_ptr = None\<rparr>"
    have room1: "Suc (entries ld) < 2 ^ 32"
      using room False by linarith
    show ?thesis
    proof (cases "n > 0")
      case zero: False
      then have wf: "thread_wf st"
        by (simp add: thread_wf_def st_def)
      have "loader_ok F L fsz (mset (blocks [thr_data_ptr st, buffer])) ld w"
        using ok by (simp add: st_def)
      then show ?thesis
        using wf room1
      proof (cases rule: push_thread_state_ok)
        case (fail w1)
        with False flavor cnt n zero show ?thesis
          by (subst parse_thread_states.simps) (simp add: st_def step_ok_def)
      next
        case (pushed ld1 w1)
        have "step_ok F L fsz False ((remaining - 8) div 8) ld1
            (parse_thread_states buf buffer (cursor + 8) (remaining - 8) ld1 w1)"
          by (rule IH(2) [OF False, of flavor cnt n st])
            (use flavor cnt n zero pushed len False room in \<open>auto simp: st_def\<close>)
        then have "step_ok F L fsz False (remaining div 8) ld
            (parse_thread_states buf buffer (cursor + 8) (remaining - 8) ld1 w1)"
          using pushed False by (auto simp: step_ok_def split: option.splits)
        with pushed False flavor cnt n zero show ?thesis
          by (subst parse_thread_states.simps) (simp add: st_def)
      qed
    next
      case pos: True
      from ok have "heap_ok L (mset (blocks [buffer]) + owned ld) w"
        by (simp add: loader_ok_def)
      then show ?thesis
      proof (cases rule: os_malloc_cases)
        case (null w1)
        then have "loader_ok F L fsz (mset (blocks [buffer])) ld w1"
          using ok by (simp add: loader_ok_def)
        from step_ok_fail [OF this] null False flavor cnt n pos show ?thesis
          by (subst parse_thread_states.simps) simp
      next
        case (block p w1)
        obtain payload where payload: "mem_read buf (cursor + 8) n = Some payload"
          using len False n_le by (cases "mem_read buf (cursor + 8) n") (auto simp: mem_simps)
        define st1 where "st1 = st\<lparr>thr_data := payload, thr_data_ptr := Some p\<rparr>"
        have wf: "thread_wf st1"
          using mem_read_length [OF payload] n_le pos
          by (auto simp: thread_wf_def st1_def st_def unat_of_nat)
        have "loader_ok F L fsz (mset (blocks [thr_data_ptr st1, buffer])) ld w1"
          using ok block by (simp add: st1_def loader_ok_def)
        then show ?thesis
          using wf room1
        proof (cases rule: push_thread_state_ok)
          case (fail w2)
          with False flavor cnt n pos block payload show ?thesis
            by (subst parse_thread_states.simps) (simp add: st1_def st_def step_ok_def)
        next
          case (pushed ld1 w2)
          have "step_ok F L fsz False ((remaining - 8 - n) div 8) ld1
              (parse_thread_states buf buffer (cursor + 8 + n) (remaining - 8 - n) ld1 w2)"
            by (rule IH(1) [OF False, of flavor cnt n st])
              (use flavor cnt n pos block payload pushed len False n_le room in
                \<open>auto simp: st1_def st_def\<close>)
          then have "step_ok F L fsz False (remaining div 8) ld
              (parse_thread_states buf buffer (cursor + 8 + n) (remaining - 8 - n) ld1 w2)"
            using pushed False by (auto simp: step_ok_def split: option.splits)
          with pushed False flavor cnt n pos block payload show ?thesis
            by (subst parse_thread_states.simps) (simp add: st1_def st_def)
        qed
      qed
    qed
  qed
qed

lemma parse_thread_ok:
  assumes "loader_ok F L fsz (mset (blocks [buffer])) ld w"
    and "length buf = unat cmdsize" and "entries ld + unat cmdsize div 8 < 2 ^ 32"
  shows "step_ok F L fsz False (unat cmdsize div 8) ld (parse_thread cmdsize buf buffer ld w)"
proof (cases "unat cmdsize < 8")
  case True
  with assms(1) show ?thesis
    by (auto simp: parse_thread_def intro!: step_ok_fail)
next
  case False
  then have "step_ok F L fsz False ((unat cmdsize - 8) div 8) ld
      (parse_thread_states buf buffer 8 (unat cmdsize - 8) ld w)"
    using assms by (intro parse_thread_states_ok) auto
  then have "step_ok F L fsz False (unat cmdsize div 8) ld
      (parse_thread_states buf buffer 8 (unat cmdsize - 8) ld w)"
    by (rule step_ok_mono) simp_all
  with False show ?thesis
    by (simp add: parse_thread_def)
qed

section \<open>The loop over the load commands\<close>

text \<open>
  The only input on which the loader reads outside a buffer: among the commands the loop
  can reach, each of at least 8 bytes and all within the \<open>rem\<close> bytes of commands, is an
  \<open>LC_SEGMENT_64\<close> of fewer than 68 bytes, whose \<open>nsects\<close> field is beyond the end of the
  allocation.
\<close>

fun short_segment :: "nat \<Rightarrow> nat \<Rightarrow> nat \<Rightarrow> bytes \<Rightarrow> bool" where
  "short_segment 0 off rem data = False"
| "short_segment (Suc n) off rem data =
     (case Option.bind (mem_read data off 8) get_load_command of
        None \<Rightarrow> False
      | Some lc \<Rightarrow> let k = unat (lc_cmdsize lc) in 8 \<le> k \<and> k \<le> rem \<and>
          (lc_cmd lc = HWX_LOAD_COMMAND_SEGMENT_64 \<and> k < 68 \<or>
           short_segment n (off + k) (rem - k) data))"

lemma with_command_ok:
  assumes ok: "loader_ok F L fsz {#} ld w" and fd: "F fd = Some ino"
    and small: "length (contents ino) < 2 ^ 63" and size: "8 \<le> unat cmdsize"
    and parse: "\<And>buf b w1. loader_ok F L fsz (mset (blocks [Some b])) ld w1 \<Longrightarrow>
      length buf = unat cmdsize \<Longrightarrow> step_ok F L fsz Q n ld (parse buf (Some b) ld w1)"
  shows "step_ok F L fsz Q n ld (with_command fd cmdsize parse ld w)"
proof -
  from ok have "heap_ok L (owned ld) w" by (simp add: loader_ok_def)
  then show ?thesis
  proof (cases rule: os_malloc_cases)
    case (null w1)
    with ok show ?thesis
      by (simp add: with_command_def step_ok_def loader_ok_def)
  next
    case (block b w1)
    obtain r w2 where r: "hwx_pread_exact fd (unat cmdsize) (ld_offset ld) w1 = (r, w2)"
      by fastforce
    have same: "same_res w1 w2" by (rule hwx_pread_exact_same_res [OF r])
    have ok2: "loader_ok F L fsz (mset (blocks [Some b])) ld w2"
      using ok block heap_ok_same_res [OF same] same
      by (simp add: loader_ok_def same_res_def)
    show ?thesis
    proof (cases r)
      case None
      with block r step_ok_fail [OF ok2] show ?thesis by (simp add: with_command_def)
    next
      case (Some buf)
      have "fds w1 fd = Some ino" using ok block fd by (simp add: loader_ok_def)
      then have "length buf = unat cmdsize"
        using hwx_pread_exact_data [OF r [unfolded Some]] small size by auto
      from parse [OF ok2 this] Some block r show ?thesis by (simp add: with_command_def)
    qed
  qed
qed

text \<open>What the loop keeps: the rest of the commands lies inside the file, and the number of
  entries fits the bytes consumed, so that the 32-bit counters do not wrap.\<close>

definition cursor_ok :: "nat \<Rightarrow> inode \<Rightarrow> loader \<Rightarrow> bool" where
  "cursor_ok S ino ld \<longleftrightarrow> 8 * entries ld + unat (ld_remaining_bytes ld) \<le> S \<and>
     unat (ld_offset ld) + unat (ld_remaining_bytes ld) \<le> length (contents ino)"

lemma load_command_body_ok:
  assumes ok: "loader_ok F L fsz {#} ld w" and fd: "F fd = Some ino"
    and small: "length (contents ino) < 2 ^ 63" and size: "8 \<le> unat (lc_cmdsize lc)"
    and room: "8 * entries ld + unat (lc_cmdsize lc) < 2 ^ 32"
  shows "step_ok F L fsz (lc_cmd lc = HWX_LOAD_COMMAND_SEGMENT_64 \<and> lc_cmdsize lc < 68)
    (unat (lc_cmdsize lc) div 8) ld (load_command_body fd fsz lc ld w)"
proof -
  have one: "1 \<le> unat (lc_cmdsize lc) div 8"
    using size by linarith
  have room1: "Suc (entries ld) < 2 ^ 32"
    using room size by linarith
  have room2: "entries ld + unat (lc_cmdsize lc) div 8 < 2 ^ 32"
    using room by linarith
  consider (seg) "lc_cmd lc = HWX_LOAD_COMMAND_SEGMENT_64"
    | (thr) "lc_cmd lc = HWX_LOAD_COMMAND_THREAD" "unat (lc_cmdsize lc) \<ge> 16"
    | (other) "lc_cmd lc \<noteq> HWX_LOAD_COMMAND_SEGMENT_64"
        "lc_cmd lc \<noteq> HWX_LOAD_COMMAND_THREAD \<or> unat (lc_cmdsize lc) < 16" by fastforce
  then show ?thesis
  proof cases
    case seg
    have "step_ok F L fsz (unat (lc_cmdsize lc) < 68) 1 ld
        (with_command fd (lc_cmdsize lc) (parse_segment fsz (lc_cmdsize lc)) ld w)"
      using room1 by (intro with_command_ok [OF ok fd small size] parse_segment_ok)
    then have "step_ok F L fsz (lc_cmd lc = HWX_LOAD_COMMAND_SEGMENT_64 \<and> lc_cmdsize lc < 68)
        (unat (lc_cmdsize lc) div 8) ld
        (with_command fd (lc_cmdsize lc) (parse_segment fsz (lc_cmdsize lc)) ld w)"
      by (rule step_ok_mono) (use seg one in \<open>simp_all add: word_less_nat_alt\<close>)
    with seg show ?thesis by (simp add: load_command_body_def)
  next
    case thr
    have "step_ok F L fsz False (unat (lc_cmdsize lc) div 8) ld
        (with_command fd (lc_cmdsize lc) (parse_thread (lc_cmdsize lc)) ld w)"
      using room2 by (intro with_command_ok [OF ok fd small size] parse_thread_ok)
    then have "step_ok F L fsz (lc_cmd lc = HWX_LOAD_COMMAND_SEGMENT_64 \<and> lc_cmdsize lc < 68)
        (unat (lc_cmdsize lc) div 8) ld
        (with_command fd (lc_cmdsize lc) (parse_thread (lc_cmdsize lc)) ld w)"
      by (rule step_ok_mono) simp_all
    with thr show ?thesis
      by (simp add: load_command_body_def)
  next
    case other
    with ok show ?thesis
      by (auto simp: load_command_body_def step_ok_def)
  qed
qed

lemma advance_simps [simp]:
  "loader_ok F L fsz M (advance n ld) w = loader_ok F L fsz M ld w"
  "entries (advance n ld) = entries ld"
  "ld_offset (advance n ld) = ld_offset ld + ucast n"
  "ld_remaining_bytes (advance n ld) = ld_remaining_bytes ld - ucast n"
  by (simp_all add: loader_ok_def owned_def seg_blocks_def thr_blocks_def shape_ok_def
      entries_def advance_def)

lemma cursor_ok_advance:
  assumes cur: "cursor_ok S ino ld" and small: "length (contents ino) < 2 ^ 63"
    and size: "\<not> ucast n > ld_remaining_bytes ld"
    and step: "ld_offset ld1 = ld_offset ld" "ld_remaining_bytes ld1 = ld_remaining_bytes ld"
      "entries ld1 \<le> entries ld + unat (n :: u32) div 8"
  shows "cursor_ok S ino (advance n ld1)"
    and "unat (ld_offset (advance n ld1)) = unat (ld_offset ld) + unat n"
    and "unat (ld_remaining_bytes (advance n ld1)) = unat (ld_remaining_bytes ld) - unat n"
proof -
  have le: "unat n \<le> unat (ld_remaining_bytes ld)"
    using size by (simp add: word_less_nat_alt)
  have sub: "unat (ld_remaining_bytes ld - ucast n) = unat (ld_remaining_bytes ld) - unat n"
    using le by (simp add: unat_sub_if')
  have add: "unat (ld_offset ld + ucast n) = unat (ld_offset ld) + unat n"
    using cur le small by (subst unat_plus_less) (auto simp: cursor_ok_def)
  have "8 * entries ld1 + (unat (ld_remaining_bytes ld) - unat n) \<le> S"
    using cur le step(3) by (simp add: cursor_ok_def) linarith
  then show "cursor_ok S ino (advance n ld1)"
    using cur le by (simp add: cursor_ok_def step sub add)
  show "unat (ld_offset (advance n ld1)) = unat (ld_offset ld) + unat n"
    by (simp add: step add)
  show "unat (ld_remaining_bytes (advance n ld1)) = unat (ld_remaining_bytes ld) - unat n"
    by (simp add: step sub)
qed

lemma get_load_command_ok: "length raw = 8 \<Longrightarrow> \<exists>lc. get_load_command raw = Some lc"
  by (simp add: get_load_command_def get_u32_def mem_read_def)

lemma load_commands_ok:
  assumes "loader_ok F L fsz {#} ld w" and "F fd = Some ino"
    and "length (contents ino) < 2 ^ 63" and "cursor_ok S ino ld" and "S < 2 ^ 32"
  shows "case load_commands n fd fsz ld w of
      None \<Rightarrow> short_segment n (unat (ld_offset ld)) (unat (ld_remaining_bytes ld)) (contents ino)
    | Some (ok, ld1, w1) \<Rightarrow> loader_ok F L fsz {#} ld1 w1"
  using assms
proof (induction n arbitrary: ld w)
  case 0
  then show ?case by simp
next
  case (Suc n)
  note ok = Suc.prems(1) and fd = Suc.prems(2) and small = Suc.prems(3) and cur = Suc.prems(4)
  show ?case
  proof (cases "ld_remaining_bytes ld < 8")
    case True
    with ok show ?thesis by simp
  next
    case rem: False
    obtain r w1 where r: "hwx_pread_exact fd 8 (ld_offset ld) w = (r, w1)" by fastforce
    note same = hwx_pread_exact_same_res [OF r]
    have ok1: "loader_ok F L fsz {#} ld w1"
      using ok heap_ok_same_res [OF same] same by (simp add: loader_ok_def same_res_def)
    show ?thesis
    proof (cases r)
      case None
      with rem r ok1 show ?thesis by simp
    next
      case (Some raw)
      have raw: "length raw = 8" "mem_read (contents ino) (unat (ld_offset ld)) 8 = Some raw"
        using hwx_pread_exact_data [OF r [unfolded Some]] ok fd small
        by (auto simp: loader_ok_def)
      obtain lc where lc: "get_load_command raw = Some lc"
        using get_load_command_ok [OF raw(1)] ..
      show ?thesis
      proof (cases "lc_cmdsize lc < 8 \<or> ucast (lc_cmdsize lc) > ld_remaining_bytes ld")
        case True
        with rem r Some lc ok1 show ?thesis by simp
      next
        case size: False
        then have eight: "8 \<le> unat (lc_cmdsize lc)"
          by (simp add: word_less_nat_alt)
        have fits: "unat (lc_cmdsize lc) \<le> unat (ld_remaining_bytes ld)"
          using size by (simp add: word_less_nat_alt)
        have room: "8 * entries ld + unat (lc_cmdsize lc) < 2 ^ 32"
          using cur fits Suc.prems(5) by (simp add: cursor_ok_def)
        note body = load_command_body_ok [OF ok1 fd small eight room]
        show ?thesis
        proof (cases "load_command_body fd fsz lc ld w1")
          case None
          with body have "short_segment (Suc n) (unat (ld_offset ld)) (unat (ld_remaining_bytes ld))
              (contents ino)"
            using raw lc eight fits by (simp add: step_ok_def word_less_nat_alt)
          with None rem r Some lc size show ?thesis by simp
        next
          case (Some res)
          obtain fin ld1 w2 where res: "res = (fin, ld1, w2)" by (cases res) auto
          have ok2: "loader_ok F L fsz {#} ld1 w2"
            and step: "ld_offset ld1 = ld_offset ld" "ld_remaining_bytes ld1 = ld_remaining_bytes ld"
            using body Some res by (simp_all add: step_ok_def)
          show ?thesis
          proof (cases fin)
            case False
            with Some res rem r \<open>r = Some raw\<close> lc size ok2 show ?thesis by simp
          next
            case True
            then have more: "entries ld1 \<le> entries ld + unat (lc_cmdsize lc) div 8"
              using body Some res by (simp add: step_ok_def)
            have "\<not> ucast (lc_cmdsize lc) > ld_remaining_bytes ld" using size by simp
            note next_cur = cursor_ok_advance [OF cur small this step more]
            have "case load_commands n fd fsz (advance (lc_cmdsize lc) ld1) w2 of
                None \<Rightarrow> short_segment n (unat (ld_offset (advance (lc_cmdsize lc) ld1)))
                  (unat (ld_remaining_bytes (advance (lc_cmdsize lc) ld1))) (contents ino)
              | Some (ok, ld1, w1) \<Rightarrow> loader_ok F L fsz {#} ld1 w1"
              by (rule Suc.IH [OF _ fd small next_cur(1) Suc.prems(5)]) (simp add: ok2)
            then have "case load_commands n fd fsz (advance (lc_cmdsize lc) ld1) w2 of
                None \<Rightarrow> short_segment (Suc n) (unat (ld_offset ld)) (unat (ld_remaining_bytes ld)) (contents ino)
              | Some (ok, ld1, w1) \<Rightarrow> loader_ok F L fsz {#} ld1 w1"
              unfolding next_cur(2,3) using raw(2) lc eight fits by (auto split: option.splits)
            with True Some res rem r \<open>r = Some raw\<close> lc size show ?thesis by simp
          qed
        qed
      qed
    qed
  qed
qed

section \<open>Opening and closing\<close>

text \<open>The blocks an open file owns, in the order \<open>hwx_close\<close> frees them.\<close>

definition file_blocks :: "hwx_file \<Rightarrow> ptr list" where
  "file_blocks f = map seg_sections_ptr (hf_segments f) @ [hf_segments_ptr f] @
     map thr_data_ptr (hf_thread_states f) @ [hf_thread_states_ptr f] @ [Some (hf_self f)]"

lemma file_blocks_mset:
  "mset (blocks (file_blocks f)) = mset (blocks (map seg_sections_ptr (hf_segments f))) +
     (mset (blocks [hf_segments_ptr f]) + (mset (blocks (map thr_data_ptr (hf_thread_states f))) +
     (mset (blocks [hf_thread_states_ptr f]) + {#hf_self f#})))"
  by (cases "hf_segments_ptr f"; cases "hf_thread_states_ptr f") (simp_all add: file_blocks_def)

definition file_counts_ok :: "hwx_file \<Rightarrow> bool" where
  "file_counts_ok f \<longleftrightarrow>
     unat (hf_segment_count f) = length (hf_segments f) \<and>
     unat (hf_thread_state_count f) = length (hf_thread_states f) \<and>
     (hf_segments_ptr f = None \<longleftrightarrow> hf_segments f = []) \<and>
     (hf_thread_states_ptr f = None \<longleftrightarrow> hf_thread_states f = [])"

text \<open>
  A well-formed open file: array counts are exact, every segment and section range lies
  inside the file, names are NUL-free and fit their fields, thread state payloads have the
  recorded size, the two sections of \<open>__TEXT\<close> the users rely on are there, and the task
  descriptor version is that of the header's CPU.
\<close>

definition file_wf :: "hwx_file \<Rightarrow> bool" where
  "file_wf f \<longleftrightarrow> file_counts_ok f \<and>
     list_all (segment_wf (hf_file_size f)) (hf_segments f) \<and>
     list_all thread_wf (hf_thread_states f) \<and>
     hd_magic (hf_header f) = HWX_MACHO_MAGIC_64 \<and>
     found (hwx_get_tsk_section (Some f)) \<noteq> None \<and> found (hwx_get_krn_section (Some f)) \<noteq> None \<and>
     hf_td_version f = hwx_td_version_for_cpu (hwx_cpu_subtype (Some f))"

lemma heap_ok_free_segments:
  assumes "heap_ok L (mset (blocks (map seg_sections_ptr sgs @ [p])) + M) w"
    and "unat n = length sgs" and "p = None \<longleftrightarrow> sgs = []"
  shows "\<exists>w1. hwx_free_segments sgs p n w = Some w1 \<and> heap_ok L M w1 \<and> fds w1 = fds w \<and>
    errno w1 = errno w"
proof (cases p)
  case None
  with assms show ?thesis by (auto simp: hwx_free_segments_def)
next
  case (Some b)
  with heap_ok_free_all [OF assms(1)] assms(2) show ?thesis
    by (simp add: hwx_free_segments_def)
qed

lemma heap_ok_free_thread_states:
  assumes "heap_ok L (mset (blocks (map thr_data_ptr sts @ [p])) + M) w"
    and "unat n = length sts" and "p = None \<longleftrightarrow> sts = []"
  shows "\<exists>w1. hwx_free_thread_states sts p n w = Some w1 \<and> heap_ok L M w1 \<and> fds w1 = fds w \<and>
    errno w1 = errno w"
proof (cases p)
  case None
  with assms show ?thesis by (auto simp: hwx_free_thread_states_def)
next
  case (Some b)
  with heap_ok_free_all [OF assms(1)] assms(2) show ?thesis
    by (simp add: hwx_free_thread_states_def)
qed

lemma open_error_ok:
  assumes "loader_ok F L fsz {#self#} ld w"
  shows "\<exists>w1. open_error fd (Some self) ld w = Some (None, w1) \<and> heap_ok L {#} w1 \<and>
    fds w1 = F(fd := None) \<and> errno w1 = errno w"
proof -
  have shape: "shape_ok fsz ld" and F: "fds w = F"
    using assms by (simp_all add: loader_ok_def)
  have "heap_ok L (mset (blocks (map thr_data_ptr (ld_thread_states ld) @ [ld_thread_states_ptr ld])) +
      (mset (blocks (map seg_sections_ptr (ld_segments ld) @ [ld_segments_ptr ld])) + {#self#})) w"
    using assms by (simp add: loader_ok_def owned_def seg_blocks_def thr_blocks_def ac_simps)
  from heap_ok_free_thread_states [OF this] shape obtain w1 where
    w1: "hwx_free_thread_states (ld_thread_states ld) (ld_thread_states_ptr ld)
        (ld_thread_state_count ld) w = Some w1"
      "heap_ok L (mset (blocks (map seg_sections_ptr (ld_segments ld) @ [ld_segments_ptr ld])) +
         {#self#}) w1" "fds w1 = fds w" "errno w1 = errno w"
    by (auto simp: shape_ok_def)
  from heap_ok_free_segments [OF w1(2)] shape obtain w2 where
    w2: "hwx_free_segments (ld_segments ld) (ld_segments_ptr ld) (ld_segment_count ld) w1 = Some w2"
      "heap_ok L {#self#} w2" "fds w2 = fds w1" "errno w2 = errno w1"
    by (auto simp: shape_ok_def)
  have "heap_ok L (add_mset self {#}) (os_close fd w2)"
    using w2 by simp
  from heap_ok_free [OF this] obtain w3 where
    "os_free (Some self) (os_close fd w2) = Some w3" "heap_ok L {#} w3"
    "fds w3 = fds (os_close fd w2)" "errno w3 = errno (os_close fd w2)" by blast
  with w1 w2 F show ?thesis
    by (simp add: open_error_def os_close_def)
qed

text \<open>A block of the caller's can be counted among the loader's, and back.\<close>

lemma heap_ok_move:
  assumes "b \<notin> L"
  shows "heap_ok (insert b L) M w \<Longrightarrow> heap_ok L (add_mset b M) w"
  using assms by (auto simp: heap_ok_def count_eq_zero_iff)

lemma heap_ok_unmove:
  assumes "heap_ok L (add_mset b M) w"
  shows "heap_ok (insert b L) M w" and "b \<notin> L"
proof -
  have "b \<notin># M"
    using assms by (auto simp: heap_ok_def count_eq_zero_iff)
  moreover have "count M x = 1 \<and> x \<notin> L" if "x \<in># M" for x
    using assms that calculation by (auto simp: heap_ok_def split: if_splits)
  ultimately show "heap_ok (insert b L) M w"
    using assms by (auto simp: heap_ok_def)
  show "b \<notin> L" using assms by (auto simp: heap_ok_def)
qed

text \<open>The environment before the call: the allocator hands out new names, and file sizes fit
  \<open>off_t\<close>.\<close>

definition io_ok :: "io \<Rightarrow> bool" where
  "io_ok w \<longleftrightarrow> (\<forall>b \<in> live w. b < fresh w) \<and> (\<forall>fd \<in> dom (fds w). fd < fresh w) \<and>
     (\<forall>p ino. paths w p = Inr ino \<longrightarrow> length (contents ino) < 2 ^ 63)"

definition short_file :: "bytes \<Rightarrow> bool" where
  "short_file data \<longleftrightarrow>
     (case Option.bind (mem_read data 0 32) get_mach_header of
        None \<Rightarrow> False
      | Some header \<Rightarrow> hd_magic header = HWX_MACHO_MAGIC_64 \<and>
          32 + unat (hd_sizeofcmds header) \<le> length data \<and>
          short_segment (unat (hd_ncmds header)) 32 (unat (hd_sizeofcmds header)) data)"

text \<open>What a call of the loader may give, from descriptor and heap as they were (\<open>F\<close>, \<open>L\<close>):
  undefined only for a truncated segment command, on failure everything is as it was, on
  success the file is well-formed and owns exactly its blocks and its descriptor.\<close>

definition open_result ::
  "(nat \<rightharpoonup> inode) \<Rightarrow> nat set \<Rightarrow> inode \<Rightarrow> nat \<Rightarrow> (hwx_file option \<times> io) option \<Rightarrow> bool" where
  "open_result F L ino fd res \<longleftrightarrow>
     (case res of
        None \<Rightarrow> short_file (contents ino)
      | Some (None, w1) \<Rightarrow> heap_ok L {#} w1 \<and> fds w1 = F(fd := None)
      | Some (Some f, w1) \<Rightarrow> heap_ok L (mset (blocks (file_blocks f))) w1 \<and> fds w1 = F \<and>
          file_wf f \<and> hf_fd f = fd \<and> hf_file_size f = of_nat (length (contents ino)) \<and>
          Option.bind (mem_read (contents ino) 0 32) get_mach_header = Some (hf_header f))"

lemma loaded_file_simps [simp]:
  "hf_fd (loaded_file fd fsz h self ld) = fd"
  "hf_file_size (loaded_file fd fsz h self ld) = fsz"
  "hf_header (loaded_file fd fsz h self ld) = h"
  "hf_segments (loaded_file fd fsz h self ld) = ld_segments ld"
  "hf_segments_ptr (loaded_file fd fsz h self ld) = ld_segments_ptr ld"
  "hf_segment_count (loaded_file fd fsz h self ld) = ld_segment_count ld"
  "hf_thread_states (loaded_file fd fsz h self ld) = ld_thread_states ld"
  "hf_thread_states_ptr (loaded_file fd fsz h self ld) = ld_thread_states_ptr ld"
  "hf_thread_state_count (loaded_file fd fsz h self ld) = ld_thread_state_count ld"
  "hf_self (loaded_file fd fsz h self ld) = self"
  "hf_td_version (loaded_file fd fsz h self ld) =
     hwx_td_version_for_cpu (hwx_cpu_subtype (Some (loaded_file fd fsz h self ld)))"
  by (simp_all add: loaded_file_def Let_def hwx_cpu_subtype_def)

lemma open_commands_ok:
  assumes heap: "heap_ok L {#self#} w" and F: "fds w = F" "F fd = Some ino"
    and small: "length (contents ino) < 2 ^ 63"
    and header: "Option.bind (mem_read (contents ino) 0 32) get_mach_header = Some header"
    and magic: "hd_magic header = HWX_MACHO_MAGIC_64"
    and size: "32 + unat (hd_sizeofcmds header) \<le> length (contents ino)"
  shows "open_result F L ino fd
    (open_commands fd (of_nat (length (contents ino))) header self w)"
proof -
  let ?fsz = "of_nat (length (contents ino)) :: u64"
  note self = heap_ok_unmove [OF heap]
  have init: "loader_ok F (insert self L) ?fsz {#} (init_loader header) w"
    using self F by (simp add: loader_ok_def owned_def seg_blocks_def thr_blocks_def
        init_loader_def shape_ok_def)
  have "cursor_ok (unat (hd_sizeofcmds header)) ino (init_loader header)"
    using size by (simp add: cursor_ok_def init_loader_def entries_def)
  note cmds = load_commands_ok [OF init F(2) small this, of "unat (hd_ncmds header)"]
  have cmds: "case load_commands (unat (hd_ncmds header)) fd ?fsz (init_loader header) w of
      None \<Rightarrow> short_file (contents ino)
    | Some (ok, ld1, w1) \<Rightarrow> loader_ok F (insert self L) ?fsz {#} ld1 w1"
  proof -
    have short: "short_file (contents ino) =
        short_segment (unat (hd_ncmds header)) (unat (ld_offset (init_loader header)))
          (unat (ld_remaining_bytes (init_loader header))) (contents ino)"
      using header magic size by (simp add: short_file_def init_loader_def)
    show ?thesis
      unfolding short using cmds u32_less [of "hd_sizeofcmds header"] by simp
  qed
  show ?thesis
  proof (cases "load_commands (unat (hd_ncmds header)) fd ?fsz (init_loader header) w")
    case None
    with cmds show ?thesis by (simp add: open_commands_def open_result_def)
  next
    case (Some res)
    obtain ok ld w1 where res: "res = (ok, ld, w1)" by (cases res) auto
    have ld: "loader_ok F (insert self L) ?fsz {#} ld w1"
      using cmds Some res by simp
    then have "heap_ok L (add_mset self (owned ld)) w1"
      by (auto simp: loader_ok_def intro: heap_ok_move [OF self(2)])
    then have ld1: "loader_ok F L ?fsz {#self#} ld w1"
      using ld by (simp add: loader_ok_def)
    have err: "open_result F L ino fd (open_error fd (Some self) ld (w1\<lparr>errno := e\<rparr>))" for e
      using open_error_ok [of F L ?fsz self ld "w1\<lparr>errno := e\<rparr>" fd] ld1
      by (auto simp: open_result_def)
    let ?f = "loaded_file fd ?fsz header self ld"
    show ?thesis
    proof (cases "ok \<and> ld_remaining_bytes ld = 0 \<and> found (hwx_get_tsk_section (Some ?f)) \<noteq> None \<and>
        found (hwx_get_krn_section (Some ?f)) \<noteq> None")
      case True
      have "heap_ok L (mset (blocks (file_blocks ?f))) w1"
        using ld1 by (simp add: loader_ok_def owned_def seg_blocks_def thr_blocks_def
            file_blocks_mset ac_simps)
      moreover have "file_wf ?f"
        using True ld1 magic by (simp add: file_wf_def file_counts_ok_def loader_ok_def shape_ok_def)
      ultimately show ?thesis
        using True Some res ld1 header
        by (auto simp: open_commands_def open_result_def Let_def loader_ok_def)
    next
      case False
      with Some res err [of "errno w1"] err show ?thesis
        by (auto simp: open_commands_def Let_def)
    qed
  qed
qed

lemma open_header_ok:
  assumes heap: "heap_ok L {#} w" and F: "fds w = F" "F fd = Some ino"
    and small: "length (contents ino) < 2 ^ 63"
  shows "open_result F L ino fd (open_header fd (of_nat (length (contents ino))) w)"
proof -
  let ?fsz = "of_nat (length (contents ino)) :: u64"
  obtain r w1 where r: "hwx_pread_exact fd 32 0 w = (r, w1)" by fastforce
  note same = hwx_pread_exact_same_res [OF r]
  have heap1: "heap_ok L {#} w1" "fds w1 = F"
    using heap F heap_ok_same_res [OF same] same by (simp_all add: same_res_def)
  then have fail: "open_result F L ino fd (Some (None, os_close fd w2))"
    if "heap_ok L {#} w2" "fds w2 = F" for w2
    using that by (simp add: open_result_def) (simp add: os_close_def)
  have fail_einval: "open_result F L ino fd (Some (None, (os_close fd w1)\<lparr>errno := EINVAL\<rparr>))"
    using heap1 by (simp add: open_result_def) (simp add: os_close_def)
  show ?thesis
  proof (cases r)
    case None
    with r fail heap1 show ?thesis by (simp add: open_header_def)
  next
    case (Some raw)
    have raw: "length raw = 32" "mem_read (contents ino) 0 32 = Some raw"
      using hwx_pread_exact_data [OF r [unfolded Some]] F small by auto
    then obtain header where header: "get_mach_header raw = Some header"
      by (auto simp: get_mach_header_def get_u32_def mem_read_def)
    show ?thesis
    proof (cases "hd_magic header = HWX_MACHO_MAGIC_64 \<and>
        hwx_within_file ?fsz 32 (ucast (hd_sizeofcmds header))")
      case False
      with r Some header fail_einval show ?thesis by (auto simp: open_header_def)
    next
      case True
      then have size: "32 + unat (hd_sizeofcmds header) \<le> length (contents ino)"
        using small by (simp add: hwx_within_file_iff unat_of_nat)
      from heap1(1) show ?thesis
      proof (cases rule: os_malloc_cases)
        case (null w2)
        with True r Some header fail heap1 show ?thesis by (simp add: open_header_def)
      next
        case (block self w2)
        then have "fds w2 = F" using heap1 by simp
        have "open_result F L ino fd (open_commands fd ?fsz header self w2)"
          using block(2) \<open>fds w2 = F\<close> F(2) small True size raw(2) header
          by (intro open_commands_ok) simp_all
        with True r Some header block show ?thesis by (simp add: open_header_def)
      qed
    qed
  qed
qed

text \<open>The file a path names, when \<open>open\<close> and \<open>fstat\<close> succeed on it.\<close>

lemma hwx_open_ok:
  assumes io: "io_ok w"
  shows "case hwx_open path w of
      None \<Rightarrow> \<exists>p ino. path = Some p \<and> paths w p = Inr ino \<and> short_file (contents ino)
    | Some (None, w1) \<Rightarrow> heap_ok (live w) {#} w1 \<and> fds w1 = fds w
    | Some (Some f, w1) \<Rightarrow> \<exists>p ino. path = Some p \<and> paths w p = Inr ino \<and>
        fds w (hf_fd f) = None \<and>
        open_result ((fds w)(hf_fd f \<mapsto> ino)) (live w) ino (hf_fd f) (Some (Some f, w1))"
proof -
  have heap: "heap_ok (live w) {#} w"
    using io by (simp add: heap_ok_def io_ok_def)
  consider (null) "path = None"
    | (absent) p e where "path = Some p" and "paths w p = Inl e"
    | (named) p ino where "path = Some p" and "paths w p = Inr ino"
    by (cases path; cases "paths w (the path)") auto
  then show ?thesis
  proof cases
    case null
    with heap show ?thesis by (simp add: hwx_open_def)
  next
    case absent
    with heap show ?thesis by (simp add: hwx_open_def os_open_def)
  next
    case named
    let ?fd = "fresh w"
    let ?F = "(fds w)(?fd \<mapsto> ino)"
    let ?w = "w\<lparr>fds := ?F, fresh := Suc (fresh w)\<rparr>"
    have new: "fds w ?fd = None"
      using io by (auto simp: io_ok_def)
    then have undo: "(fds w)(?fd := None) = fds w" by auto
    have heap1: "heap_ok (live w) {#} ?w"
      using heap by (auto simp: heap_ok_def)
    have close: "fds (os_close ?fd w2) = fds w" if "fds w2 = ?F" for w2
      using that undo by (simp add: os_close_def)
    have small: "length (contents ino) < 2 ^ 63"
      using io named(2) by (simp add: io_ok_def)
    show ?thesis
    proof (cases "stat_error ino = None \<and> is_regular ino")
      case False
      with named heap1 undo show ?thesis
        by (cases "stat_error ino") (auto simp: hwx_open_def os_open_def os_close_def heap_ok_def)
    next
      case True
      have res: "open_result ?F (live w) ino ?fd
          (open_header ?fd (of_nat (length (contents ino))) ?w)"
        by (rule open_header_ok [OF heap1 _ _ small]) simp_all
      moreover have "hwx_open path w = open_header ?fd (of_nat (length (contents ino))) ?w"
        using True named by (simp add: hwx_open_def os_open_def)
      ultimately show ?thesis
        using named new undo
        by (auto simp: open_result_def split: option.splits)
    qed
  qed
qed

lemma hwx_close_ok:
  assumes heap: "heap_ok L (mset (blocks (file_blocks f)) + M) w" and counts: "file_counts_ok f"
  shows "\<exists>w1. hwx_close (Some f) w = Some w1 \<and> heap_ok L M w1 \<and> fds w1 = (fds w)(hf_fd f := None)"
proof -
  have "heap_ok L (mset (blocks (map seg_sections_ptr (hf_segments f) @ [hf_segments_ptr f])) +
      (mset (blocks (map thr_data_ptr (hf_thread_states f) @ [hf_thread_states_ptr f])) +
      (add_mset (hf_self f) M))) w"
    using heap by (simp add: file_blocks_mset ac_simps)
  from heap_ok_free_segments [OF this] counts obtain w1 where
    w1: "hwx_free_segments (hf_segments f) (hf_segments_ptr f) (hf_segment_count f) w = Some w1"
      "heap_ok L (mset (blocks (map thr_data_ptr (hf_thread_states f) @ [hf_thread_states_ptr f])) +
        add_mset (hf_self f) M) w1" "fds w1 = fds w"
    by (auto simp: file_counts_ok_def)
  from heap_ok_free_thread_states [OF w1(2)] counts obtain w2 where
    w2: "hwx_free_thread_states (hf_thread_states f) (hf_thread_states_ptr f)
        (hf_thread_state_count f) w1 = Some w2"
      "heap_ok L (add_mset (hf_self f) M) w2" "fds w2 = fds w1"
    by (auto simp: file_counts_ok_def)
  have "heap_ok L (add_mset (hf_self f) M) (os_close (hf_fd f) w2)"
    using w2 by simp
  from heap_ok_free [OF this] obtain w3 where
    "os_free (Some (hf_self f)) (os_close (hf_fd f) w2) = Some w3" "heap_ok L M w3"
    "fds w3 = fds (os_close (hf_fd f) w2)" by blast
  with w1 w2 show ?thesis
    by (simp add: hwx_close_def os_close_def)
qed

end
