(* ===== verification/Hwx_Spec.thy ===== *)
theory Hwx_Spec
  imports Hwx_Open_Safe
begin

text \<open>
  The abstract specification of an HWX file, as a pure function from the bytes of the file
  to its segments and thread states, and the refinement: whatever the loader returns is
  what the specification gives, and when no allocation or read fails the loader succeeds
  exactly on the files the specification accepts.
\<close>

section \<open>Specification\<close>

type_synonym hwx_image = "hwx_segment list \<times> hwx_thread_state list"

definition in_file :: "u64 \<Rightarrow> u64 \<Rightarrow> u64 \<Rightarrow> bool" where
  "in_file fsz off n \<longleftrightarrow> unat off + unat n \<le> unat fsz"

definition spec_section_ok :: "u64 \<Rightarrow> hwx_section \<Rightarrow> bool" where
  "spec_section_ok fsz s \<longleftrightarrow> sec_size s = 0 \<or> in_file fsz (ucast (sec_offset s)) (sec_size s)"

definition spec_segment :: "u64 \<Rightarrow> bytes \<Rightarrow> hwx_segment option" where
  "spec_segment fsz cmd = do {
     nsects \<leftarrow> get_u32 cmd 64;
     if length cmd < 72 + 80 * unat nsects then None
     else do {
       sg \<leftarrow> get_segment64 cmd nsects;
       ss \<leftarrow> those (map (\<lambda>i. get_section64 cmd (72 + 80 * i)) [0..<unat nsects]);
       if in_file fsz (seg_fileoff sg) (seg_filesize sg) \<and> list_all (spec_section_ok fsz) ss
       then Some (sg\<lparr>seg_sections := ss\<rparr>) else None } }"

text \<open>The states of a thread command: flavor, word count and as much of the payload as is there.\<close>

function spec_threads :: "bytes \<Rightarrow> hwx_thread_state list" where
  "spec_threads bs =
     (if length bs < 8 then []
      else let n = le_nat (take 4 (drop 4 bs)); payload = take (4 * n) (drop 8 bs)
        in \<lparr>thr_flavor = of_nat (le_nat (take 4 bs)), thr_count = of_nat n,
             thr_byte_size = of_nat (length payload), thr_data = payload, thr_data_ptr = None\<rparr> #
           spec_threads (drop (8 + 4 * n) bs))"
  by pat_completeness auto
termination
  by (relation "measure length") auto

declare spec_threads.simps [simp del]

definition spec_command :: "u64 \<Rightarrow> load_command \<Rightarrow> bytes \<Rightarrow> hwx_image option" where
  "spec_command fsz lc cmd =
     (if lc_cmd lc = HWX_LOAD_COMMAND_SEGMENT_64
      then map_option (\<lambda>sg. ([sg], [])) (spec_segment fsz cmd)
      else if lc_cmd lc = HWX_LOAD_COMMAND_THREAD
      then (if length cmd < 16 then None else Some ([], spec_threads (drop 8 cmd)))
      else Some ([], []))"

text \<open>\<open>n\<close> commands in the first \<open>rem\<close> bytes, which they fill exactly.\<close>

fun spec_commands :: "nat \<Rightarrow> u64 \<Rightarrow> nat \<Rightarrow> bytes \<Rightarrow> hwx_image option" where
  "spec_commands 0 fsz rem bs = (if rem = 0 then Some ([], []) else None)"
| "spec_commands (Suc n) fsz rem bs =
     (if rem < 8 then None
      else Option.bind (Option.bind (mem_read bs 0 8) get_load_command) (\<lambda>lc.
        let k = unat (lc_cmdsize lc) in
        if k < 8 \<or> k > rem then None
        else do {
          (ss, ts) \<leftarrow> spec_command fsz lc (take k bs);
          (ss', ts') \<leftarrow> spec_commands n fsz (rem - k) (drop k bs);
          Some (ss @ ss', ts @ ts') }))"

definition spec_file :: "bytes \<Rightarrow> (mach_header \<times> hwx_image) option" where
  "spec_file data = do {
     header \<leftarrow> Option.bind (mem_read data 0 32) get_mach_header;
     if hd_magic header \<noteq> HWX_MACHO_MAGIC_64 \<or> length data < 32 + unat (hd_sizeofcmds header)
     then None
     else do {
       (ss, ts) \<leftarrow> spec_commands (unat (hd_ncmds header)) (of_nat (length data))
                    (unat (hd_sizeofcmds header)) (drop 32 data);
       if find_section (Some (cstr ''__TEXT'')) (cstr ''__text'') ss = None \<or>
          find_section (Some (cstr ''__TEXT'')) (cstr ''__const'') ss = None
       then None else Some (header, ss, ts) } }"

section \<open>Abstraction\<close>

definition strip_segment :: "hwx_segment \<Rightarrow> hwx_segment" where
  "strip_segment sg = sg\<lparr>seg_sections_ptr := None\<rparr>"

definition strip_thread :: "hwx_thread_state \<Rightarrow> hwx_thread_state" where
  "strip_thread st = st\<lparr>thr_data_ptr := None\<rparr>"

definition abs_loader :: "loader \<Rightarrow> hwx_image" where
  "abs_loader ld = (map strip_segment (ld_segments ld), map strip_thread (ld_thread_states ld))"

definition abs_file :: "hwx_file \<Rightarrow> mach_header \<times> hwx_image" where
  "abs_file f = (hf_header f, map strip_segment (hf_segments f), map strip_thread (hf_thread_states f))"

definition image_append :: "hwx_image \<Rightarrow> hwx_image \<Rightarrow> hwx_image" where
  "image_append a b = (fst a @ fst b, snd a @ snd b)"

text \<open>An environment in which the next calls neither fail nor stop, reads being interrupted
  and split at will.\<close>

definition fault_free :: "io \<Rightarrow> bool" where
  "fault_free w \<longleftrightarrow> only_intr w \<and> list_all Not (alloc_fail w)"

text \<open>
  A step from \<open>ld\<close> refines an image: on success it appended exactly that image, and
  without faults it fails only where the specification has none.
\<close>

definition step_refines :: "hwx_image option \<Rightarrow> loader \<Rightarrow> io \<Rightarrow> step_result \<Rightarrow> bool" where
  "step_refines img ld w res \<longleftrightarrow>
     (case res of
        None \<Rightarrow> True
      | Some (ok, ld1, w1) \<Rightarrow> (fault_free w \<longrightarrow> fault_free w1) \<and> fds w1 = fds w \<and>
          ld_offset ld1 = ld_offset ld \<and> ld_remaining_bytes ld1 = ld_remaining_bytes ld \<and>
          (if ok then img \<noteq> None \<and> abs_loader ld1 = image_append (abs_loader ld) (the img)
           else fault_free w \<longrightarrow> img = None))"

lemma fault_free_errno [simp]: "fault_free (w\<lparr>errno := e\<rparr>) = fault_free w"
  by (simp add: fault_free_def only_intr_def)

lemma os_free_env: "os_free p w = Some w1 \<Longrightarrow> fds w1 = fds w \<and> fault_free w1 = fault_free w"
  by (auto simp: os_free_def fault_free_def only_intr_def split: option.splits if_splits)

lemma free_all_env: "free_all ps w = Some w1 \<Longrightarrow> fds w1 = fds w \<and> fault_free w1 = fault_free w"
  by (induction ps arbitrary: w) (auto simp: bind_eq_Some_conv dest!: os_free_env)

lemma os_malloc_env:
  assumes "os_malloc w = (p, w1)"
  shows "fds w1 = fds w" and "fault_free w \<Longrightarrow> fault_free w1 \<and> p \<noteq> None"
  using assms
  by (auto simp: os_malloc_def fault_free_def only_intr_def split: list.splits bool.splits)

lemma os_realloc_env:
  assumes "os_realloc p w = Some (q, w1)"
  shows "fds w1 = fds w" and "fault_free w \<Longrightarrow> fault_free w1 \<and> q \<noteq> None"
  using assms os_malloc_env [of w]
  by (auto simp: os_realloc_def split: prod.splits option.splits dest!: os_free_env)

lemma step_refines_fail:
  assumes "fault_free w \<Longrightarrow> fault_free w1 \<and> img = None" and "fds w1 = fds w"
  shows "step_refines img ld w (fail_free ps ld w1)"
  using assms
  by (auto simp: step_refines_def fail_free_def split: option.splits dest!: free_all_env)

lemma step_refines_start:
  assumes "step_refines img ld w1 res" and "fault_free w \<Longrightarrow> fault_free w1" and "fds w1 = fds w"
  shows "step_refines img ld w res"
  using assms by (auto simp: step_refines_def split: option.splits if_splits)

section \<open>Segment commands\<close>

lemma hwx_within_file_in_file: "hwx_within_file fsz off n = in_file fsz off n"
  by (simp add: hwx_within_file_iff in_file_def)

lemma those_append_single: "those (xs @ [x]) = do { ys \<leftarrow> those xs; y \<leftarrow> x; Some (ys @ [y]) }"
  by (induction xs) (auto split: option.splits bind_splits)

lemma load_sections_refines:
  assumes "72 + 80 * (i + n) \<le> length buf"
  shows "\<exists>ss. those (map (\<lambda>i. get_section64 buf (72 + 80 * i)) [i..<i + n]) = Some ss \<and>
    load_sections fsz buf i n acc =
      Some (if list_all (spec_section_ok fsz) ss then Some (acc @ ss) else None)"
  using assms
proof (induction n arbitrary: i acc)
  case 0
  then show ?case by simp
next
  case (Suc n)
  obtain s where s: "get_section64 buf (72 + 80 * i) = Some s"
    using get_section64_ok [of "72 + 80 * i" buf] Suc.prems by auto
  obtain ss where ss: "those (map (\<lambda>i. get_section64 buf (72 + 80 * i)) [Suc i..<Suc i + n]) = Some ss"
    "load_sections fsz buf (Suc i) n (acc @ [s]) =
      Some (if list_all (spec_section_ok fsz) ss then Some ((acc @ [s]) @ ss) else None)"
    using Suc.IH [of "Suc i" "acc @ [s]"] Suc.prems by auto
  have "[i..<i + Suc n] = i # [Suc i..<Suc i + n]"
    by (simp add: upt_rec)
  then have "those (map (\<lambda>i. get_section64 buf (72 + 80 * i)) [i..<i + Suc n]) = Some (s # ss)"
    using s ss(1) by (simp del: upt_Suc)
  moreover have "load_sections fsz buf i (Suc n) acc =
      Some (if list_all (spec_section_ok fsz) (s # ss) then Some (acc @ s # ss) else None)"
    using s ss(2) by (simp add: hwx_within_file_in_file spec_section_ok_def [of _ s])
  ultimately show ?case by blast
qed

lemma push_segment_refines:
  "step_refines (Some ([strip_segment sg], [])) ld w (push_segment sg buffer ld w)"
proof (cases "os_realloc (ld_segments_ptr ld) w")
  case None
  then show ?thesis by (simp add: push_segment_def step_refines_def)
next
  case (Some r)
  obtain q w1 where r: "r = (q, w1)" by (cases r)
  note env = os_realloc_env [OF Some [unfolded r]]
  show ?thesis
  proof (cases q)
    case None
    have "step_refines (Some ([strip_segment sg], [])) ld w
        (fail_free [buffer, seg_sections_ptr sg] ld w1)"
      by (rule step_refines_fail) (use env None in auto)
    with None Some r show ?thesis by (simp add: push_segment_def)
  next
    case q: (Some p)
    show ?thesis
    proof (cases "os_free buffer w1")
      case None
      with q Some r show ?thesis by (simp add: push_segment_def step_refines_def)
    next
      case (Some w2)
      with q \<open>os_realloc _ w = _\<close> r env os_free_env [OF Some] show ?thesis
        by (simp add: push_segment_def step_refines_def abs_loader_def image_append_def)
    qed
  qed
qed

lemma parse_segment_refines:
  assumes len: "length buf = unat cmdsize"
  shows "step_refines (map_option (\<lambda>sg. ([sg], [])) (spec_segment fsz buf)) ld w
    (parse_segment fsz cmdsize buf buffer ld w)"
proof (cases "get_u32 buf 64")
  case None
  then show ?thesis by (simp add: parse_segment_def step_refines_def)
next
  case nsects: (Some nsects)
  have fail: "step_refines None ld w (fail_free ps ld (w1\<lparr>errno := e\<rparr>))"
    if "fault_free w \<Longrightarrow> fault_free w1" "fds w1 = fds w" for ps w1 e
    using that by (intro step_refines_fail) auto
  show ?thesis
  proof (cases "ucast cmdsize < segment_expected nsects")
    case True
    then have "spec_segment fsz buf = None"
      using nsects by (simp add: spec_segment_def word_less_nat_alt unat_segment_expected len)
    with True nsects fail show ?thesis by (simp add: parse_segment_def)
  next
    case big: False
    then have size: "72 + 80 * unat nsects \<le> length buf"
      by (simp add: len word_less_nat_alt unat_segment_expected)
    obtain sg where sg: "get_segment64 buf nsects = Some sg"
      using get_segment64_ok [of buf nsects] size by auto
    note fields = get_segment64_fields [OF sg]
    obtain ss where ss: "those (map (\<lambda>i. get_section64 buf (72 + 80 * i)) [0..<unat nsects]) = Some ss"
      "load_sections fsz buf 0 (unat nsects) [] =
        Some (if list_all (spec_section_ok fsz) ss then Some ss else None)"
      using load_sections_refines [of 0 "unat nsects" buf fsz "[]"] size by auto
    have spec: "spec_segment fsz buf =
        (if in_file fsz (seg_fileoff sg) (seg_filesize sg) \<and> list_all (spec_section_ok fsz) ss
         then Some (sg\<lparr>seg_sections := ss\<rparr>) else None)"
      using nsects size sg ss by (simp add: spec_segment_def)
    show ?thesis
    proof (cases "hwx_within_file fsz (seg_fileoff sg) (seg_filesize sg)")
      case outside: False
      then have "spec_segment fsz buf = None"
        by (simp add: spec hwx_within_file_in_file)
      with outside nsects sg fail big show ?thesis by (simp add: parse_segment_def)
    next
      case within: True
      then have inside: "in_file fsz (seg_fileoff sg) (seg_filesize sg)"
        by (simp add: hwx_within_file_in_file)
      show ?thesis
      proof (cases "nsects = 0")
        case True
        then have "ss = []" using ss(1) by simp
        then have "spec_segment fsz buf = Some (strip_segment sg)"
          using inside fields by (simp add: spec strip_segment_def)
        with True push_segment_refines [of sg ld w buffer] nsects sg within fields big
        show ?thesis by (simp add: parse_segment_def)
      next
        case nz: False
        then have pos: "seg_section_count sg > 0"
          by (simp add: fields word_gt_0)
        obtain p w1 where m: "os_malloc w = (p, w1)" by fastforce
        note env = os_malloc_env [OF m]
        show ?thesis
        proof (cases p)
          case None
          have "step_refines (map_option (\<lambda>sg. ([sg], [])) (spec_segment fsz buf)) ld w
              (fail_free [buffer] ld w1)"
            by (rule step_refines_fail) (use env None in auto)
          with None m nsects sg within pos fields big show ?thesis
            by (simp add: parse_segment_def)
        next
          case (Some b)
          show ?thesis
          proof (cases "list_all (spec_section_ok fsz) ss")
            case False
            have "step_refines None ld w
                (map_option (\<lambda>(ok, ld1, w2). (ok, ld1, w2\<lparr>errno := EINVAL\<rparr>))
                   (fail_free [buffer, Some b] ld w1))"
              using step_refines_fail [of w w1 None ld "[buffer, Some b]"] env
              by (auto simp: step_refines_def split: option.splits)
            with False Some m nsects sg within pos fields big ss show ?thesis
              by (simp add: parse_segment_def spec)
          next
            case True
            let ?sg = "sg\<lparr>seg_sections := ss, seg_sections_ptr := Some b\<rparr>"
            have "strip_segment ?sg = sg\<lparr>seg_sections := ss\<rparr>"
              using fields by (simp add: strip_segment_def)
            then have "step_refines (map_option (\<lambda>sg. ([sg], [])) (spec_segment fsz buf)) ld w
                (push_segment ?sg buffer ld w1)"
              using push_segment_refines [of ?sg ld w1 buffer] True inside env
              by (auto simp: spec intro: step_refines_start)
            with True Some m nsects sg within pos fields big ss show ?thesis
              by (simp add: parse_segment_def)
          qed
        qed
      qed
    qed
  qed
qed

section \<open>Thread commands\<close>

lemma image_append_assoc: "image_append (image_append a b) c = image_append a (image_append b c)"
  by (simp add: image_append_def)

lemma step_refines_bind:
  assumes "step_refines (Some a) ld w r"
    and "\<And>ld1 w1. r = Some (True, ld1, w1) \<Longrightarrow> step_refines b ld1 w1 (k ld1 w1)"
  shows "step_refines (map_option (image_append a) b) ld w
    (Option.bind r (\<lambda>(ok, ld1, w1). if ok then k ld1 w1 else Some (False, ld1, w1)))"
proof (cases r)
  case None
  then show ?thesis by (simp add: step_refines_def)
next
  case (Some res)
  obtain ok ld1 w1 where res: "res = (ok, ld1, w1)" by (cases res)
  show ?thesis
  proof (cases ok)
    case False
    with assms(1) Some res show ?thesis by (simp add: step_refines_def)
  next
    case True
    with assms(2) [of ld1 w1] assms(1) Some res show ?thesis
      by (auto simp: step_refines_def image_append_assoc split: option.splits if_splits)
  qed
qed

lemma push_thread_state_refines:
  "step_refines (Some ([], [strip_thread st])) ld w (push_thread_state st buffer ld w)"
proof (cases "os_realloc (ld_thread_states_ptr ld) w")
  case None
  then show ?thesis by (simp add: push_thread_state_def step_refines_def)
next
  case (Some r)
  obtain q w1 where r: "r = (q, w1)" by (cases r)
  note env = os_realloc_env [OF Some [unfolded r]]
  show ?thesis
  proof (cases q)
    case None
    have "step_refines (Some ([], [strip_thread st])) ld w (fail_free [thr_data_ptr st, buffer] ld w1)"
      by (rule step_refines_fail) (use env None in auto)
    with None Some r show ?thesis by (simp add: push_thread_state_def)
  next
    case (Some p)
    with \<open>os_realloc _ w = _\<close> r env show ?thesis
      by (simp add: push_thread_state_def step_refines_def abs_loader_def image_append_def)
  qed
qed

lemma get_u32_take:
  assumes "off + 4 \<le> length b"
  shows "get_u32 b off = Some (of_nat (le_nat (take 4 (drop off b))))"
  using assms by (simp add: get_u32_def mem_read_def)

lemma le_nat_take4: "le_nat (take 4 b) < 2 ^ 32"
proof -
  have "le_nat (take 4 b) < 256 ^ length (take 4 b)" by (rule le_nat_bound)
  also have "\<dots> \<le> 256 ^ 4" by (rule power_increasing) auto
  finally show ?thesis by simp
qed

lemma parse_thread_states_refines:
  assumes "cursor + remaining = length buf" and "length buf < 2 ^ 32"
  shows "step_refines (Some ([], spec_threads (drop cursor buf))) ld w
    (parse_thread_states buf buffer cursor remaining ld w)"
  using assms
proof (induction buf buffer cursor remaining ld w rule: parse_thread_states.induct)
  case (1 buf buffer cursor remaining ld w)
  note IH = "1.IH" and len = "1.prems"(1) and small = "1.prems"(2)
  show ?case
  proof (cases "remaining < 8")
    case True
    then have "spec_threads (drop cursor buf) = []"
      using len by (subst spec_threads.simps) auto
    with True show ?thesis
      by (subst parse_thread_states.simps)
        (auto simp: step_refines_def image_append_def split: option.splits dest!: os_free_env)
  next
    case False
    define cnt where "cnt = le_nat (take 4 (drop (cursor + 4) buf))"
    have cnt: "unat (of_nat cnt :: u32) = cnt"
      using le_nat_take4 [of "drop (cursor + 4) buf"] by (simp add: cnt_def unat_of_nat)
    let ?flavor = "of_nat (le_nat (take 4 (drop cursor buf))) :: u32"
    have gets: "get_u32 buf cursor = Some ?flavor" "get_u32 buf (cursor + 4) = Some (of_nat cnt)"
      using len False by (simp_all add: get_u32_take cnt_def)
    define n where "n = min (4 * cnt) (remaining - 8)"
    have n: "payload_bytes (of_nat cnt) (remaining - 8) = Some n"
      using len small by (simp add: payload_bytes_eq cnt n_def)
    define payload where "payload = take n (drop (cursor + 8) buf)"
    have read: "mem_read buf (cursor + 8) n = Some payload" and plen: "length payload = n"
      using len False by (simp_all add: mem_read_def payload_def n_def)
    have rest: "drop (8 + 4 * cnt) (drop cursor buf) = drop (cursor + 8 + n) buf"
      using len by (auto simp: n_def min_def ac_simps)
    have spec_payload: "take (4 * cnt) (drop 8 (drop cursor buf)) = payload"
      using len by (auto simp: payload_def n_def min_def add.commute)
    define st where "st = \<lparr>thr_flavor = ?flavor, thr_count = of_nat cnt, thr_byte_size = of_nat n,
      thr_data = [], thr_data_ptr = None\<rparr>"
    have spec: "spec_threads (drop cursor buf) =
        st\<lparr>thr_data := payload\<rparr> # spec_threads (drop (cursor + 8 + n) buf)"
    proof -
      have "le_nat (take 4 (drop 4 (drop cursor buf))) = cnt"
        by (simp add: cnt_def add.commute)
      moreover have "\<not> length (drop cursor buf) < 8"
        using len False by simp
      ultimately show ?thesis
        by (subst spec_threads.simps)
          (simp add: Let_def st_def rest spec_payload plen del: drop_drop length_drop length_take)
    qed
    let ?rest = "Some ([], spec_threads (drop (cursor + 8 + n) buf)) :: hwx_image option"
    show ?thesis
    proof (cases "n > 0")
      case True
      obtain p w1 where m: "os_malloc w = (p, w1)" by fastforce
      note env = os_malloc_env [OF m]
      show ?thesis
      proof (cases p)
        case None
        have "step_refines (Some ([], spec_threads (drop cursor buf))) ld w (fail_free [buffer] ld w1)"
          by (rule step_refines_fail) (use env None in auto)
        with None m False gets n True show ?thesis
          by (subst parse_thread_states.simps) simp
      next
        case (Some b)
        let ?st = "st\<lparr>thr_data := payload, thr_data_ptr := Some b\<rparr>"
        have "step_refines (map_option (image_append ([], [strip_thread ?st])) ?rest) ld w1
            (Option.bind (push_thread_state ?st buffer ld w1) (\<lambda>(ok, ld1, w2).
              if ok then parse_thread_states buf buffer (cursor + 8 + n) (remaining - 8 - n) ld1 w2
              else Some (False, ld1, w2)))"
          by (rule step_refines_bind [OF push_thread_state_refines],
              rule IH(1) [OF False, of ?flavor "of_nat cnt" n st])
            (use gets n True m Some read len False small in \<open>auto simp: st_def n_def\<close>)
        then have "step_refines (Some ([], spec_threads (drop cursor buf))) ld w
            (Option.bind (push_thread_state ?st buffer ld w1) (\<lambda>(ok, ld1, w2).
              if ok then parse_thread_states buf buffer (cursor + 8 + n) (remaining - 8 - n) ld1 w2
              else Some (False, ld1, w2)))"
          using env by (auto simp: spec st_def strip_thread_def image_append_def intro: step_refines_start)
        with Some m False gets n True read show ?thesis
          by (subst parse_thread_states.simps) (simp add: st_def)
      qed
    next
      case zero: False
      then have "payload = []" using plen by simp
      have "step_refines (map_option (image_append ([], [strip_thread st])) ?rest) ld w
          (Option.bind (push_thread_state st buffer ld w) (\<lambda>(ok, ld1, w2).
            if ok then parse_thread_states buf buffer (cursor + 8) (remaining - 8) ld1 w2
            else Some (False, ld1, w2)))"
        using IH(2) [OF False, of ?flavor "of_nat cnt" n st] gets n zero len False small
        by (intro step_refines_bind [OF push_thread_state_refines]) (auto simp: st_def)
      with zero False gets n \<open>payload = []\<close> show ?thesis
        by (subst parse_thread_states.simps) (simp add: spec st_def strip_thread_def image_append_def)
    qed
  qed
qed

section \<open>The loop over the load commands\<close>

lemma os_pread_env: "os_pread fd n off w = (r, w1) \<Longrightarrow> fault_free w \<Longrightarrow> fault_free w1"
  by (auto simp: os_pread_def fault_free_def only_intr_def
      split: option.splits if_splits list.splits pread_out.splits)

lemma pread_fails_env:
  assumes "pread_fails fd n off acc w w'" and "fault_free w"
  shows "fault_free w'"
proof -
  obtain r w1 where r: "os_pread fd (n - length acc) (off + of_nat (length acc)) w = (r, w1)"
    by fastforce
  from os_pread_env [OF r assms(2)] assms(1) r show ?thesis
    by (auto simp: pread_fails_def split: sum.splits)
qed

lemma hwx_pread_exact_env:
  assumes read: "hwx_pread_exact fd n off w = (r, w')" and "fault_free w"
  shows "fault_free w'"
proof -
  have "hwx_pread_loop fd n off [] w = (r, w')"
    using read by (simp add: hwx_pread_exact_def)
  then have "case r of Some bs \<Rightarrow> fault_free w' \<and> n \<le> length bs
     | None \<Rightarrow> \<exists>acc0 w0. fault_free w0 \<and> pread_fails fd n off acc0 w0 w'"
    by (rule hwx_pread_loop_rule [where I = "\<lambda>_. fault_free"])
      (use assms in \<open>auto dest: os_pread_env\<close>)
  then show ?thesis
    by (auto split: option.splits dest: pread_fails_env)
qed

text \<open>A read inside the file: the bytes there, or a fault.\<close>

lemma hwx_pread_exact_cases:
  assumes read: "hwx_pread_exact fd n off w = (r, w')" and ino: "fds w fd = Some ino"
    and small: "length (contents ino) < 2 ^ 63" and n: "0 < n"
    and fits: "unat off + n \<le> length (contents ino)"
  shows "fds w' = fds w" and "fault_free w \<Longrightarrow> fault_free w' \<and> r \<noteq> None"
    and "r = Some bs \<Longrightarrow> bs = take n (drop (unat off) (contents ino))"
proof -
  show "fds w' = fds w"
    using hwx_pread_exact_same_res [OF read] by (simp add: same_res_def)
  show "fault_free w' \<and> r \<noteq> None" if "fault_free w"
    using hwx_pread_exact_env [OF read that] hwx_pread_exact_ends [OF _ ino small n read] that fits
    by (auto simp: fault_free_def mem_simps)
  show "bs = take n (drop (unat off) (contents ino))" if "r = Some bs"
    using hwx_pread_exact_data [OF read [unfolded that] ino small n] by (simp add: mem_simps)
qed

lemma with_command_refines:
  assumes ino: "fds w fd = Some ino" and small: "length (contents ino) < 2 ^ 63"
    and size: "0 < unat cmdsize" and fits: "unat (ld_offset ld) + unat cmdsize \<le> length (contents ino)"
    and parse: "\<And>b w1. step_refines img ld w1
      (parse (take (unat cmdsize) (drop (unat (ld_offset ld)) (contents ino))) (Some b) ld w1)"
  shows "step_refines img ld w (with_command fd cmdsize parse ld w)"
proof -
  obtain p w1 where m: "os_malloc w = (p, w1)" by fastforce
  note env = os_malloc_env [OF m]
  show ?thesis
  proof (cases p)
    case None
    with m env show ?thesis by (auto simp: with_command_def step_refines_def)
  next
    case (Some b)
    obtain r w2 where r: "hwx_pread_exact fd (unat cmdsize) (ld_offset ld) w1 = (r, w2)"
      by fastforce
    have "fds w1 fd = Some ino" using env ino by simp
    note read = hwx_pread_exact_cases [OF r this small size fits]
    show ?thesis
    proof (cases r)
      case None
      have "step_refines img ld w (fail_free [Some b] ld w2)"
        by (rule step_refines_fail) (use env read None in auto)
      with None Some m r show ?thesis by (simp add: with_command_def)
    next
      case buf: (Some buf)
      have "step_refines img ld w (parse buf (Some b) ld w2)"
        using parse [of w2 b] read(3) [OF buf] env read(1,2) by (auto intro: step_refines_start)
      with buf Some m r show ?thesis by (simp add: with_command_def)
    qed
  qed
qed

lemma load_command_body_refines:
  assumes ino: "fds w fd = Some ino" and small: "length (contents ino) < 2 ^ 63"
    and size: "8 \<le> unat (lc_cmdsize lc)"
    and fits: "unat (ld_offset ld) + unat (lc_cmdsize lc) \<le> length (contents ino)"
  shows "step_refines
    (spec_command fsz lc (take (unat (lc_cmdsize lc)) (drop (unat (ld_offset ld)) (contents ino))))
    ld w (load_command_body fd fsz lc ld w)"
proof -
  let ?cmd = "take (unat (lc_cmdsize lc)) (drop (unat (ld_offset ld)) (contents ino))"
  have len: "length ?cmd = unat (lc_cmdsize lc)" using fits by simp
  have pos: "0 < unat (lc_cmdsize lc)" using size by linarith
  consider (seg) "lc_cmd lc = HWX_LOAD_COMMAND_SEGMENT_64"
    | (tiny) "lc_cmd lc = HWX_LOAD_COMMAND_THREAD" and "unat (lc_cmdsize lc) < 16"
    | (thr) "lc_cmd lc = HWX_LOAD_COMMAND_THREAD" and "16 \<le> unat (lc_cmdsize lc)"
    | (other) "lc_cmd lc \<noteq> HWX_LOAD_COMMAND_SEGMENT_64" and "lc_cmd lc \<noteq> HWX_LOAD_COMMAND_THREAD"
    by fastforce
  then show ?thesis
  proof cases
    case seg
    have "step_refines (map_option (\<lambda>sg. ([sg], [])) (spec_segment fsz ?cmd)) ld w
        (with_command fd (lc_cmdsize lc) (parse_segment fsz (lc_cmdsize lc)) ld w)"
      by (rule with_command_refines [OF ino small pos fits]) (rule parse_segment_refines [OF len])
    with seg show ?thesis by (simp add: load_command_body_def spec_command_def)
  next
    case tiny
    with len show ?thesis by (simp add: load_command_body_def spec_command_def step_refines_def)
  next
    case thr
    have "step_refines (Some ([], spec_threads (drop 8 ?cmd))) ld w
        (with_command fd (lc_cmdsize lc) (parse_thread (lc_cmdsize lc)) ld w)"
    proof (rule with_command_refines [OF ino small pos fits])
      fix b w1
      have "step_refines (Some ([], spec_threads (drop 8 ?cmd))) ld w1
          (parse_thread_states ?cmd (Some b) 8 (unat (lc_cmdsize lc) - 8) ld w1)"
        by (rule parse_thread_states_refines)
          (use len size u32_less [of "lc_cmdsize lc"] in simp_all)
      then show "step_refines (Some ([], spec_threads (drop 8 ?cmd))) ld w1
          (parse_thread (lc_cmdsize lc) ?cmd (Some b) ld w1)"
        using size by (simp add: parse_thread_def)
    qed
    with thr len show ?thesis by (simp add: load_command_body_def spec_command_def)
  next
    case other
    then show ?thesis
      by (simp add: load_command_body_def spec_command_def step_refines_def image_append_def
          abs_loader_def)
  qed
qed

text \<open>The outcome of the whole loop, with the bytes left over when it succeeds.\<close>

definition loop_refines :: "hwx_image option \<Rightarrow> loader \<Rightarrow> io \<Rightarrow> step_result \<Rightarrow> bool" where
  "loop_refines img ld w res \<longleftrightarrow>
     (case res of
        None \<Rightarrow> True
      | Some (ok, ld1, w1) \<Rightarrow>
          if \<not> ok then fault_free w \<longrightarrow> img = None
          else (fault_free w \<longrightarrow> fault_free w1) \<and>
            (if ld_remaining_bytes ld1 = 0
             then img \<noteq> None \<and> abs_loader ld1 = image_append (abs_loader ld) (the img)
             else img = None))"

lemma loop_refines_step:
  assumes body: "step_refines a ld w0 (Some (True, ld1, w1))"
    and rest: "loop_refines b (advance n ld1) w1 res" and env: "fault_free w \<Longrightarrow> fault_free w0"
  shows "loop_refines (do { (ss, ts) \<leftarrow> a; (ss', ts') \<leftarrow> b; Some (ss @ ss', ts @ ts') }) ld w res"
proof -
  have "abs_loader (advance n ld1) = abs_loader ld1"
    by (simp add: abs_loader_def advance_def)
  then show ?thesis
    using assms by (cases res; cases a; cases b)
      (auto simp: loop_refines_def step_refines_def image_append_def split: if_splits)
qed

lemma load_commands_refines:
  assumes "fds w fd = Some ino" and "length (contents ino) < 2 ^ 63"
    and "unat (ld_offset ld) + unat (ld_remaining_bytes ld) \<le> length (contents ino)"
  shows "loop_refines
    (spec_commands n fsz (unat (ld_remaining_bytes ld)) (drop (unat (ld_offset ld)) (contents ino)))
    ld w (load_commands n fd fsz ld w)"
  using assms
proof (induction n arbitrary: ld w)
  case 0
  then show ?case
    by (auto simp: loop_refines_def image_append_def abs_loader_def unat_eq_zero)
next
  case (Suc n)
  note ino = Suc.prems(1) and small = Suc.prems(2) and fits = Suc.prems(3)
  let ?bs = "drop (unat (ld_offset ld)) (contents ino)"
  show ?case
  proof (cases "ld_remaining_bytes ld < 8")
    case True
    then show ?thesis by (simp add: loop_refines_def word_less_nat_alt)
  next
    case rem: False
    then have eight: "8 \<le> unat (ld_remaining_bytes ld)"
      by (simp add: word_less_nat_alt)
    obtain r w1 where r: "hwx_pread_exact fd 8 (ld_offset ld) w = (r, w1)" by fastforce
    have "unat (ld_offset ld) + 8 \<le> length (contents ino)" using fits eight by simp
    note read = hwx_pread_exact_cases [OF r ino small _ this, simplified]
    show ?thesis
    proof (cases r)
      case None
      with rem r read show ?thesis by (auto simp: loop_refines_def)
    next
      case (Some raw)
      then have raw: "raw = take 8 ?bs" and rawlen: "length raw = 8"
        using read(3) fits eight by auto
      obtain lc where lc: "get_load_command raw = Some lc"
        using get_load_command_ok [OF rawlen] ..
      have hd: "Option.bind (mem_read ?bs 0 8) get_load_command = Some lc"
        using raw rawlen lc by (simp add: mem_read_def split: if_splits)
      let ?k = "unat (lc_cmdsize lc)"
      show ?thesis
      proof (cases "lc_cmdsize lc < 8 \<or> ucast (lc_cmdsize lc) > ld_remaining_bytes ld")
        case True
        then have "?k < 8 \<or> ?k > unat (ld_remaining_bytes ld)"
          by (simp add: word_less_nat_alt)
        with True rem r Some lc hd eight show ?thesis
          by (auto simp: loop_refines_def)
      next
        case size: False
        then have k: "8 \<le> ?k" "?k \<le> unat (ld_remaining_bytes ld)"
          by (simp_all add: word_less_nat_alt)
        have spec: "spec_commands (Suc n) fsz (unat (ld_remaining_bytes ld)) ?bs =
            do { (ss, ts) \<leftarrow> spec_command fsz lc (take ?k ?bs);
                 (ss', ts') \<leftarrow> spec_commands n fsz (unat (ld_remaining_bytes ld) - ?k) (drop ?k ?bs);
                 Some (ss @ ss', ts @ ts') }"
          using hd eight k by (simp add: Let_def)
        have ino1: "fds w1 fd = Some ino" using read(1) ino by simp
        have "unat (ld_offset ld) + ?k \<le> length (contents ino)" using fits k by simp
        note body = load_command_body_refines [OF ino1 small k(1) this, of fsz]
        show ?thesis
        proof (cases "load_command_body fd fsz lc ld w1")
          case None
          with rem r Some lc size show ?thesis by (simp add: loop_refines_def)
        next
          case res: (Some res)
          obtain ok ld1 w2 where ok: "res = (ok, ld1, w2)" by (cases res) auto
          have step: "fds w2 = fds w1" "ld_offset ld1 = ld_offset ld"
              "ld_remaining_bytes ld1 = ld_remaining_bytes ld"
            using body res ok by (simp_all add: step_refines_def)
          show ?thesis
          proof (cases ok)
            case False
            with body res ok have "fault_free w1 \<longrightarrow> spec_command fsz lc (take ?k ?bs) = None"
              by (simp add: step_refines_def)
            with False rem r Some lc size res ok read(2) show ?thesis
              unfolding spec by (auto simp: loop_refines_def)
          next
            case True
            have off: "unat (ld_offset (advance (lc_cmdsize lc) ld1)) = unat (ld_offset ld) + ?k"
              using fits small k by (simp add: step unat_plus_less)
            have rm: "unat (ld_remaining_bytes (advance (lc_cmdsize lc) ld1)) =
                unat (ld_remaining_bytes ld) - ?k"
              using k by (simp add: step unat_sub_if')
            have "loop_refines (spec_commands n fsz (unat (ld_remaining_bytes ld) - ?k) (drop ?k ?bs))
                (advance (lc_cmdsize lc) ld1) w2
                (load_commands n fd fsz (advance (lc_cmdsize lc) ld1) w2)"
              using Suc.IH [of w2 "advance (lc_cmdsize lc) ld1"] ino1 step(1) small fits k
              by (simp only: off rm) (simp add: add.commute)
            moreover have "step_refines (spec_command fsz lc (take ?k ?bs)) ld w1 (Some (True, ld1, w2))"
              using body res ok True by simp
            ultimately have "loop_refines (spec_commands (Suc n) fsz (unat (ld_remaining_bytes ld)) ?bs)
                ld w (load_commands n fd fsz (advance (lc_cmdsize lc) ld1) w2)"
              unfolding spec using read(2)
              by (intro loop_refines_step [where ?w0.0 = w1]) auto
            with True rem r Some lc size res ok show ?thesis by simp
          qed
        qed
      qed
    qed
  qed
qed

section \<open>Opening a file\<close>

definition open_refines :: "(mach_header \<times> hwx_image) option \<Rightarrow> io \<Rightarrow> (hwx_file option \<times> io) option \<Rightarrow> bool" where
  "open_refines img w res \<longleftrightarrow>
     (case res of
        None \<Rightarrow> True
      | Some (None, w1) \<Rightarrow> fault_free w \<longrightarrow> img = None
      | Some (Some f, w1) \<Rightarrow> img = Some (abs_file f) \<and> (fault_free w \<longrightarrow> fault_free w1))"

lemma find_section_strip: "find_section n s (map strip_segment sgs) = find_section n s sgs"
  by (induction sgs) (auto simp: strip_segment_def split: option.splits)

lemma open_refines_error: "(fault_free w \<Longrightarrow> img = None) \<Longrightarrow> open_refines img w (open_error fd file ld w1)"
  by (auto simp: open_refines_def open_error_def bind_eq_Some_conv split: option.splits)

lemma open_refines_start:
  assumes "open_refines img w1 res" and "fault_free w \<Longrightarrow> fault_free w1"
  shows "open_refines img w res"
  using assms by (auto simp: open_refines_def simp del: not_None_eq not_Some_eq split: option.splits)

lemma open_commands_refines:
  assumes heap: "heap_ok L {#self#} w" and fd: "fds w fd = Some ino"
    and small: "length (contents ino) < 2 ^ 63"
    and header: "Option.bind (mem_read (contents ino) 0 32) get_mach_header = Some header"
    and magic: "hd_magic header = HWX_MACHO_MAGIC_64"
    and size: "32 + unat (hd_sizeofcmds header) \<le> length (contents ino)"
  shows "open_refines (spec_file (contents ino)) w
    (open_commands fd (of_nat (length (contents ino))) header self w)"
proof -
  let ?fsz = "of_nat (length (contents ino)) :: u64"
  let ?n = "unat (hd_ncmds header)"
  let ?ld0 = "init_loader header"
  let ?img = "spec_commands ?n ?fsz (unat (hd_sizeofcmds header)) (drop 32 (contents ino))"
  have zero: "abs_loader ?ld0 = ([], [])"
    by (simp add: abs_loader_def init_loader_def)
  have spec: "spec_file (contents ino) = do {
      (ss, ts) \<leftarrow> ?img;
      if find_section (Some (cstr ''__TEXT'')) (cstr ''__text'') ss = None \<or>
         find_section (Some (cstr ''__TEXT'')) (cstr ''__const'') ss = None
      then None else Some (header, ss, ts) }"
    using header magic size by (simp add: spec_file_def)
  have ref: "loop_refines ?img ?ld0 w (load_commands ?n fd ?fsz ?ld0 w)"
    using load_commands_refines [OF fd small, of ?ld0 ?n ?fsz] size
    by (simp add: init_loader_def)
  have init: "loader_ok (fds w) (insert self L) ?fsz {#} ?ld0 w"
    using heap_ok_unmove [OF heap] by (simp add: loader_ok_def owned_def seg_blocks_def thr_blocks_def
        init_loader_def shape_ok_def)
  have "cursor_ok (unat (hd_sizeofcmds header)) ino ?ld0"
    using size by (simp add: cursor_ok_def init_loader_def entries_def)
  note loaded = load_commands_ok [OF init fd small this, of ?n]
  have shape: "case load_commands ?n fd ?fsz ?ld0 w of None \<Rightarrow> True
      | Some (ok, ld, w1) \<Rightarrow> shape_ok ?fsz ld"
    using loaded u32_less [of "hd_sizeofcmds header"]
    by (auto simp: loader_ok_def split: option.splits)
  show ?thesis
  proof (cases "load_commands ?n fd ?fsz ?ld0 w")
    case None
    then show ?thesis by (simp add: open_commands_def open_refines_def)
  next
    case (Some res)
    obtain ok ld w1 where res: "res = (ok, ld, w1)" by (cases res) auto
    have err: "open_refines (spec_file (contents ino)) w (open_error fd (Some self) ld w2)"
      if "fault_free w \<Longrightarrow> spec_file (contents ino) = None" for w2
      using that by (rule open_refines_error)
    show ?thesis
    proof (cases "ok \<and> ld_remaining_bytes ld = 0")
      case False
      with ref Some res spec have "fault_free w \<Longrightarrow> spec_file (contents ino) = None"
        by (auto simp: loop_refines_def split: if_splits)
      from err [OF this] False Some res show ?thesis
        by (auto simp: open_commands_def)
    next
      case True
      have img: "?img = Some (abs_loader ld)"
        using ref Some res True zero by (auto simp: loop_refines_def image_append_def)
      have count: "take (unat (ld_segment_count ld)) (ld_segments ld) = ld_segments ld"
        using shape Some res by (simp add: shape_ok_def)
      let ?f = "loaded_file fd ?fsz header self ld"
      have spec_f: "spec_file (contents ino) =
          (if found (hwx_get_tsk_section (Some ?f)) = None \<or> found (hwx_get_krn_section (Some ?f)) = None
           then None else Some (abs_file ?f))"
        using img count
        by (simp add: spec hwx_get_tsk_section_def hwx_get_krn_section_def hwx_section_by_name_def
            found_def abs_file_def abs_loader_def find_section_strip)
      show ?thesis
      proof (cases "found (hwx_get_tsk_section (Some ?f)) = None \<or>
          found (hwx_get_krn_section (Some ?f)) = None")
        case True
        with spec_f err \<open>ok \<and> _\<close> Some res show ?thesis
          by (simp add: open_commands_def Let_def)
      next
        case False
        moreover have "fault_free w \<longrightarrow> fault_free w1"
          using ref Some res \<open>ok \<and> _\<close> by (simp add: loop_refines_def)
        ultimately show ?thesis
          using spec_f \<open>ok \<and> _\<close> Some res by (auto simp: open_commands_def Let_def open_refines_def)
      qed
    qed
  qed
qed

lemma open_header_refines:
  assumes heap: "heap_ok L {#} w" and fd: "fds w fd = Some ino"
    and small: "length (contents ino) < 2 ^ 63"
  shows "open_refines (spec_file (contents ino)) w
    (open_header fd (of_nat (length (contents ino))) w)"
proof -
  let ?fsz = "of_nat (length (contents ino)) :: u64"
  obtain r w1 where r: "hwx_pread_exact fd 32 0 w = (r, w1)" by fastforce
  note same = hwx_pread_exact_same_res [OF r]
  show ?thesis
  proof (cases r)
    case None
    have "fault_free w \<Longrightarrow> mem_read (contents ino) 0 32 = None"
      using hwx_pread_exact_ends [OF _ fd small _ r] None by (auto simp: fault_free_def)
    then have "fault_free w \<Longrightarrow> spec_file (contents ino) = None"
      by (simp add: spec_file_def)
    with None r show ?thesis by (simp add: open_header_def open_refines_def)
  next
    case (Some raw)
    have raw: "length raw = 32" "mem_read (contents ino) 0 32 = Some raw"
      using hwx_pread_exact_data [OF r [unfolded Some] fd small] by auto
    then obtain header where header: "get_mach_header raw = Some header"
      by (auto simp: get_mach_header_def get_u32_def mem_read_def)
    have fits: "hwx_within_file ?fsz 32 (ucast (hd_sizeofcmds header)) \<longleftrightarrow>
        32 + unat (hd_sizeofcmds header) \<le> length (contents ino)"
      using small by (simp add: hwx_within_file_iff unat_of_nat)
    show ?thesis
    proof (cases "hd_magic header = HWX_MACHO_MAGIC_64 \<and>
        32 + unat (hd_sizeofcmds header) \<le> length (contents ino)")
      case False
      then have "spec_file (contents ino) = None"
        using raw header by (auto simp: spec_file_def)
      with False r Some header fits show ?thesis
        by (auto simp: open_header_def open_refines_def)
    next
      case True
      have env1: "fault_free w \<Longrightarrow> fault_free w1" by (rule hwx_pread_exact_env [OF r])
      obtain p w2 where m: "os_malloc w1 = (p, w2)" by fastforce
      note env = os_malloc_env [OF m]
      show ?thesis
      proof (cases p)
        case None
        with env env1 True r Some header fits m show ?thesis
          by (auto simp: open_header_def open_refines_def)
      next
        case self: (Some self)
        have "heap_ok L {#} w1" using heap heap_ok_same_res [OF same] by simp
        then have "heap_ok L {#self#} w2"
          by (cases rule: os_malloc_cases) (use m self in auto)
        moreover have "fds w2 fd = Some ino" using env same fd by (simp add: same_res_def)
        ultimately have "open_refines (spec_file (contents ino)) w2
            (open_commands fd ?fsz header self w2)"
          using small raw(2) header True by (intro open_commands_refines) auto
        then have "open_refines (spec_file (contents ino)) w (open_commands fd ?fsz header self w2)"
          using env env1 by (blast intro: open_refines_start)
        with True r Some header fits m self show ?thesis
          by (simp add: open_header_def)
      qed
    qed
  qed
qed

lemma hwx_open_refines:
  assumes io: "io_ok w" and path: "paths w p = Inr ino" "stat_error ino = None" "is_regular ino"
  shows "open_refines (spec_file (contents ino)) w (hwx_open (Some p) w)"
proof -
  let ?w = "w\<lparr>fds := (fds w)(fresh w \<mapsto> ino), fresh := Suc (fresh w)\<rparr>"
  have "heap_ok (live w) {#} ?w"
    using io by (auto simp: heap_ok_def io_ok_def)
  moreover have "length (contents ino) < 2 ^ 63"
    using io path(1) by (simp add: io_ok_def)
  ultimately have "open_refines (spec_file (contents ino)) ?w
      (open_header (fresh w) (of_nat (length (contents ino))) ?w)"
    by (intro open_header_refines) auto
  moreover have "fault_free ?w = fault_free w"
    by (simp add: fault_free_def only_intr_def)
  ultimately have "open_refines (spec_file (contents ino)) w
      (open_header (fresh w) (of_nat (length (contents ino))) ?w)"
    by (blast intro: open_refines_start)
  then show ?thesis
    using path by (simp add: hwx_open_def os_open_def)
qed

text \<open>Opening a file uses up none of the faults: it runs into none when there are none.\<close>

lemma hwx_open_fault_free:
  assumes "io_ok w" and "hwx_open path w = Some (Some f, w1)" and "fault_free w"
  shows "fault_free w1"
proof -
  obtain p ino where p: "path = Some p" "paths w p = Inr ino" "stat_error ino = None" "is_regular ino"
    using assms(2) by (auto simp: hwx_open_def os_open_def split: option.splits sum.splits if_splits)
  with hwx_open_refines [OF assms(1) p(2-4)] assms show ?thesis
    by (simp add: open_refines_def)
qed

end
