(* ===== verification/Hwx_Query.thy ===== *)
theory Hwx_Query
  imports Hwx_Spec
begin

text \<open>
  Reading through an open file: \<open>hwx_validate_read\<close>, \<open>hwx_segment_read\<close> and
  \<open>hwx_section_read\<close>, whose common contract is the locale \<open>window_reader\<close>; and what the
  lookups of \<open>Hwx_Format\<close> return: the first match in file order, and every thread state of
  a flavor exactly once.
\<close>

section \<open>Operations\<close>

definition hwx_validate_read :: "hwx_file option \<Rightarrow> u64 \<Rightarrow> u64 \<Rightarrow> io \<Rightarrow> bool \<times> io" where
  "hwx_validate_read f offset sz w =
     (case f of
        None \<Rightarrow> (False, w\<lparr>errno := EINVAL\<rparr>)
      | Some file \<Rightarrow>
          if \<not> hwx_within_file (hf_file_size file) offset sz then (False, w\<lparr>errno := EINVAL\<rparr>)
          else (True, w))"

text \<open>\<open>buffer\<close> tells whether the destination is non-NULL; the result is the bytes written to
  it, \<open>None\<close> for -1.\<close>

definition hwx_segment_read ::
  "hwx_file option \<Rightarrow> hwx_segment option \<Rightarrow> u64 \<Rightarrow> bool \<Rightarrow> u64 \<Rightarrow> io \<Rightarrow> (bytes option \<times> io) option" where
  "hwx_segment_read f segment offset buffer sz w =
     (case segment of
        None \<Rightarrow> Some (None, w\<lparr>errno := EINVAL\<rparr>)
      | Some sg \<Rightarrow>
          if \<not> buffer \<and> sz > 0 then Some (None, w\<lparr>errno := EINVAL\<rparr>)
          else if sz = 0 then Some (Some [], w)
          else if offset > seg_filesize sg \<or> sz > seg_filesize sg - offset
          then Some (None, w\<lparr>errno := EINVAL\<rparr>)
          else let file_offset = seg_fileoff sg + offset in
            (case hwx_validate_read f file_offset sz w of
               (False, w1) \<Rightarrow> Some (None, w1)
             | (True, w1) \<Rightarrow>
                 map_option (\<lambda>file. hwx_pread_exact (hf_fd file) (unat sz) file_offset w1) f))"

definition hwx_section_read ::
  "hwx_file option \<Rightarrow> hwx_section option \<Rightarrow> u64 \<Rightarrow> bool \<Rightarrow> u64 \<Rightarrow> io \<Rightarrow> (bytes option \<times> io) option" where
  "hwx_section_read f section offset buffer sz w =
     (case section of
        None \<Rightarrow> Some (None, w\<lparr>errno := EINVAL\<rparr>)
      | Some s \<Rightarrow>
          if \<not> buffer \<and> sz > 0 then Some (None, w\<lparr>errno := EINVAL\<rparr>)
          else if sz = 0 then Some (Some [], w)
          else if offset > sec_size s \<or> sz > sec_size s - offset
          then Some (None, w\<lparr>errno := EINVAL\<rparr>)
          else let file_offset = ucast (sec_offset s) + offset in
            (case hwx_validate_read f file_offset sz w of
               (False, w1) \<Rightarrow> Some (None, w1)
             | (True, w1) \<Rightarrow>
                 map_option (\<lambda>file. hwx_pread_exact (hf_fd file) (unat sz) file_offset w1) f))"

section \<open>The contract of a reader\<close>

text \<open>The file object \<open>f\<close> is open on the file \<open>ino\<close>.\<close>

definition file_open :: "inode \<Rightarrow> hwx_file \<Rightarrow> io \<Rightarrow> bool" where
  "file_open ino f w \<longleftrightarrow> fds w (hf_fd f) = Some ino \<and> length (contents ino) < 2 ^ 63 \<and>
     hf_file_size f = of_nat (length (contents ino))"

text \<open>The bytes of a window of the file.\<close>

definition window_bytes :: "inode \<Rightarrow> nat \<Rightarrow> nat \<Rightarrow> bytes" where
  "window_bytes ino base n = take n (drop base (contents ino))"

lemma request_cases:
  obtains "n = (0 :: u64)" | "0 < n" "\<not> b" | "0 < n" "b" "k < m + unat n" | "0 < n" "b" "m + unat n \<le> k"
  by (metis not_less word_gt_0)

text \<open>
  A reader of windows \<open>'w\<close>, each with its base and length in the file. The laws say how a
  request is checked and where the bytes come from; everything a caller relies on follows.
\<close>

locale window_reader =
  fixes read_at :: "hwx_file option \<Rightarrow> 'w option \<Rightarrow> u64 \<Rightarrow> bool \<Rightarrow> u64 \<Rightarrow> io \<Rightarrow> (bytes option \<times> io) option"
    and base :: "'w \<Rightarrow> u64" and len :: "'w \<Rightarrow> u64"
  assumes read_null: "read_at f None off b n w = Some (None, w\<lparr>errno := EINVAL\<rparr>)"
    and read_no_buffer: "0 < n \<Longrightarrow> read_at f (Some x) off False n w = Some (None, w\<lparr>errno := EINVAL\<rparr>)"
    and read_zero: "read_at f (Some x) off b 0 w = Some (Some [], w)"
    and read_outside: "0 < n \<Longrightarrow> unat (len x) < unat off + unat n \<Longrightarrow>
      read_at f (Some x) off True n w = Some (None, w\<lparr>errno := EINVAL\<rparr>)"
    and read_inside: "0 < n \<Longrightarrow> unat off + unat n \<le> unat (len x) \<Longrightarrow>
      read_at (Some file) (Some x) off True n w =
        Some (if hwx_within_file (hf_file_size file) (base x + off) n
              then hwx_pread_exact (hf_fd file) (unat n) (base x + off) w
              else (None, w\<lparr>errno := EINVAL\<rparr>))"
begin

text \<open>A window that is empty or lies in the file.\<close>

definition window_ok :: "hwx_file \<Rightarrow> 'w \<Rightarrow> bool" where
  "window_ok f x \<longleftrightarrow> len x = 0 \<or> unat (base x) + unat (len x) \<le> unat (hf_file_size f)"

lemma read_total: "read_at (Some f) x off b n w \<noteq> None"
proof (cases x)
  case None
  then show ?thesis by (simp add: read_null)
next
  case (Some y)
  consider "n = 0" | "0 < n" "\<not> b" | "0 < n" "b" "unat (len y) < unat off + unat n"
    | "0 < n" "b" "unat off + unat n \<le> unat (len y)"
    by (rule request_cases [where n = n and b = b and m = "unat off" and k = "unat (len y)"])
  then show ?thesis
    by cases (auto simp: Some read_zero read_no_buffer read_outside read_inside)
qed

lemma read_same_res: "read_at (Some f) x off b n w = Some (r, w1) \<Longrightarrow> same_res w w1"
proof (cases x)
  case None
  then show "read_at (Some f) x off b n w = Some (r, w1) \<Longrightarrow> same_res w w1"
    by (auto simp: read_null)
next
  case (Some y)
  consider "n = 0" | "0 < n" "\<not> b" | "0 < n" "b" "unat (len y) < unat off + unat n"
    | "0 < n" "b" "unat off + unat n \<le> unat (len y)"
    by (rule request_cases [where n = n and b = b and m = "unat off" and k = "unat (len y)"])
  then show "read_at (Some f) x off b n w = Some (r, w1) \<Longrightarrow> same_res w w1"
    by cases (auto simp: Some read_zero read_no_buffer read_outside read_inside
      split: if_splits dest: hwx_pread_exact_same_res)
qed

lemma window_offset:
  assumes "file_open ino f w" and "window_ok f x" and "unat off \<le> unat (len x)"
  shows "unat (base x + off) = unat (base x) + unat off"
proof (cases "len x = 0")
  case True
  with assms(3) show ?thesis by (simp add: unat_eq_zero)
next
  case False
  with assms show ?thesis
    by (intro unat_plus_less) (simp add: file_open_def window_ok_def unat_of_nat)
qed

lemma read_request:
  assumes f: "file_open ino f w" and x: "window_ok f x"
    and n: "0 < n" "unat off + unat n \<le> unat (len x)"
  shows "read_at (Some f) (Some x) off True n w =
      Some (hwx_pread_exact (hf_fd f) (unat n) (base x + off) w)"
    and "unat (base x + off) + unat n \<le> length (contents ino)"
    and "unat (base x + off) = unat (base x) + unat off"
proof -
  show off: "unat (base x + off) = unat (base x) + unat off"
    using f x n(2) by (intro window_offset) auto
  show fits: "unat (base x + off) + unat n \<le> length (contents ino)"
    using f x n by (auto simp: off file_open_def window_ok_def unat_of_nat word_less_nat_alt)
  then have "hwx_within_file (hf_file_size f) (base x + off) n"
    using f by (simp add: hwx_within_file_iff file_open_def unat_of_nat)
  then show "read_at (Some f) (Some x) off True n w =
      Some (hwx_pread_exact (hf_fd f) (unat n) (base x + off) w)"
    by (simp add: read_inside [OF n])
qed

text \<open>Whatever is returned is the window's bytes.\<close>

lemma read_data:
  assumes f: "file_open ino f w" and x: "window_ok f x"
    and read: "read_at (Some f) (Some x) off b n w = Some (Some bs, w1)"
  shows "bs = window_bytes ino (unat (base x) + unat off) (unat n) \<and> length bs = unat n"
proof (cases "n = 0")
  case True
  with read show ?thesis by (simp add: read_zero window_bytes_def)
next
  case False
  then have n: "0 < n" by (simp add: word_gt_0)
  then have b: "b" using read read_no_buffer [OF n, of "Some f" x off w] by (cases b) auto
  with n have inside: "unat off + unat n \<le> unat (len x)"
    using read read_outside [OF n, of x off "Some f" w] by (cases "unat off + unat n \<le> unat (len x)") auto
  note req = read_request [OF f x n inside]
  have p: "hwx_pread_exact (hf_fd f) (unat n) (base x + off) w = (Some bs, w1)"
    using read b req(1) by simp
  have "0 < unat n" using n by (simp add: word_less_nat_alt)
  with hwx_pread_exact_data [OF p] f show ?thesis
    using req(3) by (auto simp: file_open_def window_bytes_def mem_simps)
qed

text \<open>Without faults a request succeeds exactly when it has a buffer and stays inside.\<close>

lemma read_succeeds:
  assumes f: "file_open ino f w" and x: "window_ok f x" and quiet: "fault_free w"
    and n: "unat off + unat n \<le> unat (len x)"
  shows "\<exists>w1. read_at (Some f) (Some x) off True n w =
    Some (Some (window_bytes ino (unat (base x) + unat off) (unat n)), w1)"
proof (cases "n = 0")
  case True
  then show ?thesis by (simp add: read_zero window_bytes_def)
next
  case False
  then have n0: "0 < n" by (simp add: word_gt_0)
  note req = read_request [OF f x n0 n]
  obtain r w1 where p: "hwx_pread_exact (hf_fd f) (unat n) (base x + off) w = (r, w1)"
    by fastforce
  have "0 < unat n" using n0 by (simp add: word_less_nat_alt)
  note c = hwx_pread_exact_cases [OF p _ _ this req(2)]
  have "r \<noteq> None" using c(2) f quiet by (simp add: file_open_def)
  then obtain bs where "r = Some bs" by blast
  with c(3) f req(3) have "r = Some (window_bytes ino (unat (base x) + unat off) (unat n))"
    by (simp add: file_open_def window_bytes_def)
  with p req(1) show ?thesis by simp
qed

text \<open>Two adjacent reads give the bytes of the read of both.\<close>

lemma read_split:
  assumes f: "file_open ino f w" and x: "window_ok f x"
    and r1: "read_at (Some f) (Some x) off b1 m w = Some (Some bs1, w1)"
    and r2: "read_at (Some f) (Some x) (off + m) b2 n w1 = Some (Some bs2, w2)"
    and r3: "read_at (Some f) (Some x) off b3 (m + n) w3 = Some (Some bs3, w4)"
    and f3: "file_open ino f w3"
    and small: "unat off + unat m + unat n < 2 ^ 64"
  shows "bs3 = bs1 @ bs2"
proof -
  have f1: "file_open ino f w1"
    using read_same_res [OF r1] f by (simp add: file_open_def same_res_def)
  have "unat (m + n) = unat m + unat n" "unat (off + m) = unat off + unat m"
    using small by (simp_all add: unat_plus_less)
  then show ?thesis
    using read_data [OF f x r1] read_data [OF f1 x r2] read_data [OF f3 x r3]
    by (simp add: window_bytes_def take_add add.commute add.left_commute)
qed

end

lemma window_check: "(off > n \<or> k > n - off) = (unat n < unat off + unat (k :: u64))"
  by (auto simp: word_less_nat_alt unat_sub_if')

interpretation seg: window_reader hwx_segment_read seg_fileoff seg_filesize
proof
  show "hwx_segment_read f None off b n w = Some (None, w\<lparr>errno := EINVAL\<rparr>)" for f off b n w
    by (simp add: hwx_segment_read_def)
qed (simp_all add: hwx_segment_read_def hwx_validate_read_def window_check word_gt_0 Let_def)

interpretation sec: window_reader hwx_section_read "\<lambda>s. ucast (sec_offset s)" sec_size
proof
  show "hwx_section_read f None off b n w = Some (None, w\<lparr>errno := EINVAL\<rparr>)" for f off b n w
    by (simp add: hwx_section_read_def)
qed (simp_all add: hwx_section_read_def hwx_validate_read_def window_check word_gt_0 Let_def)

section \<open>Lookups\<close>

text \<open>Which segments a name selects: NULL and the empty string select all.\<close>

definition segment_matches :: "bytes option \<Rightarrow> hwx_segment \<Rightarrow> bool" where
  "segment_matches segname sg \<longleftrightarrow> segname \<in> {None, Some [], Some (seg_name sg)}"

lemma find_append: "find P (xs @ ys) = (case find P xs of None \<Rightarrow> find P ys | Some x \<Rightarrow> Some x)"
  by (induction xs) auto

lemma find_section_eq:
  assumes "\<And>sg. sg \<in> set sgs \<Longrightarrow> unat (seg_section_count sg) = length (seg_sections sg)"
  shows "find_section segname sectname sgs = find (\<lambda>s. sec_section_name s = sectname)
    (concat (map seg_sections (filter (segment_matches segname) sgs)))"
  using assms
  by (induction sgs) (auto simp: segment_matches_def find_append split: option.splits)

lemma file_counts_take:
  "file_counts_ok f \<Longrightarrow> take (unat (hf_segment_count f)) (hf_segments f) = hf_segments f"
  "file_counts_ok f \<Longrightarrow> take (unat (hf_thread_state_count f)) (hf_thread_states f) = hf_thread_states f"
  by (simp_all add: file_counts_ok_def)

text \<open>The indices from \<open>a\<close> on of the states with a flavor.\<close>

definition flavor_indices :: "u32 \<Rightarrow> hwx_thread_state list \<Rightarrow> nat \<Rightarrow> nat list" where
  "flavor_indices flavor ss a = filter (\<lambda>i. thr_flavor (ss ! i) = flavor) [a..<length ss]"

lemma flavor_indices_step:
  "a < length ss \<Longrightarrow> flavor_indices flavor ss a =
     (if thr_flavor (ss ! a) = flavor then a # flavor_indices flavor ss (Suc a)
      else flavor_indices flavor ss (Suc a))"
  by (simp add: flavor_indices_def upt_conv_Cons)

lemma find_flavor_spec:
  "find_flavor flavor (drop a ss) a =
     (case flavor_indices flavor ss a of [] \<Rightarrow> None | i # is \<Rightarrow> Some i)"
proof (induction "length ss - a" arbitrary: a)
  case 0
  then show ?case by (simp add: flavor_indices_def)
next
  case (Suc n)
  then have a: "a < length ss" by simp
  then have "drop a ss = ss ! a # drop (Suc a) ss" by (simp add: Cons_nth_drop_Suc)
  with Suc.hyps(1) [of "Suc a"] Suc.hyps(2) a show ?case
    by (simp add: flavor_indices_step)
qed

lemma flavor_indices_tail:
  "flavor_indices flavor ss a = i # is \<Longrightarrow> is = flavor_indices flavor ss (Suc i) \<and> i < length ss"
proof (induction "length ss - a" arbitrary: a)
  case 0
  then show ?case by (simp add: flavor_indices_def)
next
  case (Suc n)
  then have "a < length ss" by simp
  with Suc.hyps(1) [of "Suc a"] Suc.hyps(2) Suc.prems show ?case
    by (auto simp: flavor_indices_step split: if_splits)
qed

text \<open>The indices the iteration from the NULL cursor visits.\<close>

fun visited :: "hwx_file \<Rightarrow> u32 \<Rightarrow> nat option \<Rightarrow> nat \<Rightarrow> nat list" where
  "visited f flavor cur 0 = []"
| "visited f flavor cur (Suc fuel) =
     (case found (hwx_thread_state_next (Some f) flavor cur) of
        None \<Rightarrow> []
      | Some i \<Rightarrow> i # visited f flavor (Some i) fuel)"

definition after :: "nat option \<Rightarrow> nat" where
  "after cur = (case cur of None \<Rightarrow> 0 | Some i \<Rightarrow> Suc i)"

lemma hwx_thread_state_next_eq:
  assumes "file_counts_ok f" and "case cur of None \<Rightarrow> True | Some i \<Rightarrow> i < length (hf_thread_states f)"
  shows "hwx_thread_state_next (Some f) flavor cur =
    Inr (case flavor_indices flavor (hf_thread_states f) (after cur) of [] \<Rightarrow> None | i # is \<Rightarrow> Some i)"
  using assms find_flavor_spec [of flavor 0 "hf_thread_states f"]
    find_flavor_spec [of flavor _ "hf_thread_states f"]
  by (auto simp: hwx_thread_state_next_def file_counts_take after_def file_counts_ok_def
      split: option.splits)

lemma visited_eq:
  assumes "file_counts_ok f" and "case cur of None \<Rightarrow> True | Some i \<Rightarrow> i < length (hf_thread_states f)"
  shows "visited f flavor cur n = take n (flavor_indices flavor (hf_thread_states f) (after cur))"
  using assms(2)
proof (induction n arbitrary: cur)
  case 0
  then show ?case by simp
next
  case (Suc n)
  show ?case
  proof (cases "flavor_indices flavor (hf_thread_states f) (after cur)")
    case Nil
    with hwx_thread_state_next_eq [OF assms(1) Suc.prems] show ?thesis by (simp add: found_def)
  next
    case (Cons i "is")
    note tail = flavor_indices_tail [OF Cons]
    with Suc.IH [of "Some i"] Cons hwx_thread_state_next_eq [OF assms(1) Suc.prems]
    show ?thesis by (simp add: found_def after_def)
  qed
qed

section \<open>Windows of a well-formed file\<close>

lemma section_window:
  assumes "file_wf f" and "sg \<in> set (hf_segments f)" and "s \<in> set (seg_sections sg)"
  shows "sec.window_ok f s"
  using assms
  by (fastforce simp: file_wf_def list_all_iff segment_wf_def section_wf_def sec.window_ok_def
      hwx_within_file_iff)

lemma segment_window:
  assumes "file_wf f" and "sg \<in> set (hf_segments f)"
  shows "seg.window_ok f sg"
  using assms
  by (fastforce simp: file_wf_def list_all_iff segment_wf_def seg.window_ok_def hwx_within_file_iff)

lemma find_Some_set: "find P xs = Some x \<Longrightarrow> x \<in> set xs \<and> P x"
  by (auto simp: find_Some_iff)

lemma found_section_window:
  assumes "file_wf f" and "found (hwx_section_by_name (Some f) seg (Some name)) = Some s"
  shows "sec.window_ok f s"
proof -
  have counts: "file_counts_ok f" using assms(1) by (simp add: file_wf_def)
  have "unat (seg_section_count sg) = length (seg_sections sg)" if "sg \<in> set (hf_segments f)" for sg
    using assms(1) that by (simp add: file_wf_def list_all_iff segment_wf_def)
  then have "find (\<lambda>s. sec_section_name s = name)
      (concat (map seg_sections (filter (segment_matches seg) (hf_segments f)))) = Some s"
    using assms(2) find_section_eq [of "hf_segments f" seg name]
    by (simp add: hwx_section_by_name_def found_def file_counts_take [OF counts])
  then have "s \<in> set (concat (map seg_sections (filter (segment_matches seg) (hf_segments f))))"
    by (blast dest: find_Some_set)
  then show ?thesis using section_window [OF assms(1)] by auto
qed

end
