(* ===== verification/Hwx_Encode.thy ===== *)
theory Hwx_Encode
  imports Hwx_Query
begin

text \<open>
  A writer of HWX files: the inverse of the specification. It describes a file as a header
  and a list of commands and lays them out as the C structures do; parsing what it writes
  gives back the segments and thread states. The properties of the loader are instantiated
  on files written this way.
\<close>

section \<open>The writer\<close>

definition put_name :: "bytes \<Rightarrow> bytes" where
  "put_name n = n @ replicate (16 - length n) 0"

definition put_section :: "hwx_section \<Rightarrow> bytes" where
  "put_section s = put_name (sec_section_name s) @ put_name (sec_segment_name s) @
     le64 (sec_addr s) @ le64 (sec_size s) @ le32 (sec_offset s) @ le32 (sec_align s) @
     le32 (sec_reloff s) @ le32 (sec_nreloc s) @ le32 (sec_flags s) @ le32 (sec_reserved1 s) @
     le32 (sec_reserved2 s) @ le32 (sec_reserved3 s)"

definition put_segment :: "hwx_segment \<Rightarrow> bytes" where
  "put_segment sg = le32 HWX_LOAD_COMMAND_SEGMENT_64 @
     le32 (of_nat (72 + 80 * length (seg_sections sg))) @ put_name (seg_name sg) @
     le64 (seg_vmaddr sg) @ le64 (seg_vmsize sg) @ le64 (seg_fileoff sg) @ le64 (seg_filesize sg) @
     le32 (seg_maxprot sg) @ le32 (seg_initprot sg) @ le32 (seg_section_count sg) @
     le32 (seg_flags sg) @ concat (map put_section (seg_sections sg))"

definition put_thread_state :: "hwx_thread_state \<Rightarrow> bytes" where
  "put_thread_state st = le32 (thr_flavor st) @ le32 (thr_count st) @ thr_data st"

datatype command = Seg hwx_segment | Thr "hwx_thread_state list" | Other u32 bytes

fun put_command :: "command \<Rightarrow> bytes" where
  "put_command (Seg sg) = put_segment sg"
| "put_command (Thr sts) =
     (let body = concat (map put_thread_state sts)
      in le32 HWX_LOAD_COMMAND_THREAD @ le32 (of_nat (8 + length body)) @ body)"
| "put_command (Other c body) = le32 c @ le32 (of_nat (8 + length body)) @ body"

definition put_header :: "mach_header \<Rightarrow> bytes" where
  "put_header h = le32 (hd_magic h) @ le32 (hd_cputype h) @ le32 (hd_cpusubtype h) @
     le32 (hd_filetype h) @ le32 (hd_ncmds h) @ le32 (hd_sizeofcmds h) @ le32 (hd_flags h) @
     le32 (hd_reserved h)"

definition put_commands :: "command list \<Rightarrow> bytes" where
  "put_commands cs = concat (map put_command cs)"

definition put_file :: "mach_header \<Rightarrow> command list \<Rightarrow> bytes \<Rightarrow> bytes" where
  "put_file h cs payload = put_header h @ put_commands cs @ payload"

section \<open>What can be written\<close>

definition name_ok :: "bytes \<Rightarrow> bool" where
  "name_ok n \<longleftrightarrow> length n \<le> 16 \<and> 0 \<notin> set n"

definition section_ok :: "nat \<Rightarrow> hwx_section \<Rightarrow> bool" where
  "section_ok k s \<longleftrightarrow> name_ok (sec_section_name s) \<and> name_ok (sec_segment_name s) \<and>
     (sec_size s = 0 \<or> unat (sec_offset s) + unat (sec_size s) \<le> k)"

definition segment_ok :: "nat \<Rightarrow> hwx_segment \<Rightarrow> bool" where
  "segment_ok k sg \<longleftrightarrow> name_ok (seg_name sg) \<and> seg_sections_ptr sg = None \<and>
     seg_section_count sg = of_nat (length (seg_sections sg)) \<and>
     72 + 80 * length (seg_sections sg) < 2 ^ 32 \<and>
     unat (seg_fileoff sg) + unat (seg_filesize sg) \<le> k \<and> list_all (section_ok k) (seg_sections sg)"

definition thread_ok :: "hwx_thread_state \<Rightarrow> bool" where
  "thread_ok st \<longleftrightarrow> thr_data_ptr st = None \<and> length (thr_data st) = 4 * unat (thr_count st) \<and>
     thr_byte_size st = of_nat (length (thr_data st))"

fun command_ok :: "nat \<Rightarrow> command \<Rightarrow> bool" where
  "command_ok k (Seg sg) = segment_ok k sg"
| "command_ok k (Thr sts) = (sts \<noteq> [] \<and> list_all thread_ok sts \<and>
     8 + length (concat (map put_thread_state sts)) < 2 ^ 32)"
| "command_ok k (Other c body) =
     (c \<noteq> HWX_LOAD_COMMAND_SEGMENT_64 \<and> c \<noteq> HWX_LOAD_COMMAND_THREAD \<and> 8 + length body < 2 ^ 32)"

fun image_of :: "command \<Rightarrow> hwx_image" where
  "image_of (Seg sg) = ([sg], [])"
| "image_of (Thr sts) = ([], sts)"
| "image_of (Other c body) = ([], [])"

definition segments_of :: "command list \<Rightarrow> hwx_segment list" where
  "segments_of cs = concat (map (fst \<circ> image_of) cs)"

definition threads_of :: "command list \<Rightarrow> hwx_thread_state list" where
  "threads_of cs = concat (map (snd \<circ> image_of) cs)"

text \<open>The header's counts are those of the commands, and \<open>__TEXT\<close> has its two sections.\<close>

definition file_ok :: "mach_header \<Rightarrow> command list \<Rightarrow> bytes \<Rightarrow> bool" where
  "file_ok h cs payload \<longleftrightarrow> hd_magic h = HWX_MACHO_MAGIC_64 \<and>
     unat (hd_ncmds h) = length cs \<and> unat (hd_sizeofcmds h) = length (put_commands cs) \<and>
     length (put_file h cs payload) < 2 ^ 63 \<and>
     list_all (command_ok (length (put_file h cs payload))) cs \<and>
     find_section (Some (cstr ''__TEXT'')) (cstr ''__text'') (segments_of cs) \<noteq> None \<and>
     find_section (Some (cstr ''__TEXT'')) (cstr ''__const'') (segments_of cs) \<noteq> None"

section \<open>Reading fields of a concatenation\<close>

named_theorems fields "reading a field of a concatenation of encoded fields"

lemma get_u32_skip [fields]: "length xs \<le> off \<Longrightarrow> get_u32 (xs @ ys) off = get_u32 ys (off - length xs)"
  by (simp add: get_u32_def mem_read_append_right)

lemma get_u64_skip [fields]: "length xs \<le> off \<Longrightarrow> get_u64 (xs @ ys) off = get_u64 ys (off - length xs)"
  by (simp add: get_u64_def mem_read_append_right)

lemma get_u32_first [fields]: "get_u32 (le32 x @ ys) 0 = Some x" "get_u32 (le32 x) 0 = Some x"
  by (rule get_u32_le32; simp add: mem_read_def)+

lemma get_u64_first [fields]: "get_u64 (le64 x @ ys) 0 = Some x"
  by (rule get_u64_le64) (simp add: mem_read_def)

lemma mem_read_skip [fields]:
  "length xs \<le> off \<Longrightarrow> mem_read (xs @ ys) off n = mem_read ys (off - length xs) n"
  by (rule mem_read_append_right)

lemma mem_read_first: "length xs = n \<Longrightarrow> mem_read (xs @ ys) 0 n = Some xs"
  by (simp add: mem_read_def)

lemma length_put_name: "name_ok n \<Longrightarrow> length (put_name n) = 16"
  by (simp add: put_name_def name_ok_def)

lemma trim_put_name:
  assumes "name_ok n"
  shows "hwx_trim_name (put_name n) 16 = Some n"
proof -
  have "takeWhile (\<lambda>b. b \<noteq> 0) (n @ replicate (16 - length n) 0) = n"
    using assms by (subst takeWhile_append2) (auto simp: name_ok_def takeWhile_eq_Nil_iff)
  then show ?thesis
    using length_put_name [OF assms] by (simp add: hwx_trim_name_eq) (simp add: put_name_def)
qed

lemma length_put_section: "section_ok k s \<Longrightarrow> length (put_section s) = 80"
  by (simp add: put_section_def section_ok_def length_put_name)

lemma get_put_section:
  assumes "section_ok k s"
  shows "get_section64 (put_section s @ ys) 0 = Some s"
  using assms
  by (simp add: get_section64_def put_section_def section_ok_def fields length_put_name
      mem_read_first trim_put_name)

lemma get_section64_skip:
  "length xs \<le> off \<Longrightarrow> get_section64 (xs @ ys) off = get_section64 ys (off - length xs)"
  by (simp add: get_section64_def fields)

lemma get_put_sections:
  assumes "list_all (section_ok k) ss" and "i < length ss"
  shows "get_section64 (concat (map put_section ss) @ ys) (80 * i) = Some (ss ! i)"
  using assms
proof (induction ss arbitrary: i)
  case Nil
  then show ?case by simp
next
  case (Cons s ss)
  show ?case
  proof (cases i)
    case 0
    with Cons.prems show ?thesis
      using get_put_section [of k s "concat (map put_section ss) @ ys"] by simp
  next
    case (Suc j)
    have "length (put_section s) = 80"
      using Cons.prems by (auto intro: length_put_section)
    with Suc Cons.prems Cons.IH [of j] show ?thesis
      by (simp add: get_section64_skip)
  qed
qed

section \<open>Reading back commands\<close>

lemma length_put_sections:
  "list_all (section_ok k) ss \<Longrightarrow> length (concat (map put_section ss)) = 80 * length ss"
  by (induction ss) (auto simp: length_put_section)

lemma length_put_segment:
  "segment_ok k sg \<Longrightarrow> length (put_segment sg) = 72 + 80 * length (seg_sections sg)"
  using length_put_sections [of k "seg_sections sg"]
  by (simp add: put_segment_def segment_ok_def length_put_name)

lemma those_map_Some: "(\<And>x. x \<in> set xs \<Longrightarrow> f x = Some (g x)) \<Longrightarrow> those (map f xs) = Some (map g xs)"
  by (induction xs) auto

lemma spec_put_segment:
  assumes sg: "segment_ok (unat fsz) sg"
  shows "spec_segment fsz (put_segment sg) = Some sg"
proof -
  let ?ss = "seg_sections sg"
  have names: "name_ok (seg_name sg)" and cnt: "unat (of_nat (length ?ss) :: u32) = length ?ss"
    and count_eq: "seg_section_count sg = of_nat (length ?ss)"
    and ss: "list_all (section_ok (unat fsz)) ?ss" and range: "in_file fsz (seg_fileoff sg) (seg_filesize sg)"
    using sg by (auto simp: segment_ok_def in_file_def unat_of_nat)
  define head where "head = le32 HWX_LOAD_COMMAND_SEGMENT_64 @
     le32 (of_nat (72 + 80 * length ?ss)) @ put_name (seg_name sg) @
     le64 (seg_vmaddr sg) @ le64 (seg_vmsize sg) @ le64 (seg_fileoff sg) @ le64 (seg_filesize sg) @
     le32 (seg_maxprot sg) @ le32 (seg_initprot sg) @ le32 (seg_section_count sg) @
     le32 (seg_flags sg)"
  have head_len: "length head = 72"
    by (simp add: head_def length_put_name names)
  have put: "put_segment sg = head @ concat (map put_section ?ss)"
    by (simp add: put_segment_def head_def)
  have "get_section64 (put_segment sg) (72 + 80 * i) = Some (?ss ! i)" if "i < length ?ss" for i
    using get_put_sections [OF ss that, of "[]"] by (simp add: put get_section64_skip head_len)
  then have secs: "those (map (\<lambda>i. get_section64 (put_segment sg) (72 + 80 * i)) [0..<length ?ss]) = Some ?ss"
    using those_map_Some [of "[0..<length ?ss]" "\<lambda>i. get_section64 (put_segment sg) (72 + 80 * i)"
      "\<lambda>i. ?ss ! i"] by (simp add: map_nth)
  have fields: "get_u32 (put_segment sg) 64 = Some (seg_section_count sg)"
    "get_segment64 (put_segment sg) (seg_section_count sg) = Some (sg\<lparr>seg_sections := []\<rparr>)"
    using names sg
    by (simp_all add: get_segment64_def put_segment_def fields length_put_name mem_read_first
        trim_put_name segment_ok_def)
  have "list_all (spec_section_ok fsz) ?ss"
    using ss by (auto simp: list_all_iff section_ok_def spec_section_ok_def in_file_def)
  then show ?thesis
    using secs fields range length_put_segment [OF sg]
    by (simp add: spec_segment_def count_eq cnt)
qed

lemma le32_nat: "le_nat (le32 x) = unat x"
  using le_nat_nat_le [of 4 "unat x"] u32_less [of x] by (simp add: le32_def)

lemma spec_put_threads:
  assumes "list_all thread_ok sts"
  shows "spec_threads (concat (map put_thread_state sts)) = sts"
  using assms
proof (induction sts)
  case Nil
  then show ?case by (subst spec_threads.simps) simp
next
  case (Cons st sts)
  let ?rest = "concat (map put_thread_state sts)"
  have st: "length (thr_data st) = 4 * unat (thr_count st)" "thr_data_ptr st = None"
    "thr_byte_size st = of_nat (length (thr_data st))"
    using Cons.prems by (simp_all add: thread_ok_def)
  have "spec_threads (put_thread_state st @ ?rest) = st # spec_threads ?rest"
    using st by (subst spec_threads.simps) (simp add: put_thread_state_def le32_nat Let_def)
  with Cons show ?case by simp
qed

lemma put_command_length:
  assumes "command_ok k c"
  shows "8 \<le> length (put_command c) \<and> length (put_command c) < 2 ^ 32"
proof (cases c)
  case (Seg sg)
  with assms length_put_segment [of k sg] show ?thesis by (simp add: segment_ok_def)
qed (use assms in \<open>simp_all add: Let_def\<close>)

definition command_id :: "command \<Rightarrow> u32" where
  "command_id c = (case c of Seg _ \<Rightarrow> HWX_LOAD_COMMAND_SEGMENT_64
     | Thr _ \<Rightarrow> HWX_LOAD_COMMAND_THREAD | Other n _ \<Rightarrow> n)"

lemma put_command_head:
  assumes "command_ok k c"
  shows "Option.bind (mem_read (put_command c @ ys) 0 8) get_load_command =
    Some \<lparr>lc_cmd = command_id c, lc_cmdsize = of_nat (length (put_command c))\<rparr>"
proof -
  obtain body where body: "put_command c =
      le32 (command_id c) @ le32 (of_nat (length (put_command c))) @ body"
  proof (cases c)
    case (Seg sg)
    with assms length_put_segment [of k sg] that show thesis
      by (auto simp: put_segment_def command_id_def)
  qed (use that in \<open>auto simp: command_id_def Let_def\<close>)
  let ?h = "le32 (command_id c) @ le32 (of_nat (length (put_command c)))"
  have "mem_read (put_command c @ ys) 0 8 = Some ?h"
    by (subst body) (simp add: mem_read_def)
  then show ?thesis
    by (simp add: get_load_command_def fields)
qed

lemma spec_put_command:
  assumes "command_ok (unat fsz) c"
  shows "spec_command fsz \<lparr>lc_cmd = command_id c, lc_cmdsize = n\<rparr> (put_command c) = Some (image_of c)"
proof (cases c)
  case (Seg sg)
  with assms spec_put_segment [of fsz sg] show ?thesis
    by (simp add: spec_command_def command_id_def)
next
  case (Thr sts)
  then obtain st sts' where "sts = st # sts'" using assms by (cases sts) auto
  then have "\<not> length (put_command c) < 16"
    by (simp add: Thr put_thread_state_def Let_def)
  with Thr assms spec_put_threads [of sts] show ?thesis
    by (simp add: spec_command_def command_id_def Let_def)
next
  case (Other n body)
  with assms show ?thesis by (simp add: spec_command_def command_id_def)
qed

lemma spec_put_commands:
  assumes "list_all (command_ok (unat fsz)) cs"
  shows "spec_commands (length cs) fsz (length (put_commands cs)) (put_commands cs @ rest) =
    Some (segments_of cs, threads_of cs)"
  using assms
proof (induction cs)
  case Nil
  then show ?case by (simp add: put_commands_def segments_of_def threads_of_def)
next
  case (Cons c cs)
  have c: "command_ok (unat fsz) c" using Cons.prems by simp
  note len = put_command_length [OF c]
  have cnt: "unat (of_nat (length (put_command c)) :: u32) = length (put_command c)"
    using len by (simp add: unat_of_nat)
  have put: "put_commands (c # cs) @ rest = put_command c @ put_commands cs @ rest"
    by (simp add: put_commands_def)
  show ?case
    unfolding put using len Cons.IH Cons.prems put_command_head [OF c] spec_put_command [OF c]
    by (auto simp: Let_def cnt segments_of_def threads_of_def put_commands_def split: prod.split)
qed

lemma get_put_header: "get_mach_header (put_header h) = Some h"
  by (simp add: get_mach_header_def put_header_def fields)

lemma length_put_header [simp]: "length (put_header h) = 32"
  by (simp add: put_header_def)

text \<open>The specification parses what was written.\<close>

lemma spec_put_file:
  assumes "file_ok h cs payload"
  shows "spec_file (put_file h cs payload) = Some (h, segments_of cs, threads_of cs)"
proof -
  let ?data = "put_file h cs payload"
  have fsz: "unat (of_nat (length ?data) :: u64) = length ?data"
    using assms by (simp add: file_ok_def unat_of_nat)
  have "Option.bind (mem_read ?data 0 32) get_mach_header = Some h"
    by (simp add: put_file_def mem_read_def get_put_header)
  moreover have "drop 32 ?data = put_commands cs @ payload"
    by (simp add: put_file_def)
  moreover have "\<not> length ?data < 32 + unat (hd_sizeofcmds h)"
    using assms by (simp add: file_ok_def put_file_def)
  ultimately show ?thesis
    using assms spec_put_commands [of "of_nat (length ?data)" cs payload]
    by (simp add: spec_file_def file_ok_def fsz)
qed

section \<open>A sample file\<close>

definition sample_section :: "string \<Rightarrow> u64 \<Rightarrow> u32 \<Rightarrow> hwx_section" where
  "sample_section name sz off = \<lparr>sec_segment_name = cstr ''__TEXT'', sec_section_name = cstr name,
     sec_addr = 0, sec_size = sz, sec_offset = off, sec_align = 0, sec_reloff = 0, sec_nreloc = 0,
     sec_flags = 0, sec_reserved1 = 0, sec_reserved2 = 0, sec_reserved3 = 0\<rparr>"

definition sample_segment :: hwx_segment where
  "sample_segment = \<lparr>seg_name = cstr ''__TEXT'', seg_vmaddr = 0, seg_vmsize = 16, seg_fileoff = 288,
     seg_filesize = 12, seg_maxprot = 5, seg_initprot = 5, seg_flags = 0, seg_section_count = 2,
     seg_sections = [sample_section ''__text'' 8 288, sample_section ''__const'' 4 296],
     seg_sections_ptr = None\<rparr>"

definition sample_thread :: hwx_thread_state where
  "sample_thread = \<lparr>thr_flavor = 3, thr_count = 1, thr_byte_size = 4, thr_data = [1, 2, 3, 4],
     thr_data_ptr = None\<rparr>"

definition sample_header :: mach_header where
  "sample_header = \<lparr>hd_magic = HWX_MACHO_MAGIC_64, hd_cputype = 0x80, hd_cpusubtype = 4,
     hd_filetype = 2, hd_ncmds = 2, hd_sizeofcmds = 252, hd_flags = 0, hd_reserved = 0\<rparr>"

definition sample_commands :: "command list" where
  "sample_commands = [Seg sample_segment, Thr [sample_thread]]"

definition sample_payload :: bytes where
  "sample_payload = [0, 0, 0, 0] @ map of_nat [10..<18] @ map of_nat [20..<24]"

definition sample_file :: bytes where
  "sample_file = put_file sample_header sample_commands sample_payload"

text \<open>An environment in which every path names the file with these bytes.\<close>

definition env_of :: "bytes \<Rightarrow> bool list \<Rightarrow> pread_out list \<Rightarrow> io" where
  "env_of data fails reads = \<lparr>paths = \<lambda>p. Inr \<lparr>stat_error = None, is_regular = True, contents = data\<rparr>,
     fds = \<lambda>_. None, live = {}, fresh = 0, preads = reads, alloc_fail = fails, errno = 0\<rparr>"

lemma sample_names: "name_ok (cstr ''__TEXT'')" "name_ok (cstr ''__text'')" "name_ok (cstr ''__const'')"
  by (simp_all add: name_ok_def cstr_def)

lemma sample_lengths: "length (put_commands sample_commands) = 252" "length sample_payload = 16"
  by (simp_all add: put_commands_def sample_commands_def sample_segment_def put_segment_def
      put_section_def sample_section_def put_name_def cstr_def sample_thread_def
      put_thread_state_def sample_payload_def Let_def)

lemma sample_ok: "file_ok sample_header sample_commands sample_payload"
proof -
  have len: "length (put_file sample_header sample_commands sample_payload) = 300"
    by (simp add: put_file_def sample_lengths)
  have cmds: "list_all (command_ok 300) sample_commands"
    by (simp add: sample_commands_def segment_ok_def sample_segment_def section_ok_def
        sample_section_def sample_names thread_ok_def sample_thread_def put_thread_state_def)
  have seg: "segments_of sample_commands = [sample_segment]"
    by (simp add: segments_of_def sample_commands_def)
  have "find_section (Some (cstr ''__TEXT'')) (cstr ''__text'') [sample_segment] \<noteq> None"
    "find_section (Some (cstr ''__TEXT'')) (cstr ''__const'') [sample_segment] \<noteq> None"
    by (simp_all add: sample_segment_def sample_section_def cstr_def)
  with len cmds seg show ?thesis
    by (simp add: file_ok_def sample_lengths) (simp add: sample_header_def sample_commands_def)
qed

text \<open>The sample is opened, with interrupted and short reads on the way.\<close>

definition sample_env :: io where
  "sample_env = env_of sample_file [] [Short 4, Failed EINTR, Short 40]"

lemma sample_env_ok: "io_ok sample_env" "fault_free sample_env"
  "paths sample_env p = Inr \<lparr>stat_error = None, is_regular = True, contents = sample_file\<rparr>"
  using sample_ok
  by (simp_all add: sample_env_def env_of_def io_ok_def fault_free_def only_intr_def sample_file_def
      file_ok_def)

lemma no_short_segment:
  assumes "list_all (command_ok k) cs"
  shows "\<not> short_segment (length cs) (length pre) rem (pre @ put_commands cs @ rest)"
  using assms
proof (induction cs arbitrary: pre rem)
  case Nil
  then show ?case by simp
next
  case (Cons c cs)
  have c: "command_ok k c" using Cons.prems by simp
  note len = put_command_length [OF c]
  have cnt: "unat (of_nat (length (put_command c)) :: u32) = length (put_command c)"
    using len by (simp add: unat_of_nat)
  have split: "pre @ put_commands (c # cs) @ rest = (pre @ put_command c) @ put_commands cs @ rest"
    by (simp add: put_commands_def)
  have read: "mem_read (pre @ put_command c @ ys) (length pre) 8 = mem_read (put_command c @ ys) 0 8" for ys
    by (simp add: mem_read_append_right)
  have long: "\<not> (command_id c = HWX_LOAD_COMMAND_SEGMENT_64 \<and> length (put_command c) < 68)"
  proof (cases c)
    case (Seg sg)
    then have "72 \<le> length (put_command c)"
      using c length_put_segment [of k sg] by simp
    then show ?thesis by simp
  qed (use c in \<open>auto simp: command_id_def\<close>)
  have "\<not> short_segment (length cs) (length (pre @ put_command c)) (rem - length (put_command c))
      ((pre @ put_command c) @ put_commands cs @ rest)"
    using Cons by (intro Cons.IH) simp
  then show ?case
    unfolding split using long put_command_head [OF c, of "put_commands cs @ rest"]
    by (simp add: read cnt add.commute Let_def)
qed

lemma no_short_file:
  assumes "file_ok h cs payload"
  shows "\<not> short_file (put_file h cs payload)"
proof -
  have "mem_read (put_file h cs payload) 0 32 = Some (put_header h)"
    by (simp add: put_file_def mem_read_def)
  moreover have "\<not> short_segment (length cs) 32 rem (put_file h cs payload)" for rem
    using no_short_segment [of "length (put_file h cs payload)" cs "put_header h" _ payload] assms
    by (simp add: file_ok_def) (simp add: put_file_def)
  ultimately show ?thesis
    using assms by (simp add: short_file_def get_put_header file_ok_def)
qed

text \<open>Every written file is opened, and gives what was written.\<close>

lemma hwx_open_put_file:
  assumes "io_ok w" and "fault_free w" and "file_ok h cs payload"
    and "paths w p = Inr \<lparr>stat_error = None, is_regular = True, contents = put_file h cs payload\<rparr>"
  shows "\<exists>f w1. hwx_open (Some p) w = Some (Some f, w1) \<and>
    abs_file f = (h, segments_of cs, threads_of cs)"
proof -
  have "hwx_open (Some p) w \<noteq> None"
    using hwx_open_ok [OF assms(1), of "Some p"] assms(4) no_short_file [OF assms(3)]
    by (cases "hwx_open (Some p) w") auto
  then obtain r w1 where r: "hwx_open (Some p) w = Some (r, w1)" by fastforce
  have "open_refines (Some (h, segments_of cs, threads_of cs)) w (Some (r, w1))"
    using hwx_open_refines [OF assms(1,4)] spec_put_file [OF assms(3)] r by simp
  with assms(2) r show ?thesis
    by (auto simp: open_refines_def split: option.splits)
qed

lemma sample_opens: "\<exists>f w1. hwx_open (Some ''model.hwx'') sample_env = Some (Some f, w1) \<and>
    abs_file f = (sample_header, [sample_segment], [sample_thread])"
  using hwx_open_put_file [OF sample_env_ok(1,2) sample_ok] sample_env_ok(3)
  by (simp add: sample_file_def segments_of_def threads_of_def sample_commands_def)

end
