(* ===== verification/Hwx_Correct.thy ===== *)
theory Hwx_Correct
  imports Hwx_Encode
begin

text \<open>
  The properties of the loader and of the queries on an open file, each applied to the
  sample file or to the encoder's output as its witness.
\<close>

section \<open>Opening and closing\<close>

text \<open>C10: a call of hwx_open that returns NULL, on whichever of its error paths, leaks
  nothing and frees nothing of the caller's: live blocks and open descriptors are as before.\<close>
theorem hwx_open_failure_restores:
  assumes "io_ok w" and "hwx_open path w = Some (None, w1)"
  shows "live w1 = live w \<and> fds w1 = fds w"
  using hwx_open_ok [OF assms(1), of path] assms(2) by (simp add: heap_ok_def)

theorem hwx_open_failure_restores_witness:
  "\<exists>w1. hwx_open (Some ''empty.hwx'') (env_of [] [] [Failed EINTR]) = Some (None, w1) \<and>
     errno w1 = EINVAL \<and> live w1 = {} \<and> fds w1 = (\<lambda>_. None)"
proof -
  have "\<exists>w1. hwx_open (Some ''empty.hwx'') (env_of [] [] [Failed EINTR]) = Some (None, w1) \<and>
      errno w1 = EINVAL"
    by (simp add: hwx_open_def env_of_def os_open_def open_header_def hwx_pread_exact_def
        hwx_pread_loop.simps os_pread_def os_close_def)
  moreover have "io_ok (env_of [] [] [Failed EINTR])"
    by (simp add: io_ok_def env_of_def)
  ultimately show ?thesis
    using hwx_open_failure_restores [of "env_of [] [] [Failed EINTR]" "Some ''empty.hwx''"]
    by (fastforce simp: env_of_def)
qed

text \<open>C16: a file hwx_open returns is well-formed, is open on the named file through a fresh
  descriptor, and owns its heap blocks: each of them live once and none of the caller's.\<close>
theorem hwx_open_success:
  assumes "io_ok w" and "hwx_open path w = Some (Some f, w1)"
  shows "file_wf f \<and> heap_ok (live w) (mset (blocks (file_blocks f))) w1 \<and>
    (\<exists>p ino. path = Some p \<and> paths w p = Inr ino \<and> file_open ino f w1 \<and>
       fds w (hf_fd f) = None \<and> fds w1 = (fds w)(hf_fd f \<mapsto> ino))"
proof -
  obtain p ino where p: "path = Some p" "paths w p = Inr ino" "fds w (hf_fd f) = None"
    "open_result ((fds w)(hf_fd f \<mapsto> ino)) (live w) ino (hf_fd f) (Some (Some f, w1))"
    using hwx_open_ok [OF assms(1), of path] assms(2) by auto
  moreover have "length (contents ino) < 2 ^ 63"
    using assms(1) p(2) by (simp add: io_ok_def)
  ultimately show ?thesis
    by (auto simp: open_result_def file_open_def)
qed

theorem hwx_open_success_witness:
  "\<exists>f w1. hwx_open (Some ''model.hwx'') sample_env = Some (Some f, w1) \<and> file_wf f \<and>
     heap_ok (live sample_env) (mset (blocks (file_blocks f))) w1"
  using sample_opens hwx_open_success [OF sample_env_ok(1), of "Some ''model.hwx''"] by blast

text \<open>Closing an opened file frees each of its blocks exactly once and closes its
  descriptor, so that the heap and the descriptors are those from before the open.\<close>
theorem hwx_open_then_close:
  assumes "io_ok w" and "hwx_open path w = Some (Some f, w1)"
  shows "\<exists>w2. hwx_close (Some f) w1 = Some w2 \<and> live w2 = live w \<and> fds w2 = fds w"
proof -
  obtain p ino where p: "fds w (hf_fd f) = None"
    "open_result ((fds w)(hf_fd f \<mapsto> ino)) (live w) ino (hf_fd f) (Some (Some f, w1))"
    using hwx_open_ok [OF assms(1), of path] assms(2) by auto
  then have "heap_ok (live w) (mset (blocks (file_blocks f)) + {#}) w1" "file_counts_ok f"
    by (simp_all add: open_result_def file_wf_def)
  from hwx_close_ok [OF this] obtain w2 where
    w2: "hwx_close (Some f) w1 = Some w2" "heap_ok (live w) {#} w2" "fds w2 = (fds w1)(hf_fd f := None)"
    by blast
  moreover have "fds w2 = fds w"
    using p w2(3) by (auto simp: open_result_def)
  ultimately show ?thesis
    by (simp add: heap_ok_def)
qed

theorem hwx_open_then_close_witness:
  "\<exists>f w1 w2. hwx_open (Some ''model.hwx'') sample_env = Some (Some f, w1) \<and>
     hwx_close (Some f) w1 = Some w2 \<and> live w2 = {} \<and> fds w2 = (\<lambda>_. None)"
  using sample_opens hwx_open_then_close [OF sample_env_ok(1), of "Some ''model.hwx''"]
  by (fastforce simp: sample_env_def env_of_def)

text \<open>C32: hwx_open has no undefined behaviour on any file, and in any environment of failing
  allocations and reads, unless an LC_SEGMENT_64 command of fewer than 68 bytes can be reached.\<close>
theorem hwx_open_defined:
  assumes "io_ok w"
    and "\<And>p ino. path = Some p \<Longrightarrow> paths w p = Inr ino \<Longrightarrow> \<not> short_file (contents ino)"
  shows "hwx_open path w \<noteq> None"
  using hwx_open_ok [OF assms(1), of path] assms(2) by (cases "hwx_open path w") auto

theorem hwx_open_defined_witness:
  "hwx_open (Some ''model.hwx'') sample_env \<noteq> None"
  by (rule hwx_open_defined [OF sample_env_ok(1)])
    (use no_short_file [OF sample_ok] sample_env_ok(3) in \<open>auto simp: sample_file_def\<close>)

text \<open>The smallest file that reaches the read beyond the buffer.\<close>

definition short_hwx :: bytes where
  "short_hwx = put_header \<lparr>hd_magic = HWX_MACHO_MAGIC_64, hd_cputype = 0x80, hd_cpusubtype = 4,
     hd_filetype = 2, hd_ncmds = 1, hd_sizeofcmds = 8, hd_flags = 0, hd_reserved = 0\<rparr> @
     le32 HWX_LOAD_COMMAND_SEGMENT_64 @ le32 8"

text \<open>on such a file, with nothing else wrong, hwx_open does read nsects beyond the end
  of the buffer it allocated for the command.\<close>
theorem hwx_open_short_segment_undefined:
  "hwx_open (Some ''short.hwx'') (env_of short_hwx [] []) = None"
proof -
  let ?h = "\<lparr>hd_magic = HWX_MACHO_MAGIC_64, hd_cputype = 0x80, hd_cpusubtype = 4,
     hd_filetype = 2, hd_ncmds = 1, hd_sizeofcmds = 8, hd_flags = 0, hd_reserved = 0\<rparr>"
  let ?cmd = "le32 HWX_LOAD_COMMAND_SEGMENT_64 @ le32 8"
  have reads: "take 32 short_hwx = put_header ?h" "take 8 (drop 32 short_hwx) = ?cmd"
    "length short_hwx = 40"
    by (simp_all add: short_hwx_def)
  have lc: "get_load_command ?cmd = Some \<lparr>lc_cmd = HWX_LOAD_COMMAND_SEGMENT_64, lc_cmdsize = 8\<rparr>"
    by (simp add: get_load_command_def fields)
  have oob: "get_u32 ?cmd 64 = None"
    by (simp add: get_u32_None_iff)
  have nonempty: "put_header ?h \<noteq> []" "le32 x \<noteq> []" for x
    by (simp_all flip: length_greater_0_conv)
  show ?thesis
    using reads lc oob nonempty
    by (simp add: hwx_open_def env_of_def os_open_def open_header_def hwx_pread_exact_def
        hwx_pread_loop.simps os_pread_def get_put_header hwx_within_file_iff os_malloc_def
        open_commands_def init_loader_def load_command_body_def with_command_def parse_segment_def)
qed

section \<open>Refinement of the specification\<close>

text \<open>C2: in every environment, the segments, sections and thread states of an opened file
  are those the specification reads from the bytes of the file.\<close>
theorem hwx_open_sound:
  assumes "io_ok w" and "hwx_open path w = Some (Some f, w1)" and "file_open ino f w1"
  shows "spec_file (contents ino) = Some (abs_file f)"
proof -
  obtain p ino' where p: "path = Some p" "paths w p = Inr ino'"
    "open_result ((fds w)(hf_fd f \<mapsto> ino')) (live w) ino' (hf_fd f) (Some (Some f, w1))"
    using hwx_open_ok [OF assms(1), of path] assms(2) by auto
  then have "ino' = ino"
    using assms(3) by (simp add: open_result_def file_open_def)
  moreover have "stat_error ino' = None \<and> is_regular ino'"
    using assms(2) p(1,2) by (auto simp: hwx_open_def os_open_def split: option.splits if_splits)
  ultimately show ?thesis
    using hwx_open_refines [OF assms(1) p(2)] assms(2) p(1) by (simp add: open_refines_def)
qed

text \<open>C1: when no allocation and no read fails (reads may be interrupted and split), hwx_open
  accepts exactly the files the specification accepts.\<close>
theorem hwx_open_complete:
  assumes "io_ok w" and "fault_free w" and "paths w p = Inr ino" and "stat_error ino = None"
    and "is_regular ino" and "\<not> short_file (contents ino)"
  shows "\<exists>r w1. hwx_open (Some p) w = Some (r, w1) \<and> map_option abs_file r = spec_file (contents ino)"
proof -
  have "hwx_open (Some p) w \<noteq> None"
    using hwx_open_ok [OF assms(1), of "Some p"] assms(3,6) by (cases "hwx_open (Some p) w") auto
  then obtain r w1 where r: "hwx_open (Some p) w = Some (r, w1)" by fastforce
  with hwx_open_refines [OF assms(1,3,4,5)] assms(2) show ?thesis
    by (cases r) (auto simp: open_refines_def)
qed

theorem hwx_open_complete_witness:
  "\<exists>r w1. hwx_open (Some ''model.hwx'') sample_env = Some (r, w1) \<and>
     map_option abs_file r = Some (sample_header, [sample_segment], [sample_thread])"
  using hwx_open_complete [OF sample_env_ok(1,2) sample_env_ok(3), of "''model.hwx''"]
    no_short_file [OF sample_ok] spec_put_file [OF sample_ok]
  by (simp add: sample_file_def segments_of_def threads_of_def sample_commands_def)

text \<open>C25: every file the writer produces from well-formed commands is opened, and the segments
  and thread states are the ones written.\<close>
theorem hwx_open_written_file:
  assumes "io_ok w" and "fault_free w" and "file_ok h cs payload"
    and "paths w p = Inr \<lparr>stat_error = None, is_regular = True, contents = put_file h cs payload\<rparr>"
  shows "\<exists>f w1. hwx_open (Some p) w = Some (Some f, w1) \<and> hf_header f = h \<and>
    map strip_segment (hf_segments f) = segments_of cs \<and>
    map strip_thread (hf_thread_states f) = threads_of cs"
  using hwx_open_put_file [OF assms] by (auto simp: abs_file_def)

theorem hwx_open_written_file_witness:
  "\<exists>f w1. hwx_open (Some ''model.hwx'') sample_env = Some (Some f, w1) \<and>
     map strip_segment (hf_segments f) = [sample_segment] \<and>
     map strip_thread (hf_thread_states f) = [sample_thread]"
  using hwx_open_written_file [OF sample_env_ok(1,2) sample_ok, of "''model.hwx''"] sample_env_ok(3)
  by (auto simp: sample_file_def segments_of_def threads_of_def sample_commands_def)

theorem hwx_open_sound_witness:
  "\<exists>f w1. hwx_open (Some ''model.hwx'') sample_env = Some (Some f, w1) \<and>
     spec_file sample_file = Some (abs_file f)"
proof -
  obtain f w1 where f: "hwx_open (Some ''model.hwx'') sample_env = Some (Some f, w1)"
    using sample_opens by blast
  have "file_open \<lparr>stat_error = None, is_regular = True, contents = sample_file\<rparr> f w1"
    using hwx_open_ok [OF sample_env_ok(1), of "Some ''model.hwx''"] f sample_env_ok(3) sample_ok
    by (auto simp: open_result_def file_open_def sample_file_def file_ok_def)
  from hwx_open_sound [OF sample_env_ok(1) f this] f show ?thesis by simp
qed

section \<open>Reading\<close>

text \<open>hwx_pread_exact, under any schedule of interruptions and short reads, ends; it
  delivers the bytes at the offset when the file has them, and fails with EINVAL when not.\<close>
theorem hwx_pread_exact_correct:
  assumes "only_intr w" and "fds w fd = Some ino" and "length (contents ino) < 2 ^ 63" and "0 < n"
  shows "\<exists>w1. hwx_pread_exact fd n off w = (mem_read (contents ino) (unat off) n, w1) \<and>
    (length (contents ino) < unat off + n \<longrightarrow> errno w1 = EINVAL)"
proof -
  obtain r w1 where r: "hwx_pread_exact fd n off w = (r, w1)" by fastforce
  with hwx_pread_exact_ends [OF assms r] show ?thesis by (auto simp: mem_simps)
qed

definition reading_env :: io where
  "reading_env = (env_of [] [] [Short 0, Failed EINTR, Short 1])
     \<lparr>fds := [3 \<mapsto> \<lparr>stat_error = None, is_regular = True, contents = [10, 11, 12, 13, 14]\<rparr>]\<rparr>"

theorem hwx_pread_exact_correct_witness:
  "\<exists>w1. hwx_pread_exact 3 4 1 reading_env = (Some [11, 12, 13, 14], w1)"
  using hwx_pread_exact_correct [of reading_env 3
      "\<lparr>stat_error = None, is_regular = True, contents = [10, 11, 12, 13, 14]\<rparr>" 4 1]
  by (auto simp: reading_env_def env_of_def only_intr_def mem_read_def)

text \<open>hwx_section_read on a section of a well-formed open file: a request that leaves the
  section fails with EINVAL; any other either fails on a read or returns exactly the
  requested bytes of the section, and without faults it returns them.\<close>
theorem hwx_section_read_correct:
  assumes "file_wf f" and "file_open ino f w" and "sg \<in> set (hf_segments f)"
    and "s \<in> set (seg_sections sg)"
  shows "\<exists>r w1. hwx_section_read (Some f) (Some s) off True n w = Some (r, w1) \<and> same_res w w1 \<and>
    (if unat (sec_size s) < unat off + unat n \<and> n \<noteq> 0 then r = None \<and> errno w1 = EINVAL
     else r \<in> {None, Some (window_bytes ino (unat (sec_offset s) + unat off) (unat n))} \<and>
       (fault_free w \<and> unat off + unat n \<le> unat (sec_size s) \<longrightarrow> r \<noteq> None))"
proof -
  note win = section_window [OF assms(1,3,4)]
  obtain r w1 where r: "hwx_section_read (Some f) (Some s) off True n w = Some (r, w1)"
    using sec.read_total [of f "Some s" off True n w] by auto
  moreover have "same_res w w1"
    by (rule sec.read_same_res [OF r])
  moreover have "r = None \<and> errno w1 = EINVAL" if "unat (sec_size s) < unat off + unat n" "n \<noteq> 0"
    using sec.read_outside [of n s off "Some f" w] r that by (auto simp: word_gt_0)
  moreover have "bs = window_bytes ino (unat (sec_offset s) + unat off) (unat n)" if "r = Some bs" for bs
    using sec.read_data [OF assms(2) win r [unfolded that]] by simp
  moreover have "r \<noteq> None" if "fault_free w" "unat off + unat n \<le> unat (sec_size s)"
    using sec.read_succeeds [OF assms(2) win that] r by auto
  ultimately show ?thesis
    by (cases r) auto
qed

text \<open>The same for hwx_segment_read and the segment's bytes of the file.\<close>
theorem hwx_segment_read_correct:
  assumes "file_wf f" and "file_open ino f w" and "sg \<in> set (hf_segments f)"
  shows "\<exists>r w1. hwx_segment_read (Some f) (Some sg) off True n w = Some (r, w1) \<and> same_res w w1 \<and>
    (if unat (seg_filesize sg) < unat off + unat n \<and> n \<noteq> 0 then r = None \<and> errno w1 = EINVAL
     else r \<in> {None, Some (window_bytes ino (unat (seg_fileoff sg) + unat off) (unat n))} \<and>
       (fault_free w \<and> unat off + unat n \<le> unat (seg_filesize sg) \<longrightarrow> r \<noteq> None))"
proof -
  note win = segment_window [OF assms(1,3)]
  obtain r w1 where r: "hwx_segment_read (Some f) (Some sg) off True n w = Some (r, w1)"
    using seg.read_total [of f "Some sg" off True n w] by auto
  moreover have "same_res w w1"
    by (rule seg.read_same_res [OF r])
  moreover have "r = None \<and> errno w1 = EINVAL" if "unat (seg_filesize sg) < unat off + unat n" "n \<noteq> 0"
    using seg.read_outside [of n sg off "Some f" w] r that by (auto simp: word_gt_0)
  moreover have "bs = window_bytes ino (unat (seg_fileoff sg) + unat off) (unat n)" if "r = Some bs" for bs
    using seg.read_data [OF assms(2) win r [unfolded that]] by simp
  moreover have "r \<noteq> None" if "fault_free w" "unat off + unat n \<le> unat (seg_filesize sg)"
    using seg.read_succeeds [OF assms(2) win that] r by auto
  ultimately show ?thesis
    by (cases r) auto
qed

section \<open>Lookups\<close>

text \<open>The loop over hwx_thread_state_next from NULL visits every thread state of the
  flavor, each once and in file order, and then ends.\<close>
theorem hwx_thread_state_next_enumerates:
  assumes "file_wf f" and "length (hf_thread_states f) \<le> fuel"
  shows "visited f flavor None fuel =
    filter (\<lambda>i. thr_flavor (hf_thread_states f ! i) = flavor) [0..<length (hf_thread_states f)]"
proof -
  have counts: "file_counts_ok f" using assms(1) by (simp add: file_wf_def)
  have "length (flavor_indices flavor (hf_thread_states f) 0) \<le> fuel"
    using assms(2) length_filter_le [of _ "[0..<length (hf_thread_states f)]"]
    by (auto simp: flavor_indices_def intro: order_trans)
  then show ?thesis
    using visited_eq [OF counts, of None flavor fuel] by (simp add: after_def flavor_indices_def)
qed

text \<open>hwx_section_by_name returns the first section of that name, in file order, among
  the sections of the segments the segment name selects (NULL and empty select all).\<close>
theorem hwx_section_by_name_first:
  assumes "file_wf f"
  shows "hwx_section_by_name (Some f) segname (Some sectname) =
    Inr (find (\<lambda>s. sec_section_name s = sectname)
      (concat (map seg_sections (filter (segment_matches segname) (hf_segments f)))))"
proof -
  have "file_counts_ok f" using assms by (simp add: file_wf_def)
  moreover have "unat (seg_section_count sg) = length (seg_sections sg)" if "sg \<in> set (hf_segments f)" for sg
    using assms that by (simp add: file_wf_def list_all_iff segment_wf_def)
  ultimately show ?thesis
    using find_section_eq [of "hf_segments f" segname sectname]
    by (simp add: hwx_section_by_name_def file_counts_take)
qed

text \<open>the CPU subtype of a header is found from its low eight bits whatever the rest, its
  printed name is that of the subtype, and exactly the known subtypes have a task descriptor
  version.\<close>
theorem hwx_cpu_subtype_tables:
  "(hi AND HWX_CPU_SUBTYPE_MASK = 0 \<longrightarrow>
     cpu_subtype_of ((hi OR cpu_subtype_value c) AND HWX_CPU_SUBTYPE_MASK) = c \<and>
     hwx_cpu_subtype_name_raw (hi OR cpu_subtype_value c) = hwx_cpu_subtype_name c) \<and>
   (hwx_td_version_for_cpu c = 0 \<longleftrightarrow> c = CPU_UNKNOWN)"
proof -
  have "cpu_subtype_of (cpu_subtype_value c AND HWX_CPU_SUBTYPE_MASK) = c"
    by (cases c) (simp_all add: cpu_subtype_of_def)
  moreover have "(hi OR cpu_subtype_value c) AND HWX_CPU_SUBTYPE_MASK =
      cpu_subtype_value c AND HWX_CPU_SUBTYPE_MASK" if "hi AND HWX_CPU_SUBTYPE_MASK = 0"
    using that by (simp add: bit.conj_disj_distrib2)
  ultimately show ?thesis
    by (cases c) (simp_all add: hwx_cpu_subtype_name_raw_def)
qed

section \<open>Witnesses on the sample file\<close>

text \<open>The sample is open and its segments and thread states are the ones written.\<close>

lemma sample_file_opened:
  obtains f w1 where "hwx_open (Some ''model.hwx'') sample_env = Some (Some f, w1)" "file_wf f"
    "file_open \<lparr>stat_error = None, is_regular = True, contents = sample_file\<rparr> f w1"
    "map strip_segment (hf_segments f) = [sample_segment]"
    "map strip_thread (hf_thread_states f) = [sample_thread]"
proof -
  obtain f w1 where f: "hwx_open (Some ''model.hwx'') sample_env = Some (Some f, w1)"
    "abs_file f = (sample_header, [sample_segment], [sample_thread])"
    using sample_opens by blast
  with hwx_open_ok [OF sample_env_ok(1), of "Some ''model.hwx''"] sample_env_ok(3) sample_ok
  show thesis
    by (intro that [of f w1])
      (auto simp: open_result_def file_open_def sample_file_def file_ok_def abs_file_def)
qed

definition sample_inode :: inode where
  "sample_inode = \<lparr>stat_error = None, is_regular = True, contents = sample_file\<rparr>"

text \<open>A later state with the file still open on every descriptor, and an interruption to come.\<close>

definition reading_sample :: io where
  "reading_sample = (env_of [] [] [Failed EINTR, Short 0])\<lparr>fds := \<lambda>_. Some sample_inode\<rparr>"

lemma reading_sample_open:
  assumes "file_open sample_inode f w1"
  shows "file_open sample_inode f reading_sample" and "fault_free reading_sample"
  using assms by (simp_all add: file_open_def reading_sample_def env_of_def fault_free_def only_intr_def)

lemma sample_bytes: "window_bytes sample_inode 292 4 = [14, 15, 16, 17]"
proof -
  have "drop 292 sample_file = drop 8 sample_payload"
    by (simp add: sample_file_def put_file_def sample_lengths)
  then show ?thesis
    by (simp add: window_bytes_def sample_inode_def) (simp add: sample_payload_def upt_conv_Cons)
qed

lemma sample_segment_opened:
  obtains f w1 sg where "hwx_open (Some ''model.hwx'') sample_env = Some (Some f, w1)" "file_wf f"
    "file_open sample_inode f reading_sample" "sg \<in> set (hf_segments f)"
    "strip_segment sg = sample_segment"
proof -
  obtain f w1 where f: "hwx_open (Some ''model.hwx'') sample_env = Some (Some f, w1)" "file_wf f"
    "file_open sample_inode f w1" "map strip_segment (hf_segments f) = [sample_segment]"
    by (rule sample_file_opened) (simp add: sample_inode_def)
  from f(4) obtain sg where "hf_segments f = [sg]" "strip_segment sg = sample_segment" by auto
  with f reading_sample_open(1) [OF f(3)] show thesis by (intro that) auto
qed

theorem hwx_section_read_correct_witness:
  "\<exists>f w1. hwx_open (Some ''model.hwx'') sample_env = Some (Some f, w1) \<and>
     (\<exists>w2. hwx_section_read (Some f) (Some (sample_section ''__text'' 8 288)) 4 True 4 reading_sample =
       Some (Some [14, 15, 16, 17], w2))"
proof -
  obtain f w1 sg where f: "hwx_open (Some ''model.hwx'') sample_env = Some (Some f, w1)" "file_wf f"
    "file_open sample_inode f reading_sample" "sg \<in> set (hf_segments f)"
    "strip_segment sg = sample_segment" by (rule sample_segment_opened)
  from f(5) have sections: "seg_sections sg = seg_sections sample_segment"
    by (simp add: strip_segment_def flip: f(5))
  have "sample_section ''__text'' 8 288 \<in> set (seg_sections sg)"
    by (simp add: sections sample_segment_def)
  from hwx_section_read_correct [OF f(2,3,4) this, of 4 4] reading_sample_open(2) f(3)
  have "\<exists>w2. hwx_section_read (Some f) (Some (sample_section ''__text'' 8 288)) 4 True 4 reading_sample =
      Some (Some [14, 15, 16, 17], w2)"
    by (auto simp: sample_section_def sample_bytes)
  with f(1) show ?thesis by blast
qed

theorem hwx_segment_read_correct_witness:
  "\<exists>f w1 sg. hwx_open (Some ''model.hwx'') sample_env = Some (Some f, w1) \<and>
     (\<exists>w2. hwx_segment_read (Some f) (Some sg) 4 True 4 reading_sample =
       Some (Some [14, 15, 16, 17], w2))"
proof -
  obtain f w1 sg where f: "hwx_open (Some ''model.hwx'') sample_env = Some (Some f, w1)" "file_wf f"
    "file_open sample_inode f reading_sample" "sg \<in> set (hf_segments f)"
    "strip_segment sg = sample_segment" by (rule sample_segment_opened)
  from f(5) have "seg_fileoff sg = 288" "seg_filesize sg = 12"
    by (auto simp: strip_segment_def sample_segment_def dest: arg_cong [where f = seg_fileoff]
        arg_cong [where f = seg_filesize])
  with hwx_segment_read_correct [OF f(2,3,4), of 4 4] reading_sample_open(2) f(3)
  have "\<exists>w2. hwx_segment_read (Some f) (Some sg) 4 True 4 reading_sample =
      Some (Some [14, 15, 16, 17], w2)"
    by (auto simp: sample_bytes)
  with f(1) show ?thesis by blast
qed

theorem hwx_thread_state_next_enumerates_witness:
  "\<exists>f w1. hwx_open (Some ''model.hwx'') sample_env = Some (Some f, w1) \<and>
     visited f 3 None 1 = [0] \<and> visited f 4 None 1 = []"
proof -
  obtain f w1 where f: "hwx_open (Some ''model.hwx'') sample_env = Some (Some f, w1)" "file_wf f"
    "map strip_thread (hf_thread_states f) = [sample_thread]"
    by (rule sample_file_opened)
  from f(3) obtain st where st: "hf_thread_states f = [st]" "strip_thread st = sample_thread" by auto
  from st(2) have "thr_flavor st = 3"
    by (auto simp: strip_thread_def sample_thread_def dest: arg_cong [where f = thr_flavor])
  with hwx_thread_state_next_enumerates [OF f(2), of 1] st(1) have
    "visited f 3 None 1 = [0]" "visited f 4 None 1 = []" by simp_all
  with f(1) show ?thesis by blast
qed

theorem hwx_section_by_name_first_witness:
  "\<exists>f w1. hwx_open (Some ''model.hwx'') sample_env = Some (Some f, w1) \<and>
     hwx_section_by_name (Some f) None (Some (cstr ''__const'')) =
       Inr (Some (sample_section ''__const'' 4 296))"
proof -
  obtain f w1 where f: "hwx_open (Some ''model.hwx'') sample_env = Some (Some f, w1)" "file_wf f"
    "map strip_segment (hf_segments f) = [sample_segment]"
    by (rule sample_file_opened)
  from f(3) obtain sg where sg: "hf_segments f = [sg]" "strip_segment sg = sample_segment" by auto
  from sg(2) have "seg_sections sg = seg_sections sample_segment"
    by (simp add: strip_segment_def flip: sg(2))
  with sg(1) have "hwx_section_by_name (Some f) None (Some (cstr ''__const'')) =
      Inr (Some (sample_section ''__const'' 4 296))"
    by (simp add: hwx_section_by_name_first [OF f(2)] segment_matches_def sample_segment_def
        sample_section_def cstr_def)
  with f(1) show ?thesis by blast
qed

theorem hwx_cpu_subtype_tables_witness:
  "hwx_cpu_subtype_name_raw (0x300 OR 4) = ''h13''"
  using hwx_cpu_subtype_tables [of "0x300" CPU_H13] by simp

end
