(* ===== verification/Drv_Kernel.thy ===== *)
theory Drv_Kernel
  imports Ane_Prelude
begin

text \<open>
  The kernel services the driver \<open>src/driver/src/ane_drv.c\<close> calls. They are not part of the
  repository: the model of the driver takes them as a parameter \<open>K\<close>, a record of functions
  over an abstract kernel state, and relies on their documented behaviour, the assumptions
  of the locale \<open>drm_kernel\<close>. Those speak of what the driver can observe of the kernel
  state, its view: live allocations, address ranges reserved in \<open>ane->mm\<close>, pages mapped
  by the IOMMU, GEM objects with their references, pinned pages and handles.

  Errors are negative \<open>errno\<close> values as in the C code; an operation that the kernel
  forbids (a double \<open>kfree\<close>) has no result.
\<close>

section \<open>Services\<close>

record 'k kapi =
  k_page_shift :: nat                     \<comment> \<open>\<open>PAGE_SHIFT\<close> of the kernel\<close>
  k_kzalloc :: "'k \<Rightarrow> ptr \<times> 'k"
  k_kfree :: "nat \<Rightarrow> 'k \<Rightarrow> 'k option"
  k_mm_insert :: "nat \<Rightarrow> u64 \<Rightarrow> u64 \<Rightarrow> 'k \<Rightarrow> (int \<times> u64) \<times> 'k"
    \<comment> \<open>\<open>drm_mm_insert_node_generic(node, size, align)\<close>: the error and \<open>node->start\<close>\<close>
  k_mm_remove :: "nat \<Rightarrow> 'k \<Rightarrow> 'k"
  k_iommu_map :: "u64 \<Rightarrow> u64 \<Rightarrow> u64 \<Rightarrow> 'k \<Rightarrow> int \<times> 'k"
    \<comment> \<open>\<open>iommu_map(iova, paddr, size)\<close>\<close>
  k_iommu_unmap :: "u64 \<Rightarrow> u64 \<Rightarrow> 'k \<Rightarrow> 'k"
  k_flush_iotlb :: "'k \<Rightarrow> 'k"
  k_gem_init :: "nat \<Rightarrow> u64 \<Rightarrow> 'k \<Rightarrow> int \<times> 'k"
  k_gem_release :: "nat \<Rightarrow> 'k \<Rightarrow> 'k"
  k_gem_put :: "nat \<Rightarrow> 'k \<Rightarrow> 'k"
  k_mmap_offset :: "nat \<Rightarrow> 'k \<Rightarrow> (int \<times> u64) \<times> 'k"
    \<comment> \<open>\<open>drm_gem_create_mmap_offset\<close>, \<open>drm_vma_node_offset_addr\<close>\<close>
  k_get_pages :: "nat \<Rightarrow> 'k \<Rightarrow> (int + u64 list) \<times> 'k"
    \<comment> \<open>the physical addresses of the pages\<close>
  k_put_pages :: "nat \<Rightarrow> 'k \<Rightarrow> 'k"
  k_handle_create :: "nat \<Rightarrow> 'k \<Rightarrow> (int \<times> u32) \<times> 'k"
  k_handle_delete :: "u32 \<Rightarrow> 'k \<Rightarrow> 'k"
  k_lookup :: "u32 \<Rightarrow> 'k \<Rightarrow> ptr \<times> 'k"

section \<open>What the driver observes\<close>

record kview =
  v_blocks :: "nat set"                   \<comment> \<open>live \<open>kzalloc\<close> blocks\<close>
  v_nodes :: "nat \<rightharpoonup> u64 \<times> u64"           \<comment> \<open>nodes of \<open>ane->mm\<close>: start and size\<close>
  v_maps :: "u64 \<rightharpoonup> u64"                   \<comment> \<open>mapped pages: iova to physical address\<close>
  v_gems :: "nat \<rightharpoonup> u64"                   \<comment> \<open>initialised GEM objects with their size\<close>
  v_refs :: "nat \<Rightarrow> nat"                   \<comment> \<open>references of a GEM object\<close>
  v_pinned :: "nat set"                   \<comment> \<open>objects whose pages are pinned\<close>
  v_handles :: "u32 \<rightharpoonup> nat"                \<comment> \<open>handles of the file\<close>

definition ranges_disjoint :: "u64 \<times> u64 \<Rightarrow> u64 \<times> u64 \<Rightarrow> bool" where
  "ranges_disjoint a b \<longleftrightarrow>
     unat (fst a) + unat (snd a) \<le> unat (fst b) \<or> unat (fst b) + unat (snd b) \<le> unat (fst a)"

text \<open>A range the address space manager may hand out: inside its range, aligned, not empty,
  and apart from every range in use.\<close>

definition placement_ok :: "u64 \<Rightarrow> u64 \<Rightarrow> kview \<Rightarrow> u64 \<Rightarrow> u64 \<Rightarrow> u64 \<Rightarrow> bool" where
  "placement_ok lo hi v start sz al \<longleftrightarrow>
     unat lo \<le> unat start \<and> unat start + unat sz \<le> unat hi \<and> 0 < unat sz \<and>
     unat start mod unat al = 0 \<and>
     (\<forall>r \<in> ran (v_nodes v). ranges_disjoint r (start, sz))"

text \<open>The documented behaviour of the services; \<open>lo\<close> and \<open>hi\<close> are the bounds of \<open>ane->mm\<close>.\<close>

locale drm_kernel =
  fixes K :: "'k kapi" and view :: "'k \<Rightarrow> kview" and lo hi :: u64
  assumes kzalloc: "k_kzalloc K k = (p, k1) \<Longrightarrow>
      (case p of None \<Rightarrow> view k1 = view k
       | Some b \<Rightarrow> b \<notin> v_blocks (view k) \<and>
           view k1 = (view k)\<lparr>v_blocks := insert b (v_blocks (view k))\<rparr>)"
    and kfree: "b \<in> v_blocks (view k) \<Longrightarrow>
      \<exists>k1. k_kfree K b k = Some k1 \<and> view k1 = (view k)\<lparr>v_blocks := v_blocks (view k) - {b}\<rparr>"
    and mm_insert: "k_mm_insert K n sz al k = ((e, start), k1) \<Longrightarrow>
      if e < 0 then view k1 = view k
      else placement_ok lo hi (view k) start sz al \<and>
        view k1 = (view k)\<lparr>v_nodes := (v_nodes (view k))(n \<mapsto> (start, sz))\<rparr>"
    and mm_remove: "view (k_mm_remove K n k) = (view k)\<lparr>v_nodes := (v_nodes (view k))(n := None)\<rparr>"
    and iommu_map: "k_iommu_map K iova pa sz k = (e, k1) \<Longrightarrow> v_maps (view k) iova = None \<Longrightarrow>
      if e < 0 then view k1 = view k
      else view k1 = (view k)\<lparr>v_maps := (v_maps (view k))(iova \<mapsto> pa)\<rparr>"
    and iommu_unmap: "view (k_iommu_unmap K iova sz k) =
      (view k)\<lparr>v_maps := (v_maps (view k))(iova := None)\<rparr>"
    and flush: "view (k_flush_iotlb K k) = view k"
    and gem_init: "k_gem_init K g sz k = (e, k1) \<Longrightarrow>
      if e < 0 then view k1 = view k
      else view k1 = (view k)\<lparr>v_gems := (v_gems (view k))(g \<mapsto> sz),
             v_refs := (v_refs (view k))(g := 1)\<rparr>"
    and gem_release: "view (k_gem_release K g k) =
      (view k)\<lparr>v_gems := (v_gems (view k))(g := None)\<rparr>"
    and gem_put: "view (k_gem_put K g k) =
      (view k)\<lparr>v_refs := (v_refs (view k))(g := v_refs (view k) g - 1)\<rparr>"
    and mmap_offset: "view (snd (k_mmap_offset K g k)) = view k"
    and get_pages: "k_get_pages K g k = (r, k1) \<Longrightarrow>
      (case r of
         Inl e \<Rightarrow> e < 0 \<and> view k1 = view k
       | Inr ps \<Rightarrow> (\<forall>sz. v_gems (view k) g = Some sz \<longrightarrow> length ps = unat sz div 2 ^ k_page_shift K) \<and>
           view k1 = (view k)\<lparr>v_pinned := insert g (v_pinned (view k))\<rparr>)"
    and put_pages: "view (k_put_pages K g k) = (view k)\<lparr>v_pinned := v_pinned (view k) - {g}\<rparr>"
    and handle_create: "k_handle_create K g k = ((e, h), k1) \<Longrightarrow>
      if e < 0 then view k1 = view k
      else h \<noteq> 0 \<and> h \<notin> dom (v_handles (view k)) \<and>
        view k1 = (view k)\<lparr>v_handles := (v_handles (view k))(h \<mapsto> g),
          v_refs := (v_refs (view k))(g := v_refs (view k) g + 1)\<rparr>"
    and handle_delete: "v_handles (view k) h = Some g \<Longrightarrow>
      view (k_handle_delete K h k) = (view k)\<lparr>v_handles := (v_handles (view k))(h := None),
        v_refs := (v_refs (view k))(g := v_refs (view k) g - 1)\<rparr>"
    and lookup: "k_lookup K h k = (p, k1) \<Longrightarrow> p = v_handles (view k) h \<and>
      view k1 = (case p of None \<Rightarrow> view k
        | Some g \<Rightarrow> (view k)\<lparr>v_refs := (v_refs (view k))(g := v_refs (view k) g + 1)\<rparr>)"

end
