(* ===== verification/Drv_Iommu.thy ===== *)
theory Drv_Iommu
  imports Drv_Kernel
begin

text \<open>
  The buffer objects of \<open>ane_drv.c\<close> and their mapping into the address space of the engine:
  \<open>ane_iommu_map_pages\<close> with the rollback of a half-done mapping,
  \<open>ane_iommu_unmap_pages\<close> and \<open>ane_iommu_invalidate_tlb\<close>, with the mutex they take.
\<close>

section \<open>State\<close>

text \<open>\<open>struct ane_bo\<close>: \<open>mm\<close> is the pointer to the node, which stays as it is when the node
  is freed; \<open>pages\<close> the physical addresses of the pages, NULL before they are pinned.\<close>

record ane_bo =
  bo_mm :: ptr
  bo_npages :: u32
  bo_pages :: "u64 list option"
  bo_iova :: u64

text \<open>The driver's mutable state: the kernel's, the buffer objects by address, and the two
  mutexes of \<open>struct ane_device\<close>.\<close>

record 'k drv =
  d_kern :: 'k
  d_bos :: "nat \<rightharpoonup> ane_bo"
  d_iommu_lock :: bool
  d_engine_lock :: bool

text \<open>Taking a mutex the caller holds never returns, releasing one it does not hold is an
  error: neither has a result.\<close>

definition lock_iommu :: "'k drv \<Rightarrow> 'k drv option" where
  "lock_iommu s = (if d_iommu_lock s then None else Some (s\<lparr>d_iommu_lock := True\<rparr>))"

definition unlock_iommu :: "'k drv \<Rightarrow> 'k drv option" where
  "unlock_iommu s = (if d_iommu_lock s then Some (s\<lparr>d_iommu_lock := False\<rparr>) else None)"

definition put_kern :: "'k \<Rightarrow> 'k drv \<Rightarrow> 'k drv" where
  "put_kern k s = s\<lparr>d_kern := k\<rparr>"

definition drv_kfree :: "'k kapi \<Rightarrow> nat \<Rightarrow> 'k drv \<Rightarrow> 'k drv option" where
  "drv_kfree K b s = map_option (\<lambda>k. put_kern k s) (k_kfree K b (d_kern s))"

definition put_bo :: "nat \<Rightarrow> ane_bo \<Rightarrow> 'k drv \<Rightarrow> 'k drv" where
  "put_bo b bo s = s\<lparr>d_bos := (d_bos s)(b \<mapsto> bo)\<rparr>"

section \<open>Operations\<close>

definition ane_iommu_invalidate_tlb :: "'k kapi \<Rightarrow> 'k drv \<Rightarrow> 'k drv option" where
  "ane_iommu_invalidate_tlb K s = do {
     s1 \<leftarrow> lock_iommu s;
     unlock_iommu (put_kern (k_flush_iotlb K (d_kern s1)) s1) }"

text \<open>\<open>bo->iova + (i << ane->shift)\<close>: the shift is computed on the 32-bit \<open>i\<close>.\<close>

definition page_iova :: "nat \<Rightarrow> u64 \<Rightarrow> nat \<Rightarrow> u64" where
  "page_iova shift iova i = iova + ucast (push_bit shift (of_nat i :: u32))"

text \<open>\<open>bo->npages << ane->shift\<close>, a 32-bit product, and \<open>1UL << ane->shift\<close>.\<close>

definition bo_bytes :: "nat \<Rightarrow> u32 \<Rightarrow> u32" where
  "bo_bytes shift npages = push_bit shift npages"

definition page_bytes :: "nat \<Rightarrow> u64" where
  "page_bytes shift = push_bit shift 1"

text \<open>\<open>while (i-- > 0) iommu_unmap(...)\<close>\<close>

fun unmap_down :: "'k kapi \<Rightarrow> nat \<Rightarrow> u64 \<Rightarrow> nat \<Rightarrow> 'k \<Rightarrow> 'k" where
  "unmap_down K shift iova 0 k = k"
| "unmap_down K shift iova (Suc i) k =
     unmap_down K shift iova i (k_iommu_unmap K (page_iova shift iova i) (page_bytes shift) k)"

text \<open>The mapping loop from page \<open>i\<close> with \<open>n\<close> pages to go, and its rollback on an error.\<close>

fun map_loop :: "'k kapi \<Rightarrow> nat \<Rightarrow> u64 \<Rightarrow> u64 list \<Rightarrow> nat \<Rightarrow> nat \<Rightarrow> 'k \<Rightarrow> (int \<times> 'k) option" where
  "map_loop K shift iova pages i 0 k = Some (0, k)"
| "map_loop K shift iova pages i (Suc n) k =
     (if i < length pages
      then let (err, k1) = k_iommu_map K (page_iova shift iova i) (pages ! i) (page_bytes shift) k
           in if err < 0 then Some (err, unmap_down K shift iova i k1)
              else map_loop K shift iova pages (Suc i) n k1
      else None)"

text \<open>The array of pages, empty where the pointer is NULL.\<close>

definition pages_of :: "ane_bo \<Rightarrow> u64 list" where
  "pages_of bo = (case bo_pages bo of None \<Rightarrow> [] | Some ps \<Rightarrow> ps)"

text \<open>\<open>unlock: mutex_unlock(...); kfree(bo->mm); return err\<close>\<close>

definition map_fail :: "'k kapi \<Rightarrow> int \<Rightarrow> nat \<Rightarrow> 'k drv \<Rightarrow> (int \<times> 'k drv) option" where
  "map_fail K err node s = do { s1 \<leftarrow> unlock_iommu s; s2 \<leftarrow> drv_kfree K node s1; Some (err, s2) }"

text \<open>The part of \<open>ane_iommu_map_pages\<close> under the lock, with the node allocated.\<close>

definition map_node :: "'k kapi \<Rightarrow> nat \<Rightarrow> nat \<Rightarrow> ane_bo \<Rightarrow> nat \<Rightarrow> 'k drv \<Rightarrow> (int \<times> 'k drv) option" where
  "map_node K shift b bo node s =
     (if 32 \<le> shift then None
      else let ((err, start), k1) = k_mm_insert K node (ucast (bo_bytes shift (bo_npages bo)))
                                      (page_bytes shift) (d_kern s)
        in if err < 0 then map_fail K err node (put_kern k1 s)
           else let s1 = put_bo b (bo\<lparr>bo_iova := start\<rparr>) (put_kern k1 s)
             in Option.bind (map_loop K shift start (pages_of bo) 0 (unat (bo_npages bo)) (d_kern s1))
                  (\<lambda>(err, k2).
                    if err < 0
                    then map_fail K err node (put_kern (k_mm_remove K node k2) s1)
                    else map_option (\<lambda>s2. (0, s2)) (unlock_iommu (put_kern k2 s1))))"

definition ane_iommu_map_pages :: "'k kapi \<Rightarrow> nat \<Rightarrow> nat \<Rightarrow> 'k drv \<Rightarrow> (int \<times> 'k drv) option" where
  "ane_iommu_map_pages K shift b s =
     Option.bind (d_bos s b) (\<lambda>bo.
       if bo_mm bo \<noteq> None then Some (- EBUSY, s)
       else case k_kzalloc K (d_kern s) of
           (None, k1) \<Rightarrow> Some (- ENOMEM, put_kern k1 s)
         | (Some node, k1) \<Rightarrow>
             let bo1 = bo\<lparr>bo_mm := Some node\<rparr>
             in Option.bind (lock_iommu (put_bo b bo1 (put_kern k1 s)))
                  (map_node K shift b bo1 node))"

fun unmap_up :: "'k kapi \<Rightarrow> nat \<Rightarrow> u64 \<Rightarrow> nat \<Rightarrow> nat \<Rightarrow> 'k \<Rightarrow> 'k" where
  "unmap_up K shift iova i 0 k = k"
| "unmap_up K shift iova i (Suc n) k = unmap_up K shift iova (Suc i) n
     (k_iommu_unmap K (page_iova shift iova i) (page_bytes shift) k)"

definition ane_iommu_unmap_pages :: "'k kapi \<Rightarrow> nat \<Rightarrow> nat \<Rightarrow> 'k drv \<Rightarrow> 'k drv option" where
  "ane_iommu_unmap_pages K shift b s =
     Option.bind (d_bos s b) (\<lambda>bo.
       case bo_mm bo of
         None \<Rightarrow> Some s
       | Some node \<Rightarrow>
           if 32 \<le> shift \<and> bo_npages bo \<noteq> 0 then None
           else do {
             s1 \<leftarrow> lock_iommu s;
             let k1 = unmap_up K shift (bo_iova bo) 0 (unat (bo_npages bo)) (d_kern s1);
             s2 \<leftarrow> unlock_iommu (put_kern (k_mm_remove K node k1) s1);
             s3 \<leftarrow> drv_kfree K node s2;
             ane_iommu_invalidate_tlb K s3 })"

section \<open>Pages of a buffer object\<close>

text \<open>Its size does not overflow 32 bits, nor does its range overflow the address space.\<close>

definition range_fits :: "nat \<Rightarrow> u64 \<Rightarrow> nat \<Rightarrow> bool" where
  "range_fits shift iova n \<longleftrightarrow> n * 2 ^ shift < 2 ^ 32 \<and> unat iova + n * 2 ^ shift < 2 ^ 64"

lemma unat_page_iova:
  assumes "range_fits shift iova n" and "i < n"
  shows "unat (page_iova shift iova i) = unat iova + i * 2 ^ shift"
proof -
  have "i * 2 ^ shift < n * 2 ^ shift" using assms(2) by simp
  then have lt: "i * 2 ^ shift < 2 ^ 32" "unat iova + i * 2 ^ shift < 2 ^ 64"
    using assms(1) unfolding range_fits_def by linarith+
  have prod: "(push_bit shift (of_nat i) :: u32) = of_nat (i * 2 ^ shift)"
    by (simp add: push_bit_eq_mult)
  have "unat (push_bit shift (of_nat i) :: u32) = i * 2 ^ shift"
    unfolding prod by (rule unat_of_nat_less) (use lt in simp)
  then show ?thesis
    using lt by (simp add: page_iova_def unat_plus_less)
qed

lemma page_iova_inj:
  assumes "range_fits shift iova n" and "i < n" and "j < n"
    and "page_iova shift iova i = page_iova shift iova j"
  shows "i = j"
proof -
  have "unat iova + i * 2 ^ shift = unat iova + j * 2 ^ shift"
    using arg_cong [OF assms(4), of unat]
    unfolding unat_page_iova [OF assms(1,2)] unat_page_iova [OF assms(1,3)] .
  then show ?thesis by simp
qed

text \<open>The page table with the first \<open>i\<close> pages mapped.\<close>

fun with_pages :: "(u64 \<rightharpoonup> u64) \<Rightarrow> nat \<Rightarrow> u64 \<Rightarrow> u64 list \<Rightarrow> nat \<Rightarrow> u64 \<rightharpoonup> u64" where
  "with_pages m shift iova pages 0 = m"
| "with_pages m shift iova pages (Suc i) =
     (with_pages m shift iova pages i)(page_iova shift iova i \<mapsto> pages ! i)"

lemma with_pages_other:
  "(\<And>j. j < i \<Longrightarrow> a \<noteq> page_iova shift iova j) \<Longrightarrow> with_pages m shift iova pages i a = m a"
  by (induction i) auto

lemma with_pages_at:
  assumes "range_fits shift iova n" and "i \<le> n" and "j < i"
  shows "with_pages m shift iova pages i (page_iova shift iova j) = Some (pages ! j)"
  using assms(2,3)
proof (induction i)
  case 0
  then show ?case by simp
next
  case (Suc i)
  show ?case
  proof (cases "j = i")
    case True
    then show ?thesis by simp
  next
    case False
    then have "page_iova shift iova j \<noteq> page_iova shift iova i"
      using page_iova_inj [OF assms(1), of j i] Suc.prems by auto
    with Suc False show ?thesis by simp
  qed
qed

lemma with_pages_undo:
  assumes "range_fits shift iova n" and "i \<le> n"
    and "\<And>j. j < n \<Longrightarrow> m (page_iova shift iova j) = None"
  shows "(with_pages m shift iova pages i) |` (- (page_iova shift iova ` {..<i})) = m"
proof
  fix a
  show "((with_pages m shift iova pages i) |` (- (page_iova shift iova ` {..<i}))) a = m a"
  proof (cases "a \<in> page_iova shift iova ` {..<i}")
    case True
    with assms(2,3) show ?thesis by (auto simp: restrict_map_def)
  next
    case False
    then have "with_pages m shift iova pages i a = m a"
      by (intro with_pages_other) auto
    with False show ?thesis by (simp add: restrict_map_def)
  qed
qed

section \<open>The loops, on the kernel's view\<close>

context drm_kernel
begin

lemma unmap_down_view:
  "view (unmap_down K shift iova i k) =
     (view k)\<lparr>v_maps := v_maps (view k) |` (- (page_iova shift iova ` {..<i}))\<rparr>"
proof (induction i arbitrary: k)
  case 0
  then show ?case by simp
next
  case (Suc i)
  show ?case
    by (simp add: Suc iommu_unmap lessThan_Suc)
      (rule arg_cong [where f = "\<lambda>m. (view k)\<lparr>v_maps := m\<rparr>"], auto simp: restrict_map_def fun_eq_iff)
qed

lemma unmap_up_view:
  "view (unmap_up K shift iova i n k) =
     (view k)\<lparr>v_maps := v_maps (view k) |` (- (page_iova shift iova ` {i..<i + n}))\<rparr>"
proof (induction n arbitrary: i k)
  case 0
  then show ?case by simp
next
  case (Suc n)
  have "{i..<i + Suc n} = insert i {Suc i..<Suc i + n}" by auto
  then show ?case
    by (simp add: Suc iommu_unmap)
      (rule arg_cong [where f = "\<lambda>m. (view k)\<lparr>v_maps := m\<rparr>"], auto simp: restrict_map_def fun_eq_iff)
qed

text \<open>All the pages are mapped, or, after the rollback, none.\<close>

lemma map_loop_view:
  assumes fits: "range_fits shift iova N" and "i + n = N" and "N \<le> length pages"
    and "v_maps (view k) = with_pages m shift iova pages i"
    and free: "\<And>j. j < N \<Longrightarrow> m (page_iova shift iova j) = None"
  shows "\<exists>e k1. map_loop K shift iova pages i n k = Some (e, k1) \<and>
    (if e < 0 then view k1 = (view k)\<lparr>v_maps := m\<rparr>
     else e = 0 \<and> view k1 = (view k)\<lparr>v_maps := with_pages m shift iova pages N\<rparr>)"
  using assms(2-4)
proof (induction n arbitrary: i k)
  case 0
  then have "view k = (view k)\<lparr>v_maps := with_pages m shift iova pages N\<rparr>" by simp
  then show ?case by simp
next
  case (Suc n)
  let ?a = "page_iova shift iova i"
  obtain e k1 where r: "k_iommu_map K ?a (pages ! i) (page_bytes shift) k = (e, k1)" by fastforce
  have unmapped: "v_maps (view k) ?a = None"
  proof -
    have "?a \<noteq> page_iova shift iova j" if "j < i" for j
      using page_iova_inj [OF fits, of i j] that Suc.prems by auto
    then show ?thesis
      using Suc.prems free [of i] by (simp add: with_pages_other)
  qed
  note law = iommu_map [OF r unmapped]
  show ?case
  proof (cases "e < 0")
    case True
    have "v_maps (view k) |` (- (page_iova shift iova ` {..<i})) = m"
      using with_pages_undo [OF fits, of i m pages] free Suc.prems by simp
    with True law r Suc.prems show ?thesis by (simp add: unmap_down_view)
  next
    case False
    then have "view k1 = (view k)\<lparr>v_maps := with_pages m shift iova pages (Suc i)\<rparr>"
      using law Suc.prems by simp
    moreover from this obtain e2 k2 where "map_loop K shift iova pages (Suc i) n k1 = Some (e2, k2)"
      "if e2 < 0 then view k2 = (view k1)\<lparr>v_maps := m\<rparr>
       else e2 = 0 \<and> view k2 = (view k1)\<lparr>v_maps := with_pages m shift iova pages N\<rparr>"
      using Suc.IH [of "Suc i" k1] Suc.prems by auto
    ultimately show ?thesis
      using Suc.prems False r by (cases "e2 < 0") auto
  qed
qed

text \<open>The pages of the mapped object are free again once unmapped.\<close>

lemma unmap_up_undo:
  assumes "range_fits shift iova n" and "v_maps (view k) = with_pages m shift iova pages n"
    and "\<And>j. j < n \<Longrightarrow> m (page_iova shift iova j) = None"
  shows "view (unmap_up K shift iova 0 n k) = (view k)\<lparr>v_maps := m\<rparr>"
  using with_pages_undo [OF assms(1), of n m pages] assms(2,3)
  by (simp add: unmap_up_view atLeast0LessThan)

end

section \<open>Mapping and unmapping\<close>

text \<open>The pages a placement covers are not in use when all mapped pages lie in reserved ranges.\<close>

definition maps_reserved :: "kview \<Rightarrow> bool" where
  "maps_reserved v \<longleftrightarrow> (\<forall>a \<in> dom (v_maps v). \<exists>(s, z) \<in> ran (v_nodes v).
     unat s \<le> unat a \<and> unat a < unat s + unat z)"

lemma bo_bytes_eq:
  assumes "unat npages * 2 ^ shift < 2 ^ 32"
  shows "unat (bo_bytes shift npages) = unat npages * 2 ^ shift"
proof -
  have prod: "bo_bytes shift npages = of_nat (unat npages * 2 ^ shift)"
    by (simp add: bo_bytes_def push_bit_eq_mult)
  show ?thesis
    unfolding prod by (rule unat_of_nat_less) (use assms in simp)
qed

lemma placement_free:
  assumes place: "placement_ok lo hi v start (ucast (bo_bytes shift npages)) al"
    and small: "unat npages * 2 ^ shift < 2 ^ 32" and res: "maps_reserved v"
  shows "range_fits shift start (unat npages)"
    and "j < unat npages \<Longrightarrow> v_maps v (page_iova shift start j) = None"
proof -
  have bytes: "unat (bo_bytes shift npages) = unat npages * 2 ^ shift"
    by (rule bo_bytes_eq [OF small])
  then have size: "unat (ucast (bo_bytes shift npages) :: u64) = unat npages * 2 ^ shift"
    by simp
  show fits: "range_fits shift start (unat npages)"
    using place small u64_less [of hi] by (simp add: range_fits_def placement_ok_def bytes)
  show "v_maps v (page_iova shift start j) = None" if j: "j < unat npages"
  proof (rule ccontr)
    assume "v_maps v (page_iova shift start j) \<noteq> None"
    then obtain s z where r: "(s, z) \<in> ran (v_nodes v)"
      "unat s \<le> unat (page_iova shift start j)" "unat (page_iova shift start j) < unat s + unat z"
      using res by (fastforce simp: maps_reserved_def)
    have "j * 2 ^ shift < unat npages * 2 ^ shift" using j by simp
    moreover have "ranges_disjoint (s, z) (start, ucast (bo_bytes shift npages))"
      using r(1) place by (auto simp: placement_ok_def)
    ultimately show False
      using r(2,3) unfolding unat_page_iova [OF fits j] ranges_disjoint_def fst_conv snd_conv size
      by linarith
  qed
qed

lemma drv_simps [simp]:
  "d_kern (put_kern k s) = k" "d_bos (put_kern k s) = d_bos s"
  "d_iommu_lock (put_kern k s) = d_iommu_lock s" "d_engine_lock (put_kern k s) = d_engine_lock s"
  "d_kern (put_bo b bo s) = d_kern s" "d_bos (put_bo b bo s) = (d_bos s)(b \<mapsto> bo)"
  "d_iommu_lock (put_bo b bo s) = d_iommu_lock s" "d_engine_lock (put_bo b bo s) = d_engine_lock s"
  by (simp_all add: put_kern_def put_bo_def)

text \<open>What mapping an object does: nothing to the kernel on failure; on success a fresh range
  is reserved and exactly the pages of the object are mapped there, in order.\<close>

definition mapped_state ::
  "('k \<Rightarrow> kview) \<Rightarrow> u64 \<Rightarrow> u64 \<Rightarrow> nat \<Rightarrow> nat \<Rightarrow> ane_bo \<Rightarrow> 'k drv \<Rightarrow> int \<Rightarrow> 'k drv \<Rightarrow> bool" where
  "mapped_state view lo hi shift b bo s e s1 \<longleftrightarrow>
     d_iommu_lock s1 = d_iommu_lock s \<and> d_engine_lock s1 = d_engine_lock s \<and>
     (\<exists>mm iova. d_bos s1 = (d_bos s)(b \<mapsto> bo\<lparr>bo_mm := mm, bo_iova := iova\<rparr>) \<and>
       (if e < 0 then view (d_kern s1) = view (d_kern s)
        else e = 0 \<and> (\<exists>n. mm = Some n \<and> n \<notin> v_blocks (view (d_kern s)) \<and>
          placement_ok lo hi (view (d_kern s)) iova (ucast (bo_bytes shift (bo_npages bo)))
            (page_bytes shift) \<and>
          view (d_kern s1) = (view (d_kern s))\<lparr>
            v_blocks := insert n (v_blocks (view (d_kern s))),
            v_nodes := (v_nodes (view (d_kern s)))(n \<mapsto> (iova, ucast (bo_bytes shift (bo_npages bo)))),
            v_maps := with_pages (v_maps (view (d_kern s))) shift iova (pages_of bo)
              (unat (bo_npages bo))\<rparr>)))"

context drm_kernel
begin

lemma kfree_view:
  assumes "b \<in> v_blocks (view (d_kern s))"
  shows "\<exists>s1. drv_kfree K b s = Some s1 \<and> d_bos s1 = d_bos s \<and>
    d_iommu_lock s1 = d_iommu_lock s \<and> d_engine_lock s1 = d_engine_lock s \<and>
    view (d_kern s1) = (view (d_kern s))\<lparr>v_blocks := v_blocks (view (d_kern s)) - {b}\<rparr>"
  using kfree [OF assms] by (auto simp: drv_kfree_def)

lemma map_fail_view:
  assumes "d_iommu_lock s" and "n \<in> v_blocks (view (d_kern s))"
  shows "\<exists>s1. map_fail K e n s = Some (e, s1) \<and> d_bos s1 = d_bos s \<and> \<not> d_iommu_lock s1 \<and>
    d_engine_lock s1 = d_engine_lock s \<and>
    view (d_kern s1) = (view (d_kern s))\<lparr>v_blocks := v_blocks (view (d_kern s)) - {n}\<rparr>"
  using kfree_view [of n "s\<lparr>d_iommu_lock := False\<rparr>"] assms
  by (auto simp: map_fail_def unlock_iommu_def)

lemma map_pages_ok:
  assumes bo: "d_bos s b = Some bo" "bo_mm bo = None" and lock: "\<not> d_iommu_lock s"
    and small: "unat (bo_npages bo) * 2 ^ shift < 2 ^ 32" "shift < 32"
    and pages: "unat (bo_npages bo) \<le> length (pages_of bo)"
    and res: "maps_reserved (view (d_kern s))"
    and nodes: "dom (v_nodes (view (d_kern s))) \<subseteq> v_blocks (view (d_kern s))"
  shows "\<exists>e s1. ane_iommu_map_pages K shift b s = Some (e, s1) \<and>
    mapped_state view lo hi shift b bo s e s1"
proof -
  let ?v = "view (d_kern s)"
  obtain p k1 where z: "k_kzalloc K (d_kern s) = (p, k1)" by fastforce
  note law_z = kzalloc [OF z]
  have same: "(d_bos s)(b \<mapsto> bo\<lparr>bo_mm := bo_mm bo, bo_iova := bo_iova bo\<rparr>) = d_bos s"
    using bo by auto
  show ?thesis
  proof (cases p)
    case None
    have "mapped_state view lo hi shift b bo s (- ENOMEM) (put_kern k1 s)"
      unfolding mapped_state_def using law_z None same
      by (auto intro!: exI [of _ "bo_mm bo"] exI [of _ "bo_iova bo"])
    with None bo z show ?thesis by (simp add: ane_iommu_map_pages_def)
  next
    case (Some n)
    have n: "n \<notin> v_blocks ?v" "view k1 = ?v\<lparr>v_blocks := insert n (v_blocks ?v)\<rparr>"
      using law_z Some by auto
    then have nnode: "v_nodes ?v n = None" using nodes by blast
    let ?bo1 = "bo\<lparr>bo_mm := Some n\<rparr>"
    let ?s1 = "(put_bo b ?bo1 (put_kern k1 s))\<lparr>d_iommu_lock := True\<rparr>"
    have start: "ane_iommu_map_pages K shift b s = map_node K shift b ?bo1 n ?s1"
      using Some bo lock z by (simp add: ane_iommu_map_pages_def lock_iommu_def Let_def)
    obtain e0 iova k2 where ins: "k_mm_insert K n (ucast (bo_bytes shift (bo_npages bo)))
        (page_bytes shift) k1 = ((e0, iova), k2)" by (metis prod.exhaust)
    note law_i = mm_insert [OF ins]
    have restore: "?v\<lparr>v_blocks := insert n (v_blocks ?v) - {n}\<rparr> = ?v"
      using n(1) by simp
    show ?thesis
    proof (cases "e0 < 0")
      case True
      then have "view (d_kern (put_kern k2 ?s1)) = ?v\<lparr>v_blocks := insert n (v_blocks ?v)\<rparr>"
        using law_i n by simp
      then obtain s2 where s2: "map_fail K e0 n (put_kern k2 ?s1) = Some (e0, s2)"
        "d_bos s2 = (d_bos s)(b \<mapsto> ?bo1)" "\<not> d_iommu_lock s2" "d_engine_lock s2 = d_engine_lock s"
        "view (d_kern s2) = ?v"
        using map_fail_view [of "put_kern k2 ?s1" n e0] restore by auto
      have "mapped_state view lo hi shift b bo s e0 s2"
        unfolding mapped_state_def using s2 lock True
        by (auto intro!: exI [of _ "Some n"] exI [of _ "bo_iova bo"])
      with start s2(1) True ins small show ?thesis by (simp add: map_node_def)
    next
      case False
      then have place1: "placement_ok lo hi (view k1) iova (ucast (bo_bytes shift (bo_npages bo)))
          (page_bytes shift)"
        and v2: "view k2 = (view k1)\<lparr>v_nodes := (v_nodes (view k1))
          (n \<mapsto> (iova, ucast (bo_bytes shift (bo_npages bo))))\<rparr>"
        using law_i by auto
      have place: "placement_ok lo hi ?v iova (ucast (bo_bytes shift (bo_npages bo)))
          (page_bytes shift)"
        using place1 n by (simp add: placement_ok_def)
      note free = placement_free [OF place small(1) res]
      let ?bo2 = "?bo1\<lparr>bo_iova := iova\<rparr>"
      let ?s2 = "put_bo b ?bo2 (put_kern k2 ?s1)"
      have pg: "pages_of ?bo1 = pages_of bo" by (simp add: pages_of_def)
      obtain e k3 where loop: "map_loop K shift iova (pages_of bo) 0 (unat (bo_npages bo)) k2 = Some (e, k3)"
        "if e < 0 then view k3 = (view k2)\<lparr>v_maps := v_maps ?v\<rparr>
         else e = 0 \<and> view k3 = (view k2)\<lparr>v_maps := with_pages (v_maps ?v) shift iova (pages_of bo)
            (unat (bo_npages bo))\<rparr>"
        using map_loop_view [OF free(1), of 0 "unat (bo_npages bo)" "pages_of bo" k2 "v_maps ?v"]
          pages free(2) v2 n by auto
      show ?thesis
      proof (cases "e < 0")
        case True
        let ?s3 = "put_kern (k_mm_remove K n k3) ?s2"
        have "view (d_kern ?s3) = ?v\<lparr>v_blocks := insert n (v_blocks ?v)\<rparr>"
          using True loop(2) v2 n nnode by (simp add: mm_remove fun_upd_idem)
        then obtain s4 where s4: "map_fail K e n ?s3 = Some (e, s4)"
          "d_bos s4 = (d_bos s)(b \<mapsto> ?bo2)" "\<not> d_iommu_lock s4" "d_engine_lock s4 = d_engine_lock s"
          "view (d_kern s4) = ?v"
          using map_fail_view [of ?s3 n e] restore by auto
        have "mapped_state view lo hi shift b bo s e s4"
          unfolding mapped_state_def using s4 lock True
          by (auto intro!: exI [of _ "Some n"] exI [of _ iova])
        with start s4(1) True False ins small loop(1) show ?thesis
          by (simp add: map_node_def pg)
      next
        case ok: False
        let ?s3 = "(put_kern k3 ?s2)\<lparr>d_iommu_lock := False\<rparr>"
        have "mapped_state view lo hi shift b bo s 0 ?s3"
          unfolding mapped_state_def using lock ok loop(2) place n v2
          by (auto intro!: exI [of _ "Some n"] exI [of _ iova])
        with start ok False ins small loop show ?thesis
          by (simp add: map_node_def pg unlock_iommu_def)
      qed
    qed
  qed
qed

lemma unmap_pages_ok:
  assumes bo: "d_bos s b = Some bo" "bo_mm bo = Some n" and lock: "\<not> d_iommu_lock s"
    and fits: "range_fits shift (bo_iova bo) (unat (bo_npages bo))" "shift < 32"
    and maps: "v_maps (view (d_kern s)) = with_pages m shift (bo_iova bo) (pages_of bo) (unat (bo_npages bo))"
    and free: "\<And>j. j < unat (bo_npages bo) \<Longrightarrow> m (page_iova shift (bo_iova bo) j) = None"
    and block: "n \<in> v_blocks (view (d_kern s))"
  shows "\<exists>s1. ane_iommu_unmap_pages K shift b s = Some s1 \<and> d_bos s1 = d_bos s \<and>
    \<not> d_iommu_lock s1 \<and> d_engine_lock s1 = d_engine_lock s \<and>
    view (d_kern s1) = (view (d_kern s))\<lparr>v_maps := m,
      v_nodes := (v_nodes (view (d_kern s)))(n := None),
      v_blocks := v_blocks (view (d_kern s)) - {n}\<rparr>"
proof -
  let ?k1 = "k_mm_remove K n (unmap_up K shift (bo_iova bo) 0 (unat (bo_npages bo)) (d_kern s))"
  let ?s2 = "(put_kern ?k1 (s\<lparr>d_iommu_lock := True\<rparr>))\<lparr>d_iommu_lock := False\<rparr>"
  have v: "view ?k1 = (view (d_kern s))\<lparr>v_maps := m, v_nodes := (v_nodes (view (d_kern s)))(n := None)\<rparr>"
    using unmap_up_undo [OF fits(1) maps free] by (simp add: mm_remove)
  have "n \<in> v_blocks (view (d_kern ?s2))" using block v by simp
  from kfree_view [OF this] obtain s3 where s3: "drv_kfree K n ?s2 = Some s3"
    "d_bos s3 = d_bos s" "d_iommu_lock s3 = False" "d_engine_lock s3 = d_engine_lock s"
    "view (d_kern s3) = (view ?k1)\<lparr>v_blocks := v_blocks (view ?k1) - {n}\<rparr>"
    by auto
  let ?s4 = "(put_kern (k_flush_iotlb K (d_kern s3)) (s3\<lparr>d_iommu_lock := True\<rparr>))\<lparr>d_iommu_lock := False\<rparr>"
  have "ane_iommu_unmap_pages K shift b s = Some ?s4"
    using bo lock fits(2) s3 by (simp add: ane_iommu_unmap_pages_def lock_iommu_def unlock_iommu_def
        ane_iommu_invalidate_tlb_def Let_def)
  with s3 v show ?thesis by (simp add: flush)
qed

end

end
