(* ===== verification/Drv_Gem.thy ===== *)
theory Drv_Gem
  imports Drv_Iommu
begin

text \<open>
  The buffer object ioctls of \<open>ane_drv.c\<close>: \<open>ane_bo_init\<close> with its unwinding labels and
  \<open>ane_bo_free\<close>, the page fault handler, and the invariant that ties the buffer objects to
  the kernel's state: each has its own reserved range and exactly its own pages are mapped.
\<close>

section \<open>Operations\<close>

record bo_init_args =
  i_handle :: u32
  i_pad :: u32
  i_size :: u64
  i_offset :: u64

definition new_bo :: ane_bo where
  "new_bo = \<lparr>bo_mm = None, bo_npages = 0, bo_pages = None, bo_iova = 0\<rparr>"

definition page_size :: "'k kapi \<Rightarrow> u64" where
  "page_size K = push_bit (k_page_shift K) 1"

text \<open>\<open>free: kfree(bo)\<close>, and with the labels before it: \<open>release\<close>, \<open>put\<close>, \<open>unmap\<close>.\<close>

definition free_bo :: "'k kapi \<Rightarrow> nat \<Rightarrow> 'k drv \<Rightarrow> 'k drv option" where
  "free_bo K b s = map_option (\<lambda>s1. s1\<lparr>d_bos := (d_bos s1)(b := None)\<rparr>) (drv_kfree K b s)"

definition release_bo :: "'k kapi \<Rightarrow> nat \<Rightarrow> 'k drv \<Rightarrow> 'k drv option" where
  "release_bo K b s = free_bo K b (put_kern (k_gem_release K b (d_kern s)) s)"

definition put_pages_bo :: "'k kapi \<Rightarrow> nat \<Rightarrow> 'k drv \<Rightarrow> 'k drv option" where
  "put_pages_bo K b s = release_bo K b (put_kern (k_put_pages K b (d_kern s)) s)"

definition unmap_bo :: "'k kapi \<Rightarrow> nat \<Rightarrow> nat \<Rightarrow> 'k drv \<Rightarrow> 'k drv option" where
  "unmap_bo K shift b s = Option.bind (ane_iommu_unmap_pages K shift b s) (put_pages_bo K b)"

type_synonym 'k init_result = "(int \<times> bo_init_args \<times> 'k drv) option"

definition fail_with :: "int \<Rightarrow> bo_init_args \<Rightarrow> 'k drv option \<Rightarrow> 'k init_result" where
  "fail_with err args r = map_option (\<lambda>s. (err, args, s)) r"

text \<open>From the handle on, with the object mapped.\<close>

definition bo_init_handle :: "'k kapi \<Rightarrow> nat \<Rightarrow> nat \<Rightarrow> bo_init_args \<Rightarrow> 'k drv \<Rightarrow> 'k init_result" where
  "bo_init_handle K shift b args s =
     (let ((err, h), k1) = k_handle_create K b (d_kern s);
          s1 = put_kern (k_gem_put K b k1) s
      in if err < 0 then fail_with err args (unmap_bo K shift b s1)
         else Some (0, args\<lparr>i_handle := h\<rparr>, s1))"

text \<open>From the pages on, with the object initialised.\<close>

definition bo_init_pages :: "'k kapi \<Rightarrow> nat \<Rightarrow> nat \<Rightarrow> u64 \<Rightarrow> bo_init_args \<Rightarrow> 'k drv \<Rightarrow> 'k init_result" where
  "bo_init_pages K shift b gem_size args s =
     (case k_get_pages K b (d_kern s) of
        (Inl err, k1) \<Rightarrow> fail_with err args (release_bo K b (put_kern k1 s))
      | (Inr pages, k1) \<Rightarrow>
          let bo = new_bo\<lparr>bo_npages := ucast (drop_bit (k_page_shift K) gem_size),
                bo_pages := Some pages\<rparr>
          in Option.bind (ane_iommu_map_pages K shift b (put_bo b bo (put_kern k1 s)))
               (\<lambda>(err, s1).
                 if err < 0 then fail_with err args (put_pages_bo K b s1)
                 else bo_init_handle K shift b args s1))"

definition ane_bo_init :: "'k kapi \<Rightarrow> nat \<Rightarrow> bo_init_args \<Rightarrow> 'k drv \<Rightarrow> 'k init_result" where
  "ane_bo_init K shift args s =
     (if i_pad args \<noteq> 0 then Some (- EINVAL, args, s)
      else case k_kzalloc K (d_kern s) of
        (None, k1) \<Rightarrow> Some (- ENOMEM, args, put_kern k1 s)
      | (Some b, k1) \<Rightarrow>
          let s1 = put_bo b new_bo (put_kern k1 s);
              gem_size = round_up (i_size args) (page_size K);
              (err, k2) = k_gem_init K b gem_size (d_kern s1)
          in if err < 0 then fail_with err args (free_bo K b (put_kern k2 s1))
             else let ((err, offset), k3) = k_mmap_offset K b k2
               in if err < 0 then fail_with err args (release_bo K b (put_kern k3 s1))
                  else bo_init_pages K shift b gem_size (args\<lparr>i_offset := offset\<rparr>)
                         (put_kern k3 s1))"

text \<open>The lookup comes first, also when \<open>pad\<close> is then refused.\<close>

definition ane_bo_free :: "'k kapi \<Rightarrow> nat \<Rightarrow> u32 \<Rightarrow> u32 \<Rightarrow> 'k drv \<Rightarrow> (int \<times> 'k drv) option" where
  "ane_bo_free K shift handle pad s =
     (let (bo, k1) = k_lookup K handle (d_kern s)
      in case bo of
           None \<Rightarrow> Some (- EINVAL, put_kern k1 s)
         | Some b \<Rightarrow>
             if pad \<noteq> 0 then Some (- EINVAL, put_kern k1 s)
             else map_option (\<lambda>s1. (0, s1))
                    (unmap_bo K shift b (put_kern (k_handle_delete K handle k1) s)))"

text \<open>\<open>ane_gem_vm_fault\<close>: \<open>None\<close> for a page index beyond the array, \<open>Inl\<close> for
  \<open>VM_FAULT_SIGBUS\<close>, else the page inserted at the address.\<close>

definition ane_gem_vm_fault :: "'k kapi \<Rightarrow> ane_bo \<Rightarrow> u64 \<Rightarrow> u64 \<Rightarrow> (unit + u64) option" where
  "ane_gem_vm_fault K bo vm_start address =
     (case bo_pages bo of
        None \<Rightarrow> Some (Inl ())
      | Some pages \<Rightarrow>
          let offset = unat (drop_bit (k_page_shift K) (address - vm_start))
          in if offset < length pages then Some (Inr (pages ! offset)) else None)"

section \<open>Invariant\<close>

text \<open>A buffer object as every ioctl leaves it: pinned, with a node of its own whose range is
  large enough for its pages.\<close>

definition bo_ok :: "u64 \<Rightarrow> u64 \<Rightarrow> nat \<Rightarrow> kview \<Rightarrow> ane_bo \<Rightarrow> bool" where
  "bo_ok lo hi shift v bo \<longleftrightarrow> (\<exists>n. bo_mm bo = Some n \<and> n \<in> v_blocks v \<and>
     v_nodes v n = Some (bo_iova bo, ucast (bo_bytes shift (bo_npages bo))) \<and>
     unat lo \<le> unat (bo_iova bo) \<and>
     unat (bo_iova bo) + unat (bo_npages bo) * 2 ^ shift \<le> unat hi \<and>
     unat (bo_iova bo) mod unat (page_bytes shift) = 0 \<and>
     unat (bo_npages bo) * 2 ^ shift < 2 ^ 32 \<and> 0 < unat (bo_npages bo) \<and>
     unat (bo_npages bo) \<le> length (pages_of bo))"

text \<open>The page \<open>j\<close> of a buffer object is mapped from \<open>a\<close> to \<open>pa\<close>.\<close>

definition maps_page :: "nat \<Rightarrow> ane_bo \<Rightarrow> u64 \<Rightarrow> u64 \<Rightarrow> bool" where
  "maps_page shift bo a pa \<longleftrightarrow> (\<exists>j < unat (bo_npages bo).
     a = page_iova shift (bo_iova bo) j \<and> pa = pages_of bo ! j)"

definition bos_inv :: "u64 \<Rightarrow> u64 \<Rightarrow> nat \<Rightarrow> (nat \<rightharpoonup> ane_bo) \<Rightarrow> kview \<Rightarrow> bool" where
  "bos_inv lo hi shift bos v \<longleftrightarrow>
     dom bos \<subseteq> v_blocks v \<and> dom (v_gems v) = dom bos \<and> v_pinned v = dom bos \<and>
     (\<forall>b bo. bos b = Some bo \<longrightarrow> bo_ok lo hi shift v bo) \<and>
     (\<forall>b bo b' bo'. bos b = Some bo \<longrightarrow> bos b' = Some bo' \<longrightarrow> bo_mm bo = bo_mm bo' \<longrightarrow> b = b') \<and>
     (\<forall>n \<in> dom (v_nodes v). n \<notin> dom bos \<and> (\<exists>b bo. bos b = Some bo \<and> bo_mm bo = Some n)) \<and>
     (\<forall>n n' r r'. v_nodes v n = Some r \<longrightarrow> v_nodes v n' = Some r' \<longrightarrow> n \<noteq> n' \<longrightarrow> ranges_disjoint r r') \<and>
     (\<forall>a pa. v_maps v a = Some pa \<longleftrightarrow> (\<exists>b bo. bos b = Some bo \<and> maps_page shift bo a pa)) \<and>
     (\<forall>h b. v_handles v h = Some b \<longrightarrow> b \<in> dom bos) \<and>
     (\<forall>h h' b. v_handles v h = Some b \<longrightarrow> v_handles v h' = Some b \<longrightarrow> h = h')"

text \<open>The parts of the invariant.\<close>

lemmas inv_blocks = bos_inv_def [THEN iffD1, THEN conjunct1]
lemmas inv_gems = bos_inv_def [THEN iffD1, THEN conjunct2, THEN conjunct1]
lemmas inv_pinned = bos_inv_def [THEN iffD1, THEN conjunct2, THEN conjunct2, THEN conjunct1]
lemmas inv_bo = bos_inv_def [THEN iffD1, THEN conjunct2, THEN conjunct2, THEN conjunct2, THEN conjunct1, rule_format]
lemmas inv_own_node = bos_inv_def [THEN iffD1, THEN conjunct2, THEN conjunct2, THEN conjunct2, THEN conjunct2, THEN conjunct1, rule_format]
lemmas inv_nodes = bos_inv_def [THEN iffD1, THEN conjunct2, THEN conjunct2, THEN conjunct2, THEN conjunct2, THEN conjunct2, THEN conjunct1, rule_format]
lemmas inv_apart = bos_inv_def [THEN iffD1, THEN conjunct2, THEN conjunct2, THEN conjunct2, THEN conjunct2, THEN conjunct2, THEN conjunct2, THEN conjunct1, rule_format]
lemmas inv_maps = bos_inv_def [THEN iffD1, THEN conjunct2, THEN conjunct2, THEN conjunct2, THEN conjunct2, THEN conjunct2, THEN conjunct2, THEN conjunct2, THEN conjunct1, rule_format]
lemmas inv_handles = bos_inv_def [THEN iffD1, THEN conjunct2, THEN conjunct2, THEN conjunct2, THEN conjunct2, THEN conjunct2, THEN conjunct2, THEN conjunct2, THEN conjunct2, THEN conjunct1, rule_format]
lemmas inv_one_handle = bos_inv_def [THEN iffD1, THEN conjunct2, THEN conjunct2, THEN conjunct2, THEN conjunct2, THEN conjunct2, THEN conjunct2, THEN conjunct2, THEN conjunct2, THEN conjunct2, rule_format]

definition drv_inv :: "('k \<Rightarrow> kview) \<Rightarrow> u64 \<Rightarrow> u64 \<Rightarrow> nat \<Rightarrow> 'k drv \<Rightarrow> bool" where
  "drv_inv view lo hi shift s \<longleftrightarrow>
     \<not> d_iommu_lock s \<and> bos_inv lo hi shift (d_bos s) (view (d_kern s))"

lemma bo_ok_fits:
  assumes "bo_ok lo hi shift v bo"
  shows "range_fits shift (bo_iova bo) (unat (bo_npages bo))"
  using assms u64_less [of hi] by (auto simp: bo_ok_def range_fits_def)

lemma bo_ok_mono:
  assumes "bo_ok lo hi shift v bo" and "v_blocks v \<subseteq> v_blocks v'"
    and "\<And>n. bo_mm bo = Some n \<Longrightarrow> v_nodes v' n = v_nodes v n"
  shows "bo_ok lo hi shift v' bo"
  using assms by (auto simp: bo_ok_def)

text \<open>The address of a mapped page lies in the range of its object.\<close>

lemma maps_page_range:
  assumes "bo_ok lo hi shift v bo" and "maps_page shift bo a pa"
  shows "unat (bo_iova bo) \<le> unat a \<and> unat a < unat (bo_iova bo) + unat (bo_npages bo) * 2 ^ shift"
proof -
  obtain j where j: "j < unat (bo_npages bo)" "a = page_iova shift (bo_iova bo) j"
    using assms(2) by (auto simp: maps_page_def)
  have "j * 2 ^ shift < unat (bo_npages bo) * 2 ^ shift" using j(1) by simp
  then show ?thesis
    using unat_page_iova [OF bo_ok_fits [OF assms(1)] j(1)] j(2) by simp
qed

lemma bo_range:
  assumes "bo_ok lo hi shift v bo"
  obtains n z where "bo_mm bo = Some n" "v_nodes v n = Some (bo_iova bo, z)"
    "unat z = unat (bo_npages bo) * 2 ^ shift"
  using assms bo_bytes_eq [of "bo_npages bo" shift] by (auto simp: bo_ok_def)

text \<open>Isolation: the ranges of two buffer objects are apart, hence so are their pages.\<close>

lemma bo_ranges_apart:
  assumes inv: "bos_inv lo hi shift bos v" and bos: "bos b = Some bo" "bos b' = Some bo'" "b \<noteq> b'"
  shows "unat (bo_iova bo) + unat (bo_npages bo) * 2 ^ shift \<le> unat (bo_iova bo') \<or>
    unat (bo_iova bo') + unat (bo_npages bo') * 2 ^ shift \<le> unat (bo_iova bo)"
proof -
  note ok = inv_bo [OF inv bos(1)] inv_bo [OF inv bos(2)]
  obtain n z where n: "bo_mm bo = Some n" "v_nodes v n = Some (bo_iova bo, z)"
    "unat z = unat (bo_npages bo) * 2 ^ shift" by (rule bo_range [OF ok(1)])
  obtain n' z' where n': "bo_mm bo' = Some n'" "v_nodes v n' = Some (bo_iova bo', z')"
    "unat z' = unat (bo_npages bo') * 2 ^ shift" by (rule bo_range [OF ok(2)])
  have "n \<noteq> n'"
    using inv_own_node [OF inv bos(1,2)] bos(3) n(1) n'(1) by auto
  then have "ranges_disjoint (bo_iova bo, z) (bo_iova bo', z')"
    by (rule inv_apart [OF inv n(2) n'(2)])
  then show ?thesis by (simp add: ranges_disjoint_def n(3) n'(3))
qed

lemma pages_apart:
  assumes inv: "bos_inv lo hi shift bos v" and bos: "bos b = Some bo" "bos b' = Some bo'"
    and "maps_page shift bo a pa" "maps_page shift bo' a pa'"
  shows "b = b'"
proof (rule ccontr)
  assume "b \<noteq> b'"
  from maps_page_range [OF inv_bo [OF inv bos(1)] assms(4)]
    maps_page_range [OF inv_bo [OF inv bos(2)] assms(5)]
    bo_ranges_apart [OF inv bos \<open>b \<noteq> b'\<close>]
  show False by linarith
qed

lemma bos_inv_reserved:
  assumes "bos_inv lo hi shift bos v"
  shows "maps_reserved v" and "dom (v_nodes v) \<subseteq> v_blocks v"
proof -
  show "maps_reserved v"
    unfolding maps_reserved_def
  proof
    fix a assume "a \<in> dom (v_maps v)"
    then obtain b bo pa where bo: "bos b = Some bo" "maps_page shift bo a pa"
      using inv_maps [OF assms] by auto
    note ok = inv_bo [OF assms bo(1)]
    obtain n z where "v_nodes v n = Some (bo_iova bo, z)" "unat z = unat (bo_npages bo) * 2 ^ shift"
      by (rule bo_range [OF ok])
    with maps_page_range [OF ok bo(2)]
    show "\<exists>(s, z) \<in> ran (v_nodes v). unat s \<le> unat a \<and> unat a < unat s + unat z"
      by (intro bexI [of _ "(bo_iova bo, z)"]) (auto intro: ranI)
  qed
  show "dom (v_nodes v) \<subseteq> v_blocks v"
  proof
    fix n assume "n \<in> dom (v_nodes v)"
    then obtain b bo where bo: "bos b = Some bo" "bo_mm bo = Some n"
      using inv_nodes [OF assms] by blast
    from inv_bo [OF assms bo(1)] bo(2) show "n \<in> v_blocks v" by (auto simp: bo_ok_def)
  qed
qed

lemma with_pages_iff:
  assumes "range_fits shift iova n" and "\<And>j. j < n \<Longrightarrow> m (page_iova shift iova j) = None"
  shows "with_pages m shift iova pages n a = Some pa \<longleftrightarrow>
    (\<exists>j<n. a = page_iova shift iova j \<and> pa = pages ! j) \<or> m a = Some pa"
proof (cases "\<exists>j<n. a = page_iova shift iova j")
  case True
  then obtain j where j: "j < n" "a = page_iova shift iova j" by blast
  then have "with_pages m shift iova pages n a = Some (pages ! j)"
    using with_pages_at [OF assms(1) order_refl] by simp
  moreover have "j' = j" if "j' < n" "a = page_iova shift iova j'" for j'
    using page_iova_inj [OF assms(1) that(1) j(1)] that(2) j(2) by simp
  moreover have "m a = None" using assms(2) j by simp
  ultimately show ?thesis
    using j by (metis option.distinct(1) option.inject)
next
  case False
  then have "with_pages m shift iova pages n a = m a"
    by (intro with_pages_other) auto
  with False show ?thesis by auto
qed

section \<open>Adding and removing a buffer object\<close>

text \<open>The view once object \<open>b\<close> is initialised, pinned and mapped with node \<open>n\<close>, and may have a handle.\<close>

definition view_with :: "nat \<Rightarrow> nat \<Rightarrow> nat \<Rightarrow> ane_bo \<Rightarrow> kview \<Rightarrow> kview \<Rightarrow> bool" where
  "view_with shift b n bo v v' \<longleftrightarrow>
     v_blocks v' = insert n (insert b (v_blocks v)) \<and>
     dom (v_gems v') = insert b (dom (v_gems v)) \<and> v_pinned v' = insert b (v_pinned v) \<and>
     v_nodes v' = (v_nodes v)(n \<mapsto> (bo_iova bo, ucast (bo_bytes shift (bo_npages bo)))) \<and>
     v_maps v' = with_pages (v_maps v) shift (bo_iova bo) (pages_of bo) (unat (bo_npages bo))"

lemma ex_map_upd:
  assumes "m b = None"
  shows "(\<exists>b' y. (m(b \<mapsto> x)) b' = Some y \<and> P y) \<longleftrightarrow> P x \<or> (\<exists>b' y. m b' = Some y \<and> P y)"
proof
  assume "\<exists>b' y. (m(b \<mapsto> x)) b' = Some y \<and> P y"
  then show "P x \<or> (\<exists>b' y. m b' = Some y \<and> P y)" by (auto split: if_splits)
next
  assume "P x \<or> (\<exists>b' y. m b' = Some y \<and> P y)"
  then show "\<exists>b' y. (m(b \<mapsto> x)) b' = Some y \<and> P y"
  proof
    assume "P x"
    then show ?thesis by (intro exI [of _ b] exI [of _ x]) simp
  next
    assume "\<exists>b' y. m b' = Some y \<and> P y"
    then obtain b' y where "m b' = Some y" "P y" by blast
    moreover from this assms have "b' \<noteq> b" by auto
    ultimately show ?thesis by (intro exI [of _ b'] exI [of _ y]) simp
  qed
qed

text \<open>Whatever handles are added, they name the new object and are one at most.\<close>

lemma bos_inv_add_named:
  assumes inv: "bos_inv lo hi shift bos v" and b: "b \<notin> v_blocks v" and n: "n \<notin> v_blocks v" "n \<noteq> b"
    and bo: "bo_mm bo = Some n" "unat (bo_npages bo) * 2 ^ shift < 2 ^ 32"
      "unat (bo_npages bo) \<le> length (pages_of bo)"
    and place: "placement_ok lo hi v (bo_iova bo) (ucast (bo_bytes shift (bo_npages bo))) (page_bytes shift)"
    and v': "view_with shift b n bo v v'"
    and h: "\<And>h b'. v_handles v' h = Some b' \<Longrightarrow> b' \<noteq> b \<Longrightarrow> v_handles v h = Some b'"
      "\<And>h h'. v_handles v' h = Some b \<Longrightarrow> v_handles v' h' = Some b \<Longrightarrow> h = h'"
  shows "bos_inv lo hi shift (bos(b \<mapsto> bo)) v'"
proof -
  note reserved = bos_inv_reserved [OF inv]
  note v'' = v' [unfolded view_with_def]
  have fresh: "bos b = None" "v_nodes v n = None" "v_nodes v b = None" "bos n = None"
    using inv_blocks [OF inv] reserved(2) b n by auto
  have bytes: "unat (bo_bytes shift (bo_npages bo)) = unat (bo_npages bo) * 2 ^ shift"
    by (rule bo_bytes_eq [OF bo(2)])
  have ok: "bo_ok lo hi shift v' bo"
    using place bo v'' bytes by (auto simp: bo_ok_def placement_ok_def)
  have old: "bo_ok lo hi shift v' bo'" if "bos b' = Some bo'" for b' bo'
  proof (rule bo_ok_mono [OF inv_bo [OF inv that]])
    show "v_blocks v \<subseteq> v_blocks v'" using v'' by auto
    fix m assume "bo_mm bo' = Some m"
    with inv_bo [OF inv that] n(1) have "m \<noteq> n" by (auto simp: bo_ok_def)
    then show "v_nodes v' m = v_nodes v m" using v'' by simp
  qed
  have mm: "bo_mm bo' \<noteq> Some n" if "bos b' = Some bo'" for b' bo'
    using inv_bo [OF inv that] n(1) by (auto simp: bo_ok_def)
  have maps: "v_maps v' a = Some pa \<longleftrightarrow> maps_page shift bo a pa \<or> v_maps v a = Some pa" for a pa
    using with_pages_iff [OF placement_free(1) [OF place bo(2) reserved(1)], of "v_maps v"]
      placement_free(2) [OF place bo(2) reserved(1)] v''
    by (simp add: maps_page_def)
  show ?thesis
    unfolding bos_inv_def
  proof (intro conjI)
    show "dom (bos(b \<mapsto> bo)) \<subseteq> v_blocks v'"
      using inv_blocks [OF inv] v'' by auto
    show "dom (v_gems v') = dom (bos(b \<mapsto> bo))" "v_pinned v' = dom (bos(b \<mapsto> bo))"
      using inv_gems [OF inv] inv_pinned [OF inv] v'' by auto
    show "\<forall>b' bo'. (bos(b \<mapsto> bo)) b' = Some bo' \<longrightarrow> bo_ok lo hi shift v' bo'"
      using ok old by auto
    show "\<forall>b1 bo1 b2 bo2. (bos(b \<mapsto> bo)) b1 = Some bo1 \<longrightarrow> (bos(b \<mapsto> bo)) b2 = Some bo2 \<longrightarrow>
        bo_mm bo1 = bo_mm bo2 \<longrightarrow> b1 = b2"
      using inv_own_node [OF inv] mm bo(1) by (auto dest: sym)
    show "\<forall>m \<in> dom (v_nodes v'). m \<notin> dom (bos(b \<mapsto> bo)) \<and>
        (\<exists>b' bo'. (bos(b \<mapsto> bo)) b' = Some bo' \<and> bo_mm bo' = Some m)"
    proof
      fix m assume "m \<in> dom (v_nodes v')"
      then consider "m = n" | "m \<noteq> n" "m \<in> dom (v_nodes v)" using v'' by (auto split: if_splits)
      then show "m \<notin> dom (bos(b \<mapsto> bo)) \<and>
          (\<exists>b' bo'. (bos(b \<mapsto> bo)) b' = Some bo' \<and> bo_mm bo' = Some m)"
      proof cases
        case 1
        with bo(1) n(2) fresh show ?thesis by auto
      next
        case 2
        then obtain b' bo' where "m \<notin> dom bos" "bos b' = Some bo'" "bo_mm bo' = Some m"
          using inv_nodes [OF inv] by blast
        with 2 fresh show ?thesis by (intro conjI exI [of _ b'] exI [of _ bo']) auto
      qed
    qed
    show "\<forall>m m' r r'. v_nodes v' m = Some r \<longrightarrow> v_nodes v' m' = Some r' \<longrightarrow> m \<noteq> m' \<longrightarrow>
        ranges_disjoint r r'"
    proof (intro allI impI)
      fix m m' r r'
      assume r: "v_nodes v' m = Some r" "v_nodes v' m' = Some r'" "m \<noteq> m'"
      have new: "ranges_disjoint x (bo_iova bo, ucast (bo_bytes shift (bo_npages bo)))"
        if "v_nodes v y = Some x" for x y
        using place that by (auto simp: placement_ok_def intro: ranI)
      have sym: "ranges_disjoint x y = ranges_disjoint y x" for x y
        by (auto simp: ranges_disjoint_def)
      consider "m = n" "m' \<noteq> n" | "m \<noteq> n" "m' = n" | "m \<noteq> n" "m' \<noteq> n"
        using r(3) by auto
      then show "ranges_disjoint r r'"
      proof cases
        case 1
        with r v'' new [of m' r'] show ?thesis by (subst sym) simp
      next
        case 2
        with r v'' new [of m r] show ?thesis by simp
      next
        case 3
        with r v'' inv_apart [OF inv, of m r m' r'] show ?thesis by simp
      qed
    qed
    show "\<forall>a pa. v_maps v' a = Some pa \<longleftrightarrow>
        (\<exists>b' bo'. (bos(b \<mapsto> bo)) b' = Some bo' \<and> maps_page shift bo' a pa)"
      using ex_map_upd [of bos b bo, OF fresh(1)] by (simp only: maps inv_maps [OF inv]) blast
    show "\<forall>h' b'. v_handles v' h' = Some b' \<longrightarrow> b' \<in> dom (bos(b \<mapsto> bo))"
      using inv_handles [OF inv h(1)] by fastforce
    show "\<forall>h1 h2 b'. v_handles v' h1 = Some b' \<longrightarrow> v_handles v' h2 = Some b' \<longrightarrow> h1 = h2"
      using inv_one_handle [OF inv] h by metis
  qed
qed

lemma bos_inv_add:
  assumes inv: "bos_inv lo hi shift bos v" and b: "b \<notin> v_blocks v" and n: "n \<notin> v_blocks v" "n \<noteq> b"
    and bo: "bo_mm bo = Some n" "unat (bo_npages bo) * 2 ^ shift < 2 ^ 32"
      "unat (bo_npages bo) \<le> length (pages_of bo)"
    and place: "placement_ok lo hi v (bo_iova bo) (ucast (bo_bytes shift (bo_npages bo))) (page_bytes shift)"
    and v': "view_with shift b n bo v v'"
    and h: "v_handles v h = None" "v_handles v' = (v_handles v)(h \<mapsto> b)"
  shows "bos_inv lo hi shift (bos(b \<mapsto> bo)) v'"
proof (rule bos_inv_add_named [OF inv b n bo place v'])
  have fresh: "v_handles v h' \<noteq> Some b" for h'
    using inv_handles [OF inv, of h' b] inv_blocks [OF inv] b by auto
  show "v_handles v h1 = Some b'" if "v_handles v' h1 = Some b'" "b' \<noteq> b" for h1 b'
    using that h(2) by (auto split: if_splits)
  show "h1 = h2" if "v_handles v' h1 = Some b" "v_handles v' h2 = Some b" for h1 h2
    using that h(2) fresh by (auto split: if_splits)
qed

text \<open>Without the pages of \<open>b\<close>, and that they were the only ones there.\<close>

definition maps_without :: "nat \<Rightarrow> ane_bo \<Rightarrow> kview \<Rightarrow> u64 \<rightharpoonup> u64" where
  "maps_without shift bo v = v_maps v |` (- (page_iova shift (bo_iova bo) ` {..<unat (bo_npages bo)}))"

lemma maps_without:
  assumes inv: "bos_inv lo hi shift bos v" and b: "bos b = Some bo"
  shows "v_maps v = with_pages (maps_without shift bo v) shift (bo_iova bo) (pages_of bo) (unat (bo_npages bo))"
    and "j < unat (bo_npages bo) \<Longrightarrow> maps_without shift bo v (page_iova shift (bo_iova bo) j) = None"
proof -
  show free: "maps_without shift bo v (page_iova shift (bo_iova bo) j) = None"
    if "j < unat (bo_npages bo)" for j
    using that by (auto simp: maps_without_def restrict_map_def)
  note fits = bo_ok_fits [OF inv_bo [OF inv b]]
  show "v_maps v = with_pages (maps_without shift bo v) shift (bo_iova bo) (pages_of bo) (unat (bo_npages bo))"
  proof
    fix a
    show "v_maps v a = with_pages (maps_without shift bo v) shift (bo_iova bo) (pages_of bo)
        (unat (bo_npages bo)) a"
    proof (cases "\<exists>j<unat (bo_npages bo). a = page_iova shift (bo_iova bo) j")
      case True
      then obtain j where j: "j < unat (bo_npages bo)" "a = page_iova shift (bo_iova bo) j" by blast
      then have "maps_page shift bo a (pages_of bo ! j)" by (auto simp: maps_page_def)
      then have "v_maps v a = Some (pages_of bo ! j)"
        using inv_maps [OF inv] b by blast
      with j with_pages_at [OF fits order_refl j(1)] show ?thesis by simp
    next
      case False
      then have "with_pages (maps_without shift bo v) shift (bo_iova bo) (pages_of bo)
          (unat (bo_npages bo)) a = maps_without shift bo v a"
        by (intro with_pages_other) auto
      with False show ?thesis by (auto simp: maps_without_def restrict_map_def)
    qed
  qed
qed

lemma bos_inv_remove:
  assumes inv: "bos_inv lo hi shift bos v" and b: "bos b = Some bo" "bo_mm bo = Some n"
    and v': "v_blocks v' = v_blocks v - {n} - {b}" "dom (v_gems v') = dom (v_gems v) - {b}"
      "v_pinned v' = v_pinned v - {b}" "v_nodes v' = (v_nodes v)(n := None)"
      "v_maps v' = maps_without shift bo v"
    and h: "\<And>h. v_handles v' h = (if v_handles v h = Some b then None else v_handles v h)"
  shows "bos_inv lo hi shift (bos(b := None)) v'"
proof -
  have n: "n \<notin> dom bos" "v_nodes v n \<noteq> None"
    using inv_bo [OF inv b(1)] b(2) inv_nodes [OF inv, of n] by (auto simp: bo_ok_def)
  have other: "bo_mm bo' \<noteq> Some n" if "bos b' = Some bo'" "b' \<noteq> b" for b' bo'
    using inv_own_node [OF inv b(1) that(1)] that(2) b(2) by auto
  have not_block: "b \<notin> dom (v_nodes v)"
    using inv_nodes [OF inv] b(1) by blast
  show ?thesis
    unfolding bos_inv_def
  proof (intro conjI)
    show "dom (bos(b := None)) \<subseteq> v_blocks v'"
      using inv_blocks [OF inv] v'(1) n(1) by auto
    show "dom (v_gems v') = dom (bos(b := None))" "v_pinned v' = dom (bos(b := None))"
      using inv_gems [OF inv] inv_pinned [OF inv] v' by auto
    show "\<forall>b' bo'. (bos(b := None)) b' = Some bo' \<longrightarrow> bo_ok lo hi shift v' bo'"
    proof (intro allI impI)
      fix b' bo' assume "(bos(b := None)) b' = Some bo'"
      then have b': "bos b' = Some bo'" "b' \<noteq> b" by (auto split: if_splits)
      obtain m where m: "bo_mm bo' = Some m" "m \<in> v_blocks v" "m \<in> dom (v_nodes v)"
        using inv_bo [OF inv b'(1)] by (auto simp: bo_ok_def)
      then have "m \<noteq> n" "m \<noteq> b" using other [OF b'] not_block by auto
      with inv_bo [OF inv b'(1)] m v' show "bo_ok lo hi shift v' bo'"
        by (auto simp: bo_ok_def)
    qed
    show "\<forall>b1 bo1 b2 bo2. (bos(b := None)) b1 = Some bo1 \<longrightarrow> (bos(b := None)) b2 = Some bo2 \<longrightarrow>
        bo_mm bo1 = bo_mm bo2 \<longrightarrow> b1 = b2"
      using inv_own_node [OF inv] by (auto split: if_splits)
    show "\<forall>m \<in> dom (v_nodes v'). m \<notin> dom (bos(b := None)) \<and>
        (\<exists>b' bo'. (bos(b := None)) b' = Some bo' \<and> bo_mm bo' = Some m)"
    proof
      fix m assume "m \<in> dom (v_nodes v')"
      then have m: "m \<noteq> n" "m \<in> dom (v_nodes v)" using v'(4) by (auto split: if_splits)
      then obtain b' bo' where "m \<notin> dom bos" "bos b' = Some bo'" "bo_mm bo' = Some m"
        using inv_nodes [OF inv] by blast
      moreover from this m(1) b have "b' \<noteq> b" by auto
      ultimately show "m \<notin> dom (bos(b := None)) \<and>
          (\<exists>b' bo'. (bos(b := None)) b' = Some bo' \<and> bo_mm bo' = Some m)"
        by (intro conjI exI [of _ b'] exI [of _ bo']) auto
    qed
    show "\<forall>m m' r r'. v_nodes v' m = Some r \<longrightarrow> v_nodes v' m' = Some r' \<longrightarrow> m \<noteq> m' \<longrightarrow>
        ranges_disjoint r r'"
      using inv_apart [OF inv] v'(4) by (auto split: if_splits)
    show "\<forall>a pa. v_maps v' a = Some pa \<longleftrightarrow>
        (\<exists>b' bo'. (bos(b := None)) b' = Some bo' \<and> maps_page shift bo' a pa)"
    proof (intro allI)
      fix a pa
      have in_b: "a \<in> page_iova shift (bo_iova bo) ` {..<unat (bo_npages bo)} \<longleftrightarrow>
          (\<exists>pa. maps_page shift bo a pa)" by (auto simp: maps_page_def)
      have "v_maps v' a = Some pa \<longleftrightarrow>
          v_maps v a = Some pa \<and> \<not> (\<exists>pa. maps_page shift bo a pa)"
        unfolding v'(5) maps_without_def restrict_map_def using in_b by auto
      also have "\<dots> \<longleftrightarrow> (\<exists>b' bo'. b' \<noteq> b \<and> bos b' = Some bo' \<and> maps_page shift bo' a pa)"
        unfolding inv_maps [OF inv] using b(1) pages_apart [OF inv b(1)] by (metis option.inject)
      also have "\<dots> \<longleftrightarrow> (\<exists>b' bo'. (bos(b := None)) b' = Some bo' \<and> maps_page shift bo' a pa)"
        by (auto split: if_splits)
      finally show "v_maps v' a = Some pa \<longleftrightarrow>
          (\<exists>b' bo'. (bos(b := None)) b' = Some bo' \<and> maps_page shift bo' a pa)" .
    qed
    show "\<forall>h' b'. v_handles v' h' = Some b' \<longrightarrow> b' \<in> dom (bos(b := None))"
    proof (intro allI impI)
      fix h' b' assume "v_handles v' h' = Some b'"
      then have "v_handles v h' = Some b'" "b' \<noteq> b" by (auto simp: h split: if_splits)
      with inv_handles [OF inv] show "b' \<in> dom (bos(b := None))" by auto
    qed
    show "\<forall>h1 h2 b'. v_handles v' h1 = Some b' \<longrightarrow> v_handles v' h2 = Some b' \<longrightarrow> h1 = h2"
      using inv_one_handle [OF inv] by (auto simp: h split: if_splits)
  qed
qed

section \<open>The ioctls keep the invariant\<close>

text \<open>The kernel's resources are as before; only reference counts may differ.\<close>

definition same_resources :: "kview \<Rightarrow> kview \<Rightarrow> bool" where
  "same_resources v v' \<longleftrightarrow> v' = v\<lparr>v_refs := v_refs v'\<rparr>"

lemma same_resources_fields:
  "same_resources v v' \<longleftrightarrow> v_blocks v' = v_blocks v \<and> v_nodes v' = v_nodes v \<and> v_maps v' = v_maps v \<and>
     v_gems v' = v_gems v \<and> v_pinned v' = v_pinned v \<and> v_handles v' = v_handles v"
  by (cases v; cases v') (auto simp: same_resources_def)

lemma bos_inv_same_resources:
  "same_resources v v' \<Longrightarrow> bos_inv lo hi shift bos v' = bos_inv lo hi shift bos v"
  by (simp add: same_resources_fields bos_inv_def bo_ok_def)

definition same_locks :: "'k drv \<Rightarrow> 'k drv \<Rightarrow> bool" where
  "same_locks s s1 \<longleftrightarrow> d_iommu_lock s1 = d_iommu_lock s \<and> d_engine_lock s1 = d_engine_lock s"

lemma same_locks_simps [simp]:
  "same_locks s s" "same_locks s (put_kern k s1) = same_locks s s1"
  "same_locks s (put_bo b bo s1) = same_locks s s1"
  "same_locks (put_kern k s) s1 = same_locks s s1" "same_locks (put_bo b bo s) s1 = same_locks s s1"
  by (simp_all add: same_locks_def)

context drm_kernel
begin

lemma free_bo_view:
  assumes "b \<in> v_blocks (view (d_kern s))"
  shows "\<exists>s1. free_bo K b s = Some s1 \<and> d_bos s1 = (d_bos s)(b := None) \<and> same_locks s s1 \<and>
    view (d_kern s1) = (view (d_kern s))\<lparr>v_blocks := v_blocks (view (d_kern s)) - {b}\<rparr>"
  using kfree_view [OF assms] by (auto simp: free_bo_def same_locks_def)

lemma release_bo_view:
  assumes "b \<in> v_blocks (view (d_kern s))"
  shows "\<exists>s1. release_bo K b s = Some s1 \<and> d_bos s1 = (d_bos s)(b := None) \<and> same_locks s s1 \<and>
    view (d_kern s1) = (view (d_kern s))\<lparr>v_blocks := v_blocks (view (d_kern s)) - {b},
      v_gems := (v_gems (view (d_kern s)))(b := None)\<rparr>"
  using free_bo_view [of b "put_kern (k_gem_release K b (d_kern s)) s"] assms
  by (auto simp: release_bo_def gem_release)

lemma put_pages_bo_view:
  assumes "b \<in> v_blocks (view (d_kern s))"
  shows "\<exists>s1. put_pages_bo K b s = Some s1 \<and> d_bos s1 = (d_bos s)(b := None) \<and> same_locks s s1 \<and>
    view (d_kern s1) = (view (d_kern s))\<lparr>v_blocks := v_blocks (view (d_kern s)) - {b},
      v_gems := (v_gems (view (d_kern s)))(b := None), v_pinned := v_pinned (view (d_kern s)) - {b}\<rparr>"
  using release_bo_view [of b "put_kern (k_put_pages K b (d_kern s)) s"] assms
  by (auto simp: put_pages_bo_def put_pages)

lemma unmap_bo_view:
  assumes bo: "d_bos s b = Some bo" "bo_mm bo = Some n" and lock: "\<not> d_iommu_lock s"
    and fits: "range_fits shift (bo_iova bo) (unat (bo_npages bo))" "shift < 32"
    and maps: "v_maps (view (d_kern s)) = with_pages m shift (bo_iova bo) (pages_of bo) (unat (bo_npages bo))"
    and free: "\<And>j. j < unat (bo_npages bo) \<Longrightarrow> m (page_iova shift (bo_iova bo) j) = None"
    and block: "n \<in> v_blocks (view (d_kern s))" "b \<in> v_blocks (view (d_kern s))" "n \<noteq> b"
  shows "\<exists>s1. unmap_bo K shift b s = Some s1 \<and> d_bos s1 = (d_bos s)(b := None) \<and> same_locks s s1 \<and>
    view (d_kern s1) = (view (d_kern s))\<lparr>v_maps := m,
      v_nodes := (v_nodes (view (d_kern s)))(n := None),
      v_blocks := v_blocks (view (d_kern s)) - {n} - {b},
      v_gems := (v_gems (view (d_kern s)))(b := None), v_pinned := v_pinned (view (d_kern s)) - {b}\<rparr>"
proof -
  obtain s1 where s1: "ane_iommu_unmap_pages K shift b s = Some s1" "d_bos s1 = d_bos s"
    "\<not> d_iommu_lock s1" "d_engine_lock s1 = d_engine_lock s"
    "view (d_kern s1) = (view (d_kern s))\<lparr>v_maps := m,
      v_nodes := (v_nodes (view (d_kern s)))(n := None),
      v_blocks := v_blocks (view (d_kern s)) - {n}\<rparr>"
    using unmap_pages_ok [OF bo lock fits maps free block(1)] by blast
  have "b \<in> v_blocks (view (d_kern s1))" using s1(5) block by simp
  from put_pages_bo_view [OF this] s1 lock show ?thesis
    by (auto simp: unmap_bo_def same_locks_def)
qed

text \<open>Freeing by handle: the object of the handle and all it held are gone, the rest is as before.\<close>

lemma ane_bo_free_ok:
  assumes inv: "drv_inv view lo hi shift s" and shift: "shift < 32"
  shows "\<exists>e s1. ane_bo_free K shift handle pad s = Some (e, s1) \<and> drv_inv view lo hi shift s1 \<and>
    same_locks s s1 \<and>
    (if pad \<noteq> 0 \<or> v_handles (view (d_kern s)) handle = None
     then e = - EINVAL \<and> d_bos s1 = d_bos s \<and> same_resources (view (d_kern s)) (view (d_kern s1))
     else e = 0 \<and> (\<exists>b bo. v_handles (view (d_kern s)) handle = Some b \<and> d_bos s b = Some bo \<and>
       d_bos s1 = (d_bos s)(b := None) \<and>
       v_handles (view (d_kern s1)) = (v_handles (view (d_kern s)))(handle := None) \<and>
       v_maps (view (d_kern s1)) = maps_without shift bo (view (d_kern s))))"
proof -
  let ?v = "view (d_kern s)"
  have bos: "bos_inv lo hi shift (d_bos s) ?v" and lock: "\<not> d_iommu_lock s"
    using inv by (simp_all add: drv_inv_def)
  obtain p k1 where l: "k_lookup K handle (d_kern s) = (p, k1)" by fastforce
  note law = lookup [OF l]
  have same: "same_resources ?v (view k1)"
    using law by (auto simp: same_resources_fields split: option.splits)
  show ?thesis
  proof (cases "pad \<noteq> 0 \<or> p = None")
    case True
    with l law same inv bos_inv_same_resources [OF same] show ?thesis
      by (auto simp: ane_bo_free_def drv_inv_def split: option.splits)
  next
    case False
    then obtain b where b: "p = Some b" "v_handles ?v handle = Some b" using law by auto
    then obtain bo where bo: "d_bos s b = Some bo" using inv_handles [OF bos b(2)] by auto
    obtain n where n: "bo_mm bo = Some n" "n \<in> v_blocks ?v" "n \<in> dom (v_nodes ?v)"
      using inv_bo [OF bos bo] by (auto simp: bo_ok_def)
    have nb: "n \<noteq> b" using inv_nodes [OF bos n(3)] bo by auto
    let ?s1 = "put_kern (k_handle_delete K handle k1) s"
    have h1: "v_handles (view k1) handle = Some b"
      using same b by (simp add: same_resources_fields)
    have v1: "v_blocks (view (d_kern ?s1)) = v_blocks ?v" "v_nodes (view (d_kern ?s1)) = v_nodes ?v"
      "v_maps (view (d_kern ?s1)) = v_maps ?v" "v_gems (view (d_kern ?s1)) = v_gems ?v"
      "v_pinned (view (d_kern ?s1)) = v_pinned ?v"
      "v_handles (view (d_kern ?s1)) = (v_handles ?v)(handle := None)"
      using handle_delete [OF h1] same by (simp_all add: same_resources_fields)
    obtain s2 where s2: "unmap_bo K shift b ?s1 = Some s2" "d_bos s2 = (d_bos s)(b := None)"
      "same_locks ?s1 s2"
      "view (d_kern s2) = (view (d_kern ?s1))\<lparr>v_maps := maps_without shift bo ?v,
        v_nodes := (v_nodes ?v)(n := None), v_blocks := v_blocks ?v - {n} - {b},
        v_gems := (v_gems ?v)(b := None), v_pinned := v_pinned ?v - {b}\<rparr>"
      using unmap_bo_view [of ?s1 b bo n shift "maps_without shift bo ?v"] bo n lock nb shift
        maps_without [OF bos bo] bo_ok_fits [OF inv_bo [OF bos bo]] inv_blocks [OF bos] v1 by auto
    have hd: "v_handles (view (d_kern s2)) = (v_handles ?v)(handle := None)"
      using s2(4) v1(6) by simp
    have "bos_inv lo hi shift ((d_bos s)(b := None)) (view (d_kern s2))"
    proof (rule bos_inv_remove [OF bos bo n(1)])
      show "v_handles (view (d_kern s2)) h = (if v_handles ?v h = Some b then None else v_handles ?v h)"
        for h
      proof (cases "h = handle")
        case True
        with b(2) show ?thesis by (simp add: hd)
      next
        case False
        with inv_one_handle [OF bos b(2), of h] show ?thesis by (auto simp: hd)
      qed
    qed (auto simp: s2(4) split: if_splits)
    with s2 l b False lock bo hd show ?thesis
      by (auto simp: ane_bo_free_def drv_inv_def same_locks_def)
  qed
qed

text \<open>The mapped object with its handle keeps the invariant.\<close>

lemma bo_init_handle_ok:
  assumes inv: "bos_inv lo hi shift bos v" and shift: "shift < 32" and lock: "\<not> d_iommu_lock s"
    and b: "b \<notin> v_blocks v" and n: "n \<notin> v_blocks v" "n \<noteq> b"
    and s: "d_bos s = bos(b \<mapsto> bo)"
    and bo: "bo_mm bo = Some n" "unat (bo_npages bo) * 2 ^ shift < 2 ^ 32"
      "unat (bo_npages bo) \<le> length (pages_of bo)"
    and place: "placement_ok lo hi v (bo_iova bo) (ucast (bo_bytes shift (bo_npages bo))) (page_bytes shift)"
    and v1: "view_with shift b n bo v (view (d_kern s))" "v_handles (view (d_kern s)) = v_handles v"
      "v_gems (view (d_kern s)) = (v_gems v)(b \<mapsto> sz)"
  shows "\<exists>e args1 s1. bo_init_handle K shift b args s = Some (e, args1, s1) \<and> same_locks s s1 \<and>
    bos_inv lo hi shift (d_bos s1) (view (d_kern s1)) \<and>
    (if e < 0 then d_bos s1 = bos \<and> same_resources v (view (d_kern s1))
     else e = 0 \<and> d_bos s1 = bos(b \<mapsto> bo) \<and> v_handles v (i_handle args1) = None \<and>
       v_handles (view (d_kern s1)) = (v_handles v)(i_handle args1 \<mapsto> b))"
proof -
  obtain e h k1 where c: "k_handle_create K b (d_kern s) = ((e, h), k1)" by (metis prod.exhaust)
  note law = handle_create [OF c]
  let ?s1 = "put_kern (k_gem_put K b k1) s"
  note reserved = bos_inv_reserved [OF inv]
  note v1' = v1(1) [unfolded view_with_def]
  have nb: "b \<notin> dom bos" using inv_blocks [OF inv] b by blast
  then have gone: "bos b = None" "v_nodes v n = None" "b \<notin> dom (v_gems v)" "b \<notin> v_pinned v"
    unfolding inv_gems [OF inv] inv_pinned [OF inv] using reserved(2) n(1) by auto
  note free = placement_free [OF place bo(2) reserved(1)]
  show ?thesis
  proof (cases "e < 0")
    case True
    then have same: "same_resources (view (d_kern s)) (view (d_kern ?s1))"
      using law by (simp add: gem_put same_resources_fields)
    obtain s2 where s2: "unmap_bo K shift b ?s1 = Some s2" "d_bos s2 = bos(b := None)" "same_locks s s2"
      "view (d_kern s2) = (view (d_kern ?s1))\<lparr>v_maps := v_maps v,
        v_nodes := (v_nodes (view (d_kern ?s1)))(n := None),
        v_blocks := v_blocks (view (d_kern ?s1)) - {n} - {b},
        v_gems := (v_gems (view (d_kern ?s1)))(b := None), v_pinned := v_pinned (view (d_kern ?s1)) - {b}\<rparr>"
      using unmap_bo_view [of ?s1 b bo n shift "v_maps v"] s bo(1) lock free shift v1' same n(2)
      by (auto simp: same_resources_fields)
    have "v_blocks v - {n} - {b} = v_blocks v" using b n by auto
    then have "same_resources v (view (d_kern s2))"
      using s2(4) same v1' v1(2,3) gone b n unfolding same_resources_fields
      by (auto simp: fun_upd_idem domIff)
    moreover have "d_bos s2 = bos" using s2(2) gone(1) by auto
    ultimately show ?thesis
      using True c s2 inv bos_inv_same_resources [of v "view (d_kern s2)"]
      by (simp add: bo_init_handle_def fail_with_def)
  next
    case False
    then have h: "v_handles (view (d_kern s)) h = None"
      "view k1 = (view (d_kern s))\<lparr>v_handles := (v_handles (view (d_kern s)))(h \<mapsto> b),
        v_refs := (v_refs (view (d_kern s)))(b := v_refs (view (d_kern s)) b + 1)\<rparr>"
      using law by auto
    have v2: "view_with shift b n bo v (view (d_kern ?s1))"
      "v_handles (view (d_kern ?s1)) = (v_handles v)(h \<mapsto> b)"
      using v1 h(2) by (simp_all add: gem_put view_with_def)
    have "v_handles v h = None" using h(1) v1(2) by simp
    from bos_inv_add [OF inv b n bo place v2(1) this v2(2)] this c False s v2
    show ?thesis by (simp add: bo_init_handle_def Let_def)
  qed
qed

text \<open>From the pages on, with the object allocated and initialised.\<close>

lemma bo_init_pages_ok:
  assumes inv: "bos_inv lo hi shift bos v" and shift: "shift < 32" "k_page_shift K = shift"
    and lock: "\<not> d_iommu_lock s" and b: "b \<notin> v_blocks v" and s: "d_bos s = bos(b \<mapsto> new_bo)"
    and size: "unat sz < 2 ^ 32"
    and v1: "v_blocks (view (d_kern s)) = insert b (v_blocks v)" "v_nodes (view (d_kern s)) = v_nodes v"
      "v_maps (view (d_kern s)) = v_maps v" "v_gems (view (d_kern s)) = (v_gems v)(b \<mapsto> sz)"
      "v_pinned (view (d_kern s)) = v_pinned v" "v_handles (view (d_kern s)) = v_handles v"
  shows "\<exists>e args1 s1. bo_init_pages K shift b sz args s = Some (e, args1, s1) \<and> same_locks s s1 \<and>
    bos_inv lo hi shift (d_bos s1) (view (d_kern s1)) \<and>
    (if e < 0 then d_bos s1 = bos \<and> same_resources v (view (d_kern s1))
     else e = 0 \<and> v_handles v (i_handle args1) = None \<and>
       v_handles (view (d_kern s1)) = (v_handles v)(i_handle args1 \<mapsto> b) \<and>
       (\<exists>bo. d_bos s1 = bos(b \<mapsto> bo) \<and> unat (bo_npages bo) = unat sz div 2 ^ shift))"
proof -
  note reserved = bos_inv_reserved [OF inv]
  have nb: "b \<notin> dom bos" using inv_blocks [OF inv] b by blast
  then have gone: "bos b = None" "b \<notin> dom (v_gems v)" "b \<notin> v_pinned v"
    unfolding inv_gems [OF inv] inv_pinned [OF inv] by auto
  have undo: "(v_gems v)(b := None) = v_gems v" "bos(b := None) = bos" "v_blocks v - {b} = v_blocks v"
    using gone b by auto
  have done_inv: "bos_inv lo hi shift bos v'" if "same_resources v v'" for v'
    using inv bos_inv_same_resources [OF that] by simp
  obtain r k1 where g: "k_get_pages K b (d_kern s) = (r, k1)" by fastforce
  note law = get_pages [OF g]
  show ?thesis
  proof (cases r)
    case (Inl e)
    then have v2: "view k1 = view (d_kern s)" and e: "e < 0" using law by auto
    obtain s2 where s2: "release_bo K b (put_kern k1 s) = Some s2" "d_bos s2 = bos" "same_locks s s2"
      "view (d_kern s2) = (view (d_kern s))\<lparr>v_blocks := v_blocks v, v_gems := v_gems v\<rparr>"
      using release_bo_view [of b "put_kern k1 s"] v1 v2 s undo by auto
    have "same_resources v (view (d_kern s2))"
      using s2(4) v1 by (simp add: same_resources_fields)
    with done_inv [OF this] Inl e s2 g show ?thesis
      by (simp add: bo_init_pages_def fail_with_def)
  next
    case (Inr pages)
    then have len: "length pages = unat sz div 2 ^ shift"
      and v2: "view k1 = (view (d_kern s))\<lparr>v_pinned := insert b (v_pinned v)\<rparr>"
      using law v1 shift by auto
    define bo where "bo = new_bo\<lparr>bo_npages := ucast (drop_bit shift sz), bo_pages := Some pages\<rparr>"
    let ?s1 = "put_bo b bo (put_kern k1 s)"
    have "unat (drop_bit shift sz) = unat sz div 2 ^ shift"
      unfolding unat_drop_bit_eq by (rule drop_bit_eq_div)
    moreover from this have "unat (drop_bit shift sz) < 2 ^ 32"
      using size div_le_dividend [of "unat sz" "2 ^ shift"] by linarith
    ultimately have np: "unat (bo_npages bo) = unat sz div 2 ^ shift"
      by (simp add: bo_def unsigned_ucast_eq take_bit_nat_eq_self)
    have small: "unat (bo_npages bo) * 2 ^ shift < 2 ^ 32"
      unfolding np by (rule le_less_trans [OF _ size]) simp
    have pages: "unat (bo_npages bo) \<le> length (pages_of bo)"
      by (simp add: np) (simp add: bo_def pages_of_def len)
    have res1: "maps_reserved (view (d_kern ?s1))" "dom (v_nodes (view (d_kern ?s1))) \<subseteq> v_blocks (view (d_kern ?s1))"
      using reserved v1 v2 by (auto simp: maps_reserved_def)
    have lock1: "\<not> d_iommu_lock ?s1" using lock by simp
    have bo1: "d_bos ?s1 b = Some bo" "bo_mm bo = None" by (simp_all add: bo_def new_bo_def)
    obtain e s2 where m: "ane_iommu_map_pages K shift b ?s1 = Some (e, s2)"
      "mapped_state view lo hi shift b bo ?s1 e s2"
      using map_pages_ok [OF bo1 lock1 small shift(1) pages res1] by blast
    obtain mm iova where st0: "d_bos s2 = (d_bos ?s1)(b \<mapsto> bo\<lparr>bo_mm := mm, bo_iova := iova\<rparr>)"
      "same_locks ?s1 s2"
      "if e < 0 then view (d_kern s2) = view (d_kern ?s1)
       else e = 0 \<and> (\<exists>n. mm = Some n \<and> n \<notin> v_blocks (view (d_kern ?s1)) \<and>
         placement_ok lo hi (view (d_kern ?s1)) iova (ucast (bo_bytes shift (bo_npages bo))) (page_bytes shift) \<and>
         view (d_kern s2) = (view (d_kern ?s1))\<lparr>v_blocks := insert n (v_blocks (view (d_kern ?s1))),
           v_nodes := (v_nodes (view (d_kern ?s1)))(n \<mapsto> (iova, ucast (bo_bytes shift (bo_npages bo)))),
           v_maps := with_pages (v_maps (view (d_kern ?s1))) shift iova (pages_of bo) (unat (bo_npages bo))\<rparr>)"
      using m(2) unfolding mapped_state_def same_locks_def by blast
    have st: "d_bos s2 = bos(b \<mapsto> bo\<lparr>bo_mm := mm, bo_iova := iova\<rparr>)" "same_locks s s2"
      using st0(1,2) s by simp_all
    have st3: "if e < 0 then view (d_kern s2) = view k1
       else e = 0 \<and> (\<exists>n. mm = Some n \<and> n \<notin> v_blocks (view k1) \<and>
         placement_ok lo hi (view k1) iova (ucast (bo_bytes shift (bo_npages bo))) (page_bytes shift) \<and>
         view (d_kern s2) = (view k1)\<lparr>v_blocks := insert n (v_blocks (view k1)),
           v_nodes := (v_nodes (view k1))(n \<mapsto> (iova, ucast (bo_bytes shift (bo_npages bo)))),
           v_maps := with_pages (v_maps (view k1)) shift iova (pages_of bo) (unat (bo_npages bo))\<rparr>)"
      using st0(3) unfolding drv_simps .
    have start: "bo_init_pages K shift b sz args s = (if e < 0 then fail_with e args (put_pages_bo K b s2)
        else bo_init_handle K shift b args s2)"
      using Inr g m(1) shift(2) by (simp add: bo_init_pages_def Let_def bo_def)
    show ?thesis
    proof (cases "e < 0")
      case True
      then have v3: "view (d_kern s2) = view k1" using st3 by simp
      obtain s3 where s3: "put_pages_bo K b s2 = Some s3" "d_bos s3 = bos" "same_locks s s3"
        "view (d_kern s3) = (view k1)\<lparr>v_blocks := v_blocks v, v_gems := v_gems v,
          v_pinned := v_pinned v - {b}\<rparr>"
        using put_pages_bo_view [of b s2] v3 v2 v1 st(1,2) undo by (auto simp: same_locks_def)
      have "same_resources v (view (d_kern s3))"
        using s3(4) v1 v2 gone(3) by (simp add: same_resources_fields)
      with done_inv [OF this] True s3 start show ?thesis
        by (simp add: fail_with_def)
    next
      case False
      then obtain n where n: "mm = Some n" "n \<notin> v_blocks (view k1)"
        "placement_ok lo hi (view k1) iova (ucast (bo_bytes shift (bo_npages bo))) (page_bytes shift)"
        "view (d_kern s2) = (view k1)\<lparr>v_blocks := insert n (v_blocks (view k1)),
           v_nodes := (v_nodes (view k1))(n \<mapsto> (iova, ucast (bo_bytes shift (bo_npages bo)))),
           v_maps := with_pages (v_maps (view k1)) shift iova (pages_of bo) (unat (bo_npages bo))\<rparr>"
        using st3 by auto
      let ?bo = "bo\<lparr>bo_mm := mm, bo_iova := iova\<rparr>"
      have same_pages: "pages_of ?bo = pages_of bo" by (simp add: pages_of_def)
      have nv: "n \<notin> v_blocks v" "n \<noteq> b" using n(2) v1 v2 by auto
      have place: "placement_ok lo hi v (bo_iova ?bo) (ucast (bo_bytes shift (bo_npages ?bo))) (page_bytes shift)"
        using n(3) v1 v2 by (simp add: placement_ok_def)
      have with1: "view_with shift b n ?bo v (view (d_kern s2))"
        using n(4) v1 v2 by (auto simp: view_with_def same_pages)
      have fin: "\<exists>e args1 s3. bo_init_handle K shift b args s2 = Some (e, args1, s3) \<and> same_locks s2 s3 \<and>
        bos_inv lo hi shift (d_bos s3) (view (d_kern s3)) \<and>
        (if e < 0 then d_bos s3 = bos \<and> same_resources v (view (d_kern s3))
         else e = 0 \<and> d_bos s3 = bos(b \<mapsto> ?bo) \<and> v_handles v (i_handle args1) = None \<and>
           v_handles (view (d_kern s3)) = (v_handles v)(i_handle args1 \<mapsto> b))"
        by (rule bo_init_handle_ok [OF inv shift(1) _ b nv st(1) _ _ _ place with1, of sz])
          (use n(1,4) v1 v2 st(2) lock small pages same_pages in \<open>simp_all add: same_locks_def\<close>)
      have trans: "same_locks s s3" if "same_locks s2 s3" for s3
        using that st(2) by (simp add: same_locks_def)
      from fin obtain e3 args3 s3 where "bo_init_handle K shift b args s2 = Some (e3, args3, s3)"
        "same_locks s2 s3" "bos_inv lo hi shift (d_bos s3) (view (d_kern s3))"
        "if e3 < 0 then d_bos s3 = bos \<and> same_resources v (view (d_kern s3))
         else e3 = 0 \<and> d_bos s3 = bos(b \<mapsto> ?bo) \<and> v_handles v (i_handle args3) = None \<and>
           v_handles (view (d_kern s3)) = (v_handles v)(i_handle args3 \<mapsto> b)" by blast
      with start False trans np show ?thesis
        by (cases "e3 < 0") auto
    qed
  qed
qed

text \<open>The whole ioctl: an error leaves everything as it was, a success adds one object under a
  new handle with the pages of the rounded size.\<close>

lemma ane_bo_init_ok:
  assumes inv: "drv_inv view lo hi shift s" and shift: "shift < 32" "k_page_shift K = shift"
    and size: "unat (round_up (i_size args) (page_size K)) < 2 ^ 32"
  shows "\<exists>e args1 s1. ane_bo_init K shift args s = Some (e, args1, s1) \<and>
    drv_inv view lo hi shift s1 \<and> same_locks s s1 \<and>
    (if e < 0 then d_bos s1 = d_bos s \<and> same_resources (view (d_kern s)) (view (d_kern s1))
     else e = 0 \<and> i_pad args = 0 \<and> v_handles (view (d_kern s)) (i_handle args1) = None \<and>
       (\<exists>b bo. d_bos s b = None \<and> d_bos s1 = (d_bos s)(b \<mapsto> bo) \<and>
         v_handles (view (d_kern s1)) = (v_handles (view (d_kern s)))(i_handle args1 \<mapsto> b) \<and>
         unat (bo_npages bo) = unat (round_up (i_size args) (page_size K)) div 2 ^ shift))"
proof -
  let ?v = "view (d_kern s)" and ?sz = "round_up (i_size args) (page_size K)"
  have bos: "bos_inv lo hi shift (d_bos s) ?v" and lock: "\<not> d_iommu_lock s"
    using inv by (simp_all add: drv_inv_def)
  have same_refl: "same_resources v v" for v by (simp add: same_resources_fields)
  obtain p k1 where z: "k_kzalloc K (d_kern s) = (p, k1)" by fastforce
  note law_z = kzalloc [OF z]
  consider (pad) "i_pad args \<noteq> 0" | (oom) "i_pad args = 0" "p = None"
    | (ok) b where "i_pad args = 0" "p = Some b" by (cases p) auto
  then show ?thesis
  proof cases
    case pad
    with inv same_refl show ?thesis by (simp add: ane_bo_init_def)
  next
    case oom
    with z law_z inv same_refl show ?thesis by (simp add: ane_bo_init_def drv_inv_def)
  next
    case ok
    have b: "b \<notin> v_blocks ?v" "view k1 = ?v\<lparr>v_blocks := insert b (v_blocks ?v)\<rparr>"
      using law_z ok by auto
    then have nb: "b \<notin> dom (d_bos s)" using inv_blocks [OF bos] by blast
    then have gone: "d_bos s b = None" "b \<notin> dom (v_gems ?v)" unfolding inv_gems [OF bos] by auto
    have undo: "(d_bos s)(b := None) = d_bos s" "v_blocks ?v - {b} = v_blocks ?v"
      "(v_gems ?v)(b := None) = v_gems ?v"
      using gone b by auto
    let ?s1 = "put_bo b new_bo (put_kern k1 s)"
    obtain e k2 where g: "k_gem_init K b ?sz k1 = (e, k2)" by fastforce
    note law_g = gem_init [OF g]
    obtain e2 off k3 where o: "k_mmap_offset K b k2 = ((e2, off), k3)" by (metis prod.exhaust)
    have v3: "view k3 = view k2" using mmap_offset [of b k2] o by simp
    consider (gem) "e < 0" | (off) "\<not> e < 0" "e2 < 0" | (on) "\<not> e < 0" "\<not> e2 < 0" by blast
    then show ?thesis
    proof cases
      case gem
      then have "view k2 = view k1" using law_g by simp
      then obtain s2 where s2: "free_bo K b (put_kern k2 ?s1) = Some s2" "d_bos s2 = d_bos s"
        "same_locks s s2" "view (d_kern s2) = ?v"
        using free_bo_view [of b "put_kern k2 ?s1"] b undo by auto
      with gem ok z g bos lock same_refl show ?thesis
        by (simp add: ane_bo_init_def Let_def fail_with_def drv_inv_def same_locks_def)
    next
      case off
      then obtain s2 where s2: "release_bo K b (put_kern k3 ?s1) = Some s2" "d_bos s2 = d_bos s"
        "same_locks s s2" "same_resources ?v (view (d_kern s2))"
        using release_bo_view [of b "put_kern k3 ?s1"] b undo v3 law_g
        by (auto simp: same_resources_fields)
      with off ok z g o bos lock bos_inv_same_resources [OF s2(4)] show ?thesis
        by (simp add: ane_bo_init_def Let_def fail_with_def drv_inv_def same_locks_def)
    next
      case on
      let ?s3 = "put_kern k3 ?s1" and ?args = "args\<lparr>i_offset := off\<rparr>"
      have v3': "view k3 = (view k1)\<lparr>v_gems := (v_gems (view k1))(b \<mapsto> ?sz),
          v_refs := (v_refs (view k1))(b := 1)\<rparr>"
        using v3 on law_g by simp
      have start: "ane_bo_init K shift args s = bo_init_pages K shift b ?sz ?args ?s3"
        using on ok z g o by (simp add: ane_bo_init_def Let_def)
      have fin: "\<exists>e args1 s1. bo_init_pages K shift b ?sz ?args ?s3 = Some (e, args1, s1) \<and>
        same_locks ?s3 s1 \<and> bos_inv lo hi shift (d_bos s1) (view (d_kern s1)) \<and>
        (if e < 0 then d_bos s1 = d_bos s \<and> same_resources ?v (view (d_kern s1))
         else e = 0 \<and> v_handles ?v (i_handle args1) = None \<and>
           v_handles (view (d_kern s1)) = (v_handles ?v)(i_handle args1 \<mapsto> b) \<and>
           (\<exists>bo. d_bos s1 = (d_bos s)(b \<mapsto> bo) \<and> unat (bo_npages bo) = unat ?sz div 2 ^ shift))"
        by (rule bo_init_pages_ok [OF bos shift _ b(1) _ size]) (use lock v3' b in simp_all)
      then obtain e3 args3 s3 where r: "bo_init_pages K shift b ?sz ?args ?s3 = Some (e3, args3, s3)"
        "same_locks ?s3 s3" "bos_inv lo hi shift (d_bos s3) (view (d_kern s3))"
        "if e3 < 0 then d_bos s3 = d_bos s \<and> same_resources ?v (view (d_kern s3))
         else e3 = 0 \<and> v_handles ?v (i_handle args3) = None \<and>
           v_handles (view (d_kern s3)) = (v_handles ?v)(i_handle args3 \<mapsto> b) \<and>
           (\<exists>bo. d_bos s3 = (d_bos s)(b \<mapsto> bo) \<and> unat (bo_npages bo) = unat ?sz div 2 ^ shift)"
        by blast
      have "drv_inv view lo hi shift s3 \<and> same_locks s s3"
        using r(2,3) lock by (simp add: drv_inv_def same_locks_def)
      with start r(1,4) ok(1) gone(1) show ?thesis
        by (cases "e3 < 0") auto
    qed
  qed
qed

end

section \<open>Pages seen by the engine and by the CPU\<close>

lemma mapped_page:
  assumes "bos_inv lo hi shift bos v" and "bos b = Some bo" and "j < unat (bo_npages bo)"
  shows "v_maps v (page_iova shift (bo_iova bo) j) = Some (pages_of bo ! j)"
proof -
  have "maps_page shift bo (page_iova shift (bo_iova bo) j) (pages_of bo ! j)"
    using assms(3) by (auto simp: maps_page_def)
  then show ?thesis using inv_maps [OF assms(1)] assms(2) by blast
qed

lemma fault_page:
  assumes "bo_ok lo hi shift v bo" and "k_page_shift K = shift"
    and "unat (address - vm_start) div 2 ^ shift = j" and "j < unat (bo_npages bo)"
  shows "ane_gem_vm_fault K bo vm_start address = Some (Inr (pages_of bo ! j))"
proof -
  have len: "unat (bo_npages bo) \<le> length (pages_of bo)" and "0 < unat (bo_npages bo)"
    using assms(1) by (auto simp: bo_ok_def)
  then obtain ps where ps: "bo_pages bo = Some ps" "pages_of bo = ps"
    by (cases "bo_pages bo") (auto simp: pages_of_def)
  have "unat (drop_bit shift (address - vm_start)) = j"
    unfolding unat_drop_bit_eq assms(3) [symmetric] by (rule drop_bit_eq_div)
  with ps len assms(4) show ?thesis by (simp add: ane_gem_vm_fault_def assms(2) Let_def)
qed

end
