(* ===== verification/Drv_Tm.thy ===== *)
theory Drv_Tm
  imports Ane_Prelude
begin

text \<open>
  The task manager of the engine: the register interface of \<open>ane_h13.c\<close> and \<open>ane_h14.c\<close>,
  and the operations each generation provides to the driver (\<open>struct ane_hw\<close>), whose common
  contract is the locale \<open>tm_backend\<close>.

  The device is a parameter \<open>dev\<close>: the value a register read returns, given every access
  made so far. \<open>readl_poll_timeout\<close> is a macro of the kernel and a parameter \<open>poll\<close>,
  with its documented behaviour in \<open>poll_ok\<close>. Register addresses are offsets from the
  mapping \<open>ane->engine\<close>; the state is the sequence of accesses.
\<close>

section \<open>Register access\<close>

datatype access = Rd nat u32 | Wr nat u32

type_synonym device = "access list \<Rightarrow> nat \<Rightarrow> u32"
type_synonym poller = "nat \<Rightarrow> (u32 \<Rightarrow> bool) \<Rightarrow> nat \<Rightarrow> nat \<Rightarrow> access list \<Rightarrow> int \<times> access list"

definition readl :: "device \<Rightarrow> nat \<Rightarrow> access list \<Rightarrow> u32 \<times> access list" where
  "readl dev a l = (dev l a, l @ [Rd a (dev l a)])"

definition writel :: "u32 \<Rightarrow> nat \<Rightarrow> access list \<Rightarrow> access list" where
  "writel v a l = l @ [Wr a v]"

text \<open>\<open>readl_poll_timeout(addr, val, cond, delay_us, timeout_us)\<close>: reads until the condition
  holds or the time is over, and judges the last value read.\<close>

definition poll_ok :: "poller \<Rightarrow> bool" where
  "poll_ok poll \<longleftrightarrow> (\<forall>a cond delay timeout l. \<exists>vs v.
     snd (poll a cond delay timeout l) = l @ map (Rd a) (vs @ [v]) \<and>
     fst (poll a cond delay timeout l) = (if cond v then 0 else - ETIMEDOUT))"

lemma poll_okD:
  assumes "poll_ok poll"
  shows "\<exists>vs v. poll a cond delay timeout l =
    (if cond v then 0 else - ETIMEDOUT, l @ map (Rd a) (vs @ [v]))"
proof -
  obtain vs v where "snd (poll a cond delay timeout l) = l @ map (Rd a) (vs @ [v])"
    "fst (poll a cond delay timeout l) = (if cond v then 0 else - ETIMEDOUT)"
    using assms unfolding poll_ok_def by blast
  then have "poll a cond delay timeout l = (if cond v then 0 else - ETIMEDOUT, l @ map (Rd a) (vs @ [v]))"
    by (simp add: prod_eq_iff)
  then show ?thesis by blast
qed

definition lower_32_bits :: "u64 \<Rightarrow> u32" where
  "lower_32_bits x = ucast x"

definition upper_32_bits :: "u64 \<Rightarrow> u32" where
  "upper_32_bits x = ucast (drop_bit 32 x)"

text \<open>\<open>struct ane_request\<close>; \<open>bar\<close> has \<open>ANE_MAX_TILE_COUNT\<close> entries.\<close>

record ane_request =
  rq_qid :: nat
  rq_nid :: u32
  rq_td_size :: u32
  rq_td_count :: u32
  rq_btsp_iova :: u64
  rq_bar :: "u64 list"

abbreviation ANE_MAX_TILE_COUNT :: nat where "ANE_MAX_TILE_COUNT \<equiv> 0x61"

definition TQ_PRTY_TABLE :: "u32 list" where
  "TQ_PRTY_TABLE = [0x1, 0x2, 0x3, 0x4, 0x5, 0x6, 0x1e, 0x1f]"

abbreviation ANE_TQ_COUNT :: nat where "ANE_TQ_COUNT \<equiv> 8"

definition prty :: "nat \<Rightarrow> u32 option" where
  "prty qid = (if qid < length TQ_PRTY_TABLE then Some (TQ_PRTY_TABLE ! qid) else None)"

section \<open>ane_h13.c\<close>

abbreviation ANE_H13_TILE_COUNT :: nat where "ANE_H13_TILE_COUNT \<equiv> 0x20"

definition tm :: "nat \<Rightarrow> nat" where "tm off = 0x20000 + off"
definition tq :: "nat \<Rightarrow> nat \<Rightarrow> nat" where "tq qid off = 0x21000 + (off + qid * 0x148)"

abbreviation TM_ADDR :: nat where "TM_ADDR \<equiv> tm 0x0"
abbreviation TM_INFO :: nat where "TM_INFO \<equiv> tm 0x4"
abbreviation TM_PUSH :: nat where "TM_PUSH \<equiv> tm 0x8"
abbreviation TM_TQ_EN :: nat where "TM_TQ_EN \<equiv> tm 0xc"
abbreviation TM_IRQ :: "nat \<Rightarrow> nat \<Rightarrow> nat" where "TM_IRQ line off \<equiv> tm (off + line * 0x14)"
abbreviation TM_STATUS :: nat where "TM_STATUS \<equiv> tm 0x54"
abbreviation TM_IRQ_EN1 :: nat where "TM_IRQ_EN1 \<equiv> tm 0x68"
abbreviation TM_IRQ_ACK :: nat where "TM_IRQ_ACK \<equiv> tm 0x6c"
abbreviation TM_IRQ_EN2 :: nat where "TM_IRQ_EN2 \<equiv> tm 0x70"
abbreviation TQ_STATUS :: "nat \<Rightarrow> nat" where "TQ_STATUS qid \<equiv> tq qid 0x000"
abbreviation TQ_PRTY :: "nat \<Rightarrow> nat" where "TQ_PRTY qid \<equiv> tq qid 0x010"
abbreviation TQ_BAR1 :: "nat \<Rightarrow> nat \<Rightarrow> nat" where "TQ_BAR1 qid bdx \<equiv> tq qid (0x020 + bdx * 4)"
abbreviation TQ_NID1 :: "nat \<Rightarrow> nat" where "TQ_NID1 qid \<equiv> tq qid 0x0a0"
abbreviation TQ_SIZE1 :: "nat \<Rightarrow> nat" where "TQ_SIZE1 qid \<equiv> tq qid 0x130"
abbreviation TQ_ADDR1 :: "nat \<Rightarrow> nat" where "TQ_ADDR1 qid \<equiv> tq qid 0x134"

definition ane_h13_tm_enable :: "device \<Rightarrow> access list \<Rightarrow> access list option" where
  "ane_h13_tm_enable dev l = (
     let (en, l1) = readl dev TM_TQ_EN l in
     Option.bind (for_loop 0 ANE_TQ_COUNT
         (\<lambda>qid l. map_option (\<lambda>p. writel p (TQ_PRTY qid) l) (prty qid))
         (writel (en OR 0x1000) TM_TQ_EN l1))
       (\<lambda>l2. Some (writel 0x6 TM_IRQ_EN2 (writel 0x4000000 TM_IRQ_EN1 l2))))"

definition ane_h13_tm_enqueue :: "ane_request \<Rightarrow> access list \<Rightarrow> (int \<times> access list) option" where
  "ane_h13_tm_enqueue req l = (
     let qid = rq_qid req in
     Option.bind (for_loop 0 ANE_H13_TILE_COUNT
         (\<lambda>bdx l. if bdx < length (rq_bar req)
                  then Some (writel (lower_32_bits (rq_bar req ! bdx)) (TQ_BAR1 qid bdx) l) else None)
         (writel 0x1 (TQ_STATUS qid) l))
       (\<lambda>l1. Some (0,
         writel (push_bit 8 (rq_nid req AND 0xff) OR 1) (TQ_NID1 qid)
           (writel (lower_32_bits (rq_btsp_iova req)) (TQ_ADDR1 qid)
             (writel (push_bit 0x10 (drop_bit 2 (rq_td_size req) - 1)) (TQ_SIZE1 qid) l1)))))"

definition ane_tm_push_tq :: "device \<Rightarrow> ane_request \<Rightarrow> access list \<Rightarrow> access list option" where
  "ane_tm_push_tq dev req l = (
     let qid = rq_qid req;
         (addr, l1) = readl dev (TQ_ADDR1 qid) l;
         l2 = writel addr TM_ADDR l1;
         (sz, l3) = readl dev (TQ_SIZE1 qid) l2;
         l4 = writel (sz OR rq_td_count req) TM_INFO l3
     in map_option (\<lambda>p. writel (p OR push_bit 8 (of_nat qid AND 7)) TM_PUSH l4) (prty qid))"

definition ane_tm_get_status :: "poller \<Rightarrow> access list \<Rightarrow> int \<times> access list" where
  "ane_tm_get_status poll l = poll TM_STATUS (\<lambda>status. status AND 1 \<noteq> 0) 1 1000000 l"

text \<open>The loop over the events of an interrupt line; the count is read again each time.\<close>

function irq_events :: "device \<Rightarrow> nat \<Rightarrow> u32 \<Rightarrow> access list \<Rightarrow> access list" where
  "irq_events dev line n l =
     (let (cnt, l1) = readl dev (TM_IRQ line 0x14) l in
      if n < cnt then
        let l2 = snd (readl dev (TM_IRQ line 0x18) l1);
            l3 = snd (readl dev (TM_IRQ line 0x1c) l2);
            l4 = snd (readl dev (TM_IRQ line 0x20) l3);
            l5 = snd (readl dev (TM_IRQ line 0x24) l4)
        in irq_events dev line (n + 1) l5
      else l1)"
  by pat_completeness auto
termination
proof (relation "measure (\<lambda>(dev, line, n, l). 2 ^ 32 - unat n)", goal_cases)
  case 1
  then show ?case by simp
next
  case (2 dev line n l x cnt l1)
  then have "n < cnt" by simp
  then have "unat n < unat cnt" by (simp add: word_less_nat_alt)
  then have "unat (n + 1) = unat n + 1"
    using u32_less [of cnt] by (subst unat_plus_less) auto
  with \<open>unat n < unat cnt\<close> u32_less [of cnt] show ?case by simp
qed

declare irq_events.simps [simp del]

definition ane_tm_handle_irq :: "device \<Rightarrow> access list \<Rightarrow> access list" where
  "ane_tm_handle_irq dev l = (
     let l1 = irq_events dev 0 0 l;
         (ack, l2) = readl dev TM_IRQ_ACK l1;
         l3 = writel (ack OR 2) TM_IRQ_ACK l2
     in irq_events dev 1 0 l3)"

definition ane_h13_tm_execute ::
  "device \<Rightarrow> poller \<Rightarrow> ane_request \<Rightarrow> access list \<Rightarrow> (int \<times> access list) option" where
  "ane_h13_tm_execute dev poll req l =
     Option.bind (ane_tm_push_tq dev req l) (\<lambda>l1.
       let (err, l2) = ane_tm_get_status poll l1;
           l3 = ane_tm_handle_irq dev l2
       in Some (err, writel 0x0 (TQ_STATUS (rq_qid req)) l3))"

section \<open>ane_h14.c\<close>

definition tm_write64 :: "u64 \<Rightarrow> nat \<Rightarrow> access list \<Rightarrow> access list" where
  "tm_write64 v off l = writel (upper_32_bits v) (off + 4) (writel (lower_32_bits v) off l)"

abbreviation H14_TM_ADDR :: nat where "H14_TM_ADDR \<equiv> 0x20400"
abbreviation H14_TM_UNK_08 :: nat where "H14_TM_UNK_08 \<equiv> 0x20408"
abbreviation H14_TM_UNK_10 :: nat where "H14_TM_UNK_10 \<equiv> 0x20410"
abbreviation H14_TM_UNK_14 :: nat where "H14_TM_UNK_14 \<equiv> 0x20414"
abbreviation H14_TM_PUSH :: nat where "H14_TM_PUSH \<equiv> 0x20418"
abbreviation H14_TM_TQ_EN :: nat where "H14_TM_TQ_EN \<equiv> 0x20420"
abbreviation H14_TM_IRQ_EN1 :: nat where "H14_TM_IRQ_EN1 \<equiv> 0x20484"
abbreviation H14_TM_IRQ_EN2 :: nat where "H14_TM_IRQ_EN2 \<equiv> 0x2048C"
abbreviation H14_TM_ABORT :: nat where "H14_TM_ABORT \<equiv> 0x20510"
abbreviation H14_TQ_UNK0 :: "nat \<Rightarrow> nat" where "H14_TQ_UNK0 qid \<equiv> 0x20800 + qid * 0x2C"
abbreviation H14_TQ_STATUS :: "nat \<Rightarrow> nat" where "H14_TQ_STATUS qid \<equiv> 0x20804 + qid * 0x2C"
abbreviation H14_TQ_PRTY :: "nat \<Rightarrow> nat" where "H14_TQ_PRTY qid \<equiv> 0x20810 + qid * 0x2C"

text \<open>\<open>abort_tq\<close> returns a value only for an invalid queue: the other path falls off the end.\<close>

definition abort_tq :: "poller \<Rightarrow> nat \<Rightarrow> access list \<Rightarrow> (int option \<times> access list) option" where
  "abort_tq poll qid l =
     (if 8 \<le> qid then Some (Some (- EINVAL), l)
      else let l1 = writel (0x10 OR (of_nat qid AND 7)) H14_TM_ABORT l;
               l2 = snd (poll H14_TM_ABORT (\<lambda>status. status AND 0x10 = 0) 1 5000000 l1)
           in map_option (\<lambda>p. (None, writel p (H14_TQ_PRTY qid) l2)) (prty qid))"

definition wait_tq :: "device \<Rightarrow> poller \<Rightarrow> nat \<Rightarrow> access list \<Rightarrow> int \<times> access list" where
  "wait_tq dev poll qid l =
     (if 8 \<le> qid then (- EINVAL, l)
      else let (status, l1) = readl dev (H14_TQ_STATUS qid) l in
        if status AND 1 = 0
        then let (err, l2) = poll (H14_TQ_STATUS qid) (\<lambda>status. status AND 1 \<noteq> 0) 1 5000000 l1
             in if err \<noteq> 0 then (err, l2) else (0, l2)
        else (0, l1))"

definition ane_h14_tm_reset :: "access list \<Rightarrow> access list option" where
  "ane_h14_tm_reset l =
     Option.bind (for_loop 0 ANE_TQ_COUNT
         (\<lambda>qid l. map_option (\<lambda>p. writel 0x201 (H14_TQ_UNK0 qid) (writel p (H14_TQ_PRTY qid) l)) (prty qid)) l)
       (\<lambda>l1. Some (writel 0x6 H14_TM_IRQ_EN2 (writel 0x4000000 H14_TM_IRQ_EN1 l1)))"

definition ane_h14_tm_enable :: "device \<Rightarrow> access list \<Rightarrow> access list option" where
  "ane_h14_tm_enable dev l = (
     let (en, l1) = readl dev H14_TM_TQ_EN l
     in ane_h14_tm_reset (writel (en OR 0x2000) H14_TM_TQ_EN l1))"

definition ane_h14_tm_enqueue :: "ane_request \<Rightarrow> access list \<Rightarrow> (int \<times> access list) option" where
  "ane_h14_tm_enqueue req l = Some (0, l)"

definition ane_h14_tm_execute :: "ane_request \<Rightarrow> access list \<Rightarrow> (int \<times> access list) option" where
  "ane_h14_tm_execute req l = (
     let l1 = tm_write64 (rq_btsp_iova req) H14_TM_ADDR l;
         l2 = tm_write64 (ucast (rq_td_size req)) H14_TM_UNK_08 l1;
         l3 = writel 0x151 H14_TM_UNK_10 l2;
         l4 = writel (rq_td_count req) H14_TM_UNK_14 l3
     in Some (0, writel 0 H14_TM_PUSH l4))"

section \<open>Traces\<close>

text \<open>The writes to a register among some accesses, and the last value written to it.\<close>

definition writes_to :: "nat \<Rightarrow> access list \<Rightarrow> u32 list" where
  "writes_to a l = concat (map (\<lambda>x. case x of Wr r v \<Rightarrow> if r = a then [v] else [] | Rd _ _ \<Rightarrow> []) l)"

lemma writes_to_simps [simp]:
  "writes_to a [] = []"
  "writes_to a (Wr r v # l) = (if r = a then v # writes_to a l else writes_to a l)"
  "writes_to a (Rd r v # l) = writes_to a l"
  "writes_to a (l @ m) = writes_to a l @ writes_to a m"
  by (simp_all add: writes_to_def)

lemma writes_to_reads [simp]: "writes_to a (map (Rd r) vs) = []"
  by (induction vs) auto

lemma writes_to_none: "(\<And>r v. Wr r v \<in> set l \<Longrightarrow> r \<noteq> a) \<Longrightarrow> writes_to a l = []"
proof (induction l)
  case Nil
  then show ?case by simp
next
  case (Cons x l)
  then have "writes_to a l = []" by auto
  with Cons.prems show ?case by (cases x) auto
qed

text \<open>A register that reads back the last value written to it, if there is one.\<close>

definition reads_back :: "device \<Rightarrow> nat \<Rightarrow> bool" where
  "reads_back dev a \<longleftrightarrow> (\<forall>l. writes_to a l \<noteq> [] \<longrightarrow> dev l a = last (writes_to a l))"

lemma reads_back_last: "reads_back dev a \<Longrightarrow> writes_to a l = vs @ [v] \<Longrightarrow> dev l a = v"
  by (simp add: reads_back_def)

text \<open>A loop that writes one register per iteration.\<close>

lemma for_loop_writes:
  assumes "\<And>i l. a \<le> i \<Longrightarrow> i < a + n \<Longrightarrow> f i l = Some (l @ g i)"
  shows "for_loop a n f l = Some (l @ concat (map g [a..<a + n]))"
  using assms
proof (induction n arbitrary: a l)
  case 0
  then show ?case by simp
next
  case (Suc n)
  then have "for_loop (Suc a) n f (l @ g a) = Some ((l @ g a) @ concat (map g [Suc a..<Suc a + n]))"
    by (intro Suc.IH) auto
  moreover have "[a..<a + Suc n] = a # [Suc a..<Suc a + n]"
    by (simp add: upt_conv_Cons)
  ultimately show ?case using Suc.prems [of a l] by simp
qed

lemma prty_some: "qid < 8 \<Longrightarrow> prty qid = Some (TQ_PRTY_TABLE ! qid)"
  by (simp add: prty_def TQ_PRTY_TABLE_def)

text \<open>What the driver may ask of a task manager with \<open>bars\<close> address registers.\<close>

definition tm_request :: "nat \<Rightarrow> ane_request \<Rightarrow> bool" where
  "tm_request bars req \<longleftrightarrow> rq_qid req < ANE_TQ_COUNT \<and> bars \<le> length (rq_bar req)"

definition h13_enqueue_trace :: "ane_request \<Rightarrow> access list" where
  "h13_enqueue_trace req = (let qid = rq_qid req in
     [Wr (TQ_STATUS qid) 0x1] @
     map (\<lambda>bdx. Wr (TQ_BAR1 qid bdx) (lower_32_bits (rq_bar req ! bdx))) [0..<ANE_H13_TILE_COUNT] @
     [Wr (TQ_SIZE1 qid) (push_bit 0x10 (drop_bit 2 (rq_td_size req) - 1)),
      Wr (TQ_ADDR1 qid) (lower_32_bits (rq_btsp_iova req)),
      Wr (TQ_NID1 qid) (push_bit 8 (rq_nid req AND 0xff) OR 1)])"

lemma h13_enqueue_eq:
  assumes "ANE_H13_TILE_COUNT \<le> length (rq_bar req)"
  shows "ane_h13_tm_enqueue req l = Some (0, l @ h13_enqueue_trace req)"
proof -
  let ?g = "\<lambda>bdx. [Wr (TQ_BAR1 (rq_qid req) bdx) (lower_32_bits (rq_bar req ! bdx))]"
  have "for_loop 0 ANE_H13_TILE_COUNT
      (\<lambda>bdx l. if bdx < length (rq_bar req)
         then Some (writel (lower_32_bits (rq_bar req ! bdx)) (TQ_BAR1 (rq_qid req) bdx) l) else None)
      (writel 0x1 (TQ_STATUS (rq_qid req)) l)
    = Some (writel 0x1 (TQ_STATUS (rq_qid req)) l @ concat (map ?g [0..<0 + ANE_H13_TILE_COUNT]))"
    by (rule for_loop_writes) (use assms in \<open>simp add: writel_def\<close>)
  moreover have "concat (map ?g xs) = map (\<lambda>bdx. Wr (TQ_BAR1 (rq_qid req) bdx)
      (lower_32_bits (rq_bar req ! bdx))) xs" for xs
    by (induction xs) auto
  ultimately show ?thesis
    by (simp only: ane_h13_tm_enqueue_def h13_enqueue_trace_def Let_def bind.bind_lunit)
      (simp add: writel_def)
qed

text \<open>Handling an interrupt reads event registers, never the status, and writes nothing but the
  acknowledgement.\<close>

lemma readl_snd: "snd (readl dev a (l @ map (\<lambda>(a, v). Rd a v) rs)) =
  l @ map (\<lambda>(a, v). Rd a v) (rs @ [(a, dev (l @ map (\<lambda>(a, v). Rd a v) rs) a)])"
  by (simp add: readl_def)

lemma irq_events_reads:
  "line < 2 \<Longrightarrow> \<exists>rs. irq_events dev line n l = l @ map (\<lambda>(a, v). Rd a v) rs \<and> TM_STATUS \<notin> fst ` set rs"
proof (induction dev line n l rule: irq_events.induct)
  case (1 dev line n l)
  obtain cnt l1 where c: "readl dev (TM_IRQ line 0x14) l = (cnt, l1)" by fastforce
  then have l1: "l1 = l @ map (\<lambda>(a, v). Rd a v) [(TM_IRQ line 0x14, cnt)]"
    by (auto simp: readl_def)
  show ?case
  proof (cases "n < cnt")
    case False
    with c have "irq_events dev line n l = l1" by (subst irq_events.simps) simp
    with l1 1(2) show ?thesis by (intro exI [of _ "[(TM_IRQ line 0x14, cnt)]"]) (simp add: tm_def)
  next
    case True
    define l5 where "l5 = snd (readl dev (TM_IRQ line 0x24) (snd (readl dev (TM_IRQ line 0x20)
      (snd (readl dev (TM_IRQ line 0x1c) (snd (readl dev (TM_IRQ line 0x18) l1)))))))"
    have eq: "irq_events dev line n l = irq_events dev line (n + 1) l5"
      using c True by (subst irq_events.simps) (simp add: l5_def)
    obtain rs where "irq_events dev line (n + 1) l5 = l5 @ map (\<lambda>(a, v). Rd a v) rs"
      and rs: "TM_STATUS \<notin> fst ` set rs"
      using 1(1) [OF c [symmetric] refl True refl refl refl refl 1(2)] unfolding l5_def by blast
    moreover obtain w x y z where l5: "l5 = l @ map (\<lambda>(a, v). Rd a v) [(TM_IRQ line 0x14, cnt),
        (TM_IRQ line 0x18, w), (TM_IRQ line 0x1c, x), (TM_IRQ line 0x20, y), (TM_IRQ line 0x24, z)]"
      unfolding l5_def l1 readl_snd append.simps by blast
    moreover obtain qs where "l5 = l @ map (\<lambda>(a, v). Rd a v) qs" and qs: "TM_STATUS \<notin> fst ` set qs"
      by (rule that [OF l5]) (use 1(2) in \<open>simp add: tm_def\<close>)
    ultimately have "irq_events dev line n l = l @ map (\<lambda>(a, v). Rd a v) (qs @ rs)"
      by (simp add: eq)
    with rs qs show ?thesis by (intro exI [of _ "qs @ rs"]) (simp add: image_Un)
  qed
qed

lemma writes_to_read_pairs [simp]: "writes_to a (map (\<lambda>(r, v). Rd r v) rs) = []"
  by (induction rs) auto

text \<open>Handling the interrupt acknowledges it once and writes no other register.\<close>

lemma handle_irq_trace:
  "\<exists>rs ack qs. ane_tm_handle_irq dev l =
     l @ map (\<lambda>(a, v). Rd a v) rs @ [Wr TM_IRQ_ACK (ack OR 2)] @ map (\<lambda>(a, v). Rd a v) qs \<and>
     TM_STATUS \<notin> fst ` set (rs @ qs)"
proof -
  obtain rs where rs: "irq_events dev 0 0 l = l @ map (\<lambda>(a, v). Rd a v) rs" "TM_STATUS \<notin> fst ` set rs"
    using irq_events_reads [of 0 dev 0 l] by auto
  define ack where "ack = dev (irq_events dev 0 0 l) TM_IRQ_ACK"
  define l3 where "l3 = l @ map (\<lambda>(a, v). Rd a v) (rs @ [(TM_IRQ_ACK, ack)]) @ [Wr TM_IRQ_ACK (ack OR 2)]"
  obtain qs where "irq_events dev 1 0 l3 = l3 @ map (\<lambda>(a, v). Rd a v) qs"
    and qs: "TM_STATUS \<notin> fst ` set qs"
    using irq_events_reads [of 1 dev 0 l3] by auto
  moreover have "ane_tm_handle_irq dev l = irq_events dev 1 0 l3"
    by (simp add: ane_tm_handle_irq_def readl_def writel_def ack_def l3_def rs Let_def)
  ultimately have "ane_tm_handle_irq dev l = l @ map (\<lambda>(a, v). Rd a v) (rs @ [(TM_IRQ_ACK, ack)]) @
      [Wr TM_IRQ_ACK (ack OR 2)] @ map (\<lambda>(a, v). Rd a v) qs"
    by (simp add: l3_def)
  moreover have "TM_STATUS \<notin> fst ` set ((rs @ [(TM_IRQ_ACK, ack)]) @ qs)"
    using rs(2) qs by (simp add: image_Un tm_def)
  ultimately show ?thesis by blast
qed

text \<open>An execution on the H13: the queue is pushed, the status polled until it is idle or the
  time is over, the interrupt handled and the queue disabled, whatever the outcome.\<close>

definition h13_push_trace :: "device \<Rightarrow> ane_request \<Rightarrow> access list \<Rightarrow> access list" where
  "h13_push_trace dev req l = (let qid = rq_qid req;
     addr = dev l (TQ_ADDR1 qid);
     l1 = l @ [Rd (TQ_ADDR1 qid) addr, Wr TM_ADDR addr];
     sz = dev l1 (TQ_SIZE1 qid)
   in [Rd (TQ_ADDR1 qid) addr, Wr TM_ADDR addr, Rd (TQ_SIZE1 qid) sz,
       Wr TM_INFO (sz OR rq_td_count req),
       Wr TM_PUSH (TQ_PRTY_TABLE ! qid OR push_bit 8 (of_nat qid AND 7))])"

lemma h13_execute_trace:
  assumes "poll_ok poll" and "rq_qid req < 8"
  shows "\<exists>vs st rs ack qs. ane_h13_tm_execute dev poll req l =
    Some (if st AND 1 \<noteq> 0 then 0 else - ETIMEDOUT,
      l @ h13_push_trace dev req l @ map (Rd TM_STATUS) (vs @ [st]) @ map (\<lambda>(a, v). Rd a v) rs @
        [Wr TM_IRQ_ACK (ack OR 2)] @ map (\<lambda>(a, v). Rd a v) qs @ [Wr (TQ_STATUS (rq_qid req)) 0]) \<and>
    TM_STATUS \<notin> fst ` set (rs @ qs)"
proof -
  have push: "ane_tm_push_tq dev req l = Some (l @ h13_push_trace dev req l)"
    using assms(2) by (simp add: ane_tm_push_tq_def h13_push_trace_def Let_def readl_def writel_def prty_some)
  let ?l1 = "l @ h13_push_trace dev req l"
  obtain vs st where st: "ane_tm_get_status poll ?l1 =
      (if st AND 1 \<noteq> 0 then 0 else - ETIMEDOUT, ?l1 @ map (Rd TM_STATUS) (vs @ [st]))"
    using poll_okD [OF assms(1)] unfolding ane_tm_get_status_def by blast
  obtain rs ack qs where "ane_tm_handle_irq dev (?l1 @ map (Rd TM_STATUS) (vs @ [st])) =
      (?l1 @ map (Rd TM_STATUS) (vs @ [st])) @ map (\<lambda>(a, v). Rd a v) rs @
        [Wr TM_IRQ_ACK (ack OR 2)] @ map (\<lambda>(a, v). Rd a v) qs"
    "TM_STATUS \<notin> fst ` set (rs @ qs)"
    using handle_irq_trace by blast
  with push st show ?thesis
    by (intro exI [of _ vs] exI [of _ st] exI [of _ rs] exI [of _ ack] exI [of _ qs])
      (simp add: ane_h13_tm_execute_def writel_def)
qed

definition h14_execute_trace :: "ane_request \<Rightarrow> access list" where
  "h14_execute_trace req =
    [Wr H14_TM_ADDR (lower_32_bits (rq_btsp_iova req)),
     Wr (H14_TM_ADDR + 4) (upper_32_bits (rq_btsp_iova req)),
     Wr H14_TM_UNK_08 (rq_td_size req), Wr (H14_TM_UNK_08 + 4) 0, Wr H14_TM_UNK_10 0x151,
     Wr H14_TM_UNK_14 (rq_td_count req), Wr H14_TM_PUSH 0]"

lemma half_words_of_u32 [simp]:
  "lower_32_bits (ucast (x :: u32)) = x" "upper_32_bits (ucast (x :: u32)) = 0"
proof -
  show "lower_32_bits (ucast x) = x"
    by (rule bit_eqI) (auto simp: lower_32_bits_def bit_simps)
  have "drop_bit 32 (ucast x :: u64) = 0"
    by (rule bit_eqI) (auto simp: bit_simps dest: bit_imp_le_length)
  then show "upper_32_bits (ucast x) = 0" by (simp add: upper_32_bits_def)
qed

text \<open>The two halves of an address make up the address.\<close>

lemma half_words_join: "ucast (lower_32_bits x) OR push_bit 32 (ucast (upper_32_bits x)) = x"
  by (rule bit_eqI) (auto simp: lower_32_bits_def upper_32_bits_def bit_simps)

lemma h14_execute_eq: "ane_h14_tm_execute req l = Some (0, l @ h14_execute_trace req)"
  by (simp add: ane_h14_tm_execute_def h14_execute_trace_def tm_write64_def writel_def Let_def)

section \<open>The contract of a task manager\<close>

text \<open>
  What the driver relies on: enqueueing does not start anything, an execution rings the
  doorbell \<open>push\<close> exactly once and reports success or an error, and both only add accesses.
\<close>

locale tm_backend =
  fixes bars :: nat and push :: nat
    and enqueue execute :: "ane_request \<Rightarrow> access list \<Rightarrow> (int \<times> access list) option"
  assumes enqueue: "tm_request bars req \<Longrightarrow>
      \<exists>xs. enqueue req l = Some (0, l @ xs) \<and> writes_to push xs = []"
    and execute: "tm_request bars req \<Longrightarrow>
      \<exists>e xs v. execute req l = Some (e, l @ xs) \<and> e \<le> 0 \<and> writes_to push xs = [v]"
begin

text \<open>Enqueue and execute in sequence, as the submission does it.\<close>

lemma run:
  assumes "tm_request bars req"
  obtains xs e ys v where "enqueue req l = Some (0, l @ xs)"
    "execute req (l @ xs) = Some (e, (l @ xs) @ ys)" "e \<le> 0" "writes_to push (xs @ ys) = [v]"
proof -
  obtain xs where xs: "enqueue req l = Some (0, l @ xs)" "writes_to push xs = []"
    using enqueue [OF assms] by blast
  obtain e ys v where "execute req (l @ xs) = Some (e, (l @ xs) @ ys)" "e \<le> 0"
    "writes_to push ys = [v]"
    using execute [OF assms] by blast
  with xs show thesis by (intro that [of xs e ys v]) simp_all
qed

end

lemma h13_enqueue_push: "writes_to TM_PUSH (h13_enqueue_trace req) = []"
proof -
  have "writes_to TM_PUSH (map (\<lambda>bdx. Wr (TQ_BAR1 q bdx) (f bdx)) xs) = []" for q f xs
    by (induction xs) (simp_all add: tm_def tq_def)
  then show ?thesis by (simp add: h13_enqueue_trace_def Let_def tm_def tq_def)
qed

text \<open>A device whose status is polled by \<open>readl_poll_timeout\<close>.\<close>

locale polled_device =
  fixes dev :: device and poll :: poller
  assumes poll: "poll_ok poll"

sublocale polled_device \<subseteq> h13: tm_backend ANE_H13_TILE_COUNT TM_PUSH ane_h13_tm_enqueue
  "ane_h13_tm_execute dev poll"
proof
  fix req l
  assume req: "tm_request ANE_H13_TILE_COUNT req"
  then show "\<exists>xs. ane_h13_tm_enqueue req l = Some (0, l @ xs) \<and> writes_to TM_PUSH xs = []"
    using h13_enqueue_eq h13_enqueue_push by (auto simp: tm_request_def)
  obtain vs st rs ack qs where "ane_h13_tm_execute dev poll req l =
    Some (if st AND 1 \<noteq> 0 then 0 else - ETIMEDOUT,
      l @ h13_push_trace dev req l @ map (Rd TM_STATUS) (vs @ [st]) @ map (\<lambda>(a, v). Rd a v) rs @
        [Wr TM_IRQ_ACK (ack OR 2)] @ map (\<lambda>(a, v). Rd a v) qs @ [Wr (TQ_STATUS (rq_qid req)) 0])"
    using h13_execute_trace [OF poll, of req dev l] req by (auto simp: tm_request_def)
  then show "\<exists>e xs v. ane_h13_tm_execute dev poll req l = Some (e, l @ xs) \<and> e \<le> 0 \<and>
      writes_to TM_PUSH xs = [v]"
    by (auto simp: h13_push_trace_def Let_def tm_def tq_def)
qed

text \<open>Polling with a bounded number of reads, the time counted in delays.\<close>

fun poll_reads :: "device \<Rightarrow> nat \<Rightarrow> nat \<Rightarrow> (u32 \<Rightarrow> bool) \<Rightarrow> access list \<Rightarrow> int \<times> access list" where
  "poll_reads dev 0 a cond l =
     (let (v, l1) = readl dev a l in (if cond v then 0 else - ETIMEDOUT, l1))"
| "poll_reads dev (Suc n) a cond l =
     (let (v, l1) = readl dev a l in if cond v then (0, l1) else poll_reads dev n a cond l1)"

definition poll_for :: "device \<Rightarrow> poller" where
  "poll_for dev a cond delay timeout l = poll_reads dev (timeout div delay) a cond l"

lemma poll_reads_ok:
  "\<exists>vs v. poll_reads dev n a cond l = (if cond v then 0 else - ETIMEDOUT, l @ map (Rd a) (vs @ [v]))"
proof (induction n arbitrary: l)
  case 0
  show ?case by (intro exI [of _ "[]"] exI [of _ "dev l a"]) (simp add: readl_def)
next
  case (Suc n)
  let ?v = "dev l a" and ?l1 = "l @ [Rd a (dev l a)]"
  show ?case
  proof (cases "cond ?v")
    case True
    then show ?thesis by (intro exI [of _ "[]"] exI [of _ ?v]) (simp add: readl_def)
  next
    case False
    obtain vs v where "poll_reads dev n a cond ?l1 =
        (if cond v then 0 else - ETIMEDOUT, ?l1 @ map (Rd a) (vs @ [v]))"
      using Suc by blast
    with False show ?thesis by (intro exI [of _ "?v # vs"] exI [of _ v]) (simp add: readl_def)
  qed
qed

interpretation bounded_poll: polled_device dev "poll_for dev" for dev
proof
  show "poll_ok (poll_for dev)"
    unfolding poll_ok_def
  proof (intro allI)
    fix a cond delay timeout l
    obtain vs v where "poll_for dev a cond delay timeout l =
        (if cond v then 0 else - ETIMEDOUT, l @ map (Rd a) (vs @ [v]))"
      unfolding poll_for_def using poll_reads_ok by blast
    then show "\<exists>vs v. snd (poll_for dev a cond delay timeout l) = l @ map (Rd a) (vs @ [v]) \<and>
        fst (poll_for dev a cond delay timeout l) = (if cond v then 0 else - ETIMEDOUT)"
      by (intro exI [of _ vs] exI [of _ v]) simp
  qed
qed

interpretation h14: tm_backend ANE_MAX_TILE_COUNT H14_TM_PUSH ane_h14_tm_enqueue ane_h14_tm_execute
  by unfold_locales (simp_all add: ane_h14_tm_enqueue_def h14_execute_eq h14_execute_trace_def)

section \<open>Values the registers receive\<close>

text \<open>The size and the count share a register: the size of the first descriptor, in words less
  one, above the number of descriptors.\<close>

lemma tm_info_value:
  assumes size: "4 \<le> unat td_size" "unat td_size < 2 ^ 18" and count: "unat td_count < 2 ^ 16"
  shows "unat (push_bit 0x10 (drop_bit 2 td_size - 1) OR td_count :: u32) =
    (unat td_size div 4 - 1) * 2 ^ 16 + unat td_count"
proof -
  have d: "unat (drop_bit 2 td_size) = unat td_size div 4"
    unfolding unat_drop_bit_eq by (simp add: drop_bit_eq_div)
  then have "1 \<le> unat (drop_bit 2 td_size)" unfolding d using size(1) by linarith
  then have w: "unat (drop_bit 2 td_size - 1) = unat td_size div 4 - 1"
    using d by (simp add: unat_sub_if')
  have small: "unat td_size div 4 - 1 < 2 ^ 16" using size by simp
  have hi: "unat (push_bit 0x10 (drop_bit 2 td_size - 1)) = (unat td_size div 4 - 1) * 2 ^ 16"
  proof -
    have "push_bit 0x10 (drop_bit 2 td_size - 1) = (drop_bit 2 td_size - 1) * 2 ^ 16"
      by (simp add: push_bit_eq_mult)
    moreover have "unat ((drop_bit 2 td_size - 1) * 2 ^ 16) =
        unat (drop_bit 2 td_size - 1) * unat (2 ^ 16 :: u32)"
      by (rule unat_mult_less) (use small in \<open>simp add: w\<close>)
    ultimately show ?thesis by (simp add: w)
  qed
  have "push_bit 0x10 (drop_bit 2 td_size - 1) OR td_count =
      push_bit 0x10 (drop_bit 2 td_size - 1) + td_count"
  proof (rule disjunctive_add [symmetric])
    fix n
    have "\<not> bit td_count n" if "16 \<le> n"
    proof -
      have "td_count = take_bit 16 td_count"
        using count by (intro word_unat_eq_iff [THEN iffD2])
          (simp add: unsigned_take_bit_eq take_bit_nat_eq_self)
      then have "bit td_count n = bit (take_bit 16 td_count) n" by simp
      with that show ?thesis by (simp add: bit_simps)
    qed
    then show "\<not> bit (push_bit 0x10 (drop_bit 2 td_size - 1)) n \<or> \<not> bit td_count n"
      by (auto simp: bit_simps)
  qed
  then show ?thesis
    using small count by (simp add: unat_plus_less hi)
qed

end
