(* ===== verification/Drv_Submit.thy ===== *)
theory Drv_Submit
  imports Drv_Gem Drv_Tm
begin

text \<open>
  The submission ioctl \<open>ane_submit\<close> of \<open>ane_drv.c\<close>, the hardware descriptions
  \<open>ane_hw_h13\<close> and \<open>ane_hw_h14\<close>, and \<open>ane_info\<close>. The specification \<open>submit_valid\<close> and
  \<open>spec_request\<close> says which submissions are accepted and what the engine is given, by
  resolving the handles once instead of in the loop over the registers.
\<close>

section \<open>Hardware generations\<close>

datatype drm_ane_id =
  DRM_ANE_ID_M9 | DRM_ANE_ID_H11 | DRM_ANE_ID_T0 | DRM_ANE_ID_H12 | DRM_ANE_ID_H13
| DRM_ANE_ID_H14 | DRM_ANE_ID_H15

fun ane_id_value :: "drm_ane_id \<Rightarrow> nat" where
  "ane_id_value DRM_ANE_ID_M9 = 0"
| "ane_id_value DRM_ANE_ID_H11 = 1"
| "ane_id_value DRM_ANE_ID_T0 = 2"
| "ane_id_value DRM_ANE_ID_H12 = 3"
| "ane_id_value DRM_ANE_ID_H13 = 4"
| "ane_id_value DRM_ANE_ID_H14 = 5"
| "ane_id_value DRM_ANE_ID_H15 = 6"

lemma ane_id_value_inj: "ane_id_value a = ane_id_value b \<Longrightarrow> a = b"
  by (cases a; cases b) simp_all

text \<open>Generations are compared by their number.\<close>

instantiation drm_ane_id :: linorder
begin

definition less_eq_drm_ane_id :: "drm_ane_id \<Rightarrow> drm_ane_id \<Rightarrow> bool" where
  "less_eq_drm_ane_id a b \<longleftrightarrow> ane_id_value a \<le> ane_id_value b"

definition less_drm_ane_id :: "drm_ane_id \<Rightarrow> drm_ane_id \<Rightarrow> bool" where
  "less_drm_ane_id a b \<longleftrightarrow> ane_id_value a < ane_id_value b"

instance
  by standard (auto simp: less_eq_drm_ane_id_def less_drm_ane_id_def intro: ane_id_value_inj)

end

record ane_hw =
  hw_vm_base :: u64
  hw_vm_size :: u64
  hw_id :: drm_ane_id
  hw_bar_count :: u32
  hw_tm_enable :: "access list \<Rightarrow> access list option"
  hw_tm_enqueue :: "ane_request \<Rightarrow> access list \<Rightarrow> (int \<times> access list) option"
  hw_tm_execute :: "ane_request \<Rightarrow> access list \<Rightarrow> (int \<times> access list) option"

definition ane_hw_h13 :: "device \<Rightarrow> poller \<Rightarrow> ane_hw" where
  "ane_hw_h13 dev poll = \<lparr>hw_vm_base = 0x4000, hw_vm_size = 0xe0000000, hw_id = DRM_ANE_ID_H13,
     hw_bar_count = 0x20, hw_tm_enable = ane_h13_tm_enable dev,
     hw_tm_enqueue = ane_h13_tm_enqueue, hw_tm_execute = ane_h13_tm_execute dev poll\<rparr>"

definition ane_hw_h14 :: "device \<Rightarrow> ane_hw" where
  "ane_hw_h14 dev = \<lparr>hw_vm_base = 0x4000, hw_vm_size = 0xF00000000, hw_id = DRM_ANE_ID_H14,
     hw_bar_count = 0x61, hw_tm_enable = ane_h14_tm_enable dev,
     hw_tm_enqueue = ane_h14_tm_enqueue, hw_tm_execute = ane_h14_tm_execute\<rparr>"

definition ane_info :: "ane_hw \<Rightarrow> u32" where
  "ane_info hw = of_nat (ane_id_value (hw_id hw))"

section \<open>The ioctl\<close>

record submit_args =
  s_tsk_size :: u64
  s_td_count :: u32
  s_td_size :: u32
  s_handles :: "u32 list"
  s_btsp_handle :: u32
  s_pad :: u32

abbreviation CMD_BUF_BDX :: nat where "CMD_BUF_BDX \<equiv> 0"
abbreviation KRN_BUF_BDX :: nat where "KRN_BUF_BDX \<equiv> 1"
abbreviation ANE_CMD_GRAN :: u64 where "ANE_CMD_GRAN \<equiv> 0x10"
abbreviation ANE_FIFO_NID :: u32 where "ANE_FIFO_NID \<equiv> 0x40"

text \<open>\<open>handles\<close> is an array of \<open>ANE_MAX_TILE_COUNT\<close> entries.\<close>

definition args_shape :: "submit_args \<Rightarrow> bool" where
  "args_shape args \<longleftrightarrow> length (s_handles args) = ANE_MAX_TILE_COUNT"

text \<open>The first checks of \<open>ane_submit\<close>.\<close>

definition submit_refused :: "submit_args \<Rightarrow> bool" where
  "submit_refused args \<longleftrightarrow>
     s_pad args \<noteq> 0 \<or> s_tsk_size args = 0 \<or> s_td_count args = 0 \<or> s_td_size args = 0 \<or>
     s_handles args ! CMD_BUF_BDX = 0 \<or> s_handles args ! KRN_BUF_BDX \<noteq> 0 \<or>
     s_btsp_handle args = 0"

text \<open>\<open>ane->hw->id <= DRM_ANE_ID_H13 && upper_32_bits(bo->iova)\<close>\<close>

definition iova_too_high :: "ane_hw \<Rightarrow> u64 \<Rightarrow> bool" where
  "iova_too_high hw iova \<longleftrightarrow> hw_id hw \<le> DRM_ANE_ID_H13 \<and> upper_32_bits iova \<noteq> 0"

text \<open>One iteration over the registers: an error, or the registers so far.\<close>

definition submit_bar :: "'k kapi \<Rightarrow> ane_hw \<Rightarrow> nat \<Rightarrow> (nat \<rightharpoonup> ane_bo) \<Rightarrow> submit_args \<Rightarrow> nat \<Rightarrow>
    u64 list \<Rightarrow> 'k \<Rightarrow> ((int + u64 list) \<times> 'k) option" where
  "submit_bar K hw shift bos args bdx bars k =
     (if \<not> (bdx < length (s_handles args) \<and> bdx < length bars) then None
      else let handle = s_handles args ! bdx in
        if handle = 0 then Some (Inr bars, k)
        else case k_lookup K handle k of
            (None, k1) \<Rightarrow> Some (Inl (- EINVAL), k1)
          | (Some b, k1) \<Rightarrow> Option.bind (bos b) (\<lambda>bo.
              if bo_iova bo = 0 then Some (Inl (- EINVAL), k1)
              else if bdx = CMD_BUF_BDX \<and> 32 \<le> shift then None
              else if bdx = CMD_BUF_BDX \<and> ucast (bo_bytes shift (bo_npages bo)) \<le> s_tsk_size args
              then Some (Inl (- EINVAL), k1)
              else if iova_too_high hw (bo_iova bo) then Some (Inl (- EINVAL), k1)
              else Some (Inr (bars[bdx := bo_iova bo]), k1)))"

fun submit_bars :: "'k kapi \<Rightarrow> ane_hw \<Rightarrow> nat \<Rightarrow> (nat \<rightharpoonup> ane_bo) \<Rightarrow> submit_args \<Rightarrow> nat \<Rightarrow> nat \<Rightarrow>
    u64 list \<Rightarrow> 'k \<Rightarrow> ((int + u64 list) \<times> 'k) option" where
  "submit_bars K hw shift bos args bdx 0 bars k = Some (Inr bars, k)"
| "submit_bars K hw shift bos args bdx (Suc n) bars k =
     Option.bind (submit_bar K hw shift bos args bdx bars k) (\<lambda>(r, k1).
       case r of Inl err \<Rightarrow> Some (Inl err, k1)
       | Inr bars1 \<Rightarrow> submit_bars K hw shift bos args (Suc bdx) n bars1 k1)"

definition lock_engine :: "'k drv \<Rightarrow> 'k drv option" where
  "lock_engine s = (if d_engine_lock s then None else Some (s\<lparr>d_engine_lock := True\<rparr>))"

definition unlock_engine :: "'k drv \<Rightarrow> 'k drv option" where
  "unlock_engine s = (if d_engine_lock s then Some (s\<lparr>d_engine_lock := False\<rparr>) else None)"

text \<open>The part under the engine lock.\<close>

definition submit_run :: "ane_hw \<Rightarrow> ane_request \<Rightarrow> 'k drv \<Rightarrow> access list \<Rightarrow> (int \<times> 'k drv \<times> access list) option" where
  "submit_run hw req s l = do {
     s1 \<leftarrow> lock_engine s;
     (err, l1) \<leftarrow> hw_tm_enqueue hw req l;
     (err2, l2) \<leftarrow> if err < 0 then Some (err, l1) else hw_tm_execute hw req l1;
     s2 \<leftarrow> unlock_engine s1;
     Some (err2, s2, l2) }"

definition ane_submit :: "'k kapi \<Rightarrow> ane_hw \<Rightarrow> nat \<Rightarrow> submit_args \<Rightarrow> 'k drv \<Rightarrow> access list \<Rightarrow>
    (int \<times> 'k drv \<times> access list) option" where
  "ane_submit K hw shift args s l =
     (if submit_refused args then Some (- EINVAL, s, l)
      else Option.bind (submit_bars K hw shift (d_bos s) args 0 (unat (hw_bar_count hw))
             (replicate ANE_MAX_TILE_COUNT 0) (d_kern s)) (\<lambda>(r, k1).
        case r of
          Inl err \<Rightarrow> Some (err, put_kern k1 s, l)
        | Inr bars \<Rightarrow>
            let bars1 = bars[KRN_BUF_BDX :=
                  bars ! CMD_BUF_BDX + round_up (s_tsk_size args) ANE_CMD_GRAN]
            in case k_lookup K (s_btsp_handle args) k1 of
                (None, k2) \<Rightarrow> Some (- EINVAL, put_kern k2 s, l)
              | (Some b, k2) \<Rightarrow> Option.bind (d_bos s b) (\<lambda>bo.
                  if iova_too_high hw (bo_iova bo) then Some (- EINVAL, put_kern k2 s, l)
                  else submit_run hw
                    \<lparr>rq_qid = 4, rq_nid = ANE_FIFO_NID, rq_td_size = s_td_size args,
                     rq_td_count = s_td_count args, rq_btsp_iova = bo_iova bo, rq_bar = bars1\<rparr>
                    (put_kern k2 s) l)))"

section \<open>Specification\<close>

text \<open>The object a handle names.\<close>

definition handle_bo :: "kview \<Rightarrow> (nat \<rightharpoonup> ane_bo) \<Rightarrow> u32 \<Rightarrow> ane_bo option" where
  "handle_bo v bos h = Option.bind (v_handles v h) bos"

text \<open>A handle that may be given for a register.\<close>

definition bar_valid :: "ane_hw \<Rightarrow> nat \<Rightarrow> kview \<Rightarrow> (nat \<rightharpoonup> ane_bo) \<Rightarrow> submit_args \<Rightarrow> nat \<Rightarrow> bool" where
  "bar_valid hw shift v bos args bdx \<longleftrightarrow> s_handles args ! bdx = 0 \<or>
     (case handle_bo v bos (s_handles args ! bdx) of None \<Rightarrow> False
      | Some bo \<Rightarrow> bo_iova bo \<noteq> 0 \<and> \<not> iova_too_high hw (bo_iova bo) \<and>
          (bdx = CMD_BUF_BDX \<longrightarrow> unat (s_tsk_size args) < unat (bo_npages bo) * 2 ^ shift))"

definition submit_valid :: "ane_hw \<Rightarrow> nat \<Rightarrow> kview \<Rightarrow> (nat \<rightharpoonup> ane_bo) \<Rightarrow> submit_args \<Rightarrow> bool" where
  "submit_valid hw shift v bos args \<longleftrightarrow> \<not> submit_refused args \<and>
     (\<forall>bdx < unat (hw_bar_count hw). bar_valid hw shift v bos args bdx) \<and>
     (case handle_bo v bos (s_btsp_handle args) of None \<Rightarrow> False
      | Some bo \<Rightarrow> \<not> iova_too_high hw (bo_iova bo))"

text \<open>The address a register is given for its handle.\<close>

definition handle_iova :: "kview \<Rightarrow> (nat \<rightharpoonup> ane_bo) \<Rightarrow> u32 \<Rightarrow> u64" where
  "handle_iova v bos h =
     (if h = 0 then 0 else case handle_bo v bos h of None \<Rightarrow> 0 | Some bo \<Rightarrow> bo_iova bo)"

text \<open>The weights follow the commands at the next multiple of 16 bytes.\<close>

definition spec_bar :: "ane_hw \<Rightarrow> kview \<Rightarrow> (nat \<rightharpoonup> ane_bo) \<Rightarrow> submit_args \<Rightarrow> nat \<Rightarrow> u64" where
  "spec_bar hw v bos args bdx =
     (if bdx = KRN_BUF_BDX
      then handle_iova v bos (s_handles args ! CMD_BUF_BDX) + round_up (s_tsk_size args) ANE_CMD_GRAN
      else if bdx < unat (hw_bar_count hw) then handle_iova v bos (s_handles args ! bdx) else 0)"

definition spec_request :: "ane_hw \<Rightarrow> kview \<Rightarrow> (nat \<rightharpoonup> ane_bo) \<Rightarrow> submit_args \<Rightarrow> ane_request" where
  "spec_request hw v bos args =
     \<lparr>rq_qid = 4, rq_nid = ANE_FIFO_NID, rq_td_size = s_td_size args, rq_td_count = s_td_count args,
      rq_btsp_iova = handle_iova v bos (s_btsp_handle args),
      rq_bar = map (spec_bar hw v bos args) [0..<ANE_MAX_TILE_COUNT]\<rparr>"

section \<open>The loop meets the specification\<close>

text \<open>The registers after the first \<open>n\<close> iterations.\<close>

definition bars_upto :: "kview \<Rightarrow> (nat \<rightharpoonup> ane_bo) \<Rightarrow> submit_args \<Rightarrow> nat \<Rightarrow> u64 list" where
  "bars_upto v bos args n =
     map (\<lambda>i. if i < n then handle_iova v bos (s_handles args ! i) else 0) [0..<ANE_MAX_TILE_COUNT]"

lemma length_bars_upto [simp]: "length (bars_upto v bos args n) = ANE_MAX_TILE_COUNT"
  by (simp add: bars_upto_def)

lemma bars_upto_0: "bars_upto v bos args 0 = replicate ANE_MAX_TILE_COUNT 0"
  by (rule nth_equalityI) (simp_all add: bars_upto_def)

lemma bars_upto_Suc:
  assumes "n < ANE_MAX_TILE_COUNT"
  shows "bars_upto v bos args (Suc n) = (bars_upto v bos args n)[n := handle_iova v bos (s_handles args ! n)]"
  by (rule nth_equalityI) (use assms in \<open>auto simp: bars_upto_def nth_list_update less_Suc_eq\<close>)

lemma bars_upto_skip:
  assumes "n < ANE_MAX_TILE_COUNT" and "s_handles args ! n = 0"
  shows "bars_upto v bos args (Suc n) = bars_upto v bos args n"
  by (rule nth_equalityI) (use assms in \<open>auto simp: bars_upto_def less_Suc_eq handle_iova_def\<close>)

text \<open>The references a lookup of handle \<open>h\<close> takes, and those of the first \<open>n\<close> iterations.\<close>

definition lookup_refs :: "kview \<Rightarrow> u32 \<Rightarrow> nat \<Rightarrow> nat" where
  "lookup_refs v h b = (if h \<noteq> 0 \<and> v_handles v h = Some b then 1 else 0)"

definition bars_refs :: "kview \<Rightarrow> submit_args \<Rightarrow> nat \<Rightarrow> nat \<Rightarrow> nat" where
  "bars_refs v args n b = (\<Sum>i<n. lookup_refs v (s_handles args ! i) b)"

lemma bars_refs_simps [simp]:
  "bars_refs v args 0 b = 0"
  "bars_refs v args (Suc n) b = bars_refs v args n b + lookup_refs v (s_handles args ! n) b"
  by (simp_all add: bars_refs_def)

lemma same_resources_refl [simp]: "same_resources v v"
  by (simp add: same_resources_fields)

lemma tsk_size_check:
  assumes "bo_ok lo hi shift v bo"
  shows "ucast (bo_bytes shift (bo_npages bo)) \<le> tsk_size \<longleftrightarrow>
    \<not> unat (tsk_size :: u64) < unat (bo_npages bo) * 2 ^ shift"
proof -
  have "unat (bo_bytes shift (bo_npages bo)) = unat (bo_npages bo) * 2 ^ shift"
    by (rule bo_bytes_eq) (use assms in \<open>auto simp: bo_ok_def\<close>)
  then show ?thesis by (simp add: word_le_nat_alt not_less)
qed

context drm_kernel
begin

lemma lookup_ok:
  assumes inv: "bos_inv lo hi shift bos v" and same: "same_resources v (view k)"
  obtains k1 where "k_lookup K h k = (v_handles v h, k1)" "same_resources v (view k1)"
    "v_handles v h = None \<or> (\<exists>b bo. v_handles v h = Some b \<and> bos b = Some bo \<and>
      handle_bo v bos h = Some bo \<and> bo_ok lo hi shift v bo)"
    "\<And>b. h \<noteq> 0 \<Longrightarrow> v_refs (view k1) b = v_refs (view k) b + lookup_refs v h b"
proof -
  obtain p k1 where l: "k_lookup K h k = (p, k1)" by fastforce
  note law = lookup [OF l]
  have p: "p = v_handles v h" using law same by (simp add: same_resources_fields)
  have "same_resources v (view k1)"
    using law same by (auto simp: same_resources_fields split: option.splits)
  moreover have "v_handles v h = None \<or> (\<exists>b bo. v_handles v h = Some b \<and> bos b = Some bo \<and>
      handle_bo v bos h = Some bo \<and> bo_ok lo hi shift v bo)"
  proof (cases "v_handles v h")
    case None
    then show ?thesis by simp
  next
    case (Some b)
    then obtain bo where "bos b = Some bo" using inv_handles [OF inv Some] by auto
    with Some inv_bo [OF inv] show ?thesis by (auto simp: handle_bo_def)
  qed
  moreover have "v_refs (view k1) b = v_refs (view k) b + lookup_refs v h b" if "h \<noteq> 0" for b
    using law p that by (auto simp: lookup_refs_def split: option.splits)
  ultimately show thesis using that l p by blast
qed

lemma submit_bar_ok:
  assumes inv: "bos_inv lo hi shift bos v" and same: "same_resources v (view k)"
    and shift: "shift < 32" and shape: "args_shape args" and bdx: "bdx < ANE_MAX_TILE_COUNT"
  shows "\<exists>k1. submit_bar K hw shift bos args bdx (bars_upto v bos args bdx) k =
      Some (if bar_valid hw shift v bos args bdx then Inr (bars_upto v bos args (Suc bdx))
            else Inl (- EINVAL), k1) \<and> same_resources v (view k1) \<and>
    (bar_valid hw shift v bos args bdx \<longrightarrow>
      (\<forall>b. v_refs (view k1) b = v_refs (view k) b + lookup_refs v (s_handles args ! bdx) b))"
proof -
  let ?h = "s_handles args ! bdx"
  have range: "bdx < length (s_handles args)" "bdx < length (bars_upto v bos args bdx)"
    using shape bdx by (simp_all add: args_shape_def)
  show ?thesis
  proof (cases "?h = 0")
    case True
    with range same bars_upto_skip [OF bdx True, of v bos] show ?thesis
      by (simp add: submit_bar_def bar_valid_def lookup_refs_def)
  next
    case False
    obtain k1 where l: "k_lookup K ?h k = (v_handles v ?h, k1)" "same_resources v (view k1)"
      and r: "v_handles v ?h = None \<or> (\<exists>b bo. v_handles v ?h = Some b \<and> bos b = Some bo \<and>
        handle_bo v bos ?h = Some bo \<and> bo_ok lo hi shift v bo)"
      and refs: "\<And>b. ?h \<noteq> 0 \<Longrightarrow> v_refs (view k1) b = v_refs (view k) b + lookup_refs v ?h b"
      using lookup_ok [OF inv same] by blast
    from r show ?thesis
    proof
      assume none: "v_handles v ?h = None"
      then have "\<not> bar_valid hw shift v bos args bdx"
        using False by (simp add: bar_valid_def handle_bo_def)
      with none False l range show ?thesis by (simp add: submit_bar_def Let_def)
    next
      assume "\<exists>b bo. v_handles v ?h = Some b \<and> bos b = Some bo \<and>
        handle_bo v bos ?h = Some bo \<and> bo_ok lo hi shift v bo"
      then obtain b bo where bo: "v_handles v ?h = Some b" "bos b = Some bo"
        "handle_bo v bos ?h = Some bo" "bo_ok lo hi shift v bo" by blast
      have iova: "handle_iova v bos ?h = bo_iova bo" using bo False by (simp add: handle_iova_def)
      have valid: "bar_valid hw shift v bos args bdx \<longleftrightarrow> bo_iova bo \<noteq> 0 \<and>
          \<not> iova_too_high hw (bo_iova bo) \<and>
          \<not> (bdx = 0 \<and> ucast (bo_bytes shift (bo_npages bo)) \<le> s_tsk_size args)"
        using False bo tsk_size_check [OF bo(4), of "s_tsk_size args"]
        by (auto simp: bar_valid_def)
      have eq: "submit_bar K hw shift bos args bdx (bars_upto v bos args bdx) k =
          Some (if bar_valid hw shift v bos args bdx
                then Inr ((bars_upto v bos args bdx)[bdx := bo_iova bo]) else Inl (- EINVAL), k1)"
        unfolding valid using range l bo False shift
        by (simp add: submit_bar_def Let_def)
      show ?thesis
        unfolding eq bars_upto_Suc [OF bdx] iova using l(2) refs False by blast
    qed
  qed
qed

lemma submit_bars_ok:
  assumes inv: "bos_inv lo hi shift bos v" and same: "same_resources v (view k)"
    and shift: "shift < 32" and shape: "args_shape args" and n: "bdx + n \<le> ANE_MAX_TILE_COUNT"
  shows "\<exists>k1. submit_bars K hw shift bos args bdx n (bars_upto v bos args bdx) k =
      Some (if \<forall>i. bdx \<le> i \<longrightarrow> i < bdx + n \<longrightarrow> bar_valid hw shift v bos args i
            then Inr (bars_upto v bos args (bdx + n)) else Inl (- EINVAL), k1) \<and>
    same_resources v (view k1) \<and>
    ((\<forall>i. bdx \<le> i \<longrightarrow> i < bdx + n \<longrightarrow> bar_valid hw shift v bos args i) \<longrightarrow>
      (\<forall>b. v_refs (view k1) b + bars_refs v args bdx b = v_refs (view k) b + bars_refs v args (bdx + n) b))"
  using same n
proof (induction n arbitrary: bdx k)
  case 0
  then show ?case by simp
next
  case (Suc n)
  then have bdx: "bdx < ANE_MAX_TILE_COUNT" by simp
  let ?ok = "\<lambda>a n. \<forall>i. a \<le> i \<longrightarrow> i < a + n \<longrightarrow> bar_valid hw shift v bos args i"
  have split: "?ok bdx (Suc n) \<longleftrightarrow> bar_valid hw shift v bos args bdx \<and> ?ok (Suc bdx) n"
    by (auto simp: le_eq_less_or_eq [of bdx] Suc_le_eq)
  obtain k1 where k1: "submit_bar K hw shift bos args bdx (bars_upto v bos args bdx) k =
      Some (if bar_valid hw shift v bos args bdx then Inr (bars_upto v bos args (Suc bdx))
            else Inl (- EINVAL), k1)" "same_resources v (view k1)"
    "bar_valid hw shift v bos args bdx \<longrightarrow>
      (\<forall>b. v_refs (view k1) b = v_refs (view k) b + lookup_refs v (s_handles args ! bdx) b)"
    using submit_bar_ok [OF inv Suc.prems(1) shift shape bdx] by blast
  show ?case
  proof (cases "bar_valid hw shift v bos args bdx")
    case False
    then have "\<not> ?ok bdx (Suc n)" using split by blast
    with False k1 show ?thesis by (auto simp: split)
  next
    case True
    have "Suc bdx + n \<le> ANE_MAX_TILE_COUNT" using Suc.prems(2) by simp
    from Suc.IH [OF k1(2) this] obtain k2 where
      k2: "submit_bars K hw shift bos args (Suc bdx) n (bars_upto v bos args (Suc bdx)) k1 =
        Some (if ?ok (Suc bdx) n then Inr (bars_upto v bos args (Suc bdx + n)) else Inl (- EINVAL), k2)"
      "same_resources v (view k2)"
      "?ok (Suc bdx) n \<longrightarrow> (\<forall>b. v_refs (view k2) b + bars_refs v args (Suc bdx) b =
        v_refs (view k1) b + bars_refs v args (Suc bdx + n) b)" by blast
    have run: "submit_bars K hw shift bos args bdx (Suc n) (bars_upto v bos args bdx) k =
        Some (if ?ok (Suc bdx) n then Inr (bars_upto v bos args (bdx + Suc n)) else Inl (- EINVAL), k2)"
      using True k1(1) k2(1) by simp
    have eq: "?ok bdx (Suc n) = ?ok (Suc bdx) n" using split True by blast
    have refs: "v_refs (view k2) b + bars_refs v args bdx b =
        v_refs (view k) b + bars_refs v args (bdx + Suc n) b" if "?ok (Suc bdx) n" for b
      using k2(3) that k1(3) True by (auto dest: spec [of _ b])
    show ?thesis unfolding eq using run k2(2) refs by blast
  qed
qed

end

section \<open>The submission as a whole\<close>

text \<open>The registers the loop leaves, with the second replaced.\<close>

lemma final_bars:
  assumes "unat (hw_bar_count hw) \<le> ANE_MAX_TILE_COUNT" and "0 < unat (hw_bar_count hw)"
  shows "(bars_upto v bos args (unat (hw_bar_count hw)))[KRN_BUF_BDX :=
      bars_upto v bos args (unat (hw_bar_count hw)) ! CMD_BUF_BDX + round_up (s_tsk_size args) ANE_CMD_GRAN]
    = map (spec_bar hw v bos args) [0..<ANE_MAX_TILE_COUNT]"
  by (rule nth_equalityI) (use assms in \<open>auto simp: bars_upto_def spec_bar_def nth_list_update\<close>)

text \<open>The number of address registers of a generation and its doorbell.\<close>

definition hw_ok :: "ane_hw \<Rightarrow> nat \<Rightarrow> bool" where
  "hw_ok hw push \<longleftrightarrow> 0 < unat (hw_bar_count hw) \<and> unat (hw_bar_count hw) \<le> ANE_MAX_TILE_COUNT \<and>
     tm_backend (unat (hw_bar_count hw)) push (hw_tm_enqueue hw) (hw_tm_execute hw)"

context polled_device
begin

lemma h13_hw_ok: "hw_ok (ane_hw_h13 dev poll) TM_PUSH"
  using h13.tm_backend_axioms by (simp add: hw_ok_def ane_hw_h13_def)

end

lemma hw_ok_h13: "poll_ok poll \<Longrightarrow> hw_ok (ane_hw_h13 dev poll) TM_PUSH"
  by (rule polled_device.h13_hw_ok) (rule polled_device.intro)

lemma hw_ok_h14: "hw_ok (ane_hw_h14 dev) H14_TM_PUSH"
  using h14.tm_backend_axioms by (simp add: hw_ok_def ane_hw_h14_def)

text \<open>The accesses of a run: enqueue, then execute.\<close>

lemma submit_run_ok:
  assumes hw: "hw_ok hw push" and lock: "\<not> d_engine_lock s" and qid: "rq_qid req < ANE_TQ_COUNT"
    and bars: "length (rq_bar req) = ANE_MAX_TILE_COUNT"
  shows "\<exists>xs e ys v. hw_tm_enqueue hw req l = Some (0, l @ xs) \<and>
    hw_tm_execute hw req (l @ xs) = Some (e, l @ xs @ ys) \<and>
    submit_run hw req s l = Some (e, s, l @ xs @ ys) \<and> e \<le> 0 \<and> writes_to push (xs @ ys) = [v]"
proof -
  have req: "tm_request (unat (hw_bar_count hw)) req"
    using hw qid bars by (simp add: tm_request_def hw_ok_def)
  obtain xs e ys v where run: "hw_tm_enqueue hw req l = Some (0, l @ xs)"
    "hw_tm_execute hw req (l @ xs) = Some (e, (l @ xs) @ ys)" "e \<le> 0" "writes_to push (xs @ ys) = [v]"
    using tm_backend.run [OF _ req] hw unfolding hw_ok_def by metis
  have "s\<lparr>d_engine_lock := False\<rparr> = s" using lock by simp
  then have "submit_run hw req s l = Some (e, s, l @ xs @ ys)"
    using run lock by (simp add: submit_run_def lock_engine_def unlock_engine_def)
  with run show ?thesis by auto
qed

text \<open>The references a submission takes to the objects it names.\<close>

definition submit_refs :: "ane_hw \<Rightarrow> kview \<Rightarrow> submit_args \<Rightarrow> nat \<Rightarrow> nat" where
  "submit_refs hw v args b =
     bars_refs v args (unat (hw_bar_count hw)) b + lookup_refs v (s_btsp_handle args) b"

context drm_kernel
begin

lemma ane_submit_ok:
  assumes inv: "drv_inv view lo hi shift s" and shift: "shift < 32" and hw: "hw_ok hw push"
    and lock: "\<not> d_engine_lock s" and shape: "args_shape args"
  shows "\<exists>e s1 l1. ane_submit K hw shift args s l = Some (e, s1, l1) \<and>
    drv_inv view lo hi shift s1 \<and> same_locks s s1 \<and> d_bos s1 = d_bos s \<and>
    same_resources (view (d_kern s)) (view (d_kern s1)) \<and>
    (if submit_valid hw shift (view (d_kern s)) (d_bos s) args
     then let req = spec_request hw (view (d_kern s)) (d_bos s) args in
       e \<le> 0 \<and> (\<exists>xs ys v. hw_tm_enqueue hw req l = Some (0, l @ xs) \<and>
         hw_tm_execute hw req (l @ xs) = Some (e, l1) \<and> l1 = l @ xs @ ys \<and>
         writes_to push (xs @ ys) = [v]) \<and>
       (\<forall>b. v_refs (view (d_kern s1)) b =
          v_refs (view (d_kern s)) b + submit_refs hw (view (d_kern s)) args b)
     else e = - EINVAL \<and> l1 = l)"
proof -
  let ?v = "view (d_kern s)" and ?bos = "d_bos s" and ?n = "unat (hw_bar_count hw)"
  have bos: "bos_inv lo hi shift ?bos ?v" and iommu: "\<not> d_iommu_lock s"
    using inv by (simp_all add: drv_inv_def)
  have keep: "drv_inv view lo hi shift (put_kern k s)" if "same_resources ?v (view k)" for k
    using that inv bos_inv_same_resources [OF that] by (simp add: drv_inv_def)
  have n: "0 + ?n \<le> ANE_MAX_TILE_COUNT" "0 < ?n" "?n \<le> ANE_MAX_TILE_COUNT"
    using hw by (simp_all add: hw_ok_def)
  show ?thesis
  proof (cases "submit_refused args")
    case True
    with inv show ?thesis by (simp add: ane_submit_def submit_valid_def)
  next
    case False
    have "\<exists>k1. submit_bars K hw shift ?bos args 0 ?n (replicate ANE_MAX_TILE_COUNT 0) (d_kern s) =
        Some (if \<forall>i < ?n. bar_valid hw shift ?v ?bos args i
              then Inr (bars_upto ?v ?bos args ?n) else Inl (- EINVAL), k1) \<and>
      same_resources ?v (view k1) \<and>
      ((\<forall>i < ?n. bar_valid hw shift ?v ?bos args i) \<longrightarrow>
        (\<forall>b. v_refs (view k1) b = v_refs ?v b + bars_refs ?v args ?n b))"
      using submit_bars_ok [OF bos same_resources_refl shift shape n(1), of hw]
      unfolding bars_upto_0 add_0 bars_refs_simps add_0_right by (simp only: le0 simp_thms)
    then obtain k1 where k1: "submit_bars K hw shift ?bos args 0 ?n (replicate ANE_MAX_TILE_COUNT 0) (d_kern s) =
        Some (if \<forall>i < ?n. bar_valid hw shift ?v ?bos args i
              then Inr (bars_upto ?v ?bos args ?n) else Inl (- EINVAL), k1)"
      "same_resources ?v (view k1)"
      "(\<forall>i < ?n. bar_valid hw shift ?v ?bos args i) \<Longrightarrow>
        (\<forall>b. v_refs (view k1) b = v_refs ?v b + bars_refs ?v args ?n b)" by blast
    show ?thesis
    proof (cases "\<forall>i < ?n. bar_valid hw shift ?v ?bos args i")
      case bad: False
      then have "\<not> submit_valid hw shift ?v ?bos args" by (simp add: submit_valid_def)
      moreover have "ane_submit K hw shift args s l = Some (- EINVAL, put_kern k1 s, l)"
        using False k1(1) [unfolded if_not_P [OF bad]] unfolding ane_submit_def by simp
      ultimately show ?thesis using k1(2) keep [OF k1(2)] by simp
    next
      case bars: True
      let ?h = "s_btsp_handle args"
      have h: "?h \<noteq> 0" using False by (simp add: submit_refused_def)
      obtain k2 where l: "k_lookup K ?h k1 = (v_handles ?v ?h, k2)" "same_resources ?v (view k2)"
        and r: "v_handles ?v ?h = None \<or> (\<exists>b bo. v_handles ?v ?h = Some b \<and> ?bos b = Some bo \<and>
          handle_bo ?v ?bos ?h = Some bo \<and> bo_ok lo hi shift ?v bo)"
        and refs: "\<And>b. ?h \<noteq> 0 \<Longrightarrow> v_refs (view k2) b = v_refs (view k1) b + lookup_refs ?v ?h b"
        using lookup_ok [OF bos k1(2)] by blast
      let ?bars = "map (spec_bar hw ?v ?bos args) [0..<ANE_MAX_TILE_COUNT]"
      have start: "ane_submit K hw shift args s l =
          (case v_handles ?v ?h of None \<Rightarrow> Some (- EINVAL, put_kern k2 s, l)
           | Some b \<Rightarrow> Option.bind (?bos b) (\<lambda>bo.
               if iova_too_high hw (bo_iova bo) then Some (- EINVAL, put_kern k2 s, l)
               else submit_run hw
                 \<lparr>rq_qid = 4, rq_nid = ANE_FIFO_NID, rq_td_size = s_td_size args,
                  rq_td_count = s_td_count args, rq_btsp_iova = bo_iova bo, rq_bar = ?bars\<rparr>
                 (put_kern k2 s) l))"
        by (simp only: ane_submit_def Let_def if_not_P [OF False] k1(1) [unfolded if_P [OF bars]]
            bind.bind_lunit prod.case sum.case l(1) final_bars [OF n(3,2), of ?v ?bos args])
      from r show ?thesis
      proof
        assume none: "v_handles ?v ?h = None"
        then have "\<not> submit_valid hw shift ?v ?bos args"
          by (simp add: submit_valid_def handle_bo_def)
        with none start keep [OF l(2)] l(2) show ?thesis by simp
      next
        assume "\<exists>b bo. v_handles ?v ?h = Some b \<and> ?bos b = Some bo \<and>
          handle_bo ?v ?bos ?h = Some bo \<and> bo_ok lo hi shift ?v bo"
        then obtain b bo where bo: "v_handles ?v ?h = Some b" "?bos b = Some bo"
          "handle_bo ?v ?bos ?h = Some bo" by blast
        have valid: "submit_valid hw shift ?v ?bos args \<longleftrightarrow> \<not> iova_too_high hw (bo_iova bo)"
          using False bars bo by (simp add: submit_valid_def)
        show ?thesis
        proof (cases "iova_too_high hw (bo_iova bo)")
          case True
          with valid start bo keep [OF l(2)] l(2) show ?thesis by simp
        next
          case low: False
          let ?req = "spec_request hw ?v ?bos args"
          have req: "?req = \<lparr>rq_qid = 4, rq_nid = ANE_FIFO_NID, rq_td_size = s_td_size args,
              rq_td_count = s_td_count args, rq_btsp_iova = bo_iova bo, rq_bar = ?bars\<rparr>"
            using bo h by (simp add: spec_request_def handle_iova_def)
          obtain xs e ys v where run: "hw_tm_enqueue hw ?req l = Some (0, l @ xs)"
            "hw_tm_execute hw ?req (l @ xs) = Some (e, l @ xs @ ys)"
            "submit_run hw ?req (put_kern k2 s) l = Some (e, put_kern k2 s, l @ xs @ ys)"
            "e \<le> 0" "writes_to push (xs @ ys) = [v]"
            using submit_run_ok [OF hw, of "put_kern k2 s" ?req l] lock
            by (auto simp: spec_request_def)
          have "ane_submit K hw shift args s l = Some (e, put_kern k2 s, l @ xs @ ys)"
            using start bo low run(3) by (simp add: req)
          moreover have "\<forall>b. v_refs (view k2) b = v_refs ?v b + submit_refs hw ?v args b"
            using refs h k1(3) [OF bars] by (simp add: submit_refs_def)
          ultimately show ?thesis
            using run keep [OF l(2)] l(2) valid low by (simp add: Let_def)
        qed
      qed
    qed
  qed
qed

end

section \<open>What the engine is given\<close>

text \<open>The commands and the weights lie inside the first buffer object.\<close>

lemma spec_bar_cmd:
  assumes inv: "bos_inv lo hi shift bos v" and shift: "4 \<le> shift"
    and valid: "submit_valid hw shift v bos args" and n: "0 < unat (hw_bar_count hw)"
  shows "\<exists>b bo. v_handles v (s_handles args ! CMD_BUF_BDX) = Some b \<and> bos b = Some bo \<and>
    spec_bar hw v bos args CMD_BUF_BDX = bo_iova bo \<and>
    unat (bo_iova bo) < unat (spec_bar hw v bos args KRN_BUF_BDX) \<and>
    unat (spec_bar hw v bos args KRN_BUF_BDX) \<le> unat (bo_iova bo) + unat (bo_npages bo) * 2 ^ shift"
proof -
  let ?h = "s_handles args ! CMD_BUF_BDX" and ?t = "s_tsk_size args"
  have h: "?h \<noteq> 0" and t: "?t \<noteq> 0" and bar: "bar_valid hw shift v bos args 0"
    using valid n by (auto simp: submit_valid_def submit_refused_def)
  then obtain bo where hb: "handle_bo v bos ?h = Some bo"
    and size: "unat ?t < unat (bo_npages bo) * 2 ^ shift"
    by (auto simp: bar_valid_def split: option.splits)
  then obtain b where b: "v_handles v ?h = Some b" "bos b = Some bo"
    by (auto simp: handle_bo_def bind_eq_Some_conv)
  note ok = inv_bo [OF inv b(2)]
  let ?S = "unat (bo_npages bo) * 2 ^ shift"
  have bound: "?S < 2 ^ 32" "unat (bo_iova bo) + ?S < 2 ^ 64"
    using ok u64_less [of hi] by (auto simp: bo_ok_def)
  have r: "unat (round_up ?t ANE_CMD_GRAN) = (unat ?t + 15) div 16 * 16"
    using unat_round_up [of 4 ?t] size bound(1) by simp
  have up: "(unat ?t + 15) div 16 * 16 \<le> ?S"
  proof -
    have "(2 :: nat) ^ shift = 2 ^ (shift - 4) * 16"
      using power_add [of "2 :: nat" "shift - 4" 4] shift by simp
    then have "?S = (unat (bo_npages bo) * 2 ^ (shift - 4)) * 16" by simp
    then obtain q where q: "?S = q * 16" by blast
    then have "unat ?t < q * 16" using size by simp
    then have "(unat ?t + 15) div 16 \<le> q" by linarith
    then show ?thesis unfolding q by simp
  qed
  have pos: "0 < (unat ?t + 15) div 16 * 16"
    using t by (simp add: unat_gt_0 [symmetric] word_neq_0_conv)
  have cmd: "spec_bar hw v bos args 0 = bo_iova bo"
    using n h hb by (simp add: spec_bar_def handle_iova_def)
  have "spec_bar hw v bos args 1 = bo_iova bo + round_up ?t ANE_CMD_GRAN"
    using h hb by (simp add: spec_bar_def handle_iova_def)
  then have "unat (spec_bar hw v bos args 1) = unat (bo_iova bo) + (unat ?t + 15) div 16 * 16"
    using up bound r by (simp add: unat_plus_less)
  with up pos b cmd show ?thesis by auto
qed

end
