(* ===== verification/Drv_Step.thy ===== *)
theory Drv_Step
  imports Drv_Submit
begin

text \<open>
  The driver as a state machine: one step per call that reaches it, the ioctls of
  \<open>ane_drm_ioctls\<close> and the runtime power callbacks \<open>ane_runtime_suspend\<close> and
  \<open>ane_runtime_resume\<close>, and the invariant of every reachable state. A step is a call that
  returns with a result; that each call does return is \<open>ane_step_returns\<close>.
\<close>

section \<open>Calls\<close>

text \<open>\<open>ane_runtime_suspend\<close> and \<open>ane_runtime_resume\<close>\<close>

definition ane_runtime_suspend :: "'k kapi \<Rightarrow> 'k drv \<Rightarrow> (int \<times> 'k drv) option" where
  "ane_runtime_suspend K s = map_option (\<lambda>s1. (0, s1)) (ane_iommu_invalidate_tlb K s)"

definition ane_runtime_resume :: "ane_hw \<Rightarrow> access list \<Rightarrow> (int \<times> access list) option" where
  "ane_runtime_resume hw l = map_option (\<lambda>l1. (0, l1)) (hw_tm_enable hw l)"

datatype ane_call =
  Info
| Bo_Init bo_init_args
| Bo_Free u32 u32
| Submit submit_args
| Suspend
| Resume

datatype ane_reply = Result int | Device_Id u32 | New_Bo bo_init_args

type_synonym 'k system = "'k drv \<times> access list"

text \<open>The reply of an ioctl is copied out only when it succeeds.\<close>

definition init_reply :: "int \<Rightarrow> bo_init_args \<Rightarrow> ane_reply" where
  "init_reply e args = (if e < 0 then Result e else New_Bo args)"

inductive ane_step :: "'k kapi \<Rightarrow> ane_hw \<Rightarrow> nat \<Rightarrow> 'k system \<Rightarrow> ane_call \<Rightarrow> ane_reply \<Rightarrow> 'k system \<Rightarrow> bool"
  for K hw shift where
  step_info: "ane_step K hw shift (s, l) Info (Device_Id (ane_info hw)) (s, l)"
| step_init: "ane_bo_init K shift args s = Some (e, args1, s1) \<Longrightarrow>
    ane_step K hw shift (s, l) (Bo_Init args) (init_reply e args1) (s1, l)"
| step_free: "ane_bo_free K shift h pad s = Some (e, s1) \<Longrightarrow>
    ane_step K hw shift (s, l) (Bo_Free h pad) (Result e) (s1, l)"
| step_submit: "ane_submit K hw shift args s l = Some (e, s1, l1) \<Longrightarrow>
    ane_step K hw shift (s, l) (Submit args) (Result e) (s1, l1)"
| step_suspend: "ane_runtime_suspend K s = Some (e, s1) \<Longrightarrow>
    ane_step K hw shift (s, l) Suspend (Result e) (s1, l)"
| step_resume: "ane_runtime_resume hw l = Some (e, l1) \<Longrightarrow>
    ane_step K hw shift (s, l) Resume (Result e) (s, l1)"

inductive_simps ane_step_simps [simp]:
  "ane_step K hw shift (s, l) Info r t"
  "ane_step K hw shift (s, l) (Bo_Init args) r t"
  "ane_step K hw shift (s, l) (Bo_Free h pad) r t"
  "ane_step K hw shift (s, l) (Submit args) r t"
  "ane_step K hw shift (s, l) Suspend r t"
  "ane_step K hw shift (s, l) Resume r t"

text \<open>A sequence of calls with their replies.\<close>

inductive ane_run :: "'k kapi \<Rightarrow> ane_hw \<Rightarrow> nat \<Rightarrow> 'k system \<Rightarrow> (ane_call \<times> ane_reply) list \<Rightarrow> 'k system \<Rightarrow> bool"
  for K hw shift where
  run_none: "ane_run K hw shift s [] s"
| run_step: "ane_step K hw shift s c r t \<Longrightarrow> ane_run K hw shift t cs u \<Longrightarrow>
    ane_run K hw shift s ((c, r) # cs) u"

inductive_cases ane_run_consE: "ane_run K hw shift s (x # cs) u"
inductive_cases ane_run_nilE: "ane_run K hw shift s [] u"

text \<open>Calls with the argument sizes the driver is built for: a buffer object below 4 GiB.\<close>

definition call_ok :: "'k kapi \<Rightarrow> ane_call \<Rightarrow> bool" where
  "call_ok K c = (case c of
     Bo_Init args \<Rightarrow> unat (round_up (i_size args) (page_size K)) < 2 ^ 32
   | Submit args \<Rightarrow> args_shape args
   | _ \<Rightarrow> True)"

section \<open>Invariant\<close>

definition all_named :: "(nat \<rightharpoonup> ane_bo) \<Rightarrow> kview \<Rightarrow> bool" where
  "all_named bos v \<longleftrightarrow> dom bos = ran (v_handles v)"

definition sys_inv :: "('k \<Rightarrow> kview) \<Rightarrow> u64 \<Rightarrow> u64 \<Rightarrow> nat \<Rightarrow> 'k system \<Rightarrow> bool" where
  "sys_inv view lo hi shift s \<longleftrightarrow> drv_inv view lo hi shift (fst s) \<and> \<not> d_engine_lock (fst s) \<and>
     all_named (d_bos (fst s)) (view (d_kern (fst s)))"

text \<open>The state after probing: nothing allocated.\<close>

definition initial :: "('k \<Rightarrow> kview) \<Rightarrow> 'k system \<Rightarrow> bool" where
  "initial view s \<longleftrightarrow> d_bos (fst s) = (\<lambda>_. None) \<and> \<not> d_iommu_lock (fst s) \<and> \<not> d_engine_lock (fst s) \<and>
     (let v = view (d_kern (fst s)) in
        v_nodes v = (\<lambda>_. None) \<and> v_maps v = (\<lambda>_. None) \<and> v_gems v = (\<lambda>_. None) \<and>
        v_pinned v = {} \<and> v_handles v = (\<lambda>_. None))"

lemma sys_inv_initial: "initial view s \<Longrightarrow> sys_inv view lo hi shift s"
  by (auto simp: initial_def sys_inv_def drv_inv_def bos_inv_def all_named_def Let_def)

lemma all_named_same_resources:
  "same_resources v v' \<Longrightarrow> all_named bos v' = all_named bos v"
  by (simp add: all_named_def same_resources_fields)

lemma all_named_add:
  assumes "all_named bos v" and "v_handles v h = None" and "v_handles v' = (v_handles v)(h \<mapsto> b)"
  shows "all_named (bos(b \<mapsto> bo)) v'"
  using assms by (simp add: all_named_def ran_map_upd)

lemma all_named_remove:
  assumes named: "all_named bos v" and inv: "bos_inv lo hi shift bos v"
    and h: "v_handles v h = Some b" and v': "v_handles v' = (v_handles v)(h := None)"
  shows "all_named (bos(b := None)) v'"
proof -
  have "ran ((v_handles v)(h := None)) = ran (v_handles v) - {b}"
  proof (intro equalityI subsetI)
    fix x assume "x \<in> ran ((v_handles v)(h := None))"
    then obtain k where k: "k \<noteq> h" "v_handles v k = Some x" by (auto simp: ran_def split: if_splits)
    then have "x \<noteq> b" using inv_one_handle [OF inv h, of k] by blast
    with k show "x \<in> ran (v_handles v) - {b}" by (blast intro: ranI)
  next
    fix x assume "x \<in> ran (v_handles v) - {b}"
    then obtain k where "v_handles v k = Some x" "x \<noteq> b" by (auto simp: ran_def)
    moreover from this h have "k \<noteq> h" by auto
    ultimately have "((v_handles v)(h := None)) k = Some x" by simp
    then show "x \<in> ran ((v_handles v)(h := None))" by (rule ranI)
  qed
  with named v' show ?thesis by (simp add: all_named_def)
qed

text \<open>Enabling the task manager always succeeds.\<close>

definition enable_ok :: "ane_hw \<Rightarrow> bool" where
  "enable_ok hw \<longleftrightarrow> (\<forall>l. \<exists>l1. hw_tm_enable hw l = Some l1)"

lemma prty_loop_total:
  assumes "\<And>i p l. \<exists>l1. g i p l = Some l1"
  shows "\<exists>l1. for_loop 0 ANE_TQ_COUNT (\<lambda>qid l. Option.bind (prty qid) (\<lambda>p. g qid p l)) l = Some l1"
proof -
  have "\<exists>l1. for_loop 0 ANE_TQ_COUNT (\<lambda>qid l. Option.bind (prty qid) (\<lambda>p. g qid p l)) l = Some l1 \<and> True"
    by (rule for_loop_invariant) (use assms in \<open>simp_all add: prty_some\<close>)
  then show ?thesis by simp
qed

lemma map_option_bind: "map_option f x = Option.bind x (\<lambda>y. Some (f y))"
  by (cases x) simp_all

lemma enable_ok_h13: "enable_ok (ane_hw_h13 dev poll)"
  unfolding enable_ok_def
proof
  fix l
  let ?g = "\<lambda>qid p l. Some (writel p (TQ_PRTY qid) l)"
  obtain l2 where "for_loop 0 ANE_TQ_COUNT (\<lambda>qid l. Option.bind (prty qid) (\<lambda>p. ?g qid p l))
      (writel (dev l TM_TQ_EN OR 0x1000) TM_TQ_EN (l @ [Rd TM_TQ_EN (dev l TM_TQ_EN)])) = Some l2"
    using prty_loop_total [of ?g] by blast
  then show "\<exists>l1. hw_tm_enable (ane_hw_h13 dev poll) l = Some l1"
    by (simp only: ane_hw_h13_def ane_hw.simps ane_h13_tm_enable_def readl_def Let_def prod.case
        map_option_bind bind.bind_lunit) blast
qed

lemma enable_ok_h14: "enable_ok (ane_hw_h14 dev)"
  unfolding enable_ok_def
proof
  fix l
  let ?g = "\<lambda>qid p l. Some (writel 0x201 (H14_TQ_UNK0 qid) (writel p (H14_TQ_PRTY qid) l))"
  obtain l2 where "for_loop 0 ANE_TQ_COUNT (\<lambda>qid l. Option.bind (prty qid) (\<lambda>p. ?g qid p l))
      (writel (dev l H14_TM_TQ_EN OR 0x2000) H14_TM_TQ_EN
        (l @ [Rd H14_TM_TQ_EN (dev l H14_TM_TQ_EN)])) = Some l2"
    using prty_loop_total [of ?g] by blast
  then show "\<exists>l1. hw_tm_enable (ane_hw_h14 dev) l = Some l1"
    by (simp only: ane_hw_h14_def ane_hw.simps ane_h14_tm_enable_def ane_h14_tm_reset_def readl_def
        Let_def prod.case map_option_bind bind.bind_lunit) blast
qed

section \<open>Every call returns and keeps the invariant\<close>

text \<open>What the steps rely on beside the invariant: the page size of the kernel is that of the
  IOMMU, and the hardware description is one of a task manager.\<close>

definition cfg_ok :: "'k kapi \<Rightarrow> ane_hw \<Rightarrow> nat \<Rightarrow> nat \<Rightarrow> bool" where
  "cfg_ok K hw push shift \<longleftrightarrow> shift < 32 \<and> k_page_shift K = shift \<and> hw_ok hw push \<and> enable_ok hw"

lemma ane_step_deterministic:
  "ane_step K hw shift s c r t \<Longrightarrow> ane_step K hw shift s c r' t' \<Longrightarrow> r' = r \<and> t' = t"
  by (cases s; cases c) auto

context drm_kernel
begin

lemma ane_runtime_suspend_ok:
  assumes "\<not> d_iommu_lock s"
  shows "\<exists>s1. ane_runtime_suspend K s = Some (0, s1) \<and> d_bos s1 = d_bos s \<and> same_locks s s1 \<and>
    view (d_kern s1) = view (d_kern s)"
  using assms by (simp add: ane_runtime_suspend_def ane_iommu_invalidate_tlb_def lock_iommu_def
      unlock_iommu_def same_locks_def flush)

lemma step_init_ok:
  assumes inv: "sys_inv view lo hi shift (s, l)" and "cfg_ok K hw push shift"
    and "unat (round_up (i_size args) (page_size K)) < 2 ^ 32"
  shows "\<exists>e args1 s1. ane_bo_init K shift args s = Some (e, args1, s1) \<and> sys_inv view lo hi shift (s1, l)"
proof -
  have s: "drv_inv view lo hi shift s" "\<not> d_engine_lock s" "all_named (d_bos s) (view (d_kern s))"
    and cfg: "shift < 32" "k_page_shift K = shift"
    using assms by (simp_all add: sys_inv_def cfg_ok_def)
  obtain e args1 s1 where r: "ane_bo_init K shift args s = Some (e, args1, s1)"
    "drv_inv view lo hi shift s1" "same_locks s s1"
    and res: "if e < 0 then d_bos s1 = d_bos s \<and> same_resources (view (d_kern s)) (view (d_kern s1))
     else e = 0 \<and> i_pad args = 0 \<and> v_handles (view (d_kern s)) (i_handle args1) = None \<and>
       (\<exists>b bo. d_bos s b = None \<and> d_bos s1 = (d_bos s)(b \<mapsto> bo) \<and>
         v_handles (view (d_kern s1)) = (v_handles (view (d_kern s)))(i_handle args1 \<mapsto> b) \<and>
         unat (bo_npages bo) = unat (round_up (i_size args) (page_size K)) div 2 ^ shift)"
    using ane_bo_init_ok [OF s(1) cfg assms(3)] by blast
  have "all_named (d_bos s1) (view (d_kern s1))"
  proof (cases "e < 0")
    case True
    with res s(3) show ?thesis by (auto intro: all_named_same_resources [THEN iffD2])
  next
    case False
    with res s(3) show ?thesis by (auto intro: all_named_add)
  qed
  with r s show ?thesis by (auto simp: sys_inv_def same_locks_def)
qed

lemma step_free_ok:
  assumes inv: "sys_inv view lo hi shift (s, l)" and "cfg_ok K hw push shift"
  shows "\<exists>e s1. ane_bo_free K shift h pad s = Some (e, s1) \<and> sys_inv view lo hi shift (s1, l)"
proof -
  have s: "drv_inv view lo hi shift s" "\<not> d_engine_lock s" "all_named (d_bos s) (view (d_kern s))"
    and bos: "bos_inv lo hi shift (d_bos s) (view (d_kern s))"
    using inv by (simp_all add: sys_inv_def drv_inv_def)
  obtain e s1 where r: "ane_bo_free K shift h pad s = Some (e, s1)"
    "drv_inv view lo hi shift s1" "same_locks s s1"
    and res: "if pad \<noteq> 0 \<or> v_handles (view (d_kern s)) h = None
     then e = - EINVAL \<and> d_bos s1 = d_bos s \<and> same_resources (view (d_kern s)) (view (d_kern s1))
     else e = 0 \<and> (\<exists>b bo. v_handles (view (d_kern s)) h = Some b \<and> d_bos s b = Some bo \<and>
       d_bos s1 = (d_bos s)(b := None) \<and>
       v_handles (view (d_kern s1)) = (v_handles (view (d_kern s)))(h := None) \<and>
       v_maps (view (d_kern s1)) = maps_without shift bo (view (d_kern s)))"
    using ane_bo_free_ok [OF s(1), of h pad] assms(2) by (auto simp: cfg_ok_def)
  have "all_named (d_bos s1) (view (d_kern s1))"
  proof (cases "pad \<noteq> 0 \<or> v_handles (view (d_kern s)) h = None")
    case True
    with res s(3) show ?thesis
      unfolding if_P [OF True] by (auto intro: all_named_same_resources [THEN iffD2])
  next
    case False
    then obtain b where "v_handles (view (d_kern s)) h = Some b" "d_bos s1 = (d_bos s)(b := None)"
      "v_handles (view (d_kern s1)) = (v_handles (view (d_kern s)))(h := None)"
      using res unfolding if_not_P [OF False] by blast
    with all_named_remove [OF s(3) bos, of h b] show ?thesis by simp
  qed
  with r s show ?thesis by (auto simp: sys_inv_def same_locks_def)
qed

lemma step_submit_ok:
  assumes inv: "sys_inv view lo hi shift (s, l)" and "cfg_ok K hw push shift" and "args_shape args"
  shows "\<exists>e s1 l1. ane_submit K hw shift args s l = Some (e, s1, l1) \<and> sys_inv view lo hi shift (s1, l1)"
proof -
  have s: "drv_inv view lo hi shift s" "\<not> d_engine_lock s" "all_named (d_bos s) (view (d_kern s))"
    and cfg: "shift < 32" "hw_ok hw push"
    using assms by (simp_all add: sys_inv_def cfg_ok_def)
  obtain e s1 l1 where "ane_submit K hw shift args s l = Some (e, s1, l1)"
    "drv_inv view lo hi shift s1" "same_locks s s1" "d_bos s1 = d_bos s"
    "same_resources (view (d_kern s)) (view (d_kern s1))"
    using ane_submit_ok [OF s(1) cfg s(2) assms(3), of l] by blast
  with s show ?thesis by (auto simp: sys_inv_def same_locks_def all_named_same_resources)
qed

lemma ane_step_returns:
  assumes inv: "sys_inv view lo hi shift s" and cfg: "cfg_ok K hw push shift" and c: "call_ok K c"
  shows "\<exists>r t. ane_step K hw shift s c r t \<and> sys_inv view lo hi shift t"
proof -
  obtain d l where s: "s = (d, l)" by fastforce
  note inv' = inv [unfolded s]
  show ?thesis
  proof (cases c)
    case Info
    with inv s show ?thesis by auto
  next
    case (Bo_Init args)
    with c have "unat (round_up (i_size args) (page_size K)) < 2 ^ 32" by (simp add: call_ok_def)
    from step_init_ok [OF inv' cfg this] Bo_Init s show ?thesis by fastforce
  next
    case (Bo_Free h pad)
    from step_free_ok [OF inv' cfg, of h pad] Bo_Free s show ?thesis by fastforce
  next
    case (Submit args)
    with c have "args_shape args" by (simp add: call_ok_def)
    from step_submit_ok [OF inv' cfg this] Submit s show ?thesis by fastforce
  next
    case Suspend
    have "\<not> d_iommu_lock d" using inv' by (simp add: sys_inv_def drv_inv_def)
    from ane_runtime_suspend_ok [OF this] inv' obtain d1 where
      "ane_runtime_suspend K d = Some (0, d1)" "sys_inv view lo hi shift (d1, l)"
      by (auto simp: sys_inv_def drv_inv_def same_locks_def)
    with Suspend s show ?thesis by fastforce
  next
    case Resume
    obtain l1 where "hw_tm_enable hw l = Some l1"
      using cfg by (auto simp: cfg_ok_def enable_ok_def)
    moreover have "sys_inv view lo hi shift (d, l1)" using inv' by (simp add: sys_inv_def)
    ultimately show ?thesis using Resume s by (fastforce simp: ane_runtime_resume_def)
  qed
qed

lemma ane_step_inv:
  assumes "sys_inv view lo hi shift s" and "cfg_ok K hw push shift" and "call_ok K c"
    and "ane_step K hw shift s c r t"
  shows "sys_inv view lo hi shift t"
  using ane_step_returns [OF assms(1-3)] ane_step_deterministic [OF assms(4)] by blast

lemma ane_run_inv:
  assumes "ane_run K hw shift s cs t" and "sys_inv view lo hi shift s" and "cfg_ok K hw push shift"
    and "\<forall>c \<in> fst ` set cs. call_ok K c"
  shows "sys_inv view lo hi shift t"
  using assms by (induction rule: ane_run.induct) (auto dest: ane_step_inv)

end

section \<open>Release\<close>

text \<open>Without handles nothing is held.\<close>

lemma no_handles_no_resources:
  assumes inv: "sys_inv view lo hi shift s" and "v_handles (view (d_kern (fst s))) = (\<lambda>_. None)"
  shows "initial view s"
proof -
  have bos: "bos_inv lo hi shift (d_bos (fst s)) (view (d_kern (fst s)))"
    using inv by (simp add: sys_inv_def drv_inv_def)
  have none: "d_bos (fst s) = (\<lambda>_. None)"
    using inv assms(2) by (auto simp: sys_inv_def all_named_def dom_def)
  have nodes: "v_nodes (view (d_kern (fst s))) n = None" for n
    using inv_nodes [OF bos, of n] none by (cases "v_nodes (view (d_kern (fst s))) n") auto
  have maps: "v_maps (view (d_kern (fst s))) a = None" for a
    using inv_maps [OF bos, of a] none by (cases "v_maps (view (d_kern (fst s))) a") auto
  have "v_gems (view (d_kern (fst s))) = (\<lambda>_. None)" "v_pinned (view (d_kern (fst s))) = {}"
    using inv_gems [OF bos] inv_pinned [OF bos] none by (auto simp: dom_def)
  with none nodes maps inv assms(2) show ?thesis
    by (auto simp: initial_def Let_def sys_inv_def drv_inv_def)
qed

end
