(* ===== verification/Drv_Ref.thy ===== *)
theory Drv_Ref
  imports Drv_Step
begin

text \<open>
  A reference kernel for the services of \<open>Drv_Kernel\<close>: blocks, ranges and handles in lists,
  an address space manager that places behind the last range, and a script of failures. It
  meets every assumption of \<open>drm_kernel\<close> for all parameters, so that the contract can be
  met, and it runs the driver on concrete calls.
\<close>

record ref_kernel =
  rk_blocks :: "nat list"
  rk_nodes :: "(nat \<times> u64 \<times> u64) list"
  rk_maps :: "u64 \<rightharpoonup> u64"
  rk_gems :: "nat \<rightharpoonup> u64"
  rk_refs :: "nat \<Rightarrow> nat"
  rk_pinned :: "nat set"
  rk_handles :: "(u32 \<times> nat) list"
  rk_script :: "bool list"

definition ref_view :: "ref_kernel \<Rightarrow> kview" where
  "ref_view k = \<lparr>v_blocks = set (rk_blocks k), v_nodes = map_of (rk_nodes k), v_maps = rk_maps k,
     v_gems = rk_gems k, v_refs = rk_refs k, v_pinned = rk_pinned k,
     v_handles = map_of (rk_handles k)\<rparr>"

text \<open>Whether the next call that may fail does.\<close>

definition fails :: "ref_kernel \<Rightarrow> bool \<times> ref_kernel" where
  "fails k = (case rk_script k of [] \<Rightarrow> (False, k) | f # fs \<Rightarrow> (f, k\<lparr>rk_script := fs\<rparr>))"

definition fresh :: "nat list \<Rightarrow> nat" where
  "fresh bs = Suc (fold max bs 0)"

lemma fresh_not_in: "fresh bs \<notin> set bs"
proof -
  have "b \<in> set bs \<Longrightarrow> b \<le> fold max bs a" for b a
  proof (induction bs arbitrary: a)
    case Nil
    then show ?case by simp
  next
    case (Cons c bs)
    have "a \<le> fold max bs a" for a
      by (induction bs arbitrary: a) (auto intro: le_trans [OF max.cobounded2])
    then have "max c a \<le> fold max bs (max c a)" .
    with Cons show ?case by auto
  qed
  then show ?thesis unfolding fresh_def by (metis Suc_n_not_le_n)
qed

definition ref_kzalloc :: "ref_kernel \<Rightarrow> ptr \<times> ref_kernel" where
  "ref_kzalloc k = (let (f, k1) = fails k; b = fresh (rk_blocks k) in
     if f then (None, k1) else (Some b, k1\<lparr>rk_blocks := b # rk_blocks k\<rparr>))"

definition ref_kfree :: "nat \<Rightarrow> ref_kernel \<Rightarrow> ref_kernel option" where
  "ref_kfree b k = (if b \<in> set (rk_blocks k)
     then Some (k\<lparr>rk_blocks := filter (\<lambda>c. c \<noteq> b) (rk_blocks k)\<rparr>) else None)"

text \<open>The first aligned address behind all ranges in use.\<close>

definition place :: "u64 \<Rightarrow> (nat \<times> u64 \<times> u64) list \<Rightarrow> u64 \<Rightarrow> nat" where
  "place lo nodes al =
     (let e = fold max (map (\<lambda>(n, s, z). unat s + unat z) nodes) (unat lo)
      in (e + (unat al - 1)) div unat al * unat al)"

definition ref_mm_insert :: "u64 \<Rightarrow> u64 \<Rightarrow> nat \<Rightarrow> u64 \<Rightarrow> u64 \<Rightarrow> ref_kernel \<Rightarrow> (int \<times> u64) \<times> ref_kernel" where
  "ref_mm_insert lo hi n sz al k = (let (f, k1) = fails k; s = place lo (rk_nodes k) al in
     if f \<or> sz = 0 \<or> al = 0 \<or> unat hi < s + unat sz then ((- ENOSPC, 0), k1)
     else ((0, of_nat s), k1\<lparr>rk_nodes := (n, of_nat s, sz) # rk_nodes k\<rparr>))"

definition ref_iommu_map :: "u64 \<Rightarrow> u64 \<Rightarrow> u64 \<Rightarrow> ref_kernel \<Rightarrow> int \<times> ref_kernel" where
  "ref_iommu_map iova pa sz k = (let (f, k1) = fails k in
     if f \<or> rk_maps k iova \<noteq> None then (- EINVAL, k1)
     else (0, k1\<lparr>rk_maps := (rk_maps k)(iova \<mapsto> pa)\<rparr>))"

definition ref_gem_init :: "nat \<Rightarrow> u64 \<Rightarrow> ref_kernel \<Rightarrow> int \<times> ref_kernel" where
  "ref_gem_init g sz k = (let (f, k1) = fails k in
     if f then (- ENOMEM, k1)
     else (0, k1\<lparr>rk_gems := (rk_gems k)(g \<mapsto> sz), rk_refs := (rk_refs k)(g := 1)\<rparr>))"

definition ref_mmap_offset :: "nat \<Rightarrow> ref_kernel \<Rightarrow> (int \<times> u64) \<times> ref_kernel" where
  "ref_mmap_offset g k = (let (f, k1) = fails k in
     if f then ((- ENOMEM, 0), k1) else ((0, 0x100000000 + of_nat g), k1))"

definition ref_get_pages :: "nat \<Rightarrow> nat \<Rightarrow> ref_kernel \<Rightarrow> (int + u64 list) \<times> ref_kernel" where
  "ref_get_pages shift g k = (let (f, k1) = fails k in
     if f then (Inl (- ENOMEM), k1)
     else (Inr (map (\<lambda>i. of_nat (2 ^ 35 + i * 2 ^ shift))
             [0..<(case rk_gems k g of None \<Rightarrow> 0 | Some sz \<Rightarrow> unat sz div 2 ^ shift)]),
           k1\<lparr>rk_pinned := insert g (rk_pinned k)\<rparr>))"

definition ref_handle_create :: "nat \<Rightarrow> ref_kernel \<Rightarrow> (int \<times> u32) \<times> ref_kernel" where
  "ref_handle_create g k = (let (f, k1) = fails k; h = of_nat (fresh (map (unat \<circ> fst) (rk_handles k))) in
     if f \<or> h = 0 \<or> h \<in> set (map fst (rk_handles k)) then ((- ENOSPC, 0), k1)
     else ((0, h), k1\<lparr>rk_handles := (h, g) # rk_handles k, rk_refs := (rk_refs k)(g := rk_refs k g + 1)\<rparr>))"

definition ref_handle_delete :: "u32 \<Rightarrow> ref_kernel \<Rightarrow> ref_kernel" where
  "ref_handle_delete h k = (case map_of (rk_handles k) h of None \<Rightarrow> k
     | Some g \<Rightarrow> k\<lparr>rk_handles := filter (\<lambda>(h', _). h' \<noteq> h) (rk_handles k),
         rk_refs := (rk_refs k)(g := rk_refs k g - 1)\<rparr>)"

definition ref_lookup :: "u32 \<Rightarrow> ref_kernel \<Rightarrow> ptr \<times> ref_kernel" where
  "ref_lookup h k = (case map_of (rk_handles k) h of None \<Rightarrow> (None, k)
     | Some g \<Rightarrow> (Some g, k\<lparr>rk_refs := (rk_refs k)(g := rk_refs k g + 1)\<rparr>))"

definition ref_kapi :: "u64 \<Rightarrow> u64 \<Rightarrow> nat \<Rightarrow> ref_kernel kapi" where
  "ref_kapi lo hi shift = \<lparr>k_page_shift = shift, k_kzalloc = ref_kzalloc, k_kfree = ref_kfree,
     k_mm_insert = ref_mm_insert lo hi,
     k_mm_remove = (\<lambda>n k. k\<lparr>rk_nodes := filter (\<lambda>(m, _). m \<noteq> n) (rk_nodes k)\<rparr>),
     k_iommu_map = ref_iommu_map,
     k_iommu_unmap = (\<lambda>iova sz k. k\<lparr>rk_maps := (rk_maps k)(iova := None)\<rparr>),
     k_flush_iotlb = (\<lambda>k. k), k_gem_init = ref_gem_init,
     k_gem_release = (\<lambda>g k. k\<lparr>rk_gems := (rk_gems k)(g := None)\<rparr>),
     k_gem_put = (\<lambda>g k. k\<lparr>rk_refs := (rk_refs k)(g := rk_refs k g - 1)\<rparr>),
     k_mmap_offset = ref_mmap_offset, k_get_pages = ref_get_pages shift,
     k_put_pages = (\<lambda>g k. k\<lparr>rk_pinned := rk_pinned k - {g}\<rparr>),
     k_handle_create = ref_handle_create, k_handle_delete = ref_handle_delete,
     k_lookup = ref_lookup\<rparr>"

section \<open>It meets the contract\<close>

lemma map_of_remove: "map_of (filter (\<lambda>(m, _). m \<noteq> n) xs) = (map_of xs)(n := None)"
  by (induction xs) (auto simp: fun_eq_iff)

lemma ref_view_script [simp]: "ref_view (k\<lparr>rk_script := fs\<rparr>) = ref_view k"
  by (simp add: ref_view_def)

lemma fails_view: "ref_view (snd (fails k)) = ref_view k"
  by (simp add: fails_def split: list.split)

lemma ref_view_eq:
  "ref_view a = ref_view b \<longleftrightarrow> set (rk_blocks a) = set (rk_blocks b) \<and>
     map_of (rk_nodes a) = map_of (rk_nodes b) \<and> rk_maps a = rk_maps b \<and> rk_gems a = rk_gems b \<and>
     rk_refs a = rk_refs b \<and> rk_pinned a = rk_pinned b \<and> map_of (rk_handles a) = map_of (rk_handles b)"
  by (simp add: ref_view_def)

lemma place_bounds:
  assumes "0 < unat al"
  shows "unat lo \<le> place lo nodes al" and "place lo nodes al mod unat al = 0"
    and "(n, s, z) \<in> set nodes \<Longrightarrow> unat s + unat z \<le> place lo nodes al"
proof -
  define e where "e = fold max (map (\<lambda>(n, s, z). unat s + unat z) nodes) (unat lo)"
  have grow: "a \<le> fold max xs a" for a :: nat and xs
    by (induction xs arbitrary: a) (auto intro: le_trans [OF max.cobounded2])
  have all: "x \<in> set xs \<Longrightarrow> x \<le> fold max xs a" for x a :: nat and xs
  proof (induction xs arbitrary: a)
    case Nil
    then show ?case by simp
  next
    case (Cons y xs)
    then show ?case using grow [of "max y a" xs] by auto
  qed
  have up: "e \<le> place lo nodes al"
  proof -
    have "e + (unat al - 1) < (e + (unat al - 1)) div unat al * unat al + unat al"
      using assms by (metis add.commute div_mult_mod_eq mod_less_divisor nat_add_left_cancel_less)
    then show ?thesis unfolding place_def e_def [symmetric] Let_def using assms by linarith
  qed
  show "place lo nodes al mod unat al = 0" by (simp add: place_def Let_def)
  show "unat lo \<le> place lo nodes al" using grow up unfolding e_def by (rule le_trans)
  show "unat s + unat z \<le> place lo nodes al" if "(n, s, z) \<in> set nodes"
  proof -
    have "unat s + unat z \<le> e"
      unfolding e_def by (rule all) (use that in force)
    with up show ?thesis by simp
  qed
qed

lemma fails_cases:
  obtains f k1 where "fails k = (f, k1)" "ref_view k1 = ref_view k"
    "rk_blocks k1 = rk_blocks k" "rk_nodes k1 = rk_nodes k" "rk_maps k1 = rk_maps k"
    "rk_gems k1 = rk_gems k" "rk_refs k1 = rk_refs k" "rk_pinned k1 = rk_pinned k"
    "rk_handles k1 = rk_handles k"
  by (rule that [of "fst (fails k)" "snd (fails k)"])
    (simp_all add: fails_def ref_view_def split: list.split)

lemma ref_mm_insert_law:
  assumes "ref_mm_insert lo hi n sz al k = ((e, start), k1)"
  shows "if e < 0 then ref_view k1 = ref_view k
    else placement_ok lo hi (ref_view k) start sz al \<and>
      ref_view k1 = (ref_view k)\<lparr>v_nodes := (v_nodes (ref_view k))(n \<mapsto> (start, sz))\<rparr>"
proof -
  obtain f k2 where f: "fails k = (f, k2)" "ref_view k2 = ref_view k" "rk_nodes k2 = rk_nodes k"
    by (rule fails_cases)
  let ?s = "place lo (rk_nodes k) al"
  show ?thesis
  proof (cases "f \<or> sz = 0 \<or> al = 0 \<or> unat hi < ?s + unat sz")
    case True
    with assms f show ?thesis by (auto simp: ref_mm_insert_def Let_def)
  next
    case False
    then have pos: "0 < unat al" "0 < unat sz" by (simp_all add: unat_gt_0)
    have "?s < 2 ^ LENGTH(64)" using False u64_less [of hi] by simp
    then have s: "unat (of_nat ?s :: u64) = ?s" by (rule unat_of_nat_less)
    have res: "e = 0" "start = of_nat ?s" "k1 = k2\<lparr>rk_nodes := (n, of_nat ?s, sz) # rk_nodes k\<rparr>"
      using assms f False by (auto simp: ref_mm_insert_def Let_def)
    have "placement_ok lo hi (ref_view k) start sz al"
      unfolding placement_ok_def
    proof (intro conjI ballI)
      fix r assume "r \<in> ran (v_nodes (ref_view k))"
      then obtain m where "(m, fst r, snd r) \<in> set (rk_nodes k)"
        by (auto simp: ref_view_def ran_def dest: map_of_SomeD)
      from place_bounds(3) [OF pos(1) this] show "ranges_disjoint r (start, sz)"
        by (simp add: ranges_disjoint_def res s)
    qed (use place_bounds [OF pos(1)] pos False in \<open>simp_all add: res s not_less\<close>)
    moreover have "ref_view k1 = (ref_view k)\<lparr>v_nodes := (v_nodes (ref_view k))(n \<mapsto> (start, sz))\<rparr>"
      using f(2) by (simp add: res ref_view_def)
    ultimately show ?thesis by (simp add: res)
  qed
qed

lemma ref_handle_create_law:
  assumes "ref_handle_create g k = ((e, h), k1)"
  shows "if e < 0 then ref_view k1 = ref_view k
    else h \<noteq> 0 \<and> h \<notin> dom (v_handles (ref_view k)) \<and>
      ref_view k1 = (ref_view k)\<lparr>v_handles := (v_handles (ref_view k))(h \<mapsto> g),
        v_refs := (v_refs (ref_view k))(g := v_refs (ref_view k) g + 1)\<rparr>"
proof -
  obtain f k2 where f: "fails k = (f, k2)" "ref_view k2 = ref_view k" "rk_refs k2 = rk_refs k"
    by (rule fails_cases)
  let ?h = "of_nat (fresh (map (unat \<circ> fst) (rk_handles k))) :: u32"
  show ?thesis
  proof (cases "f \<or> ?h = 0 \<or> ?h \<in> set (map fst (rk_handles k))")
    case True
    then have "e < 0" "k1 = k2" using assms f by (auto simp: ref_handle_create_def Let_def)
    with f show ?thesis by simp
  next
    case False
    then have res: "e = 0" "h = ?h" "k1 = k2\<lparr>rk_handles := (?h, g) # rk_handles k,
        rk_refs := (rk_refs k)(g := rk_refs k g + 1)\<rparr>"
      using assms f by (auto simp: ref_handle_create_def Let_def)
    have "?h \<notin> dom (v_handles (ref_view k))" "?h \<noteq> 0"
      using False by (auto simp: ref_view_def dom_map_of_conv_image_fst)
    with f(2) show ?thesis by (simp add: res ref_view_def)
  qed
qed

lemma ref_kzalloc_law:
  assumes "ref_kzalloc k = (p, k1)"
  shows "case p of None \<Rightarrow> ref_view k1 = ref_view k
    | Some b \<Rightarrow> b \<notin> v_blocks (ref_view k) \<and>
        ref_view k1 = (ref_view k)\<lparr>v_blocks := insert b (v_blocks (ref_view k))\<rparr>"
proof -
  obtain f k2 where "fails k = (f, k2)" "ref_view k2 = ref_view k" by (rule fails_cases)
  with assms fresh_not_in [of "rk_blocks k"] show ?thesis
    by (auto simp: ref_kzalloc_def ref_view_def Let_def split: if_splits)
qed

lemma ref_fallible_laws:
  "ref_iommu_map iova pa sz k = (e, k1) \<Longrightarrow> v_maps (ref_view k) iova = None \<Longrightarrow>
    if e < 0 then ref_view k1 = ref_view k
    else ref_view k1 = (ref_view k)\<lparr>v_maps := (v_maps (ref_view k))(iova \<mapsto> pa)\<rparr>"
  "ref_gem_init g gsz k = (e, k1) \<Longrightarrow> if e < 0 then ref_view k1 = ref_view k
    else ref_view k1 = (ref_view k)\<lparr>v_gems := (v_gems (ref_view k))(g \<mapsto> gsz),
      v_refs := (v_refs (ref_view k))(g := 1)\<rparr>"
  "ref_view (snd (ref_mmap_offset g k)) = ref_view k"
proof -
  obtain f k2 where f: "fails k = (f, k2)" "ref_view k2 = ref_view k" "rk_maps k2 = rk_maps k"
    "rk_gems k2 = rk_gems k" "rk_refs k2 = rk_refs k" by (rule fails_cases)
  show "if e < 0 then ref_view k1 = ref_view k
    else ref_view k1 = (ref_view k)\<lparr>v_maps := (v_maps (ref_view k))(iova \<mapsto> pa)\<rparr>"
    if "ref_iommu_map iova pa sz k = (e, k1)" "v_maps (ref_view k) iova = None"
    using that f by (auto simp: ref_iommu_map_def ref_view_def split: if_splits)
  show "if e < 0 then ref_view k1 = ref_view k
    else ref_view k1 = (ref_view k)\<lparr>v_gems := (v_gems (ref_view k))(g \<mapsto> gsz),
      v_refs := (v_refs (ref_view k))(g := 1)\<rparr>" if "ref_gem_init g gsz k = (e, k1)"
    using that f by (auto simp: ref_gem_init_def ref_view_def split: if_splits)
  show "ref_view (snd (ref_mmap_offset g k)) = ref_view k"
    using f by (simp add: ref_mmap_offset_def)
qed

lemma ref_get_pages_law:
  assumes "ref_get_pages shift g k = (r, k1)"
  shows "case r of Inl e \<Rightarrow> e < 0 \<and> ref_view k1 = ref_view k
    | Inr ps \<Rightarrow> (\<forall>sz. v_gems (ref_view k) g = Some sz \<longrightarrow> length ps = unat sz div 2 ^ shift) \<and>
        ref_view k1 = (ref_view k)\<lparr>v_pinned := insert g (v_pinned (ref_view k))\<rparr>"
proof -
  obtain f k2 where "fails k = (f, k2)" "ref_view k2 = ref_view k" "rk_pinned k2 = rk_pinned k"
    by (rule fails_cases)
  with assms show ?thesis
    by (auto simp: ref_get_pages_def ref_view_def split: if_splits)
qed

lemma ref_handle_delete_law:
  assumes "v_handles (ref_view k) h = Some g"
  shows "ref_view (ref_handle_delete h k) = (ref_view k)\<lparr>v_handles := (v_handles (ref_view k))(h := None),
    v_refs := (v_refs (ref_view k))(g := v_refs (ref_view k) g - 1)\<rparr>"
  using assms by (simp add: ref_handle_delete_def ref_view_def map_of_remove)

lemma ref_lookup_law:
  assumes "ref_lookup h k = (p, k1)"
  shows "p = v_handles (ref_view k) h \<and> ref_view k1 = (case p of None \<Rightarrow> ref_view k
    | Some g \<Rightarrow> (ref_view k)\<lparr>v_refs := (v_refs (ref_view k))(g := v_refs (ref_view k) g + 1)\<rparr>)"
  using assms by (auto simp: ref_lookup_def ref_view_def split: option.splits)

interpretation ref: drm_kernel "ref_kapi lo hi shift" ref_view lo hi for lo hi shift
proof (unfold_locales, unfold ref_kapi_def kapi.simps)
  show "\<exists>k1. ref_kfree b k = Some k1 \<and> ref_view k1 = (ref_view k)\<lparr>v_blocks := v_blocks (ref_view k) - {b}\<rparr>"
    if "b \<in> v_blocks (ref_view k)" for b k
    using that by (auto simp: ref_kfree_def ref_view_def)
qed (erule ref_kzalloc_law ref_mm_insert_law ref_handle_create_law ref_get_pages_law ref_lookup_law
    ref_handle_delete_law ref_fallible_laws(1) ref_fallible_laws(2) | assumption
  | rule ref_fallible_laws(3) | simp add: ref_view_def map_of_remove)+

section \<open>A driver with two buffer objects\<close>

text \<open>One page each, at the first two pages of the H13's address space, under handles 1 and 2.\<close>

definition sample_bo :: "nat \<Rightarrow> u64 \<Rightarrow> u64 \<Rightarrow> ane_bo" where
  "sample_bo node iova pa = \<lparr>bo_mm = Some node, bo_npages = 1, bo_pages = Some [pa], bo_iova = iova\<rparr>"

definition sample_kernel :: ref_kernel where
  "sample_kernel = \<lparr>rk_blocks = [1, 2, 3, 4], rk_nodes = [(2, 0x4000, 0x4000), (4, 0x8000, 0x4000)],
     rk_maps = [0x4000 \<mapsto> 0x800000000, 0x8000 \<mapsto> 0x800004000], rk_gems = [1 \<mapsto> 0x4000, 3 \<mapsto> 0x4000],
     rk_refs = (\<lambda>_. 0)(1 := 1, 3 := 1), rk_pinned = {1, 3}, rk_handles = [(1, 1), (2, 3)],
     rk_script = []\<rparr>"

definition sample_drv :: "ref_kernel drv" where
  "sample_drv = \<lparr>d_kern = sample_kernel,
     d_bos = [1 \<mapsto> sample_bo 2 0x4000 0x800000000, 3 \<mapsto> sample_bo 4 0x8000 0x800004000],
     d_iommu_lock = False, d_engine_lock = False\<rparr>"

abbreviation sample_bos :: "nat \<rightharpoonup> ane_bo" where
  "sample_bos \<equiv> [1 \<mapsto> sample_bo 2 0x4000 0x800000000, 3 \<mapsto> sample_bo 4 0x8000 0x800004000]"

abbreviation sample_api :: "ref_kernel kapi" where
  "sample_api \<equiv> ref_kapi 0x4000 0xe0000000 14"

lemma sample_view:
  "v_blocks (ref_view sample_kernel) = {1, 2, 3, 4}"
  "v_nodes (ref_view sample_kernel) = [2 \<mapsto> (0x4000, 0x4000), 4 \<mapsto> (0x8000, 0x4000)]"
  "v_maps (ref_view sample_kernel) = [0x4000 \<mapsto> 0x800000000, 0x8000 \<mapsto> 0x800004000]"
  "v_gems (ref_view sample_kernel) = [1 \<mapsto> 0x4000, 3 \<mapsto> 0x4000]"
  "v_pinned (ref_view sample_kernel) = {1, 3}"
  "v_handles (ref_view sample_kernel) = [1 \<mapsto> 1, 2 \<mapsto> 3]"
  "v_refs (ref_view sample_kernel) = (\<lambda>_. 0)(1 := 1, 3 := 1)"
  by (auto simp: ref_view_def sample_kernel_def fun_eq_iff)

lemma sample_bo_simps [simp]:
  "bo_mm (sample_bo n i p) = Some n" "bo_npages (sample_bo n i p) = 1"
  "bo_pages (sample_bo n i p) = Some [p]" "bo_iova (sample_bo n i p) = i"
  by (simp_all add: sample_bo_def)

lemma sample_maps_page: "maps_page 14 (sample_bo n i p) a pa \<longleftrightarrow> a = i \<and> pa = p"
  by (auto simp: maps_page_def page_iova_def pages_of_def)

lemma two_entries:
  assumes "a \<noteq> b"
  shows "(\<exists>k v. [a \<mapsto> x, b \<mapsto> y] k = Some v \<and> P v) \<longleftrightarrow> P x \<or> P y"
  using ex_map_upd [of "[a \<mapsto> x]" b y P] ex_map_upd [of "\<lambda>_. None" a x P] assms by auto

lemma sample_bo_ok:
  assumes "n \<in> v_blocks v" and "v_nodes v n = Some (i, 0x4000)" and "0x4000 \<le> unat i"
    and "unat i + 0x4000 \<le> 0xe0000000" and "unat i mod 0x4000 = 0"
  shows "bo_ok 0x4000 0xe0000000 14 v (sample_bo n i p)"
  using assms by (simp add: bo_ok_def pages_of_def bo_bytes_def page_bytes_def)

lemma sample_bos_inv:
  "bos_inv 0x4000 0xe0000000 14 (d_bos sample_drv) (ref_view sample_kernel)"
  unfolding bos_inv_def sample_view sample_drv_def drv.simps
proof (intro conjI)
  show "\<forall>b bo. sample_bos b = Some bo \<longrightarrow>
      bo_ok 0x4000 0xe0000000 14 (ref_view sample_kernel) bo"
    by (auto simp: sample_view intro!: sample_bo_ok)
  show "\<forall>a pa. [0x4000 \<mapsto> 0x800000000, 0x8000 \<mapsto> 0x800004000] a = Some pa \<longleftrightarrow>
      (\<exists>b bo. sample_bos b = Some bo \<and>
        maps_page 14 bo a pa)"
    by (subst two_entries) (auto simp: sample_maps_page)
next
  show "\<forall>(n :: nat) \<in> dom [2 \<mapsto> (0x4000, 0x4000), 4 \<mapsto> (0x8000, 0x4000)].
      n \<notin> dom sample_bos \<and>
      (\<exists>b bo. sample_bos b = Some bo \<and>
        bo_mm bo = Some n)"
    by (subst two_entries) auto
next
  show "\<forall>b bo b' bo'. sample_bos b = Some bo \<longrightarrow>
      sample_bos b' = Some bo' \<longrightarrow>
      bo_mm bo = bo_mm bo' \<longrightarrow> b = b'"
    by (auto split: if_splits)
next
  show "\<forall>(n :: nat) n' r r'. [2 \<mapsto> (0x4000, 0x4000), 4 \<mapsto> (0x8000, 0x4000)] n = Some r \<longrightarrow>
      [2 \<mapsto> (0x4000, 0x4000), 4 \<mapsto> (0x8000, 0x4000)] n' = Some r' \<longrightarrow> n \<noteq> n' \<longrightarrow> ranges_disjoint r r'"
    by (auto simp: ranges_disjoint_def split: if_splits)
next
  show "\<forall>(h :: u32) b. [1 \<mapsto> 1, 2 \<mapsto> 3] h = Some b \<longrightarrow>
      b \<in> dom sample_bos"
    by (auto split: if_splits)
next
  show "\<forall>(h :: u32) h' (b :: nat). [1 \<mapsto> 1, 2 \<mapsto> 3] h = Some b \<longrightarrow> [1 \<mapsto> 1, 2 \<mapsto> 3] h' = Some b \<longrightarrow> h = h'"
    by (auto split: if_splits)
qed auto

lemma sample_sys_inv: "sys_inv ref_view 0x4000 0xe0000000 14 (sample_drv, l)"
proof -
  have "all_named (d_bos sample_drv) (ref_view sample_kernel)"
    unfolding all_named_def sample_view by (simp add: sample_drv_def ran_map_upd insert_commute)
  with sample_bos_inv show ?thesis
    by (simp add: sys_inv_def drv_inv_def) (simp add: sample_drv_def)
qed

lemma sample_kern [simp]: "d_kern sample_drv = sample_kernel" "d_engine_lock sample_drv = False"
  "d_iommu_lock sample_drv = False"
  by (simp_all add: sample_drv_def)

lemma sample_cfg_ok: "cfg_ok sample_api (ane_hw_h13 dev (poll_for dev)) TM_PUSH 14"
  using hw_ok_h13 [OF bounded_poll.poll] enable_ok_h13 by (simp add: cfg_ok_def ref_kapi_def)

lemma sample_page_size: "page_size sample_api = 0x4000"
  by (simp add: page_size_def ref_kapi_def)

text \<open>A submission that the driver accepts: commands of 0x100 bytes in the first object, the
  first descriptor in the second.\<close>

definition sample_submit :: submit_args where
  "sample_submit = \<lparr>s_tsk_size = 0x100, s_td_count = 1, s_td_size = 0x274,
     s_handles = 1 # replicate 96 0, s_btsp_handle = 2, s_pad = 0\<rparr>"

lemma sample_submit_shape: "args_shape sample_submit"
  by (simp add: args_shape_def sample_submit_def)

lemma sample_submit_valid:
  "submit_valid (ane_hw_h13 dev poll) 14 (ref_view sample_kernel) (d_bos sample_drv) sample_submit"
proof -
  have "bar_valid (ane_hw_h13 dev poll) 14 (ref_view sample_kernel) (d_bos sample_drv) sample_submit i"
    if "i < 32" for i
    using that
    by (cases i) (simp_all add: bar_valid_def sample_submit_def handle_bo_def sample_view sample_drv_def
        iova_too_high_def upper_32_bits_def)
  then show ?thesis
    by (simp add: submit_valid_def ane_hw_h13_def)
      (simp add: submit_refused_def sample_submit_def handle_bo_def sample_view sample_drv_def
        iova_too_high_def upper_32_bits_def)
qed

text \<open>A device that is always idle and whose other registers read back what was written.\<close>

definition sample_device :: device where
  "sample_device l a =
     (if writes_to a l \<noteq> [] then last (writes_to a l) else if a = TM_STATUS then 1 else 0)"

lemma sample_device_reads_back: "reads_back sample_device a"
  by (simp add: reads_back_def sample_device_def)

abbreviation sample_h13 :: ane_hw where
  "sample_h13 \<equiv> ane_hw_h13 sample_device (poll_for sample_device)"

section \<open>A run of the driver\<close>

text \<open>One object of two pages is created and freed, evaluated step by step.\<close>

definition sample_init :: bo_init_args where
  "sample_init = \<lparr>i_handle = 0, i_pad = 0, i_size = 0x5000, i_offset = 0\<rparr>"

definition created_args :: bo_init_args where
  "created_args = \<lparr>i_handle = 1, i_pad = 0, i_size = 0x5000, i_offset = 0x100000001\<rparr>"

definition empty_kernel :: ref_kernel where
  "empty_kernel = \<lparr>rk_blocks = [], rk_nodes = [], rk_maps = (\<lambda>_. None), rk_gems = (\<lambda>_. None),
     rk_refs = (\<lambda>_. 0), rk_pinned = {}, rk_handles = [], rk_script = []\<rparr>"

definition empty_drv :: "ref_kernel drv" where
  "empty_drv = \<lparr>d_kern = empty_kernel, d_bos = (\<lambda>_. None), d_iommu_lock = False, d_engine_lock = False\<rparr>"

definition created_kernel :: ref_kernel where
  "created_kernel = \<lparr>rk_blocks = [2, 1], rk_nodes = [(2, 0x4000, 0x8000)],
     rk_maps = [0x4000 \<mapsto> 0x800000000, 0x8000 \<mapsto> 0x800004000], rk_gems = [1 \<mapsto> 0x8000],
     rk_refs = (\<lambda>_. 0)(1 := 1), rk_pinned = {1}, rk_handles = [(1, 1)], rk_script = []\<rparr>"

definition created_drv :: "ref_kernel drv" where
  "created_drv = \<lparr>d_kern = created_kernel,
     d_bos = [1 \<mapsto> \<lparr>bo_mm = Some 2, bo_npages = 2, bo_pages = Some [0x800000000, 0x800004000],
       bo_iova = 0x4000\<rparr>], d_iommu_lock = False, d_engine_lock = False\<rparr>"

definition freed_drv :: "ref_kernel drv" where
  "freed_drv = \<lparr>d_kern = created_kernel\<lparr>rk_blocks := [], rk_nodes := [], rk_maps := (\<lambda>_. None),
     rk_gems := (\<lambda>_. None), rk_pinned := {}, rk_handles := [], rk_refs := (\<lambda>_. 0)(1 := 1)\<rparr>,
     d_bos = (\<lambda>_. None), d_iommu_lock = False, d_engine_lock = False\<rparr>"

lemma two_pages:
  "map_loop K shift iova pages i 2 k = map_loop K shift iova pages i (Suc (Suc 0)) k"
  "unmap_up K shift iova i 2 k = unmap_up K shift iova i (Suc (Suc 0)) k"
  by (simp_all only: numeral_2_eq_2)

lemma empty_initial: "initial ref_view (empty_drv, l)"
  by (simp add: initial_def empty_drv_def empty_kernel_def ref_view_def fun_eq_iff)

lemma empty_drv_inv: "drv_inv ref_view 0x4000 0xe0000000 14 empty_drv"
  using sys_inv_initial [OF empty_initial [of "[]"]] by (simp add: sys_inv_def)

lemma created_by_init: "ane_bo_init sample_api 14 sample_init empty_drv = Some (0, created_args, created_drv)"
  apply (simp add: ane_bo_init_def ref_kapi_def ref_kzalloc_def fails_def fresh_def ref_gem_init_def
      ref_mmap_offset_def sample_init_def empty_drv_def empty_kernel_def page_size_def round_up_def
      put_kern_def put_bo_def)
  apply (simp add: bo_init_pages_def ref_get_pages_def fails_def upt_conv_Cons Let_def put_bo_def
      put_kern_def new_bo_def)
  apply (simp add: ane_iommu_map_pages_def ref_kzalloc_def fails_def fresh_def lock_iommu_def
      put_bo_def put_kern_def Let_def)
  apply (simp add: map_node_def Let_def bo_bytes_def page_bytes_def ref_mm_insert_def fails_def place_def)
  apply (simp add: pages_of_def put_bo_def put_kern_def two_pages ref_iommu_map_def fails_def
      page_iova_def unlock_iommu_def)
  apply (simp add: bo_init_handle_def ref_handle_create_def fails_def fresh_def put_kern_def)
  apply (simp add: created_args_def created_drv_def created_kernel_def numeral_2_eq_2)
  done

lemma freed_by_free: "ane_bo_free sample_api 14 1 0 created_drv = Some (0, freed_drv)"
  apply (simp add: ane_bo_free_def ref_kapi_def ref_lookup_def created_drv_def created_kernel_def
      put_kern_def ref_handle_delete_def)
  apply (simp add: unmap_bo_def ane_iommu_unmap_pages_def lock_iommu_def unlock_iommu_def two_pages
      page_iova_def page_bytes_def put_kern_def drv_kfree_def ref_kfree_def
      ane_iommu_invalidate_tlb_def Let_def)
  apply (simp add: put_pages_bo_def release_bo_def free_bo_def drv_kfree_def ref_kfree_def put_kern_def)
  apply (simp add: freed_drv_def created_kernel_def fun_eq_iff)
  done

text \<open>As steps of the driver.\<close>

lemma created_run: "ane_run sample_api hw 14 (empty_drv, []) [(Bo_Init sample_init, New_Bo created_args)]
    (created_drv, [])"
proof -
  have "ane_step sample_api hw 14 (empty_drv, []) (Bo_Init sample_init) (New_Bo created_args) (created_drv, [])"
    using created_by_init by (simp add: init_reply_def)
  then show ?thesis by (blast intro: run_step run_none)
qed

lemma freed_run: "ane_run sample_api hw 14 (empty_drv, [])
    [(Bo_Init sample_init, New_Bo created_args), (Bo_Free 1 0, Result 0)] (freed_drv, [])"
proof -
  have "ane_step sample_api hw 14 (empty_drv, []) (Bo_Init sample_init) (New_Bo created_args) (created_drv, [])"
    using created_by_init by (simp add: init_reply_def)
  moreover have "ane_step sample_api hw 14 (created_drv, []) (Bo_Free 1 0) (Result 0) (freed_drv, [])"
    using freed_by_free by simp
  ultimately show ?thesis by (blast intro: run_step run_none)
qed

lemma sample_call_ok: "call_ok sample_api (Bo_Init sample_init)"
  by (simp add: call_ok_def sample_page_size) (simp add: sample_init_def round_up_def)

end
