(* ===== verification/Drv_Files.thy ===== *)
theory Drv_Files
  imports Drv_Ref
begin

text \<open>
  Several clients. Handles belong to an open file: the driver looks them up with
  \<open>bo_lookup(file, handle)\<close>, so the handle 1 of one file is not the handle 1 of another. The
  calls of \<open>Drv_Step\<close> see the table of one file; here every file has its own, a call runs on
  the table of the file it comes from, and a client may besides drop a handle with the
  \<open>GEM_CLOSE\<close> of the DRM core, which does not pass through the driver. Closing a file is to
  the core a \<open>GEM_CLOSE\<close> of each handle it still has. Since the driver registers no \<open>free\<close>
  in \<open>ane_gem_object_funcs\<close>, an object whose handle was dropped so stays as it is.
\<close>

section \<open>Handle tables\<close>

text \<open>The tables are kept by the DRM core: the table of a new file, the kernel with a given
  table in use, the table in use, and a table as a map.\<close>

record ('k, 't) files_api =
  f_none :: 't
  f_enter :: "'t \<Rightarrow> 'k \<Rightarrow> 'k"
  f_save :: "'k \<Rightarrow> 't"
  f_names :: "'t \<Rightarrow> u32 \<rightharpoonup> nat"

locale drm_files = drm_kernel K view lo hi
  for K :: "'k kapi" and view :: "'k \<Rightarrow> kview" and lo hi :: u64 +
  fixes F :: "('k, 't) files_api"
  assumes none: "f_names F (f_none F) = (\<lambda>_. None)"
    and enter: "view (f_enter F t k) = (view k)\<lparr>v_handles := f_names F t\<rparr>"
    and save: "f_names F (f_save F k) = v_handles (view k)"

section \<open>Calls of clients\<close>

datatype client_call = Ioctl ane_call | Gem_Close u32

type_synonym ('k, 't) clients = "(nat \<Rightarrow> 't) \<times> 'k system"

inductive client_step :: "'k kapi \<Rightarrow> ('k, 't) files_api \<Rightarrow> ane_hw \<Rightarrow> nat \<Rightarrow> ('k, 't) clients \<Rightarrow>
    nat \<times> client_call \<Rightarrow> ane_reply \<Rightarrow> ('k, 't) clients \<Rightarrow> bool"
  for K F hw shift where
  client_ioctl: "ane_step K hw shift (put_kern (f_enter F (ft f) (d_kern s)) s, l) c r (s1, l1) \<Longrightarrow>
    client_step K F hw shift (ft, s, l) (f, Ioctl c) r (ft(f := f_save F (d_kern s1)), s1, l1)"
| client_close: "f_names F (ft f) h \<noteq> None \<Longrightarrow>
    k1 = k_handle_delete K h (f_enter F (ft f) (d_kern s)) \<Longrightarrow>
    client_step K F hw shift (ft, s, l) (f, Gem_Close h) (Result 0)
      (ft(f := f_save F k1), put_kern k1 s, l)"
| client_close_unknown: "f_names F (ft f) h = None \<Longrightarrow>
    client_step K F hw shift (ft, s, l) (f, Gem_Close h) (Result (- EINVAL)) (ft, s, l)"

inductive_simps client_step_simps:
  "client_step K F hw shift (ft, s, l) (f, Ioctl c) r t"
  "client_step K F hw shift (ft, s, l) (f, Gem_Close h) r t"

inductive client_run :: "'k kapi \<Rightarrow> ('k, 't) files_api \<Rightarrow> ane_hw \<Rightarrow> nat \<Rightarrow> ('k, 't) clients \<Rightarrow>
    ((nat \<times> client_call) \<times> ane_reply) list \<Rightarrow> ('k, 't) clients \<Rightarrow> bool"
  for K F hw shift where
  client_none: "client_run K F hw shift x [] x"
| client_more: "client_step K F hw shift x c r y \<Longrightarrow> client_run K F hw shift y cs z \<Longrightarrow>
    client_run K F hw shift x ((c, r) # cs) z"

definition client_ok :: "'k kapi \<Rightarrow> nat \<times> client_call \<Rightarrow> bool" where
  "client_ok K c = (case snd c of Ioctl c \<Rightarrow> call_ok K c | Gem_Close _ \<Rightarrow> True)"

text \<open>The files as they are opened, on a driver that holds nothing.\<close>

definition fresh_clients :: "('k \<Rightarrow> kview) \<Rightarrow> ('k, 't) files_api \<Rightarrow> ('k, 't) clients \<Rightarrow> bool" where
  "fresh_clients view F x \<longleftrightarrow> initial view (snd x) \<and> (\<forall>f. fst x f = f_none F)"

section \<open>Invariant\<close>

text \<open>The objects are those of \<open>bos_inv\<close>, whoever names them or not; each handle of each file
  names a live object, and no two handles, of one file or of two, name the same.\<close>

definition no_names :: "kview \<Rightarrow> kview" where
  "no_names v = v\<lparr>v_handles := (\<lambda>_. None)\<rparr>"

definition names_ok :: "(nat \<Rightarrow> u32 \<rightharpoonup> nat) \<Rightarrow> (nat \<rightharpoonup> ane_bo) \<Rightarrow> bool" where
  "names_ok T bos \<longleftrightarrow> (\<forall>f h b. T f h = Some b \<longrightarrow> b \<in> dom bos) \<and>
     (\<forall>f h f' h' b. T f h = Some b \<longrightarrow> T f' h' = Some b \<longrightarrow> f = f' \<and> h = h')"

definition clients_inv :: "('k \<Rightarrow> kview) \<Rightarrow> u64 \<Rightarrow> u64 \<Rightarrow> nat \<Rightarrow> ('k, 't) files_api \<Rightarrow> ('k, 't) clients \<Rightarrow> bool" where
  "clients_inv view lo hi shift F x \<longleftrightarrow> (case x of (ft, s, l) \<Rightarrow>
     \<not> d_iommu_lock s \<and> \<not> d_engine_lock s \<and>
     bos_inv lo hi shift (d_bos s) (no_names (view (d_kern s))) \<and>
     names_ok (\<lambda>f. f_names F (ft f)) (d_bos s))"

lemma bos_inv_names:
  "bos_inv lo hi shift bos (v\<lparr>v_handles := H\<rparr>) \<longleftrightarrow> bos_inv lo hi shift bos (no_names v) \<and>
     (\<forall>h b. H h = Some b \<longrightarrow> b \<in> dom bos) \<and> (\<forall>h h' b. H h = Some b \<longrightarrow> H h' = Some b \<longrightarrow> h = h')"
  unfolding bos_inv_def no_names_def bo_ok_def by simp

lemma bos_inv_unnamed: "bos_inv lo hi shift bos v \<Longrightarrow> bos_inv lo hi shift bos (no_names v)"
  using bos_inv_names [where v = v and H = "v_handles v"] by simp

lemma no_names_simps [simp]:
  "no_names (v\<lparr>v_handles := H\<rparr>) = no_names v" "v_maps (no_names v) = v_maps v"
  by (simp_all add: no_names_def)

text \<open>What a call may do to the objects and the table of its file: an object it removes or
  changes was named by the file, an object it newly names was not there before.\<close>

definition own_effect :: "kview \<Rightarrow> (nat \<rightharpoonup> ane_bo) \<Rightarrow> kview \<Rightarrow> (nat \<rightharpoonup> ane_bo) \<Rightarrow> bool" where
  "own_effect v bos v1 bos1 \<longleftrightarrow>
     (\<forall>b \<in> dom bos. bos1 b = bos b \<or> b \<in> ran (v_handles v)) \<and>
     (\<forall>b \<in> ran (v_handles v1). b \<in> ran (v_handles v) \<or> b \<notin> dom bos)"

lemma own_effect_same:
  "v_handles v1 = v_handles v \<Longrightarrow> own_effect v bos v1 bos"
  by (simp add: own_effect_def)

lemma own_effect_add:
  "bos b = None \<Longrightarrow> v_handles v1 = (v_handles v)(h \<mapsto> b) \<Longrightarrow> own_effect v bos v1 (bos(b \<mapsto> bo))"
  by (auto simp: own_effect_def ran_def split: if_splits)

lemma own_effect_remove:
  "v_handles v h = Some b \<Longrightarrow> v_handles v1 = (v_handles v)(h := None) \<Longrightarrow>
    own_effect v bos v1 (bos(b := None))"
  by (auto simp: own_effect_def ran_def split: if_splits)

text \<open>The tables of the other files stay right.\<close>

lemma names_ok_step:
  assumes T: "names_ok T bos" and v: "v_handles v = T f" and own: "own_effect v bos v1 bos1"
    and v1: "\<forall>h b. v_handles v1 h = Some b \<longrightarrow> b \<in> dom bos1"
      "\<forall>h h' b. v_handles v1 h = Some b \<longrightarrow> v_handles v1 h' = Some b \<longrightarrow> h = h'"
  shows "names_ok (T(f := v_handles v1)) bos1"
proof -
  have inj: "f1 = f2 \<and> h1 = h2" if "T f1 h1 = Some b" "T f2 h2 = Some b" for f1 h1 f2 h2 b
    using T that by (simp add: names_ok_def)
  have live: "b \<in> dom bos" if "T g h = Some b" for g h b using T that by (auto simp: names_ok_def)
  have other: "bos1 b = bos b \<and> b \<notin> ran (v_handles v1)" if "T g h = Some b" "g \<noteq> f" for g h b
  proof -
    have "b \<notin> ran (v_handles v)" using inj that by (auto simp: v ran_def)
    with own live [OF that(1)] show ?thesis by (auto simp: own_effect_def)
  qed
  show ?thesis
    unfolding names_ok_def
  proof (intro conjI allI impI)
    fix g h b assume "(T(f := v_handles v1)) g h = Some b"
    then show "b \<in> dom bos1"
      using v1(1) other [of g h b] live [of g h b] by (cases "g = f") auto
  next
    fix g h g' h' b
    assume a: "(T(f := v_handles v1)) g h = Some b" "(T(f := v_handles v1)) g' h' = Some b"
    have "b \<in> ran (v_handles v1)" if "g = f \<or> g' = f" using a that by (auto simp: ran_def)
    then show "g = g'" "h = h'"
      using a other [of g h b] other [of g' h' b] inj [of g h b g' h'] v1(2)
      by (cases "g = f"; cases "g' = f"; auto)+
  qed
qed

section \<open>Every call of a client returns and keeps the invariant\<close>

lemma own_effect_resources:
  "same_resources v v1 \<Longrightarrow> own_effect v bos v1 bos"
  by (rule own_effect_same) (simp add: same_resources_fields)

context drm_kernel
begin

lemma ane_step_own:
  assumes inv: "drv_inv view lo hi shift s" and eng: "\<not> d_engine_lock s"
    and cfg: "cfg_ok K hw push shift" and c: "call_ok K c"
  shows "\<exists>r s1 l1. ane_step K hw shift (s, l) c r (s1, l1) \<and> drv_inv view lo hi shift s1 \<and>
    \<not> d_engine_lock s1 \<and> own_effect (view (d_kern s)) (d_bos s) (view (d_kern s1)) (d_bos s1)"
proof -
  let ?v = "view (d_kern s)"
  have sh: "shift < 32" "k_page_shift K = shift" "hw_ok hw push" using cfg by (simp_all add: cfg_ok_def)
  show ?thesis
  proof (cases c)
    case Info
    with inv eng show ?thesis by (auto intro: own_effect_same)
  next
    case (Bo_Init args)
    with c have "unat (round_up (i_size args) (page_size K)) < 2 ^ 32" by (simp add: call_ok_def)
    from ane_bo_init_ok [OF inv sh(1,2) this] obtain e args1 s1 where
      r: "ane_bo_init K shift args s = Some (e, args1, s1)" "drv_inv view lo hi shift s1" "same_locks s s1"
      and res: "if e < 0 then d_bos s1 = d_bos s \<and> same_resources ?v (view (d_kern s1))
        else e = 0 \<and> i_pad args = 0 \<and> v_handles ?v (i_handle args1) = None \<and>
          (\<exists>b bo. d_bos s b = None \<and> d_bos s1 = (d_bos s)(b \<mapsto> bo) \<and>
            v_handles (view (d_kern s1)) = (v_handles ?v)(i_handle args1 \<mapsto> b) \<and>
            unat (bo_npages bo) = unat (round_up (i_size args) (page_size K)) div 2 ^ shift)"
      by blast
    have "own_effect ?v (d_bos s) (view (d_kern s1)) (d_bos s1)"
      using res by (cases "e < 0") (auto intro: own_effect_resources own_effect_add)
    with r eng Bo_Init show ?thesis by (fastforce simp: same_locks_def)
  next
    case (Bo_Free h pad)
    from ane_bo_free_ok [OF inv sh(1), of h pad] obtain e s1 where
      r: "ane_bo_free K shift h pad s = Some (e, s1)" "drv_inv view lo hi shift s1" "same_locks s s1"
      and res: "if pad \<noteq> 0 \<or> v_handles ?v h = None
        then e = - EINVAL \<and> d_bos s1 = d_bos s \<and> same_resources ?v (view (d_kern s1))
        else e = 0 \<and> (\<exists>b bo. v_handles ?v h = Some b \<and> d_bos s b = Some bo \<and>
          d_bos s1 = (d_bos s)(b := None) \<and> v_handles (view (d_kern s1)) = (v_handles ?v)(h := None) \<and>
          v_maps (view (d_kern s1)) = maps_without shift bo ?v)"
      by blast
    have "own_effect ?v (d_bos s) (view (d_kern s1)) (d_bos s1)"
      using res by (auto intro: own_effect_resources own_effect_remove split: if_splits)
    with r eng Bo_Free show ?thesis by (fastforce simp: same_locks_def)
  next
    case (Submit args)
    with c have "args_shape args" by (simp add: call_ok_def)
    from ane_submit_ok [OF inv sh(1,3) eng this, of l] obtain e s1 l1 where
      r: "ane_submit K hw shift args s l = Some (e, s1, l1)" "drv_inv view lo hi shift s1"
        "same_locks s s1" "d_bos s1 = d_bos s" "same_resources ?v (view (d_kern s1))"
      by blast
    with eng Submit show ?thesis by (fastforce simp: same_locks_def intro: own_effect_resources)
  next
    case Suspend
    have "\<not> d_iommu_lock s" using inv by (simp add: drv_inv_def)
    from ane_runtime_suspend_ok [OF this] obtain s1 where
      "ane_runtime_suspend K s = Some (0, s1)" "d_bos s1 = d_bos s" "same_locks s s1"
      "view (d_kern s1) = ?v" by blast
    with inv eng Suspend show ?thesis
      by (fastforce simp: same_locks_def drv_inv_def intro: own_effect_same)
  next
    case Resume
    obtain l1 where "hw_tm_enable hw l = Some l1"
      using cfg by (auto simp: cfg_ok_def enable_ok_def)
    with inv eng Resume show ?thesis
      by (fastforce simp: ane_runtime_resume_def intro: own_effect_same)
  qed
qed

end

text \<open>Between two calls: the objects of the driver, and the table of each file.\<close>

definition file_objects :: "('k, 't) files_api \<Rightarrow> ('k, 't) clients \<Rightarrow> nat \<Rightarrow> nat set" where
  "file_objects F x f = ran (f_names F (fst x f))"

definition objects :: "('k, 't) clients \<Rightarrow> nat \<rightharpoonup> ane_bo" where
  "objects x = d_bos (fst (snd x))"

definition engine_maps :: "('k \<Rightarrow> kview) \<Rightarrow> ('k, 't) clients \<Rightarrow> u64 \<rightharpoonup> u64" where
  "engine_maps view x = v_maps (view (d_kern (fst (snd x))))"

text \<open>What one call of the file \<open>f\<close> may change.\<close>

definition only_own :: "('k, 't) files_api \<Rightarrow> nat \<Rightarrow> ('k, 't) clients \<Rightarrow> ('k, 't) clients \<Rightarrow> bool" where
  "only_own F f x y \<longleftrightarrow> (\<forall>g. g \<noteq> f \<longrightarrow> fst y g = fst x g) \<and>
     (\<forall>b \<in> dom (objects x). objects y b = objects x b \<or> b \<in> file_objects F x f) \<and>
     (\<forall>b \<in> file_objects F y f. b \<in> file_objects F x f \<or> b \<notin> dom (objects x))"

context drm_files
begin

lemma client_step_ok:
  assumes inv: "clients_inv view lo hi shift F x" and cfg: "cfg_ok K hw push shift"
    and ok: "client_ok K (f, c)"
  shows "\<exists>r y. client_step K F hw shift x (f, c) r y \<and> clients_inv view lo hi shift F y \<and> only_own F f x y"
proof -
  obtain ft s l where x: "x = (ft, s, l)" by (cases x) auto
  let ?T = "\<lambda>f. f_names F (ft f)" and ?s = "put_kern (f_enter F (ft f) (d_kern s)) s"
  have locks: "\<not> d_iommu_lock s" "\<not> d_engine_lock s"
    and bos: "bos_inv lo hi shift (d_bos s) (no_names (view (d_kern s)))" and T: "names_ok ?T (d_bos s)"
    using inv by (simp_all add: clients_inv_def x)
  have v: "view (d_kern ?s) = (view (d_kern s))\<lparr>v_handles := ?T f\<rparr>" by (simp add: enter)
  have "bos_inv lo hi shift (d_bos ?s) (view (d_kern ?s))"
    unfolding v bos_inv_names using bos T by (auto simp: names_ok_def)
  with locks have inv': "drv_inv view lo hi shift ?s" "\<not> d_engine_lock ?s"
    by (simp_all add: drv_inv_def)
  have h: "v_handles (view (d_kern ?s)) = ?T f" by (simp add: enter)
  have finish: "clients_inv view lo hi shift F (ft(f := f_save F (d_kern s1)), s1, l1) \<and>
      only_own F f x (ft(f := f_save F (d_kern s1)), s1, l1)"
    if s1: "drv_inv view lo hi shift s1" "\<not> d_engine_lock s1"
      and own: "own_effect (view (d_kern ?s)) (d_bos s) (view (d_kern s1)) (d_bos s1)" for s1 l1
  proof -
    have b1: "bos_inv lo hi shift (d_bos s1) (view (d_kern s1))" using s1(1) by (simp add: drv_inv_def)
    have T1: "(\<lambda>g. f_names F ((ft(f := f_save F (d_kern s1))) g)) = ?T(f := v_handles (view (d_kern s1)))"
      by (auto simp: save)
    have "names_ok (\<lambda>g. f_names F ((ft(f := f_save F (d_kern s1))) g)) (d_bos s1)"
      unfolding T1 using inv_handles [OF b1] inv_one_handle [OF b1]
      by (intro names_ok_step [OF T h own]) blast+
    with s1 b1 have "clients_inv view lo hi shift F (ft(f := f_save F (d_kern s1)), s1, l1)"
      by (simp add: clients_inv_def drv_inv_def bos_inv_unnamed)
    moreover have "only_own F f x (ft(f := f_save F (d_kern s1)), s1, l1)"
      using own unfolding own_effect_def h by (simp add: only_own_def x objects_def file_objects_def save)
    ultimately show ?thesis by simp
  qed
  show ?thesis
  proof (cases c)
    case (Ioctl d)
    then have "call_ok K d" using ok by (simp add: client_ok_def)
    from ane_step_own [OF inv' cfg this, of l] obtain r s1 l1 where
      "ane_step K hw shift (?s, l) d r (s1, l1)" "drv_inv view lo hi shift s1" "\<not> d_engine_lock s1"
      "own_effect (view (d_kern ?s)) (d_bos s) (view (d_kern s1)) (d_bos s1)" by auto
    with finish show ?thesis unfolding x Ioctl by (blast intro: client_ioctl)
  next
    case (Gem_Close hd)
    show ?thesis
    proof (cases "?T f hd")
      case None
      have "only_own F f x x" by (simp add: only_own_def)
      with None inv show ?thesis unfolding x Gem_Close by (blast intro: client_close_unknown)
    next
      case (Some b)
      let ?k = "f_enter F (ft f) (d_kern s)" and ?k1 = "k_handle_delete K hd (f_enter F (ft f) (d_kern s))"
      have hk: "v_handles (view ?k) = ?T f" by (simp add: enter)
      have law: "view ?k1 = (view ?k)\<lparr>v_handles := (?T f)(hd := None),
          v_refs := (v_refs (view ?k))(b := v_refs (view ?k) b - 1)\<rparr>"
        using handle_delete [of ?k hd b] Some by (simp add: hk)
      have same: "same_resources (view ?k) ((view ?k1)\<lparr>v_handles := ?T f\<rparr>)"
        by (simp add: law same_resources_fields hk)
      have "bos_inv lo hi shift (d_bos s) (view ?k)" using inv'(1) by (simp add: drv_inv_def)
      then have "bos_inv lo hi shift (d_bos s) ((view ?k1)\<lparr>v_handles := ?T f\<rparr>)"
        using bos_inv_same_resources [OF same] by simp
      then have "bos_inv lo hi shift (d_bos s) ((view ?k1)\<lparr>v_handles := (?T f)(hd := None)\<rparr>)"
        unfolding bos_inv_names by (auto split: if_splits)
      moreover have "(view ?k1)\<lparr>v_handles := (?T f)(hd := None)\<rparr> = view ?k1" by (simp add: law)
      ultimately have "bos_inv lo hi shift (d_bos s) (view ?k1)" by simp
      with locks have "drv_inv view lo hi shift (put_kern ?k1 s)" "\<not> d_engine_lock (put_kern ?k1 s)"
        by (simp_all add: drv_inv_def)
      moreover have "own_effect (view (d_kern ?s)) (d_bos s) (view (d_kern (put_kern ?k1 s)))
          (d_bos (put_kern ?k1 s))"
        by (auto simp: own_effect_def law hk ran_def split: if_splits)
      ultimately have "clients_inv view lo hi shift F (ft(f := f_save F ?k1), put_kern ?k1 s, l) \<and>
          only_own F f x (ft(f := f_save F ?k1), put_kern ?k1 s, l)"
        using finish [of "put_kern ?k1 s" l] by simp
      moreover have "client_step K F hw shift x (f, c) (Result 0)
          (ft(f := f_save F ?k1), put_kern ?k1 s, l)"
        unfolding x Gem_Close by (rule client_close) (simp_all add: Some)
      ultimately show ?thesis by blast
    qed
  qed
qed

lemma client_step_deterministic:
  assumes "client_step K F hw shift x (f, c) r y" and "client_step K F hw shift x (f, c) r' y'"
  shows "r' = r \<and> y' = y"
proof -
  obtain ft s l where x: "x = (ft, s, l)" by (cases x) auto
  show ?thesis
    using assms unfolding x
    by (cases c) (auto simp: client_step_simps dest: ane_step_deterministic)
qed

lemma client_step_inv:
  assumes "clients_inv view lo hi shift F x" and "cfg_ok K hw push shift" and "client_ok K (f, c)"
    and "client_step K F hw shift x (f, c) r y"
  shows "clients_inv view lo hi shift F y" and "only_own F f x y"
  using client_step_ok [OF assms(1-3)] client_step_deterministic [OF assms(4)] by blast+

lemma client_run_inv:
  assumes "client_run K F hw shift x cs y" and "clients_inv view lo hi shift F x"
    and "cfg_ok K hw push shift" and "\<forall>c \<in> fst ` set cs. client_ok K c"
  shows "clients_inv view lo hi shift F y"
  using assms by (induction rule: client_run.induct) (auto dest: client_step_inv(1))

lemma client_run_returns:
  assumes "clients_inv view lo hi shift F x" and "cfg_ok K hw push shift" and "\<forall>c \<in> set cs. client_ok K c"
  shows "\<exists>rs y. length rs = length cs \<and> client_run K F hw shift x (zip cs rs) y \<and>
    clients_inv view lo hi shift F y"
  using assms
proof (induction cs arbitrary: x)
  case Nil
  then show ?case by (intro exI [of _ "[]"] exI [of _ x]) (simp add: client_none)
next
  case (Cons c cs)
  then obtain r z where z: "client_step K F hw shift x c r z" "clients_inv view lo hi shift F z"
    using client_step_ok [of shift x hw push "fst c" "snd c"] by auto
  with Cons obtain rs y where "length rs = length cs" "client_run K F hw shift z (zip cs rs) y"
    "clients_inv view lo hi shift F y" by (metis list.set_intros(2))
  with z show ?case
    by (intro exI [of _ "r # rs"] exI [of _ y]) (auto intro: client_more)
qed

lemma clients_inv_fresh: "fresh_clients view F x \<Longrightarrow> clients_inv view lo hi shift F x"
  by (cases x) (auto simp: fresh_clients_def initial_def clients_inv_def bos_inv_def no_names_def
      names_ok_def none Let_def)

end

section \<open>What clients can rely on\<close>

text \<open>Objects apart, each handle its own, and the engine at their pages.\<close>

definition isolated :: "('k \<Rightarrow> kview) \<Rightarrow> ('k, 't) files_api \<Rightarrow> nat \<Rightarrow> ('k, 't) clients \<Rightarrow> bool" where
  "isolated view F shift x \<longleftrightarrow>
     (\<forall>b b' bo bo'. objects x b = Some bo \<longrightarrow> objects x b' = Some bo' \<longrightarrow> b \<noteq> b' \<longrightarrow>
        unat (bo_iova bo) + unat (bo_npages bo) * 2 ^ shift \<le> unat (bo_iova bo') \<or>
        unat (bo_iova bo') + unat (bo_npages bo') * 2 ^ shift \<le> unat (bo_iova bo)) \<and>
     (\<forall>f h b. f_names F (fst x f) h = Some b \<longrightarrow> objects x b \<noteq> None \<and>
        (\<forall>f' h'. f_names F (fst x f') h' = Some b \<longrightarrow> f' = f \<and> h' = h)) \<and>
     (\<forall>a pa. engine_maps view x a = Some pa \<longleftrightarrow>
        (\<exists>b bo. objects x b = Some bo \<and> maps_page shift bo a pa))"

definition unnamed :: "('k, 't) files_api \<Rightarrow> ('k, 't) clients \<Rightarrow> nat \<Rightarrow> bool" where
  "unnamed F x b \<longleftrightarrow> (\<forall>f. b \<notin> file_objects F x f)"

lemma clients_inv_isolated:
  assumes "clients_inv view lo hi shift F x"
  shows "isolated view F shift x"
proof -
  obtain ft s l where x: "x = (ft, s, l)" by (cases x) auto
  have bos: "bos_inv lo hi shift (d_bos s) (no_names (view (d_kern s)))"
    and T: "names_ok (\<lambda>f. f_names F (ft f)) (d_bos s)"
    using assms by (simp_all add: clients_inv_def x)
  have "objects x b \<noteq> None \<and> (\<forall>f' h'. f_names F (fst x f') h' = Some b \<longrightarrow> f' = f \<and> h' = h)"
    if "f_names F (fst x f) h = Some b" for f h b
    using T that unfolding names_ok_def x objects_def fst_conv snd_conv by blast
  with bo_ranges_apart [OF bos] inv_maps [OF bos] show ?thesis
    unfolding isolated_def x objects_def engine_maps_def fst_conv snd_conv no_names_simps by simp
qed

lemma isolatedD:
  assumes "isolated view F shift x" and "objects x b = Some bo" and "maps_page shift bo a pa"
  shows "engine_maps view x a = Some pa"
  using assms unfolding isolated_def by blast

lemma only_own_other:
  assumes "only_own F f x y" and "isolated view F shift x" and "g \<noteq> f" and "b \<in> file_objects F x g"
  shows "objects y b = objects x b"
proof -
  obtain h where h: "f_names F (fst x g) h = Some b" using assms(4) by (auto simp: file_objects_def ran_def)
  then have "b \<in> dom (objects x)" "b \<notin> file_objects F x f"
    using assms(2,3) unfolding isolated_def file_objects_def ran_def by blast+
  with assms(1) show ?thesis by (auto simp: only_own_def)
qed

lemma only_own_unnamed:
  assumes "only_own F f x y" and "unnamed F x b" and "b \<in> dom (objects x)"
  shows "unnamed F y b \<and> objects y b = objects x b"
proof -
  have "b \<notin> file_objects F y g" for g
    using assms by (cases "g = f") (auto simp: only_own_def unnamed_def file_objects_def)
  with assms show ?thesis by (auto simp: only_own_def unnamed_def)
qed

context drm_files
begin

lemma unnamed_stays:
  assumes "client_run K F hw shift x cs y" and "clients_inv view lo hi shift F x" and "cfg_ok K hw push shift"
    and "\<forall>c \<in> fst ` set cs. client_ok K c" and "unnamed F x b" and "b \<in> dom (objects x)"
  shows "unnamed F y b \<and> objects y b = objects x b"
  using assms
proof (induction rule: client_run.induct)
  case (client_none x)
  then show ?case by simp
next
  case (client_more x c r y cs z)
  obtain f d where c: "c = (f, d)" by (cases c)
  have ok: "client_ok K (f, d)" and rest: "\<forall>c \<in> fst ` set cs. client_ok K c"
    using client_more.prems(3) by (auto simp: c)
  note step = client_step_inv [OF client_more.prems(1,2) ok client_more.hyps(1) [unfolded c]]
  from only_own_unnamed [OF step(2) client_more.prems(4,5)] client_more.prems(5)
  have "unnamed F y b" "objects y b = objects x b" "b \<in> dom (objects y)" by auto
  with client_more.IH [OF step(1) client_more.prems(2) rest] show ?case by simp
qed

text \<open>A closed handle leaves its object behind, named by nobody.\<close>

lemma closed_unnamed:
  assumes inv: "clients_inv view lo hi shift F x" and h: "f_names F (fst x f) h = Some b"
    and step: "client_step K F hw shift x (f, Gem_Close h) r y"
  shows "unnamed F y b" and "objects y = objects x"
proof -
  obtain ft s l where x: "x = (ft, s, l)" by (cases x) auto
  let ?k = "f_enter F (ft f) (d_kern s)" and ?k1 = "k_handle_delete K h (f_enter F (ft f) (d_kern s))"
  have y: "y = (ft(f := f_save F ?k1), put_kern ?k1 s, l)"
    using step h unfolding x by (auto simp: client_step_simps)
  have "v_handles (view ?k) h = Some b" using h by (simp add: enter x)
  then have "f_names F (f_save F ?k1) = (f_names F (ft f))(h := None)"
    by (simp add: save handle_delete) (simp add: enter)
  moreover have "g = f \<and> h' = h" if "f_names F (ft g) h' = Some b" for g h'
    using clients_inv_isolated [OF inv] h that unfolding isolated_def x fst_conv by blast
  ultimately show "unnamed F y b"
    by (auto simp: unnamed_def file_objects_def y ran_def)
  show "objects y = objects x" by (simp add: y x objects_def)
qed

end

section \<open>The reference kernel has such tables\<close>

definition ref_files :: "(ref_kernel, (u32 \<times> nat) list) files_api" where
  "ref_files = \<lparr>f_none = [], f_enter = (\<lambda>t k. k\<lparr>rk_handles := t\<rparr>), f_save = rk_handles, f_names = map_of\<rparr>"

interpretation ref_tables: drm_files "ref_kapi lo hi shift" ref_view lo hi ref_files for lo hi shift
  by unfold_locales (simp_all add: ref_files_def ref_view_def fun_eq_iff)

text \<open>Two files: the first one creates an object, the second one fails to free it, since the
  handle is not one of its own, and the first one closes its handle.\<close>

abbreviation no_files :: "nat \<Rightarrow> (u32 \<times> nat) list" where
  "no_files \<equiv> (\<lambda>_. f_none ref_files)"

abbreviation created_clients :: "(ref_kernel, (u32 \<times> nat) list) clients" where
  "created_clients \<equiv> (no_files(0 := [(1, 1)]), created_drv, [])"

lemma created_client_step:
  "client_step sample_api ref_files hw 14 (no_files, empty_drv, []) (0, Ioctl (Bo_Init sample_init))
    (New_Bo created_args) created_clients"
proof -
  have e: "put_kern (f_enter ref_files (no_files 0) (d_kern empty_drv)) empty_drv = empty_drv"
    by (simp add: ref_files_def put_kern_def empty_drv_def empty_kernel_def)
  have "ane_step sample_api hw 14 (put_kern (f_enter ref_files (no_files 0) (d_kern empty_drv)) empty_drv, [])
      (Bo_Init sample_init) (New_Bo created_args) (created_drv, [])"
    unfolding e using created_by_init by (simp add: init_reply_def)
  from client_ioctl [where ft = no_files and f = 0, OF this]
  show ?thesis by (simp add: ref_files_def created_drv_def created_kernel_def)
qed

lemma created_client_run:
  "client_run sample_api ref_files hw 14 (no_files, empty_drv, [])
    [((0, Ioctl (Bo_Init sample_init)), New_Bo created_args)] created_clients"
  by (rule client_more [OF created_client_step client_none])

lemma fresh_sample: "fresh_clients ref_view ref_files (no_files, empty_drv, [])"
  using empty_initial by (simp add: fresh_clients_def)

end
