(* ===== verification/Drv_Correct.thy ===== *)
theory Drv_Correct
  imports Drv_Files
begin

text \<open>
  The properties of the kernel driver, stated for any kernel that meets the contract
  \<open>drm_kernel\<close>, and \<open>drm_files\<close> where several open files matter, each with an application to
  the reference kernel of \<open>Drv_Ref\<close>.
\<close>

section \<open>Buffer objects\<close>

text \<open>C11: \<open>ane_bo_init\<close>, asked for less than 4 GiB once rounded, is all or nothing. Whichever service fails, the error path gives back
  everything acquired so far, the objects and all of the kernel's resources are as before; a
  success adds one object of the rounded size under a fresh handle, mapped in a range of its
  own, and keeps the invariant.\<close>
theorem ane_bo_init_correct:
  assumes "drm_kernel K view lo hi" and "drv_inv view lo hi shift s" and "shift < 32"
    and "k_page_shift K = shift" and "unat (round_up (i_size args) (page_size K)) < 2 ^ 32"
  shows "\<exists>e args1 s1. ane_bo_init K shift args s = Some (e, args1, s1) \<and>
    drv_inv view lo hi shift s1 \<and> same_locks s s1 \<and>
    (if e < 0 then d_bos s1 = d_bos s \<and> same_resources (view (d_kern s)) (view (d_kern s1))
     else e = 0 \<and> i_pad args = 0 \<and> v_handles (view (d_kern s)) (i_handle args1) = None \<and>
       (\<exists>b bo. d_bos s b = None \<and> d_bos s1 = (d_bos s)(b \<mapsto> bo) \<and>
         v_handles (view (d_kern s1)) = (v_handles (view (d_kern s)))(i_handle args1 \<mapsto> b) \<and>
         unat (bo_npages bo) = unat (round_up (i_size args) (page_size K)) div 2 ^ shift))"
  by (rule drm_kernel.ane_bo_init_ok [OF assms])

lemma sample_drv_inv: "drv_inv ref_view 0x4000 0xe0000000 14 sample_drv"
  using sample_sys_inv [of "[]"] by (simp add: sys_inv_def)

lemma sample_shift: "k_page_shift sample_api = 14"
  by (simp add: ref_kapi_def)

theorem ane_bo_init_correct_witness:
  "ane_bo_init sample_api 14 sample_init empty_drv = Some (0, created_args, created_drv) \<and>
    drv_inv ref_view 0x4000 0xe0000000 14 created_drv"
  using ane_bo_init_correct [OF ref.drm_kernel_axioms empty_drv_inv _ sample_shift, of sample_init]
    created_by_init sample_call_ok
  by (auto simp: call_ok_def)



text \<open>\<open>ane_iommu_map_pages\<close> maps all pages of an object in order into a fresh aligned range,
  or, when the allocation, the range or any single mapping fails, none: the rollback leaves
  the kernel as it was and the mutex is released.\<close>
theorem ane_iommu_map_pages_correct:
  assumes "drm_kernel K view lo hi" and "d_bos s b = Some bo" and "bo_mm bo = None"
    and "\<not> d_iommu_lock s" and "unat (bo_npages bo) * 2 ^ shift < 2 ^ 32" and "shift < 32"
    and "unat (bo_npages bo) \<le> length (pages_of bo)" and "maps_reserved (view (d_kern s))"
    and "dom (v_nodes (view (d_kern s))) \<subseteq> v_blocks (view (d_kern s))"
  shows "\<exists>e s1. ane_iommu_map_pages K shift b s = Some (e, s1) \<and>
    mapped_state view lo hi shift b bo s e s1"
  by (rule drm_kernel.map_pages_ok [OF assms])

definition unmapped_bo :: ane_bo where
  "unmapped_bo = \<lparr>bo_mm = None, bo_npages = 2, bo_pages = Some [0x900000000, 0x900004000], bo_iova = 0\<rparr>"

theorem ane_iommu_map_pages_correct_witness:
  "\<exists>e s1. ane_iommu_map_pages sample_api 14 5 (put_bo 5 unmapped_bo sample_drv) = Some (e, s1) \<and>
    mapped_state ref_view 0x4000 0xe0000000 14 5 unmapped_bo (put_bo 5 unmapped_bo sample_drv) e s1"
  by (rule ane_iommu_map_pages_correct [OF ref.drm_kernel_axioms])
    (use bos_inv_reserved [OF sample_bos_inv] in \<open>simp_all add: unmapped_bo_def pages_of_def\<close>)

text \<open>The CPU and the engine see the same memory: a page fault at an offset inside an object
  inserts the very page the engine has mapped at the same offset of the object's range.\<close>
theorem ane_gem_vm_fault_correct:
  assumes "bos_inv lo hi shift bos v" and "bos b = Some bo" and "k_page_shift K = shift"
    and "unat (address - vm_start) < unat (bo_npages bo) * 2 ^ shift"
  shows "\<exists>j pa. j = unat (address - vm_start) div 2 ^ shift \<and>
    ane_gem_vm_fault K bo vm_start address = Some (Inr pa) \<and>
    v_maps v (page_iova shift (bo_iova bo) j) = Some pa"
proof -
  let ?j = "unat (address - vm_start) div 2 ^ shift"
  have "?j < unat (bo_npages bo)" using assms(4) by (simp add: less_mult_imp_div_less)
  then show ?thesis
    using fault_page [OF inv_bo [OF assms(1,2)] assms(3) refl] mapped_page [OF assms(1,2)] by blast
qed

theorem ane_gem_vm_fault_correct_witness:
  "\<exists>pa. ane_gem_vm_fault sample_api (sample_bo 2 0x4000 0x800000000) 0x7f0000000000 0x7f0000001234 =
      Some (Inr pa) \<and> v_maps (ref_view sample_kernel) 0x4000 = Some pa"
  using ane_gem_vm_fault_correct [OF sample_bos_inv, of 1 "sample_bo 2 0x4000 0x800000000" sample_api
      "0x7f0000001234" "0x7f0000000000"] sample_shift
  by (simp add: sample_drv_def page_iova_def)

text \<open>For an object of 4 GiB or more the 32-bit products wrap: with 16 KiB pages, page
  \<open>2 ^ 18\<close> gets the address of page 0, and an object of \<open>2 ^ 18 + 1\<close> pages reserves a range of
  one page only.\<close>
theorem bo_over_4gib_wraps:
  "page_iova 14 iova (2 ^ 18) = iova \<and> bo_bytes 14 (2 ^ 18 + 1) = 0x4000"
  by (simp add: page_iova_def bo_bytes_def)

section \<open>Submission\<close>

text \<open>C4: \<open>ane_submit\<close> refines its specification. A submission the specification refuses gets
  EINVAL without any access to the device; an accepted one runs enqueue and execute once on
  the request the specification resolves, rings the doorbell exactly once, releases the
  engine lock and returns the result. Each lookup takes a reference that is never dropped:
  the counts grow by the number of times the submission names an object.\<close>
theorem ane_submit_correct:
  assumes "drm_kernel K view lo hi" and "drv_inv view lo hi shift s" and "shift < 32"
    and "hw_ok hw push" and "\<not> d_engine_lock s" and "args_shape args"
  shows "\<exists>e s1 l1. ane_submit K hw shift args s l = Some (e, s1, l1) \<and>
    drv_inv view lo hi shift s1 \<and> same_locks s s1 \<and> d_bos s1 = d_bos s \<and>
    same_resources (view (d_kern s)) (view (d_kern s1)) \<and>
    (if submit_valid hw shift (view (d_kern s)) (d_bos s) args
     then let req = spec_request hw (view (d_kern s)) (d_bos s) args in
       e \<le> 0 \<and> (\<exists>xs ys v. hw_tm_enqueue hw req l = Some (0, l @ xs) \<and>
         hw_tm_execute hw req (l @ xs) = Some (e, l1) \<and> l1 = l @ xs @ ys \<and>
         writes_to push (xs @ ys) = [v]) \<and>
       (\<forall>b. v_refs (view (d_kern s1)) b =
          v_refs (view (d_kern s)) b + submit_refs hw (view (d_kern s)) args b)
     else e = - EINVAL \<and> l1 = l)"
  by (rule drm_kernel.ane_submit_ok [OF assms])

theorem ane_submit_correct_witness:
  "\<exists>e s1 l1. ane_submit sample_api sample_h13 14 sample_submit sample_drv [] = Some (e, s1, l1) \<and>
    e \<le> 0 \<and> drv_inv ref_view 0x4000 0xe0000000 14 s1 \<and> v_refs (ref_view (d_kern s1)) 1 = 2"
proof -
  have refs: "submit_refs sample_h13 (ref_view sample_kernel) sample_submit 1 = 1"
  proof -
    have "lookup_refs (ref_view sample_kernel) (s_handles sample_submit ! i) 1 = (if i = 0 then 1 else 0)"
      if "i < 32" for i
      using that by (cases i) (simp_all add: lookup_refs_def sample_submit_def sample_view)
    then have "bars_refs (ref_view sample_kernel) sample_submit 32 1 =
        (\<Sum>i :: nat<32. if i = 0 then 1 else 0)"
      unfolding bars_refs_def by (intro sum.cong) simp_all
    then show ?thesis
      by (simp add: submit_refs_def ane_hw_h13_def)
        (simp add: lookup_refs_def sample_submit_def sample_view)
  qed
  have "hw_ok sample_h13 TM_PUSH" by (rule hw_ok_h13 [OF bounded_poll.poll])
  then show ?thesis
    using ane_submit_correct [where K = sample_api and view = ref_view and lo = "0x4000" and hi = "0xe0000000"
        and shift = 14 and s = sample_drv and hw = sample_h13 and push = TM_PUSH
        and args = sample_submit and l = "[]"] ref.drm_kernel_axioms sample_drv_inv sample_submit_shape refs
      sample_submit_valid [of sample_device "poll_for sample_device"]
    by (auto simp: Let_def sample_view)
qed

text \<open>What the specification resolves lies in buffer objects.\<close>

lemma spec_request_in_bounds:
  assumes inv: "bos_inv lo hi shift bos v" and "4 \<le> shift" and "hw_ok hw push"
    and valid: "submit_valid hw shift v bos args"
  shows "let req = spec_request hw v bos args in
    (\<exists>b bo. v_handles v (s_handles args ! CMD_BUF_BDX) = Some b \<and> bos b = Some bo \<and>
      rq_bar req ! CMD_BUF_BDX = bo_iova bo \<and> unat (bo_iova bo) < unat (rq_bar req ! KRN_BUF_BDX) \<and>
      unat (rq_bar req ! KRN_BUF_BDX) \<le> unat (bo_iova bo) + unat (bo_npages bo) * 2 ^ shift) \<and>
    (\<forall>i < ANE_MAX_TILE_COUNT. i \<noteq> KRN_BUF_BDX \<longrightarrow> rq_bar req ! i = 0 \<or>
      (\<exists>b bo. v_handles v (s_handles args ! i) = Some b \<and> bos b = Some bo \<and>
        rq_bar req ! i = bo_iova bo \<and>
        (hw_id hw \<le> DRM_ANE_ID_H13 \<longrightarrow> upper_32_bits (rq_bar req ! i) = 0))) \<and>
    (\<exists>b bo. v_handles v (s_btsp_handle args) = Some b \<and> bos b = Some bo \<and>
      rq_btsp_iova req = bo_iova bo \<and>
      (hw_id hw \<le> DRM_ANE_ID_H13 \<longrightarrow> upper_32_bits (rq_btsp_iova req) = 0))"
proof -
  have n: "0 < unat (hw_bar_count hw)" using assms(3) by (simp add: hw_ok_def)
  have bars: "spec_bar hw v bos args i = 0 \<or>
      (\<exists>b bo. v_handles v (s_handles args ! i) = Some b \<and> bos b = Some bo \<and>
        spec_bar hw v bos args i = bo_iova bo \<and>
        (hw_id hw \<le> DRM_ANE_ID_H13 \<longrightarrow> upper_32_bits (spec_bar hw v bos args i) = 0))" if "i \<noteq> 1" for i
  proof (cases "i < unat (hw_bar_count hw) \<and> s_handles args ! i \<noteq> 0")
    case True
    then have "bar_valid hw shift v bos args i" using valid by (simp add: submit_valid_def)
    with True that show ?thesis
      by (fastforce simp: bar_valid_def spec_bar_def handle_iova_def handle_bo_def bind_eq_Some_conv
          iova_too_high_def split: option.splits)
  next
    case False
    with that show ?thesis by (auto simp: spec_bar_def handle_iova_def)
  qed
  have "\<exists>b bo. v_handles v (s_btsp_handle args) = Some b \<and> bos b = Some bo \<and>
      handle_iova v bos (s_btsp_handle args) = bo_iova bo \<and>
      (hw_id hw \<le> DRM_ANE_ID_H13 \<longrightarrow> upper_32_bits (handle_iova v bos (s_btsp_handle args)) = 0)"
    using valid by (fastforce simp: submit_valid_def submit_refused_def handle_iova_def handle_bo_def
        bind_eq_Some_conv iova_too_high_def split: option.splits)
  with bars spec_bar_cmd [OF inv assms(2) valid n] show ?thesis
    by (simp add: spec_request_def Let_def)
qed

text \<open>C21: What \<open>ane_submit\<close> hands to the engine lies in buffer objects. Whenever the call
  touches the device, it has run enqueue and execute on a request whose command address is
  the base of the object of the first handle; the weights start behind that address and at
  most at the end of that object; the first descriptor is at the base of the object of the
  bootstrap handle; and every other register is 0 or the base of the object of its handle.
  Bases are below 4 GiB up to the H13.\<close>
theorem ane_submit_in_bounds:
  assumes "drm_kernel K view lo hi" and "drv_inv view lo hi shift s" and "4 \<le> shift" and "shift < 32"
    and "hw_ok hw push" and "\<not> d_engine_lock s" and "args_shape args"
    and "ane_submit K hw shift args s l = Some (e, s1, l1)" and "l1 \<noteq> l"
  shows "\<exists>req l2. hw_tm_enqueue hw req l = Some (0, l2) \<and> hw_tm_execute hw req l2 = Some (e, l1) \<and>
    (let H = v_handles (view (d_kern s)); bos = d_bos s in
    (\<exists>b bo. H (s_handles args ! CMD_BUF_BDX) = Some b \<and> bos b = Some bo \<and>
      rq_bar req ! CMD_BUF_BDX = bo_iova bo \<and> unat (bo_iova bo) < unat (rq_bar req ! KRN_BUF_BDX) \<and>
      unat (rq_bar req ! KRN_BUF_BDX) \<le> unat (bo_iova bo) + unat (bo_npages bo) * 2 ^ shift) \<and>
    (\<forall>i < ANE_MAX_TILE_COUNT. i \<noteq> KRN_BUF_BDX \<longrightarrow> rq_bar req ! i = 0 \<or>
      (\<exists>b bo. H (s_handles args ! i) = Some b \<and> bos b = Some bo \<and> rq_bar req ! i = bo_iova bo \<and>
        (hw_id hw \<le> DRM_ANE_ID_H13 \<longrightarrow> upper_32_bits (rq_bar req ! i) = 0))) \<and>
    (\<exists>b bo. H (s_btsp_handle args) = Some b \<and> bos b = Some bo \<and> rq_btsp_iova req = bo_iova bo \<and>
      (hw_id hw \<le> DRM_ANE_ID_H13 \<longrightarrow> upper_32_bits (rq_btsp_iova req) = 0)))"
proof -
  let ?v = "view (d_kern s)" and ?req = "spec_request hw (view (d_kern s)) (d_bos s) args"
  have bos: "bos_inv lo hi shift (d_bos s) ?v" using assms(2) by (simp add: drv_inv_def)
  note ok = drm_kernel.ane_submit_ok [OF assms(1,2,4,5,6,7), of l]
  have valid: "submit_valid hw shift ?v (d_bos s) args"
    using ok assms(8,9) by (auto split: if_splits)
  then obtain xs where "hw_tm_enqueue hw ?req l = Some (0, l @ xs)"
    "hw_tm_execute hw ?req (l @ xs) = Some (e, l1)"
    using ok assms(8) by (auto simp: Let_def)
  with spec_request_in_bounds [OF bos assms(3,5) valid] show ?thesis
    unfolding Let_def by (intro exI [of _ ?req] exI [of _ "l @ xs"]) simp
qed

theorem ane_submit_in_bounds_witness:
  "\<exists>e s1 l1 req l2. ane_submit sample_api sample_h13 14 sample_submit sample_drv [] = Some (e, s1, l1) \<and>
    hw_tm_enqueue sample_h13 req [] = Some (0, l2) \<and> hw_tm_execute sample_h13 req l2 = Some (e, l1) \<and>
    rq_bar req ! 0 = 0x4000 \<and> unat (rq_bar req ! 1) \<le> 0x8000 \<and> rq_btsp_iova req = 0x8000"
proof -
  have hw: "hw_ok sample_h13 TM_PUSH" by (rule hw_ok_h13 [OF bounded_poll.poll])
  obtain e s1 l1 where r: "ane_submit sample_api sample_h13 14 sample_submit sample_drv [] = Some (e, s1, l1)"
    and "l1 \<noteq> []"
    using ref.ane_submit_ok [OF sample_drv_inv _ hw _ sample_submit_shape, where l = "[]"]
      sample_submit_valid [of sample_device "poll_for sample_device"]
    by (fastforce simp: Let_def sample_view)
  have args: "s_handles sample_submit ! 0 = 1" "s_btsp_handle sample_submit = 2" "d_bos sample_drv = sample_bos"
    by (simp_all add: sample_submit_def sample_drv_def)
  from ane_submit_in_bounds [OF ref.drm_kernel_axioms sample_drv_inv _ _ hw _ sample_submit_shape r \<open>l1 \<noteq> []\<close>]
  obtain req l2 where "hw_tm_enqueue sample_h13 req [] = Some (0, l2)"
    "hw_tm_execute sample_h13 req l2 = Some (e, l1)" "rq_bar req ! 0 = 0x4000"
    "unat (rq_bar req ! 1) \<le> 0x8000" "rq_btsp_iova req = 0x8000"
    by (auto simp: Let_def sample_view args)
  with r show ?thesis by blast
qed

section \<open>All sequences of calls\<close>

text \<open>C18: Every sequence of calls by any number of open files - the ioctls of the driver, its
  runtime power callbacks and the \<open>GEM_CLOSE\<close> of the core, in any order, each buffer object
  asked for below 4 GiB once rounded - returns, call by call, from the state after a probe;
  the state it reaches satisfies the invariant: no mutex stays locked, each object owns its
  range, pages and node, each handle of each file names a live object of its own.\<close>
theorem driver_calls_return:
  assumes "drm_files K view lo hi F" and "fresh_clients view F x" and "cfg_ok K hw push shift"
    and "\<forall>c \<in> set cs. client_ok K c"
  shows "\<exists>rs y. length rs = length cs \<and> client_run K F hw shift x (zip cs rs) y \<and>
    clients_inv view lo hi shift F y"
  by (rule drm_files.client_run_returns [OF assms(1) drm_files.clients_inv_fresh [OF assms(1,2)] assms(3,4)])

definition sample_calls :: "(nat \<times> client_call) list" where
  "sample_calls = [(0, Ioctl Resume), (0, Ioctl (Bo_Init sample_init)), (1, Ioctl (Bo_Init sample_init)),
     (1, Ioctl (Submit sample_submit)), (0, Gem_Close 1), (1, Ioctl (Bo_Free 1 0)), (1, Ioctl Suspend)]"

lemma sample_calls_ok: "\<forall>c \<in> set sample_calls. client_ok sample_api c"
  using sample_call_ok by (simp add: sample_calls_def client_ok_def call_ok_def sample_submit_shape)

theorem driver_calls_return_witness:
  "\<exists>rs y. length rs = length sample_calls \<and>
     client_run sample_api ref_files sample_h13 14 (no_files, empty_drv, []) (zip sample_calls rs) y \<and>
     clients_inv ref_view 0x4000 0xe0000000 14 ref_files y"
  by (rule driver_calls_return [OF ref_tables.drm_files_axioms fresh_sample sample_cfg_ok [of sample_device]
        sample_calls_ok])

text \<open>C3: Isolation. In every state the calls of any number of open files reach - ioctls of the
  driver, power callbacks and the \<open>GEM_CLOSE\<close> of the core, each buffer object below 4 GiB once
  rounded - the address ranges of two objects are disjoint, whoever owns them; each handle
  names a live object, and no other handle of the same or of another file names it; and the
  engine can reach exactly the pages of the objects.\<close>
theorem driver_isolation:
  assumes "drm_files K view lo hi F" and "fresh_clients view F x" and "cfg_ok K hw push shift"
    and "\<forall>c \<in> fst ` set cs. client_ok K c" and "client_run K F hw shift x cs y"
  shows "(\<forall>b b' bo bo'. objects y b = Some bo \<longrightarrow> objects y b' = Some bo' \<longrightarrow> b \<noteq> b' \<longrightarrow>
      unat (bo_iova bo) + unat (bo_npages bo) * 2 ^ shift \<le> unat (bo_iova bo') \<or>
      unat (bo_iova bo') + unat (bo_npages bo') * 2 ^ shift \<le> unat (bo_iova bo)) \<and>
    (\<forall>f h b. f_names F (fst y f) h = Some b \<longrightarrow> objects y b \<noteq> None \<and>
      (\<forall>f' h'. f_names F (fst y f') h' = Some b \<longrightarrow> f' = f \<and> h' = h)) \<and>
    (\<forall>a pa. engine_maps view y a = Some pa \<longleftrightarrow>
      (\<exists>b bo. objects y b = Some bo \<and> maps_page shift bo a pa))"
proof -
  have "isolated view F shift y"
    using drm_files.client_run_inv [OF assms(1,5) drm_files.clients_inv_fresh [OF assms(1,2)] assms(3,4)]
    by (rule clients_inv_isolated)
  then show ?thesis unfolding isolated_def .
qed

lemma created_maps: "v_maps (ref_view (d_kern created_drv)) = [0x4000 \<mapsto> 0x800000000, 0x8000 \<mapsto> 0x800004000]"
  by (simp add: created_drv_def created_kernel_def ref_view_def)

lemma created_ok: "\<forall>c \<in> fst ` set [((0, Ioctl (Bo_Init sample_init)), New_Bo created_args)]. client_ok sample_api c"
  using sample_call_ok by (simp add: client_ok_def)

lemmas created_facts = ref_tables.drm_files_axioms fresh_sample sample_cfg_ok [of sample_device] created_ok
  created_client_run

theorem driver_isolation_witness:
  "\<exists>b bo. objects created_clients b = Some bo \<and> maps_page 14 bo 0x8000 0x800004000"
  by (rule driver_isolation [OF created_facts, THEN conjunct2, THEN conjunct2, THEN spec, THEN spec, THEN iffD1])
    (simp add: created_maps engine_maps_def)

text \<open>C20: A call of one file leaves what the others have as it is: their handle tables, their
  objects, and the engine's mappings of the pages of these objects.\<close>
theorem other_files_untouched:
  assumes "drm_files K view lo hi F" and "fresh_clients view F x" and "cfg_ok K hw push shift"
    and "\<forall>c \<in> fst ` set cs. client_ok K c" and "client_run K F hw shift x cs y"
    and "client_ok K (f, c)" and "client_step K F hw shift y (f, c) r z" and "g \<noteq> f"
  shows "fst z g = fst y g \<and> (\<forall>h b. f_names F (fst y g) h = Some b \<longrightarrow>
    objects z b = objects y b \<and>
    (\<forall>bo a pa. objects y b = Some bo \<longrightarrow> maps_page shift bo a pa \<longrightarrow>
      engine_maps view y a = Some pa \<and> engine_maps view z a = Some pa))"
proof -
  have y: "clients_inv view lo hi shift F y"
    by (rule drm_files.client_run_inv [OF assms(1,5) drm_files.clients_inv_fresh [OF assms(1,2)] assms(3,4)])
  note z = drm_files.client_step_inv [OF assms(1) y assms(3,6,7)]
  note iso = clients_inv_isolated [OF y] clients_inv_isolated [OF z(1)]
  have "objects z b = objects y b" if "f_names F (fst y g) h = Some b" for h b
    by (rule only_own_other [OF z(2) iso(1) assms(8)]) (use that in \<open>auto simp: file_objects_def ran_def\<close>)
  moreover have "fst z g = fst y g" using z(2) assms(8) by (simp add: only_own_def)
  moreover have "engine_maps view z a = Some pa"
    if "objects z b = objects y b" "objects y b = Some bo" "maps_page shift bo a pa" for a b bo pa
    using that by (intro isolatedD [OF iso(2)]) simp_all
  ultimately show ?thesis
    using isolatedD [OF iso(1)] by blast
qed

theorem other_files_untouched_witness:
  "\<exists>r z. client_step sample_api ref_files sample_h13 14 created_clients (1, Ioctl (Bo_Free 1 0)) r z \<and>
    objects z 1 = objects created_clients 1 \<and> engine_maps ref_view z 0x8000 = Some 0x800004000"
proof -
  have ok: "client_ok sample_api (1, Ioctl (Bo_Free 1 0))" by (simp add: client_ok_def call_ok_def)
  have inv: "clients_inv ref_view 0x4000 0xe0000000 14 ref_files created_clients"
    by (rule ref_tables.client_run_inv [OF created_client_run ref_tables.clients_inv_fresh [OF fresh_sample]
          sample_cfg_ok [of sample_device] created_ok])
  obtain r z where z: "client_step sample_api ref_files sample_h13 14 created_clients (1, Ioctl (Bo_Free 1 0)) r z"
    using ref_tables.client_step_ok [OF inv sample_cfg_ok ok] by blast
  have h: "f_names ref_files (fst created_clients 0) 1 = Some 1" by (simp add: ref_files_def)
  obtain bo where bo: "objects created_clients 1 = Some bo" "maps_page 14 bo 0x8000 0x800004000"
    by (rule that [of "\<lparr>bo_mm = Some 2, bo_npages = 2, bo_pages = Some [0x800000000, 0x800004000],
        bo_iova = 0x4000\<rparr>"])
      (simp add: objects_def created_drv_def,
        simp add: maps_page_def page_iova_def pages_of_def, rule exI [of _ "1 :: nat"], simp)
  have "(0 :: nat) \<noteq> 1" by simp
  note rest = other_files_untouched [OF created_facts ok z this, THEN conjunct2, THEN spec, THEN spec, THEN mp, OF h]
  from rest [THEN conjunct2, THEN spec, THEN spec, THEN spec, THEN mp, THEN mp, OF bo]
  show ?thesis using rest [THEN conjunct1] z by blast
qed

text \<open>C39: A handle dropped with the \<open>GEM_CLOSE\<close> of the core, or by closing its file, leaks its
  object: whatever the files do afterwards, no handle names it again, and the driver still
  holds it, with all its pages mapped for the engine.\<close>
theorem gem_close_leaks:
  assumes "drm_files K view lo hi F" and "fresh_clients view F x" and "cfg_ok K hw push shift"
    and "\<forall>c \<in> fst ` set cs. client_ok K c" and "client_run K F hw shift x cs y"
    and "f_names F (fst y f) h = Some b" and "client_step K F hw shift y (f, Gem_Close h) r z"
    and "\<forall>c \<in> fst ` set ds. client_ok K c" and "client_run K F hw shift z ds u"
  shows "(\<forall>g h'. f_names F (fst u g) h' \<noteq> Some b) \<and>
    (\<exists>bo. objects y b = Some bo \<and> objects u b = Some bo \<and>
      (\<forall>j < unat (bo_npages bo).
        engine_maps view u (page_iova shift (bo_iova bo) j) = Some (pages_of bo ! j)))"
proof -
  have y: "clients_inv view lo hi shift F y"
    by (rule drm_files.client_run_inv [OF assms(1,5) drm_files.clients_inv_fresh [OF assms(1,2)] assms(3,4)])
  have "client_ok K (f, Gem_Close h)" by (simp add: client_ok_def)
  note z = drm_files.client_step_inv(1) [OF assms(1) y assms(3) this assms(7)]
  note gone = drm_files.closed_unnamed [OF assms(1) y assms(6,7)]
  obtain bo where bo: "objects y b = Some bo"
    using clients_inv_isolated [OF y] assms(6) unfolding isolated_def by blast
  then have u: "unnamed F u b" "objects u b = Some bo"
    using drm_files.unnamed_stays [OF assms(1,9) z assms(3,8) gone(1)] gone(2) by auto
  note iso = clients_inv_isolated [OF drm_files.client_run_inv [OF assms(1,9) z assms(3,8)]]
  have "engine_maps view u (page_iova shift (bo_iova bo) j) = Some (pages_of bo ! j)"
    if "j < unat (bo_npages bo)" for j
    by (rule isolatedD [OF iso u(2)]) (use that in \<open>auto simp: maps_page_def\<close>)
  with bo u show ?thesis by (auto simp: unnamed_def file_objects_def ran_def)
qed

theorem gem_close_leaks_witness:
  "\<exists>r z. client_step sample_api ref_files sample_h13 14 created_clients (0, Gem_Close 1) r z \<and>
    f_names ref_files (fst z 0) 1 \<noteq> Some 1 \<and> objects z 1 \<noteq> None"
proof -
  have h: "f_names ref_files (fst created_clients 0) 1 = Some 1" by (simp add: ref_files_def)
  obtain r z where z: "client_step sample_api ref_files sample_h13 14 created_clients (0, Gem_Close 1) r z"
    by (simp add: client_step_simps) (simp add: ref_files_def)
  from gem_close_leaks [OF created_facts h z _ client_none] z show ?thesis by fastforce
qed

text \<open>C14: No leak through the ioctls of the driver and its power callbacks, on one handle table and
  with objects below 4 GiB: once every handle is freed with \<open>ANE_BO_FREE\<close>, no range, page
  mapping, pinned page or GEM object is held any more, whatever calls were made before. (A
  handle dropped with \<open>GEM_CLOSE\<close> instead leaks its object, \<open>gem_close_leaks\<close>.)\<close>
theorem driver_releases_all:
  assumes "drm_kernel K view lo hi" and "initial view s" and "cfg_ok K hw push shift"
    and "\<forall>c \<in> fst ` set cs. call_ok K c" and "ane_run K hw shift s cs t"
    and "v_handles (view (d_kern (fst t))) = (\<lambda>_. None)"
  shows "initial view t"
proof -
  have "sys_inv view lo hi shift t"
    by (rule drm_kernel.ane_run_inv [OF assms(1,5) sys_inv_initial [OF assms(2)] assms(3,4)])
  then show ?thesis by (rule no_handles_no_resources) (rule assms(6))
qed

theorem driver_releases_all_witness: "initial ref_view (freed_drv, [] :: access list)"
  by (rule driver_releases_all [OF ref.drm_kernel_axioms empty_initial sample_cfg_ok [of sample_device] _ freed_run])
    (use sample_call_ok in \<open>simp_all add: call_ok_def freed_drv_def ref_view_def\<close>)

section \<open>The task manager\<close>

lemma writes_to_bars:
  "writes_to (TQ_BAR1 qid b) (map (\<lambda>i. Wr (TQ_BAR1 qid i) (f i)) [0..<n]) = (if b < n then [f b] else [])"
  by (induction n) (auto simp: tq_def)

lemma tq_eq [simp]: "tq qid a = tq qid b \<longleftrightarrow> a = b"
  by (simp add: tq_def)

lemma writes_to_no_bar:
  assumes "off < 0x20 \<or> 0xa0 \<le> off"
  shows "writes_to (tq qid off) (map (\<lambda>i. Wr (TQ_BAR1 qid i) (f i)) [0..<ANE_H13_TILE_COUNT]) = []"
proof (rule writes_to_none)
  fix r v assume "Wr r v \<in> set (map (\<lambda>i. Wr (TQ_BAR1 qid i) (f i)) [0..<ANE_H13_TILE_COUNT])"
  then obtain i where "i < ANE_H13_TILE_COUNT" "r = TQ_BAR1 qid i" by auto
  with assms show "r \<noteq> tq qid off" by auto
qed

text \<open>The registers an enqueue leaves behind.\<close>

lemma h13_enqueue_writes:
  "writes_to (TQ_SIZE1 (rq_qid req)) (h13_enqueue_trace req) = [push_bit 0x10 (drop_bit 2 (rq_td_size req) - 1)]"
  "writes_to (TQ_ADDR1 (rq_qid req)) (h13_enqueue_trace req) = [lower_32_bits (rq_btsp_iova req)]"
  by (simp_all add: h13_enqueue_trace_def Let_def writes_to_no_bar)

lemma h13_enqueue_bar:
  "b < ANE_H13_TILE_COUNT \<Longrightarrow>
    writes_to (TQ_BAR1 (rq_qid req) b) (h13_enqueue_trace req) = [lower_32_bits (rq_bar req ! b)]"
  using writes_to_bars [of "rq_qid req" b "\<lambda>i. lower_32_bits (rq_bar req ! i)" ANE_H13_TILE_COUNT]
  by (simp add: h13_enqueue_trace_def Let_def)

definition is_write :: "access \<Rightarrow> bool" where
  "is_write x \<longleftrightarrow> (case x of Wr _ _ \<Rightarrow> True | Rd _ _ \<Rightarrow> False)"

lemma is_write_simps [simp]: "is_write (Wr r v)" "\<not> is_write (Rd r v)"
  by (simp_all add: is_write_def)

lemma filter_reads [simp]: "filter is_write (map (\<lambda>(a, v). Rd a v) rs) = []"
  by (induction rs) auto

lemma filter_writes [simp]: "filter is_write (map (\<lambda>i. Wr (f i) (g i)) ns) = map (\<lambda>i. Wr (f i) (g i)) ns"
  by (induction ns) simp_all

lemma filter_mem: "filter P xs = ys \<Longrightarrow> y \<in> set ys \<Longrightarrow> y \<in> set xs"
  by auto

lemma no_status_read:
  "TM_STATUS \<notin> fst ` set rs \<Longrightarrow> Rd TM_STATUS v \<notin> set (map (\<lambda>(a, v). Rd a v) rs)"
  by force

text \<open>C35: A run on the H13, with registers that read back what was written and a poll that
  reads until the condition holds or the time is over. These are all its writes, in order:
  the queue is enabled, its 32 address registers, the size and the address of the first
  descriptor and the network number are set; the manager gets the address of the first
  descriptor and, in one register, the size in words less one above the number of
  descriptors; then the doorbell is rung with the priority and the number of the queue. Only
  then the status is read; the result is 0 when the last value read has the idle bit,
  otherwise ETIMEDOUT. After the last status read, whatever it was, the interrupt is
  acknowledged and the queue disabled. The descriptor size is at least 4 and below
  \<open>2 ^ 18\<close>, their number below \<open>2 ^ 16\<close>; the driver does not check this.\<close>
theorem h13_run_registers:
  assumes "poll_ok poll" and "rq_qid req < ANE_TQ_COUNT" and "ANE_H13_TILE_COUNT \<le> length (rq_bar req)"
    and "reads_back dev (TQ_ADDR1 (rq_qid req))" and "reads_back dev (TQ_SIZE1 (rq_qid req))"
    and "4 \<le> unat (rq_td_size req)" and "unat (rq_td_size req) < 2 ^ 18"
    and "unat (rq_td_count req) < 2 ^ 16"
  shows "\<exists>l1 e pre vs st post info ack. ane_h13_tm_enqueue req l = Some (0, l1) \<and>
    ane_h13_tm_execute dev poll req l1 = Some (e, l @ pre @ map (Rd TM_STATUS) (vs @ [st]) @ post) \<and>
    filter is_write pre =
      [Wr (TQ_STATUS (rq_qid req)) 1] @
      map (\<lambda>b. Wr (TQ_BAR1 (rq_qid req) b) (lower_32_bits (rq_bar req ! b))) [0..<ANE_H13_TILE_COUNT] @
      [Wr (TQ_SIZE1 (rq_qid req)) (push_bit 0x10 (drop_bit 2 (rq_td_size req) - 1)),
       Wr (TQ_ADDR1 (rq_qid req)) (lower_32_bits (rq_btsp_iova req)),
       Wr (TQ_NID1 (rq_qid req)) (push_bit 8 (rq_nid req AND 0xff) OR 1),
       Wr TM_ADDR (lower_32_bits (rq_btsp_iova req)), Wr TM_INFO info,
       Wr TM_PUSH (TQ_PRTY_TABLE ! rq_qid req OR push_bit 8 (of_nat (rq_qid req) AND 7))] \<and>
    unat info = (unat (rq_td_size req) div 4 - 1) * 2 ^ 16 + unat (rq_td_count req) \<and>
    filter is_write post = [Wr TM_IRQ_ACK (ack OR 2), Wr (TQ_STATUS (rq_qid req)) 0] \<and>
    (\<forall>v. Rd TM_STATUS v \<notin> set (pre @ post)) \<and>
    e = (if st AND 1 \<noteq> 0 then 0 else - ETIMEDOUT)"
proof -
  let ?q = "rq_qid req" and ?en = "h13_enqueue_trace req" and ?l1 = "l @ h13_enqueue_trace req"
  obtain vs st rs ack qs where ex: "ane_h13_tm_execute dev poll req ?l1 =
    Some (if st AND 1 \<noteq> 0 then 0 else - ETIMEDOUT,
      ?l1 @ h13_push_trace dev req ?l1 @ map (Rd TM_STATUS) (vs @ [st]) @ map (\<lambda>(a, v). Rd a v) rs @
        [Wr TM_IRQ_ACK (ack OR 2)] @ map (\<lambda>(a, v). Rd a v) qs @ [Wr (TQ_STATUS ?q) 0])"
    and irq: "TM_STATUS \<notin> fst ` set (rs @ qs)"
    using h13_execute_trace [OF assms(1,2)] by blast
  let ?pre = "?en @ h13_push_trace dev req ?l1"
  let ?post = "map (\<lambda>(a, v). Rd a v) rs @ [Wr TM_IRQ_ACK (ack OR 2)] @ map (\<lambda>(a, v). Rd a v) qs @
    [Wr (TQ_STATUS ?q) 0]"
  have addr: "dev ?l1 (TQ_ADDR1 ?q) = lower_32_bits (rq_btsp_iova req)"
    by (rule reads_back_last [OF assms(4), where vs = "writes_to (TQ_ADDR1 ?q) l"])
      (simp add: h13_enqueue_writes)
  let ?l2 = "?l1 @ [Rd (TQ_ADDR1 ?q) (lower_32_bits (rq_btsp_iova req)),
    Wr TM_ADDR (lower_32_bits (rq_btsp_iova req))]"
  have "writes_to (TQ_SIZE1 ?q) ?l2 =
      writes_to (TQ_SIZE1 ?q) l @ [push_bit 0x10 (drop_bit 2 (rq_td_size req) - 1)]"
    using h13_enqueue_writes(1) [of req] by (simp add: tm_def tq_def)
  then have sz: "dev ?l2 (TQ_SIZE1 ?q) = push_bit 0x10 (drop_bit 2 (rq_td_size req) - 1)"
    by (rule reads_back_last [OF assms(5)])
  let ?info = "push_bit 0x10 (drop_bit 2 (rq_td_size req) - 1) OR rq_td_count req"
  have push: "h13_push_trace dev req ?l1 =
      [Rd (TQ_ADDR1 ?q) (lower_32_bits (rq_btsp_iova req)), Wr TM_ADDR (lower_32_bits (rq_btsp_iova req)),
       Rd (TQ_SIZE1 ?q) (push_bit 0x10 (drop_bit 2 (rq_td_size req) - 1)), Wr TM_INFO ?info,
       Wr TM_PUSH (TQ_PRTY_TABLE ! ?q OR push_bit 8 (of_nat ?q AND 7))]"
    by (simp add: h13_push_trace_def Let_def addr sz [unfolded append_assoc])
  have pre: "filter is_write ?pre = [Wr (TQ_STATUS ?q) 1] @
      map (\<lambda>b. Wr (TQ_BAR1 ?q b) (lower_32_bits (rq_bar req ! b))) [0..<ANE_H13_TILE_COUNT] @
      [Wr (TQ_SIZE1 ?q) (push_bit 0x10 (drop_bit 2 (rq_td_size req) - 1)),
       Wr (TQ_ADDR1 ?q) (lower_32_bits (rq_btsp_iova req)),
       Wr (TQ_NID1 ?q) (push_bit 8 (rq_nid req AND 0xff) OR 1),
       Wr TM_ADDR (lower_32_bits (rq_btsp_iova req)), Wr TM_INFO ?info,
       Wr TM_PUSH (TQ_PRTY_TABLE ! ?q OR push_bit 8 (of_nat ?q AND 7))]"
    unfolding push by (simp add: h13_enqueue_trace_def Let_def)
  have post: "filter is_write ?post = [Wr TM_IRQ_ACK (ack OR 2), Wr (TQ_STATUS ?q) 0]" by simp
  have status: "Rd TM_STATUS v \<notin> set (?pre @ ?post)" for v
    using no_status_read [of rs v] no_status_read [of qs v] irq unfolding push
    by (auto simp: h13_enqueue_trace_def Let_def image_Un tm_def tq_def)
  have run: "ane_h13_tm_execute dev poll req ?l1 = Some (if st AND 1 \<noteq> 0 then 0 else - ETIMEDOUT,
      l @ ?pre @ map (Rd TM_STATUS) (vs @ [st]) @ ?post)"
    using ex by (simp only: append_assoc)
  show ?thesis
    by (rule exI [of _ ?l1], rule exI, rule exI [of _ ?pre], rule exI [of _ vs], rule exI [of _ st],
        rule exI [of _ ?post], rule exI [of _ ?info], rule exI [of _ ack], intro conjI allI,
        rule h13_enqueue_eq [OF assms(3)], rule run, rule pre, rule tm_info_value [OF assms(6-8)],
        rule post, rule status, rule refl)
qed

definition sample_request :: ane_request where
  "sample_request = \<lparr>rq_qid = 4, rq_nid = 0x40, rq_td_size = 0x274, rq_td_count = 2,
     rq_btsp_iova = 0x8000, rq_bar = replicate 97 0x4000\<rparr>"

theorem h13_run_registers_witness:
  "\<exists>l1 e xs ys info. ane_h13_tm_enqueue sample_request [] = Some (0, l1) \<and>
    ane_h13_tm_execute sample_device (poll_for sample_device) sample_request l1 = Some (e, xs @ ys) \<and>
    Wr TM_INFO info \<in> set xs \<and> unat info = 0x9c0002"
proof -
  have bounds: "rq_qid sample_request < ANE_TQ_COUNT" "ANE_H13_TILE_COUNT \<le> length (rq_bar sample_request)"
    "4 \<le> unat (rq_td_size sample_request)" "unat (rq_td_size sample_request) < 2 ^ 18"
    "unat (rq_td_count sample_request) < 2 ^ 16"
    and size: "(unat (rq_td_size sample_request) div 4 - 1) * 2 ^ 16 + unat (rq_td_count sample_request) = 0x9c0002"
    by (simp_all add: sample_request_def)
  obtain l1 e pre zs info where "ane_h13_tm_enqueue sample_request [] = Some (0, l1)"
    "ane_h13_tm_execute sample_device (poll_for sample_device) sample_request l1 = Some (e, [] @ pre @ zs)"
    "unat info = (unat (rq_td_size sample_request) div 4 - 1) * 2 ^ 16 + unat (rq_td_count sample_request)"
    "Wr TM_INFO info \<in> set pre"
    using h13_run_registers [OF bounded_poll.poll [of sample_device] bounds(1,2) sample_device_reads_back
        sample_device_reads_back bounds(3-5), of "[]"]
    by (elim exE conjE) (rule that, assumption+, erule filter_mem, simp)
  then show ?thesis unfolding size append_Nil by blast
qed

text \<open>A run on the H14. Enqueueing does nothing; the execution writes the 64-bit address of
  the first descriptor as two halves that make up the address, its size, the number of
  descriptors, and rings the doorbell last. It always reports success: it does not wait for
  the engine.\<close>
theorem h14_run_registers:
  "\<exists>xs lo hi. ane_h14_tm_enqueue req l = Some (0, l) \<and> ane_h14_tm_execute req l = Some (0, l @ xs) \<and>
    writes_to H14_TM_ADDR xs = [lo] \<and> writes_to (H14_TM_ADDR + 4) xs = [hi] \<and>
    ucast lo OR push_bit 32 (ucast hi) = rq_btsp_iova req \<and>
    writes_to H14_TM_UNK_08 xs = [rq_td_size req] \<and> writes_to H14_TM_UNK_14 xs = [rq_td_count req] \<and>
    last xs = Wr H14_TM_PUSH 0 \<and> writes_to H14_TM_PUSH xs = [0] \<and> (\<forall>a v. Rd a v \<notin> set xs)"
  by (intro exI [of _ "h14_execute_trace req"] exI [of _ "lower_32_bits (rq_btsp_iova req)"]
      exI [of _ "upper_32_bits (rq_btsp_iova req)"] conjI)
    (simp_all add: ane_h14_tm_enqueue_def h14_execute_eq h14_execute_trace_def half_words_join)

end
