(* ===== verification/Drv_Power.thy ===== *)
theory Drv_Power
  imports Drv_Step
begin

text \<open>
  The life of the device, \<open>src/driver/src/ane_drv.c\<close> from \<open>ane_drm_open\<close> on: attaching and
  detaching its power domains, the address space of the IOMMU, \<open>ane_platform_probe\<close> with its
  error paths, \<open>ane_platform_remove\<close>, and the runtime power references that \<open>ane_drm_open\<close>,
  \<open>ane_drm_postclose\<close> and \<open>ane_drm_unlocked_ioctl\<close> take around their work. The services of the
  driver core are a parameter \<open>P\<close>, with their documented behaviour the locale \<open>platform\<close>.
\<close>

section \<open>Services of the driver core\<close>

text \<open>Pointers that may hold an error: \<open>Inl e\<close> is \<open>ERR_PTR(e)\<close>, \<open>Inr None\<close> is \<open>NULL\<close>.\<close>

type_synonym err_ptr = "int + ptr"

record 'p papi =
  p_drm_dev_alloc :: "'p \<Rightarrow> int \<times> 'p"               \<comment> \<open>\<open>devm_drm_dev_alloc\<close>\<close>
  p_count_domains :: "'p \<Rightarrow> int"                    \<comment> \<open>\<open>of_count_phandle_with_args\<close>\<close>
  p_kcalloc :: "nat \<Rightarrow> 'p \<Rightarrow> bool \<times> 'p"             \<comment> \<open>\<open>devm_kcalloc\<close>, whether there is memory\<close>
  p_domain_attach :: "nat \<Rightarrow> 'p \<Rightarrow> err_ptr \<times> 'p"    \<comment> \<open>\<open>dev_pm_domain_attach_by_id\<close>\<close>
  p_domain_detach :: "nat \<Rightarrow> 'p \<Rightarrow> 'p"
  p_link_add :: "ptr \<Rightarrow> 'p \<Rightarrow> ptr \<times> 'p"             \<comment> \<open>\<open>device_link_add\<close>\<close>
  p_link_del :: "nat \<Rightarrow> 'p \<Rightarrow> 'p"
  p_irq_byname :: "string \<Rightarrow> 'p \<Rightarrow> int"             \<comment> \<open>\<open>platform_get_irq_byname\<close>\<close>
  p_disable_irq :: "int \<Rightarrow> 'p \<Rightarrow> 'p"
  p_ioremap :: "'p \<Rightarrow> int \<times> 'p"                     \<comment> \<open>\<open>devm_platform_get_and_ioremap_resource\<close>\<close>
  p_iommu_domain :: "'p \<Rightarrow> u64 option"             \<comment> \<open>\<open>pgsize_bitmap\<close> of the domain, if there is one\<close>
  p_mm_init :: "u64 \<Rightarrow> u64 \<Rightarrow> 'p \<Rightarrow> 'p"             \<comment> \<open>\<open>drm_mm_init(mm, start, size)\<close>\<close>
  p_mm_takedown :: "'p \<Rightarrow> 'p"
  p_set_autosuspend_delay :: "int \<Rightarrow> 'p \<Rightarrow> 'p"
  p_use_autosuspend :: "'p \<Rightarrow> 'p"
  p_dont_use_autosuspend :: "'p \<Rightarrow> 'p"
  p_get_noresume :: "'p \<Rightarrow> 'p"
  p_set_active :: "'p \<Rightarrow> 'p"
  p_pm_enable :: "'p \<Rightarrow> 'p"
  p_pm_disable :: "'p \<Rightarrow> 'p"
  p_mark_last_busy :: "'p \<Rightarrow> 'p"
  p_put_autosuspend :: "'p \<Rightarrow> 'p"
  p_resume_and_get :: "'p \<Rightarrow> int \<times> 'p"
  p_dev_register :: "'p \<Rightarrow> int \<times> 'p"                \<comment> \<open>\<open>drm_dev_register\<close>\<close>
  p_dev_unregister :: "'p \<Rightarrow> 'p"

text \<open>What the driver holds of the platform.\<close>

record pview =
  pv_domains :: "nat set"                 \<comment> \<open>attached power domains\<close>
  pv_links :: "nat set"                   \<comment> \<open>device links\<close>
  pv_irq_depth :: "int \<Rightarrow> nat"            \<comment> \<open>how often an interrupt is disabled\<close>
  pv_mm :: "(u64 \<times> u64) option"           \<comment> \<open>start and size of \<open>ane->mm\<close>\<close>
  pv_autosuspend :: bool
  pv_active :: bool                       \<comment> \<open>the status set by \<open>pm_runtime_set_active\<close>\<close>
  pv_pm_enabled :: bool
  pv_usage :: nat                         \<comment> \<open>the usage counter\<close>
  pv_registered :: bool

text \<open>The usage counter does not go below 0: \<open>pm_runtime_put_autosuspend\<close> then warns and leaves
  it. \<open>pm_runtime_resume_and_get\<close> drops the reference it took when resuming fails.\<close>

locale platform =
  fixes P :: "'p papi" and view :: "'p \<Rightarrow> pview"
  assumes drm_dev_alloc: "view (snd (p_drm_dev_alloc P p)) = view p"
    and kcalloc: "view (snd (p_kcalloc P n p)) = view p"
    and domain_attach: "p_domain_attach P i p = (r, p1) \<Longrightarrow>
      (case r of
         Inl e \<Rightarrow> e < 0 \<and> view p1 = view p
       | Inr None \<Rightarrow> view p1 = view p
       | Inr (Some x) \<Rightarrow> x \<notin> pv_domains (view p) \<and>
           view p1 = (view p)\<lparr>pv_domains := insert x (pv_domains (view p))\<rparr>)"
    and domain_detach: "view (p_domain_detach P x p) =
      (view p)\<lparr>pv_domains := pv_domains (view p) - {x}\<rparr>"
    and link_add: "p_link_add P d p = (l, p1) \<Longrightarrow>
      (case l of
         None \<Rightarrow> view p1 = view p
       | Some x \<Rightarrow> d \<noteq> None \<and> x \<notin> pv_links (view p) \<and>
           view p1 = (view p)\<lparr>pv_links := insert x (pv_links (view p))\<rparr>)"
    and link_del: "view (p_link_del P x p) = (view p)\<lparr>pv_links := pv_links (view p) - {x}\<rparr>"
    and disable_irq: "view (p_disable_irq P irq p) =
      (view p)\<lparr>pv_irq_depth := (pv_irq_depth (view p))(irq := pv_irq_depth (view p) irq + 1)\<rparr>"
    and ioremap: "view (snd (p_ioremap P p)) = view p"
    and mm_init: "view (p_mm_init P a sz p) = (view p)\<lparr>pv_mm := Some (a, sz)\<rparr>"
    and mm_takedown: "view (p_mm_takedown P p) = (view p)\<lparr>pv_mm := None\<rparr>"
    and set_autosuspend_delay: "view (p_set_autosuspend_delay P ms p) = view p"
    and use_autosuspend: "view (p_use_autosuspend P p) = (view p)\<lparr>pv_autosuspend := True\<rparr>"
    and dont_use_autosuspend: "view (p_dont_use_autosuspend P p) = (view p)\<lparr>pv_autosuspend := False\<rparr>"
    and get_noresume: "view (p_get_noresume P p) = (view p)\<lparr>pv_usage := pv_usage (view p) + 1\<rparr>"
    and set_active: "view (p_set_active P p) = (view p)\<lparr>pv_active := True\<rparr>"
    and pm_enable: "view (p_pm_enable P p) = (view p)\<lparr>pv_pm_enabled := True\<rparr>"
    and pm_disable: "view (p_pm_disable P p) = (view p)\<lparr>pv_pm_enabled := False\<rparr>"
    and mark_last_busy: "view (p_mark_last_busy P p) = view p"
    and put_autosuspend: "view (p_put_autosuspend P p) = (view p)\<lparr>pv_usage := pv_usage (view p) - 1\<rparr>"
    and resume_and_get: "p_resume_and_get P p = (e, p1) \<Longrightarrow>
      if e < 0 then view p1 = view p
      else e = 0 \<and> view p1 = (view p)\<lparr>pv_usage := pv_usage (view p) + 1\<rparr>"
    and dev_register: "p_dev_register P p = (e, p1) \<Longrightarrow>
      if e < 0 then view p1 = view p else view p1 = (view p)\<lparr>pv_registered := True\<rparr>"
    and dev_unregister: "view (p_dev_unregister P p) = (view p)\<lparr>pv_registered := False\<rparr>"
begin

lemmas keeps = drm_dev_alloc kcalloc ioremap set_autosuspend_delay mark_last_busy

lemmas effects = domain_detach link_del disable_irq mm_init mm_takedown use_autosuspend
  dont_use_autosuspend get_noresume set_active pm_enable pm_disable put_autosuspend dev_unregister

end

section \<open>The device\<close>

text \<open>The fields of \<open>struct ane_device\<close> the functions here use; \<open>iommu_lock\<close>, \<open>engine_lock\<close> and
  \<open>mm\<close> are the state of the ioctls.\<close>

record ane_device =
  dev_hw :: "ane_hw option"
  dev_pd_dev :: "err_ptr list"
  dev_pd_link :: "ptr list"
  dev_pd_count :: int
  dev_irq :: int
  dev_dart_irq :: int
  dev_shift :: nat

text \<open>Array accesses; one out of bounds has no result.\<close>

definition item :: "'a list \<Rightarrow> nat \<Rightarrow> 'a option" where
  "item xs i = (if i < length xs then Some (xs ! i) else None)"

definition put_item :: "'a list \<Rightarrow> nat \<Rightarrow> 'a \<Rightarrow> 'a list option" where
  "put_item xs i x = (if i < length xs then Some (xs[i := x]) else None)"

section \<open>Power domains\<close>

text \<open>The loops over \<open>pd_dev\<close> and \<open>pd_link\<close>: detaching counts down from the last one.\<close>

fun detach_loop :: "'p papi \<Rightarrow> ane_device \<Rightarrow> nat \<Rightarrow> 'p \<Rightarrow> 'p option" where
  "detach_loop P ane 0 p = Some p"
| "detach_loop P ane (Suc i) p = do {
     link \<leftarrow> item (dev_pd_link ane) i;
     let p1 = (case link of None \<Rightarrow> p | Some x \<Rightarrow> p_link_del P x p);
     pd \<leftarrow> item (dev_pd_dev ane) i;
     let p2 = (case pd of Inr (Some x) \<Rightarrow> p_domain_detach P x p1 | _ \<Rightarrow> p1);
     detach_loop P ane i p2 }"

definition ane_detach_genpd :: "'p papi \<Rightarrow> ane_device \<Rightarrow> 'p \<Rightarrow> 'p option" where
  "ane_detach_genpd P ane p =
     (if dev_pd_count ane \<le> 1 then Some p else detach_loop P ane (nat (dev_pd_count ane)) p)"

fun attach_loop :: "'p papi \<Rightarrow> nat \<Rightarrow> nat \<Rightarrow> ane_device \<Rightarrow> 'p \<Rightarrow> (int \<times> ane_device \<times> 'p) option" where
  "attach_loop P i 0 ane p = Some (0, ane, p)"
| "attach_loop P i (Suc n) ane p = (case p_domain_attach P i p of (pd, p1) \<Rightarrow> do {
     pds \<leftarrow> put_item (dev_pd_dev ane) i pd;
     let ane1 = ane\<lparr>dev_pd_dev := pds\<rparr>;
     case pd of
       Inl e \<Rightarrow> do { p2 \<leftarrow> ane_detach_genpd P ane1 p1; Some (e, ane1, p2) }
     | Inr x \<Rightarrow> (case p_link_add P x p1 of (link, p2) \<Rightarrow> do {
         links \<leftarrow> put_item (dev_pd_link ane1) i link;
         let ane2 = ane1\<lparr>dev_pd_link := links\<rparr>;
         if link = None then do { p3 \<leftarrow> ane_detach_genpd P ane2 p2; Some (- EINVAL, ane2, p3) }
         else attach_loop P (Suc i) n ane2 p2 }) })"

definition ane_attach_genpd :: "'p papi \<Rightarrow> ane_device \<Rightarrow> 'p \<Rightarrow> (int \<times> ane_device \<times> 'p) option" where
  "ane_attach_genpd P ane p =
     (let n = p_count_domains P p; ane1 = ane\<lparr>dev_pd_count := n\<rparr> in
      if n \<le> 1 then Some (0, ane1, p)
      else (case p_kcalloc P (nat n) p of (ok1, p1) \<Rightarrow>
        if \<not> ok1 then Some (- ENOMEM, ane1, p1)
        else let ane2 = ane1\<lparr>dev_pd_dev := replicate (nat n) (Inr None)\<rparr> in
          (case p_kcalloc P (nat n) p1 of (ok2, p2) \<Rightarrow>
             if \<not> ok2 then Some (- ENOMEM, ane2, p2)
             else attach_loop P 0 (nat n) (ane2\<lparr>dev_pd_link := replicate (nat n) None\<rparr>) p2)))"

section \<open>Address space\<close>

text \<open>\<open>__ffs\<close>, the number of the lowest bit that is set; of 0 it is undefined.\<close>

definition ffs :: "u64 \<Rightarrow> nat option" where
  "ffs w = find (\<lambda>n. bit w n) [0..<64]"

text \<open>\<open>max_iova\<close>\<close>

definition max_iova :: "ane_hw \<Rightarrow> nat \<Rightarrow> u64" where
  "max_iova hw shift = hw_vm_base hw + hw_vm_size hw - push_bit shift 1"

definition ane_iommu_domain_init :: "'p papi \<Rightarrow> ane_device \<Rightarrow> 'p \<Rightarrow> (int \<times> ane_device \<times> 'p) option" where
  "ane_iommu_domain_init P ane p = (case p_iommu_domain P p of
     None \<Rightarrow> Some (- EPROBE_DEFER, ane, p)
   | Some pgsizes \<Rightarrow> do {
       shift \<leftarrow> ffs pgsizes;
       hw \<leftarrow> dev_hw ane;
       Some (0, ane\<lparr>dev_shift := shift\<rparr>, p_mm_init P (hw_vm_base hw) (max_iova hw shift) p) })"

definition ane_iommu_domain_free :: "'p papi \<Rightarrow> 'p \<Rightarrow> 'p" where
  "ane_iommu_domain_free P p = p_mm_takedown P p"

section \<open>Probe and remove\<close>

text \<open>\<open>ane_platform_probe\<close> from the point where the address space is there to the registration,
  and its label \<open>disable_pm\<close>.\<close>

definition probe_pm :: "'p papi \<Rightarrow> 'p \<Rightarrow> 'p" where
  "probe_pm P p =
     (let p1 = p_set_autosuspend_delay P 1000 p;
          p2 = p_use_autosuspend P p1;
          p3 = p_get_noresume P p2;
          p4 = p_set_active P p3;
          p5 = p_pm_enable P p4;
          p6 = p_mark_last_busy P p5
      in p_put_autosuspend P p6)"

definition disable_pm :: "'p papi \<Rightarrow> 'p \<Rightarrow> 'p" where
  "disable_pm P p = ane_iommu_domain_free P (p_dont_use_autosuspend P (p_pm_disable P p))"

text \<open>The label \<open>detach_genpd\<close>\<close>

definition detach_genpd :: "'p papi \<Rightarrow> int \<Rightarrow> ane_device \<Rightarrow> 'p \<Rightarrow> access list \<Rightarrow>
    (int \<times> ane_device \<times> 'p \<times> access list) option" where
  "detach_genpd P err ane p l = do { p1 \<leftarrow> ane_detach_genpd P ane p; Some (err, ane, p1, l) }"

definition probe_register :: "'p papi \<Rightarrow> ane_device \<Rightarrow> 'p \<Rightarrow> access list \<Rightarrow>
    (int \<times> ane_device \<times> 'p \<times> access list) option" where
  "probe_register P ane p l = do {
     hw \<leftarrow> dev_hw ane;
     l1 \<leftarrow> hw_tm_enable hw l;
     case p_dev_register P (probe_pm P p) of (err, p1) \<Rightarrow>
       if err < 0 then detach_genpd P err ane (disable_pm P p1) l1 else Some (0, ane, p1, l1) }"

definition probe_resources :: "'p papi \<Rightarrow> ane_device \<Rightarrow> 'p \<Rightarrow> access list \<Rightarrow>
    (int \<times> ane_device \<times> 'p \<times> access list) option" where
  "probe_resources P ane p l =
     (let ane1 = ane\<lparr>dev_irq := p_irq_byname P ''ane'' p\<rparr> in
      if dev_irq ane1 < 0 then detach_genpd P (- ENODEV) ane1 p l
      else let ane2 = ane1\<lparr>dev_dart_irq := p_irq_byname P ''dart'' p\<rparr> in
      if dev_dart_irq ane2 < 0 then detach_genpd P (- ENODEV) ane2 p l
      else (case p_ioremap P (p_disable_irq P (dev_dart_irq ane2) p) of (err, p1) \<Rightarrow>
        if err < 0 then detach_genpd P err ane2 p1 l
        else do {
          (err, ane3, p2) \<leftarrow> ane_iommu_domain_init P ane2 p1;
          if err < 0 then detach_genpd P err ane3 p2 l else probe_register P ane3 p2 l }))"

text \<open>The \<open>ane_device\<close> is fresh and zeroed; \<open>hw\<close> is what \<open>of_device_get_match_data\<close> gives.\<close>

definition ane_of_match :: "device \<Rightarrow> poller \<Rightarrow> (string \<times> ane_hw) list" where
  "ane_of_match dev poll =
     [(''apple,t8103-ane'', ane_hw_h13 dev poll),
      (''apple,t6000-ane'', ane_hw_h13 dev poll),
      (''apple,t8112-ane'', ane_hw_h14 dev)]"

definition new_device :: "ane_hw option \<Rightarrow> ane_device" where
  "new_device hw = \<lparr>dev_hw = hw, dev_pd_dev = [], dev_pd_link = [], dev_pd_count = 0, dev_irq = 0,
     dev_dart_irq = 0, dev_shift = 0\<rparr>"

definition ane_platform_probe :: "'p papi \<Rightarrow> ane_hw option \<Rightarrow> 'p \<Rightarrow> access list \<Rightarrow>
    (int \<times> ane_device \<times> 'p \<times> access list) option" where
  "ane_platform_probe P hw p l = (case p_drm_dev_alloc P p of (err, p1) \<Rightarrow>
     if err < 0 then Some (err, new_device hw, p1, l)
     else do {
       (err, ane, p2) \<leftarrow> ane_attach_genpd P (new_device hw) p1;
       if err < 0 then Some (err, ane, p2, l) else probe_resources P ane p2 l })"

definition ane_platform_remove :: "'p papi \<Rightarrow> ane_device \<Rightarrow> 'p \<Rightarrow> 'p option" where
  "ane_platform_remove P ane p =
     (let p1 = p_dev_unregister P p;
          p2 = p_pm_disable P p1;
          p3 = p_dont_use_autosuspend P p2
      in ane_detach_genpd P ane (ane_iommu_domain_free P p3))"

section \<open>Power references\<close>

definition ane_drm_open :: "'p papi \<Rightarrow> 'p \<Rightarrow> int \<times> 'p" where
  "ane_drm_open P p = (case p_resume_and_get P p of (err, p1) \<Rightarrow>
     if err < 0 \<and> err \<noteq> - EACCES then (err, p_put_autosuspend P p1)
     else (err, p_put_autosuspend P (p_mark_last_busy P p1)))"

definition ane_drm_postclose :: "'p papi \<Rightarrow> 'p \<Rightarrow> 'p" where
  "ane_drm_postclose P p = (case p_resume_and_get P p of (_, p1) \<Rightarrow>
     p_put_autosuspend P (p_mark_last_busy P p1))"

text \<open>\<open>drm_ioctl\<close>, the dispatcher of the kernel, is a parameter.\<close>

definition ane_drm_unlocked_ioctl :: "'p papi \<Rightarrow> ('p \<Rightarrow> int \<times> 'p) \<Rightarrow> 'p \<Rightarrow> int \<times> 'p" where
  "ane_drm_unlocked_ioctl P drm_ioctl p = (case p_resume_and_get P p of (err, p1) \<Rightarrow>
     if err < 0 \<and> err \<noteq> - EACCES then (err, p_put_autosuspend P p1)
     else (case drm_ioctl p1 of (err, p2) \<Rightarrow>
       (err, p_put_autosuspend P (p_mark_last_busy P p2))))"

section \<open>What the device holds\<close>

definition dev_domains :: "ane_device \<Rightarrow> nat set" where
  "dev_domains ane = {x. Inr (Some x) \<in> set (dev_pd_dev ane)}"

definition dev_links :: "ane_device \<Rightarrow> nat set" where
  "dev_links ane = {x. Some x \<in> set (dev_pd_link ane)}"

text \<open>The arrays have \<open>pd_count\<close> entries, or there are none.\<close>

definition dev_ok :: "ane_device \<Rightarrow> bool" where
  "dev_ok ane \<longleftrightarrow>
     (if dev_pd_count ane \<le> 1 then dev_pd_dev ane = [] \<and> dev_pd_link ane = []
      else length (dev_pd_dev ane) = nat (dev_pd_count ane) \<and>
        length (dev_pd_link ane) = nat (dev_pd_count ane))"

text \<open>Beside \<open>v\<close>, the platform has what the device attached.\<close>

definition attached :: "pview \<Rightarrow> ane_device \<Rightarrow> pview" where
  "attached v ane = v\<lparr>pv_domains := pv_domains v \<union> dev_domains ane,
     pv_links := pv_links v \<union> dev_links ane\<rparr>"

definition detached :: "pview \<Rightarrow> ane_device \<Rightarrow> pview" where
  "detached v ane = v\<lparr>pv_domains := pv_domains v - dev_domains ane,
     pv_links := pv_links v - dev_links ane\<rparr>"

definition own_devices :: "pview \<Rightarrow> ane_device \<Rightarrow> bool" where
  "own_devices v ane \<longleftrightarrow> pv_domains v \<inter> dev_domains ane = {} \<and> pv_links v \<inter> dev_links ane = {}"

lemma detached_attached: "own_devices v ane \<Longrightarrow> detached (attached v ane) ane = v"
  by (auto simp: detached_def attached_def own_devices_def Un_Diff Diff_triv)

definition all_attached :: "ane_device \<Rightarrow> bool" where
  "all_attached ane \<longleftrightarrow> (\<forall>x\<in>set (dev_pd_dev ane). \<exists>d. x = Inr (Some d)) \<and> None \<notin> set (dev_pd_link ane)"

lemma mem_list_update:
  "i < length xs \<Longrightarrow> xs ! i \<noteq> z \<Longrightarrow> z \<in> set (xs[i := y]) \<longleftrightarrow> z = y \<or> z \<in> set xs"
  by (auto simp: in_set_conv_nth nth_list_update)

lemma take_Suc_mem: "i < length xs \<Longrightarrow> z \<in> set (take (Suc i) xs) \<longleftrightarrow> z = xs ! i \<or> z \<in> set (take i xs)"
  by (simp add: take_Suc_conv_app_nth)

lemma pview_same [simp]:
  "v\<lparr>pv_domains := pv_domains v\<rparr> = v" "v\<lparr>pv_links := pv_links v\<rparr> = v"
  by simp_all

context platform
begin

lemma detach_loop_ok:
  assumes "i \<le> length (dev_pd_dev ane)" and "i \<le> length (dev_pd_link ane)"
  shows "\<exists>p1. detach_loop P ane i p = Some p1 \<and> view p1 = (view p)
    \<lparr>pv_domains := pv_domains (view p) - {x. Inr (Some x) \<in> set (take i (dev_pd_dev ane))},
     pv_links := pv_links (view p) - {x. Some x \<in> set (take i (dev_pd_link ane))}\<rparr>"
  using assms
proof (induction i arbitrary: p)
  case (Suc i)
  define link where "link = dev_pd_link ane ! i"
  define pd where "pd = dev_pd_dev ane ! i"
  define p1 where "p1 = (case link of None \<Rightarrow> p | Some x \<Rightarrow> p_link_del P x p)"
  define p2 where "p2 = (case pd of Inr (Some x) \<Rightarrow> p_domain_detach P x p1 | _ \<Rightarrow> p1)"
  have v1: "view p1 = (view p)\<lparr>pv_links := pv_links (view p) - {x. Some x = link}\<rparr>"
    by (cases link) (auto simp: p1_def link_del)
  have v2: "view p2 = (view p1)\<lparr>pv_domains := pv_domains (view p1) - {x. Inr (Some x) = pd}\<rparr>"
    by (auto simp: p2_def domain_detach split: sum.split option.split)
  have "detach_loop P ane (Suc i) p = detach_loop P ane i p2"
    using Suc.prems unfolding p2_def p1_def pd_def link_def by (simp add: item_def Let_def)
  moreover obtain p3 where "detach_loop P ane i p2 = Some p3" and "view p3 = (view p2)
    \<lparr>pv_domains := pv_domains (view p2) - {x. Inr (Some x) \<in> set (take i (dev_pd_dev ane))},
     pv_links := pv_links (view p2) - {x. Some x \<in> set (take i (dev_pd_link ane))}\<rparr>"
    using Suc.IH [of p2] Suc.prems by auto
  moreover have "{x. Inr (Some x) \<in> set (take (Suc i) (dev_pd_dev ane))} =
      {x. Inr (Some x) = pd} \<union> {x. Inr (Some x) \<in> set (take i (dev_pd_dev ane))}"
    and "{x. Some x \<in> set (take (Suc i) (dev_pd_link ane))} =
      {x. Some x = link} \<union> {x. Some x \<in> set (take i (dev_pd_link ane))}"
    using Suc.prems by (auto simp: take_Suc_mem pd_def link_def)
  ultimately show ?case by (simp add: v1 v2 Diff_eq Int_assoc)
qed simp

lemma ane_detach_genpd_ok:
  assumes "dev_ok ane"
  shows "\<exists>p1. ane_detach_genpd P ane p = Some p1 \<and> view p1 = detached (view p) ane"
proof (cases "dev_pd_count ane \<le> 1")
  case True
  with assms show ?thesis
    by (simp add: ane_detach_genpd_def dev_ok_def detached_def dev_domains_def dev_links_def)
next
  case False
  with assms show ?thesis
    using detach_loop_ok [of "nat (dev_pd_count ane)" ane p]
    by (simp add: ane_detach_genpd_def dev_ok_def detached_def dev_domains_def dev_links_def)
qed

text \<open>Before step \<open>i\<close> of the attaching loop: the entries from \<open>i\<close> on are empty.\<close>

definition attaching :: "nat \<Rightarrow> ane_device \<Rightarrow> pview \<Rightarrow> 'p \<Rightarrow> bool" where
  "attaching i ane v p \<longleftrightarrow> 1 < dev_pd_count ane \<and> dev_ok ane \<and> own_devices v ane \<and> view p = attached v ane \<and>
     (\<forall>j<nat (dev_pd_count ane). if j < i
        then (\<exists>d. dev_pd_dev ane ! j = Inr (Some d)) \<and> dev_pd_link ane ! j \<noteq> None
        else dev_pd_dev ane ! j = Inr None \<and> dev_pd_link ane ! j = None)"

text \<open>The outcome of \<open>ane_attach_genpd\<close>: all the domains or none.\<close>

definition attach_done :: "ane_device \<Rightarrow> pview \<Rightarrow> int \<Rightarrow> ane_device \<Rightarrow> 'p \<Rightarrow> bool" where
  "attach_done ane v e ane' p \<longleftrightarrow> dev_hw ane' = dev_hw ane \<and>
     (if e < 0 then view p = v
      else e = 0 \<and> dev_ok ane' \<and> own_devices v ane' \<and> view p = attached v ane' \<and> all_attached ane')"

lemma detach_all:
  assumes "dev_ok ane" and "own_devices v ane" and "view p = attached v ane"
  obtains p1 where "ane_detach_genpd P ane p = Some p1" and "view p1 = v"
  using ane_detach_genpd_ok [OF assms(1), of p] assms(2,3) by (auto simp: detached_attached)

text \<open>Storing what the two services returned.\<close>

lemma attach_domain:
  assumes at: "attaching i ane v p" and i: "i < nat (dev_pd_count ane)"
    and r: "p_domain_attach P i p = (pd, p1)"
  defines "ane1 \<equiv> ane\<lparr>dev_pd_dev := (dev_pd_dev ane)[i := pd]\<rparr>"
  shows "dev_ok ane1 \<and> own_devices v ane1 \<and> view p1 = attached v ane1"
proof -
  have len: "i < length (dev_pd_dev ane)" and old: "dev_pd_dev ane ! i = Inr None"
    using at i by (auto simp: attaching_def dev_ok_def)
  have doms: "dev_domains ane1 = {x. pd = Inr (Some x)} \<union> dev_domains ane"
    using len old by (auto simp: dev_domains_def ane1_def mem_list_update)
  have links: "dev_links ane1 = dev_links ane" by (simp add: dev_links_def ane1_def)
  have "pd = Inr (Some x) \<Longrightarrow> x \<notin> pv_domains v" for x
    using domain_attach [OF r] at by (auto simp: attaching_def attached_def)
  then have "own_devices v ane1"
    using at by (auto simp: own_devices_def doms links attaching_def)
  moreover have "view p1 = attached v ane1"
    using domain_attach [OF r] at unfolding attaching_def
    by (auto simp: attached_def doms links split: sum.splits option.splits)
  moreover have "dev_ok ane1" using at by (auto simp: attaching_def dev_ok_def ane1_def)
  ultimately show ?thesis by blast
qed

lemma attach_link:
  assumes ok: "dev_ok ane" "own_devices v ane" "view p = attached v ane"
    and i: "i < length (dev_pd_link ane)" and old: "dev_pd_link ane ! i = None"
    and r: "p_link_add P d p = (link, p1)"
  defines "ane1 \<equiv> ane\<lparr>dev_pd_link := (dev_pd_link ane)[i := link]\<rparr>"
  shows "dev_ok ane1 \<and> own_devices v ane1 \<and> view p1 = attached v ane1"
proof -
  have links: "dev_links ane1 = {x. link = Some x} \<union> dev_links ane"
    using i old by (auto simp: dev_links_def ane1_def mem_list_update)
  have doms: "dev_domains ane1 = dev_domains ane" by (simp add: dev_domains_def ane1_def)
  have "link = Some x \<Longrightarrow> x \<notin> pv_links v" for x
    using link_add [OF r] ok by (auto simp: attached_def)
  then have "own_devices v ane1" using ok by (auto simp: own_devices_def doms links)
  moreover have "view p1 = attached v ane1"
    using link_add [OF r] ok by (auto simp: attached_def doms links split: option.splits)
  moreover have "dev_ok ane1" using ok by (auto simp: dev_ok_def ane1_def)
  ultimately show ?thesis by blast
qed

lemma attach_loop_ok:
  assumes "attaching i ane v p" and "i + n = nat (dev_pd_count ane)"
  shows "\<exists>e ane' p'. attach_loop P i n ane p = Some (e, ane', p') \<and> attach_done ane v e ane' p'"
  using assms
proof (induction n arbitrary: i ane p)
  case 0
  then show ?case by (force simp: attaching_def attach_done_def all_attached_def dev_ok_def in_set_conv_nth)
next
  case (Suc n)
  note at = Suc.prems(1)
  have i: "i < nat (dev_pd_count ane)" using Suc.prems(2) by simp
  have len: "i < length (dev_pd_dev ane)" "i < length (dev_pd_link ane)" and none: "dev_pd_link ane ! i = None"
    using at i by (auto simp: attaching_def dev_ok_def)
  obtain pd p1 where r: "p_domain_attach P i p = (pd, p1)" by force
  define ane1 where "ane1 = ane\<lparr>dev_pd_dev := (dev_pd_dev ane)[i := pd]\<rparr>"
  have ok1: "dev_ok ane1" "own_devices v ane1" "view p1 = attached v ane1"
    using attach_domain [OF at i r] by (simp_all add: ane1_def)
  show ?case
  proof (cases pd)
    case (Inl e)
    then have "e < 0" using domain_attach [OF r] by simp
    moreover obtain p2 where "ane_detach_genpd P ane1 p1 = Some p2" "view p2 = v"
      using detach_all [OF ok1] .
    ultimately show ?thesis using len
      by (simp add: r Inl put_item_def Let_def attach_done_def ane1_def)
  next
    case (Inr x)
    obtain link p2 where r2: "p_link_add P x p1 = (link, p2)" by force
    define ane2 where "ane2 = ane1\<lparr>dev_pd_link := (dev_pd_link ane1)[i := link]\<rparr>"
    have len1: "i < length (dev_pd_link ane1)" and none1: "dev_pd_link ane1 ! i = None"
      using len none by (simp_all add: ane1_def)
    have ok2: "dev_ok ane2" "own_devices v ane2" "view p2 = attached v ane2"
      using attach_link [OF ok1 len1 none1 r2] by (simp_all add: ane2_def)
    have step: "attach_loop P i (Suc n) ane p =
        (if link = None then do { p3 \<leftarrow> ane_detach_genpd P ane2 p2; Some (- EINVAL, ane2, p3) }
         else attach_loop P (Suc i) n ane2 p2)"
      using len by (simp add: r r2 Inr put_item_def Let_def ane1_def ane2_def)
    have same: "dev_hw ane2 = dev_hw ane" "dev_pd_count ane2 = dev_pd_count ane"
      by (simp_all add: ane2_def ane1_def)
    show ?thesis
    proof (cases link)
      case None
      obtain p3 where "ane_detach_genpd P ane2 p2 = Some p3" "view p3 = v"
        using detach_all [OF ok2] .
      then show ?thesis unfolding step by (simp add: None attach_done_def same)
    next
      case (Some y)
      then obtain d where "x = Some d" using link_add [OF r2] by auto
      then have "attaching (Suc i) ane2 v p2"
        using at ok2 len Some unfolding attaching_def same
        by (auto simp: ane2_def ane1_def Inr nth_list_update less_Suc_eq)
      from Suc.IH [OF this] Suc.prems(2) show ?thesis
        unfolding step by (simp add: Some same attach_done_def)
    qed
  qed
qed

lemma ane_attach_genpd_ok:
  assumes "dev_pd_dev ane = []" and "dev_pd_link ane = []"
  shows "\<exists>e ane' p'. ane_attach_genpd P ane p = Some (e, ane', p') \<and> attach_done ane (view p) e ane' p'"
proof -
  define n where "n = p_count_domains P p"
  obtain ok1 p1 where r1: "p_kcalloc P (nat n) p = (ok1, p1)" by force
  obtain ok2 p2 where r2: "p_kcalloc P (nat n) p1 = (ok2, p2)" by force
  have v: "view p1 = view p" "view p2 = view p"
    using kcalloc [of "nat n" p] kcalloc [of "nat n" p1] by (simp_all add: r1 r2)
  define ane3 where "ane3 = ane\<lparr>dev_pd_count := n, dev_pd_dev := replicate (nat n) (Inr None),
    dev_pd_link := replicate (nat n) None\<rparr>"
  show ?thesis
  proof (cases "n \<le> 1 \<or> \<not> ok1 \<or> \<not> ok2")
    case True
    then show ?thesis
      using assms v by (auto simp: ane_attach_genpd_def n_def [symmetric] r1 r2 Let_def attach_done_def
          dev_ok_def own_devices_def attached_def dev_domains_def dev_links_def all_attached_def)
  next
    case False
    then have "attaching 0 ane3 (view p) p2"
      by (auto simp: attaching_def ane3_def dev_ok_def own_devices_def attached_def v
          dev_domains_def dev_links_def)
    from attach_loop_ok [OF this, of "nat n"] False show ?thesis
      by (simp add: ane_attach_genpd_def n_def [symmetric] r1 r2 Let_def ane3_def attach_done_def)
  qed
qed

end

section \<open>Probing\<close>

text \<open>What nothing in the source undoes: the interrupt of the DART stays disabled once more
  (\<open>disable_irq\<close>), and the power status stays active (\<open>pm_runtime_set_active\<close>).\<close>

definition left_behind :: "pview \<Rightarrow> ane_device \<Rightarrow> bool \<Rightarrow> bool \<Rightarrow> pview" where
  "left_behind v ane irq act = v\<lparr>pv_irq_depth :=
     (if irq then (pv_irq_depth v)(dev_dart_irq ane := pv_irq_depth v (dev_dart_irq ane) + 1) else pv_irq_depth v),
     pv_active := (act \<or> pv_active v)\<rparr>"

text \<open>A failed probe leaves these two if it came that far, and nothing else.\<close>

definition released :: "pview \<Rightarrow> ane_device \<Rightarrow> pview \<Rightarrow> bool" where
  "released v ane v' \<longleftrightarrow> (\<exists>irq act. (act \<longrightarrow> irq) \<and> v' = left_behind v ane irq act)"

lemma released_same: "released v ane v"
  by (auto simp: released_def left_behind_def intro!: exI [of _ False])

lemma detached_left_behind:
  assumes "own_devices v ane"
  shows "detached (left_behind (attached v ane) ane irq act) ane = left_behind v ane irq act"
proof -
  have "detached (left_behind (attached v ane) ane irq act) ane =
      left_behind (detached (attached v ane) ane) ane irq act"
    by (simp add: detached_def left_behind_def)
  with detached_attached [OF assms] show ?thesis by simp
qed

lemma released_detached:
  assumes "own_devices v ane" and "released (attached v ane) ane v'"
  shows "released v ane (detached v' ane)"
  using assms(2) detached_left_behind [OF assms(1)] unfolding released_def by metis

definition unprobed :: "pview \<Rightarrow> bool" where
  "unprobed v \<longleftrightarrow> pv_mm v = None \<and> \<not> pv_autosuspend v \<and> \<not> pv_pm_enabled v \<and> \<not> pv_registered v"

text \<open>The platform of a running device.\<close>

definition running :: "ane_hw \<Rightarrow> ane_device \<Rightarrow> pview \<Rightarrow> pview" where
  "running hw ane v = (attached v ane)
     \<lparr>pv_irq_depth := (pv_irq_depth v)(dev_dart_irq ane := pv_irq_depth v (dev_dart_irq ane) + 1),
      pv_mm := Some (hw_vm_base hw, max_iova hw (dev_shift ane)), pv_autosuspend := True,
      pv_active := True, pv_pm_enabled := True, pv_registered := True\<rparr>"

definition lowest_bit :: "u64 \<Rightarrow> nat \<Rightarrow> bool" where
  "lowest_bit w n \<longleftrightarrow> bit w n \<and> (\<forall>m<n. \<not> bit w m)"

lemma ffs_lowest: "w \<noteq> 0 \<Longrightarrow> \<exists>n. ffs w = Some n \<and> lowest_bit w n"
proof -
  assume "w \<noteq> 0"
  then obtain j where "bit w j" by (auto simp: bit_eq_iff)
  then have j: "bit w j" "j < 64" using bit_imp_le_length [of w j] by auto
  have "ffs w \<noteq> None" using j by (auto simp: ffs_def find_None_iff)
  then obtain n where n: "ffs w = Some n" by blast
  then have "bit w n" "\<forall>m<n. \<not> bit w m" by (auto simp: ffs_def find_Some_iff)
  with n show ?thesis by (auto simp: lowest_bit_def)
qed

context platform
begin

definition probe_done :: "ane_hw \<Rightarrow> pview \<Rightarrow> int \<Rightarrow> ane_device \<Rightarrow> 'p \<Rightarrow> bool" where
  "probe_done hw v e ane p \<longleftrightarrow>
     (if e < 0 then released v ane (view p)
      else e = 0 \<and> dev_ok ane \<and> own_devices v ane \<and> all_attached ane \<and> view p = running hw ane v)"

definition held :: "pview \<Rightarrow> ane_device \<Rightarrow> 'p \<Rightarrow> bool" where
  "held v ane p \<longleftrightarrow> dev_ok ane \<and> own_devices v ane \<and> released (attached v ane) ane (view p)"

lemma detach_genpd_ok:
  assumes "held v ane p" and "err < 0"
  shows "\<exists>p1. detach_genpd P err ane p l = Some (err, ane, p1, l) \<and> probe_done hw v err ane p1"
proof -
  obtain p1 where "ane_detach_genpd P ane p = Some p1" and v1: "view p1 = detached (view p) ane"
    using ane_detach_genpd_ok assms(1) unfolding held_def by blast
  moreover have "released v ane (view p1)"
    using assms(1) by (auto simp: held_def v1 released_detached)
  ultimately show ?thesis using assms(2) by (simp add: detach_genpd_def probe_done_def)
qed

lemma probe_pm_view:
  "view (probe_pm P p) = (view p)\<lparr>pv_autosuspend := True, pv_active := True, pv_pm_enabled := True\<rparr>"
  by (simp add: probe_pm_def Let_def keeps effects)

lemma disable_pm_view:
  "view (disable_pm P p) = (view p)\<lparr>pv_pm_enabled := False, pv_autosuspend := False, pv_mm := None\<rparr>"
  by (simp add: disable_pm_def ane_iommu_domain_free_def effects)

lemma probe_register_ok:
  assumes hw: "dev_hw ane = Some hw" "hw_tm_enable hw l = Some l1" and v: "unprobed v"
    and dev: "dev_ok ane" "own_devices v ane"
    and p: "view p = (attached v ane)\<lparr>pv_irq_depth := (pv_irq_depth v)(dev_dart_irq ane := pv_irq_depth v (dev_dart_irq ane) + 1),
      pv_mm := Some (hw_vm_base hw, max_iova hw (dev_shift ane))\<rparr>"
    and all: "all_attached ane"
  shows "\<exists>e p1. probe_register P ane p l = Some (e, ane, p1, l1) \<and> probe_done hw v e ane p1"
proof -
  obtain e p1 where r: "p_dev_register P (probe_pm P p) = (e, p1)" by force
  show ?thesis
  proof (cases "e < 0")
    case True
    then have v1: "view (disable_pm P p1) = (view p)\<lparr>pv_active := True, pv_pm_enabled := False,
        pv_autosuspend := False, pv_mm := None\<rparr>"
      using dev_register [OF r] by (simp add: disable_pm_view probe_pm_view)
    have "view (disable_pm P p1) = left_behind (attached v ane) ane True True"
      using v by (simp add: v1 p unprobed_def attached_def left_behind_def)
    then have "held v ane (disable_pm P p1)" using dev unfolding held_def released_def by blast
    moreover have "probe_register P ane p l = detach_genpd P e ane (disable_pm P p1) l1"
      using True by (simp add: probe_register_def hw r)
    ultimately show ?thesis using detach_genpd_ok [OF _ True] by metis
  next
    case False
    then have "view p1 = running hw ane v"
      using dev_register [OF r] by (simp add: probe_pm_view p running_def)
    with False dev all show ?thesis by (simp add: probe_register_def hw r probe_done_def)
  qed
qed

lemma probe_resources_ok:
  assumes hw: "dev_hw ane = Some hw" "hw_tm_enable hw l = Some l1" and v: "unprobed v"
    and dev: "dev_ok ane" "own_devices v ane" "view p = attached v ane" "all_attached ane"
    and domain: "\<forall>p. p_iommu_domain P p \<noteq> Some 0"
  shows "\<exists>e ane' p1 l'. probe_resources P ane p l = Some (e, ane', p1, l') \<and> probe_done hw v e ane' p1 \<and>
    (0 \<le> e \<longrightarrow> l' = l1 \<and> (\<exists>p b. p_iommu_domain P p = Some b \<and> lowest_bit b (dev_shift ane')))"
proof -
  define ane1 where "ane1 = ane\<lparr>dev_irq := p_irq_byname P ''ane'' p\<rparr>"
  define ane2 where "ane2 = ane1\<lparr>dev_dart_irq := p_irq_byname P ''dart'' p\<rparr>"
  obtain err p1 where r: "p_ioremap P (p_disable_irq P (dev_dart_irq ane2) p) = (err, p1)" by force
  have v1: "view p1 = (attached v ane)\<lparr>pv_irq_depth :=
      (pv_irq_depth v)(dev_dart_irq ane2 := pv_irq_depth v (dev_dart_irq ane2) + 1)\<rparr>"
    using ioremap [of "p_disable_irq P (dev_dart_irq ane2) p"]
    by (simp add: r disable_irq dev(3) attached_def)
  have same: "dev_ok a" "own_devices v a" "attached v a = attached v ane" "all_attached a"
    if "dev_pd_dev a = dev_pd_dev ane" "dev_pd_link a = dev_pd_link ane" "dev_pd_count a = dev_pd_count ane" for a
    using dev that by (simp_all add: dev_ok_def own_devices_def attached_def all_attached_def dev_domains_def dev_links_def)
  have att: "attached v ane1 = attached v ane" "attached v ane2 = attached v ane"
    using same [of ane1] same [of ane2] by (simp_all add: ane1_def ane2_def)
  have "view p1 = left_behind (attached v ane2) ane2 True False"
    unfolding att by (simp add: v1 left_behind_def attached_def)
  then have "released (attached v ane2) ane2 (view p1)" unfolding released_def by blast
  then have held: "held v ane1 p" "held v ane2 p" "held v ane2 p1"
    using same [of ane1] same [of ane2] released_same [of "attached v ane"]
    by (simp_all add: held_def dev(3) att, simp_all add: ane1_def ane2_def)
  note fail = detach_genpd_ok [where hw = hw and l = l]
  note step = probe_resources_def ane1_def [symmetric] ane2_def [symmetric] Let_def
  consider (irq) "dev_irq ane1 < 0" | (dart) "\<not> dev_irq ane1 < 0" "dev_dart_irq ane2 < 0"
    | (map) "\<not> dev_irq ane1 < 0" "\<not> dev_dart_irq ane2 < 0" "err < 0"
    | (nodomain) "\<not> dev_irq ane1 < 0" "\<not> dev_dart_irq ane2 < 0" "\<not> err < 0" "p_iommu_domain P p1 = None"
    | (ok) b where "\<not> dev_irq ane1 < 0" "\<not> dev_dart_irq ane2 < 0" "\<not> err < 0" "p_iommu_domain P p1 = Some b"
    by (cases "p_iommu_domain P p1") auto
  then show ?thesis
  proof cases
    case irq
    then show ?thesis using fail [OF held(1), of "- ENODEV"] unfolding step by auto
  next
    case dart
    then show ?thesis using fail [OF held(2), of "- ENODEV"] unfolding step by auto
  next
    case map
    then show ?thesis using fail [OF held(3), of err] unfolding step by (auto simp: r)
  next
    case nodomain
    then show ?thesis using fail [OF held(3), of "- EPROBE_DEFER"] unfolding step
      by (auto simp: r ane_iommu_domain_init_def)
  next
    case ok
    obtain n where n: "ffs b = Some n" "lowest_bit b n" using ffs_lowest [of b] domain ok(4) by fastforce
    define ane3 where "ane3 = ane2\<lparr>dev_shift := n\<rparr>"
    define p2 where "p2 = p_mm_init P (hw_vm_base hw) (max_iova hw n) p1"
    have hw2: "dev_hw ane2 = Some hw" using hw by (simp add: ane2_def ane1_def)
    have v2: "view p2 = (attached v ane3)\<lparr>pv_irq_depth := (pv_irq_depth v)(dev_dart_irq ane3 := pv_irq_depth v (dev_dart_irq ane3) + 1),
      pv_mm := Some (hw_vm_base hw, max_iova hw (dev_shift ane3))\<rparr>"
      using same [of ane3] by (simp add: p2_def mm_init v1 ane3_def ane2_def ane1_def)
    have "probe_resources P ane p l = probe_register P ane3 p2 l"
      using ok unfolding step by (simp add: r ane_iommu_domain_init_def n hw2 ane3_def p2_def)
    moreover obtain e p3 where "probe_register P ane3 p2 l = Some (e, ane3, p3, l1)" "probe_done hw v e ane3 p3"
      using probe_register_ok [OF _ hw(2) v _ _ v2] same [of ane3] hw2
      by (auto simp: ane3_def ane2_def ane1_def)
    ultimately show ?thesis using ok(4) n(2) by (auto simp: ane3_def)
  qed
qed

lemma ane_platform_probe_ok:
  assumes "unprobed (view p)" and "enable_ok hw"
    and "\<forall>p. p_iommu_domain P p \<noteq> Some 0"
  shows "\<exists>e ane p1 l1. ane_platform_probe P (Some hw) p l = Some (e, ane, p1, l1) \<and>
    probe_done hw (view p) e ane p1 \<and>
    (0 \<le> e \<longrightarrow> hw_tm_enable hw l = Some l1 \<and>
      (\<exists>p b. p_iommu_domain P p = Some b \<and> lowest_bit b (dev_shift ane)))"
proof -
  obtain err p1 where r: "p_drm_dev_alloc P p = (err, p1)" by force
  have v1: "view p1 = view p" using drm_dev_alloc [of p] by (simp add: r)
  obtain l2 where l2: "hw_tm_enable hw l = Some l2" using assms(2) by (auto simp: enable_ok_def)
  obtain e ane p2 where a: "ane_attach_genpd P (new_device (Some hw)) p1 = Some (e, ane, p2)"
    and att: "attach_done (new_device (Some hw)) (view p) e ane p2"
    using ane_attach_genpd_ok [of "new_device (Some hw)" p1] by (auto simp: new_device_def v1)
  consider "err < 0" | "\<not> err < 0" "e < 0" | "\<not> err < 0" "\<not> e < 0" by blast
  then show ?thesis
  proof cases
    case 1
    then show ?thesis by (simp add: ane_platform_probe_def r probe_done_def v1 released_same)
  next
    case 2
    then have "view p2 = view p" using att by (simp add: attach_done_def)
    with 2 show ?thesis by (simp add: ane_platform_probe_def r a probe_done_def released_same)
  next
    case 3
    with att have "dev_hw ane = Some hw" "dev_ok ane" "own_devices (view p) ane"
      "view p2 = attached (view p) ane" "all_attached ane"
      by (simp_all add: attach_done_def new_device_def)
    from probe_resources_ok [OF this(1) l2 assms(1) this(2-5) assms(3)] 3
    show ?thesis by (auto simp: ane_platform_probe_def r a l2, blast)
  qed
qed

lemma ane_platform_remove_ok:
  assumes "dev_ok ane" and "own_devices v ane" and "unprobed v" and "view p = running hw ane v"
  shows "\<exists>p1. ane_platform_remove P ane p = Some p1 \<and> view p1 = left_behind v ane True True"
proof -
  define p4 where "p4 = ane_iommu_domain_free P (p_dont_use_autosuspend P (p_pm_disable P (p_dev_unregister P p)))"
  have "view p4 = left_behind (attached v ane) ane True True"
    using assms(3) unfolding p4_def ane_iommu_domain_free_def
    by (simp add: effects assms(4) running_def unprobed_def attached_def left_behind_def)
  with ane_detach_genpd_ok [OF assms(1), of p4] detached_left_behind [OF assms(2)] show ?thesis
    by (auto simp: ane_platform_remove_def Let_def p4_def)
qed

section \<open>Power references\<close>

lemma ane_drm_open_ok:
  "case p_resume_and_get P p of (err, _) \<Rightarrow> \<exists>p1. ane_drm_open P p = (err, p1) \<and>
     view p1 = (view p)\<lparr>pv_usage := pv_usage (view p) - (if err < 0 then 1 else 0)\<rparr>"
proof -
  obtain err p1 where r: "p_resume_and_get P p = (err, p1)" by force
  with resume_and_get [OF r] show ?thesis
    by (auto simp: ane_drm_open_def put_autosuspend mark_last_busy)
qed

lemma ane_drm_postclose_ok:
  "case p_resume_and_get P p of (err, _) \<Rightarrow>
     view (ane_drm_postclose P p) = (view p)\<lparr>pv_usage := pv_usage (view p) - (if err < 0 then 1 else 0)\<rparr>"
proof -
  obtain err p1 where r: "p_resume_and_get P p = (err, p1)" by force
  with resume_and_get [OF r] show ?thesis
    by (auto simp: ane_drm_postclose_def put_autosuspend mark_last_busy)
qed

text \<open>The ioctl handler between the two: it runs on \<open>p1\<close>, if at all.\<close>

lemma ane_drm_unlocked_ioctl_ok:
  assumes r: "p_resume_and_get P p = (err, p1)"
    and ioctl: "\<And>q. pv_usage (view (snd (drm_ioctl q))) = pv_usage (view q)"
  shows "\<exists>p2. ane_drm_unlocked_ioctl P drm_ioctl p =
      (if err = 0 \<or> err = - EACCES then fst (drm_ioctl p1) else err, p2) \<and>
    pv_usage (view p1) = pv_usage (view p) + (if err < 0 then 0 else 1) \<and>
    pv_usage (view p2) = pv_usage (view p) - (if err < 0 then 1 else 0)"
proof -
  obtain e q where q: "drm_ioctl p1 = (e, q)" by force
  have u: "pv_usage (view q) = pv_usage (view p1)" using ioctl [of p1] by (simp add: q)
  show ?thesis
    using resume_and_get [OF r] u
    by (cases "err < 0"; cases "err = - EACCES")
      (auto simp: ane_drm_unlocked_ioctl_def r q put_autosuspend mark_last_busy)
qed

end

end
