(* ===== verification/Drv_Mmap.thy ===== *)
theory Drv_Mmap
  imports Drv_Gem
begin

text \<open>
  \<open>ane_drm_mmap\<close> of \<open>src/driver/src/ane_drv.c\<close>: a process maps a buffer object. The services
  of the memory manager are a parameter \<open>M\<close> over an abstract state, with their documented
  behaviour the locale \<open>user_map\<close>; \<open>pte\<close> is the page table of the process.
\<close>

record vma =
  vma_start :: u64
  vma_pages :: nat
  vma_pgoff :: nat
  vma_private :: ptr                      \<comment> \<open>\<open>vm_private_data\<close>, the GEM object\<close>
  vma_flags :: u64
  vma_prot :: u64

record 'm mapi =
  m_gem_mmap :: "vma \<Rightarrow> 'm \<Rightarrow> int \<times> vma \<times> 'm"                     \<comment> \<open>\<open>drm_gem_mmap\<close>\<close>
  m_page_prot :: "u64 \<Rightarrow> u64"   \<comment> \<open>\<open>pgprot_writecombine(vm_get_page_prot(flags))\<close>\<close>
  m_decrypted :: "u64 \<Rightarrow> u64"                                  \<comment> \<open>\<open>pgprot_decrypted\<close>\<close>
  m_map_pages :: "vma \<Rightarrow> u64 list \<Rightarrow> u32 \<Rightarrow> 'm \<Rightarrow> int \<times> 'm"    \<comment> \<open>\<open>vm_map_pages\<close>\<close>

abbreviation ENXIO :: int where "ENXIO \<equiv> 6"

text \<open>The flags of \<open>linux/mm.h\<close>\<close>

abbreviation VM_PFNMAP :: u64 where "VM_PFNMAP \<equiv> 0x400"
abbreviation VM_IO :: u64 where "VM_IO \<equiv> 0x4000"
abbreviation VM_DONTEXPAND :: u64 where "VM_DONTEXPAND \<equiv> 0x40000"
abbreviation VM_DONTDUMP :: u64 where "VM_DONTDUMP \<equiv> 0x4000000"

definition page_addr :: "nat \<Rightarrow> u64 \<Rightarrow> nat \<Rightarrow> u64" where
  "page_addr shift start i = start + of_nat i * push_bit shift 1"

text \<open>\<open>vm_map_pages\<close> starts at the page \<open>vm_pgoff\<close> of the array, and refuses a mapping that
  reaches beyond its end.\<close>

locale user_map =
  fixes M :: "'m mapi" and pte :: "'m \<Rightarrow> u64 \<rightharpoonup> u64" and shift :: nat
  assumes gem_mmap: "m_gem_mmap M vma m = (e, vma1, m1) \<Longrightarrow>
      pte m1 = pte m \<and> vma_start vma1 = vma_start vma \<and> vma_pages vma1 = vma_pages vma \<and>
      (0 \<le> e \<longrightarrow> vma_private vma1 \<noteq> None)"
    and map_pages: "m_map_pages M vma pages num m = (e, m1) \<Longrightarrow> unat num \<le> length pages \<Longrightarrow>
      if unat num \<le> vma_pgoff vma \<or> unat num - vma_pgoff vma < vma_pages vma
      then e = - ENXIO \<and> pte m1 = pte m
      else e < 0 \<or> e = 0 \<and>
        (\<forall>i<vma_pages vma. pte m1 (page_addr shift (vma_start vma) i) = Some (pages ! (vma_pgoff vma + i)))"

text \<open>A mapping whose private data is no buffer object, or an object without pages, has no
  result.\<close>

definition ane_drm_mmap :: "'m mapi \<Rightarrow> (nat \<rightharpoonup> ane_bo) \<Rightarrow> vma \<Rightarrow> 'm \<Rightarrow> (int \<times> vma \<times> 'm) option" where
  "ane_drm_mmap M bos vma m = (case m_gem_mmap M vma m of (err, vma1, m1) \<Rightarrow>
     if err < 0 then Some (err, vma1, m1)
     else do {
       let vma2 = vma1\<lparr>vma_pgoff := 0\<rparr>;
       gem \<leftarrow> vma_private vma2;
       bo \<leftarrow> bos gem;
       let vma3 = vma2\<lparr>vma_flags := (vma_flags vma2 OR (VM_IO OR VM_DONTEXPAND OR VM_DONTDUMP))
         AND NOT VM_PFNMAP\<rparr>;
       let vma4 = vma3\<lparr>vma_prot := m_page_prot M (vma_flags vma3)\<rparr>;
       let vma5 = vma4\<lparr>vma_prot := m_decrypted M (vma_prot vma4)\<rparr>;
       if vma_pages vma5 = 0 then Some (- ENXIO, vma5, m1)
       else do {
         pages \<leftarrow> bo_pages bo;
         case m_map_pages M vma5 pages (bo_npages bo) m1 of (err, m2) \<Rightarrow> Some (err, vma5, m2) } })"

context user_map
begin

text \<open>The object that is mapped, as the invariant of the driver has it.\<close>

lemma ane_drm_mmap_ok:
  assumes inv: "bos_inv lo hi shift' bos v"
    and r: "m_gem_mmap M vma m = (e0, vma1, m1)" "0 \<le> e0"
    and bo: "vma_private vma1 = Some b" "bos b = Some bo"
  shows "\<exists>e vma2 m2. ane_drm_mmap M bos vma m = Some (e, vma2, m2) \<and>
    (if vma_pages vma = 0 \<or> unat (bo_npages bo) < vma_pages vma then e = - ENXIO \<and> pte m2 = pte m
     else e < 0 \<or> e = 0 \<and> (\<forall>i<vma_pages vma.
       pte m2 (page_addr shift (vma_start vma) i) = Some (pages_of bo ! i)))"
proof -
  have ok: "bo_ok lo hi shift' v bo" using inv_bo [OF inv bo(2)] .
  then obtain ps where ps: "bo_pages bo = Some ps" "pages_of bo = ps"
    by (cases "bo_pages bo") (auto simp: bo_ok_def pages_of_def)
  have len: "unat (bo_npages bo) \<le> length ps" and n: "0 < unat (bo_npages bo)"
    using ok ps by (auto simp: bo_ok_def)
  note same = gem_mmap [OF r(1)]
  define vma5 where "vma5 = vma1\<lparr>vma_pgoff := 0,
     vma_flags := (vma_flags vma1 OR (VM_IO OR VM_DONTEXPAND OR VM_DONTDUMP)) AND NOT VM_PFNMAP,
     vma_prot := m_decrypted M (m_page_prot M
       ((vma_flags vma1 OR (VM_IO OR VM_DONTEXPAND OR VM_DONTDUMP)) AND NOT VM_PFNMAP))\<rparr>"
  obtain e m2 where r2: "m_map_pages M vma5 ps (bo_npages bo) m1 = (e, m2)" by force
  have eq: "ane_drm_mmap M bos vma m =
      (if vma_pages vma = 0 then Some (- ENXIO, vma5, m1) else Some (e, vma5, m2))"
    using r(2) bo ps(1) r2 same by (simp add: ane_drm_mmap_def r(1) vma5_def Let_def)
  show ?thesis
    unfolding eq using map_pages [OF r2 len] same n ps(2)
    by (cases "vma_pages vma = 0") (auto simp: vma5_def split: if_splits)
qed

end

text \<open>A memory manager that maps whatever it is given to an object it knows: the contract can be
  met.\<close>

definition ref_map_pages :: "nat \<Rightarrow> vma \<Rightarrow> u64 list \<Rightarrow> u32 \<Rightarrow> (u64 \<rightharpoonup> u64) \<Rightarrow> int \<times> (u64 \<rightharpoonup> u64)" where
  "ref_map_pages shift vma pages num pt =
     (if unat num \<le> vma_pgoff vma \<or> unat num - vma_pgoff vma < vma_pages vma then (- ENXIO, pt)
      else if \<not> distinct (map (page_addr shift (vma_start vma)) [0..<vma_pages vma]) then (- EINVAL, pt)
      else (0, foldr (\<lambda>i pt. pt(page_addr shift (vma_start vma) i \<mapsto> pages ! (vma_pgoff vma + i)))
        [0..<vma_pages vma] pt))"

definition ref_mapi :: "nat \<Rightarrow> ptr \<Rightarrow> (u64 \<rightharpoonup> u64) mapi" where
  "ref_mapi shift gem = \<lparr>m_gem_mmap = (\<lambda>vma pt. if gem = None then (- EINVAL, vma, pt)
       else (0, vma\<lparr>vma_private := gem\<rparr>, pt)),
     m_page_prot = (\<lambda>fl. fl), m_decrypted = (\<lambda>pr. pr), m_map_pages = ref_map_pages shift\<rparr>"

lemma foldr_upd_distinct:
  "distinct (map f xs) \<Longrightarrow> i \<in> set xs \<Longrightarrow> foldr (\<lambda>i m. m(f i \<mapsto> g i)) xs m (f i) = Some (g i)"
proof (induction xs)
  case (Cons a xs)
  then have "i = a \<or> i \<in> set xs \<and> f i \<noteq> f a" by (auto simp: image_iff)
  with Cons show ?case by auto
qed simp

lemma ref_map_pages_law:
  assumes "ref_map_pages shift vma pages num m = (e, m1)"
  shows "if unat num \<le> vma_pgoff vma \<or> unat num - vma_pgoff vma < vma_pages vma
    then e = - ENXIO \<and> m1 = m
    else e < 0 \<or> e = 0 \<and>
      (\<forall>i<vma_pages vma. m1 (page_addr shift (vma_start vma) i) = Some (pages ! (vma_pgoff vma + i)))"
proof -
  let ?f = "page_addr shift (vma_start vma)" and ?g = "\<lambda>i. pages ! (vma_pgoff vma + i)"
  have "foldr (\<lambda>i pt. pt(?f i \<mapsto> ?g i)) [0..<vma_pages vma] m (?f i) = Some (?g i)"
    if "distinct (map ?f [0..<vma_pages vma])" "i < vma_pages vma" for i
    using foldr_upd_distinct [OF that(1), where g = ?g and m = m] that(2) by simp
  then show ?thesis using assms unfolding ref_map_pages_def by (auto split: if_splits)
qed

interpretation ref_map: user_map "ref_mapi shift gem" "\<lambda>m. m" shift
  using ref_map_pages_law [of shift]
  by unfold_locales (auto simp: ref_mapi_def split: if_splits)

end
