(* ===== verification/Drv_Life.thy ===== *)
theory Drv_Life
  imports Drv_Power Drv_Mmap Drv_Ref
begin

text \<open>
  What holds of the life of the device: probing is all or nothing, removing undoes it, the
  power references of the file operations, and what a process that maps an object sees. The
  contract \<open>platform\<close> is met by a platform in lists with a script of failures.
\<close>

section \<open>A reference platform\<close>

record ref_platform =
  rp_domains :: "nat list"
  rp_links :: "nat list"
  rp_irq :: "int \<Rightarrow> nat"
  rp_mm :: "(u64 \<times> u64) option"
  rp_auto :: bool
  rp_active :: bool
  rp_enabled :: bool
  rp_usage :: nat
  rp_registered :: bool
  rp_script :: "bool list"

definition plat_view :: "ref_platform \<Rightarrow> pview" where
  "plat_view p = \<lparr>pv_domains = set (rp_domains p), pv_links = set (rp_links p), pv_irq_depth = rp_irq p,
     pv_mm = rp_mm p, pv_autosuspend = rp_auto p, pv_active = rp_active p, pv_pm_enabled = rp_enabled p,
     pv_usage = rp_usage p, pv_registered = rp_registered p\<rparr>"

definition rp_fails :: "ref_platform \<Rightarrow> bool \<times> ref_platform" where
  "rp_fails p = (case rp_script p of [] \<Rightarrow> (False, p) | f # fs \<Rightarrow> (f, p\<lparr>rp_script := fs\<rparr>))"

text \<open>A service that may fail with the error \<open>e\<close>, and does \<open>g\<close> otherwise.\<close>

definition rp_try :: "int \<Rightarrow> (ref_platform \<Rightarrow> ref_platform) \<Rightarrow> ref_platform \<Rightarrow> int \<times> ref_platform" where
  "rp_try e g p = (case rp_fails p of (f, p1) \<Rightarrow> if f then (e, p1) else (0, g p1))"

definition rp_attach :: "ref_platform \<Rightarrow> err_ptr \<times> ref_platform" where
  "rp_attach p = (case rp_fails p of (f, p1) \<Rightarrow>
     if f then (Inl (- ENODEV), p1)
     else let x = fresh (rp_domains p1) in (Inr (Some x), p1\<lparr>rp_domains := x # rp_domains p1\<rparr>))"

definition rp_link :: "ptr \<Rightarrow> ref_platform \<Rightarrow> ptr \<times> ref_platform" where
  "rp_link d p = (case rp_fails p of (f, p1) \<Rightarrow>
     if f \<or> d = None then (None, p1)
     else let x = fresh (rp_links p1) in (Some x, p1\<lparr>rp_links := x # rp_links p1\<rparr>))"

text \<open>\<open>n\<close> power domains, and an IOMMU with pages of 16 KiB and 32 MiB.\<close>

definition ref_papi :: "int \<Rightarrow> ref_platform papi" where
  "ref_papi n = \<lparr>
     p_drm_dev_alloc = rp_try (- ENOMEM) (\<lambda>p. p),
     p_count_domains = (\<lambda>p. n),
     p_kcalloc = (\<lambda>n p. case rp_fails p of (f, p1) \<Rightarrow> (\<not> f, p1)),
     p_domain_attach = (\<lambda>i. rp_attach),
     p_domain_detach = (\<lambda>x p. p\<lparr>rp_domains := filter (\<lambda>y. y \<noteq> x) (rp_domains p)\<rparr>),
     p_link_add = rp_link,
     p_link_del = (\<lambda>x p. p\<lparr>rp_links := filter (\<lambda>y. y \<noteq> x) (rp_links p)\<rparr>),
     p_irq_byname = (\<lambda>name p. int (length name)),
     p_disable_irq = (\<lambda>i p. p\<lparr>rp_irq := (rp_irq p)(i := rp_irq p i + 1)\<rparr>),
     p_ioremap = rp_try (- ENOMEM) (\<lambda>p. p),
     p_iommu_domain = (\<lambda>p. Some 0x2004000),
     p_mm_init = (\<lambda>a sz p. p\<lparr>rp_mm := Some (a, sz)\<rparr>),
     p_mm_takedown = (\<lambda>p. p\<lparr>rp_mm := None\<rparr>),
     p_set_autosuspend_delay = (\<lambda>ms p. p),
     p_use_autosuspend = (\<lambda>p. p\<lparr>rp_auto := True\<rparr>),
     p_dont_use_autosuspend = (\<lambda>p. p\<lparr>rp_auto := False\<rparr>),
     p_get_noresume = (\<lambda>p. p\<lparr>rp_usage := rp_usage p + 1\<rparr>),
     p_set_active = (\<lambda>p. p\<lparr>rp_active := True\<rparr>),
     p_pm_enable = (\<lambda>p. p\<lparr>rp_enabled := True\<rparr>),
     p_pm_disable = (\<lambda>p. p\<lparr>rp_enabled := False\<rparr>),
     p_mark_last_busy = (\<lambda>p. p),
     p_put_autosuspend = (\<lambda>p. p\<lparr>rp_usage := rp_usage p - 1\<rparr>),
     p_resume_and_get = rp_try (- EINVAL) (\<lambda>p. p\<lparr>rp_usage := rp_usage p + 1\<rparr>),
     p_dev_register = rp_try (- ENOMEM) (\<lambda>p. p\<lparr>rp_registered := True\<rparr>),
     p_dev_unregister = (\<lambda>p. p\<lparr>rp_registered := False\<rparr>)\<rparr>"

lemma rp_fails_view: "rp_fails p = (f, p1) \<Longrightarrow> plat_view p1 = plat_view p"
  by (auto simp: rp_fails_def plat_view_def split: list.splits)

lemma plat_view_updates [simp]:
  "plat_view (p\<lparr>rp_irq := a\<rparr>) = (plat_view p)\<lparr>pv_irq_depth := a\<rparr>"
  "plat_view (p\<lparr>rp_mm := b\<rparr>) = (plat_view p)\<lparr>pv_mm := b\<rparr>"
  "plat_view (p\<lparr>rp_auto := c\<rparr>) = (plat_view p)\<lparr>pv_autosuspend := c\<rparr>"
  "plat_view (p\<lparr>rp_active := c\<rparr>) = (plat_view p)\<lparr>pv_active := c\<rparr>"
  "plat_view (p\<lparr>rp_enabled := c\<rparr>) = (plat_view p)\<lparr>pv_pm_enabled := c\<rparr>"
  "plat_view (p\<lparr>rp_usage := n\<rparr>) = (plat_view p)\<lparr>pv_usage := n\<rparr>"
  "plat_view (p\<lparr>rp_registered := c\<rparr>) = (plat_view p)\<lparr>pv_registered := c\<rparr>"
  "plat_view (p\<lparr>rp_domains := xs\<rparr>) = (plat_view p)\<lparr>pv_domains := set xs\<rparr>"
  "plat_view (p\<lparr>rp_links := xs\<rparr>) = (plat_view p)\<lparr>pv_links := set xs\<rparr>"
  by (simp_all add: plat_view_def)

lemma plat_view_fields:
  "pv_usage (plat_view p) = rp_usage p" "pv_irq_depth (plat_view p) = rp_irq p"
  "pv_domains (plat_view p) = set (rp_domains p)" "pv_links (plat_view p) = set (rp_links p)"
  by (simp_all add: plat_view_def)

lemma rp_try_law:
  assumes "rp_try e g p = (e1, p2)" and "e < 0" and "\<And>q. plat_view (g q) = h (plat_view q)"
  shows "if e1 < 0 then plat_view p2 = plat_view p else e1 = 0 \<and> plat_view p2 = h (plat_view p)"
  using assms by (auto simp: rp_try_def split: prod.splits if_splits dest: rp_fails_view)

lemma rp_try_id: "plat_view (snd (rp_try e (\<lambda>p. p) p)) = plat_view p"
  by (auto simp: rp_try_def split: prod.splits dest: rp_fails_view)

lemma rp_attach_law:
  assumes "rp_attach p = (r, p1)"
  shows "case r of
      Inl e \<Rightarrow> e < 0 \<and> plat_view p1 = plat_view p
    | Inr None \<Rightarrow> plat_view p1 = plat_view p
    | Inr (Some x) \<Rightarrow> x \<notin> pv_domains (plat_view p) \<and>
        plat_view p1 = (plat_view p)\<lparr>pv_domains := insert x (pv_domains (plat_view p))\<rparr>"
proof -
  obtain f q where f: "rp_fails p = (f, q)" by force
  note v = rp_fails_view [OF f]
  show ?thesis
  proof (cases f)
    case True
    with assms v show ?thesis by (auto simp: rp_attach_def f)
  next
    case False
    with assms have "r = Inr (Some (fresh (rp_domains q)))"
      "p1 = q\<lparr>rp_domains := fresh (rp_domains q) # rp_domains q\<rparr>"
      by (auto simp: rp_attach_def f Let_def)
    moreover have "pv_domains (plat_view p) = set (rp_domains q)" by (simp add: v [symmetric] plat_view_fields)
    ultimately show ?thesis using fresh_not_in [of "rp_domains q"] by (simp add: v)
  qed
qed

lemma rp_link_law:
  assumes "rp_link d p = (r, p1)"
  shows "case r of
      None \<Rightarrow> plat_view p1 = plat_view p
    | Some x \<Rightarrow> d \<noteq> None \<and> x \<notin> pv_links (plat_view p) \<and>
        plat_view p1 = (plat_view p)\<lparr>pv_links := insert x (pv_links (plat_view p))\<rparr>"
proof -
  obtain f q where f: "rp_fails p = (f, q)" by force
  note v = rp_fails_view [OF f]
  show ?thesis
  proof (cases "f \<or> d = None")
    case True
    with assms v show ?thesis by (auto simp: rp_link_def f)
  next
    case False
    with assms have "r = Some (fresh (rp_links q))"
      "p1 = q\<lparr>rp_links := fresh (rp_links q) # rp_links q\<rparr>"
      by (auto simp: rp_link_def f Let_def)
    moreover have "pv_links (plat_view p) = set (rp_links q)" by (simp add: v [symmetric] plat_view_fields)
    ultimately show ?thesis using fresh_not_in [of "rp_links q"] False by (simp add: v)
  qed
qed

lemma set_filter_neq: "set (filter (\<lambda>y. y \<noteq> x) ys) = set ys - {x}"
  by auto

interpretation ref_plat: platform "ref_papi n" plat_view
proof (unfold_locales, goal_cases)
  case (3 i p r p1)
  then show ?case using rp_attach_law [of p r p1] by (simp add: ref_papi_def)
next
  case (5 d p l p1)
  then show ?case using rp_link_law [of d p l p1] by (simp add: ref_papi_def)
next
  case (20 p e p1)
  then show ?case
    using rp_try_law [of "- EINVAL" "\<lambda>p. p\<lparr>rp_usage := rp_usage p + 1\<rparr>" p e p1
        "\<lambda>v. v\<lparr>pv_usage := pv_usage v + 1\<rparr>"]
    by (simp add: ref_papi_def plat_view_fields)
next
  case (21 p e p1)
  then show ?case
    using rp_try_law [of "- ENOMEM" "\<lambda>p. p\<lparr>rp_registered := True\<rparr>" p e p1
        "\<lambda>v. v\<lparr>pv_registered := True\<rparr>"]
    by (simp add: ref_papi_def split: if_splits)
qed (auto simp: ref_papi_def plat_view_fields set_filter_neq rp_try_id dest: rp_fails_view
    split: prod.splits simp del: set_filter)

text \<open>A platform where nothing is probed yet, with a script of failures.\<close>

definition fresh_platform :: "bool list \<Rightarrow> ref_platform" where
  "fresh_platform fs = \<lparr>rp_domains = [], rp_links = [], rp_irq = (\<lambda>_. 0), rp_mm = None, rp_auto = False,
     rp_active = False, rp_enabled = False, rp_usage = 0, rp_registered = False, rp_script = fs\<rparr>"

lemma fresh_unprobed: "unprobed (plat_view (fresh_platform fs))"
  by (simp add: unprobed_def plat_view_def fresh_platform_def)

lemma ref_domain_sized: "\<forall>p. p_iommu_domain (ref_papi n) p \<noteq> Some 0"
  by (simp add: ref_papi_def)

section \<open>Probe and remove\<close>

text \<open>C8: \<open>ane_platform_probe\<close>, whichever of its services fails: an error leaves no power domain,
  device link, address space, registration, runtime power management or usage count behind, and
  changes at most two things, which the source does not undo: the interrupt of the DART is
  disabled once more, and after that the power status may be set active. A success has attached
  and linked every power domain, initialised the address space for the smallest page size of
  the IOMMU, enabled runtime power management and the task manager, and kept the usage counter
  balanced.\<close>
theorem ane_platform_probe_all_or_nothing:
  assumes "platform P view" and "unprobed (view p)" and "enable_ok hw"
    and "\<forall>p. p_iommu_domain P p \<noteq> Some 0"
  shows "\<exists>e ane p1 l1. ane_platform_probe P (Some hw) p l = Some (e, ane, p1, l1) \<and>
    (if e < 0 then released (view p) ane (view p1)
     else e = 0 \<and> dev_ok ane \<and> all_attached ane \<and> own_devices (view p) ane \<and>
       view p1 = running hw ane (view p) \<and> hw_tm_enable hw l = Some l1 \<and>
       (\<exists>p b. p_iommu_domain P p = Some b \<and> lowest_bit b (dev_shift ane)))"
proof -
  obtain e ane p1 l1 where "ane_platform_probe P (Some hw) p l = Some (e, ane, p1, l1)"
    and "platform.probe_done view hw (view p) e ane p1"
    and "0 \<le> e \<longrightarrow> hw_tm_enable hw l = Some l1 \<and>
      (\<exists>p b. p_iommu_domain P p = Some b \<and> lowest_bit b (dev_shift ane))"
    using platform.ane_platform_probe_ok [OF assms] by blast
  then show ?thesis
    by (intro exI [of _ e] exI [of _ ane] exI [of _ p1] exI [of _ l1])
      (simp add: platform.probe_done_def [OF assms(1)])
qed

text \<open>The second of two links cannot be made: the first link and both domains are given back.\<close>

abbreviation sample_hw :: ane_hw where
  "sample_hw \<equiv> ane_hw_h13 sample_device (poll_for sample_device)"

definition link_fails :: ref_platform where
  "link_fails = fresh_platform [False, False, False, False, False, False, True]"

lemma fresh_simps: "fresh [] = 1" "fresh [Suc 0] = 2"
  by (simp_all add: fresh_def)

lemmas plat_eval = ane_platform_probe_def ane_attach_genpd_def new_device_def rp_try_def rp_fails_def
  rp_attach_def rp_link_def item_def put_item_def ane_detach_genpd_def numeral_2_eq_2 fresh_simps

lemma link_fails_probe:
  "\<exists>ane p1. ane_platform_probe (ref_papi 2) (Some hw) link_fails l = Some (- EINVAL, ane, p1, l)"
  by (simp add: plat_eval ref_papi_def link_fails_def fresh_platform_def Let_def)

theorem ane_platform_probe_all_or_nothing_witness:
  "\<exists>ane p1. ane_platform_probe (ref_papi 2) (Some sample_hw) link_fails [] = Some (- EINVAL, ane, p1, []) \<and>
     rp_domains p1 = [] \<and> rp_links p1 = []"
  using ane_platform_probe_all_or_nothing [OF ref_plat.platform_axioms _ enable_ok_h13 ref_domain_sized,
      of link_fails 2 sample_device "poll_for sample_device" "[]"]
    link_fails_probe [of sample_hw "[]"] fresh_unprobed
  by (auto simp: link_fails_def released_def left_behind_def plat_view_def fresh_platform_def)

text \<open>C17: \<open>ane_platform_remove\<close> gives back what a successful probe took: registration, runtime
  power management, address space, links and power domains, all of them and nothing else. The
  platform is then as before the probe but for two things the source never undoes: the interrupt
  of the DART stays disabled once more, and the power status stays active.\<close>
theorem ane_platform_remove_undoes_probe:
  assumes "platform P view" and "unprobed (view p)" and "enable_ok hw"
    and "\<forall>p. p_iommu_domain P p \<noteq> Some 0"
    and "ane_platform_probe P (Some hw) p l = Some (e, ane, p1, l1)" and "0 \<le> e" and "view p2 = view p1"
  shows "\<exists>p3. ane_platform_remove P ane p2 = Some p3 \<and> view p3 = left_behind (view p) ane True True"
proof -
  have "dev_ok ane" "own_devices (view p) ane" "view p2 = running hw ane (view p)"
    using platform.ane_platform_probe_ok [OF assms(1), of p hw l] assms(2-7)
    by (auto simp: platform.probe_done_def [OF assms(1)])
  from platform.ane_platform_remove_ok [OF assms(1) this(1,2) assms(2) this(3)] show ?thesis .
qed

lemma fresh_probe:
  "\<exists>ane p1 l1. ane_platform_probe (ref_papi 2) (Some sample_hw) (fresh_platform []) [] = Some (0, ane, p1, l1) \<and>
     rp_domains p1 = [2, 1]"
proof -
  obtain l1 where "hw_tm_enable sample_hw [] = Some l1"
    using enable_ok_h13 [of sample_device "poll_for sample_device"] by (auto simp: enable_ok_def)
  moreover have "ffs 0x2004000 = Some 14" by code_simp
  ultimately show ?thesis
    by (simp add: plat_eval ref_papi_def fresh_platform_def Let_def probe_resources_def
        ane_iommu_domain_init_def probe_register_def probe_pm_def)
qed

theorem ane_platform_remove_undoes_probe_witness:
  "\<exists>ane p1 l1 p3. ane_platform_probe (ref_papi 2) (Some sample_hw) (fresh_platform []) [] = Some (0, ane, p1, l1) \<and>
     rp_domains p1 = [2, 1] \<and> ane_platform_remove (ref_papi 2) ane p1 = Some p3 \<and>
     rp_domains p3 = [] \<and> rp_links p3 = [] \<and> rp_mm p3 = None \<and> \<not> rp_registered p3 \<and>
     rp_irq p3 (dev_dart_irq ane) = 1"
proof -
  obtain ane p1 l1 where r: "ane_platform_probe (ref_papi 2) (Some sample_hw) (fresh_platform []) [] = Some (0, ane, p1, l1)"
    and d: "rp_domains p1 = [2, 1]"
    using fresh_probe by blast
  obtain p3 where "ane_platform_remove (ref_papi 2) ane p1 = Some p3"
    and "plat_view p3 = left_behind (plat_view (fresh_platform [])) ane True True"
    using ane_platform_remove_undoes_probe [OF ref_plat.platform_axioms fresh_unprobed enable_ok_h13 ref_domain_sized r]
    by auto
  with r d show ?thesis by (auto simp: left_behind_def plat_view_def fresh_platform_def)
qed

text \<open>\<open>drm_mm_init\<close> takes a size, and is given \<open>max_iova\<close>, the intended last address: the range
  ends a page above the \<open>vm_size\<close> behind which, as the comment says, DMA does not work.\<close>

lemma mm_range_exceeds_vm_size:
  "let hw = ane_hw_h13 dev poll in
     max_iova hw 14 = hw_vm_size hw \<and> hw_vm_base hw + max_iova hw 14 = hw_vm_size hw + 0x4000"
  by (simp add: max_iova_def ane_hw_h13_def)

section \<open>Power references\<close>

text \<open>C37: What \<open>ane_drm_open\<close>, \<open>ane_drm_postclose\<close> and \<open>ane_drm_unlocked_ioctl\<close> do to the usage
  counter of the device. When resuming works, an ioctl runs with one reference more, and each of
  the three leaves the counter as it was. When it fails, \<open>pm_runtime_resume_and_get\<close> has already
  dropped the reference: the \<open>pm_runtime_put_autosuspend\<close> of the error path takes one that
  belongs to somebody else, and after \<open>EACCES\<close> the ioctl runs without a reference.\<close>
theorem power_references:
  assumes "platform P view" and "p_resume_and_get P p = (err, p1)"
    and "\<And>q. pv_usage (view (snd (drm_ioctl q))) = pv_usage (view q)"
  shows "(\<exists>p2. ane_drm_unlocked_ioctl P drm_ioctl p =
        (if err = 0 \<or> err = - EACCES then fst (drm_ioctl p1) else err, p2) \<and>
      pv_usage (view p1) = pv_usage (view p) + (if err < 0 then 0 else 1) \<and>
      pv_usage (view p2) = pv_usage (view p) - (if err < 0 then 1 else 0)) \<and>
    (\<exists>p2. ane_drm_open P p = (err, p2) \<and>
      pv_usage (view p2) = pv_usage (view p) - (if err < 0 then 1 else 0)) \<and>
    pv_usage (view (ane_drm_postclose P p)) = pv_usage (view p) - (if err < 0 then 1 else 0)"
  using platform.ane_drm_unlocked_ioctl_ok [OF assms] platform.ane_drm_open_ok [OF assms(1), of p]
    platform.ane_drm_postclose_ok [OF assms(1), of p] assms(2)
  by auto

text \<open>Resuming fails while another user holds the only reference.\<close>

theorem power_references_witness:
  "\<exists>p2. ane_drm_unlocked_ioctl (ref_papi 2) (\<lambda>q. (7, q)) (fresh_platform [True]\<lparr>rp_usage := 1\<rparr>) = (- EINVAL, p2) \<and>
     rp_usage p2 = 0"
proof -
  let ?p = "fresh_platform [True]\<lparr>rp_usage := 1\<rparr>"
  have "p_resume_and_get (ref_papi 2) ?p = (- EINVAL, ?p\<lparr>rp_script := []\<rparr>)"
    by (simp add: ref_papi_def rp_try_def rp_fails_def fresh_platform_def)
  from power_references [OF ref_plat.platform_axioms this, of "\<lambda>q. (7, q)"]
  show ?thesis by (auto simp: plat_view_fields)
qed

section \<open>Mapping an object\<close>

lemma fault_at_page:
  assumes ok: "bo_ok lo hi shift v bo" and "k_page_shift K = shift" and i: "i < unat (bo_npages bo)"
  shows "ane_gem_vm_fault K bo 0 (of_nat i * push_bit shift 1) = Some (Inr (pages_of bo ! i))"
proof -
  have "unat (bo_npages bo) * 2 ^ shift < 2 ^ 32" using ok by (auto simp: bo_ok_def)
  moreover have "i * 2 ^ shift \<le> unat (bo_npages bo) * 2 ^ shift"
    by (rule mult_le_mono1) (use i in simp)
  ultimately have "i * 2 ^ shift < 2 ^ 32" by (rule le_less_trans [rotated])
  then have small: "i * 2 ^ shift < 2 ^ 64" by (rule less_le_trans) simp
  have "of_nat i * push_bit shift 1 = (of_nat (i * 2 ^ shift) :: u64)" by (simp add: push_bit_eq_mult)
  with small have "unat (of_nat i * push_bit shift 1 :: u64) = i * 2 ^ shift"
    by (simp add: unat_of_nat del: of_nat_mult of_nat_power)
  then show ?thesis using i by (intro fault_page [OF ok assms(2)]) simp_all
qed

text \<open>C36: A process that maps a buffer object sees the pages the engine has mapped: page by page
  from the start of the object, whatever fake offset the mapping was asked with, and the same
  pages a fault would insert. A mapping of no page, or of more than the object has, is refused
  with ENXIO and changes nothing.\<close>
theorem ane_drm_mmap_correct:
  assumes "user_map M pte shift" and "bos_inv lo hi shift bos v" and "k_page_shift K = shift"
    and "m_gem_mmap M vma m = (e0, vma1, m1)" and "0 \<le> e0"
    and "vma_private vma1 = Some b" and "bos b = Some bo"
  shows "\<exists>e vma2 m2. ane_drm_mmap M bos vma m = Some (e, vma2, m2) \<and>
    (if vma_pages vma = 0 \<or> unat (bo_npages bo) < vma_pages vma then e = - ENXIO \<and> pte m2 = pte m
     else e < 0 \<or> e = 0 \<and> (\<forall>i<vma_pages vma. \<exists>pa.
       pte m2 (page_addr shift (vma_start vma) i) = Some pa \<and>
       v_maps v (page_iova shift (bo_iova bo) i) = Some pa \<and>
       ane_gem_vm_fault K bo 0 (of_nat i * push_bit shift 1) = Some (Inr pa)))"
proof -
  note seen = mapped_page [OF assms(2,7)] fault_at_page [OF inv_bo [OF assms(2,7)] assms(3)]
  show ?thesis
  proof (cases "vma_pages vma = 0 \<or> unat (bo_npages bo) < vma_pages vma")
    case True
    with user_map.ane_drm_mmap_ok [OF assms(1,2,4-7)] show ?thesis by auto
  next
    case False
    with user_map.ane_drm_mmap_ok [OF assms(1,2,4-7)] obtain e vma2 m2
      where "ane_drm_mmap M bos vma m = Some (e, vma2, m2)" and "e < 0 \<or> e = 0 \<and>
        (\<forall>i<vma_pages vma. pte m2 (page_addr shift (vma_start vma) i) = Some (pages_of bo ! i))"
      by auto
    with False seen show ?thesis by auto
  qed
qed

text \<open>An object of one page, asked for with a fake offset.\<close>

definition one_page_vma :: vma where
  "one_page_vma = \<lparr>vma_start = 0x7f0000000000, vma_pages = 1, vma_pgoff = 0x10000, vma_private = None,
     vma_flags = 0, vma_prot = 0\<rparr>"

lemma one_page_mmap:
  "\<exists>vma2 m2. ane_drm_mmap (ref_mapi 14 (Some 3)) (d_bos sample_drv) one_page_vma (\<lambda>_. None) = Some (0, vma2, m2)"
  by (simp add: ane_drm_mmap_def ref_mapi_def one_page_vma_def sample_drv_def ref_map_pages_def Let_def)

theorem ane_drm_mmap_correct_witness:
  "\<exists>vma2 m2. ane_drm_mmap (ref_mapi 14 (Some 3)) (d_bos sample_drv) one_page_vma (\<lambda>_. None) = Some (0, vma2, m2) \<and>
     m2 0x7f0000000000 = v_maps (ref_view sample_kernel) 0x8000 \<and> m2 0x7f0000000000 \<noteq> None"
proof -
  let ?bo = "sample_bo 4 0x8000 0x800004000"
  obtain vma2 m2 where r: "ane_drm_mmap (ref_mapi 14 (Some 3)) (d_bos sample_drv) one_page_vma (\<lambda>_. None) = Some (0, vma2, m2)"
    using one_page_mmap by blast
  have "m_gem_mmap (ref_mapi 14 (Some 3)) one_page_vma (\<lambda>_. None) =
      (0, one_page_vma\<lparr>vma_private := Some 3\<rparr>, \<lambda>_. None)"
    by (simp add: ref_mapi_def)
  from ane_drm_mmap_correct [OF ref_map.user_map_axioms sample_bos_inv _ this, of sample_api 3 ?bo] r
  have "\<exists>pa. m2 (page_addr 14 0x7f0000000000 0) = Some pa \<and>
      v_maps (ref_view sample_kernel) (page_iova 14 0x8000 0) = Some pa"
    by (auto simp: one_page_vma_def sample_drv_def ref_kapi_def dest: spec [of _ 0])
  then have "\<exists>pa. m2 0x7f0000000000 = Some pa \<and> v_maps (ref_view sample_kernel) 0x8000 = Some pa"
    by (simp add: page_addr_def page_iova_def)
  with r show ?thesis by auto
qed

end
