(* ===== verification/Drv_Conc.thy ===== *)
theory Drv_Conc
  imports Drv_Step
begin

text \<open>
  The ioctls of \<open>src/driver/src/ane_drv.c\<close> when several of them run at once. A call is a thread
  that advances from one kernel service to the next; what the source does between taking and
  releasing a mutex is one step, since the mutex keeps every other thread off that data, and
  releasing it is another, so that the others can be seen waiting. A thread reads the object a
  handle named only after the step that looked it up, when another may have freed it.

  A step is \<open>Blocked\<close> while the mutex it needs is taken, and \<open>Undefined\<close> when it touches an
  object that is gone, frees a block twice or releases a mutex nobody holds. Alone, a thread does
  what the functions of \<open>Drv_Gem\<close> and \<open>Drv_Submit\<close> do.
\<close>

section \<open>Threads\<close>

text \<open>Where \<open>ane_bo_init\<close> is, in the order of its calls. The steps from \<open>I_Map\<close> to \<open>I_Node_Free\<close>
  are those of \<open>ane_iommu_map_pages\<close>, with the node it allocated.\<close>

datatype init_at =
  I_Gem | I_Offset | I_Pages | I_Map | I_Insert nat | I_Unlock nat int | I_Node_Free nat int
| I_Handle | I_Put int

text \<open>The labels of \<open>ane_bo_init\<close> and the same calls in \<open>ane_bo_free\<close>; the steps from \<open>U_Unmap\<close> to
  \<open>U_Flushed\<close> are those of \<open>ane_iommu_unmap_pages\<close>.\<close>

datatype unwind_at =
  U_Unmap | U_Unmapped nat | U_Node_Free nat | U_Flush | U_Flushed | U_Pages | U_Release | U_Free

datatype submit_at =
  S_Bar nat "u64 list" | S_Bar_Use nat "u64 list" nat | S_Btsp "u64 list" | S_Btsp_Use "u64 list" nat
| S_Enqueue ane_request | S_Execute ane_request | S_Unlock int

datatype thread =
  Returned ane_reply
| Begun ane_call
| Initing init_at nat bo_init_args
| Freeing u32 nat
| Unwinding unwind_at nat ane_reply
| Submitting submit_at submit_args
| Suspending

datatype 'k outcome = Blocked | Undefined | Goes thread "'k drv" "access list"

section \<open>Steps\<close>

text \<open>Reading or writing an object, which must be there.\<close>

definition with_bo :: "'k drv \<Rightarrow> nat \<Rightarrow> (ane_bo \<Rightarrow> 'k outcome) \<Rightarrow> 'k outcome" where
  "with_bo s b f = (case d_bos s b of None \<Rightarrow> Undefined | Some bo \<Rightarrow> f bo)"

definition goes :: "thread \<Rightarrow> access list \<Rightarrow> 'k drv option \<Rightarrow> 'k outcome" where
  "goes t l r = (case r of None \<Rightarrow> Undefined | Some s \<Rightarrow> Goes t s l)"

definition after_lock :: "bool \<Rightarrow> 'k outcome \<Rightarrow> 'k outcome" where
  "after_lock locked r = (if locked then Blocked else r)"

text \<open>The part of \<open>ane_iommu_map_pages\<close> between taking and releasing the mutex.\<close>

definition insert_section :: "'k kapi \<Rightarrow> nat \<Rightarrow> nat \<Rightarrow> ane_bo \<Rightarrow> nat \<Rightarrow> 'k drv \<Rightarrow> (int \<times> 'k drv) option" where
  "insert_section K shift b bo node s =
     (if 32 \<le> shift then None
      else let ((err, start), k1) = k_mm_insert K node (ucast (bo_bytes shift (bo_npages bo)))
                                      (page_bytes shift) (d_kern s)
        in if err < 0 then Some (err, put_kern k1 s)
           else let s1 = put_bo b (bo\<lparr>bo_iova := start\<rparr>) (put_kern k1 s)
             in Option.bind (map_loop K shift start (pages_of bo) 0 (unat (bo_npages bo)) (d_kern s1))
                  (\<lambda>(err, k2).
                    if err < 0 then Some (err, put_kern (k_mm_remove K node k2) s1)
                    else Some (0, put_kern k2 s1)))"

text \<open>\<open>iommu_unmap\<close> of every page and \<open>drm_mm_remove_node\<close>.\<close>

definition unmap_section :: "'k kapi \<Rightarrow> nat \<Rightarrow> ane_bo \<Rightarrow> nat \<Rightarrow> 'k drv \<Rightarrow> 'k drv" where
  "unmap_section K shift bo node s =
     put_kern (k_mm_remove K node (unmap_up K shift (bo_iova bo) 0 (unat (bo_npages bo)) (d_kern s))) s"

fun init_step :: "'k kapi \<Rightarrow> nat \<Rightarrow> init_at \<Rightarrow> nat \<Rightarrow> bo_init_args \<Rightarrow> 'k drv \<Rightarrow> access list \<Rightarrow> 'k outcome" where
  "init_step K shift I_Gem b args s l = with_bo s b (\<lambda>bo.
     let (err, k1) = k_gem_init K b (round_up (i_size args) (page_size K)) (d_kern s)
     in Goes (if err < 0 then Unwinding U_Free b (Result err) else Initing I_Offset b args)
          (put_kern k1 s) l)"
| "init_step K shift I_Offset b args s l = with_bo s b (\<lambda>bo.
     let ((err, offset), k1) = k_mmap_offset K b (d_kern s)
     in Goes (if err < 0 then Unwinding U_Release b (Result err)
              else Initing I_Pages b (args\<lparr>i_offset := offset\<rparr>)) (put_kern k1 s) l)"
| "init_step K shift I_Pages b args s l = with_bo s b (\<lambda>bo.
     case k_get_pages K b (d_kern s) of
       (Inl err, k1) \<Rightarrow> Goes (Unwinding U_Release b (init_reply err args)) (put_kern k1 s) l
     | (Inr pages, k1) \<Rightarrow> Goes (Initing I_Map b args)
         (put_bo b (bo\<lparr>bo_npages := ucast (drop_bit (k_page_shift K) (round_up (i_size args) (page_size K))),
            bo_pages := Some pages\<rparr>) (put_kern k1 s)) l)"
| "init_step K shift I_Map b args s l = with_bo s b (\<lambda>bo.
     if bo_mm bo \<noteq> None then Goes (Unwinding U_Pages b (Result (- EBUSY))) s l
     else case k_kzalloc K (d_kern s) of
         (None, k1) \<Rightarrow> Goes (Unwinding U_Pages b (Result (- ENOMEM))) (put_kern k1 s) l
       | (Some node, k1) \<Rightarrow> Goes (Initing (I_Insert node) b args)
           (put_bo b (bo\<lparr>bo_mm := Some node\<rparr>) (put_kern k1 s)) l)"
| "init_step K shift (I_Insert node) b args s l = with_bo s b (\<lambda>bo.
     after_lock (d_iommu_lock s)
       (case insert_section K shift b bo node (s\<lparr>d_iommu_lock := True\<rparr>) of
          None \<Rightarrow> Undefined
        | Some (err, s1) \<Rightarrow> Goes (Initing (I_Unlock node err) b args) s1 l))"
| "init_step K shift (I_Unlock node err) b args s l =
     goes (Initing (if err < 0 then I_Node_Free node err else I_Handle) b args) l (unlock_iommu s)"
| "init_step K shift (I_Node_Free node err) b args s l =
     goes (Unwinding U_Pages b (Result err)) l (drv_kfree K node s)"
| "init_step K shift I_Handle b args s l = with_bo s b (\<lambda>bo.
     let ((err, h), k1) = k_handle_create K b (d_kern s)
     in Goes (Initing (I_Put err) b (if err < 0 then args else args\<lparr>i_handle := h\<rparr>)) (put_kern k1 s) l)"
| "init_step K shift (I_Put err) b args s l = with_bo s b (\<lambda>bo.
     Goes (if err < 0 then Unwinding U_Unmap b (Result err) else Returned (New_Bo args))
       (put_kern (k_gem_put K b (d_kern s)) s) l)"

fun unwind_step :: "'k kapi \<Rightarrow> nat \<Rightarrow> unwind_at \<Rightarrow> nat \<Rightarrow> ane_reply \<Rightarrow> 'k drv \<Rightarrow> access list \<Rightarrow> 'k outcome" where
  "unwind_step K shift U_Unmap b r s l = with_bo s b (\<lambda>bo.
     case bo_mm bo of
       None \<Rightarrow> Goes (Unwinding U_Pages b r) s l
     | Some node \<Rightarrow> after_lock (d_iommu_lock s)
         (if 32 \<le> shift \<and> bo_npages bo \<noteq> 0 then Undefined
          else Goes (Unwinding (U_Unmapped node) b r)
                 (unmap_section K shift bo node (s\<lparr>d_iommu_lock := True\<rparr>)) l))"
| "unwind_step K shift (U_Unmapped node) b r s l = goes (Unwinding (U_Node_Free node) b r) l (unlock_iommu s)"
| "unwind_step K shift (U_Node_Free node) b r s l = goes (Unwinding U_Flush b r) l (drv_kfree K node s)"
| "unwind_step K shift U_Flush b r s l = after_lock (d_iommu_lock s)
     (Goes (Unwinding U_Flushed b r)
        (put_kern (k_flush_iotlb K (d_kern s)) (s\<lparr>d_iommu_lock := True\<rparr>)) l)"
| "unwind_step K shift U_Flushed b r s l = goes (Unwinding U_Pages b r) l (unlock_iommu s)"
| "unwind_step K shift U_Pages b r s l = with_bo s b (\<lambda>bo.
     Goes (Unwinding U_Release b r) (put_kern (k_put_pages K b (d_kern s)) s) l)"
| "unwind_step K shift U_Release b r s l = with_bo s b (\<lambda>bo.
     Goes (Unwinding U_Free b r) (put_kern (k_gem_release K b (d_kern s)) s) l)"
| "unwind_step K shift U_Free b r s l = goes (Returned r) l (free_bo K b s)"

text \<open>\<open>drm_gem_handle_delete\<close>; a handle that is gone by now is no error the caller looks at.\<close>

definition delete_step :: "'k kapi \<Rightarrow> u32 \<Rightarrow> nat \<Rightarrow> 'k drv \<Rightarrow> access list \<Rightarrow> 'k outcome" where
  "delete_step K handle b s l =
     Goes (Unwinding U_Unmap b (Result 0)) (put_kern (k_handle_delete K handle (d_kern s)) s) l"

fun submit_step :: "'k kapi \<Rightarrow> ane_hw \<Rightarrow> nat \<Rightarrow> submit_at \<Rightarrow> submit_args \<Rightarrow> 'k drv \<Rightarrow> access list \<Rightarrow> 'k outcome" where
  "submit_step K hw shift (S_Bar bdx bars) args s l =
     (if bdx = unat (hw_bar_count hw)
      then Goes (Submitting (S_Btsp (bars[KRN_BUF_BDX :=
             bars ! CMD_BUF_BDX + round_up (s_tsk_size args) ANE_CMD_GRAN])) args) s l
      else if \<not> (bdx < length (s_handles args) \<and> bdx < length bars) then Undefined
      else if s_handles args ! bdx = 0 then Goes (Submitting (S_Bar (Suc bdx) bars) args) s l
      else case k_lookup K (s_handles args ! bdx) (d_kern s) of
          (None, k1) \<Rightarrow> Goes (Returned (Result (- EINVAL))) (put_kern k1 s) l
        | (Some b, k1) \<Rightarrow> Goes (Submitting (S_Bar_Use bdx bars b) args) (put_kern k1 s) l)"
| "submit_step K hw shift (S_Bar_Use bdx bars b) args s l = with_bo s b (\<lambda>bo.
     if bo_iova bo = 0 then Goes (Returned (Result (- EINVAL))) s l
     else if bdx = CMD_BUF_BDX \<and> 32 \<le> shift then Undefined
     else if bdx = CMD_BUF_BDX \<and> ucast (bo_bytes shift (bo_npages bo)) \<le> s_tsk_size args
     then Goes (Returned (Result (- EINVAL))) s l
     else if iova_too_high hw (bo_iova bo) then Goes (Returned (Result (- EINVAL))) s l
     else Goes (Submitting (S_Bar (Suc bdx) (bars[bdx := bo_iova bo])) args) s l)"
| "submit_step K hw shift (S_Btsp bars) args s l =
     (case k_lookup K (s_btsp_handle args) (d_kern s) of
        (None, k1) \<Rightarrow> Goes (Returned (Result (- EINVAL))) (put_kern k1 s) l
      | (Some b, k1) \<Rightarrow> Goes (Submitting (S_Btsp_Use bars b) args) (put_kern k1 s) l)"
| "submit_step K hw shift (S_Btsp_Use bars b) args s l = with_bo s b (\<lambda>bo.
     if iova_too_high hw (bo_iova bo) then Goes (Returned (Result (- EINVAL))) s l
     else Goes (Submitting (S_Enqueue
       \<lparr>rq_qid = 4, rq_nid = ANE_FIFO_NID, rq_td_size = s_td_size args, rq_td_count = s_td_count args,
        rq_btsp_iova = bo_iova bo, rq_bar = bars\<rparr>) args) s l)"
| "submit_step K hw shift (S_Enqueue req) args s l = after_lock (d_engine_lock s)
     (case hw_tm_enqueue hw req l of
        None \<Rightarrow> Undefined
      | Some (err, l1) \<Rightarrow> Goes (Submitting (if err < 0 then S_Unlock err else S_Execute req) args)
          (s\<lparr>d_engine_lock := True\<rparr>) l1)"
| "submit_step K hw shift (S_Execute req) args s l =
     (case hw_tm_execute hw req l of
        None \<Rightarrow> Undefined | Some (err, l1) \<Rightarrow> Goes (Submitting (S_Unlock err) args) s l1)"
| "submit_step K hw shift (S_Unlock err) args s l = goes (Returned (Result err)) l (unlock_engine s)"

text \<open>The first step of each ioctl, and of the power callbacks.\<close>

definition begin_init :: "'k kapi \<Rightarrow> bo_init_args \<Rightarrow> 'k drv \<Rightarrow> access list \<Rightarrow> 'k outcome" where
  [simp]: "begin_init K args s l =
     (if i_pad args \<noteq> 0 then Goes (Returned (Result (- EINVAL))) s l
      else case k_kzalloc K (d_kern s) of
        (None, k1) \<Rightarrow> Goes (Returned (Result (- ENOMEM))) (put_kern k1 s) l
      | (Some b, k1) \<Rightarrow> Goes (Initing I_Gem b args) (put_bo b new_bo (put_kern k1 s)) l)"

definition begin_free :: "'k kapi \<Rightarrow> u32 \<Rightarrow> u32 \<Rightarrow> 'k drv \<Rightarrow> access list \<Rightarrow> 'k outcome" where
  [simp]: "begin_free K handle pad s l =
     (case k_lookup K handle (d_kern s) of
        (None, k1) \<Rightarrow> Goes (Returned (Result (- EINVAL))) (put_kern k1 s) l
      | (Some b, k1) \<Rightarrow> Goes (if pad \<noteq> 0 then Returned (Result (- EINVAL)) else Freeing handle b)
          (put_kern k1 s) l)"

definition begin_submit :: "submit_args \<Rightarrow> 'k drv \<Rightarrow> access list \<Rightarrow> 'k outcome" where
  [simp]: "begin_submit args s l =
     Goes (if submit_refused args then Returned (Result (- EINVAL))
           else Submitting (S_Bar 0 (replicate ANE_MAX_TILE_COUNT 0)) args) s l"

definition begin_suspend :: "'k kapi \<Rightarrow> 'k drv \<Rightarrow> access list \<Rightarrow> 'k outcome" where
  [simp]: "begin_suspend K s l = after_lock (d_iommu_lock s)
     (Goes Suspending (put_kern (k_flush_iotlb K (d_kern s)) (s\<lparr>d_iommu_lock := True\<rparr>)) l)"

fun begin_step :: "'k kapi \<Rightarrow> ane_hw \<Rightarrow> ane_call \<Rightarrow> 'k drv \<Rightarrow> access list \<Rightarrow> 'k outcome" where
  "begin_step K hw Info s l = Goes (Returned (Device_Id (ane_info hw))) s l"
| "begin_step K hw (Bo_Init args) s l = begin_init K args s l"
| "begin_step K hw (Bo_Free handle pad) s l = begin_free K handle pad s l"
| "begin_step K hw (Submit args) s l = begin_submit args s l"
| "begin_step K hw Suspend s l = begin_suspend K s l"
| "begin_step K hw Resume s l =
     (case hw_tm_enable hw l of None \<Rightarrow> Undefined | Some l1 \<Rightarrow> Goes (Returned (Result 0)) s l1)"

text \<open>A thread that has returned waits for its next call.\<close>

fun thread_step :: "'k kapi \<Rightarrow> ane_hw \<Rightarrow> nat \<Rightarrow> thread \<Rightarrow> 'k drv \<Rightarrow> access list \<Rightarrow> 'k outcome" where
  "thread_step K hw shift (Returned r) s l = Blocked"
| "thread_step K hw shift (Begun c) s l = begin_step K hw c s l"
| "thread_step K hw shift (Initing p b args) s l = init_step K shift p b args s l"
| "thread_step K hw shift (Freeing handle b) s l = delete_step K handle b s l"
| "thread_step K hw shift (Unwinding p b r) s l = unwind_step K shift p b r s l"
| "thread_step K hw shift (Submitting p args) s l = submit_step K hw shift p args s l"
| "thread_step K hw shift Suspending s l = goes (Returned (Result 0)) l (unlock_iommu s)"

section \<open>Interleaving\<close>

type_synonym 'k conc = "thread list \<times> 'k drv \<times> access list"

text \<open>Any thread makes a step, or a thread that has returned makes a call.\<close>

inductive conc_step :: "'k kapi \<Rightarrow> ane_hw \<Rightarrow> nat \<Rightarrow> 'k conc \<Rightarrow> nat \<Rightarrow> 'k conc \<Rightarrow> bool"
  for K hw shift where
  conc_thread: "i < length ts \<Longrightarrow> thread_step K hw shift (ts ! i) s l = Goes t s1 l1 \<Longrightarrow>
    conc_step K hw shift (ts, s, l) i (ts[i := t], s1, l1)"
| conc_call: "i < length ts \<Longrightarrow> ts ! i = Returned r \<Longrightarrow> call_ok K c \<Longrightarrow>
    conc_step K hw shift (ts, s, l) i (ts[i := Begun c], s, l)"

inductive_cases conc_stepE: "conc_step K hw shift (ts, s, l) i c"

text \<open>The handles a call was given or is about to return.\<close>

fun uses :: "thread \<Rightarrow> u32 set" where
  "uses (Initing (I_Put err) b args) = (if err < 0 then {} else {i_handle args})"
| "uses (Freeing handle b) = {handle}"
| "uses (Submitting p args) = insert (s_btsp_handle args) (set (s_handles args))"
| "uses t = {}"

text \<open>The discipline of a client: the handle that is deleted is used by no other call.\<close>

definition calm :: "thread list \<Rightarrow> nat \<Rightarrow> bool" where
  "calm ts i \<longleftrightarrow> (case ts ! i of
     Freeing handle b \<Rightarrow> (\<forall>j < length ts. j \<noteq> i \<longrightarrow> handle \<notin> uses (ts ! j))
   | _ \<Rightarrow> True)"

inductive calm_run :: "'k kapi \<Rightarrow> ane_hw \<Rightarrow> nat \<Rightarrow> 'k conc \<Rightarrow> 'k conc \<Rightarrow> bool" for K hw shift c0 where
  calm_none: "calm_run K hw shift c0 c0"
| calm_more: "calm_run K hw shift c0 (ts, s, l) \<Longrightarrow> calm ts i \<Longrightarrow> conc_step K hw shift (ts, s, l) i c \<Longrightarrow>
    calm_run K hw shift c0 c"

text \<open>A schedule: which thread makes the next step.\<close>

fun schedule :: "'k kapi \<Rightarrow> ane_hw \<Rightarrow> nat \<Rightarrow> nat list \<Rightarrow> 'k conc \<Rightarrow> 'k conc option" where
  "schedule K hw shift [] c = Some c"
| "schedule K hw shift (i # is) (ts, s, l) =
     (if i < length ts
      then case thread_step K hw shift (ts ! i) s l of
          Goes t s1 l1 \<Rightarrow> schedule K hw shift is (ts[i := t], s1, l1)
        | _ \<Rightarrow> None
      else None)"

text \<open>A thread on its own, for at most \<open>n\<close> steps.\<close>

fun alone :: "'k kapi \<Rightarrow> ane_hw \<Rightarrow> nat \<Rightarrow> nat \<Rightarrow> thread \<Rightarrow> 'k drv \<Rightarrow> access list \<Rightarrow> (ane_reply \<times> 'k system) option" where
  "alone K hw shift n (Returned r) s l = Some (r, s, l)"
| "alone K hw shift 0 t s l = None"
| "alone K hw shift (Suc n) t s l =
     (case thread_step K hw shift t s l of Goes t1 s1 l1 \<Rightarrow> alone K hw shift n t1 s1 l1 | _ \<Rightarrow> None)"

end
