(* ===== verification/Drv_Level.thy ===== *)
theory Drv_Level
  imports Drv_Conc
begin

text \<open>
  Buffer objects under construction. While calls are interleaved an object may be half built or
  half torn down; its level says what it holds: its block (0), the GEM object (1), the pages (2),
  the node (3), the range and the mappings (4). The objects of level 4 satisfy the invariant of
  \<open>Drv_Gem\<close> among themselves, and every change of a level keeps that.
\<close>

section \<open>Levels\<close>

definition full_bos :: "(nat \<Rightarrow> nat) \<Rightarrow> (nat \<rightharpoonup> ane_bo) \<Rightarrow> (nat \<rightharpoonup> ane_bo)" where
  "full_bos lv bos = bos |` {b. 4 \<le> lv b}"

text \<open>The kernel as the objects \<open>full\<close> would leave it, were there no others.\<close>

definition full_view :: "(nat \<rightharpoonup> ane_bo) \<Rightarrow> kview \<Rightarrow> kview" where
  "full_view full v = v\<lparr>v_blocks := dom full \<union> {n. \<exists>b bo. full b = Some bo \<and> bo_mm bo = Some n},
     v_gems := (\<lambda>b. if b \<in> dom full then Some 0 else None), v_pinned := dom full\<rparr>"

definition sized :: "nat \<Rightarrow> ane_bo \<Rightarrow> bool" where
  "sized shift bo \<longleftrightarrow> unat (bo_npages bo) * 2 ^ shift < 2 ^ 32 \<and> unat (bo_npages bo) \<le> length (pages_of bo)"

definition level_inv :: "u64 \<Rightarrow> u64 \<Rightarrow> nat \<Rightarrow> (nat \<Rightarrow> nat) \<Rightarrow> (nat \<rightharpoonup> ane_bo) \<Rightarrow> kview \<Rightarrow> bool" where
  "level_inv lo hi shift lv bos v \<longleftrightarrow>
     bos_inv lo hi shift (full_bos lv bos) (full_view (full_bos lv bos) v) \<and>
     dom bos \<subseteq> v_blocks v \<and>
     dom (v_gems v) = {b \<in> dom bos. 1 \<le> lv b} \<and> v_pinned v = {b \<in> dom bos. 2 \<le> lv b} \<and>
     (\<forall>b bo. bos b = Some bo \<longrightarrow> 2 \<le> lv b \<longrightarrow> sized shift bo) \<and>
     (\<forall>b bo. bos b = Some bo \<longrightarrow> 3 \<le> lv b \<longrightarrow>
        (\<exists>n. bo_mm bo = Some n \<and> n \<in> v_blocks v \<and> n \<notin> dom bos)) \<and>
     (\<forall>b bo b' bo'. bos b = Some bo \<longrightarrow> bos b' = Some bo' \<longrightarrow> 3 \<le> lv b \<longrightarrow> 3 \<le> lv b' \<longrightarrow>
        bo_mm bo = bo_mm bo' \<longrightarrow> b = b')"

lemma level_invD:
  assumes "level_inv lo hi shift lv bos v"
  shows "bos_inv lo hi shift (full_bos lv bos) (full_view (full_bos lv bos) v)"
    and "dom bos \<subseteq> v_blocks v" and "dom (v_gems v) = {b \<in> dom bos. 1 \<le> lv b}"
    and "v_pinned v = {b \<in> dom bos. 2 \<le> lv b}"
    and "bos b = Some bo \<Longrightarrow> 2 \<le> lv b \<Longrightarrow> sized shift bo"
    and "bos b = Some bo \<Longrightarrow> 3 \<le> lv b \<Longrightarrow> \<exists>n. bo_mm bo = Some n \<and> n \<in> v_blocks v \<and> n \<notin> dom bos"
    and "bos b = Some bo \<Longrightarrow> bos b' = Some bo' \<Longrightarrow> 3 \<le> lv b \<Longrightarrow> 3 \<le> lv b' \<Longrightarrow>
      bo_mm bo = bo_mm bo' \<Longrightarrow> b = b'"
  using assms unfolding level_inv_def by blast+

lemma full_bos_eq: "full_bos lv bos b = (if 4 \<le> lv b then bos b else None)"
  by (simp add: full_bos_def restrict_map_def)

lemma full_bos_low [simp]:
  assumes "bos b = None \<or> lv b < 4" and "x = None \<or> l < 4"
  shows "full_bos (lv(b := l)) (bos(b := x)) = full_bos lv bos"
  using assms by (auto simp: full_bos_eq fun_eq_iff)

lemma full_bos_lv [simp]: "bos b = None \<or> lv b < 4 \<Longrightarrow> l < 4 \<Longrightarrow> full_bos (lv(b := l)) bos = full_bos lv bos"
  by (auto simp: full_bos_eq fun_eq_iff)

text \<open>Only ranges, mappings and handles matter to the full objects.\<close>

lemma full_inv_cong:
  assumes "v_nodes v' = v_nodes v" and "v_maps v' = v_maps v" and "v_handles v' = v_handles v"
  shows "bos_inv lo hi shift full (full_view full v') = bos_inv lo hi shift full (full_view full v)"
  by (rule bos_inv_same_resources) (simp add: same_resources_fields full_view_def assms)

lemma level_reserved:
  assumes "level_inv lo hi shift lv bos v"
  shows "maps_reserved v" and "v_nodes v n \<noteq> None \<Longrightarrow> \<exists>b bo. bos b = Some bo \<and> 4 \<le> lv b \<and> bo_mm bo = Some n"
proof -
  note inv = level_invD(1) [OF assms]
  show "maps_reserved v" using bos_inv_reserved(1) [OF inv] by (simp add: maps_reserved_def full_view_def)
  assume "v_nodes v n \<noteq> None"
  then have "n \<in> dom (v_nodes (full_view (full_bos lv bos) v))" by (simp add: full_view_def domIff)
  then obtain b bo where "full_bos lv bos b = Some bo" "bo_mm bo = Some n" using inv_nodes [OF inv] by blast
  then show "\<exists>b bo. bos b = Some bo \<and> 4 \<le> lv b \<and> bo_mm bo = Some n"
    by (auto simp: full_bos_eq split: if_splits)
qed

text \<open>The object a handle names is complete.\<close>

lemma level_named:
  assumes "level_inv lo hi shift lv bos v" and "v_handles v h = Some b"
  shows "4 \<le> lv b" and "b \<in> dom bos"
    and "bos b = Some bo \<Longrightarrow> bo_ok lo hi shift (full_view (full_bos lv bos) v) bo"
    and "v_handles v h' = Some b \<Longrightarrow> h' = h"
proof -
  note inv = level_invD(1) [OF assms(1)]
  have h: "v_handles (full_view (full_bos lv bos) v) h = Some b" using assms(2) by (simp add: full_view_def)
  have "b \<in> dom (full_bos lv bos)" using inv_handles [OF inv h] .
  then show lv: "4 \<le> lv b" and "b \<in> dom bos" by (auto simp: full_bos_eq split: if_splits)
  show "bo_ok lo hi shift (full_view (full_bos lv bos) v) bo" if "bos b = Some bo"
    by (rule inv_bo [OF inv, of b]) (use that lv in \<open>simp add: full_bos_eq\<close>)
  show "v_handles v h' = Some b \<Longrightarrow> h' = h"
    using inv_one_handle [OF inv h] by (simp add: full_view_def)
qed

section \<open>Changing a level\<close>

lemma level_same:
  assumes "level_inv lo hi shift lv bos v" and "same_resources v v'"
  shows "level_inv lo hi shift lv bos v'"
  using assms(1) full_inv_cong [of v' v lo hi shift "full_bos lv bos"] assms(2)
  unfolding same_resources_fields level_inv_def by simp

text \<open>An object that is not complete changes, and is not complete afterwards.\<close>

lemma level_low:
  assumes inv: "level_inv lo hi shift lv bos v" and b: "bos b = None \<or> lv b < 4" and l: "l < 4"
    and keep: "v_nodes v' = v_nodes v" "v_maps v' = v_maps v" "v_handles v' = v_handles v"
    and v': "dom bos' \<subseteq> v_blocks v'" "dom (v_gems v') = {c \<in> dom bos'. 1 \<le> (lv(b := l)) c}"
      "v_pinned v' = {c \<in> dom bos'. 2 \<le> (lv(b := l)) c}"
    and bos': "bos' = bos(b := x)"
    and sz: "\<And>bo. x = Some bo \<Longrightarrow> 2 \<le> l \<Longrightarrow> sized shift bo"
    and mm: "\<And>bo. x = Some bo \<Longrightarrow> 3 \<le> l \<Longrightarrow> \<exists>n. bo_mm bo = Some n \<and> n \<in> v_blocks v' \<and> n \<notin> dom bos' \<and>
      (\<forall>b' bo'. b' \<noteq> b \<longrightarrow> bos b' = Some bo' \<longrightarrow> 3 \<le> lv b' \<longrightarrow> bo_mm bo' \<noteq> Some n)"
    and others: "\<And>b' bo' n. b' \<noteq> b \<Longrightarrow> bos b' = Some bo' \<Longrightarrow> 3 \<le> lv b' \<Longrightarrow> bo_mm bo' = Some n \<Longrightarrow>
      n \<in> v_blocks v \<Longrightarrow> n \<notin> dom bos \<Longrightarrow> n \<in> v_blocks v' \<and> n \<noteq> b"
  shows "level_inv lo hi shift (lv(b := l)) bos' v'"
  unfolding level_inv_def
proof (intro conjI allI impI)
  have full: "full_bos (lv(b := l)) bos' = full_bos lv bos" using b l by (auto simp: bos')
  show "bos_inv lo hi shift (full_bos (lv(b := l)) bos') (full_view (full_bos (lv(b := l)) bos') v')"
    unfolding full using full_inv_cong [OF keep] level_invD(1) [OF inv] by simp
  show "dom bos' \<subseteq> v_blocks v'" by (rule v'(1))
  show "dom (v_gems v') = {b' \<in> dom bos'. 1 \<le> (lv(b := l)) b'}" by (rule v'(2))
  show "v_pinned v' = {b' \<in> dom bos'. 2 \<le> (lv(b := l)) b'}" by (rule v'(3))
  show "sized shift bo" if "bos' b' = Some bo" "2 \<le> (lv(b := l)) b'" for b' bo
    using that sz level_invD(5) [OF inv, of b' bo] by (auto simp: bos' split: if_splits)
  show "\<exists>n. bo_mm bo = Some n \<and> n \<in> v_blocks v' \<and> n \<notin> dom bos'"
    if "bos' b' = Some bo" "3 \<le> (lv(b := l)) b'" for b' bo
  proof (cases "b' = b")
    case True
    with that mm show ?thesis by (auto simp: bos')
  next
    case False
    with that have "bos b' = Some bo" "3 \<le> lv b'" by (simp_all add: bos')
    moreover from level_invD(6) [OF inv this] obtain n where
      "bo_mm bo = Some n" "n \<in> v_blocks v" "n \<notin> dom bos" by blast
    ultimately show ?thesis using others [OF False] by (auto simp: bos')
  qed
  show "b1 = b2" if "bos' b1 = Some bo1" "bos' b2 = Some bo2" "3 \<le> (lv(b := l)) b1" "3 \<le> (lv(b := l)) b2"
    "bo_mm bo1 = bo_mm bo2" for b1 bo1 b2 bo2
  proof -
    have new: "b' = b" if "x = Some bo" "3 \<le> l" "bos b' = Some bo'" "3 \<le> lv b'" "bo_mm bo = bo_mm bo'" for bo b' bo'
      using mm [OF that(1,2)] that by auto
    consider "b1 = b" "b2 = b" | "b1 = b" "b2 \<noteq> b" | "b1 \<noteq> b" "b2 = b" | "b1 \<noteq> b" "b2 \<noteq> b" by blast
    then show ?thesis
    proof cases
      case 2
      with that new [of bo1 b2 bo2] show ?thesis by (simp add: bos')
    next
      case 3
      with that new [of bo2 b1 bo1] show ?thesis by (simp add: bos')
    next
      case 4
      with that level_invD(7) [OF inv, of b1 bo1 b2 bo2] show ?thesis by (simp add: bos')
    qed simp
  qed
qed

text \<open>The changes in the order of their use.\<close>

lemma level_new:
  assumes inv: "level_inv lo hi shift lv bos v" and b: "b \<notin> v_blocks v"
  shows "level_inv lo hi shift (lv(b := 0)) (bos(b \<mapsto> new_bo)) (v\<lparr>v_blocks := insert b (v_blocks v)\<rparr>)"
proof (rule level_low [OF inv, where x = "Some new_bo"])
  have "b \<notin> dom bos" using level_invD(2) [OF inv] b by blast
  then show "bos b = None \<or> lv b < 4" by auto
qed (use b level_invD(2-4) [OF inv] in auto)

lemma level_gem:
  assumes inv: "level_inv lo hi shift lv bos v" and b: "bos b = Some bo" "lv b = 0"
    and v': "v' = v\<lparr>v_gems := (v_gems v)(b \<mapsto> sz), v_refs := r\<rparr>"
  shows "level_inv lo hi shift (lv(b := 1)) bos v'"
  by (rule level_low [OF inv, where x = "Some bo"]) (use b level_invD(2-4) [OF inv] in \<open>auto simp: v'\<close>)

lemma level_pages:
  assumes inv: "level_inv lo hi shift lv bos v" and b: "bos b = Some bo" "lv b = 1" and "sized shift bo'"
    and v': "v' = v\<lparr>v_pinned := insert b (v_pinned v)\<rparr>"
  shows "level_inv lo hi shift (lv(b := 2)) (bos(b \<mapsto> bo')) v'"
  by (rule level_low [OF inv, where x = "Some bo'"])
    (use b assms(4) level_invD(2-4) [OF inv] in \<open>auto simp: v'\<close>)

lemma level_node:
  assumes inv: "level_inv lo hi shift lv bos v" and b: "bos b = Some bo" "lv b = 2" and n: "n \<notin> v_blocks v"
    and v': "v' = v\<lparr>v_blocks := insert n (v_blocks v)\<rparr>"
  shows "level_inv lo hi shift (lv(b := 3)) (bos(b \<mapsto> bo\<lparr>bo_mm := Some n\<rparr>)) v'"
proof (rule level_low [OF inv, where x = "Some (bo\<lparr>bo_mm := Some n\<rparr>)"])
  fix bo1
  have "sized shift bo" using level_invD(5) [OF inv b(1)] b(2) by simp
  moreover assume "Some (bo\<lparr>bo_mm := Some n\<rparr>) = Some bo1"
  ultimately show "sized shift bo1" by (auto simp: sized_def pages_of_def)
  have "bo_mm bo' \<noteq> Some n" if "bos b' = Some bo'" "3 \<le> lv b'" for b' bo'
    using level_invD(6) [OF inv that] n by auto
  with n b level_invD(2) [OF inv] \<open>Some (bo\<lparr>bo_mm := Some n\<rparr>) = Some bo1\<close>
  show "\<exists>m. bo_mm bo1 = Some m \<and> m \<in> v_blocks v' \<and> m \<notin> dom (bos(b \<mapsto> bo\<lparr>bo_mm := Some n\<rparr>)) \<and>
      (\<forall>b' bo'. b' \<noteq> b \<longrightarrow> bos b' = Some bo' \<longrightarrow> 3 \<le> lv b' \<longrightarrow> bo_mm bo' \<noteq> Some m)"
    by (auto simp: v' intro!: exI [of _ n])
qed (use b level_invD(2-4) [OF inv] in \<open>auto simp: v'\<close>)

text \<open>The address is set although the mapping failed.\<close>

lemma level_iova:
  assumes inv: "level_inv lo hi shift lv bos v" and b: "bos b = Some bo" "lv b = 3"
  shows "level_inv lo hi shift lv (bos(b \<mapsto> bo\<lparr>bo_iova := iova\<rparr>)) v"
proof -
  obtain n where n: "bo_mm bo = Some n" "n \<in> v_blocks v" "n \<notin> dom bos"
    using level_invD(6) [OF inv b(1)] b(2) by auto
  have "bo_mm bo' \<noteq> Some n" if "b' \<noteq> b" "bos b' = Some bo'" "3 \<le> lv b'" for b' bo'
    using level_invD(7) [OF inv b(1) that(2)] that b(2) n(1) by auto
  moreover have "sized shift (bo\<lparr>bo_iova := iova\<rparr>)"
    using level_invD(5) [OF inv b(1)] b(2) by (simp add: sized_def pages_of_def)
  ultimately have "level_inv lo hi shift (lv(b := 3)) (bos(b \<mapsto> bo\<lparr>bo_iova := iova\<rparr>)) v"
    by (intro level_low [OF inv, where x = "Some (bo\<lparr>bo_iova := iova\<rparr>)"])
      (use b n level_invD(2-4) [OF inv] in \<open>auto\<close>)
  with b(2) show ?thesis by (simp add: fun_upd_idem)
qed

lemma level_node_free:
  assumes inv: "level_inv lo hi shift lv bos v" and b: "bos b = Some bo" "lv b = 3" "bo_mm bo = Some n"
    and v': "v' = v\<lparr>v_blocks := v_blocks v - {n}\<rparr>"
  shows "level_inv lo hi shift (lv(b := 2)) bos v'"
proof (rule level_low [OF inv, where x = "Some bo"])
  have n: "n \<notin> dom bos" using level_invD(6) [OF inv b(1)] b by auto
  then show "dom bos \<subseteq> v_blocks v'" using level_invD(2) [OF inv] by (auto simp: v')
  fix b' bo' m assume "b' \<noteq> b" "bos b' = Some bo'" "3 \<le> lv b'" "bo_mm bo' = Some m" "m \<in> v_blocks v" "m \<notin> dom bos"
  moreover from this have "m \<noteq> n" using level_invD(7) [OF inv b(1), of b' bo'] b by auto
  ultimately show "m \<in> v_blocks v' \<and> m \<noteq> b" using b(1) by (auto simp: v')
qed (use b level_invD(2-5) [OF inv] in \<open>auto simp: v'\<close>)

lemma level_unpin:
  assumes inv: "level_inv lo hi shift lv bos v" and b: "bos b = Some bo" "lv b = 2"
    and v': "v' = v\<lparr>v_pinned := v_pinned v - {b}\<rparr>"
  shows "level_inv lo hi shift (lv(b := 1)) bos v'"
  by (rule level_low [OF inv, where x = "Some bo"]) (use b level_invD(2-4) [OF inv] in \<open>auto simp: v'\<close>)

lemma level_release:
  assumes inv: "level_inv lo hi shift lv bos v" and b: "bos b = Some bo" "lv b = 1"
    and v': "v' = v\<lparr>v_gems := (v_gems v)(b := None)\<rparr>"
  shows "level_inv lo hi shift (lv(b := 0)) bos v'"
  by (rule level_low [OF inv, where x = "Some bo"]) (use b level_invD(2-4) [OF inv] in \<open>auto simp: v'\<close>)

lemma level_free:
  assumes inv: "level_inv lo hi shift lv bos v" and b: "bos b = Some bo" "lv b = 0"
    and v': "v' = v\<lparr>v_blocks := v_blocks v - {b}\<rparr>"
  shows "level_inv lo hi shift lv (bos(b := None)) v'"
proof -
  have "level_inv lo hi shift (lv(b := 0)) (bos(b := None)) v'"
    by (rule level_low [OF inv, where x = None]) (use b level_invD(2-4) [OF inv] in \<open>auto simp: v'\<close>)
  with b(2) show ?thesis by (simp add: fun_upd_idem)
qed

lemma level_name:
  assumes inv: "level_inv lo hi shift lv bos v" and b: "bos b = Some bo" "lv b = 4" "b \<notin> ran (v_handles v)"
    and v': "v' = v\<lparr>v_handles := (v_handles v)(h \<mapsto> b), v_refs := r\<rparr>" and h: "v_handles v h = None"
  shows "level_inv lo hi shift lv bos v'"
proof -
  have nb: "v_handles v h' \<noteq> Some b" for h' using b(3) by (auto simp: ran_def)
  have "bos_inv lo hi shift (full_bos lv bos) (full_view (full_bos lv bos) v')"
    using level_invD(1) [OF inv] b nb unfolding bos_inv_def bo_ok_def
    by (auto simp: full_view_def v' full_bos_eq)
  with inv show ?thesis by (simp add: level_inv_def v')
qed

lemma level_unname:
  assumes inv: "level_inv lo hi shift lv bos v"
    and v': "v' = v\<lparr>v_handles := (v_handles v)(h := None), v_refs := r\<rparr>"
  shows "level_inv lo hi shift lv bos v'"
proof -
  have "bos_inv lo hi shift (full_bos lv bos) (full_view (full_bos lv bos) v')"
    using level_invD(1) [OF inv] unfolding bos_inv_def bo_ok_def
    by (auto simp: full_view_def v')
  with inv show ?thesis by (simp add: level_inv_def v')
qed

section \<open>Entering and leaving the address space\<close>

lemma level_insert:
  assumes inv: "level_inv lo hi shift lv bos v" and b: "bos b = Some bo" "lv b = 3" "b \<notin> ran (v_handles v)"
    and n: "bo_mm bo = Some n"
    and place: "placement_ok lo hi v iova (ucast (bo_bytes shift (bo_npages bo))) (page_bytes shift)"
    and v': "v' = v\<lparr>v_nodes := (v_nodes v)(n \<mapsto> (iova, ucast (bo_bytes shift (bo_npages bo)))),
      v_maps := with_pages (v_maps v) shift iova (pages_of bo) (unat (bo_npages bo))\<rparr>"
  shows "level_inv lo hi shift (lv(b := 4)) (bos(b \<mapsto> bo\<lparr>bo_iova := iova\<rparr>)) v'"
proof -
  let ?bo = "bo\<lparr>bo_iova := iova\<rparr>" and ?full = "full_bos lv bos"
  have nb: "n \<in> v_blocks v" "n \<notin> dom bos" using level_invD(6) [OF inv b(1)] b(2) n by auto
  have others: "bo_mm bo' \<noteq> Some n" "bo_mm bo' \<noteq> Some b" if "bos b' = Some bo'" "3 \<le> lv b'" "b' \<noteq> b" for b' bo'
    using level_invD(7) [OF inv b(1) that(1)] level_invD(6) [OF inv that(1,2)] that b n by auto
  have full: "full_bos (lv(b := 4)) (bos(b \<mapsto> ?bo)) = ?full(b \<mapsto> ?bo)"
    by (auto simp: full_bos_eq fun_eq_iff)
  have low: "?full b = None" using b(2) by (simp add: full_bos_eq)
  have old: "3 \<le> lv b' \<and> bos b' = Some bo' \<and> b' \<noteq> b" if "?full b' = Some bo'" for b' bo'
    using that b(2) by (auto simp: full_bos_eq split: if_splits)
  have sz: "sized shift bo" using level_invD(5) [OF inv b(1)] b(2) by simp
  have fulls: "bos_inv lo hi shift (?full(b \<mapsto> ?bo)) (full_view (?full(b \<mapsto> ?bo)) v')"
  proof (rule bos_inv_add_named [OF level_invD(1) [OF inv]])
    show "b \<notin> v_blocks (full_view ?full v)" "n \<notin> v_blocks (full_view ?full v)"
      using low nb(2) others old by (fastforce simp: full_view_def)+
    show "n \<noteq> b" using nb(2) b(1) by auto
    show "bo_mm ?bo = Some n" using n by simp
    show "unat (bo_npages ?bo) * 2 ^ shift < 2 ^ 32" "unat (bo_npages ?bo) \<le> length (pages_of ?bo)"
      using sz by (simp_all add: sized_def pages_of_def)
    show "placement_ok lo hi (full_view ?full v) (bo_iova ?bo) (ucast (bo_bytes shift (bo_npages ?bo))) (page_bytes shift)"
      using place by (simp add: placement_ok_def full_view_def)
    have "(\<exists>b' bo'. (?full(b \<mapsto> ?bo)) b' = Some bo' \<and> bo_mm bo' = Some m) \<longleftrightarrow>
        m = n \<or> (\<exists>b' bo'. ?full b' = Some bo' \<and> bo_mm bo' = Some m)" for m
      unfolding ex_map_upd [of ?full b ?bo, OF low] using n by auto
    then have blocks: "v_blocks (full_view (?full(b \<mapsto> ?bo)) v') = insert n (insert b (v_blocks (full_view ?full v)))"
      unfolding full_view_def by (simp del: fun_upd_apply) auto
    show "view_with shift b n ?bo (full_view ?full v) (full_view (?full(b \<mapsto> ?bo)) v')"
      unfolding view_with_def by (intro conjI, rule blocks) (auto simp: full_view_def v' pages_of_def split: if_splits)
    show "v_handles (full_view ?full v) h = Some b'" if "v_handles (full_view (?full(b \<mapsto> ?bo)) v') h = Some b'" for h b'
      using that by (simp add: full_view_def v')
    show "h = h'" if "v_handles (full_view (?full(b \<mapsto> ?bo)) v') h = Some b" for h h'
      using that b(3) by (auto simp: full_view_def v' ran_def)
  qed
  show ?thesis
    unfolding level_inv_def full
  proof (intro conjI allI impI)
    show "bos_inv lo hi shift (?full(b \<mapsto> ?bo)) (full_view (?full(b \<mapsto> ?bo)) v')" by (rule fulls)
    show "dom (bos(b \<mapsto> ?bo)) \<subseteq> v_blocks v'" using level_invD(2) [OF inv] b(1) by (auto simp: v')
    show "dom (v_gems v') = {c \<in> dom (bos(b \<mapsto> ?bo)). 1 \<le> (lv(b := 4)) c}"
      using level_invD(3) [OF inv] b(1,2) by (auto simp: v')
    show "v_pinned v' = {c \<in> dom (bos(b \<mapsto> ?bo)). 2 \<le> (lv(b := 4)) c}"
      using level_invD(4) [OF inv] b(1,2) by (auto simp: v')
    show "sized shift bo'" if "(bos(b \<mapsto> ?bo)) b' = Some bo'" "2 \<le> (lv(b := 4)) b'" for b' bo'
      using that sz level_invD(5) [OF inv, of b' bo'] by (auto simp: sized_def pages_of_def split: if_splits)
    show "\<exists>m. bo_mm bo' = Some m \<and> m \<in> v_blocks v' \<and> m \<notin> dom (bos(b \<mapsto> ?bo))"
      if "(bos(b \<mapsto> ?bo)) b' = Some bo'" "3 \<le> (lv(b := 4)) b'" for b' bo'
      using that level_invD(6) [OF inv, of b' bo'] n nb b(1) by (auto simp: v' split: if_splits)
    show "b1 = b2" if "(bos(b \<mapsto> ?bo)) b1 = Some bo1" "(bos(b \<mapsto> ?bo)) b2 = Some bo2" "3 \<le> (lv(b := 4)) b1"
      "3 \<le> (lv(b := 4)) b2" "bo_mm bo1 = bo_mm bo2" for b1 bo1 b2 bo2
    proof -
      have new: "bo_mm bo' \<noteq> bo_mm ?bo" if "bos b' = Some bo'" "3 \<le> lv b'" "b' \<noteq> b" for b' bo'
        using others(1) [OF that] n by simp
      from that new [of b1 bo1] new [of b2 bo2] level_invD(7) [OF inv, of b1 bo1 b2 bo2]
      show ?thesis by (auto split: if_splits)
    qed
  qed
qed

lemma level_remove:
  assumes inv: "level_inv lo hi shift lv bos v" and b: "bos b = Some bo" "lv b = 4" "b \<notin> ran (v_handles v)"
    and n: "bo_mm bo = Some n"
    and v': "v' = v\<lparr>v_nodes := (v_nodes v)(n := None), v_maps := maps_without shift bo v\<rparr>"
  shows "level_inv lo hi shift (lv(b := 3)) bos v'"
proof -
  let ?full = "full_bos lv bos"
  have full: "full_bos (lv(b := 3)) bos = ?full(b := None)" by (auto simp: full_bos_eq fun_eq_iff)
  have top: "?full b = Some bo" using b by (simp add: full_bos_eq)
  have old: "3 \<le> lv b' \<and> bos b' = Some bo'" if "?full b' = Some bo'" for b' bo'
    using that by (auto simp: full_bos_eq split: if_splits)
  have mm: "bo_mm bo' \<noteq> Some b" "bo_mm bo' = Some n \<Longrightarrow> b' = b" if "?full b' = Some bo'" for b' bo'
    using level_invD(6) [OF inv, of b' bo'] level_invD(7) [OF inv b(1), of b' bo'] old [OF that] b n by auto
  have nb: "n \<notin> dom ?full" using level_invD(6) [OF inv b(1)] b(2) n by (auto simp: full_bos_eq split: if_splits)
  have "bos_inv lo hi shift (?full(b := None)) (full_view (?full(b := None)) v')"
  proof (rule bos_inv_remove [OF level_invD(1) [OF inv] top n])
    have "(\<exists>b' bo'. (?full(b := None)) b' = Some bo' \<and> bo_mm bo' = Some m) \<longleftrightarrow>
        (\<exists>b' bo'. ?full b' = Some bo' \<and> bo_mm bo' = Some m) \<and> m \<noteq> n \<and> m \<noteq> b" for m
    proof -
      have "(\<exists>b' bo'. (?full(b := None)) b' = Some bo' \<and> bo_mm bo' = Some m) \<longleftrightarrow>
          (\<exists>b' bo'. b' \<noteq> b \<and> ?full b' = Some bo' \<and> bo_mm bo' = Some m)" by (auto split: if_splits)
      moreover have "m \<noteq> n \<and> m \<noteq> b" if "b' \<noteq> b" "?full b' = Some bo'" "bo_mm bo' = Some m" for b' bo'
        using mm [OF that(2)] that by auto
      moreover have "b' \<noteq> b" if "?full b' = Some bo'" "bo_mm bo' = Some m" "m \<noteq> n" for b' bo'
        using that top n by auto
      ultimately show ?thesis by blast
    qed
    then show "v_blocks (full_view (?full(b := None)) v') = v_blocks (full_view ?full v) - {n} - {b}"
      using nb by (auto simp: full_view_def)
    show "v_handles (full_view (?full(b := None)) v') h =
        (if v_handles (full_view ?full v) h = Some b then None else v_handles (full_view ?full v) h)" for h
      using b(3) by (auto simp: full_view_def v' ran_def)
  qed (auto simp: full_view_def v' maps_without_def split: if_splits)
  with inv b show ?thesis
    unfolding level_inv_def full by (auto simp: v')
qed

text \<open>What is mapped is what the complete objects map.\<close>

lemma level_maps:
  assumes "level_inv lo hi shift lv bos v"
  shows "v_maps v a = Some pa \<longleftrightarrow> (\<exists>b bo. bos b = Some bo \<and> 4 \<le> lv b \<and> maps_page shift bo a pa)"
proof -
  have "v_maps v a = Some pa \<longleftrightarrow> (\<exists>b bo. full_bos lv bos b = Some bo \<and> maps_page shift bo a pa)"
    using inv_maps [OF level_invD(1) [OF assms], of a pa] by (simp add: full_view_def)
  then show ?thesis by (auto simp: full_bos_eq split: if_splits)
qed

text \<open>With complete objects only, the invariant of \<open>Drv_Gem\<close> holds.\<close>

lemma level_all_full:
  assumes inv: "level_inv lo hi shift lv bos v" and all: "\<And>b. b \<in> dom bos \<Longrightarrow> 4 \<le> lv b"
  shows "bos_inv lo hi shift bos v"
proof -
  have full: "full_bos lv bos = bos"
  proof
    fix b show "full_bos lv bos b = bos b" using all [of b] by (cases "bos b") (auto simp: full_bos_eq)
  qed
  have gems: "dom (v_gems v) = dom bos" "v_pinned v = dom bos"
    using level_invD(3,4) [OF inv] all by fastforce+
  have blocks: "n \<in> v_blocks v" if "bos b = Some bo" "bo_mm bo = Some n" for b bo n
  proof -
    have "4 \<le> lv b" using all [of b] that(1) by blast
    then show ?thesis using level_invD(6) [OF inv that(1)] that(2) by simp
  qed
  have "bo_ok lo hi shift v bo" if "bos b = Some bo" for b bo
    using inv_bo [OF level_invD(1) [OF inv] , of b bo] that blocks [OF that]
    by (auto simp: full bo_ok_def full_view_def)
  then show ?thesis
    using level_invD(1) [OF inv] level_invD(2) [OF inv] gems
    unfolding full bos_inv_def by (simp add: full_view_def)
qed

lemma all_full_level:
  assumes "bos_inv lo hi shift bos v"
  shows "level_inv lo hi shift (\<lambda>_. 4) bos v"
proof -
  have full: "full_bos (\<lambda>_. 4) bos = bos" by (simp add: full_bos_eq fun_eq_iff)
  have mm: "\<exists>n. bo_mm bo = Some n \<and> n \<in> v_blocks v \<and> n \<notin> dom bos" if bo: "bos b = Some bo" for b bo
  proof -
    obtain n where n: "bo_mm bo = Some n" "n \<in> v_blocks v" "n \<in> dom (v_nodes v)"
      using inv_bo [OF assms bo] by (auto simp: bo_ok_def)
    with inv_nodes [OF assms n(3)] show ?thesis by blast
  qed
  have ok: "bo_ok lo hi shift (full_view bos v) bo" if "bos b = Some bo" for b bo
    using inv_bo [OF assms that] that by (auto simp: bo_ok_def full_view_def)
  have "bos_inv lo hi shift bos (full_view bos v)"
    using assms ok unfolding bos_inv_def by (auto simp: full_view_def domIff)
  moreover have "sized shift bo" if "bos b = Some bo" for b bo
    using inv_bo [OF assms that] by (auto simp: bo_ok_def sized_def)
  ultimately show ?thesis
    using assms mm inv_own_node [OF assms] unfolding level_inv_def full
    by (auto simp: bos_inv_def)
qed

end
