(* ===== verification/Drv_Inter.thy ===== *)
theory Drv_Inter
  imports Drv_Level
begin

text \<open>
  The invariant of interleaved calls: every object under construction belongs to one thread, whose
  position says its level; all other objects are complete and have a handle; and what a thread
  has read of the objects it uses is still so. A step of one thread keeps it for all, as long as
  no handle is deleted that another call uses.
\<close>

section \<open>What a thread holds\<close>

fun init_level :: "init_at \<Rightarrow> nat" where
  "init_level I_Gem = 0"
| "init_level I_Offset = 1"
| "init_level I_Pages = 1"
| "init_level I_Map = 2"
| "init_level (I_Insert n) = 3"
| "init_level (I_Unlock n err) = (if err < 0 then 3 else 4)"
| "init_level (I_Node_Free n err) = 3"
| "init_level I_Handle = 4"
| "init_level (I_Put err) = 4"

fun unwind_level :: "unwind_at \<Rightarrow> nat" where
  "unwind_level U_Unmap = 4"
| "unwind_level (U_Unmapped n) = 3"
| "unwind_level (U_Node_Free n) = 3"
| "unwind_level U_Flush = 2"
| "unwind_level U_Flushed = 2"
| "unwind_level U_Pages = 2"
| "unwind_level U_Release = 1"
| "unwind_level U_Free = 0"

text \<open>The object that belongs to the thread and its level; one that has its handle belongs to the client.\<close>

fun owned :: "thread \<Rightarrow> (nat \<times> nat) option" where
  "owned (Initing (I_Put err) b args) = (if err < 0 then Some (b, 4) else None)"
| "owned (Initing p b args) = Some (b, init_level p)"
| "owned (Unwinding p b r) = Some (b, unwind_level p)"
| "owned t = None"

fun in_iommu :: "thread \<Rightarrow> bool" where
  "in_iommu (Initing (I_Unlock n err) b args) = True"
| "in_iommu (Unwinding (U_Unmapped n) b r) = True"
| "in_iommu (Unwinding U_Flushed b r) = True"
| "in_iommu Suspending = True"
| "in_iommu t = False"

fun in_engine :: "thread \<Rightarrow> bool" where
  "in_engine (Submitting (S_Execute req) args) = True"
| "in_engine (Submitting (S_Unlock err) args) = True"
| "in_engine t = False"

section \<open>What a thread relies on\<close>

fun init_ok :: "'k kapi \<Rightarrow> kview \<Rightarrow> ane_bo \<Rightarrow> nat \<Rightarrow> bo_init_args \<Rightarrow> init_at \<Rightarrow> bool" where
  "init_ok K v bo b args I_Gem \<longleftrightarrow> bo_mm bo = None"
| "init_ok K v bo b args I_Offset \<longleftrightarrow> bo_mm bo = None \<and>
     v_gems v b = Some (round_up (i_size args) (page_size K))"
| "init_ok K v bo b args I_Pages \<longleftrightarrow> bo_mm bo = None \<and>
     v_gems v b = Some (round_up (i_size args) (page_size K))"
| "init_ok K v bo b args I_Map \<longleftrightarrow> bo_mm bo = None"
| "init_ok K v bo b args (I_Insert n) \<longleftrightarrow> bo_mm bo = Some n"
| "init_ok K v bo b args (I_Unlock n err) \<longleftrightarrow> bo_mm bo = Some n"
| "init_ok K v bo b args (I_Node_Free n err) \<longleftrightarrow> bo_mm bo = Some n"
| "init_ok K v bo b args I_Handle \<longleftrightarrow> True"
| "init_ok K v bo b args (I_Put err) \<longleftrightarrow> (\<not> err < 0 \<longrightarrow> v_handles v (i_handle args) = Some b)"

fun unwind_ok :: "ane_bo \<Rightarrow> unwind_at \<Rightarrow> bool" where
  "unwind_ok bo (U_Unmapped n) \<longleftrightarrow> bo_mm bo = Some n"
| "unwind_ok bo (U_Node_Free n) \<longleftrightarrow> bo_mm bo = Some n"
| "unwind_ok bo p \<longleftrightarrow> True"

definition bars_ok :: "ane_hw \<Rightarrow> nat \<Rightarrow> kview \<Rightarrow> (nat \<rightharpoonup> ane_bo) \<Rightarrow> submit_args \<Rightarrow> nat \<Rightarrow> u64 list \<Rightarrow> bool" where
  "bars_ok hw shift v bos args bdx bars \<longleftrightarrow>
     bars = bars_upto v bos args bdx \<and> (\<forall>i < bdx. bar_valid hw shift v bos args i)"

definition all_bars_ok :: "ane_hw \<Rightarrow> nat \<Rightarrow> kview \<Rightarrow> (nat \<rightharpoonup> ane_bo) \<Rightarrow> submit_args \<Rightarrow> u64 list \<Rightarrow> bool" where
  "all_bars_ok hw shift v bos args bars \<longleftrightarrow>
     bars = map (spec_bar hw v bos args) [0..<ANE_MAX_TILE_COUNT] \<and>
     (\<forall>i < unat (hw_bar_count hw). bar_valid hw shift v bos args i)"

fun submit_ok :: "ane_hw \<Rightarrow> nat \<Rightarrow> kview \<Rightarrow> (nat \<rightharpoonup> ane_bo) \<Rightarrow> submit_args \<Rightarrow> submit_at \<Rightarrow> bool" where
  "submit_ok hw shift v bos args (S_Bar bdx bars) \<longleftrightarrow> bdx \<le> unat (hw_bar_count hw) \<and>
     bars_ok hw shift v bos args bdx bars"
| "submit_ok hw shift v bos args (S_Bar_Use bdx bars b) \<longleftrightarrow> bdx < unat (hw_bar_count hw) \<and>
     bars_ok hw shift v bos args bdx bars \<and> s_handles args ! bdx \<noteq> 0 \<and>
     v_handles v (s_handles args ! bdx) = Some b"
| "submit_ok hw shift v bos args (S_Btsp bars) \<longleftrightarrow> all_bars_ok hw shift v bos args bars"
| "submit_ok hw shift v bos args (S_Btsp_Use bars b) \<longleftrightarrow> all_bars_ok hw shift v bos args bars \<and>
     v_handles v (s_btsp_handle args) = Some b"
| "submit_ok hw shift v bos args (S_Enqueue req) \<longleftrightarrow> submit_valid hw shift v bos args \<and>
     req = spec_request hw v bos args"
| "submit_ok hw shift v bos args (S_Execute req) \<longleftrightarrow> submit_valid hw shift v bos args \<and>
     req = spec_request hw v bos args"
| "submit_ok hw shift v bos args (S_Unlock err) \<longleftrightarrow> True"

fun thread_ok :: "'k kapi \<Rightarrow> ane_hw \<Rightarrow> nat \<Rightarrow> kview \<Rightarrow> (nat \<rightharpoonup> ane_bo) \<Rightarrow> thread \<Rightarrow> bool" where
  "thread_ok K hw shift v bos (Returned r) \<longleftrightarrow> True"
| "thread_ok K hw shift v bos (Begun c) \<longleftrightarrow> call_ok K c"
| "thread_ok K hw shift v bos (Initing p b args) \<longleftrightarrow>
     unat (round_up (i_size args) (page_size K)) < 2 ^ 32 \<and>
     (\<exists>bo. bos b = Some bo \<and> init_ok K v bo b args p)"
| "thread_ok K hw shift v bos (Freeing h b) \<longleftrightarrow> v_handles v h = Some b"
| "thread_ok K hw shift v bos (Unwinding p b r) \<longleftrightarrow> (\<exists>bo. bos b = Some bo \<and> unwind_ok bo p)"
| "thread_ok K hw shift v bos (Submitting p args) \<longleftrightarrow> args_shape args \<and> \<not> submit_refused args \<and>
     submit_ok hw shift v bos args p"
| "thread_ok K hw shift v bos Suspending \<longleftrightarrow> True"

section \<open>The invariant\<close>

definition owns :: "thread \<Rightarrow> nat \<Rightarrow> bool" where
  "owns t b \<longleftrightarrow> (\<exists>n. owned t = Some (b, n))"

definition held_by :: "(thread \<Rightarrow> bool) \<Rightarrow> bool \<Rightarrow> thread list \<Rightarrow> bool" where
  "held_by P locked ts \<longleftrightarrow> (locked \<longleftrightarrow> (\<exists>i < length ts. P (ts ! i))) \<and>
     (\<forall>i < length ts. \<forall>j < length ts. P (ts ! i) \<longrightarrow> P (ts ! j) \<longrightarrow> i = j)"

definition conc_inv :: "'k kapi \<Rightarrow> ane_hw \<Rightarrow> ('k \<Rightarrow> kview) \<Rightarrow> u64 \<Rightarrow> u64 \<Rightarrow> nat \<Rightarrow> (nat \<Rightarrow> nat) \<Rightarrow>
    thread list \<Rightarrow> 'k drv \<Rightarrow> bool" where
  "conc_inv K hw view lo hi shift lv ts s \<longleftrightarrow> (let v = view (d_kern s); bos = d_bos s in
     level_inv lo hi shift lv bos v \<and>
     (\<forall>i < length ts. thread_ok K hw shift v bos (ts ! i)) \<and>
     (\<forall>i < length ts. \<forall>b n. owned (ts ! i) = Some (b, n) \<longrightarrow>
        b \<in> dom bos \<and> lv b = n \<and> b \<notin> ran (v_handles v)) \<and>
     (\<forall>i < length ts. \<forall>j < length ts. \<forall>b. owns (ts ! i) b \<longrightarrow> owns (ts ! j) b \<longrightarrow> i = j) \<and>
     (\<forall>b \<in> dom bos. (\<forall>i < length ts. \<not> owns (ts ! i) b) \<longrightarrow> lv b = 4 \<and> b \<in> ran (v_handles v)) \<and>
     held_by in_iommu (d_iommu_lock s) ts \<and> held_by in_engine (d_engine_lock s) ts)"

text \<open>What a step of thread \<open>t\<close> does: it changes its own objects \<open>B\<close> only, gives up an object only
  when it is gone or complete with a handle, and removes a handle only to own its object.\<close>

definition lock_step :: "(thread \<Rightarrow> bool) \<Rightarrow> thread \<Rightarrow> thread \<Rightarrow> bool \<Rightarrow> bool \<Rightarrow> bool" where
  "lock_step P t t' locked locked' \<longleftrightarrow>
     (if P t then locked' = P t' else if P t' then \<not> locked \<and> locked' else locked' = locked)"

definition advance :: "'k kapi \<Rightarrow> ane_hw \<Rightarrow> ('k \<Rightarrow> kview) \<Rightarrow> u64 \<Rightarrow> u64 \<Rightarrow> nat \<Rightarrow> (nat \<Rightarrow> nat) \<Rightarrow> thread \<Rightarrow> 'k drv \<Rightarrow>
    (nat \<Rightarrow> nat) \<Rightarrow> thread \<Rightarrow> 'k drv \<Rightarrow> nat set \<Rightarrow> bool" where
  "advance K hw view lo hi shift lv t s lv' t' s' B \<longleftrightarrow>
     (let v = view (d_kern s); bos = d_bos s; v' = view (d_kern s'); bos' = d_bos s' in
     level_inv lo hi shift lv' bos' v' \<and> thread_ok K hw shift v' bos' t' \<and>
     (\<forall>b. b \<notin> B \<longrightarrow> bos' b = bos b \<and> lv' b = lv b \<and> v_gems v' b = v_gems v b) \<and>
     (\<forall>b \<in> B. owns t b \<or> b \<notin> dom bos) \<and>
     (\<forall>b n. owned t' = Some (b, n) \<longrightarrow> b \<in> dom bos' \<and> lv' b = n \<and> b \<notin> ran (v_handles v') \<and>
        (owns t b \<or> b \<notin> dom bos \<or> b \<in> ran (v_handles v))) \<and>
     (\<forall>b. owns t b \<or> b \<in> B \<longrightarrow> b \<in> dom bos' \<longrightarrow> \<not> owns t' b \<longrightarrow> lv' b = 4 \<and> b \<in> ran (v_handles v')) \<and>
     (\<forall>h b. v_handles v h = Some b \<longrightarrow> v_handles v' h = Some b \<or> (t = Freeing h b \<and> owns t' b)) \<and>
     (\<forall>b \<in> ran (v_handles v'). b \<in> ran (v_handles v) \<or> owns t b) \<and>
     lock_step in_iommu t t' (d_iommu_lock s) (d_iommu_lock s') \<and>
     lock_step in_engine t t' (d_engine_lock s) (d_engine_lock s'))"

lemma held_by_step:
  assumes held: "held_by P l ts" and i: "i < length ts" and step: "lock_step P (ts ! i) t' l l'"
  shows "held_by P l' (ts[i := t'])"
proof -
  have others: "\<not> P (ts ! j)" if "P (ts ! i)" "j < length ts" "j \<noteq> i" for j
    using held i that by (auto simp: held_by_def)
  show ?thesis
  proof (cases "P (ts ! i)")
    case True
    then have "l' = P t'" using step by (simp add: lock_step_def)
    with others True i show ?thesis by (auto simp: held_by_def nth_list_update)
  next
    case False
    show ?thesis
    proof (cases "P t'")
      case True
      then have l: "\<not> l" "l'" using step False by (auto simp: lock_step_def)
      then have "\<not> P (ts ! j)" if "j < length ts" for j using held that by (auto simp: held_by_def)
      with True l i show ?thesis by (auto simp: held_by_def nth_list_update)
    next
      case t': False
      then have "l' = l" using step False by (simp add: lock_step_def)
      with held t' False i show ?thesis by (fastforce simp: held_by_def nth_list_update)
    qed
  qed
qed

section \<open>The steps of the others\<close>

text \<open>What a call has resolved stays so while its handles stay.\<close>

definition handles_stay :: "u32 set \<Rightarrow> kview \<Rightarrow> (nat \<rightharpoonup> ane_bo) \<Rightarrow> kview \<Rightarrow> (nat \<rightharpoonup> ane_bo) \<Rightarrow> bool" where
  "handles_stay H v bos v' bos' \<longleftrightarrow>
     (\<forall>h \<in> H. \<forall>bo. handle_bo v bos h = Some bo \<longrightarrow> handle_bo v' bos' h = Some bo)"

lemma bar_valid_stays:
  assumes "bar_valid hw shift v bos args i" and "handles_stay H v bos v' bos'" and "s_handles args ! i \<in> H"
  shows "bar_valid hw shift v' bos' args i"
    and "handle_iova v' bos' (s_handles args ! i) = handle_iova v bos (s_handles args ! i)"
proof -
  have "handle_bo v' bos' (s_handles args ! i) = handle_bo v bos (s_handles args ! i)"
    if "s_handles args ! i \<noteq> 0"
    using assms that by (auto simp: bar_valid_def handles_stay_def split: option.splits)
  with assms(1) show "bar_valid hw shift v' bos' args i"
    "handle_iova v' bos' (s_handles args ! i) = handle_iova v bos (s_handles args ! i)"
    by (cases "s_handles args ! i = 0"; simp add: bar_valid_def handle_iova_def)+
qed

lemma bars_ok_stays:
  assumes ok: "bars_ok hw shift v bos args bdx bars" and stay: "handles_stay H v bos v' bos'"
    and H: "set (s_handles args) \<subseteq> H" and shape: "args_shape args" and bdx: "bdx \<le> ANE_MAX_TILE_COUNT"
  shows "bars_ok hw shift v' bos' args bdx bars"
proof -
  have mem: "s_handles args ! i \<in> H" if "i < bdx" for i
    using H shape bdx that by (auto simp: args_shape_def)
  have "bars_upto v' bos' args bdx = bars_upto v bos args bdx"
    unfolding bars_upto_def
    by (rule map_cong [OF refl]) (use ok bar_valid_stays(2) [OF _ stay mem] in \<open>auto simp: bars_ok_def\<close>)
  with ok bar_valid_stays(1) [OF _ stay mem] show ?thesis by (auto simp: bars_ok_def)
qed

lemma all_bars_ok_stays:
  assumes ok: "all_bars_ok hw shift v bos args bars" and stay: "handles_stay H v bos v' bos'"
    and H: "set (s_handles args) \<subseteq> H" and shape: "args_shape args"
    and n: "0 < unat (hw_bar_count hw)" "unat (hw_bar_count hw) \<le> ANE_MAX_TILE_COUNT"
  shows "all_bars_ok hw shift v' bos' args bars"
proof -
  have mem: "s_handles args ! i \<in> H" if "i < unat (hw_bar_count hw)" for i
    using H shape n(2) that by (auto simp: args_shape_def)
  note stays = bar_valid_stays [OF _ stay mem]
  have "spec_bar hw v' bos' args i = spec_bar hw v bos args i" for i
    using ok stays(2) n(1) by (auto simp: all_bars_ok_def spec_bar_def)
  then have "spec_bar hw v' bos' args = spec_bar hw v bos args" by blast
  with ok stays(1) show ?thesis by (auto simp: all_bars_ok_def)
qed

lemma spec_request_bars:
  "submit_valid hw shift v bos args \<Longrightarrow> all_bars_ok hw shift v bos args (rq_bar (spec_request hw v bos args))"
  by (simp add: submit_valid_def all_bars_ok_def spec_request_def)

lemma submit_valid_stays:
  assumes ok: "submit_valid hw shift v bos args" and stay: "handles_stay H v bos v' bos'"
    and H: "insert (s_btsp_handle args) (set (s_handles args)) \<subseteq> H" and shape: "args_shape args"
    and n: "0 < unat (hw_bar_count hw)" "unat (hw_bar_count hw) \<le> ANE_MAX_TILE_COUNT"
  shows "submit_valid hw shift v' bos' args \<and> spec_request hw v' bos' args = spec_request hw v bos args"
proof -
  have bars: "all_bars_ok hw shift v' bos' args (rq_bar (spec_request hw v bos args))"
    using all_bars_ok_stays [OF spec_request_bars [OF ok] stay _ shape n] H by simp
  obtain bo where "handle_bo v bos (s_btsp_handle args) = Some bo" "\<not> iova_too_high hw (bo_iova bo)"
    using ok by (auto simp: submit_valid_def split: option.splits)
  moreover from this have "handle_bo v' bos' (s_btsp_handle args) = Some bo"
    using stay H by (simp add: handles_stay_def)
  ultimately show ?thesis
    using ok bars by (simp add: submit_valid_def all_bars_ok_def spec_request_def handle_iova_def)
qed

lemma thread_ok_stays:
  assumes ok: "thread_ok K hw shift v bos t" and hw: "hw_ok hw push"
    and keep: "\<And>b. b \<notin> B \<Longrightarrow> bos' b = bos b \<and> v_gems v' b = v_gems v b"
    and own: "\<And>b. owns t b \<Longrightarrow> b \<notin> B" and named: "\<And>h b. v_handles v h = Some b \<Longrightarrow> b \<notin> B"
    and handles: "\<And>h b. h \<in> uses t \<Longrightarrow> v_handles v h = Some b \<Longrightarrow> v_handles v' h = Some b"
  shows "thread_ok K hw shift v' bos' t"
proof (cases t)
  case (Initing p b args)
  show ?thesis
  proof (cases "owns t b")
    case True
    with Initing ok keep [OF own [OF True]] show ?thesis
      by (cases p) (auto simp: owns_def)
  next
    case False
    then obtain err where err: "p = I_Put err" "\<not> err < 0"
      using Initing by (cases p) (auto simp: owns_def split: if_splits)
    with Initing ok have h: "v_handles v (i_handle args) = Some b" by auto
    moreover have "v_handles v' (i_handle args) = Some b"
      by (rule handles [OF _ h]) (simp add: Initing err)
    ultimately show ?thesis using Initing ok err keep [OF named [OF h]] by auto
  qed
next
  case (Unwinding p b r)
  then have "b \<notin> B" by (intro own) (simp add: owns_def)
  with Unwinding ok keep [of b] show ?thesis by auto
next
  case (Submitting p args)
  let ?H = "insert (s_btsp_handle args) (set (s_handles args))"
  have stay: "handles_stay ?H v bos v' bos'"
    unfolding handles_stay_def
  proof (intro ballI allI impI)
    fix h bo assume h: "h \<in> ?H" "handle_bo v bos h = Some bo"
    then obtain b where b: "v_handles v h = Some b" "bos b = Some bo"
      by (auto simp: handle_bo_def bind_eq_Some_conv)
    have "v_handles v' h = Some b" by (rule handles [OF _ b(1)]) (use h Submitting in simp)
    with keep [OF named [OF b(1)]] b show "handle_bo v' bos' h = Some bo" by (simp add: handle_bo_def)
  qed
  have n: "0 < unat (hw_bar_count hw)" "unat (hw_bar_count hw) \<le> ANE_MAX_TILE_COUNT"
    using hw by (simp_all add: hw_ok_def)
  have shape: "args_shape args" using ok Submitting by simp
  then have mem: "s_handles args ! i \<in> uses t" if "i < unat (hw_bar_count hw)" for i
    using that n(2) Submitting by (auto simp: args_shape_def)
  note bars = bars_ok_stays [OF _ stay subset_insertI shape]
    and all = all_bars_ok_stays [OF _ stay subset_insertI shape n]
    and valid = submit_valid_stays [OF _ stay order_refl shape n]
  show ?thesis
  proof (cases p)
    case (S_Bar bdx bars')
    with Submitting ok n bars [of hw shift bdx bars'] show ?thesis by auto
  next
    case (S_Bar_Use bdx bars' b)
    with Submitting ok have "v_handles v (s_handles args ! bdx) = Some b" "bdx < unat (hw_bar_count hw)" by auto
    from handles [OF mem [OF this(2)] this(1)] S_Bar_Use Submitting ok n bars [of hw shift bdx bars'] show ?thesis by auto
  next
    case (S_Btsp bars)
    with Submitting ok all show ?thesis by auto
  next
    case (S_Btsp_Use bars b)
    with Submitting ok have "v_handles v (s_btsp_handle args) = Some b" by auto
    from handles [OF _ this] S_Btsp_Use Submitting ok all show ?thesis by auto
  next
    case (S_Enqueue req)
    with Submitting ok valid show ?thesis by auto
  next
    case (S_Execute req)
    with Submitting ok valid show ?thesis by auto
  qed (use Submitting ok in simp)
next
  case (Freeing h b)
  then have "v_handles v h = Some b" using ok by simp
  with Freeing handles [of h b] show ?thesis by simp
qed (use ok in simp_all)

text \<open>A step of one thread is a step of the whole.\<close>

lemma conc_advance:
  assumes inv: "conc_inv K hw view lo hi shift lv ts s" and hw: "hw_ok hw push"
    and i: "i < length ts" and calm: "calm ts i"
    and adv: "advance K hw view lo hi shift lv (ts ! i) s lv' t' s' B"
  shows "conc_inv K hw view lo hi shift lv' (ts[i := t']) s'"
proof -
  let ?v = "view (d_kern s)" and ?bos = "d_bos s" and ?v' = "view (d_kern s')" and ?bos' = "d_bos s'"
  note inv' = inv [unfolded conc_inv_def Let_def] and adv' = adv [unfolded advance_def Let_def]
  have own: "b \<in> dom ?bos" "b \<notin> ran (v_handles ?v)" "lv b = n" if "j < length ts" "owned (ts ! j) = Some (b, n)" for j b n
    using inv' that by blast+
  have owns_dom: "b \<in> dom ?bos" "b \<notin> ran (v_handles ?v)" if "j < length ts" "owns (ts ! j) b" for j b
    using own that by (auto simp: owns_def)
  have apart: "j = k" if "j < length ts" "k < length ts" "owns (ts ! j) b" "owns (ts ! k) b" for j k b
    using inv' that by blast
  have outside: "b \<notin> B" if "j < length ts" "j \<noteq> i" "owns (ts ! j) b" for j b
    using adv' apart [OF that(1) i that(3)] that(2) owns_dom [OF that(1,3)] by blast
  have named: "b \<notin> B" if "v_handles ?v h = Some b" for h b
  proof
    assume "b \<in> B"
    moreover have "b \<in> dom ?bos" using level_named(2) [of lo hi shift lv ?bos ?v h b] inv' that by blast
    ultimately have "owns (ts ! i) b" using adv' by blast
    then show False using owns_dom [OF i] that by (auto intro: ranI)
  qed
  have keep: "?bos' b = ?bos b \<and> v_gems ?v' b = v_gems ?v b" "lv' b = lv b" if "b \<notin> B" for b
    using adv' that by blast+
  have gone: "owns t' b" if "v_handles ?v h = Some b" "v_handles ?v' h \<noteq> Some b" for h b
    using adv' that by blast
  have other: "thread_ok K hw shift ?v' ?bos' (ts ! j) \<and> (\<forall>b n. owned (ts ! j) = Some (b, n) \<longrightarrow>
      b \<in> dom ?bos' \<and> lv' b = n \<and> b \<notin> ran (v_handles ?v') \<and> \<not> owns t' b)" if j: "j < length ts" "j \<noteq> i" for j
  proof
    show "thread_ok K hw shift ?v' ?bos' (ts ! j)"
    proof (rule thread_ok_stays [OF _ hw, where B = B and v = ?v and bos = ?bos])
      show "thread_ok K hw shift ?v ?bos (ts ! j)" using inv' j(1) by blast
      show "v_handles ?v' h = Some b" if "h \<in> uses (ts ! j)" "v_handles ?v h = Some b" for h b
      proof -
        have "ts ! i \<noteq> Freeing h b" using calm that(1) j by (auto simp: calm_def)
        then show ?thesis using adv' that(2) by blast
      qed
    qed (use keep named outside [OF j] in blast)+
    show "\<forall>b n. owned (ts ! j) = Some (b, n) \<longrightarrow>
      b \<in> dom ?bos' \<and> lv' b = n \<and> b \<notin> ran (v_handles ?v') \<and> \<not> owns t' b"
    proof (intro allI impI)
      fix b n assume b: "owned (ts ! j) = Some (b, n)"
      then have owns: "owns (ts ! j) b" by (simp add: owns_def)
      have nB: "b \<notin> B" by (rule outside [OF j owns])
      have ni: "\<not> owns (ts ! i) b" using apart [OF j(1) i owns] j(2) by blast
      note o = own [OF j(1) b]
      have "b \<notin> ran (v_handles ?v')" using adv' o(2) ni by blast
      moreover have "\<not> owns t' b" using adv' o(1,2) ni unfolding owns_def by blast
      ultimately show "b \<in> dom ?bos' \<and> lv' b = n \<and> b \<notin> ran (v_handles ?v') \<and> \<not> owns t' b"
        using keep [OF nB] o by auto
    qed
  qed
  show ?thesis
    unfolding conc_inv_def Let_def
  proof (intro conjI)
    show "level_inv lo hi shift lv' ?bos' ?v'" using adv' by blast
    show "\<forall>j < length (ts[i := t']). thread_ok K hw shift ?v' ?bos' (ts[i := t'] ! j)"
      using adv' other i by (auto simp: nth_list_update)
    show "\<forall>j < length (ts[i := t']). \<forall>b n. owned (ts[i := t'] ! j) = Some (b, n) \<longrightarrow>
        b \<in> dom ?bos' \<and> lv' b = n \<and> b \<notin> ran (v_handles ?v')"
      using adv' other i by (auto simp: nth_list_update)
    show "\<forall>j < length (ts[i := t']). \<forall>k < length (ts[i := t']). \<forall>b.
        owns (ts[i := t'] ! j) b \<longrightarrow> owns (ts[i := t'] ! k) b \<longrightarrow> j = k"
    proof (intro allI impI)
      fix j k b
      assume jk: "j < length (ts[i := t'])" "k < length (ts[i := t'])"
        "owns (ts[i := t'] ! j) b" "owns (ts[i := t'] ! k) b"
      have "\<not> owns t' b" if "j' < length ts" "j' \<noteq> i" "owns (ts ! j') b" for j'
        using other [OF that(1,2)] that(3) by (auto simp: owns_def)
      with jk i apart show "j = k" by (auto simp: nth_list_update split: if_splits)
    qed
    show "\<forall>b \<in> dom ?bos'. (\<forall>j < length (ts[i := t']). \<not> owns (ts[i := t'] ! j) b) \<longrightarrow>
        lv' b = 4 \<and> b \<in> ran (v_handles ?v')"
    proof (intro ballI impI)
      fix b assume b: "b \<in> dom ?bos'" "\<forall>j < length (ts[i := t']). \<not> owns (ts[i := t'] ! j) b"
      then have nt: "\<not> owns t' b" using i by fastforce
      show "lv' b = 4 \<and> b \<in> ran (v_handles ?v')"
      proof (cases "owns (ts ! i) b \<or> b \<in> B")
        case True
        with adv' b(1) nt show ?thesis by blast
      next
        case False
        then have same: "?bos' b = ?bos b" "lv' b = lv b" using keep by blast+
        have "\<not> owns (ts ! j) b" if "j < length ts" for j
          using b(2) False that by (cases "j = i") (auto simp: nth_list_update dest: spec [of _ j])
        moreover have "b \<in> dom ?bos" using b(1) same(1) by (simp add: domIff)
        ultimately have "lv b = 4 \<and> b \<in> ran (v_handles ?v)" using inv' by blast
        then obtain h where "lv b = 4" "v_handles ?v h = Some b" by (auto simp: ran_def)
        with gone nt same show ?thesis by (auto intro: ranI)
      qed
    qed
    show "held_by in_iommu (d_iommu_lock s') (ts[i := t'])"
      by (rule held_by_step [OF _ i]) (use inv' adv' in blast)+
    show "held_by in_engine (d_engine_lock s') (ts[i := t'])"
      by (rule held_by_step [OF _ i]) (use inv' adv' in blast)+
  qed
qed

end
