(* ===== verification/Drv_Inter_Step.thy ===== *)
theory Drv_Inter_Step
  imports Drv_Inter
begin

text \<open>
  Every step of a thread is defined and keeps the invariant of \<open>Drv_Inter\<close>, function by function.
\<close>

section \<open>Kinds of steps\<close>

text \<open>Nothing but references changes.\<close>

lemma advance_same:
  assumes "level_inv lo hi shift lv (d_bos s) (view (d_kern s))"
    and "same_resources (view (d_kern s)) (view (d_kern s'))" and "d_bos s' = d_bos s"
    and "thread_ok K hw shift (view (d_kern s')) (d_bos s') t'"
    and "owned t' = owned t"
    and "\<And>b n. owned t = Some (b, n) \<Longrightarrow> b \<in> dom (d_bos s) \<and> lv b = n \<and> b \<notin> ran (v_handles (view (d_kern s)))"
    and "lock_step in_iommu t t' (d_iommu_lock s) (d_iommu_lock s')"
    and "lock_step in_engine t t' (d_engine_lock s) (d_engine_lock s')"
  shows "\<exists>lv' B. advance K hw view lo hi shift lv t s lv' t' s' B"
proof (intro exI)
  have "owns t' b = owns t b" for b using assms(5) by (simp add: owns_def)
  with assms level_same [OF assms(1,2)] show "advance K hw view lo hi shift lv t s lv t' s' {}"
    unfolding advance_def Let_def same_resources_fields by (auto simp: owns_def)
qed

text \<open>The thread changes its object, or frees it.\<close>

lemma advance_own:
  assumes own: "owned t = Some (b, n)" "b \<in> dom (d_bos s)" "b \<notin> ran (v_handles (view (d_kern s)))"
    and lv: "level_inv lo hi shift (lv(b := l)) (d_bos s') (view (d_kern s'))"
    and keep: "\<And>b'. b' \<noteq> b \<Longrightarrow> d_bos s' b' = d_bos s b' \<and>
      v_gems (view (d_kern s')) b' = v_gems (view (d_kern s)) b'"
      "v_handles (view (d_kern s')) = v_handles (view (d_kern s))"
    and t': "thread_ok K hw shift (view (d_kern s')) (d_bos s') t'"
      "owned t' = Some (b, l) \<and> b \<in> dom (d_bos s') \<or> owned t' = None \<and> d_bos s' b = None"
    and locks: "lock_step in_iommu t t' (d_iommu_lock s) (d_iommu_lock s')"
      "lock_step in_engine t t' (d_engine_lock s) (d_engine_lock s')"
  shows "\<exists>lv' B. advance K hw view lo hi shift lv t s lv' t' s' B"
proof (intro exI)
  show "advance K hw view lo hi shift lv t s (lv(b := l)) t' s' {b}"
    unfolding advance_def Let_def using assms by (auto simp: owns_def)
qed

definition good :: "'k kapi \<Rightarrow> ane_hw \<Rightarrow> ('k \<Rightarrow> kview) \<Rightarrow> u64 \<Rightarrow> u64 \<Rightarrow> nat \<Rightarrow> (nat \<Rightarrow> nat) \<Rightarrow> thread \<Rightarrow> 'k drv \<Rightarrow>
    'k outcome \<Rightarrow> bool" where
  "good K hw view lo hi shift lv t s r \<longleftrightarrow> (case r of Blocked \<Rightarrow> True | Undefined \<Rightarrow> False
     | Goes t' s' l' \<Rightarrow> \<exists>lv' B. advance K hw view lo hi shift lv t s lv' t' s' B)"

lemma good_simps [simp]:
  "good K hw view lo hi shift lv t s Blocked"
  "good K hw view lo hi shift lv t s (Goes t' s' l') \<longleftrightarrow>
    (\<exists>lv' B. advance K hw view lo hi shift lv t s lv' t' s' B)"
  by (simp_all add: good_def)

text \<open>What a thread may assume of the state.\<close>

definition local_inv :: "'k kapi \<Rightarrow> ane_hw \<Rightarrow> ('k \<Rightarrow> kview) \<Rightarrow> u64 \<Rightarrow> u64 \<Rightarrow> nat \<Rightarrow> (nat \<Rightarrow> nat) \<Rightarrow> thread \<Rightarrow> 'k drv \<Rightarrow> bool" where
  "local_inv K hw view lo hi shift lv t s \<longleftrightarrow>
     level_inv lo hi shift lv (d_bos s) (view (d_kern s)) \<and>
     thread_ok K hw shift (view (d_kern s)) (d_bos s) t \<and>
     (\<forall>b n. owned t = Some (b, n) \<longrightarrow>
        b \<in> dom (d_bos s) \<and> lv b = n \<and> b \<notin> ran (v_handles (view (d_kern s)))) \<and>
     (\<forall>h b. v_handles (view (d_kern s)) h = Some b \<longrightarrow> lv b = 4) \<and>
     (in_iommu t \<longrightarrow> d_iommu_lock s) \<and> (in_engine t \<longrightarrow> d_engine_lock s)"

lemma conc_inv_local:
  assumes "conc_inv K hw view lo hi shift lv ts s" and "i < length ts"
  shows "local_inv K hw view lo hi shift lv (ts ! i) s"
proof -
  note inv = assms(1) [unfolded conc_inv_def Let_def]
  have "d_iommu_lock s" if "in_iommu (ts ! i)"
    using inv assms(2) that unfolding held_by_def by blast
  moreover have "d_engine_lock s" if "in_engine (ts ! i)"
    using inv assms(2) that unfolding held_by_def by blast
  moreover have "level_inv lo hi shift lv (d_bos s) (view (d_kern s))"
    "thread_ok K hw shift (view (d_kern s)) (d_bos s) (ts ! i)" using inv assms(2) by simp_all
  moreover have "\<forall>b n. owned (ts ! i) = Some (b, n) \<longrightarrow>
        b \<in> dom (d_bos s) \<and> lv b = n \<and> b \<notin> ran (v_handles (view (d_kern s)))"
    using inv assms(2) by simp
  moreover have "lv b = 4" if h: "v_handles (view (d_kern s)) h = Some b" for h b
  proof -
    have "b \<in> dom (d_bos s)" using inv level_named(2) h by blast
    moreover have "\<not> owns (ts ! j) b" if "j < length ts" for j
      using inv that h unfolding owns_def by (blast intro: ranI)
    ultimately show ?thesis using inv by blast
  qed
  ultimately show ?thesis unfolding local_inv_def by simp
qed

lemma npages_eq:
  fixes sz :: u64
  assumes "unat sz < 2 ^ 32"
  shows "unat (ucast (drop_bit shift sz) :: u32) = unat sz div 2 ^ shift"
proof -
  have eq: "unat (drop_bit shift sz) = unat sz div 2 ^ shift"
    unfolding unat_drop_bit_eq by (rule drop_bit_eq_div)
  moreover from this have "unat (drop_bit shift sz) < 2 ^ 32"
    using assms div_le_dividend [of "unat sz" "2 ^ shift"] by linarith
  ultimately show ?thesis by (simp add: unsigned_ucast_eq take_bit_nat_eq_self)
qed

lemma unmap_section_simps [simp]:
  "d_bos (unmap_section K shift bo n s) = d_bos s"
  "d_iommu_lock (unmap_section K shift bo n s) = d_iommu_lock s"
  "d_engine_lock (unmap_section K shift bo n s) = d_engine_lock s"
  by (simp_all add: unmap_section_def)

text \<open>Looking a handle up changes nothing a submission relies on.\<close>

lemma submit_ok_cong:
  assumes "v_handles v' = v_handles v"
  shows "submit_ok hw shift v' bos args p = submit_ok hw shift v bos args p"
proof -
  have h: "handle_bo v' = handle_bo v" by (simp add: handle_bo_def assms fun_eq_iff)
  then have "bar_valid hw shift v' = bar_valid hw shift v" "spec_bar hw v' = spec_bar hw v"
    "bars_upto v' = bars_upto v" "spec_request hw v' = spec_request hw v" "submit_valid hw shift v' = submit_valid hw shift v"
    by (simp_all add: fun_eq_iff bar_valid_def spec_bar_def handle_iova_def bars_upto_def spec_request_def
        submit_valid_def)
  then show ?thesis by (cases p) (simp_all add: bars_ok_def all_bars_ok_def assms)
qed

context drm_kernel
begin

section \<open>Unwinding\<close>

lemma unwind_step_ok:
  assumes inv: "local_inv K hw view lo hi shift lv (Unwinding p b r) s" and shift: "shift < 32"
  shows "good K hw view lo hi shift lv (Unwinding p b r) s (unwind_step K shift p b r s l)"
proof -
  let ?v = "view (d_kern s)"
  note inv' = inv [unfolded local_inv_def]
  have lv: "level_inv lo hi shift lv (d_bos s) ?v" using inv' by blast
  obtain bo where bo: "d_bos s b = Some bo" "unwind_ok bo p" using inv' by auto
  have own: "owned (Unwinding p b r) = Some (b, unwind_level p)" "b \<in> dom (d_bos s)" "lv b = unwind_level p"
    "b \<notin> ran (v_handles ?v)" using inv' by auto
  note adv = advance_own [where view = view and s = s, OF own(1,2,4)]
  show ?thesis
  proof (cases p)
    case U_Unmap
    then have l4: "lv b = 4" using own(3) by simp
    obtain n where n: "bo_mm bo = Some n" using level_invD(6) [OF lv bo(1)] l4 by auto
    have full: "full_bos lv (d_bos s) b = Some bo" using bo l4 by (simp add: full_bos_eq)
    note finv = level_invD(1) [OF lv]
    let ?s1 = "unmap_section K shift bo n (s\<lparr>d_iommu_lock := True\<rparr>)"
    have maps: "v_maps ?v = with_pages (maps_without shift bo ?v) shift (bo_iova bo) (pages_of bo) (unat (bo_npages bo))"
      "\<And>j. j < unat (bo_npages bo) \<Longrightarrow> maps_without shift bo ?v (page_iova shift (bo_iova bo) j) = None"
      using maps_without [OF finv full] by (simp_all add: maps_without_def full_view_def)
    have "view (d_kern ?s1) = ?v\<lparr>v_nodes := (v_nodes ?v)(n := None), v_maps := maps_without shift bo ?v\<rparr>"
      using unmap_up_undo [OF bo_ok_fits [OF inv_bo [OF finv full]] maps]
      by (simp add: unmap_section_def mm_remove)
    from level_remove [OF lv bo(1) l4 own(4) n this]
    have "\<exists>lv' B. advance K hw view lo hi shift lv (Unwinding U_Unmap b r) s lv'
        (Unwinding (U_Unmapped n) b r) ?s1 B" if "\<not> d_iommu_lock s"
      by (intro adv [unfolded U_Unmap])
        (use that bo n in \<open>auto simp: unmap_section_def mm_remove unmap_up_view lock_step_def\<close>)
    with U_Unmap bo n shift show ?thesis by (simp add: with_bo_def after_lock_def)
  next
    case (U_Unmapped n)
    then have "\<exists>lv' B. advance K hw view lo hi shift lv (Unwinding (U_Unmapped n) b r) s lv'
        (Unwinding (U_Node_Free n) b r) (s\<lparr>d_iommu_lock := False\<rparr>) B"
      by (intro adv [unfolded U_Unmapped])
        (use own lv bo in \<open>auto simp: fun_upd_idem lock_step_def\<close>)
    with U_Unmapped inv' show ?thesis by (simp add: goes_def unlock_iommu_def)
  next
    case (U_Node_Free n)
    then have n: "bo_mm bo = Some n" "lv b = 3" using bo own by auto
    then have "n \<in> v_blocks ?v" using level_invD(6) [OF lv bo(1)] by auto
    from kfree_view [OF this] obtain s1 where s1: "drv_kfree K n s = Some s1" "d_bos s1 = d_bos s"
      "d_iommu_lock s1 = d_iommu_lock s" "d_engine_lock s1 = d_engine_lock s"
      "view (d_kern s1) = ?v\<lparr>v_blocks := v_blocks ?v - {n}\<rparr>" by blast
    have "\<exists>lv' B. advance K hw view lo hi shift lv (Unwinding (U_Node_Free n) b r) s lv'
        (Unwinding U_Flush b r) s1 B"
      by (rule adv [unfolded U_Node_Free])
        (use level_node_free [OF lv bo(1) n(2,1) refl] s1 bo in \<open>auto simp: lock_step_def\<close>)
    with U_Node_Free s1 show ?thesis by (simp add: goes_def)
  next
    case U_Flush
    then have "\<exists>lv' B. advance K hw view lo hi shift lv (Unwinding U_Flush b r) s lv'
        (Unwinding U_Flushed b r) (put_kern (k_flush_iotlb K (d_kern s)) (s\<lparr>d_iommu_lock := True\<rparr>)) B"
      if "\<not> d_iommu_lock s"
      by (intro adv [unfolded U_Flush])
        (use own lv bo that in \<open>auto simp: fun_upd_idem lock_step_def flush\<close>)
    with U_Flush show ?thesis by (simp add: after_lock_def)
  next
    case U_Flushed
    then have "\<exists>lv' B. advance K hw view lo hi shift lv (Unwinding U_Flushed b r) s lv'
        (Unwinding U_Pages b r) (s\<lparr>d_iommu_lock := False\<rparr>) B"
      by (intro adv [unfolded U_Flushed])
        (use own lv bo in \<open>auto simp: fun_upd_idem lock_step_def\<close>)
    with U_Flushed inv' show ?thesis by (simp add: goes_def unlock_iommu_def)
  next
    case U_Pages
    then have "lv b = 2" using own by simp
    from level_unpin [OF lv bo(1) this refl]
    have "\<exists>lv' B. advance K hw view lo hi shift lv (Unwinding U_Pages b r) s lv'
        (Unwinding U_Release b r) (put_kern (k_put_pages K b (d_kern s)) s) B"
      by (intro adv [unfolded U_Pages]) (use bo in \<open>auto simp: put_pages lock_step_def\<close>)
    with U_Pages bo show ?thesis by (simp add: with_bo_def)
  next
    case U_Release
    then have "lv b = 1" using own by simp
    from level_release [OF lv bo(1) this refl]
    have "\<exists>lv' B. advance K hw view lo hi shift lv (Unwinding U_Release b r) s lv'
        (Unwinding U_Free b r) (put_kern (k_gem_release K b (d_kern s)) s) B"
      by (intro adv [unfolded U_Release]) (use bo in \<open>auto simp: gem_release lock_step_def\<close>)
    with U_Release bo show ?thesis by (simp add: with_bo_def)
  next
    case U_Free
    then have l0: "lv b = 0" using own by simp
    have "b \<in> v_blocks ?v" using level_invD(2) [OF lv] own(2) by blast
    from free_bo_view [OF this] obtain s1 where s1: "free_bo K b s = Some s1" "d_bos s1 = (d_bos s)(b := None)"
      "same_locks s s1" "view (d_kern s1) = ?v\<lparr>v_blocks := v_blocks ?v - {b}\<rparr>" by blast
    have "\<exists>lv' B. advance K hw view lo hi shift lv (Unwinding U_Free b r) s lv' (Returned r) s1 B"
      by (rule adv [unfolded U_Free, where l = "lv b"])
        (use level_free [OF lv bo(1) l0 refl] s1 in \<open>auto simp: lock_step_def same_locks_def\<close>)
    with U_Free s1 show ?thesis by (simp add: goes_def)
  qed
qed

section \<open>Creating an object\<close>

lemma insert_section_ok:
  assumes bo: "d_bos s b = Some bo" and size: "sized shift bo" and shift: "shift < 32"
    and res: "maps_reserved (view (d_kern s))" and node: "v_nodes (view (d_kern s)) n = None"
  shows "\<exists>e s1 iova. insert_section K shift b bo n s = Some (e, s1) \<and>
    d_iommu_lock s1 = d_iommu_lock s \<and> d_engine_lock s1 = d_engine_lock s \<and>
    d_bos s1 = (d_bos s)(b \<mapsto> bo\<lparr>bo_iova := iova\<rparr>) \<and>
    (let v = view (d_kern s); bytes = ucast (bo_bytes shift (bo_npages bo)) in
     if e < 0 then view (d_kern s1) = v
     else e = 0 \<and> placement_ok lo hi v iova bytes (page_bytes shift) \<and>
       view (d_kern s1) = v\<lparr>v_nodes := (v_nodes v)(n \<mapsto> (iova, bytes)),
         v_maps := with_pages (v_maps v) shift iova (pages_of bo) (unat (bo_npages bo))\<rparr>)"
proof -
  let ?v = "view (d_kern s)" and ?bytes = "ucast (bo_bytes shift (bo_npages bo)) :: u64"
  obtain e iova k1 where ins: "k_mm_insert K n ?bytes (page_bytes shift) (d_kern s) = ((e, iova), k1)"
    by (metis prod.exhaust)
  note law = mm_insert [OF ins]
  have same: "d_bos s = (d_bos s)(b \<mapsto> bo\<lparr>bo_iova := bo_iova bo\<rparr>)" using bo by auto
  show ?thesis
  proof (cases "e < 0")
    case True
    with law ins shift same show ?thesis
      by (intro exI [of _ e] exI [of _ "put_kern k1 s"] exI [of _ "bo_iova bo"])
        (simp add: insert_section_def)
  next
    case False
    then have place: "placement_ok lo hi ?v iova ?bytes (page_bytes shift)"
      and v1: "view k1 = ?v\<lparr>v_nodes := (v_nodes ?v)(n \<mapsto> (iova, ?bytes))\<rparr>"
      using law by auto
    note free = placement_free [OF place _ res]
    obtain e2 k2 where loop: "map_loop K shift iova (pages_of bo) 0 (unat (bo_npages bo)) k1 = Some (e2, k2)"
      "if e2 < 0 then view k2 = (view k1)\<lparr>v_maps := v_maps ?v\<rparr>
       else e2 = 0 \<and> view k2 = (view k1)\<lparr>v_maps := with_pages (v_maps ?v) shift iova (pages_of bo)
          (unat (bo_npages bo))\<rparr>"
      using map_loop_view [OF free(1), of 0 "unat (bo_npages bo)" "pages_of bo" k1 "v_maps ?v"]
        size free(2) v1 by (auto simp: sized_def)
    let ?s1 = "put_bo b (bo\<lparr>bo_iova := iova\<rparr>) (put_kern k1 s)"
    show ?thesis
    proof (cases "e2 < 0")
      case True
      with False loop ins shift v1 node show ?thesis
        by (intro exI [of _ e2] exI [of _ "put_kern (k_mm_remove K n k2) ?s1"] exI [of _ iova])
          (simp add: insert_section_def mm_remove fun_upd_idem)
    next
      case ok: False
      with False loop ins shift v1 place show ?thesis
        by (intro exI [of _ 0] exI [of _ "put_kern k2 ?s1"] exI [of _ iova]) (simp add: insert_section_def)
    qed
  qed
qed

lemma init_step_ok:
  assumes inv: "local_inv K hw view lo hi shift lv (Initing p b args) s"
    and shift: "shift < 32" "k_page_shift K = shift"
  shows "good K hw view lo hi shift lv (Initing p b args) s (init_step K shift p b args s l)"
proof -
  let ?v = "view (d_kern s)" and ?sz = "round_up (i_size args) (page_size K)"
  note inv' = inv [unfolded local_inv_def]
  have lv: "level_inv lo hi shift lv (d_bos s) ?v" using inv' by blast
  obtain bo where bo: "d_bos s b = Some bo" "init_ok K ?v bo b args p" and size: "unat ?sz < 2 ^ 32"
    using inv' by auto
  have own: "b \<in> dom (d_bos s)" "lv b = n" "b \<notin> ran (v_handles ?v)"
    if "owned (Initing p b args) = Some (b, n)" for n using inv' that by auto
  note adv = advance_own [where view = view and s = s and b = b and t = "Initing p b args"]
  show ?thesis
  proof (cases p)
    case I_Gem
    obtain e k1 where g: "k_gem_init K b ?sz (d_kern s) = (e, k1)" by fastforce
    note law = gem_init [OF g]
    have l0: "lv b = 0" using own(2) I_Gem by simp
    show ?thesis
    proof (cases "e < 0")
      case True
      then have "\<exists>lv' B. advance K hw view lo hi shift lv (Initing I_Gem b args) s lv'
          (Unwinding U_Free b (Result e)) (put_kern k1 s) B"
        by (intro adv [unfolded I_Gem, where n = 0])
          (use own(3) bo law lv l0 in \<open>auto simp: fun_upd_idem lock_step_def I_Gem\<close>)
      with I_Gem bo g True show ?thesis by (simp add: with_bo_def)
    next
      case False
      then have v1: "view k1 = ?v\<lparr>v_gems := (v_gems ?v)(b \<mapsto> ?sz), v_refs := (v_refs ?v)(b := 1)\<rparr>"
        using law by simp
      from level_gem [OF lv bo(1) l0 this]
      have "\<exists>lv' B. advance K hw view lo hi shift lv (Initing I_Gem b args) s lv'
          (Initing I_Offset b args) (put_kern k1 s) B"
        by (intro adv [unfolded I_Gem, where n = 0]) (use own(3) bo v1 size in \<open>auto simp: lock_step_def I_Gem\<close>)
      with I_Gem bo g False show ?thesis by (simp add: with_bo_def)
    qed
  next
    case I_Offset
    obtain e off k1 where o: "k_mmap_offset K b (d_kern s) = ((e, off), k1)" by (metis prod.exhaust)
    have v1: "view k1 = ?v" using mmap_offset [of b "d_kern s"] o by simp
    have l1: "lv b = 1" using own(2) I_Offset by simp
    have "\<exists>lv' B. advance K hw view lo hi shift lv (Initing I_Offset b args) s lv' t (put_kern k1 s) B"
      if "t = Unwinding U_Release b (Result e) \<or> t = Initing I_Pages b (args\<lparr>i_offset := off\<rparr>)" for t
      by (intro adv [unfolded I_Offset, where n = 1])
        (use own(3) that bo v1 lv l1 size in \<open>auto simp: fun_upd_idem lock_step_def I_Offset\<close>)
    with I_Offset bo o show ?thesis by (simp add: with_bo_def)
  next
    case I_Pages
    obtain r k1 where g: "k_get_pages K b (d_kern s) = (r, k1)" by fastforce
    note law = get_pages [OF g]
    have l1: "lv b = 1" using own(2) I_Pages by simp
    show ?thesis
    proof (cases r)
      case (Inl e)
      then have "\<exists>lv' B. advance K hw view lo hi shift lv (Initing I_Pages b args) s lv'
          (Unwinding U_Release b (init_reply e args)) (put_kern k1 s) B"
        by (intro adv [unfolded I_Pages, where n = 1])
          (use own(3) bo law lv l1 in \<open>auto simp: fun_upd_idem lock_step_def I_Pages\<close>)
      with I_Pages bo g Inl show ?thesis by (simp add: with_bo_def)
    next
      case (Inr ps)
      have gem: "v_gems ?v b = Some ?sz" "bo_mm bo = None" using bo(2) I_Pages by auto
      then have len: "length ps = unat ?sz div 2 ^ shift"
        and v1: "view k1 = ?v\<lparr>v_pinned := insert b (v_pinned ?v)\<rparr>"
        using law Inr shift(2) by auto
      let ?bo = "bo\<lparr>bo_npages := ucast (drop_bit (k_page_shift K) ?sz), bo_pages := Some ps\<rparr>"
      have np: "unat (bo_npages ?bo) = unat ?sz div 2 ^ shift"
        unfolding shift(2) by (simp, rule npages_eq [OF size])
      have "unat (bo_npages ?bo) * 2 ^ shift < 2 ^ 32"
        unfolding np by (rule le_less_trans [OF _ size]) simp
      then have "sized shift ?bo" using np len by (simp add: sized_def pages_of_def)
      from level_pages [OF lv bo(1) l1 this v1]
      have "\<exists>lv' B. advance K hw view lo hi shift lv (Initing I_Pages b args) s lv'
          (Initing I_Map b args) (put_bo b ?bo (put_kern k1 s)) B"
        by (intro adv [unfolded I_Pages, where n = 1]) (use own(3) bo v1 size gem in \<open>auto simp: lock_step_def I_Pages\<close>)
      with I_Pages bo g Inr show ?thesis by (simp add: with_bo_def)
    qed
  next
    case I_Map
    obtain q k1 where z: "k_kzalloc K (d_kern s) = (q, k1)" by fastforce
    note law = kzalloc [OF z]
    have l2: "lv b = 2" using own(2) I_Map by simp
    have mm: "bo_mm bo = None" using bo(2) I_Map by simp
    show ?thesis
    proof (cases q)
      case None
      then have "\<exists>lv' B. advance K hw view lo hi shift lv (Initing I_Map b args) s lv'
          (Unwinding U_Pages b (Result (- ENOMEM))) (put_kern k1 s) B"
        by (intro adv [unfolded I_Map, where n = 2])
          (use own(3) bo law lv l2 in \<open>auto simp: fun_upd_idem lock_step_def I_Map\<close>)
      with I_Map bo z None mm show ?thesis by (simp add: with_bo_def)
    next
      case (Some n)
      then have n: "n \<notin> v_blocks ?v" "view k1 = ?v\<lparr>v_blocks := insert n (v_blocks ?v)\<rparr>" using law by auto
      from level_node [OF lv bo(1) l2 this]
      have "\<exists>lv' B. advance K hw view lo hi shift lv (Initing I_Map b args) s lv'
          (Initing (I_Insert n) b args) (put_bo b (bo\<lparr>bo_mm := Some n\<rparr>) (put_kern k1 s)) B"
        by (intro adv [unfolded I_Map, where n = 2]) (use own(3) bo n size in \<open>auto simp: lock_step_def I_Map\<close>)
      with I_Map bo z Some mm show ?thesis by (simp add: with_bo_def)
    qed
  next
    case (I_Insert n)
    have l3: "lv b = 3" using own(2) I_Insert by simp
    have n: "bo_mm bo = Some n" using bo(2) I_Insert by simp
    have node: "v_nodes ?v n = None"
    proof (rule ccontr)
      assume "v_nodes ?v n \<noteq> None"
      then obtain b' bo' where b': "d_bos s b' = Some bo'" "4 \<le> lv b'" "bo_mm bo' = Some n"
        using level_reserved(2) [OF lv] by blast
      then have "b' = b" using level_invD(7) [OF lv b'(1) bo(1)] l3 n by simp
      with b' l3 show False by simp
    qed
    have sz: "sized shift bo" using level_invD(5) [OF lv bo(1)] l3 by simp
    let ?s1 = "s\<lparr>d_iommu_lock := True\<rparr>" and ?bytes = "ucast (bo_bytes shift (bo_npages bo)) :: u64"
    obtain e s2 iova where s2: "insert_section K shift b bo n ?s1 = Some (e, s2)"
      "d_iommu_lock s2" "d_engine_lock s2 = d_engine_lock s" "d_bos s2 = (d_bos s)(b \<mapsto> bo\<lparr>bo_iova := iova\<rparr>)"
      "if e < 0 then view (d_kern s2) = ?v
       else e = 0 \<and> placement_ok lo hi ?v iova ?bytes (page_bytes shift) \<and>
         view (d_kern s2) = ?v\<lparr>v_nodes := (v_nodes ?v)(n \<mapsto> (iova, ?bytes)),
           v_maps := with_pages (v_maps ?v) shift iova (pages_of bo) (unat (bo_npages bo))\<rparr>"
      using insert_section_ok [of ?s1 b bo shift n] bo(1) sz shift(1) level_reserved(1) [OF lv] node
      by (auto simp: Let_def)
    have unnamed: "b \<notin> ran (v_handles ?v)" using own(3) I_Insert by simp
    have "\<exists>lv' B. advance K hw view lo hi shift lv (Initing (I_Insert n) b args) s lv'
        (Initing (I_Unlock n e) b args) s2 B" if lock: "\<not> d_iommu_lock s"
    proof (cases "e < 0")
      case True
      with level_iova [OF lv bo(1) l3, of iova] show ?thesis
        by (intro adv [unfolded I_Insert, where n = 3])
          (use own(3) bo s2 size l3 n lock in \<open>auto simp: lock_step_def fun_upd_idem I_Insert\<close>)
    next
      case False
      then have "placement_ok lo hi ?v iova ?bytes (page_bytes shift)"
        and v2: "view (d_kern s2) = ?v\<lparr>v_nodes := (v_nodes ?v)(n \<mapsto> (iova, ?bytes)),
           v_maps := with_pages (v_maps ?v) shift iova (pages_of bo) (unat (bo_npages bo))\<rparr>"
        using s2(5) by auto
      from level_insert [OF lv bo(1) l3 unnamed n this] False show ?thesis
        by (intro adv [unfolded I_Insert, where n = 3])
          (use own(3) bo s2 size n v2 lock in \<open>auto simp: lock_step_def I_Insert\<close>)
    qed
    with I_Insert bo s2 show ?thesis by (simp add: with_bo_def after_lock_def)
  next
    case (I_Unlock n e)
    have "\<exists>lv' B. advance K hw view lo hi shift lv (Initing (I_Unlock n e) b args) s lv'
        (Initing (if e < 0 then I_Node_Free n e else I_Handle) b args) (s\<lparr>d_iommu_lock := False\<rparr>) B"
      by (intro adv [unfolded I_Unlock, where n = "lv b" and l = "lv b"])
        (use own lv bo size I_Unlock in \<open>auto simp: fun_upd_idem lock_step_def\<close>)
    with I_Unlock inv' show ?thesis by (simp add: goes_def unlock_iommu_def)
  next
    case (I_Node_Free n e)
    then have n: "bo_mm bo = Some n" "lv b = 3" using bo own(2) by auto
    then have "n \<in> v_blocks ?v" using level_invD(6) [OF lv bo(1)] by auto
    from kfree_view [OF this] obtain s1 where s1: "drv_kfree K n s = Some s1" "d_bos s1 = d_bos s"
      "d_iommu_lock s1 = d_iommu_lock s" "d_engine_lock s1 = d_engine_lock s"
      "view (d_kern s1) = ?v\<lparr>v_blocks := v_blocks ?v - {n}\<rparr>" by blast
    have "\<exists>lv' B. advance K hw view lo hi shift lv (Initing (I_Node_Free n e) b args) s lv'
        (Unwinding U_Pages b (Result e)) s1 B"
      by (intro adv [unfolded I_Node_Free, where n = 3])
        (use own(3) level_node_free [OF lv bo(1) n(2,1) refl] s1 bo I_Node_Free in \<open>auto simp: lock_step_def\<close>)
    with I_Node_Free s1 show ?thesis by (simp add: goes_def)
  next
    case I_Handle
    obtain e h k1 where c: "k_handle_create K b (d_kern s) = ((e, h), k1)" by (metis prod.exhaust)
    note law = handle_create [OF c]
    have l4: "lv b = 4" and unnamed: "b \<notin> ran (v_handles ?v)" using own(2,3) I_Handle by simp_all
    show ?thesis
    proof (cases "e < 0")
      case True
      then have "\<exists>lv' B. advance K hw view lo hi shift lv (Initing I_Handle b args) s lv'
          (Initing (I_Put e) b args) (put_kern k1 s) B"
        by (intro adv [unfolded I_Handle, where n = 4])
          (use own(3) bo law lv l4 size in \<open>auto simp: fun_upd_idem lock_step_def I_Handle\<close>)
      with I_Handle bo c True show ?thesis by (simp add: with_bo_def)
    next
      case False
      then have h: "v_handles ?v h = None"
        and v1: "view k1 = ?v\<lparr>v_handles := (v_handles ?v)(h \<mapsto> b), v_refs := (v_refs ?v)(b := v_refs ?v b + 1)\<rparr>"
        using law by auto
      have "advance K hw view lo hi shift lv (Initing I_Handle b args) s lv
          (Initing (I_Put e) b (args\<lparr>i_handle := h\<rparr>)) (put_kern k1 s) {}"
        using level_name [OF lv bo(1) l4 unnamed v1 h] False bo size v1 h l4
        unfolding advance_def Let_def by (auto simp: owns_def lock_step_def ran_def)
      with I_Handle bo c False show ?thesis by (auto simp: with_bo_def)
    qed
  next
    case (I_Put e)
    show ?thesis
    proof (cases "e < 0")
      case True
      have "\<exists>lv' B. advance K hw view lo hi shift lv (Initing (I_Put e) b args) s lv'
          (Unwinding U_Unmap b (Result e)) (put_kern (k_gem_put K b (d_kern s)) s) B"
        by (intro adv [unfolded I_Put, where n = 4])
          (use own True bo I_Put level_same [OF lv] in
            \<open>auto simp: fun_upd_idem lock_step_def gem_put same_resources_fields\<close>)
      with I_Put bo True show ?thesis by (simp add: with_bo_def)
    next
      case False
      have "\<exists>lv' B. advance K hw view lo hi shift lv (Initing (I_Put e) b args) s lv'
          (Returned (New_Bo args)) (put_kern (k_gem_put K b (d_kern s)) s) B"
        by (rule advance_same [where view = view and s = s, OF lv])
          (use False in \<open>auto simp: gem_put same_resources_fields lock_step_def\<close>)
      with I_Put bo False show ?thesis by (simp add: with_bo_def)
    qed
  qed
qed

section \<open>Beginning, freeing and submitting\<close>

lemma begin_step_ok:
  assumes inv: "local_inv K hw view lo hi shift lv (Begun c) s" and cfg: "cfg_ok K hw push shift"
  shows "good K hw view lo hi shift lv (Begun c) s (begin_step K hw c s l)"
proof -
  let ?v = "view (d_kern s)"
  note inv' = inv [unfolded local_inv_def]
  have lv: "level_inv lo hi shift lv (d_bos s) ?v" and ok: "call_ok K c" using inv' by auto
  have same: "\<exists>lv' B. advance K hw view lo hi shift lv (Begun c) s lv' t s' B"
    if "same_resources ?v (view (d_kern s'))" "d_bos s' = d_bos s"
      "thread_ok K hw shift (view (d_kern s')) (d_bos s') t" "owned t = None"
      "lock_step in_iommu (Begun c) t (d_iommu_lock s) (d_iommu_lock s')"
      "lock_step in_engine (Begun c) t (d_engine_lock s) (d_engine_lock s')" for t s'
    by (rule advance_same [where view = view and s = s, OF lv that(1-3) _ _ that(5,6)]) (use that(4) in simp_all)
  have same_refl: "same_resources v v" for v by (simp add: same_resources_fields)
  show ?thesis
  proof (cases c)
    case Info
    with same [of s] show ?thesis by (simp add: lock_step_def)
  next
    case (Bo_Init args)
    obtain q k1 where z: "k_kzalloc K (d_kern s) = (q, k1)" by fastforce
    note law = kzalloc [OF z]
    show ?thesis
    proof (cases "i_pad args \<noteq> 0 \<or> q = None")
      case True
      with Bo_Init z law same [of s] same [of "put_kern k1 s"] show ?thesis
        by (cases q) (auto simp: lock_step_def)
    next
      case False
      then obtain b where b: "q = Some b" "b \<notin> v_blocks ?v"
        "view k1 = ?v\<lparr>v_blocks := insert b (v_blocks ?v)\<rparr>" using law by auto
      have nb: "b \<notin> dom (d_bos s)" using level_invD(2) [OF lv] b(2) by blast
      then have "b \<notin> ran (v_handles ?v)" using level_named(2) [OF lv] by (auto simp: ran_def)
      moreover have "unat (round_up (i_size args) (page_size K)) < 2 ^ 32"
        using ok Bo_Init by (simp add: call_ok_def)
      moreover have "v_gems ?v b = None" using level_invD(3) [OF lv] nb by auto
      ultimately have "advance K hw view lo hi shift lv (Begun c) s (lv(b := 0)) (Initing I_Gem b args)
          (put_bo b new_bo (put_kern k1 s)) {b}"
        using level_new [OF lv b(2)] b nb Bo_Init unfolding advance_def Let_def
        by (auto simp: owns_def lock_step_def new_bo_def)
      with Bo_Init z b False show ?thesis by auto
    qed
  next
    case (Bo_Free h pad)
    obtain q k1 where f: "k_lookup K h (d_kern s) = (q, k1)" by fastforce
    note law = lookup [OF f]
    have r: "same_resources ?v (view k1)" using law by (auto simp: same_resources_fields split: option.splits)
    then have h: "v_handles (view k1) = v_handles ?v" by (simp add: same_resources_fields)
    have "\<exists>lv' B. advance K hw view lo hi shift lv (Begun c) s lv' t (put_kern k1 s) B"
      if "t = Returned (Result (- EINVAL)) \<or> (\<exists>b. t = Freeing h b \<and> q = Some b)" for t
      by (rule same) (use that r h law in \<open>auto simp: lock_step_def\<close>)
    with Bo_Free f show ?thesis by (cases q) auto
  next
    case (Submit args)
    have "bars_ok hw shift ?v (d_bos s) args 0 (replicate ANE_MAX_TILE_COUNT 0)"
      by (simp add: bars_ok_def bars_upto_0)
    with Submit same [of s] ok show ?thesis by (auto simp: lock_step_def call_ok_def same_refl)
  next
    case Suspend
    with same [of "put_kern (k_flush_iotlb K (d_kern s)) (s\<lparr>d_iommu_lock := True\<rparr>)" Suspending] show ?thesis
      by (auto simp: lock_step_def flush after_lock_def)
  next
    case Resume
    obtain l1 where "hw_tm_enable hw l = Some l1" using cfg by (auto simp: cfg_ok_def enable_ok_def)
    with Resume same [of s "Returned (Result 0)"] show ?thesis by (simp add: lock_step_def)
  qed
qed

lemma delete_step_ok:
  assumes inv: "local_inv K hw view lo hi shift lv (Freeing h b) s"
  shows "good K hw view lo hi shift lv (Freeing h b) s (delete_step K h b s l)"
proof -
  let ?v = "view (d_kern s)" and ?k1 = "k_handle_delete K h (d_kern s)"
  note inv' = inv [unfolded local_inv_def]
  have lv: "level_inv lo hi shift lv (d_bos s) ?v" and h: "v_handles ?v h = Some b" using inv' by auto
  have v1: "view ?k1 = ?v\<lparr>v_handles := (v_handles ?v)(h := None), v_refs := (v_refs ?v)(b := v_refs ?v b - 1)\<rparr>"
    by (rule handle_delete [OF h])
  have b: "4 \<le> lv b" "b \<in> dom (d_bos s)" "\<And>h'. v_handles ?v h' = Some b \<Longrightarrow> h' = h"
    using level_named(1,2) [OF lv h] level_named(4) [OF lv h] by auto
  then obtain bo where bo: "d_bos s b = Some bo" by auto
  have l4: "lv b = 4" using inv' h by blast
  have gone: "b \<notin> ran (v_handles (view ?k1))" using b(3) by (auto simp: v1 ran_def)
  have "advance K hw view lo hi shift lv (Freeing h b) s lv
      (Unwinding U_Unmap b (Result 0)) (put_kern ?k1 s) {}"
    unfolding advance_def Let_def
  proof (intro conjI)
    show "level_inv lo hi shift lv (d_bos (put_kern ?k1 s)) (view (d_kern (put_kern ?k1 s)))"
      using level_unname [OF lv v1] by simp
    show "\<forall>h' b'. v_handles ?v h' = Some b' \<longrightarrow> v_handles (view (d_kern (put_kern ?k1 s))) h' = Some b' \<or>
        Freeing h b = Freeing h' b' \<and> owns (Unwinding U_Unmap b (Result 0)) b'"
      using h by (auto simp: v1 owns_def)
  qed (use bo l4 gone h in \<open>auto simp: owns_def lock_step_def v1 ran_def split: if_splits\<close>)
  then show ?thesis by (auto simp: delete_step_def)
qed

lemma submit_step_ok:
  assumes inv: "local_inv K hw view lo hi shift lv (Submitting p args) s" and cfg: "cfg_ok K hw push shift"
  shows "good K hw view lo hi shift lv (Submitting p args) s (submit_step K hw shift p args s l)"
proof -
  let ?v = "view (d_kern s)" and ?n = "unat (hw_bar_count hw)"
  note inv' = inv [unfolded local_inv_def]
  have lv: "level_inv lo hi shift lv (d_bos s) ?v" and shape: "args_shape args"
    and ref: "\<not> submit_refused args" and ok: "submit_ok hw shift ?v (d_bos s) args p" using inv' by auto
  have n: "0 < ?n" "?n \<le> ANE_MAX_TILE_COUNT" and hw: "hw_ok hw push" and shift: "shift < 32"
    using cfg by (simp_all add: cfg_ok_def hw_ok_def)
  have backend: "tm_backend ?n push (hw_tm_enqueue hw) (hw_tm_execute hw)" using hw by (simp add: hw_ok_def)
  have same: "\<exists>lv' B. advance K hw view lo hi shift lv (Submitting p args) s lv' t s' B"
    if "same_resources ?v (view (d_kern s'))" "d_bos s' = d_bos s"
      "(\<exists>r. t = Returned r) \<or> (\<exists>q. t = Submitting q args \<and> submit_ok hw shift ?v (d_bos s) args q)"
      "d_iommu_lock s' = d_iommu_lock s"
      "lock_step in_engine (Submitting p args) t (d_engine_lock s) (d_engine_lock s')" for t s'
  proof -
    have "v_handles (view (d_kern s')) = v_handles ?v" using that(1) by (simp add: same_resources_fields)
    from submit_ok_cong [OF this] that shape ref
    have "thread_ok K hw shift (view (d_kern s')) (d_bos s') t" by auto
    moreover have "owned t = owned (Submitting p args)" "lock_step in_iommu (Submitting p args) t (d_iommu_lock s) (d_iommu_lock s')"
      using that(3,4) by (auto simp: lock_step_def)
    ultimately show ?thesis
      by (intro advance_same [OF lv that(1,2)]) (use that(5) in simp_all)
  qed
  have same_refl: "same_resources v v" for v by (simp add: same_resources_fields)
  have look: "\<exists>k1. k_lookup K h (d_kern s) = (v_handles ?v h, k1) \<and> same_resources ?v (view k1)" for h
  proof -
    obtain q k1 where "k_lookup K h (d_kern s) = (q, k1)" by fastforce
    with lookup [OF this] show ?thesis by (auto simp: same_resources_fields split: option.splits)
  qed
  have named: "\<exists>bo. d_bos s b = Some bo \<and> handle_bo ?v (d_bos s) h = Some bo \<and>
      bo_ok lo hi shift (full_view (full_bos lv (d_bos s)) ?v) bo" if "v_handles ?v h = Some b" for h b
    using level_named(2,3) [OF lv that] that by (auto simp: handle_bo_def)
  show ?thesis
  proof (cases p)
    case (S_Bar bdx bars)
    then have bdx: "bdx \<le> ?n" and bars: "bars_ok hw shift ?v (d_bos s) args bdx bars" using ok by auto
    have upto: "bars = bars_upto ?v (d_bos s) args bdx" using bars by (simp add: bars_ok_def)
    consider (finished) "bdx = ?n" | (zero) "bdx < ?n" "s_handles args ! bdx = 0"
      | (used) "bdx < ?n" "s_handles args ! bdx \<noteq> 0" using bdx by linarith
    then show ?thesis
    proof cases
      case finished
      then have "all_bars_ok hw shift ?v (d_bos s) args
          (bars[KRN_BUF_BDX := bars ! CMD_BUF_BDX + round_up (s_tsk_size args) ANE_CMD_GRAN])"
        unfolding all_bars_ok_def upto using final_bars [OF n(2,1), of ?v "d_bos s" args] bars
        by (simp add: bars_ok_def)
      with S_Bar finished same [of s "Submitting (S_Btsp _) args"] same_refl show ?thesis
        by (auto simp: lock_step_def)
    next
      case zero
      then have "bars_ok hw shift ?v (d_bos s) args (Suc bdx) bars"
        using bars bars_upto_skip [of bdx args ?v "d_bos s"] n(2)
        by (auto simp: bars_ok_def less_Suc_eq bar_valid_def)
      with S_Bar zero same [of s "Submitting (S_Bar (Suc bdx) bars) args"] same_refl shape n(2) upto show ?thesis
        by (auto simp: lock_step_def args_shape_def)
    next
      case used
      let ?h = "s_handles args ! bdx"
      obtain k1 where k1: "k_lookup K ?h (d_kern s) = (v_handles ?v ?h, k1)" "same_resources ?v (view k1)"
        using look by blast
      have "\<exists>lv' B. advance K hw view lo hi shift lv (Submitting p args) s lv' t (put_kern k1 s) B"
        if "(\<exists>r. t = Returned r) \<or> (\<exists>b. v_handles ?v ?h = Some b \<and> t = Submitting (S_Bar_Use bdx bars b) args)" for t
        by (rule same) (use that k1 bars used S_Bar in \<open>auto simp: lock_step_def\<close>)
      moreover have "bdx < length (s_handles args)" "bdx < length bars" "bdx \<noteq> ?n"
        using used shape n(2) upto by (simp_all add: args_shape_def)
      ultimately show ?thesis
        using used k1(1) S_Bar by (cases "v_handles ?v ?h") auto
    qed
  next
    case (S_Bar_Use bdx bars b)
    then have bdx: "bdx < ?n" and bars: "bars_ok hw shift ?v (d_bos s) args bdx bars"
      and h: "s_handles args ! bdx \<noteq> 0" "v_handles ?v (s_handles args ! bdx) = Some b" using ok by auto
    obtain bo where bo: "d_bos s b = Some bo" "handle_bo ?v (d_bos s) (s_handles args ! bdx) = Some bo"
      "bo_ok lo hi shift (full_view (full_bos lv (d_bos s)) ?v) bo" using named [OF h(2)] by blast
    have ret: "\<exists>lv' B. advance K hw view lo hi shift lv (Submitting p args) s lv' (Returned r) s B" for r
      by (rule same) (use S_Bar_Use same_refl in \<open>auto simp: lock_step_def\<close>)
    have go: "\<exists>lv' B. advance K hw view lo hi shift lv (Submitting p args) s lv'
        (Submitting (S_Bar (Suc bdx) (bars[bdx := bo_iova bo])) args) s B"
      if "bo_iova bo \<noteq> 0" "\<not> iova_too_high hw (bo_iova bo)"
        "\<not> (bdx = CMD_BUF_BDX \<and> ucast (bo_bytes shift (bo_npages bo)) \<le> s_tsk_size args)"
    proof (rule same)
      have "bar_valid hw shift ?v (d_bos s) args bdx"
        using that bo(2) h(1) tsk_size_check [OF bo(3), of "s_tsk_size args"] by (auto simp: bar_valid_def)
      then have "bars_ok hw shift ?v (d_bos s) args (Suc bdx) (bars[bdx := bo_iova bo])"
        using bars bars_upto_Suc [of bdx ?v "d_bos s" args] bdx n(2) bo(2) h(1)
        by (auto simp: bars_ok_def less_Suc_eq handle_iova_def)
      with bdx show "(\<exists>r. Submitting (S_Bar (Suc bdx) (bars[bdx := bo_iova bo])) args = Returned r) \<or>
        (\<exists>q. Submitting (S_Bar (Suc bdx) (bars[bdx := bo_iova bo])) args = Submitting q args \<and>
          submit_ok hw shift ?v (d_bos s) args q)" by simp
    qed (use S_Bar_Use same_refl in \<open>auto simp: lock_step_def\<close>)
    show ?thesis
      using S_Bar_Use bo(1) shift ret go by (auto simp: with_bo_def)
  next
    case (S_Btsp bars)
    then have bars: "all_bars_ok hw shift ?v (d_bos s) args bars" using ok by simp
    let ?h = "s_btsp_handle args"
    obtain k1 where k1: "k_lookup K ?h (d_kern s) = (v_handles ?v ?h, k1)" "same_resources ?v (view k1)"
      using look by blast
    have "\<exists>lv' B. advance K hw view lo hi shift lv (Submitting p args) s lv' t (put_kern k1 s) B"
      if "(\<exists>r. t = Returned r) \<or> (\<exists>b. v_handles ?v ?h = Some b \<and> t = Submitting (S_Btsp_Use bars b) args)" for t
      by (rule same) (use that k1 bars S_Btsp in \<open>auto simp: lock_step_def\<close>)
    then show ?thesis using k1(1) S_Btsp by (cases "v_handles ?v ?h") auto
  next
    case (S_Btsp_Use bars b)
    then have bars: "all_bars_ok hw shift ?v (d_bos s) args bars"
      and h: "v_handles ?v (s_btsp_handle args) = Some b" using ok by auto
    obtain bo where bo: "d_bos s b = Some bo" "handle_bo ?v (d_bos s) (s_btsp_handle args) = Some bo"
      using named [OF h] by blast
    let ?req = "\<lparr>rq_qid = 4, rq_nid = ANE_FIFO_NID, rq_td_size = s_td_size args, rq_td_count = s_td_count args,
        rq_btsp_iova = bo_iova bo, rq_bar = bars\<rparr>"
    have "s_btsp_handle args \<noteq> 0" using ref by (simp add: submit_refused_def)
    then have "?req = spec_request hw ?v (d_bos s) args"
      using bars bo(2) by (simp add: spec_request_def all_bars_ok_def handle_iova_def)
    moreover have "submit_valid hw shift ?v (d_bos s) args" if "\<not> iova_too_high hw (bo_iova bo)"
      using that ref bars bo(2) by (simp add: submit_valid_def all_bars_ok_def)
    ultimately have "\<exists>lv' B. advance K hw view lo hi shift lv (Submitting p args) s lv' t s B"
      if "(\<exists>r. t = Returned r) \<or> \<not> iova_too_high hw (bo_iova bo) \<and> t = Submitting (S_Enqueue ?req) args" for t
      by (intro same) (use that S_Btsp_Use same_refl in \<open>auto simp: lock_step_def\<close>)
    then show ?thesis using S_Btsp_Use bo(1) by (auto simp: with_bo_def)
  next
    case (S_Enqueue req)
    then have req: "submit_valid hw shift ?v (d_bos s) args" "req = spec_request hw ?v (d_bos s) args" using ok by auto
    then have "tm_request ?n req" using n(2) by (simp add: tm_request_def spec_request_def)
    from tm_backend.enqueue [OF backend this] obtain xs where "hw_tm_enqueue hw req l = Some (0, l @ xs)" by blast
    moreover have "\<exists>lv' B. advance K hw view lo hi shift lv (Submitting p args) s lv'
        (Submitting (S_Execute req) args) (s\<lparr>d_engine_lock := True\<rparr>) B" if "\<not> d_engine_lock s"
      by (rule same) (use that req S_Enqueue same_refl in \<open>auto simp: lock_step_def\<close>)
    ultimately show ?thesis using S_Enqueue by (auto simp: after_lock_def)
  next
    case (S_Execute req)
    then have req: "submit_valid hw shift ?v (d_bos s) args" "req = spec_request hw ?v (d_bos s) args" using ok by auto
    then have "tm_request ?n req" using n(2) by (simp add: tm_request_def spec_request_def)
    from tm_backend.execute [OF backend this] obtain e xs where "hw_tm_execute hw req l = Some (e, l @ xs)" by blast
    moreover have "\<exists>lv' B. advance K hw view lo hi shift lv (Submitting p args) s lv'
        (Submitting (S_Unlock e) args) s B" for e
      by (rule same) (use inv' S_Execute same_refl in \<open>auto simp: lock_step_def\<close>)
    ultimately show ?thesis using S_Execute by auto
  next
    case (S_Unlock e)
    have "\<exists>lv' B. advance K hw view lo hi shift lv (Submitting p args) s lv'
        (Returned (Result e)) (s\<lparr>d_engine_lock := False\<rparr>) B"
      by (rule same) (use S_Unlock same_refl in \<open>auto simp: lock_step_def\<close>)
    with S_Unlock inv' show ?thesis by (simp add: goes_def unlock_engine_def)
  qed
qed

section \<open>Any thread\<close>

lemma thread_step_ok:
  assumes inv: "conc_inv K hw view lo hi shift lv ts s" and i: "i < length ts" and cfg: "cfg_ok K hw push shift"
  shows "good K hw view lo hi shift lv (ts ! i) s (thread_step K hw shift (ts ! i) s l)"
proof -
  note li = conc_inv_local [OF inv i]
  have shift: "shift < 32" "k_page_shift K = shift" using cfg by (simp_all add: cfg_ok_def)
  show ?thesis
  proof (cases "ts ! i")
    case (Begun c)
    with li begin_step_ok [OF _ cfg] show ?thesis by simp
  next
    case (Initing p b args)
    with li init_step_ok [OF _ shift] show ?thesis by simp
  next
    case (Freeing h b)
    with li delete_step_ok show ?thesis by simp
  next
    case (Unwinding p b r)
    with li unwind_step_ok [OF _ shift(1)] show ?thesis by simp
  next
    case (Submitting p args)
    with li submit_step_ok [OF _ cfg] show ?thesis by simp
  next
    case Suspending
    have "\<exists>lv' B. advance K hw view lo hi shift lv Suspending s lv' (Returned (Result 0)) (s\<lparr>d_iommu_lock := False\<rparr>) B"
      by (rule advance_same [where view = view and s = s])
        (use li Suspending in \<open>auto simp: local_inv_def lock_step_def same_resources_fields\<close>)
    moreover have "d_iommu_lock s" using li Suspending by (simp add: local_inv_def)
    ultimately show ?thesis using Suspending by (simp add: goes_def unlock_iommu_def)
  qed simp
qed

lemma conc_step_ok:
  assumes inv: "conc_inv K hw view lo hi shift lv ts s" and cfg: "cfg_ok K hw push shift"
    and calm: "calm ts i" and step: "conc_step K hw shift (ts, s, l) i (ts', s', l')"
  shows "\<exists>lv'. conc_inv K hw view lo hi shift lv' ts' s'"
  using step
proof (cases rule: conc_step.cases)
  case (conc_thread t)
  from thread_step_ok [OF inv conc_thread(2) cfg, of l] conc_thread
  obtain lv' B where "advance K hw view lo hi shift lv (ts ! i) s lv' t s' B" by auto
  moreover have "hw_ok hw push" using cfg by (simp add: cfg_ok_def)
  ultimately show ?thesis using conc_advance [OF inv _ conc_thread(2) calm] conc_thread by blast
next
  case (conc_call r c)
  have adv: "advance K hw view lo hi shift lv (ts ! i) s lv (Begun c) s {}"
    using inv conc_call unfolding advance_def conc_inv_def Let_def by (auto simp: owns_def lock_step_def)
  have "hw_ok hw push" using cfg by (simp add: cfg_ok_def)
  from conc_advance [OF inv this conc_call(4) calm adv] conc_call show ?thesis by auto
qed

end

end
