(* ===== verification/Drv_Sched.thy ===== *)
theory Drv_Sched
  imports Drv_Inter_Step
begin

text \<open>
  Whole schedules: every run of interleaved calls keeps the invariant of \<open>Drv_Inter\<close>, a call takes
  a bounded number of steps, some thread can always go on, and calls that leave each other's
  handles alone stay so.
\<close>

section \<open>Between calls\<close>

text \<open>No call is running.\<close>

definition idle :: "thread list \<Rightarrow> bool" where
  "idle ts \<longleftrightarrow> (\<forall>i < length ts. \<exists>r. ts ! i = Returned r)"

lemma idle_not_held:
  "idle ts \<Longrightarrow> held_by in_iommu False ts" "idle ts \<Longrightarrow> held_by in_engine False ts"
  "idle ts \<Longrightarrow> held_by in_iommu l ts \<Longrightarrow> \<not> l" "idle ts \<Longrightarrow> held_by in_engine l ts \<Longrightarrow> \<not> l"
  by (fastforce simp: idle_def held_by_def)+

lemma held_by_some: "held_by P True ts \<Longrightarrow> \<exists>i < length ts. P (ts ! i)"
  by (simp add: held_by_def)

definition between :: "thread \<Rightarrow> bool" where
  "between t \<longleftrightarrow> (\<exists>r. t = Returned r) \<or> (\<exists>c. t = Begun c)"

lemma between_simps [simp]: "between (Returned r)" "between (Begun c)" by (simp_all add: between_def)

lemma between_nothing:
  "between t \<Longrightarrow> owned t = None" "between t \<Longrightarrow> \<not> owns t b" "between t \<Longrightarrow> \<not> in_iommu t"
  "between t \<Longrightarrow> \<not> in_engine t"
  by (auto simp: between_def owns_def)

text \<open>The invariant of single calls is the one of interleaved calls at the start of calls.\<close>

lemma conc_inv_start:
  assumes inv: "sys_inv view lo hi shift (s, l)" and ts: "\<forall>t \<in> set ts. between t"
    and ok: "\<And>c. Begun c \<in> set ts \<Longrightarrow> call_ok K c"
  shows "conc_inv K hw view lo hi shift (\<lambda>_. 4) ts s"
proof -
  have bos: "bos_inv lo hi shift (d_bos s) (view (d_kern s))" and named: "dom (d_bos s) = ran (v_handles (view (d_kern s)))"
    and locks: "\<not> d_iommu_lock s" "\<not> d_engine_lock s"
    using inv by (simp_all add: sys_inv_def drv_inv_def all_named_def)
  have at: "between (ts ! i)" if "i < length ts" for i using ts that by simp
  have "thread_ok K hw shift (view (d_kern s)) (d_bos s) (ts ! i)" if i: "i < length ts" for i
    using at [OF i] ok nth_mem [OF i] by (auto simp: between_def)
  with all_full_level [OF bos] at named locks show ?thesis
    by (simp add: conc_inv_def Let_def held_by_def between_nothing)
qed

lemma conc_inv_end:
  assumes inv: "conc_inv K hw view lo hi shift lv ts s" and idle: "idle ts"
  shows "sys_inv view lo hi shift (s, l)"
proof -
  note inv' = inv [unfolded conc_inv_def Let_def]
  have lv: "level_inv lo hi shift lv (d_bos s) (view (d_kern s))" using inv' by blast
  have "\<not> owns (ts ! i) b" if "i < length ts" for i b
    using idle that by (auto simp: idle_def owns_def)
  then have full: "lv b = 4" "b \<in> ran (v_handles (view (d_kern s)))" if "b \<in> dom (d_bos s)" for b
    using inv' that by blast+
  have "bos_inv lo hi shift (d_bos s) (view (d_kern s))"
    by (rule level_all_full [OF lv]) (simp add: full)
  moreover have "dom (d_bos s) = ran (v_handles (view (d_kern s)))"
    using full(2) level_named(2) [OF lv] by (fastforce simp: ran_def)
  moreover have "\<not> d_iommu_lock s" "\<not> d_engine_lock s" using idle_not_held(3,4) [OF idle] inv' by blast+
  ultimately show ?thesis by (simp add: sys_inv_def drv_inv_def all_named_def)
qed

section \<open>No deadlock\<close>

text \<open>A thread waits only for a mutex, and never while it holds one.\<close>

lemma blocked_by_lock:
  assumes "thread_step K hw shift t s l = Blocked" and "\<not> (\<exists>r. t = Returned r)"
  shows "d_iommu_lock s \<or> d_engine_lock s"
proof (rule ccontr)
  assume free: "\<not> ?thesis"
  have init: "init_step K shift p b args s l \<noteq> Blocked" for p b args
    using free by (cases p) (auto simp: with_bo_def goes_def after_lock_def Let_def
        split: option.splits prod.splits sum.splits)
  have unwind: "unwind_step K shift p b r s l \<noteq> Blocked" for p b r
    using free by (cases p) (auto simp: with_bo_def goes_def after_lock_def split: option.splits)
  have submit: "submit_step K hw shift p args s l \<noteq> Blocked" for p args
    using free by (cases p) (auto simp: with_bo_def goes_def after_lock_def split: option.splits prod.splits)
  have first: "begin_step K hw c s l \<noteq> Blocked" for c
    using free by (cases c) (auto simp: after_lock_def split: option.splits prod.splits)
  show False
    using assms init unwind submit first
    by (cases t) (auto simp: delete_step_def goes_def split: option.splits)
qed

lemma holder_goes:
  assumes "in_iommu t \<or> in_engine t" shows "thread_step K hw shift t s l \<noteq> Blocked"
  using assms
proof
  assume "in_iommu t"
  then show ?thesis
    by (cases t rule: in_iommu.cases) (auto simp: goes_def split: option.splits)
next
  assume "in_engine t"
  then show ?thesis
    by (cases t rule: in_engine.cases) (auto simp: goes_def split: option.splits prod.splits)
qed

section \<open>A call takes a bounded number of steps\<close>

fun init_rank :: "init_at \<Rightarrow> nat" where
  "init_rank I_Gem = 17" | "init_rank I_Offset = 16" | "init_rank I_Pages = 15" | "init_rank I_Map = 14"
| "init_rank (I_Insert n) = 13" | "init_rank (I_Unlock n e) = 12" | "init_rank (I_Node_Free n e) = 11"
| "init_rank I_Handle = 10" | "init_rank (I_Put e) = 9"

fun unwind_rank :: "unwind_at \<Rightarrow> nat" where
  "unwind_rank U_Unmap = 8" | "unwind_rank (U_Unmapped n) = 7" | "unwind_rank (U_Node_Free n) = 6"
| "unwind_rank U_Flush = 5" | "unwind_rank U_Flushed = 4" | "unwind_rank U_Pages = 3"
| "unwind_rank U_Release = 2" | "unwind_rank U_Free = 1"

fun submit_rank :: "submit_at \<Rightarrow> nat" where
  "submit_rank (S_Bar bdx bars) = 2 * (length bars - bdx) + 6"
| "submit_rank (S_Bar_Use bdx bars b) = 2 * (length bars - Suc bdx) + 7"
| "submit_rank (S_Btsp bars) = 5" | "submit_rank (S_Btsp_Use bars b) = 4"
| "submit_rank (S_Enqueue req) = 3" | "submit_rank (S_Execute req) = 2" | "submit_rank (S_Unlock e) = 1"

text \<open>The number of steps a thread still makes, at most.\<close>

abbreviation max_steps :: nat where "max_steps \<equiv> 2 * ANE_MAX_TILE_COUNT + 7"

fun rank :: "thread \<Rightarrow> nat" where
  "rank (Returned r) = 0" | "rank (Begun c) = max_steps" | "rank (Initing p b args) = init_rank p"
| "rank (Freeing h b) = 9" | "rank (Unwinding p b r) = unwind_rank p"
| "rank (Submitting p args) = submit_rank p" | "rank Suspending = 1"

lemma rank_step:
  assumes "thread_step K hw shift t s l = Goes t' s' l'" shows "rank t' < rank t"
proof (cases t)
  case (Begun c)
  with assms show ?thesis
    by (cases c) (auto simp: after_lock_def split: option.splits prod.splits if_splits)
next
  case (Initing p b args)
  with assms show ?thesis
    by (cases p) (auto simp: with_bo_def goes_def after_lock_def Let_def
        split: option.splits prod.splits sum.splits if_splits)
next
  case (Unwinding p b r)
  with assms show ?thesis
    by (cases p) (auto simp: with_bo_def goes_def after_lock_def split: option.splits if_splits)
next
  case (Submitting p args)
  with assms show ?thesis
    by (cases p) (auto simp: with_bo_def goes_def after_lock_def split: option.splits prod.splits if_splits)
qed (use assms in \<open>auto simp: delete_step_def goes_def split: option.splits\<close>)

lemma sum_list_update:
  fixes xs :: "nat list"
  assumes "i < length xs" shows "sum_list (xs[i := y]) + xs ! i = sum_list xs + y"
  using assms by (induction xs arbitrary: i) (auto simp: nth_Cons split: nat.splits)

lemma schedule_bounded:
  "schedule K hw shift is (ts, s, l) = Some c \<Longrightarrow> length is \<le> sum_list (map rank ts)"
proof (induction "is" arbitrary: ts s l)
  case (Cons i "is")
  then obtain t s1 l1 where i: "i < length ts" and t: "thread_step K hw shift (ts ! i) s l = Goes t s1 l1"
    and rest: "schedule K hw shift is (ts[i := t], s1, l1) = Some c"
    by (auto split: if_splits outcome.splits)
  have "sum_list (map rank (ts[i := t])) + rank (ts ! i) = sum_list (map rank ts) + rank t"
    using sum_list_update [of i "map rank ts" "rank t"] i by (simp add: map_update)
  with Cons.IH [OF rest] rank_step [OF t] show ?case by simp
qed simp

lemma schedule_snoc:
  "schedule K hw shift (is @ [i]) c = Option.bind (schedule K hw shift is c) (schedule K hw shift [i])"
proof (induction "is" arbitrary: c)
  case (Cons j "is")
  then show ?case by (cases c) (auto split: outcome.splits)
qed simp

lemma schedule_length:
  "schedule K hw shift is (ts, s, l) = Some (ts', s', l') \<Longrightarrow> length ts' = length ts"
proof (induction "is" arbitrary: ts s l)
  case (Cons i "is")
  then show ?case by (fastforce split: if_splits outcome.splits)
qed simp

section \<open>Calls that leave each other's handles alone\<close>

text \<open>The handle a call is going to delete, and all handles it works on.\<close>

definition frees :: "thread \<Rightarrow> u32 \<Rightarrow> bool" where
  "frees t h \<longleftrightarrow> (\<exists>pad. t = Begun (Bo_Free h pad)) \<or> (\<exists>b. t = Freeing h b)"

fun wants_call :: "ane_call \<Rightarrow> u32 set" where
  "wants_call (Bo_Free h pad) = {h}"
| "wants_call (Submit args) = insert (s_btsp_handle args) (set (s_handles args))"
| "wants_call c = {}"

definition wants :: "thread \<Rightarrow> u32 set" where
  "wants t = (case t of Begun c \<Rightarrow> wants_call c | _ \<Rightarrow> uses t)"

lemma wants_simps [simp]:
  "wants (Begun c) = wants_call c" "wants (Returned r) = {}" "wants (Initing p b args) = uses (Initing p b args)"
  "wants (Freeing h b) = {h}" "wants (Unwinding q b r) = {}" "wants Suspending = {}"
  "wants (Submitting sp sargs) = insert (s_btsp_handle sargs) (set (s_handles sargs))"
  by (simp_all add: wants_def)

lemma uses_wants: "uses t \<subseteq> wants t"
  by (cases t) (simp_all add: wants_def)

definition polite :: "kview \<Rightarrow> thread list \<Rightarrow> bool" where
  "polite v ts \<longleftrightarrow> (\<forall>i < length ts. \<forall>h. frees (ts ! i) h \<longrightarrow> v_handles v h \<noteq> None \<and>
     (\<forall>j < length ts. j \<noteq> i \<longrightarrow> h \<notin> wants (ts ! j)))"

lemma polite_calm: "polite v ts \<Longrightarrow> i < length ts \<Longrightarrow> calm ts i"
  using uses_wants unfolding polite_def calm_def frees_def by (fastforce split: thread.split)

lemma frees_step:
  assumes "thread_step K hw shift t s l = Goes t' s' l'" and "frees t' h"
  shows "\<exists>pad. t = Begun (Bo_Free h pad)"
proof -
  have init: "\<not> (\<exists>h b. init_step K shift p b' args s l = Goes (Freeing h b) s' l')" for p b' args
    by (cases p) (auto simp: with_bo_def goes_def after_lock_def Let_def
        split: option.splits prod.splits sum.splits if_splits)
  have unwind: "\<not> (\<exists>h b. unwind_step K shift p b' r s l = Goes (Freeing h b) s' l')" for p b' r
    by (cases p) (auto simp: with_bo_def goes_def after_lock_def split: option.splits if_splits)
  have submit: "\<not> (\<exists>h b. submit_step K hw shift p args s l = Goes (Freeing h b) s' l')" for p args
    by (cases p) (auto simp: with_bo_def goes_def after_lock_def split: option.splits prod.splits if_splits)
  have notb: "t' \<noteq> Begun c" for c
  proof
    assume t': "t' = Begun c"
    have "rank t' < rank t" by (rule rank_step [OF assms(1)])
    then have "submit_rank p > max_steps" if "t = Submitting p args" for p args using that t' by simp
    show False
    proof (cases t)
      case (Begun c)
      with assms(1) t' \<open>rank t' < rank t\<close> show ?thesis by simp
    next
      case (Initing p b args)
      with t' \<open>rank t' < rank t\<close> show ?thesis by (cases p) simp_all
    next
      case (Unwinding p b r)
      with t' \<open>rank t' < rank t\<close> show ?thesis by (cases p) simp_all
    next
      case (Submitting p args)
      with assms(1) t' show ?thesis
        by (cases p) (auto simp: with_bo_def goes_def after_lock_def split: option.splits prod.splits if_splits)
    qed (use t' \<open>rank t' < rank t\<close> in simp_all)
  qed
  then obtain b where t': "t' = Freeing h b" using assms(2) by (auto simp: frees_def)
  show ?thesis
  proof (cases t)
    case (Begun c)
    with assms(1) t' show ?thesis
      by (cases c) (auto simp: after_lock_def split: option.splits prod.splits if_splits)
  next
    case (Initing p b args)
    with init assms(1) t' show ?thesis by auto
  next
    case (Unwinding p b r)
    with unwind assms(1) t' show ?thesis by auto
  next
    case (Submitting p args)
    with submit assms(1) t' show ?thesis by auto
  qed (use assms(1) t' in \<open>auto simp: delete_step_def goes_def split: option.splits\<close>)
qed

context drm_kernel
begin

text \<open>A thread comes to use a handle only by being given it or by creating it.\<close>

lemma wants_step:
  assumes "thread_step K hw shift t s l = Goes t' s' l'" and "h \<in> wants t'"
  shows "h \<in> wants t \<or> v_handles (view (d_kern s)) h = None"
proof (cases t)
  case (Begun c)
  with assms show ?thesis
    by (cases c) (auto simp: after_lock_def split: option.splits prod.splits if_splits)
next
  case (Initing p b args)
  show ?thesis
  proof (cases p)
    case I_Handle
    obtain e h' k1 where create: "k_handle_create K b (d_kern s) = ((e, h'), k1)" by (metis prod.exhaust)
    with assms Initing I_Handle handle_create [OF create] show ?thesis
      by (auto simp: with_bo_def Let_def split: option.splits if_splits)
  qed (use assms Initing in \<open>auto simp: with_bo_def goes_def after_lock_def Let_def
        split: option.splits prod.splits sum.splits if_splits\<close>)
next
  case (Unwinding p b r)
  with assms show ?thesis
    by (cases p) (auto simp: with_bo_def goes_def after_lock_def split: option.splits if_splits)
next
  case (Submitting p args)
  with assms show ?thesis
    by (cases p) (auto simp: with_bo_def goes_def after_lock_def split: option.splits prod.splits if_splits)
qed (use assms in \<open>auto simp: delete_step_def goes_def split: option.splits\<close>)

lemma polite_step:
  assumes inv: "conc_inv K hw view lo hi shift lv ts s" and cfg: "cfg_ok K hw push shift"
    and pol: "polite (view (d_kern s)) ts" and k: "k < length ts"
    and step: "thread_step K hw shift (ts ! k) s l = Goes t s1 l1"
  shows "polite (view (d_kern s1)) (ts[k := t])" and "\<exists>lv1. conc_inv K hw view lo hi shift lv1 (ts[k := t]) s1"
proof -
  have "conc_step K hw shift (ts, s, l) k (ts[k := t], s1, l1)" by (rule conc_thread [OF k step])
  from conc_step_ok [OF inv cfg polite_calm [OF pol k] this]
  show "\<exists>lv1. conc_inv K hw view lo hi shift lv1 (ts[k := t]) s1" .
  obtain lv' B where adv: "advance K hw view lo hi shift lv (ts ! k) s lv' t s1 B"
    using thread_step_ok [OF inv k cfg, of l] step by auto
  have stay: "v_handles (view (d_kern s1)) h \<noteq> None"
    if "v_handles (view (d_kern s)) h \<noteq> None" "\<And>b. ts ! k \<noteq> Freeing h b" for h
    using adv that unfolding advance_def Let_def by (metis not_None_eq)
  show "polite (view (d_kern s1)) (ts[k := t])"
    unfolding polite_def
  proof (intro allI impI)
    fix i h assume i: "i < length (ts[k := t])" and fr: "frees (ts[k := t] ! i) h"
    show "v_handles (view (d_kern s1)) h \<noteq> None \<and> (\<forall>j < length (ts[k := t]). j \<noteq> i \<longrightarrow> h \<notin> wants (ts[k := t] ! j))"
    proof (cases "i = k")
      case True
      then obtain pad where "ts ! k = Begun (Bo_Free h pad)"
        using frees_step [OF step] fr k by auto
      moreover from this have "frees (ts ! k) h" by (simp add: frees_def)
      then have "v_handles (view (d_kern s)) h \<noteq> None" "\<forall>j < length ts. j \<noteq> k \<longrightarrow> h \<notin> wants (ts ! j)"
        using pol k unfolding polite_def by blast+
      ultimately show ?thesis using stay True by simp
    next
      case False
      then have fr': "frees (ts ! i) h" and i': "i < length ts" using fr i by simp_all
      then have p: "v_handles (view (d_kern s)) h \<noteq> None" "\<And>j. j < length ts \<Longrightarrow> j \<noteq> i \<Longrightarrow> h \<notin> wants (ts ! j)"
        using pol by (auto simp: polite_def)
      then have w: "h \<notin> wants (ts ! k)" using k False by auto
      then have "h \<notin> wants t" using wants_step [OF step, of h] p(1) by blast
      then have "h \<notin> wants (ts[k := t] ! j)" if "j < length ts" "j \<noteq> i" for j
        using p(2) [OF that] that(1) by (cases "j = k") simp_all
      moreover have "v_handles (view (d_kern s1)) h \<noteq> None"
      proof (rule stay [OF p(1)])
        show "ts ! k \<noteq> Freeing h b" for b using w by auto
      qed
      ultimately show ?thesis by simp
    qed
  qed
qed

lemma polite_schedule:
  assumes "schedule K hw shift is (ts, s, l) = Some (ts', s', l')" and "cfg_ok K hw push shift"
    and "conc_inv K hw view lo hi shift lv ts s" and "polite (view (d_kern s)) ts"
  shows "\<exists>lv'. conc_inv K hw view lo hi shift lv' ts' s' \<and> polite (view (d_kern s')) ts'"
  using assms(1,3,4)
proof (induction "is" arbitrary: ts s l lv)
  case (Cons i "is")
  then obtain t s1 l1 where i: "i < length ts" and t: "thread_step K hw shift (ts ! i) s l = Goes t s1 l1"
    and rest: "schedule K hw shift is (ts[i := t], s1, l1) = Some (ts', s', l')"
    by (auto split: if_splits outcome.splits)
  note step = polite_step [OF Cons.prems(2) assms(2) Cons.prems(3) i t]
  obtain lv1 where "conc_inv K hw view lo hi shift lv1 (ts[i := t]) s1" using step(2) by (rule exE)
  from Cons.IH [OF rest this step(1)] show ?case .
qed auto

text \<open>Every run of a disciplined client.\<close>

lemma calm_run_ok:
  assumes run: "calm_run K hw shift (ts, s, l) c" and inv: "conc_inv K hw view lo hi shift lv ts s"
    and cfg: "cfg_ok K hw push shift"
  shows "\<exists>lv'. conc_inv K hw view lo hi shift lv' (fst c) (fst (snd c))"
  using run
proof (induction rule: calm_run.induct)
  case calm_none
  with inv show ?case by auto
next
  case (calm_more ts1 s1 l1 i c)
  then obtain lv1 where "conc_inv K hw view lo hi shift lv1 ts1 s1" by auto
  with conc_step_ok [OF _ cfg calm_more.hyps(2)] calm_more.hyps(3) show ?case by (cases c) auto
qed

lemma never_undefined:
  assumes "conc_inv K hw view lo hi shift lv ts s" and "i < length ts" and "cfg_ok K hw push shift"
  shows "thread_step K hw shift (ts ! i) s l \<noteq> Undefined"
  using thread_step_ok [OF assms, of l] by (auto simp: good_def)

text \<open>While a call is running, some call can go on.\<close>

lemma some_thread_goes:
  assumes inv: "conc_inv K hw view lo hi shift lv ts s" and cfg: "cfg_ok K hw push shift"
    and busy: "\<not> idle ts"
  shows "\<exists>i < length ts. \<exists>t s1 l1. thread_step K hw shift (ts ! i) s l = Goes t s1 l1"
proof -
  note defined = never_undefined [OF inv _ cfg, of _ l]
  have goes: "?thesis" if "i < length ts" "thread_step K hw shift (ts ! i) s l \<noteq> Blocked" for i
    using defined [OF that(1)] that by (cases "thread_step K hw shift (ts ! i) s l") auto
  obtain i where i: "i < length ts" "\<not> (\<exists>r. ts ! i = Returned r)" using busy by (auto simp: idle_def)
  show ?thesis
  proof (cases "thread_step K hw shift (ts ! i) s l = Blocked")
    case True
    have held: "held_by in_iommu (d_iommu_lock s) ts" "held_by in_engine (d_engine_lock s) ts"
      using inv by (simp_all add: conc_inv_def Let_def)
    from blocked_by_lock [OF True i(2)]
    obtain j where j: "j < length ts" "in_iommu (ts ! j) \<or> in_engine (ts ! j)"
      using held held_by_some by (cases "d_iommu_lock s") fastforce+
    show ?thesis by (rule goes [OF j(1) holder_goes [OF j(2)]])
  qed (use goes i in blast)
qed

end

end
