(* ===== verification/Drv_Alone.thy ===== *)
theory Drv_Alone
  imports Drv_Conc
begin

text \<open>
  A thread that runs alone does what the functions of \<open>Drv_Gem\<close>, \<open>Drv_Submit\<close> and \<open>Drv_Step\<close>
  do: the steps of \<open>Drv_Conc\<close> are those functions, cut where another thread may come between.
\<close>

section \<open>The result of a thread\<close>

definition result :: "'k kapi \<Rightarrow> ane_hw \<Rightarrow> nat \<Rightarrow> thread \<Rightarrow> 'k drv \<Rightarrow> access list \<Rightarrow> ane_reply \<times> 'k system \<Rightarrow> bool" where
  "result K hw shift t s l x \<longleftrightarrow> (\<exists>n. alone K hw shift n t s l = Some x)"

lemma result_returned [simp]: "result K hw shift (Returned r) s l x \<longleftrightarrow> x = (r, s, l)"
  by (auto simp: result_def)

lemma result_step:
  assumes "\<And>r. t \<noteq> Returned r"
  shows "result K hw shift t s l x \<longleftrightarrow>
    (case thread_step K hw shift t s l of Goes t1 s1 l1 \<Rightarrow> result K hw shift t1 s1 l1 x | _ \<Rightarrow> False)"
proof -
  have "alone K hw shift 0 t s l = None" using assms by (cases t) auto
  moreover have "alone K hw shift (Suc n) t s l =
      (case thread_step K hw shift t s l of Goes t1 s1 l1 \<Rightarrow> alone K hw shift n t1 s1 l1 | _ \<Rightarrow> None)" for n
    using assms by (cases t) auto
  ultimately have "result K hw shift t s l x \<longleftrightarrow>
      (\<exists>n. (case thread_step K hw shift t s l of Goes t1 s1 l1 \<Rightarrow> alone K hw shift n t1 s1 l1 | _ \<Rightarrow> None) = Some x)"
    unfolding result_def by (metis not0_implies_Suc option.distinct(1))
  then show ?thesis by (simp add: result_def split: outcome.split)
qed

lemma result_steps [simp]:
  "result K hw shift (Begun c) s l x \<longleftrightarrow>
     (case begin_step K hw c s l of Goes t1 s1 l1 \<Rightarrow> result K hw shift t1 s1 l1 x | _ \<Rightarrow> False)"
  "result K hw shift (Freeing h b) s l x \<longleftrightarrow>
     (case delete_step K h b s l of Goes t1 s1 l1 \<Rightarrow> result K hw shift t1 s1 l1 x | _ \<Rightarrow> False)"
  "result K hw shift Suspending s l x \<longleftrightarrow>
     (case unlock_iommu s of None \<Rightarrow> False | Some s1 \<Rightarrow> x = (Result 0, s1, l))"
  by (subst result_step; simp add: goes_def split: option.split)+

lemma result_init:
  "result K hw shift (Initing p b args) s l x \<longleftrightarrow>
     (case init_step K shift p b args s l of Goes t1 s1 l1 \<Rightarrow> result K hw shift t1 s1 l1 x | _ \<Rightarrow> False)"
  by (subst result_step) simp_all

lemma result_unwind:
  "result K hw shift (Unwinding q b r) s l x \<longleftrightarrow>
     (case unwind_step K shift q b r s l of Goes t1 s1 l1 \<Rightarrow> result K hw shift t1 s1 l1 x | _ \<Rightarrow> False)"
  by (subst result_step) simp_all

lemma result_submit:
  "result K hw shift (Submitting p args) s l x \<longleftrightarrow>
     (case submit_step K hw shift p args s l of Goes t1 s1 l1 \<Rightarrow> result K hw shift t1 s1 l1 x | _ \<Rightarrow> False)"
  by (subst result_step) simp_all

text \<open>What came of a function with an optional result.\<close>

definition gives :: "('b \<Rightarrow> ane_reply \<times> 'k system) \<Rightarrow> 'b option \<Rightarrow> ane_reply \<times> 'k system \<Rightarrow> bool" where
  "gives f r x \<longleftrightarrow> (\<exists>y. r = Some y \<and> x = f y)"

lemma gives_simps [simp]:
  "gives f None x = False" "gives f (Some y) x \<longleftrightarrow> x = f y"
  "gives f (map_option g r) x = gives (\<lambda>y. f (g y)) r x"
  by (auto simp: gives_def)

lemma gives_bind: "gives f (Option.bind r g) x \<longleftrightarrow> (\<exists>y. r = Some y \<and> gives f (g y) x)"
  by (cases r) auto

lemma init_reply_simps:
  "err < 0 \<Longrightarrow> init_reply err args = Result err" "init_reply 0 args = New_Bo args"
  by (simp_all add: init_reply_def)

lemma put_kern_simps [simp]: "put_kern k (put_kern k1 s) = put_kern k s" "put_kern (d_kern s) s = s"
  by (simp_all add: put_kern_def)

section \<open>Unwinding\<close>

lemma result_u_free: "result K hw shift (Unwinding U_Free b r) s l x \<longleftrightarrow> gives (\<lambda>s1. (r, s1, l)) (free_bo K b s) x"
  by (simp add: result_unwind goes_def split: option.split)

lemma result_u_release:
  assumes "d_bos s b \<noteq> None"
  shows "result K hw shift (Unwinding U_Release b r) s l x \<longleftrightarrow> gives (\<lambda>s1. (r, s1, l)) (release_bo K b s) x"
  using assms by (auto simp: result_unwind [of _ _ _ U_Release] with_bo_def result_u_free release_bo_def)

lemma result_u_pages:
  assumes "d_bos s b \<noteq> None"
  shows "result K hw shift (Unwinding U_Pages b r) s l x \<longleftrightarrow> gives (\<lambda>s1. (r, s1, l)) (put_pages_bo K b s) x"
  using assms
  by (auto simp: result_unwind [of _ _ _ U_Pages] with_bo_def result_u_release put_pages_bo_def)

lemma unlock_simps:
  "unlock_iommu (s\<lparr>d_iommu_lock := True\<rparr>) = Some (s\<lparr>d_iommu_lock := False\<rparr>)"
  "unlock_iommu (put_kern k (s\<lparr>d_iommu_lock := True\<rparr>)) = Some (put_kern k (s\<lparr>d_iommu_lock := False\<rparr>))"
  by (simp_all add: unlock_iommu_def put_kern_def)

lemma drv_kfree_bos: "drv_kfree K n s = Some s1 \<Longrightarrow> d_bos s1 = d_bos s"
  by (auto simp: drv_kfree_def)

lemma result_u_unmap:
  "result K hw shift (Unwinding U_Unmap b r) s l x \<longleftrightarrow> gives (\<lambda>s1. (r, s1, l)) (unmap_bo K shift b s) x"
proof (cases "d_bos s b")
  case None
  then show ?thesis
    by (simp add: result_unwind [of _ _ _ U_Unmap] with_bo_def unmap_bo_def ane_iommu_unmap_pages_def)
next
  case bo: (Some bo)
  show ?thesis
  proof (cases "bo_mm bo")
    case None
    with bo show ?thesis
      by (simp add: result_unwind [of _ _ _ U_Unmap] with_bo_def unmap_bo_def ane_iommu_unmap_pages_def
          result_u_pages)
  next
    case (Some node)
    let ?s1 = "put_kern (k_mm_remove K node (unmap_up K shift (bo_iova bo) 0 (unat (bo_npages bo)) (d_kern s)))
      (s\<lparr>d_iommu_lock := False\<rparr>)"
    have flush: "result K hw shift (Unwinding U_Flush b r) s2 l x \<longleftrightarrow>
        gives (\<lambda>s1. (r, s1, l)) (Option.bind (ane_iommu_invalidate_tlb K s2) (put_pages_bo K b)) x"
      if "d_bos s2 b \<noteq> None" for s2
      using that by (cases "d_iommu_lock s2")
        (auto simp: result_unwind [of _ _ _ U_Flush] result_unwind [of _ _ _ U_Flushed] after_lock_def goes_def
          ane_iommu_invalidate_tlb_def lock_iommu_def unlock_simps result_u_pages)
    have node: "result K hw shift (Unwinding (U_Node_Free node) b r) ?s1 l x \<longleftrightarrow>
        gives (\<lambda>s1. (r, s1, l)) (Option.bind (drv_kfree K node ?s1)
          (\<lambda>s2. Option.bind (ane_iommu_invalidate_tlb K s2) (put_pages_bo K b))) x"
      using bo by (cases "drv_kfree K node ?s1")
        (auto simp: result_unwind [of _ _ _ "U_Node_Free node"] goes_def flush dest: drv_kfree_bos)
    show ?thesis
    proof (cases "d_iommu_lock s \<or> 32 \<le> shift \<and> bo_npages bo \<noteq> 0")
      case True
      with bo Some show ?thesis
        by (auto simp: result_unwind [of _ _ _ U_Unmap] with_bo_def unmap_bo_def ane_iommu_unmap_pages_def
            after_lock_def lock_iommu_def)
    next
      case False
      then have "result K hw shift (Unwinding U_Unmap b r) s l x \<longleftrightarrow>
          result K hw shift (Unwinding (U_Node_Free node) b r) ?s1 l x"
        using bo Some by (auto simp: result_unwind [of _ _ _ U_Unmap] with_bo_def after_lock_def
            result_unwind [of _ _ _ "U_Unmapped node"] unmap_section_def unlock_simps goes_def)
      moreover have "unmap_bo K shift b s = Option.bind (drv_kfree K node ?s1)
          (\<lambda>s2. Option.bind (ane_iommu_invalidate_tlb K s2) (put_pages_bo K b))"
        using bo Some False by (auto simp: unmap_bo_def ane_iommu_unmap_pages_def lock_iommu_def
            unlock_simps Let_def bind_assoc)
      ultimately show ?thesis using node by simp
    qed
  qed
qed

section \<open>Creating an object\<close>

lemma map_node_sections:
  "map_node K shift b bo node s = Option.bind (insert_section K shift b bo node s) (\<lambda>(err, s1).
     if err < 0 then map_fail K err node s1 else map_option (\<lambda>s2. (0, s2)) (unlock_iommu s1))"
proof (cases "32 \<le> shift")
  case False
  obtain err start k1 where i: "k_mm_insert K node (ucast (bo_bytes shift (bo_npages bo))) (page_bytes shift)
    (d_kern s) = ((err, start), k1)" by (metis prod.exhaust)
  let ?loop = "map_loop K shift start (pages_of bo) 0 (unat (bo_npages bo)) k1"
  from i False show ?thesis
    by (cases ?loop) (auto simp: map_node_def insert_section_def Let_def split: prod.split)
qed (simp add: map_node_def insert_section_def)

lemma insert_section_bos:
  assumes "insert_section K shift b bo node s = Some (e, s1)" and "d_bos s b \<noteq> None"
  shows "d_bos s1 b \<noteq> None" and "d_iommu_lock s1 = d_iommu_lock s"
  using assms by (auto simp: insert_section_def Let_def bind_eq_Some_conv split: if_splits prod.splits)

abbreviation init_result :: "access list \<Rightarrow> int \<times> bo_init_args \<times> 'k drv \<Rightarrow> ane_reply \<times> 'k system" where
  "init_result l \<equiv> (\<lambda>(e, args, s). (init_reply e args, s, l))"

lemma gives_fail [simp]:
  assumes "err < 0"
  shows "gives (init_result l) (fail_with err args r) x \<longleftrightarrow> gives (\<lambda>s. (Result err, s, l)) r x"
  using assms by (simp add: fail_with_def init_reply_def)

lemma result_i_handle:
  assumes "d_bos s b \<noteq> None"
  shows "result K hw shift (Initing I_Handle b args) s l x \<longleftrightarrow>
    gives (init_result l) (bo_init_handle K shift b args s) x"
proof -
  obtain err h k1 where c: "k_handle_create K b (d_kern s) = ((err, h), k1)" by (metis prod.exhaust)
  show ?thesis
    using assms c
    by (auto simp: result_init [of _ _ _ I_Handle] result_init [of _ _ _ "I_Put err"] with_bo_def
        bo_init_handle_def result_u_unmap init_reply_simps)
qed

lemma result_i_map:
  assumes bo: "d_bos s b = Some bo"
  shows "result K hw shift (Initing I_Map b args) s l x \<longleftrightarrow>
    gives (init_result l) (Option.bind (ane_iommu_map_pages K shift b s) (\<lambda>(err, s1).
      if err < 0 then fail_with err args (put_pages_bo K b s1) else bo_init_handle K shift b args s1)) x"
proof (cases "bo_mm bo = None")
  case False
  with bo show ?thesis
    by (simp add: result_init [of _ _ _ I_Map] with_bo_def ane_iommu_map_pages_def result_u_pages)
next
  case True
  obtain p k1 where z: "k_kzalloc K (d_kern s) = (p, k1)" by fastforce
  show ?thesis
  proof (cases p)
    case None
    with bo True z show ?thesis
      by (simp add: result_init [of _ _ _ I_Map] with_bo_def ane_iommu_map_pages_def result_u_pages)
  next
    case (Some node)
    let ?bo = "bo\<lparr>bo_mm := Some node\<rparr>"
    let ?s1 = "put_bo b ?bo (put_kern k1 s)"
    have insert: "result K hw shift (Initing (I_Insert node) b args) ?s1 l x \<longleftrightarrow>
      gives (init_result l) (Option.bind (Option.bind (lock_iommu ?s1) (map_node K shift b ?bo node)) (\<lambda>(err, s1).
        if err < 0 then fail_with err args (put_pages_bo K b s1) else bo_init_handle K shift b args s1)) x"
    proof (cases "d_iommu_lock s")
      case lock: True
      then show ?thesis
        by (simp add: result_init [of _ _ _ "I_Insert node"] with_bo_def after_lock_def lock_iommu_def)
    next
      case lock: False
      let ?s2 = "?s1\<lparr>d_iommu_lock := True\<rparr>"
      show ?thesis
      proof (cases "insert_section K shift b ?bo node ?s2")
        case None
        with lock show ?thesis
          by (simp add: result_init [of _ _ _ "I_Insert node"] with_bo_def after_lock_def lock_iommu_def
              map_node_sections)
      next
        case (Some y)
        then obtain err s3 where y: "insert_section K shift b ?bo node ?s2 = Some (err, s3)" by (cases y) auto
        note s3 = insert_section_bos [OF y]
        have bos: "d_bos s3 b \<noteq> None" using s3(1) by simp
        have free: "d_bos s4 b \<noteq> None" if "drv_kfree K node (s3\<lparr>d_iommu_lock := False\<rparr>) = Some s4" for s4
          using drv_kfree_bos [OF that] bos by simp
        from y lock s3(2) bos show ?thesis
          by (cases "drv_kfree K node (s3\<lparr>d_iommu_lock := False\<rparr>)")
            (auto simp: result_init [of _ _ _ "I_Insert node"] result_init [of _ _ _ "I_Unlock node err"]
              result_init [of _ _ _ "I_Node_Free node err"] with_bo_def after_lock_def lock_iommu_def
              map_node_sections unlock_iommu_def goes_def map_fail_def result_i_handle result_u_pages
              dest: free)
      qed
    qed
    have "result K hw shift (Initing I_Map b args) s l x \<longleftrightarrow>
        result K hw shift (Initing (I_Insert node) b args) ?s1 l x"
      using bo True z Some by (simp add: result_init [of _ _ _ I_Map] with_bo_def)
    moreover have "ane_iommu_map_pages K shift b s =
        Option.bind (lock_iommu ?s1) (map_node K shift b ?bo node)"
      using bo True z Some by (simp add: ane_iommu_map_pages_def Let_def)
    ultimately show ?thesis using insert by simp
  qed
qed

lemma result_i_pages:
  assumes "d_bos s b = Some new_bo"
  shows "result K hw shift (Initing I_Pages b args) s l x \<longleftrightarrow>
    gives (init_result l) (bo_init_pages K shift b (round_up (i_size args) (page_size K)) args s) x"
proof (cases "k_get_pages K b (d_kern s)")
  case (Pair r k1)
  with assms show ?thesis
    by (cases r) (auto simp: result_init [of _ _ _ I_Pages] with_bo_def bo_init_pages_def result_u_release
      result_i_map fail_with_def Let_def)
qed

lemma result_bo_init:
  "result K hw shift (Begun (Bo_Init args)) s l x \<longleftrightarrow>
    gives (init_result l) (ane_bo_init K shift args s) x"
proof (cases "i_pad args = 0")
  case False
  then show ?thesis by (simp add: ane_bo_init_def init_reply_simps)
next
  case True
  obtain p k1 where z: "k_kzalloc K (d_kern s) = (p, k1)" by fastforce
  show ?thesis
  proof (cases p)
    case None
    with True z show ?thesis by (simp add: ane_bo_init_def init_reply_simps)
  next
    case (Some b)
    let ?s1 = "put_bo b new_bo (put_kern k1 s)" and ?sz = "round_up (i_size args) (page_size K)"
    obtain e k2 where g: "k_gem_init K b ?sz k1 = (e, k2)" by fastforce
    obtain e2 off k3 where o: "k_mmap_offset K b k2 = ((e2, off), k3)" by (metis prod.exhaust)
    show ?thesis
      using True z Some g o
      by (auto simp: ane_bo_init_def result_init [of _ _ _ I_Gem] result_init [of _ _ _ I_Offset]
          with_bo_def result_u_free result_u_release result_i_pages Let_def)
  qed
qed

section \<open>Freeing and submitting\<close>

lemma result_bo_free:
  "result K hw shift (Begun (Bo_Free handle pad)) s l x \<longleftrightarrow>
    gives (\<lambda>(e, s1). (Result e, s1, l)) (ane_bo_free K shift handle pad s) x"
proof (cases "k_lookup K handle (d_kern s)")
  case (Pair p k1)
  then show ?thesis
    by (cases p) (auto simp: ane_bo_free_def delete_step_def result_u_unmap Let_def)
qed

abbreviation submit_result :: "int \<times> 'k drv \<times> access list \<Rightarrow> ane_reply \<times> 'k system" where
  "submit_result \<equiv> (\<lambda>(e, s, l). (Result e, s, l))"

lemma result_s_enqueue:
  "result K hw shift (Submitting (S_Enqueue req) args) s l x \<longleftrightarrow>
    gives submit_result (submit_run hw req s l) x"
proof (cases "d_engine_lock s")
  case True
  then show ?thesis
    by (simp add: result_submit [of _ _ _ "S_Enqueue req"] after_lock_def submit_run_def lock_engine_def)
next
  case False
  have unlock: "result K hw shift (Submitting (S_Unlock err) args) (s\<lparr>d_engine_lock := True\<rparr>) l1 x \<longleftrightarrow>
      x = (Result err, s\<lparr>d_engine_lock := False\<rparr>, l1)" for err l1 x
    by (simp add: result_submit [of _ _ _ "S_Unlock err"] goes_def unlock_engine_def)
  have exec: "result K hw shift (Submitting (S_Execute req) args) (s\<lparr>d_engine_lock := True\<rparr>) l1 x \<longleftrightarrow>
      gives (\<lambda>(e, l2). (Result e, s\<lparr>d_engine_lock := False\<rparr>, l2)) (hw_tm_execute hw req l1) x" for l1
    by (cases "hw_tm_execute hw req l1") (auto simp: result_submit [of _ _ _ "S_Execute req"] unlock)
  show ?thesis
  proof (cases "hw_tm_enqueue hw req l")
    case None
    with False show ?thesis
      by (simp add: result_submit [of _ _ _ "S_Enqueue req"] after_lock_def submit_run_def lock_engine_def)
  next
    case (Some y)
    obtain err l1 where y: "y = (err, l1)" by fastforce
    show ?thesis
      using False Some y
      by (cases "hw_tm_execute hw req l1")
        (auto simp: result_submit [of _ _ _ "S_Enqueue req"] after_lock_def submit_run_def lock_engine_def
          unlock_engine_def unlock exec)
  qed
qed

text \<open>What follows the loop over the registers.\<close>

definition submit_rest :: "'k kapi \<Rightarrow> ane_hw \<Rightarrow> submit_args \<Rightarrow> u64 list \<Rightarrow> 'k drv \<Rightarrow> access list \<Rightarrow>
    (int \<times> 'k drv \<times> access list) option" where
  "submit_rest K hw args bars s l =
     (let bars1 = bars[KRN_BUF_BDX := bars ! CMD_BUF_BDX + round_up (s_tsk_size args) ANE_CMD_GRAN]
      in case k_lookup K (s_btsp_handle args) (d_kern s) of
          (None, k2) \<Rightarrow> Some (- EINVAL, put_kern k2 s, l)
        | (Some b, k2) \<Rightarrow> Option.bind (d_bos s b) (\<lambda>bo.
            if iova_too_high hw (bo_iova bo) then Some (- EINVAL, put_kern k2 s, l)
            else submit_run hw
              \<lparr>rq_qid = 4, rq_nid = ANE_FIFO_NID, rq_td_size = s_td_size args,
               rq_td_count = s_td_count args, rq_btsp_iova = bo_iova bo, rq_bar = bars1\<rparr>
              (put_kern k2 s) l))"

definition submit_cont :: "'k kapi \<Rightarrow> ane_hw \<Rightarrow> submit_args \<Rightarrow> 'k drv \<Rightarrow> access list \<Rightarrow> (int + u64 list) \<times> 'k \<Rightarrow>
    (int \<times> 'k drv \<times> access list) option" where
  "submit_cont K hw args s l x = (case x of (Inl err, k1) \<Rightarrow> Some (err, put_kern k1 s, l)
     | (Inr bars, k1) \<Rightarrow> submit_rest K hw args bars (put_kern k1 s) l)"

lemma submit_cont_simps [simp]:
  "submit_cont K hw args s l (Inl err, k1) = Some (err, put_kern k1 s, l)"
  "submit_cont K hw args s l (Inr bars, k1) = submit_rest K hw args bars (put_kern k1 s) l"
  by (simp_all add: submit_cont_def)

lemma submit_cont_put [simp]: "submit_cont K hw args (put_kern k s) l = submit_cont K hw args s l"
  by (rule ext) (auto simp: submit_cont_def split: prod.split sum.split)

lemma result_s_rest:
  "result K hw shift (Submitting (S_Bar (unat (hw_bar_count hw)) bars) args) s l x \<longleftrightarrow>
    gives submit_result (submit_rest K hw args bars s l) x"
proof -
  obtain p k1 where l: "k_lookup K (s_btsp_handle args) (d_kern s) = (p, k1)" by fastforce
  have use: "result K hw shift (Submitting (S_Btsp_Use bars1 b) args) s1 l x \<longleftrightarrow>
      gives submit_result (Option.bind (d_bos s1 b) (\<lambda>bo.
        if iova_too_high hw (bo_iova bo) then Some (- EINVAL, s1, l)
        else submit_run hw
          \<lparr>rq_qid = 4, rq_nid = ANE_FIFO_NID, rq_td_size = s_td_size args,
           rq_td_count = s_td_count args, rq_btsp_iova = bo_iova bo, rq_bar = bars1\<rparr> s1 l)) x" for bars1 b s1
    by (cases "d_bos s1 b") (auto simp: result_submit [of _ _ _ "S_Btsp_Use bars1 b"] with_bo_def result_s_enqueue)
  show ?thesis
    using l by (cases p)
      (auto simp: result_submit [of _ _ _ "S_Bar (unat (hw_bar_count hw)) bars"]
        result_submit [of _ _ _ "S_Btsp _"] use submit_rest_def Let_def)
qed

lemma result_s_bars:
  assumes "bdx + n = unat (hw_bar_count hw)"
  shows "result K hw shift (Submitting (S_Bar bdx bars) args) s l x \<longleftrightarrow>
    gives submit_result (Option.bind (submit_bars K hw shift (d_bos s) args bdx n bars (d_kern s))
      (submit_cont K hw args s l)) x"
  using assms
proof (induction n arbitrary: bdx bars s)
  case 0
  then show ?case by (simp add: result_s_rest)
next
  case (Suc n bdx bars s)
  have more: "result K hw shift (Submitting (S_Bar (Suc bdx) bars1) args) (put_kern k1 s) l x \<longleftrightarrow>
    gives submit_result (Option.bind (submit_bars K hw shift (d_bos s) args (Suc bdx) n bars1 k1)
      (submit_cont K hw args s l)) x" for bars1 k1
    using Suc.IH [of "Suc bdx" bars1 "put_kern k1 s"] Suc.prems by simp
  have bdx: "bdx \<noteq> unat (hw_bar_count hw)" using Suc.prems by simp
  consider (out) "\<not> (bdx < length (s_handles args) \<and> bdx < length bars)"
    | (zero) "bdx < length (s_handles args)" "bdx < length bars" "s_handles args ! bdx = 0"
    | (used) "bdx < length (s_handles args)" "bdx < length bars" "s_handles args ! bdx \<noteq> 0" by blast
  then show ?case
  proof cases
    case out
    with bdx show ?thesis
      by (auto simp: result_submit [of _ _ _ "S_Bar bdx bars"] submit_bar_def)
  next
    case zero
    then show ?thesis
      using bdx more [of bars "d_kern s"]
      by (simp add: result_submit [of _ _ _ "S_Bar bdx bars"] submit_bar_def Let_def)
  next
    case used
    obtain p k1 where l: "k_lookup K (s_handles args ! bdx) (d_kern s) = (p, k1)" by fastforce
    show ?thesis
    proof (cases p)
      case None
      with used bdx l show ?thesis
        by (simp add: result_submit [of _ _ _ "S_Bar bdx bars"] submit_bar_def Let_def)
    next
      case (Some b)
      with used bdx l have "result K hw shift (Submitting (S_Bar bdx bars) args) s l x \<longleftrightarrow>
          result K hw shift (Submitting (S_Bar_Use bdx bars b) args) (put_kern k1 s) l x"
        by (simp add: result_submit [of _ _ _ "S_Bar bdx bars"])
      then show ?thesis
        using used l Some
        by (cases "d_bos s b") (auto simp: result_submit [of _ _ _ "S_Bar_Use bdx bars b"] with_bo_def
          submit_bar_def Let_def more)
    qed
  qed
qed

lemma result_submit_call:
  "result K hw shift (Begun (Submit args)) s l x \<longleftrightarrow>
    gives submit_result (ane_submit K hw shift args s l) x"
proof (cases "submit_refused args")
  case True
  then show ?thesis by (simp add: ane_submit_def)
next
  case False
  have "ane_submit K hw shift args s l =
      Option.bind (submit_bars K hw shift (d_bos s) args 0 (unat (hw_bar_count hw))
          (replicate ANE_MAX_TILE_COUNT 0) (d_kern s))
        (submit_cont K hw args s l)"
    using False
    by (cases "submit_bars K hw shift (d_bos s) args 0 (unat (hw_bar_count hw))
          (replicate ANE_MAX_TILE_COUNT 0) (d_kern s)")
      (auto simp: ane_submit_def submit_cont_def submit_rest_def Let_def split: sum.split option.split prod.split bind_split)
  with False show ?thesis by (simp add: result_s_bars)
qed

section \<open>Calls\<close>

text \<open>Alone, a call that was begun gives the reply and the state of the driver as one step.\<close>

lemma alone_is_step:
  "(\<exists>n. alone K hw shift n (Begun c) s l = Some (r, s1, l1)) \<longleftrightarrow> ane_step K hw shift (s, l) c r (s1, l1)"
proof -
  have "result K hw shift (Begun c) s l (r, s1, l1) \<longleftrightarrow> ane_step K hw shift (s, l) c r (s1, l1)"
  proof (cases c)
    case Info
    then show ?thesis by auto
  next
    case (Bo_Init args)
    then show ?thesis by (auto simp: result_bo_init gives_def simp del: result_steps)
  next
    case (Bo_Free h pad)
    then show ?thesis by (auto simp: result_bo_free gives_def simp del: result_steps)
  next
    case (Submit args)
    then show ?thesis by (auto simp: result_submit_call gives_def simp del: result_steps)
  next
    case Suspend
    then show ?thesis
      by (auto simp: after_lock_def ane_runtime_suspend_def ane_iommu_invalidate_tlb_def lock_iommu_def
          unlock_simps split: option.splits)
  next
    case Resume
    then show ?thesis by (auto simp: ane_runtime_resume_def split: option.splits)
  qed
  then show ?thesis by (simp add: result_def)
qed

end
