(* ===== verification/Drv_Race.thy ===== *)
theory Drv_Race
  imports Drv_Sched Drv_Alone Drv_Correct
begin

text \<open>
  The properties of calls that run at once. They hold of every interleaving as long as no handle
  is freed that another call is using; \<open>double_free_race\<close> and \<open>submit_free_race\<close> show what
  happens otherwise, since \<open>ane_bo_free\<close> looks its handle up and deletes it in two steps.
\<close>

section \<open>All interleavings\<close>

text \<open>Every thread waits for a call or has one, with arguments the interface allows.\<close>

definition ready :: "'k kapi \<Rightarrow> thread list \<Rightarrow> bool" where
  "ready K ts \<longleftrightarrow> (\<forall>t \<in> set ts. (\<exists>r. t = Returned r) \<or> (\<exists>c. t = Begun c \<and> call_ok K c))"

lemma ready_start:
  assumes "sys_inv view lo hi shift (s, l)" and "ready K ts"
  shows "conc_inv K hw view lo hi shift (\<lambda>_. 4) ts s"
  by (rule conc_inv_start [OF assms(1)]) (use assms(2) in \<open>auto simp: ready_def between_def\<close>)

lemma ready_run:
  assumes "drm_kernel K view lo hi" and "sys_inv view lo hi shift (s, l)" and "ready K ts"
    and "cfg_ok K hw push shift" and "calm_run K hw shift (ts, s, l) (ts', s', l')"
  obtains lv where "conc_inv K hw view lo hi shift lv ts' s'"
  using drm_kernel.calm_run_ok [OF assms(1,5) ready_start [OF assms(2,3)] assms(4)] by auto

text \<open>C5: As long as no handle is freed that another call is using, in every state that interleaved
  calls reach, whatever their number and order, no thread is about to do anything undefined;
  while a call is running, some call can go on, so there is no deadlock; and whenever all
  calls have returned, the driver is in a state that calls made one after the other could
  start from: no mutex locked, nothing lost, each object whole.\<close>
theorem interleaved_calls_safe:
  assumes "drm_kernel K view lo hi" and "sys_inv view lo hi shift (s, l)" and "ready K ts"
    and "cfg_ok K hw push shift" and "calm_run K hw shift (ts, s, l) (ts', s', l')"
  shows "(\<forall>i < length ts'. thread_step K hw shift (ts' ! i) s' l' \<noteq> Undefined) \<and>
    (idle ts' \<or> (\<exists>i < length ts'. \<exists>t s1 l1. thread_step K hw shift (ts' ! i) s' l' = Goes t s1 l1)) \<and>
    (idle ts' \<longrightarrow> sys_inv view lo hi shift (s', l'))"
proof -
  obtain lv where inv: "conc_inv K hw view lo hi shift lv ts' s'" by (rule ready_run [OF assms])
  show ?thesis
    using drm_kernel.never_undefined [OF assms(1) inv _ assms(4), of _ l']
      drm_kernel.some_thread_goes [OF assms(1) inv assms(4), of l'] conc_inv_end [OF inv, of l']
    by blast
qed

text \<open>C6: Isolation while calls run at once, as long as no handle is freed that another call is
  using (\<open>calm_run\<close>) and each object asked for is below 4 GiB once rounded (\<open>ready\<close>): at every
  moment, also while objects are being created and freed, the object of a handle is mapped
  whole, objects of different handles have disjoint ranges, and the engine reaches no page
  but those of an object that is still there.\<close>
theorem interleaved_isolation:
  assumes "drm_kernel K view lo hi" and "sys_inv view lo hi shift (s, l)" and "ready K ts"
    and "cfg_ok K hw push shift" and "calm_run K hw shift (ts, s, l) (ts', s', l')"
  shows "let v = view (d_kern s'); bos = d_bos s' in
    (\<forall>h b. v_handles v h = Some b \<longrightarrow>
      (\<exists>bo. bos b = Some bo \<and> (\<forall>a pa. maps_page shift bo a pa \<longrightarrow> v_maps v a = Some pa))) \<and>
    (\<forall>h h' bo bo'. handle_bo v bos h = Some bo \<longrightarrow> handle_bo v bos h' = Some bo' \<longrightarrow> h \<noteq> h' \<longrightarrow>
      unat (bo_iova bo) + unat (bo_npages bo) * 2 ^ shift \<le> unat (bo_iova bo') \<or>
      unat (bo_iova bo') + unat (bo_npages bo') * 2 ^ shift \<le> unat (bo_iova bo)) \<and>
    (\<forall>a pa. v_maps v a = Some pa \<longrightarrow> (\<exists>b bo. bos b = Some bo \<and> maps_page shift bo a pa))"
proof -
  obtain lv where inv: "conc_inv K hw view lo hi shift lv ts' s'" by (rule ready_run [OF assms])
  let ?v = "view (d_kern s')" and ?bos = "d_bos s'"
  have lv: "level_inv lo hi shift lv ?bos ?v" using inv by (simp add: conc_inv_def Let_def)
  note named = level_named [OF lv]
  have "unat (bo_iova bo) + unat (bo_npages bo) * 2 ^ shift \<le> unat (bo_iova bo') \<or>
      unat (bo_iova bo') + unat (bo_npages bo') * 2 ^ shift \<le> unat (bo_iova bo)"
    if prems: "handle_bo ?v ?bos h = Some bo" "handle_bo ?v ?bos h' = Some bo'" "h \<noteq> h'" for h h' bo bo'
  proof -
    obtain b b' where b: "v_handles ?v h = Some b" "?bos b = Some bo" "v_handles ?v h' = Some b'" "?bos b' = Some bo'"
      using prems(1,2) by (auto simp: handle_bo_def bind_eq_Some_conv)
    then have "b \<noteq> b'" using named(4) [OF b(1), of h'] prems(3) by auto
    then show ?thesis
      using bo_ranges_apart [OF level_invD(1) [OF lv], of b bo b' bo'] named(1) [OF b(1)] named(1) [OF b(3)] b
      by (simp add: full_bos_eq)
  qed
  moreover have "\<exists>bo. ?bos b = Some bo \<and> (\<forall>a pa. maps_page shift bo a pa \<longrightarrow> v_maps ?v a = Some pa)"
    if h: "v_handles ?v h = Some b" for h b
    using named(1,2) [OF h] level_maps [OF lv] by blast
  moreover have "\<exists>b bo. ?bos b = Some bo \<and> maps_page shift bo a pa" if "v_maps ?v a = Some pa" for a pa
    using that level_maps [OF lv] by blast
  ultimately show ?thesis unfolding Let_def by simp
qed

text \<open>C7: A submission reads its objects one by one while other calls run. As long as no handle is
  freed that another call is using (\<open>calm_run\<close>) and each object asked for is below 4 GiB
  once rounded (\<open>ready\<close>), what it executes is the request that the specification resolves
  at that moment: every check still holds, its objects are mapped whole, and it is alone at
  the engine. Without that condition \<open>submit_free_race\<close> executes a stale request.\<close>
theorem interleaved_submit:
  assumes "drm_kernel K view lo hi" and "sys_inv view lo hi shift (s, l)" and "ready K ts"
    and "cfg_ok K hw push shift" and "calm_run K hw shift (ts, s, l) (ts', s', l')"
    and "i < length ts'" and "ts' ! i = Submitting (S_Execute req) args"
  shows "let v = view (d_kern s'); bos = d_bos s' in
    submit_valid hw shift v bos args \<and> req = spec_request hw v bos args \<and>
    (\<forall>h bo. h \<in> insert (s_btsp_handle args) (set (s_handles args)) \<longrightarrow> handle_bo v bos h = Some bo \<longrightarrow>
      (\<forall>a pa. maps_page shift bo a pa \<longrightarrow> v_maps v a = Some pa)) \<and>
    (\<forall>j < length ts'. in_engine (ts' ! j) \<longrightarrow> j = i)"
proof -
  obtain lv where inv: "conc_inv K hw view lo hi shift lv ts' s'" by (rule ready_run [OF assms(1-5)])
  let ?v = "view (d_kern s')" and ?bos = "d_bos s'"
  have lv: "level_inv lo hi shift lv ?bos ?v" using inv by (simp add: conc_inv_def Let_def)
  have "submit_valid hw shift ?v ?bos args \<and> req = spec_request hw ?v ?bos args"
    using conc_inv_local [OF inv assms(6)] assms(7) by (simp add: local_inv_def)
  moreover have "v_maps ?v a = Some pa" if "handle_bo ?v ?bos h = Some bo" "maps_page shift bo a pa" for h bo a pa
    using that level_named(1) [OF lv] level_maps [OF lv] by (fastforce simp: handle_bo_def bind_eq_Some_conv)
  moreover have "\<forall>j < length ts'. in_engine (ts' ! j) \<longrightarrow> j = i"
    using inv assms(6,7) unfolding conc_inv_def Let_def held_by_def by (metis in_engine.simps(1))
  ultimately show ?thesis by (auto simp: Let_def)
qed

section \<open>Calls end in every order\<close>

lemma schedule_append:
  "schedule K hw shift (is @ js) c = Option.bind (schedule K hw shift is c) (schedule K hw shift js)"
proof (induction "is" arbitrary: c)
  case (Cons i "is")
  then show ?case by (cases c) (auto split: outcome.splits)
qed simp

lemma rank_begun: "sum_list (map rank (map Begun cs)) = max_steps * length cs"
  by (induction cs) simp_all

context drm_kernel
begin

lemma schedule_to_end:
  assumes "schedule K hw shift is (map Begun cs, s, l) = Some (ts1, s1, l1)"
    and "sys_inv view lo hi shift (s, l)" and "cfg_ok K hw push shift" and "\<forall>c \<in> set cs. call_ok K c"
    and "polite (view (d_kern s)) (map Begun cs)"
  shows "\<exists>js ts2 s2 l2. schedule K hw shift (is @ js) (map Begun cs, s, l) = Some (ts2, s2, l2) \<and>
    idle ts2 \<and> sys_inv view lo hi shift (s2, l2)"
  using assms(1)
proof (induction "max_steps * length cs - length is" arbitrary: "is" ts1 s1 l1 rule: less_induct)
  case less
  have start: "conc_inv K hw view lo hi shift (\<lambda>_. 4) (map Begun cs) s"
    by (rule ready_start [OF assms(2)]) (use assms(4) in \<open>simp add: ready_def\<close>)
  obtain lv where inv: "conc_inv K hw view lo hi shift lv ts1 s1"
    using polite_schedule [OF less.prems assms(3) start assms(5)] by blast
  show ?case
  proof (cases "idle ts1")
    case True
    with less.prems conc_inv_end [OF inv True] show ?thesis
      by (intro exI [of _ "[]"] exI [of _ ts1] exI [of _ s1] exI [of _ l1]) simp
  next
    case False
    obtain i t s2 l2 where i: "i < length ts1" "thread_step K hw shift (ts1 ! i) s1 l1 = Goes t s2 l2"
      using some_thread_goes [OF inv assms(3) False] by blast
    then have more: "schedule K hw shift (is @ [i]) (map Begun cs, s, l) = Some (ts1[i := t], s2, l2)"
      using less.prems by (simp add: schedule_append)
    from schedule_bounded [OF this] have "length is < max_steps * length cs"
      unfolding rank_begun by simp
    then have "max_steps * length cs - length (is @ [i]) < max_steps * length cs - length is" by simp
    from less.hyps [OF this more] show ?thesis by (metis append_assoc)
  qed
qed

lemma schedule_calm_run:
  assumes "schedule K hw shift is (ts, s, l) = Some c" and "cfg_ok K hw push shift"
    and "conc_inv K hw view lo hi shift lv ts s" and "polite (view (d_kern s)) ts"
    and "calm_run K hw shift c0 (ts, s, l)"
  shows "calm_run K hw shift c0 c"
  using assms(1,3,4,5)
proof (induction "is" arbitrary: ts s l lv)
  case (Cons i "is")
  then obtain t s1 l1 where i: "i < length ts" and t: "thread_step K hw shift (ts ! i) s l = Goes t s1 l1"
    and rest: "schedule K hw shift is (ts[i := t], s1, l1) = Some c"
    by (auto split: if_splits outcome.splits)
  note step = polite_step [OF Cons.prems(2) assms(2) Cons.prems(3) i t]
  obtain lv1 where "conc_inv K hw view lo hi shift lv1 (ts[i := t]) s1" using step(2) by (rule exE)
  from Cons.IH [OF rest this step(1)
      calm_more [OF Cons.prems(4) polite_calm [OF Cons.prems(3) i] conc_thread [OF i t]]]
  show ?case .
qed auto

end

text \<open>C19: Calls made at once, each of which frees, if any, a handle that exists and that no other
  one works on (\<open>polite\<close>), and asks for less than 4 GiB (\<open>call_ok\<close>), all return,
  however they are scheduled: no schedule is longer than 201 steps per call or comes to an
  undefined step, each one can be continued until all have returned, and the state is then one
  that calls made one after the other could start from.\<close>
theorem compatible_calls_return:
  assumes "drm_kernel K view lo hi" and "sys_inv view lo hi shift (s, l)" and "cfg_ok K hw push shift"
    and "\<forall>c \<in> set cs. call_ok K c" and "polite (view (d_kern s)) (map Begun cs)"
    and "schedule K hw shift is (map Begun cs, s, l) = Some (ts1, s1, l1)"
  shows "length is \<le> max_steps * length cs \<and>
    (\<forall>i < length ts1. thread_step K hw shift (ts1 ! i) s1 l1 \<noteq> Undefined) \<and>
    (\<exists>js ts2 s2 l2. schedule K hw shift (is @ js) (map Begun cs, s, l) = Some (ts2, s2, l2) \<and>
      idle ts2 \<and> sys_inv view lo hi shift (s2, l2))"
proof (intro conjI)
  show "length is \<le> max_steps * length cs"
    using schedule_bounded [OF assms(6)] by (simp only: rank_begun)
  have start: "conc_inv K hw view lo hi shift (\<lambda>_. 4) (map Begun cs) s"
    by (rule ready_start [OF assms(2)]) (use assms(4) in \<open>simp add: ready_def\<close>)
  obtain lv where inv: "conc_inv K hw view lo hi shift lv ts1 s1"
    using drm_kernel.polite_schedule [OF assms(1,6,3) start assms(5)] by blast
  show "\<forall>i < length ts1. thread_step K hw shift (ts1 ! i) s1 l1 \<noteq> Undefined"
    using drm_kernel.never_undefined [OF assms(1) inv _ assms(3)] by blast
  show "\<exists>js ts2 s2 l2. schedule K hw shift (is @ js) (map Begun cs, s, l) = Some (ts2, s2, l2) \<and>
      idle ts2 \<and> sys_inv view lo hi shift (s2, l2)"
    by (rule drm_kernel.schedule_to_end [OF assms(1,6,2-5)])
qed

section \<open>Freeing a handle that is in use\<close>

text \<open>What a thread does alone it can do among others that wait.\<close>

lemma update_same: "xs ! i = x \<Longrightarrow> xs[i := x] = xs"
  using list_update_id [of xs i] by simp

lemma alone_schedule:
  assumes "alone K hw shift n (ts ! i) s l = Some (r, s1, l1)" and "i < length ts"
  shows "\<exists>m. schedule K hw shift (replicate m i) (ts, s, l) = Some (ts[i := Returned r], s1, l1)"
  using assms
proof (induction n arbitrary: ts s l)
  case 0
  then obtain r' where "ts ! i = Returned r'" by (cases "ts ! i") auto
  with 0 have "schedule K hw shift (replicate 0 i) (ts, s, l) = Some (ts[i := Returned r], s1, l1)"
    by (auto simp: update_same)
  then show ?case ..
next
  case (Suc n)
  show ?case
  proof (cases "\<exists>r. ts ! i = Returned r")
    case True
    then obtain r' where "ts ! i = Returned r'" ..
    with Suc have "schedule K hw shift (replicate 0 i) (ts, s, l) = Some (ts[i := Returned r], s1, l1)"
      by (auto simp: update_same)
    then show ?thesis ..
  next
    case False
    have "alone K hw shift (Suc n) (ts ! i) s l =
       (case thread_step K hw shift (ts ! i) s l of Goes t2 s2 l2 \<Rightarrow> alone K hw shift n t2 s2 l2 | _ \<Rightarrow> None)"
      using False by (cases "ts ! i") simp_all
    then obtain t2 s2 l2 where go: "thread_step K hw shift (ts ! i) s l = Goes t2 s2 l2"
      and rest: "alone K hw shift n ((ts[i := t2]) ! i) s2 l2 = Some (r, s1, l1)"
      using Suc.prems by (auto split: outcome.splits)
    obtain m where "schedule K hw shift (replicate m i) (ts[i := t2], s2, l2) =
        Some (ts[i := t2, i := Returned r], s1, l1)"
      using Suc.IH [OF rest] Suc.prems(2) by auto
    then have "schedule K hw shift (replicate (Suc m) i) (ts, s, l) = Some (ts[i := Returned r], s1, l1)"
      using go Suc.prems(2) by simp
    then show ?thesis ..
  qed
qed

text \<open>C40: Freeing one handle twice at once is not safe, on any kernel and for every handle that is in
  use: when both calls look the handle up before one of them deletes it, that one frees the
  object and the other, which never looks again, goes on to read it and free it once more.\<close>
theorem double_free_race:
  assumes "drm_kernel K view lo hi" and "sys_inv view lo hi shift (s, l)" and "shift < 32"
    and "v_handles (view (d_kern s)) h = Some b"
  shows "\<exists>is t s1. schedule K hw shift is ([Begun (Bo_Free h 0), Begun (Bo_Free h 0)], s, l) =
      Some ([Returned (Result 0), t], s1, l) \<and> d_bos s1 b = None \<and>
    thread_step K hw shift t s1 l = Undefined"
proof -
  obtain q k1 where "k_lookup K h (d_kern s) = (q, k1)" by fastforce
  with drm_kernel.lookup [OF assms(1) this] assms(4)
  have look: "k_lookup K h (d_kern s) = (Some b, k1)" and same: "same_resources (view (d_kern s)) (view k1)"
    by (auto simp: same_resources_fields)
  let ?s1 = "put_kern k1 s"
  have inv: "drv_inv view lo hi shift ?s1" and h: "v_handles (view k1) h = Some b"
    using assms(2,4) same bos_inv_same_resources [OF same] by (auto simp: sys_inv_def drv_inv_def same_resources_fields)
  obtain s2 where free: "ane_bo_free K shift h 0 ?s1 = Some (0, s2)" and gone: "d_bos s2 b = None"
    and h2: "v_handles (view (d_kern s2)) h = None"
    using drm_kernel.ane_bo_free_ok [OF assms(1) inv assms(3), of h 0] h by auto
  let ?ts = "[Begun (Bo_Free h 0), Freeing h b]"
  have "ane_step K hw shift (?s1, l) (Bo_Free h 0) (Result 0) (s2, l)" using free by simp
  from alone_is_step [THEN iffD2, OF this]
  obtain n where "alone K hw shift n (?ts ! 0) ?s1 l = Some (Result 0, s2, l)" by auto
  from alone_schedule [OF this] obtain m where
    m: "schedule K hw shift (replicate m 0) (?ts, ?s1, l) = Some ([Returned (Result 0), Freeing h b], s2, l)"
    by auto
  let ?s3 = "put_kern (k_handle_delete K h (d_kern s2)) s2" and ?t = "Unwinding U_Unmap b (Result 0)"
  have "schedule K hw shift ([1] @ replicate m 0 @ [1]) ([Begun (Bo_Free h 0), Begun (Bo_Free h 0)], s, l) =
      Some ([Returned (Result 0), ?t], ?s3, l)"
    using m look by (simp add: schedule_append delete_step_def)
  moreover have "thread_step K hw shift ?t ?s3 l = Undefined" using gone by (simp add: with_bo_def)
  moreover have "d_bos ?s3 b = None" using gone by simp
  ultimately show ?thesis by blast
qed

theorem double_free_race_witness:
  "\<exists>is t s1. schedule sample_api sample_h13 14 is ([Begun (Bo_Free 1 0), Begun (Bo_Free 1 0)], sample_drv, []) =
      Some ([Returned (Result 0), t], s1, []) \<and> d_bos s1 1 = None \<and>
    thread_step sample_api sample_h13 14 t s1 [] = Undefined"
  by (rule double_free_race [OF ref.drm_kernel_axioms sample_sys_inv]) (simp_all add: sample_view)

text \<open>Addresses of handle 0 are skipped.\<close>

lemma skip_bars:
  assumes "i < length ts" and "ts ! i = Submitting (S_Bar bdx bars) args"
    and "bdx + n \<le> unat (hw_bar_count hw)"
    and "\<And>j. bdx \<le> j \<Longrightarrow> j < bdx + n \<Longrightarrow> j < length (s_handles args) \<and> j < length bars \<and> s_handles args ! j = 0"
  shows "schedule K hw shift (replicate n i) (ts, s, l) = Some (ts[i := Submitting (S_Bar (bdx + n) bars) args], s, l)"
  using assms
proof (induction n arbitrary: bdx ts)
  case 0
  then show ?case by (simp add: update_same)
next
  case (Suc n)
  have here: "bdx < length (s_handles args)" "bdx < length bars" "s_handles args ! bdx = 0" "bdx \<noteq> unat (hw_bar_count hw)"
    using Suc.prems(3) Suc.prems(4) [of bdx] by simp_all
  have "schedule K hw shift (replicate n i) (ts[i := Submitting (S_Bar (Suc bdx) bars) args], s, l) =
      Some (ts[i := Submitting (S_Bar (Suc bdx) bars) args, i := Submitting (S_Bar (Suc bdx + n) bars) args], s, l)"
    by (rule Suc.IH) (use Suc.prems in auto)
  with here Suc.prems(1,2) show ?case by simp
qed

section \<open>A submission and other calls\<close>

text \<open>Two threads on the driver of two objects: a submission that uses both of them, and a call
  that goes on in its midst.\<close>


definition sample_bars :: "u64 list" where
  "sample_bars = 0x4000 # replicate 96 0"

definition executed :: ane_request where
  "executed = \<lparr>rq_qid = 4, rq_nid = ANE_FIFO_NID, rq_td_size = 0x274, rq_td_count = 1,
     rq_btsp_iova = 0x8000, rq_bar = sample_bars[1 := 0x4100]\<rparr>"

lemma sample_bars_start: "(replicate ANE_MAX_TILE_COUNT 0)[0 := 0x4000] = sample_bars"
  by (simp add: sample_bars_def numeral_eq_Suc)

lemma submit_rest:
  assumes "map_of (rk_handles (d_kern s)) 2 = Some 3" and "d_bos s 3 = Some (sample_bo 4 0x8000 pa)"
    and "\<not> d_engine_lock s"
  shows "\<exists>s'. schedule sample_api sample_h13 14 (replicate 31 0 @ [0, 0, 0, 0])
      ([Submitting (S_Bar 1 sample_bars) sample_submit, t], s, l) =
      Some ([Submitting (S_Execute executed) sample_submit, t], s', l @ h13_enqueue_trace executed) \<and>
    d_bos s' = d_bos s \<and> rk_maps (d_kern s') = rk_maps (d_kern s)"
proof -
  have n: "unat (hw_bar_count sample_h13) = 32" by (simp add: ane_hw_h13_def)
  have zero: "j < length (s_handles sample_submit) \<and> j < length sample_bars \<and> s_handles sample_submit ! j = 0"
    if "1 \<le> j" "j < 1 + 31" for j
    using that by (cases j) (simp_all add: sample_submit_def sample_bars_def)
  have skip: "schedule sample_api sample_h13 14 (replicate 31 0)
      ([Submitting (S_Bar 1 sample_bars) sample_submit, t], s, l) =
      Some ([Submitting (S_Bar 32 sample_bars) sample_submit, t], s, l)"
    using skip_bars [of 0 "[Submitting (S_Bar 1 sample_bars) sample_submit, t]" 1 sample_bars sample_submit 31 sample_h13]
      n zero by simp
  have bars: "sample_bars[1 := sample_bars ! 0 + round_up (s_tsk_size sample_submit) ANE_CMD_GRAN] = sample_bars[1 := 0x4100]"
    by (simp add: sample_bars_def sample_submit_def round_up_def)
  have enq: "hw_tm_enqueue sample_h13 executed l = Some (0, l @ h13_enqueue_trace executed)"
    using h13_enqueue_eq [of executed l] by (simp add: ane_hw_h13_def executed_def sample_bars_def)
  have hdl: "s_btsp_handle sample_submit = 2" "s_td_size sample_submit = 0x274" "s_td_count sample_submit = 1"
    by (simp_all add: sample_submit_def)
  have low: "\<not> iova_too_high sample_h13 0x8000" by (simp add: iova_too_high_def upper_32_bits_def)
  show ?thesis
    unfolding schedule_append skip
    using assms enq low n bars hdl
    by (simp add: ref_kapi_def ref_lookup_def put_kern_def with_bo_def executed_def after_lock_def)
qed

lemma submit_first_bar:
  "\<exists>s1. schedule sample_api sample_h13 14 [0, 0, 0] ([Begun (Submit sample_submit), t], sample_drv, l) =
      Some ([Submitting (S_Bar 1 sample_bars) sample_submit, t], s1, l) \<and>
    s1 = sample_drv\<lparr>d_kern := sample_kernel\<lparr>rk_refs := (\<lambda>_. 0)(1 := 2, 3 := 1)\<rparr>\<rparr>"
  by (simp add: sample_submit_def submit_refused_def ref_kapi_def ref_lookup_def sample_kernel_def
      put_kern_def with_bo_def ane_hw_h13_def)
    (simp add: sample_drv_def iova_too_high_def upper_32_bits_def bo_bytes_def sample_bars_start fun_eq_iff)

lemma free_one:
  assumes "s = sample_drv\<lparr>d_kern := sample_kernel\<lparr>rk_refs := f\<rparr>\<rparr>"
  shows "\<exists>s1. schedule sample_api hw 14 (replicate 10 1) ([t, Begun (Bo_Free 1 0)], s, l) =
      Some ([t, Returned (Result 0)], s1, l) \<and>
    rk_handles (d_kern s1) = [(2, 3)] \<and> rk_maps (d_kern s1) = [0x8000 \<mapsto> 0x800004000] \<and>
    d_bos s1 = [3 \<mapsto> sample_bo 4 0x8000 0x800004000] \<and> \<not> d_engine_lock s1"
  unfolding assms
  apply (simp add: ref_kapi_def ref_lookup_def sample_drv_def sample_kernel_def put_kern_def numeral_eq_Suc)
  apply (simp add: ref_lookup_def put_kern_def delete_step_def ref_handle_delete_def)
  apply (simp add: with_bo_def after_lock_def unmap_section_def put_kern_def goes_def unlock_iommu_def
      drv_kfree_def ref_kfree_def free_bo_def page_iova_def)
  done

text \<open>A submission keeps nothing of the objects it has looked up from being freed: once it has read
  the address of its first object, another call may free that object, and the engine is still
  handed the address, where no page is mapped any more.\<close>
theorem submit_free_race:
  "\<exists>is s1 l1. schedule sample_api sample_h13 14 is
      ([Begun (Submit sample_submit), Begun (Bo_Free 1 0)], sample_drv, []) =
      Some ([Submitting (S_Execute executed) sample_submit, Returned (Result 0)], s1, l1) \<and>
    writes_to (TQ_BAR1 4 0) l1 = [0x4000] \<and> d_bos s1 1 = None \<and> v_maps (ref_view (d_kern s1)) 0x4000 = None"
proof -
  obtain s1 where s1: "schedule sample_api sample_h13 14 [0, 0, 0]
      ([Begun (Submit sample_submit), Begun (Bo_Free 1 0)], sample_drv, []) =
      Some ([Submitting (S_Bar 1 sample_bars) sample_submit, Begun (Bo_Free 1 0)], s1, [])"
    "s1 = sample_drv\<lparr>d_kern := sample_kernel\<lparr>rk_refs := (\<lambda>_. 0)(1 := 2, 3 := 1)\<rparr>\<rparr>"
    using submit_first_bar by blast
  obtain s2 where s2: "schedule sample_api sample_h13 14 (replicate 10 1)
      ([Submitting (S_Bar 1 sample_bars) sample_submit, Begun (Bo_Free 1 0)], s1, []) =
      Some ([Submitting (S_Bar 1 sample_bars) sample_submit, Returned (Result 0)], s2, [])"
    "rk_handles (d_kern s2) = [(2, 3)]" "rk_maps (d_kern s2) = [0x8000 \<mapsto> 0x800004000]"
    "d_bos s2 = [3 \<mapsto> sample_bo 4 0x8000 0x800004000]" "\<not> d_engine_lock s2"
    using free_one [OF s1(2)] by blast
  obtain s3 where s3: "schedule sample_api sample_h13 14 (replicate 31 0 @ [0, 0, 0, 0])
      ([Submitting (S_Bar 1 sample_bars) sample_submit, Returned (Result 0)], s2, []) =
      Some ([Submitting (S_Execute executed) sample_submit, Returned (Result 0)], s3, [] @ h13_enqueue_trace executed)"
    "d_bos s3 = d_bos s2" "rk_maps (d_kern s3) = rk_maps (d_kern s2)"
    using submit_rest [of s2 "0x800004000" "Returned (Result 0)" "[]"] s2 by auto
  have "schedule sample_api sample_h13 14 ([0, 0, 0] @ replicate 10 1 @ (replicate 31 0 @ [0, 0, 0, 0]))
      ([Begun (Submit sample_submit), Begun (Bo_Free 1 0)], sample_drv, []) =
      Some ([Submitting (S_Execute executed) sample_submit, Returned (Result 0)], s3, h13_enqueue_trace executed)"
    unfolding schedule_append s1(1) bind.bind_lunit s2(1) using s3(1) [unfolded schedule_append] by (simp only: append_Nil)
  moreover have "writes_to (TQ_BAR1 4 0) (h13_enqueue_trace executed) = [0x4000]"
    using h13_enqueue_bar [of 0 executed] by (simp add: executed_def sample_bars_def lower_32_bits_def)
  moreover have "d_bos s3 1 = None" "v_maps (ref_view (d_kern s3)) 0x4000 = None"
    using s2 s3 by (simp_all add: ref_view_def)
  ultimately show ?thesis by blast
qed

section \<open>The properties at work\<close>

text \<open>A runtime suspend holds the mutex of the address space while a submission runs.\<close>

abbreviation sample_threads :: "thread list" where
  "sample_threads \<equiv> map Begun [Submit sample_submit, Suspend]"

abbreviation executing :: "thread list" where
  "executing \<equiv> [Submitting (S_Execute executed) sample_submit, Suspending]"

lemma sample_ready: "ready sample_api sample_threads"
  by (simp add: ready_def call_ok_def sample_submit_shape)

lemma sample_executing:
  obtains s1 where "calm_run sample_api sample_h13 14 (sample_threads, sample_drv, [])
      (executing, s1, h13_enqueue_trace executed)"
    and "d_bos s1 = d_bos sample_drv" and "rk_maps (d_kern s1) = rk_maps sample_kernel"
proof -
  let ?t = "Begun Suspend" and ?u = "Submitting (S_Bar 1 sample_bars) sample_submit"
  obtain s1 where s1: "schedule sample_api sample_h13 14 [0, 0, 0] (sample_threads, sample_drv, []) = Some ([?u, ?t], s1, [])"
    "s1 = sample_drv\<lparr>d_kern := sample_kernel\<lparr>rk_refs := (\<lambda>_. 0)(1 := 2, 3 := 1)\<rparr>\<rparr>"
    using submit_first_bar [of ?t "[]"] by auto
  let ?s2 = "s1\<lparr>d_iommu_lock := True\<rparr>"
  have s2: "schedule sample_api sample_h13 14 [1] ([?u, ?t], s1, []) = Some ([?u, Suspending], ?s2, [])"
    by (simp add: s1(2) after_lock_def put_kern_def ref_kapi_def)
  obtain s3 where s3: "schedule sample_api sample_h13 14 (replicate 31 0 @ [0, 0, 0, 0]) ([?u, Suspending], ?s2, []) =
      Some (executing, s3, [] @ h13_enqueue_trace executed)"
    "d_bos s3 = d_bos ?s2" "rk_maps (d_kern s3) = rk_maps (d_kern ?s2)"
    using submit_rest [of ?s2 "0x800004000" Suspending "[]"] s1(2)
    by (auto simp: sample_kernel_def sample_drv_def)
  have run: "schedule sample_api sample_h13 14 ([0, 0, 0] @ [1] @ (replicate 31 0 @ [0, 0, 0, 0])) (sample_threads, sample_drv, []) =
      Some (executing, s3, h13_enqueue_trace executed)"
    unfolding schedule_append s1(1) bind.bind_lunit s2 using s3(1) [unfolded schedule_append] by (simp only: append_Nil)
  have "polite (ref_view (d_kern sample_drv)) sample_threads"
    by (simp add: polite_def frees_def nth_Cons split: nat.split)
  from drm_kernel.schedule_calm_run [OF ref.drm_kernel_axioms run sample_cfg_ok
      ready_start [OF sample_sys_inv sample_ready] this calm_none]
  show thesis using s3 s1(2) by (intro that) auto
qed

theorem interleaved_calls_safe_witness:
  "\<exists>s1 l1. calm_run sample_api sample_h13 14 (sample_threads, sample_drv, []) (executing, s1, l1) \<and>
    thread_step sample_api sample_h13 14 Suspending s1 l1 \<noteq> Undefined"
proof -
  obtain s1 where run: "calm_run sample_api sample_h13 14 (sample_threads, sample_drv, [])
      (executing, s1, h13_enqueue_trace executed)" by (rule sample_executing)
  from interleaved_calls_safe [OF ref.drm_kernel_axioms sample_sys_inv sample_ready sample_cfg_ok run,
      THEN conjunct1, THEN spec [of _ 1]]
  have "thread_step sample_api sample_h13 14 Suspending s1 (h13_enqueue_trace executed) \<noteq> Undefined"
    by simp
  with run show ?thesis by auto
qed

theorem interleaved_isolation_witness:
  "\<exists>s1 l1. calm_run sample_api sample_h13 14 (sample_threads, sample_drv, []) (executing, s1, l1) \<and>
    (\<exists>b bo. d_bos s1 b = Some bo \<and> maps_page 14 bo 0x8000 0x800004000)"
proof -
  obtain s1 where run: "calm_run sample_api sample_h13 14 (sample_threads, sample_drv, [])
      (executing, s1, h13_enqueue_trace executed)" and maps: "rk_maps (d_kern s1) = rk_maps sample_kernel"
    by (rule sample_executing)
  from interleaved_isolation [OF ref.drm_kernel_axioms sample_sys_inv sample_ready sample_cfg_ok run]
  have "\<exists>b bo. d_bos s1 b = Some bo \<and> maps_page 14 bo 0x8000 0x800004000"
    using maps by (simp add: Let_def) (simp add: ref_view_def sample_kernel_def)
  with run show ?thesis by blast
qed

theorem interleaved_submit_witness:
  "\<exists>s1 l1. calm_run sample_api sample_h13 14 (sample_threads, sample_drv, []) (executing, s1, l1) \<and>
    executed = spec_request sample_h13 (ref_view (d_kern s1)) (d_bos s1) sample_submit"
proof -
  obtain s1 where run: "calm_run sample_api sample_h13 14 (sample_threads, sample_drv, [])
      (executing, s1, h13_enqueue_trace executed)" by (rule sample_executing)
  have "executed = spec_request sample_h13 (ref_view (d_kern s1)) (d_bos s1) sample_submit"
    using interleaved_submit [OF ref.drm_kernel_axioms sample_sys_inv sample_ready sample_cfg_ok run, of 0]
    by (simp add: Let_def)
  with run show ?thesis by blast
qed

text \<open>Both objects freed and one created at once.\<close>

definition sample_mix :: "ane_call list" where
  "sample_mix = [Bo_Free 1 0, Bo_Init sample_init, Bo_Free 2 0]"

theorem compatible_calls_return_witness:
  "\<exists>is ts2 s2 l2. schedule sample_api sample_h13 14 ([2, 0] @ is) (map Begun sample_mix, sample_drv, []) =
     Some (ts2, s2, l2) \<and> idle ts2 \<and> sys_inv ref_view 0x4000 0xe0000000 14 (s2, l2)"
proof -
  have polite: "polite (ref_view (d_kern sample_drv)) (map Begun sample_mix)"
    by (auto simp: polite_def frees_def sample_mix_def sample_view nth_Cons split: nat.splits)
  have ok: "\<forall>c \<in> set sample_mix. call_ok sample_api c"
    using sample_call_ok by (simp add: sample_mix_def call_ok_def)
  obtain ts1 s1 l1 where "schedule sample_api sample_h13 14 [2, 0] (map Begun sample_mix, sample_drv, []) = Some (ts1, s1, l1)"
    by (simp add: sample_mix_def ref_kapi_def ref_lookup_def sample_kernel_def)
  from compatible_calls_return [OF ref.drm_kernel_axioms sample_sys_inv sample_cfg_ok ok polite this]
  show ?thesis by blast
qed

end
