(* ===== verification/Lib_Bo.thy ===== *)
theory Lib_Bo
  imports Hwx_Query "HOL-Library.Multiset"
begin

text \<open>
  The buffer objects of \<open>src/src/libane/ane.c\<close>: \<open>bo_init\<close>, \<open>bo_free\<close>, \<open>bo_mmap\<close>,
  \<open>bo_munmap\<close>, and \<open>ane_bo_init\<close> and \<open>ane_bo_free\<close> on top of them (the names carry the prefix
  \<open>lib_\<close> where the driver has a function of the same name).

  The library reaches the driver through a device node. What it relies on is the locale
  \<open>accel_node\<close>; the model of the driver itself provides it in \<open>Lib_Driver\<close>.
\<close>

section \<open>The device node\<close>

text \<open>\<open>open\<close>, \<open>close\<close>, the version ioctl (an error or the driver's name), the ioctls
  \<open>DRM_IOCTL_ANE_BO_INIT\<close> (error, handle, offset) and \<open>DRM_IOCTL_ANE_BO_FREE\<close>, and \<open>mmap\<close> (an
  address and the contents, or \<open>MAP_FAILED\<close>). An ioctl that never returns has no result.\<close>

record 'd dapi =
  d_open :: "string \<Rightarrow> 'd \<Rightarrow> nat option \<times> 'd"
  d_close :: "nat \<Rightarrow> 'd \<Rightarrow> 'd"
  d_version :: "nat \<Rightarrow> 'd \<Rightarrow> (int + bytes) \<times> 'd"
  d_bo_init :: "nat \<Rightarrow> u64 \<Rightarrow> 'd \<Rightarrow> ((int \<times> u32 \<times> u64) \<times> 'd) option"
  d_bo_free :: "nat \<Rightarrow> u32 \<Rightarrow> 'd \<Rightarrow> 'd option"
  d_mmap :: "nat \<Rightarrow> u64 \<Rightarrow> u64 \<Rightarrow> 'd \<Rightarrow> (nat \<times> bytes) option \<times> 'd"
  d_munmap :: "nat \<Rightarrow> u64 \<Rightarrow> 'd \<Rightarrow> 'd"

text \<open>What the library can hold of a node: descriptors, handles of a descriptor, mappings.\<close>

record dview =
  dv_fds :: "nat set"
  dv_handles :: "(nat \<times> u32) set"
  dv_maps :: "nat set"

locale accel_node =
  fixes D :: "'d dapi" and dview :: "'d \<Rightarrow> dview" and inv :: "'d \<Rightarrow> bool" and size_ok :: "u64 \<Rightarrow> bool"
  assumes dev_open: "inv d \<Longrightarrow> d_open D p d = (r, d1) \<Longrightarrow> inv d1 \<and>
      (case r of None \<Rightarrow> dview d1 = dview d
       | Some fd \<Rightarrow> fd \<notin> dv_fds (dview d) \<and> (\<forall>h. (fd, h) \<notin> dv_handles (dview d)) \<and>
           dview d1 = (dview d)\<lparr>dv_fds := insert fd (dv_fds (dview d))\<rparr>)"
    and dev_close: "inv d \<Longrightarrow> fd \<in> dv_fds (dview d) \<Longrightarrow> (\<And>h. (fd, h) \<notin> dv_handles (dview d)) \<Longrightarrow>
      inv (d_close D fd d) \<and> dview (d_close D fd d) = (dview d)\<lparr>dv_fds := dv_fds (dview d) - {fd}\<rparr>"
    and dev_version: "inv d \<Longrightarrow> inv (snd (d_version D fd d)) \<and> dview (snd (d_version D fd d)) = dview d"
    and dev_name: "d_version D fd d = (Inr name, d1) \<Longrightarrow> d_version D fd d1 = (Inr name1, d2) \<Longrightarrow> name1 = name"
    and dev_bo_init: "inv d \<Longrightarrow> fd \<in> dv_fds (dview d) \<Longrightarrow> size_ok sz \<Longrightarrow>
      \<exists>e h off d1. d_bo_init D fd sz d = Some ((e, h, off), d1) \<and> inv d1 \<and>
        (if e < 0 then dview d1 = dview d
         else h \<noteq> 0 \<and> (fd, h) \<notin> dv_handles (dview d) \<and>
           dview d1 = (dview d)\<lparr>dv_handles := insert (fd, h) (dv_handles (dview d))\<rparr>)"
    and dev_bo_free: "inv d \<Longrightarrow> fd \<in> dv_fds (dview d) \<Longrightarrow> (fd, h) \<in> dv_handles (dview d) \<Longrightarrow>
      \<exists>d1. d_bo_free D fd h d = Some d1 \<and> inv d1 \<and>
        dview d1 = (dview d)\<lparr>dv_handles := dv_handles (dview d) - {(fd, h)}\<rparr>"
    and dev_mmap: "inv d \<Longrightarrow> d_mmap D fd sz off d = (m, d1) \<Longrightarrow> inv d1 \<and>
      (case m of None \<Rightarrow> dview d1 = dview d
       | Some (a, bs) \<Rightarrow> a \<notin> dv_maps (dview d) \<and> length bs = unat sz \<and>
           dview d1 = (dview d)\<lparr>dv_maps := insert a (dv_maps (dview d))\<rparr>)"
    and dev_munmap: "inv d \<Longrightarrow> a \<in> dv_maps (dview d) \<Longrightarrow> inv (d_munmap D a sz d) \<and>
      dview (d_munmap D a sz d) = (dview d)\<lparr>dv_maps := dv_maps (dview d) - {a}\<rparr>"

section \<open>State\<close>

text \<open>The state of a process that uses the library: heap and files, the device, and the mapped
  memory by address.\<close>

record 'd lib =
  l_io :: io
  l_dev :: 'd
  l_mem :: "nat \<rightharpoonup> bytes"

definition put_dev :: "'d \<Rightarrow> 'd lib \<Rightarrow> 'd lib" where
  "put_dev d s = s\<lparr>l_dev := d\<rparr>"

definition put_io :: "io \<Rightarrow> 'd lib \<Rightarrow> 'd lib" where
  "put_io w s = s\<lparr>l_io := w\<rparr>"

definition put_mem :: "nat \<Rightarrow> bytes \<Rightarrow> 'd lib \<Rightarrow> 'd lib" where
  "put_mem a bs s = s\<lparr>l_mem := (l_mem s)(a \<mapsto> bs)\<rparr>"

lemma put_simps [simp]:
  "l_dev (put_dev d s) = d" "l_io (put_dev d s) = l_io s" "l_mem (put_dev d s) = l_mem s"
  "l_io (put_io w s) = w" "l_dev (put_io w s) = l_dev s" "l_mem (put_io w s) = l_mem s"
  "l_mem (put_mem a bs s) = (l_mem s)(a \<mapsto> bs)" "l_dev (put_mem a bs s) = l_dev s"
  "l_io (put_mem a bs s) = l_io s"
  by (simp_all add: put_dev_def put_io_def put_mem_def)

text \<open>\<open>struct ane_bo\<close> of the library\<close>

record lib_bo =
  lb_map :: ptr
  lb_size :: u64
  lb_handle :: u32
  lb_offset :: u64

definition zero_bo :: lib_bo where
  "zero_bo = \<lparr>lb_map = None, lb_size = 0, lb_handle = 0, lb_offset = 0\<rparr>"

section \<open>Operations\<close>

type_synonym 'd bo_result = "(int \<times> lib_bo \<times> 'd lib) option"

definition bo_init :: "'d dapi \<Rightarrow> nat \<Rightarrow> lib_bo \<Rightarrow> 'd lib \<Rightarrow> 'd bo_result" where
  "bo_init D fd bo s = map_option (\<lambda>((err, handle, offset), d).
     if err < 0 then (- EINVAL, bo, put_dev d s)
     else (0, bo\<lparr>lb_handle := handle, lb_offset := offset\<rparr>, put_dev d s))
   (d_bo_init D fd (lb_size bo) (l_dev s))"

definition bo_free :: "'d dapi \<Rightarrow> nat \<Rightarrow> lib_bo \<Rightarrow> 'd lib \<Rightarrow> (lib_bo \<times> 'd lib) option" where
  "bo_free D fd bo s = map_option (\<lambda>s1. (bo\<lparr>lb_handle := 0, lb_offset := 0\<rparr>, s1))
     (if lb_handle bo \<noteq> 0
      then map_option (\<lambda>d. put_dev d s) (d_bo_free D fd (lb_handle bo) (l_dev s)) else Some s)"

definition bo_mmap :: "'d dapi \<Rightarrow> nat \<Rightarrow> lib_bo \<Rightarrow> 'd lib \<Rightarrow> int \<times> lib_bo \<times> 'd lib" where
  "bo_mmap D fd bo s =
     (case d_mmap D fd (lb_size bo) (lb_offset bo) (l_dev s) of
        (None, d) \<Rightarrow> (- EINVAL, bo\<lparr>lb_map := None\<rparr>, put_dev d s)
      | (Some (a, bs), d) \<Rightarrow> (0, bo\<lparr>lb_map := Some a\<rparr>, put_mem a bs (put_dev d s)))"

definition bo_munmap :: "'d dapi \<Rightarrow> lib_bo \<Rightarrow> 'd lib \<Rightarrow> lib_bo \<times> 'd lib" where
  "bo_munmap D bo s =
     (case lb_map bo of
        None \<Rightarrow> (bo\<lparr>lb_map := None\<rparr>, s)
      | Some a \<Rightarrow> (bo\<lparr>lb_map := None\<rparr>,
          (put_dev (d_munmap D a (lb_size bo) (l_dev s)) s)\<lparr>l_mem := (l_mem s)(a := None)\<rparr>))"

definition lib_ane_bo_init :: "'d dapi \<Rightarrow> nat \<Rightarrow> lib_bo \<Rightarrow> 'd lib \<Rightarrow> 'd bo_result" where
  "lib_ane_bo_init D fd bo s =
     (if lb_size bo = 0 then Some (- EINVAL, bo, s)
      else Option.bind (bo_init D fd bo s) (\<lambda>(err, bo1, s1).
        if err < 0 then Some (err, bo1, s1)
        else let (err, bo2, s2) = bo_mmap D fd bo1 s1
          in if err < 0 then map_option (\<lambda>(bo3, s3). (err, bo3, s3)) (bo_free D fd bo2 s2)
             else Some (0, bo2, s2)))"

definition lib_ane_bo_free :: "'d dapi \<Rightarrow> nat \<Rightarrow> lib_bo \<Rightarrow> 'd lib \<Rightarrow> (lib_bo \<times> 'd lib) option" where
  "lib_ane_bo_free D fd bo s = (let (bo1, s1) = bo_munmap D bo s in bo_free D fd bo1 s1)"

section \<open>Resources held\<close>

text \<open>The resources \<open>cur\<close> are those of before, \<open>base\<close>, and the ones in \<open>M\<close>, each held once.\<close>

definition holds :: "'a set \<Rightarrow> 'a multiset \<Rightarrow> 'a set \<Rightarrow> bool" where
  "holds base M cur \<longleftrightarrow> cur = base \<union> set_mset M \<and> (\<forall>x \<in># M. count M x = 1 \<and> x \<notin> base)"

lemma holds_none [simp]: "holds base {#} cur \<longleftrightarrow> cur = base"
  by (simp add: holds_def)

lemma holds_add: "holds base M cur \<Longrightarrow> x \<notin> cur \<Longrightarrow> holds base (add_mset x M) (insert x cur)"
  by (auto simp: holds_def count_eq_zero_iff)

lemma holds_remove:
  assumes "holds base (add_mset x M) cur"
  shows "x \<in> cur" "holds base M (cur - {x})"
proof -
  have x: "x \<notin># M" "x \<notin> base" using assms by (auto simp: holds_def count_eq_zero_iff)
  show "x \<in> cur" using assms by (auto simp: holds_def)
  have "count M y = 1 \<and> y \<notin> base" if "y \<in># M" for y
    using assms that x by (auto simp: holds_def split: if_splits)
  with assms x show "holds base M (cur - {x})" by (auto simp: holds_def)
qed

lemma holds_member: "holds base M cur \<Longrightarrow> x \<in># M \<Longrightarrow> x \<in> cur \<and> x \<notin> base"
  by (auto simp: holds_def)

text \<open>What an object holds: a handle and a mapping, or neither.\<close>

definition bo_handles :: "nat \<Rightarrow> lib_bo \<Rightarrow> (nat \<times> u32) multiset" where
  "bo_handles fd bo = (if lb_handle bo = 0 then {#} else {#(fd, lb_handle bo)#})"

definition bo_maps :: "lib_bo \<Rightarrow> nat multiset" where
  "bo_maps bo = (case lb_map bo of None \<Rightarrow> {#} | Some a \<Rightarrow> {#a#})"

definition lib_bo_ok :: "(nat \<rightharpoonup> bytes) \<Rightarrow> lib_bo \<Rightarrow> bool" where
  "lib_bo_ok mem bo \<longleftrightarrow>
     (case lb_map bo of
        None \<Rightarrow> lb_handle bo = 0
      | Some a \<Rightarrow> lb_handle bo \<noteq> 0 \<and> (\<exists>bs. mem a = Some bs \<and> length bs = unat (lb_size bo)))"

text \<open>An object that holds nothing.\<close>

definition unused :: "lib_bo \<Rightarrow> bool" where
  "unused bo \<longleftrightarrow> lb_map bo = None \<and> lb_handle bo = 0"

lemma unused_simps:
  assumes "unused bo"
  shows "bo_handles fd bo = {#}" "bo_maps bo = {#}" "lib_bo_ok mem bo"
  using assms by (simp_all add: unused_def bo_handles_def bo_maps_def lib_bo_ok_def)

lemma unused_zero [simp]: "unused zero_bo"
  by (simp add: zero_bo_def unused_def)

section \<open>Creating and freeing an object\<close>

context accel_node
begin

text \<open>The node as it was, and the handles \<open>H\<close> of \<open>fd\<close> and mappings \<open>M\<close> the library holds on top.\<close>

definition res :: "dview \<Rightarrow> (nat \<rightharpoonup> bytes) \<Rightarrow> nat \<Rightarrow> (nat \<times> u32) multiset \<Rightarrow> nat multiset \<Rightarrow> 'd lib \<Rightarrow> bool" where
  "res v m fd H M s \<longleftrightarrow> inv (l_dev s) \<and> fd \<in> dv_fds v \<and> dv_fds (dview (l_dev s)) = dv_fds v \<and>
     holds (dv_handles v) H (dv_handles (dview (l_dev s))) \<and>
     holds (dv_maps v) M (dv_maps (dview (l_dev s))) \<and>
     dom m \<subseteq> dv_maps v \<and> (\<forall>a. a \<notin># M \<longrightarrow> l_mem s a = m a)"

lemma res_io [simp]: "res v m fd H M (put_io w s) = res v m fd H M s"
  by (simp add: res_def)

lemma res_start:
  assumes "inv (l_dev s)" "fd \<in> dv_fds (dview (l_dev s))" "dom (l_mem s) \<subseteq> dv_maps (dview (l_dev s))"
  shows "res (dview (l_dev s)) (l_mem s) fd {#} {#} s"
  using assms by (simp add: res_def)

lemma res_end:
  assumes "res v m fd {#} {#} s"
  shows "dview (l_dev s) = v" "l_mem s = m"
  using assms by (auto simp: res_def intro: dview.equality)

lemma bo_free_step:
  assumes "res v m fd (bo_handles fd bo + H) M s" and "lb_map bo = None"
  shows "\<exists>bo1 s1. bo_free D fd bo s = Some (bo1, s1) \<and> l_io s1 = l_io s \<and> unused bo1 \<and>
    lb_size bo1 = lb_size bo \<and> res v m fd H M s1 \<and> l_mem s1 = l_mem s"
proof (cases "lb_handle bo = 0")
  case True
  with assms show ?thesis by (simp add: bo_free_def bo_handles_def unused_def)
next
  case False
  let ?h = "(fd, lb_handle bo)"
  have r: "inv (l_dev s)" "fd \<in> dv_fds (dview (l_dev s))"
    "holds (dv_handles v) (add_mset ?h H) (dv_handles (dview (l_dev s)))"
    using assms False by (simp_all add: res_def bo_handles_def)
  obtain d where d: "d_bo_free D fd (lb_handle bo) (l_dev s) = Some d" "inv d"
    "dview d = (dview (l_dev s))\<lparr>dv_handles := dv_handles (dview (l_dev s)) - {?h}\<rparr>"
    using dev_bo_free [OF r(1,2) holds_remove(1) [OF r(3)]] by blast
  with assms False holds_remove(2) [OF r(3)] show ?thesis
    by (simp add: bo_free_def unused_def res_def)
qed

lemma bo_init_step:
  assumes "res v m fd H M s" and "unused bo" and "size_ok (lb_size bo)"
  shows "\<exists>e bo1 s1. bo_init D fd bo s = Some (e, bo1, s1) \<and> l_io s1 = l_io s \<and> l_mem s1 = l_mem s \<and>
    lb_size bo1 = lb_size bo \<and> lb_map bo1 = None \<and> res v m fd (bo_handles fd bo1 + H) M s1 \<and>
    (if e < 0 then unused bo1 else e = 0 \<and> lb_handle bo1 \<noteq> 0)"
proof -
  have r: "inv (l_dev s)" "fd \<in> dv_fds (dview (l_dev s))"
    "holds (dv_handles v) H (dv_handles (dview (l_dev s)))"
    using assms by (simp_all add: res_def)
  obtain e h off d where d: "d_bo_init D fd (lb_size bo) (l_dev s) = Some ((e, h, off), d)" "inv d"
    "if e < 0 then dview d = dview (l_dev s)
     else h \<noteq> 0 \<and> (fd, h) \<notin> dv_handles (dview (l_dev s)) \<and>
       dview d = (dview (l_dev s))\<lparr>dv_handles := insert (fd, h) (dv_handles (dview (l_dev s)))\<rparr>"
    using dev_bo_init [OF r(1,2) assms(3)] by blast
  show ?thesis
  proof (cases "e < 0")
    case True
    with d assms show ?thesis
      by (simp add: bo_init_def res_def unused_def bo_handles_def)
  next
    case False
    with d have h: "h \<noteq> 0" "(fd, h) \<notin> dv_handles (dview (l_dev s))"
      "dview d = (dview (l_dev s))\<lparr>dv_handles := insert (fd, h) (dv_handles (dview (l_dev s)))\<rparr>"
      by auto
    from False d(1,2) h assms holds_add [OF r(3) h(2)] show ?thesis
      by (simp add: bo_init_def res_def unused_def bo_handles_def)
  qed
qed

lemma lib_ane_bo_init_ok:
  assumes res: "res v m fd H M s" and bo: "unused bo" "size_ok (lb_size bo)"
  shows "\<exists>e bo1 s1. lib_ane_bo_init D fd bo s = Some (e, bo1, s1) \<and> l_io s1 = l_io s \<and>
    lb_size bo1 = lb_size bo \<and> res v m fd (bo_handles fd bo1 + H) (bo_maps bo1 + M) s1 \<and>
    lib_bo_ok (l_mem s1) bo1 \<and> (\<forall>a \<in># M. l_mem s1 a = l_mem s a) \<and>
    (if e < 0 then unused bo1 else e = 0 \<and> lb_map bo1 \<noteq> None)"
proof (cases "lb_size bo = 0")
  case True
  with res bo show ?thesis by (simp add: lib_ane_bo_init_def unused_simps)
next
  case False
  obtain e bo1 s1 where 1: "bo_init D fd bo s = Some (e, bo1, s1)" "l_io s1 = l_io s" "l_mem s1 = l_mem s"
    "lb_size bo1 = lb_size bo" "lb_map bo1 = None" "res v m fd (bo_handles fd bo1 + H) M s1"
    "if e < 0 then unused bo1 else e = 0 \<and> lb_handle bo1 \<noteq> 0"
    using bo_init_step [OF res bo] by blast
  show ?thesis
  proof (cases "e < 0")
    case True
    with 1 False show ?thesis
      by (simp add: lib_ane_bo_init_def bo_maps_def unused_simps(3))
  next
    case nonneg: False
    have r: "inv (l_dev s1)" "holds (dv_maps v) M (dv_maps (dview (l_dev s1)))"
      using 1(6) by (simp_all add: res_def)
    obtain x d where x: "d_mmap D fd (lb_size bo1) (lb_offset bo1) (l_dev s1) = (x, d)" by fastforce
    note mm = dev_mmap [OF r(1) x]
    show ?thesis
    proof (cases x)
      case None
      let ?bo2 = "bo1\<lparr>lb_map := None\<rparr>"
      have b: "bo_mmap D fd bo1 s1 = (- EINVAL, ?bo2, put_dev d s1)" using x None by (simp add: bo_mmap_def)
      have h: "bo_handles fd ?bo2 = bo_handles fd bo1" by (simp add: bo_handles_def)
      have "res v m fd (bo_handles fd ?bo2 + H) M (put_dev d s1)"
        using 1(6) mm None by (simp add: res_def h)
      from bo_free_step [OF this] obtain bo3 s3 where "bo_free D fd ?bo2 (put_dev d s1) = Some (bo3, s3)"
        "l_io s3 = l_io s1" "unused bo3" "lb_size bo3 = lb_size bo1" "res v m fd H M s3" "l_mem s3 = l_mem s1"
        by auto
      with 1 False nonneg b show ?thesis
        by (simp add: lib_ane_bo_init_def unused_simps)
    next
      case (Some y)
      obtain a bs where y: "y = (a, bs)" by fastforce
      let ?bo2 = "bo1\<lparr>lb_map := Some a\<rparr>" and ?s2 = "put_mem a bs (put_dev d s1)"
      have b: "bo_mmap D fd bo1 s1 = (0, ?bo2, ?s2)" using x Some y by (simp add: bo_mmap_def)
      have a: "a \<notin> dv_maps (dview (l_dev s1))" "length bs = unat (lb_size bo1)" "inv d"
        "dview d = (dview (l_dev s1))\<lparr>dv_maps := insert a (dv_maps (dview (l_dev s1)))\<rparr>"
        using mm Some y by auto
      have "a \<notin># M" using r(2) a(1) by (auto simp: holds_def)
      have h: "bo_handles fd ?bo2 = bo_handles fd bo1" by (simp add: bo_handles_def)
      have "res v m fd (bo_handles fd ?bo2 + H) (bo_maps ?bo2 + M) ?s2"
        using 1(6) a holds_add [OF r(2) a(1)] by (simp add: res_def h bo_maps_def)
      moreover have "lib_bo_ok (l_mem ?s2) ?bo2"
        using 1(7) nonneg a(2) by (simp add: lib_bo_ok_def)
      moreover have "\<forall>a' \<in># M. l_mem ?s2 a' = l_mem s a'" using \<open>a \<notin># M\<close> 1(3) by auto
      ultimately show ?thesis
        using 1 False nonneg b by (simp add: lib_ane_bo_init_def)
    qed
  qed
qed

lemma lib_ane_bo_free_ok:
  assumes res: "res v m fd (bo_handles fd bo + H) (bo_maps bo + M) s"
  shows "\<exists>bo1 s1. lib_ane_bo_free D fd bo s = Some (bo1, s1) \<and> l_io s1 = l_io s \<and> unused bo1 \<and>
    lb_size bo1 = lb_size bo \<and> res v m fd H M s1 \<and> (\<forall>a \<in># M. l_mem s1 a = l_mem s a)"
proof -
  obtain bo1 s1 where 1: "bo_munmap D bo s = (bo1, s1)" by fastforce
  have "l_io s1 = l_io s \<and> lb_size bo1 = lb_size bo \<and> lb_map bo1 = None \<and>
      bo_handles fd bo1 = bo_handles fd bo \<and> res v m fd (bo_handles fd bo + H) M s1 \<and>
      (\<forall>a \<in># M. l_mem s1 a = l_mem s a)"
  proof (cases "lb_map bo")
    case None
    with 1 res show ?thesis by (auto simp: bo_munmap_def bo_handles_def bo_maps_def)
  next
    case (Some a)
    then have r: "inv (l_dev s)" "holds (dv_maps v) (add_mset a M) (dv_maps (dview (l_dev s)))"
      using res by (simp_all add: res_def bo_maps_def)
    note u = dev_munmap [OF r(1) holds_remove(1) [OF r(2)], of "lb_size bo"]
    have a: "a \<notin># M" "a \<notin> dv_maps v" using r(2) by (auto simp: holds_def count_eq_zero_iff)
    then have "m a = None" using res by (auto simp: res_def)
    with 1 res Some u holds_remove(2) [OF r(2)] a show ?thesis
      by (auto simp: bo_munmap_def bo_handles_def bo_maps_def res_def)
  qed
  with bo_free_step [of v m fd bo1 H M s1] 1 show ?thesis
    by (fastforce simp: lib_ane_bo_free_def)
qed

end

end
