(* ===== verification/Lib_Model.thy ===== *)
theory Lib_Model
  imports Hwx_Query Hwx_Open_Safe
begin

text \<open>
  The model metadata of \<open>src/src/libane/ane.c\<close>: \<open>ane_model_init\<close> reads it from the thread
  states and sections of the HWX file, \<open>ane_model_free\<close> closes the file, and \<open>set_nid\<close> and the
  contents \<open>set_btsp_and_command\<close> gives to the bootstrap channel.
\<close>

section \<open>Data\<close>

abbreviation TILE_COUNT :: nat where "TILE_COUNT \<equiv> 0x61"

text \<open>\<open>sizeof(struct hwx_ane_seg_state)\<close> and the two fields that are used.\<close>

abbreviation SEG_STATE_SIZE :: nat where "SEG_STATE_SIZE \<equiv> 2104"

record hwx_ane_seg_state =
  ss_seg_words :: u32
  ss_td_count :: u32

definition get_seg_state :: "bytes \<Rightarrow> hwx_ane_seg_state option" where
  "get_seg_state raw = do {
     seg_words \<leftarrow> get_u32 raw 2068; td_count \<leftarrow> get_u32 raw 2080;
     Some \<lparr>ss_seg_words = seg_words, ss_td_count = td_count\<rparr> }"

text \<open>\<open>struct ane_model\<close>\<close>

record lib_model =
  md_size :: u64
  md_td_size :: u32
  md_td_count :: u32
  md_tsk_size :: u64
  md_krn_size :: u64
  md_src_count :: u32
  md_dst_count :: u32
  md_tiles :: "u32 list"
  md_nchw :: "u64 list list"
  md_hwx :: "hwx_file option"

definition zero_model :: lib_model where
  "zero_model = \<lparr>md_size = 0, md_td_size = 0, md_td_count = 0, md_tsk_size = 0, md_krn_size = 0,
     md_src_count = 0, md_dst_count = 0, md_tiles = replicate TILE_COUNT 0,
     md_nchw = replicate TILE_COUNT (replicate 6 0), md_hwx = None\<rparr>"

section \<open>The segment state\<close>

lemma find_flavor_bounds: "find_flavor fl ss i = Some j \<Longrightarrow> i \<le> j \<and> j < i + length ss"
  by (induction fl ss i rule: find_flavor.induct) (force split: if_splits)+

lemma thread_state_next_bounds:
  assumes "found (hwx_thread_state_next (Some f) fl cur) = Some i"
  shows "after cur \<le> i \<and> i < length (hf_thread_states f)"
proof (cases cur)
  case None
  with assms show ?thesis
    by (auto simp: found_def hwx_thread_state_next_def Let_def after_def dest: find_flavor_bounds)
next
  case (Some k)
  with assms show ?thesis
    by (auto simp: found_def hwx_thread_state_next_def Let_def after_def split: if_splits
        dest: find_flavor_bounds)
qed

text \<open>A thread state whose payload holds the whole structure.\<close>

definition seg_state_fits :: "hwx_thread_state \<Rightarrow> bool" where
  "seg_state_fits st \<longleftrightarrow> thr_data_ptr st \<noteq> None \<and> SEG_STATE_SIZE \<le> unat (thr_byte_size st)"

text \<open>The loop of \<open>ane_model_init\<close> over the segment states.\<close>

function seg_state_loop :: "hwx_file \<Rightarrow> nat option \<Rightarrow> hwx_thread_state option" where
  "seg_state_loop f cursor =
     (case found (hwx_thread_state_next (Some f) HWX_ANE_SEG_STATE cursor) of
        None \<Rightarrow> None
      | Some i \<Rightarrow>
          if seg_state_fits (hf_thread_states f ! i) then Some (hf_thread_states f ! i)
          else seg_state_loop f (Some i))"
  by pat_completeness auto
termination
  by (relation "measure (\<lambda>(f, cursor). length (hf_thread_states f) - after cursor)")
    (auto simp: after_def dest!: thread_state_next_bounds split: option.splits)

declare seg_state_loop.simps [simp del]

text \<open>It finds the first one that fits.\<close>

lemma seg_state_loop_eq:
  assumes "file_counts_ok f" and "case cur of None \<Rightarrow> True | Some i \<Rightarrow> i < length (hf_thread_states f)"
  shows "seg_state_loop f cur = find (\<lambda>st. thr_flavor st = HWX_ANE_SEG_STATE \<and> seg_state_fits st)
    (drop (after cur) (hf_thread_states f))"
  using assms
proof (induction f cur rule: seg_state_loop.induct)
  case (1 f cur)
  let ?ss = "hf_thread_states f" and ?P = "\<lambda>st. thr_flavor st = HWX_ANE_SEG_STATE \<and> seg_state_fits st"
  let ?is = "flavor_indices HWX_ANE_SEG_STATE ?ss (after cur)"
  have next_i: "found (hwx_thread_state_next (Some f) HWX_ANE_SEG_STATE cur) =
      (case ?is of [] \<Rightarrow> None | i # is \<Rightarrow> Some i)"
    using hwx_thread_state_next_eq [OF "1.prems"] by (simp add: found_def split: list.splits)
  have skip: "find ?P (drop a ?ss) = find ?P (drop b ?ss)"
    if "a \<le> b" "\<And>k. a \<le> k \<Longrightarrow> k < b \<Longrightarrow> k < length ?ss \<Longrightarrow> \<not> ?P (?ss ! k)" for a b
    using that
  proof (induction "b - a" arbitrary: a)
    case 0
    then show ?case by simp
  next
    case (Suc n)
    show ?case
    proof (cases "a < length ?ss")
      case True
      have "a < b" using Suc.hyps(2) by linarith
      with True have "find ?P (drop a ?ss) = find ?P (drop (Suc a) ?ss)"
        using Suc.prems(2) [of a] by (auto simp: Cons_nth_drop_Suc [symmetric])
      with Suc.hyps(1) [of "Suc a"] Suc.hyps(2) Suc.prems show ?thesis by simp
    qed (use Suc.prems(1) in simp)
  qed
  show ?case
  proof (cases ?is)
    case Nil
    then have "\<not> ?P (?ss ! k)" if "after cur \<le> k" "k < length ?ss" for k
      using that by (auto simp: flavor_indices_def filter_empty_conv)
    then have "find ?P (drop (after cur) ?ss) = find ?P (drop (max (after cur) (length ?ss)) ?ss)"
      by (intro skip) auto
    with Nil next_i show ?thesis by (simp add: seg_state_loop.simps)
  next
    case (Cons i "is")
    have i: "after cur \<le> i" "i < length ?ss" "thr_flavor (?ss ! i) = HWX_ANE_SEG_STATE"
      using Cons by (auto simp: flavor_indices_def dest!: arg_cong [where f = set])
    have none: "\<not> ?P (?ss ! k)" if "after cur \<le> k" "k < i" for k
    proof -
      have "sorted ?is" by (simp add: flavor_indices_def sorted_wrt_filter)
      with Cons that(2) have "k \<notin> set ?is" by auto
      with that i show ?thesis by (auto simp: flavor_indices_def)
    qed
    then have "find ?P (drop (after cur) ?ss) = find ?P (drop i ?ss)"
      by (intro skip i)
    also have "drop i ?ss = ?ss ! i # drop (Suc i) ?ss" using i(2) by (simp add: Cons_nth_drop_Suc)
    finally have *: "find ?P (drop (after cur) ?ss) =
        (if seg_state_fits (?ss ! i) then Some (?ss ! i) else find ?P (drop (Suc i) ?ss))"
      using i(3) by simp
    have found: "found (hwx_thread_state_next (Some f) HWX_ANE_SEG_STATE cur) = Some i"
      using next_i Cons by simp
    show ?thesis
      using "1.IH" [OF found] "1.prems"(1) i(2) * found
      by (subst seg_state_loop.simps) (simp add: after_def)
  qed
qed

section \<open>Operations\<close>

definition ane_model_init :: "string option \<Rightarrow> io \<Rightarrow> (int \<times> lib_model \<times> io) option" where
  "ane_model_init path w =
     Option.bind (hwx_open path w) (\<lambda>(hwx, w1).
       case hwx of
         None \<Rightarrow> Some (- EINVAL, zero_model, w1)
       | Some f \<Rightarrow>
           let model = zero_model\<lparr>md_hwx := Some f\<rparr>;
               fail = (\<lambda>m. map_option (\<lambda>w2. (- EINVAL, m\<lparr>md_hwx := None\<rparr>, w2)) (hwx_close (Some f) w1))
           in case seg_state_loop f None of
             None \<Rightarrow> fail model
           | Some st \<Rightarrow>
               Option.bind (Option.bind (mem_read (thr_data st) 0 SEG_STATE_SIZE) get_seg_state) (\<lambda>meta.
                 let td_size = ucast (ucast (ss_seg_words meta) * 4 :: u64);
                     model1 = model\<lparr>md_td_size := td_size, md_td_count := ss_td_count meta,
                       md_size := ucast td_size\<rparr>
                 in if td_size = 0 then fail model1
                    else case (found (hwx_get_tsk_section (Some f)), found (hwx_get_krn_section (Some f))) of
                        (Some tsk, Some krn) \<Rightarrow>
                          Some (0, model1\<lparr>md_tsk_size := sec_size tsk, md_krn_size := sec_size krn\<rparr>, w1)
                      | _ \<Rightarrow> fail model1))"

definition ane_model_free :: "lib_model \<Rightarrow> io \<Rightarrow> (lib_model \<times> io) option" where
  "ane_model_free model w =
     (case md_hwx model of
        None \<Rightarrow> Some (model, w)
      | Some f \<Rightarrow> map_option (\<lambda>w1. (model\<lparr>md_hwx := None\<rparr>, w1)) (hwx_close (Some f) w))"

text \<open>\<open>set_nid\<close>: the first word of a descriptor gets the network id in its bits 16 to 23.\<close>

definition set_nid :: "bytes \<Rightarrow> u32 \<Rightarrow> bytes option" where
  "set_nid td nid = Option.bind (get_u32 td 0) (\<lambda>hdr0.
     mem_write td 0 (le32 ((hdr0 AND 0xf00ffff) OR push_bit 16 (nid AND 0xff))))"

text \<open>The number of bytes copied to the bootstrap channel.\<close>

definition btsp_copy :: "u32 \<Rightarrow> u64 \<Rightarrow> u64 \<Rightarrow> u64" where
  "btsp_copy td_size text_size btsp_size =
     (let copy = ucast td_size;
          copy1 = (if copy = 0 \<or> copy > text_size then text_size else copy)
      in if copy1 > btsp_size then btsp_size else copy1)"

section \<open>What they compute\<close>

text \<open>The metadata of an open file, read off its first complete segment state. The size of the
  descriptor is four times its number of words, modulo \<open>2 ^ 32\<close>.\<close>

definition model_of :: "hwx_file \<Rightarrow> lib_model option" where
  "model_of f = do {
     st \<leftarrow> find (\<lambda>st. thr_flavor st = HWX_ANE_SEG_STATE \<and> seg_state_fits st) (hf_thread_states f);
     seg_words \<leftarrow> get_u32 (thr_data st) 2068; td_count \<leftarrow> get_u32 (thr_data st) 2080;
     tsk \<leftarrow> found (hwx_get_tsk_section (Some f)); krn \<leftarrow> found (hwx_get_krn_section (Some f));
     if seg_words * 4 = 0 then None
     else Some (zero_model\<lparr>md_hwx := Some f, md_td_size := seg_words * 4, md_td_count := td_count,
       md_size := ucast (seg_words * 4), md_tsk_size := sec_size tsk, md_krn_size := sec_size krn\<rparr>) }"

lemma get_u32_prefix:
  assumes "off + 4 \<le> n" and "n \<le> length b"
  shows "get_u32 (take n b) off = get_u32 b off"
  using assms by (simp add: get_u32_def mem_read_def drop_take min_def)

lemma ucast_mult4: "ucast (ucast (x :: u32) * 4 :: u64) = x * 4"
proof -
  have "unat (ucast x * 4 :: u64) = unat x * 4" using u32_less [of x] by (simp add: unat_mult_less)
  then have "unat (ucast (ucast x * 4 :: u64) :: u32) = unat (x * 4)"
    by (simp add: unsigned_ucast_eq take_bit_eq_mod unat_word_ariths)
  then show ?thesis by (rule unsigned_word_eqI)
qed

lemma seg_state_fits_data:
  assumes "file_wf f" and "find (\<lambda>st. thr_flavor st = fl \<and> seg_state_fits st) (hf_thread_states f) = Some st"
  obtains a b where "get_u32 (thr_data st) 2068 = Some a" "get_u32 (thr_data st) 2080 = Some b"
    "Option.bind (mem_read (thr_data st) 0 SEG_STATE_SIZE) get_seg_state = Some \<lparr>ss_seg_words = a, ss_td_count = b\<rparr>"
proof -
  have "st \<in> set (hf_thread_states f)" "seg_state_fits st"
    using assms(2) by (auto simp: find_Some_iff)
  with assms(1) have len: "SEG_STATE_SIZE \<le> length (thr_data st)"
    by (auto simp: file_wf_def list_all_iff thread_wf_def seg_state_fits_def)
  then obtain a b where ab: "get_u32 (thr_data st) 2068 = Some a" "get_u32 (thr_data st) 2080 = Some b"
    by (cases "get_u32 (thr_data st) 2068"; cases "get_u32 (thr_data st) 2080") (auto simp: mem_simps)
  then show thesis
    by (rule that) (use ab len in \<open>simp add: get_seg_state_def mem_read_def get_u32_prefix\<close>)
qed

text \<open>The outcome of \<open>ane_model_init\<close>.\<close>

lemma ane_model_init_ok:
  assumes io: "io_ok w"
  shows "case ane_model_init path w of
      None \<Rightarrow> hwx_open path w = None \<and> (\<exists>p ino. path = Some p \<and> paths w p = Inr ino \<and> short_file (contents ino))
    | Some (e, m, w1) \<Rightarrow>
        if e < 0 then md_hwx m = None \<and> heap_ok (live w) {#} w1 \<and> fds w1 = fds w \<and>
          (\<forall>f w2. hwx_open path w = Some (Some f, w2) \<longrightarrow> model_of f = None)
        else e = 0 \<and> (\<exists>f. hwx_open path w = Some (Some f, w1) \<and> md_hwx m = Some f \<and> model_of f = Some m)"
proof -
  note open_ok = hwx_open_ok [OF io, of path]
  consider (none) "hwx_open path w = None"
    | (null) w1 where "hwx_open path w = Some (None, w1)"
    | (opened) f w1 where "hwx_open path w = Some (Some f, w1)"
    by (metis option.exhaust prod.exhaust)
  then show ?thesis
  proof cases
    case none
    with open_ok show ?thesis by (simp add: ane_model_init_def)
  next
    case null
    with open_ok show ?thesis by (simp add: ane_model_init_def zero_model_def)
  next
    case opened
    from open_ok opened have wf: "file_wf f" and
      heap: "heap_ok (live w) (mset (blocks (file_blocks f))) w1" and
      fd: "fds w (hf_fd f) = None" "\<exists>ino. fds w1 = (fds w)(hf_fd f \<mapsto> ino)"
      by (auto simp: open_result_def)
    have counts: "file_counts_ok f" using wf by (simp add: file_wf_def)
    have loop: "seg_state_loop f None =
        find (\<lambda>st. thr_flavor st = HWX_ANE_SEG_STATE \<and> seg_state_fits st) (hf_thread_states f)"
      using seg_state_loop_eq [OF counts, of None] by (simp add: after_def)
    obtain w2 where w2: "hwx_close (Some f) w1 = Some w2" "heap_ok (live w) {#} w2"
      "fds w2 = (fds w1)(hf_fd f := None)"
      using hwx_close_ok [of "live w" f "{#}" w1] heap counts by auto
    then have fds2: "fds w2 = fds w" using fd by auto
    obtain tsk krn where secs: "found (hwx_get_tsk_section (Some f)) = Some tsk"
      "found (hwx_get_krn_section (Some f)) = Some krn"
      using wf by (auto simp: file_wf_def)
    show ?thesis
    proof (cases "seg_state_loop f None")
      case None
      with opened w2 fds2 loop show ?thesis
        by (simp add: ane_model_init_def model_of_def)
    next
      case (Some st)
      note find_st = trans [OF loop [symmetric] Some]
      from Some obtain a b where ab: "get_u32 (thr_data st) 2068 = Some a" "get_u32 (thr_data st) 2080 = Some b"
        "Option.bind (mem_read (thr_data st) 0 SEG_STATE_SIZE) get_seg_state = Some \<lparr>ss_seg_words = a, ss_td_count = b\<rparr>"
        using seg_state_fits_data [OF wf, of HWX_ANE_SEG_STATE st] loop by auto
      show ?thesis
      proof (cases "a * 4 = 0")
        case True
        with opened w2 fds2 find_st Some ab secs show ?thesis
          by (simp add: ane_model_init_def model_of_def ucast_mult4 Let_def)
      next
        case False
        with opened w2 fds2 find_st Some ab secs show ?thesis
          by (simp add: ane_model_init_def model_of_def ucast_mult4 Let_def)
      qed
    qed
  qed
qed

text \<open>The network id is set, the low half-word is kept.\<close>

lemma set_nid_ok:
  assumes "4 \<le> length td"
  obtains w where "get_u32 td 0 = Some w"
    "set_nid td nid = Some (le32 ((w AND 0xf00ffff) OR push_bit 16 (nid AND 0xff)) @ drop 4 td)"
proof -
  obtain w where w: "get_u32 td 0 = Some w"
    using assms by (cases "get_u32 td 0") (auto simp: mem_simps)
  with assms show thesis by (intro that [of w]) (simp_all add: set_nid_def mem_write_def)
qed

end
