(* ===== verification/Lib_Nn.thy ===== *)
theory Lib_Nn
  imports Lib_Bo Lib_Model
begin

text \<open>
  Networks, \<open>struct ane_nn\<close> of \<open>src/src/libane/ane.h\<close>: their channels (\<open>ane_chan_init\<close>,
  \<open>ane_chan_free\<close>, \<open>set_btsp_and_command\<close>), the search for the device node
  (\<open>is_ane_device\<close>, \<open>open_fd\<close>, \<open>device_open\<close>), and \<open>__ane_init\<close> and \<open>__ane_free\<close>.
\<close>

section \<open>Networks and channels\<close>

text \<open>\<open>nn_self\<close> is the address of the block that holds the structure.\<close>

record lib_nn =
  nn_fd :: nat
  nn_model :: lib_model
  nn_chans :: "lib_bo list"
  nn_btsp :: lib_bo
  nn_self :: nat

definition zero_nn :: "nat \<Rightarrow> lib_nn" where
  "zero_nn self = \<lparr>nn_fd = 0, nn_model = zero_model, nn_chans = replicate TILE_COUNT zero_bo,
     nn_btsp = zero_bo, nn_self = self\<rparr>"

definition tile_shift :: "u64 \<Rightarrow> u64" where
  "tile_shift x = push_bit 14 x"

definition tile_align :: "u64 \<Rightarrow> u64" where
  "tile_align x = (x + 0x4000 - 1) AND - 0x4000"

text \<open>\<open>tile_size(nn, bdx)\<close>, undefined for an index outside the array.\<close>

definition tile_size :: "lib_nn \<Rightarrow> nat \<Rightarrow> u64 option" where
  "tile_size nn bdx =
     (if bdx < length (md_tiles (nn_model nn))
      then Some (tile_shift (ucast (md_tiles (nn_model nn) ! bdx))) else None)"

type_synonym 'd nn_result = "(int \<times> lib_nn \<times> 'd lib) option"

text \<open>\<open>set_btsp_and_command\<close>: the bootstrap channel is cleared and filled with the first
  descriptor of the file; a failing read leaves it cleared.\<close>

definition set_btsp_and_command :: "lib_nn \<Rightarrow> 'd lib \<Rightarrow> 'd lib option" where
  "set_btsp_and_command nn s =
     (case (md_hwx (nn_model nn), lb_map (nn_btsp nn)) of
        (Some hwx, Some btsp) \<Rightarrow>
          let btsp_size = lb_size (nn_btsp nn)
          in if btsp_size = 0 then Some s
             else do {
               mem \<leftarrow> l_mem s btsp;
               mem1 \<leftarrow> mem_write mem 0 (replicate (unat btsp_size) 0);
               (mem2, w) \<leftarrow> (case found (hwx_get_tsk_section (Some hwx)) of
                   None \<Rightarrow> Some (mem1, l_io s)
                 | Some text \<Rightarrow>
                     let copy = btsp_copy (md_td_size (nn_model nn)) (sec_size text) btsp_size
                     in if copy > 0
                        then Option.bind (hwx_section_read (Some hwx) (Some text) 0 True copy (l_io s))
                          (\<lambda>(r, w). map_option (\<lambda>m. (m, w))
                            (mem_write mem1 0 (case r of None \<Rightarrow> replicate (unat copy) 0 | Some bs \<Rightarrow> bs)))
                        else Some (mem1, l_io s));
               mem3 \<leftarrow> set_nid mem2 0x40;
               Some (put_mem btsp mem3 (put_io w s)) }
      | _ \<Rightarrow> Some s)"

text \<open>The loop of \<open>ane_chan_free\<close> over the channels from \<open>bdx\<close>, \<open>n\<close> to go.\<close>

fun free_chans :: "'d dapi \<Rightarrow> nat \<Rightarrow> nat \<Rightarrow> nat \<Rightarrow> lib_bo list \<Rightarrow> 'd lib \<Rightarrow> (lib_bo list \<times> 'd lib) option" where
  "free_chans D fd bdx 0 chans s = Some (chans, s)"
| "free_chans D fd bdx (Suc n) chans s =
     (if bdx < length chans
      then Option.bind (lib_ane_bo_free D fd (chans ! bdx) s) (\<lambda>(bo, s1).
        free_chans D fd (Suc bdx) n (chans[bdx := bo]) s1)
      else None)"

definition ane_chan_free :: "'d dapi \<Rightarrow> lib_nn \<Rightarrow> 'd lib \<Rightarrow> (lib_nn \<times> 'd lib) option" where
  "ane_chan_free D nn s =
     Option.bind (lib_ane_bo_free D (nn_fd nn) (nn_btsp nn) s) (\<lambda>(btsp, s1).
     map_option (\<lambda>(chans, s2). (nn\<lparr>nn_btsp := btsp, nn_chans := chans\<rparr>, s2))
       (free_chans D (nn_fd nn) 0 TILE_COUNT (nn_chans nn) s1))"

text \<open>The loop of \<open>ane_chan_init\<close>; it stops at the first error.\<close>

fun init_chans :: "'d dapi \<Rightarrow> nat \<Rightarrow> nat \<Rightarrow> lib_nn \<Rightarrow> 'd lib \<Rightarrow> 'd nn_result" where
  "init_chans D bdx 0 nn s = Some (0, nn, s)"
| "init_chans D bdx (Suc n) nn s =
     (if \<not> (bdx < length (nn_chans nn) \<and> bdx < length (md_tiles (nn_model nn))) then None
      else if md_tiles (nn_model nn) ! bdx \<noteq> 0
      then Option.bind (tile_size nn bdx) (\<lambda>sz.
        Option.bind (lib_ane_bo_init D (nn_fd nn) ((nn_chans nn ! bdx)\<lparr>lb_size := sz\<rparr>) s) (\<lambda>(err, bo, s1).
          let nn1 = nn\<lparr>nn_chans := (nn_chans nn)[bdx := bo]\<rparr>
          in if err < 0 then Some (err, nn1, s1) else init_chans D (Suc bdx) n nn1 s1))
      else init_chans D (Suc bdx) n nn s)"

text \<open>\<open>error: ane_chan_free(nn); return err;\<close>\<close>

definition chan_error :: "'d dapi \<Rightarrow> int \<Rightarrow> lib_nn \<Rightarrow> 'd lib \<Rightarrow> 'd nn_result" where
  "chan_error D err nn s = map_option (\<lambda>(nn1, s1). (err, nn1, s1)) (ane_chan_free D nn s)"

text \<open>A descriptor size of zero returns without freeing the channels.\<close>

definition ane_chan_init :: "'d dapi \<Rightarrow> lib_nn \<Rightarrow> 'd lib \<Rightarrow> 'd nn_result" where
  "ane_chan_init D nn s =
     Option.bind (init_chans D 0 TILE_COUNT nn s) (\<lambda>(err, nn1, s1).
       if err < 0 then chan_error D err nn1 s1
       else if md_td_size (nn_model nn1) = 0 then Some (- EINVAL, nn1, s1)
       else Option.bind (lib_ane_bo_init D (nn_fd nn1)
                ((nn_btsp nn1)\<lparr>lb_size := tile_align (ucast (md_td_size (nn_model nn1)))\<rparr>) s1)
          (\<lambda>(err, btsp, s2).
            let nn2 = nn1\<lparr>nn_btsp := btsp\<rparr>
            in if err < 0 then chan_error D err nn2 s2
               else map_option (\<lambda>s3. (0, nn2, s3)) (set_btsp_and_command nn2 s2)))"

section \<open>Finding the device\<close>

abbreviation MAX_ANE_DEVICES :: int where "MAX_ANE_DEVICES \<equiv> 2"
abbreviation MAX_NODE_COUNT :: nat where "MAX_NODE_COUNT \<equiv> 64"

text \<open>\<open>is_ane_device\<close>: the name is asked for twice, first for its length. An allocation that
  failed is not noticed: the terminating NUL is then written through NULL.\<close>

definition is_ane_device :: "'d dapi \<Rightarrow> nat \<Rightarrow> 'd lib \<Rightarrow> (int \<times> 'd lib) option" where
  "is_ane_device D fd s =
     (let (v, d1) = d_version D fd (l_dev s); s1 = put_dev d1 s
      in case v of
           Inl err \<Rightarrow> Some (- EINVAL, s1)
         | Inr name \<Rightarrow>
             if name = [] then Some (- EINVAL, s1)
             else let (p, w) = os_malloc (l_io s1); s2 = put_io w s1;
                      (v2, d2) = d_version D fd (l_dev s2); s3 = put_dev d2 s2;
                      free_name = (\<lambda>r. map_option (\<lambda>w1. (r, put_io w1 s3)) (os_free p (l_io s3)))
               in case v2 of
                    Inl err \<Rightarrow> free_name (- EINVAL)
                  | Inr name2 \<Rightarrow>
                      if p = None \<or> length name < length name2 then None
                      else if takeWhile (\<lambda>c. c \<noteq> 0) name2 \<noteq> cstr ''ane'' then free_name (- EINVAL)
                      else free_name 0)"

definition open_fd :: "'d dapi \<Rightarrow> string \<Rightarrow> 'd lib \<Rightarrow> ((int + nat) \<times> 'd lib) option" where
  "open_fd D node s =
     (case d_open D node (l_dev s) of
        (None, d) \<Rightarrow> Some (Inl (- ENODEV), put_dev d s)
      | (Some fd, d) \<Rightarrow>
          map_option (\<lambda>(err, s1).
              if err < 0 then (Inl (- EINVAL), put_dev (d_close D fd (l_dev s1)) s1) else (Inr fd, s1))
            (is_ane_device D fd (put_dev d s)))"

text \<open>\<open>snprintf(node, MAX_NODE_LEN, "/dev/accel/accel%d", i)\<close>\<close>

definition node_name :: "nat \<Rightarrow> string" where
  "node_name i = take 29 (''/dev/accel/accel'' @ decimal i)"

fun scan_nodes :: "'d dapi \<Rightarrow> int \<Rightarrow> nat \<Rightarrow> nat \<Rightarrow> int \<Rightarrow> 'd lib \<Rightarrow> ((int + nat) \<times> 'd lib) option" where
  "scan_nodes D dev_id i 0 n_found s = Some (Inl (- ENODEV), s)"
| "scan_nodes D dev_id i (Suc n) n_found s =
     Option.bind (open_fd D (node_name i) s) (\<lambda>(r, s1).
       case r of
         Inl err \<Rightarrow> scan_nodes D dev_id (Suc i) n n_found s1
       | Inr fd \<Rightarrow>
           if dev_id = n_found then Some (Inr fd, s1)
           else scan_nodes D dev_id (Suc i) n (n_found + 1) (put_dev (d_close D fd (l_dev s1)) s1))"

definition device_open :: "'d dapi \<Rightarrow> int \<Rightarrow> 'd lib \<Rightarrow> ((int + nat) \<times> 'd lib) option" where
  "device_open D dev_id s =
     (if dev_id < 0 \<or> MAX_ANE_DEVICES \<le> dev_id then Some (Inl (- EINVAL), s)
      else scan_nodes D dev_id 0 MAX_NODE_COUNT 0 s)"

definition ane_device_open :: "'d dapi \<Rightarrow> lib_nn \<Rightarrow> int \<Rightarrow> 'd lib \<Rightarrow> 'd nn_result" where
  "ane_device_open D nn dev_id s = map_option (\<lambda>(r, s1).
     case r of Inl err \<Rightarrow> (- EINVAL, nn, s1) | Inr fd \<Rightarrow> (0, nn\<lparr>nn_fd := fd\<rparr>, s1)) (device_open D dev_id s)"

definition ane_device_close :: "'d dapi \<Rightarrow> lib_nn \<Rightarrow> 'd lib \<Rightarrow> lib_nn \<times> 'd lib" where
  "ane_device_close D nn s = (nn\<lparr>nn_fd := 0\<rparr>, put_dev (d_close D (nn_fd nn) (l_dev s)) s)"

section \<open>Opening and closing a network\<close>

text \<open>\<open>ane_model_free(nn); free(nn)\<close>, the end of every error path and of \<open>__ane_free\<close>\<close>

definition free_nn :: "lib_nn \<Rightarrow> 'd lib \<Rightarrow> 'd lib option" where
  "free_nn nn s =
     Option.bind (ane_model_free (nn_model nn) (l_io s)) (\<lambda>(m, w).
       map_option (\<lambda>w1. put_io w1 s) (os_free (Some (nn_self nn)) w))"

definition ane_init_body :: "'d dapi \<Rightarrow> string option \<Rightarrow> int \<Rightarrow> lib_nn \<Rightarrow> 'd lib \<Rightarrow> (lib_nn option \<times> 'd lib) option" where
  "ane_init_body D path dev_id nn s =
     Option.bind (ane_model_init path (l_io s)) (\<lambda>(err, model, w).
       if err < 0 then map_option (\<lambda>w1. (None, put_io w1 s)) (os_free (Some (nn_self nn)) w)
       else Option.bind (ane_device_open D (nn\<lparr>nn_model := model\<rparr>) dev_id (put_io w s)) (\<lambda>(err, nn2, s2).
         if err < 0 then map_option (\<lambda>s3. (None, s3)) (free_nn nn2 s2)
         else Option.bind (ane_chan_init D nn2 s2) (\<lambda>(err, nn3, s3).
           if err < 0
           then let (nn4, s4) = ane_device_close D nn3 s3 in map_option (\<lambda>s5. (None, s5)) (free_nn nn4 s4)
           else Some (Some nn3, s3))))"

definition ane_init :: "'d dapi \<Rightarrow> string option \<Rightarrow> int \<Rightarrow> 'd lib \<Rightarrow> (lib_nn option \<times> 'd lib) option" where
  "ane_init D path dev_id s =
     (case os_malloc (l_io s) of
        (None, w) \<Rightarrow> Some (None, put_io w s)
      | (Some self, w) \<Rightarrow> ane_init_body D path dev_id (zero_nn self) (put_io w s))"

definition ane_free :: "'d dapi \<Rightarrow> lib_nn \<Rightarrow> 'd lib \<Rightarrow> 'd lib option" where
  "ane_free D nn s =
     Option.bind (ane_chan_free D nn s) (\<lambda>(nn1, s1).
       let (nn2, s2) = ane_device_close D nn1 s1 in free_nn nn2 s2)"

end
