(* ===== verification/Lib_Safe.thy ===== *)
theory Lib_Safe
  imports Lib_Nn
begin

text \<open>
  What a network holds of the device and of the process, for every device that meets the
  contract \<open>accel_node\<close>: the channels are created all or none, freeing them gives
  everything back, the search for the device leaves no descriptor behind, and \<open>__ane_init\<close>
  is all or nothing.
\<close>

section \<open>Lists of buffer objects\<close>

definition chans_handles :: "nat \<Rightarrow> lib_bo list \<Rightarrow> (nat \<times> u32) multiset" where
  "chans_handles fd bos = sum_list (map (bo_handles fd) bos)"

definition chans_maps :: "lib_bo list \<Rightarrow> nat multiset" where
  "chans_maps bos = sum_list (map bo_maps bos)"

text \<open>One element apart from the others.\<close>

definition others :: "('a \<Rightarrow> 'b::comm_monoid_add) \<Rightarrow> 'a list \<Rightarrow> nat \<Rightarrow> 'b" where
  "others f xs i = sum_list (map f (take i xs)) + sum_list (map f (drop (Suc i) xs))"

lemma sum_list_at: "i < length xs \<Longrightarrow> sum_list (map f xs) = f (xs ! i) + others f xs i"
  by (subst id_take_nth_drop [of i xs]) (simp_all add: others_def algebra_simps)

lemma sum_list_upd: "i < length xs \<Longrightarrow> sum_list (map f (xs[i := y])) = f y + others f xs i"
  by (simp add: upd_conv_take_nth_drop others_def algebra_simps)

lemma chans_at:
  assumes "i < length bos"
  shows "chans_handles fd bos = bo_handles fd (bos ! i) + others (bo_handles fd) bos i"
    "chans_maps bos = bo_maps (bos ! i) + others bo_maps bos i"
    "chans_handles fd (bos[i := bo]) = bo_handles fd bo + others (bo_handles fd) bos i"
    "chans_maps (bos[i := bo]) = bo_maps bo + others bo_maps bos i"
  by (simp_all only: chans_handles_def chans_maps_def sum_list_at [OF assms] sum_list_upd [OF assms])

lemma chans_unused:
  assumes "list_all unused bos"
  shows "chans_handles fd bos = {#}" "chans_maps bos = {#}" "list_all (lib_bo_ok mem) bos"
  using assms by (induction bos) (simp_all add: chans_handles_def chans_maps_def unused_simps)

lemma lib_bo_ok_mem:
  "(\<And>a. a \<in># bo_maps bo \<Longrightarrow> mem' a = mem a) \<Longrightarrow> lib_bo_ok mem' bo = lib_bo_ok mem bo"
  by (simp add: lib_bo_ok_def bo_maps_def split: option.splits)

lemma in_chans_maps: "a \<in># bo_maps bo \<Longrightarrow> bo \<in> set bos \<Longrightarrow> a \<in># chans_maps bos"
  by (induction bos) (auto simp: chans_maps_def)

lemma list_all_bo_ok_mem:
  assumes "\<And>a. a \<in># chans_maps bos \<Longrightarrow> mem' a = mem a"
  shows "list_all (lib_bo_ok mem') bos = list_all (lib_bo_ok mem) bos"
proof -
  have "lib_bo_ok mem' bo = lib_bo_ok mem bo" if "bo \<in> set bos" for bo
    by (rule lib_bo_ok_mem) (use assms in_chans_maps [OF _ that] in blast)
  then show ?thesis by (simp add: list_all_iff)
qed

section \<open>The bootstrap channel\<close>

text \<open>The descriptor rounded up to whole tiles.\<close>

lemma unat_tile_align:
  "unat (tile_align (ucast (t :: u32))) = (unat t + 0x3fff) div 0x4000 * 0x4000"
proof -
  have m: "- 0x4000 = NOT (mask 14 :: u64)" by (simp add: mask_eq_exp_minus_1 not_eq_complement)
  have "unat (ucast t + 0x4000 - 1 :: u64) = unat t + 0x3fff"
  proof -
    have "ucast t + 0x4000 - 1 = (ucast t + 0x3fff :: u64)" by simp
    then show ?thesis using u32_less [of t] by (simp only:) (simp add: unat_plus_less)
  qed
  then have "unat (tile_align (ucast t)) = (unat t + 0x3fff) - (unat t + 0x3fff) mod 0x4000"
    unfolding tile_align_def m by (simp only: unat_and_not_mask) simp
  then show ?thesis by (simp only: minus_mod_eq_div_mult)
qed

lemma tile_align_bounds:
  assumes "t \<noteq> 0"
  shows "unat t \<le> unat (tile_align (ucast (t :: u32)))" "0x4000 \<le> unat (tile_align (ucast t))"
proof -
  have t: "0 < unat t" using assms by (simp add: unat_gt_0)
  define q where "q = (unat t + 0x3fff) div 0x4000"
  have "unat t + 0x3fff < 0x4000 + q * 0x4000"
    unfolding q_def by (rule dividend_less_div_times) simp
  then have le: "unat t \<le> q * 0x4000" by linarith
  with t have "1 \<le> q" by (cases q) auto
  with le show "unat t \<le> unat (tile_align (ucast t))" "0x4000 \<le> unat (tile_align (ucast t))"
    unfolding unat_tile_align q_def [symmetric] by linarith+
qed

lemma unat_btsp_copy:
  assumes "t \<noteq> 0" and "unat t \<le> unat sz"
  shows "unat (btsp_copy t text_size sz) = min (unat t) (unat text_size)"
  using assms
  by (auto simp: btsp_copy_def Let_def word_less_nat_alt unat_eq_zero [symmetric] min_def)

text \<open>What the channel holds afterwards: the first bytes of the code section, then zeros, with
  the network id set in the first word.\<close>

definition btsp_filled :: "inode \<Rightarrow> hwx_section \<Rightarrow> nat \<Rightarrow> u64 \<Rightarrow> bool \<Rightarrow> bytes \<Rightarrow> bool" where
  "btsp_filled ino tx n sz quiet mem \<longleftrightarrow> length mem = unat sz \<and> (\<exists>bs. length bs \<le> unat sz \<and>
     set_nid (bs @ replicate (unat sz - length bs) 0) 0x40 = Some mem \<and>
     bs \<in> {[], window_bytes ino (unat (sec_offset tx)) n} \<and>
     (quiet \<longrightarrow> bs = window_bytes ino (unat (sec_offset tx)) n))"

lemma mem_write_start: "length xs \<le> n \<Longrightarrow> mem_write (replicate n 0) 0 xs = Some (xs @ replicate (n - length xs) 0)"
  by (simp add: mem_write_def)

lemma set_btsp_ok:
  assumes f: "md_hwx (nn_model nn) = Some f" "file_wf f" "file_open ino f (l_io s)"
    and map: "lb_map (nn_btsp nn) = Some a" "l_mem s a = Some bs0" "length bs0 = unat (lb_size (nn_btsp nn))"
    and sz: "4 \<le> unat (lb_size (nn_btsp nn))"
    and td: "md_td_size (nn_model nn) \<noteq> 0" "unat (md_td_size (nn_model nn)) \<le> unat (lb_size (nn_btsp nn))"
  shows "\<exists>tx w mem. found (hwx_get_tsk_section (Some f)) = Some tx \<and>
    set_btsp_and_command nn s = Some (put_mem a mem (put_io w s)) \<and> same_res (l_io s) w \<and>
    btsp_filled ino tx (min (unat (md_td_size (nn_model nn))) (unat (sec_size tx)))
      (lb_size (nn_btsp nn)) (fault_free (l_io s)) mem"
proof -
  let ?sz = "lb_size (nn_btsp nn)" and ?td = "md_td_size (nn_model nn)"
  obtain tx where tx: "found (hwx_get_tsk_section (Some f)) = Some tx"
    using f(2) by (auto simp: file_wf_def)
  let ?n = "min (unat ?td) (unat (sec_size tx))" and ?copy = "btsp_copy ?td (sec_size tx) ?sz"
  have n: "unat ?copy = ?n" by (rule unat_btsp_copy [OF td])
  have win: "sec.window_ok f tx"
    using found_section_window [OF f(2), of "Some (cstr ''__TEXT'')" "cstr ''__text''"] tx
    by (simp add: hwx_get_tsk_section_def)
  have clear: "mem_write bs0 0 (replicate (unat ?sz) 0) = Some (replicate (unat ?sz) 0)"
    using map(3) by (simp add: mem_write_def)
  have nz: "?sz \<noteq> 0" using sz by auto
  have "\<exists>w bs. (if ?copy > 0
      then Option.bind (hwx_section_read (Some f) (Some tx) 0 True ?copy (l_io s))
        (\<lambda>(r, w). map_option (\<lambda>m. (m, w)) (mem_write (replicate (unat ?sz) 0) 0
          (case r of None \<Rightarrow> replicate (unat ?copy) 0 | Some bs \<Rightarrow> bs)))
      else Some (replicate (unat ?sz) 0, l_io s)) = Some (bs @ replicate (unat ?sz - length bs) 0, w) \<and>
    same_res (l_io s) w \<and> length bs \<le> unat ?sz \<and>
    bs \<in> {[], window_bytes ino (unat (sec_offset tx)) ?n} \<and>
    (fault_free (l_io s) \<longrightarrow> bs = window_bytes ino (unat (sec_offset tx)) ?n)"
  proof (cases "?copy > 0")
    case False
    then have "?n = 0" using n by (simp add: word_gt_0)
    then have "window_bytes ino (unat (sec_offset tx)) ?n = []" by (simp add: window_bytes_def)
    with False show ?thesis by (intro exI [of _ "l_io s"] exI [of _ "[]"]) simp
  next
    case True
    obtain r w where r: "hwx_section_read (Some f) (Some tx) 0 True ?copy (l_io s) = Some (r, w)"
      using sec.read_total [of f "Some tx" 0 True "?copy" "l_io s"] by auto
    note same = sec.read_same_res [OF r]
    show ?thesis
    proof (cases r)
      case None
      have "\<not> fault_free (l_io s)"
        using sec.read_succeeds [OF f(3) win, of 0 "?copy"] r None n by auto
      moreover have "mem_write (replicate (unat ?sz) 0) 0 (replicate (unat ?copy) 0) =
          Some (replicate (unat ?sz) (0 :: u8))"
        using n td(2) by (simp add: mem_write_start replicate_add [symmetric])
      ultimately show ?thesis
        using True r None same by (intro exI [of _ w] exI [of _ "[]"]) simp
    next
      case (Some bs)
      have d: "bs = window_bytes ino (unat (sec_offset tx)) ?n \<and> length bs = ?n"
        using sec.read_data [OF f(3) win r [unfolded Some]]
        unfolding n unat_u32_u64 unat_0 add_0_right .
      note bs = conjunct1 [OF d]
      have "length bs \<le> unat ?sz" using conjunct2 [OF d] td(2) by linarith
      with True r Some same bs show ?thesis
        by (intro exI [of _ w] exI [of _ bs]) (simp add: mem_write_start)
    qed
  qed
  then obtain w bs where w: "(if ?copy > 0
      then Option.bind (hwx_section_read (Some f) (Some tx) 0 True ?copy (l_io s))
        (\<lambda>(r, w). map_option (\<lambda>m. (m, w)) (mem_write (replicate (unat ?sz) 0) 0
          (case r of None \<Rightarrow> replicate (unat ?copy) 0 | Some bs \<Rightarrow> bs)))
      else Some (replicate (unat ?sz) 0, l_io s)) = Some (bs @ replicate (unat ?sz - length bs) 0, w)"
    and rest: "same_res (l_io s) w" "length bs \<le> unat ?sz"
    "bs \<in> {[], window_bytes ino (unat (sec_offset tx)) ?n}"
    "fault_free (l_io s) \<longrightarrow> bs = window_bytes ino (unat (sec_offset tx)) ?n" by blast
  let ?img = "bs @ replicate (unat ?sz - length bs) 0"
  have len: "length ?img = unat ?sz" using rest(2) by simp
  then obtain v where "set_nid ?img 0x40 =
      Some (le32 ((v AND 0xf00ffff) OR push_bit 16 (0x40 AND 0xff)) @ drop 4 ?img)"
    using set_nid_ok [of ?img "0x40"] sz by auto
  then obtain mem where mem: "set_nid ?img 0x40 = Some mem" "length mem = unat ?sz"
    using len sz by fastforce
  have "set_btsp_and_command nn s = Some (put_mem a mem (put_io w s))"
    unfolding set_btsp_and_command_def f(1) map(1) option.case prod.case Let_def
    using nz map(2) clear tx w mem(1) by simp
  with tx rest mem show ?thesis
    unfolding btsp_filled_def by blast
qed

section \<open>Descriptor sizes of a file\<close>

text \<open>Every segment state of the file asks for a bootstrap channel of an acceptable size.\<close>

definition td_size_fits :: "(u64 \<Rightarrow> bool) \<Rightarrow> bytes \<Rightarrow> bool" where
  "td_size_fits ok data \<longleftrightarrow> (\<forall>h ss ts st a. spec_file data = Some (h, ss, ts) \<longrightarrow> st \<in> set ts \<longrightarrow>
     thr_flavor st = HWX_ANE_SEG_STATE \<longrightarrow> get_u32 (thr_data st) 2068 = Some a \<longrightarrow>
     ok (tile_align (ucast (a * 4))))"

lemma model_of_fits:
  assumes "io_ok w" and "hwx_open path w = Some (Some f, w1)" and "model_of f = Some m"
    and "\<And>p ino. path = Some p \<Longrightarrow> paths w p = Inr ino \<Longrightarrow> td_size_fits ok (contents ino)"
  shows "md_td_size m \<noteq> 0 \<and> ok (tile_align (ucast (md_td_size m)))"
proof -
  obtain p ino where p: "path = Some p" "paths w p = Inr ino" "stat_error ino = None" "is_regular ino"
    using assms(2) by (auto simp: hwx_open_def os_open_def split: option.splits sum.splits if_splits)
  have spec: "spec_file (contents ino) = Some (abs_file f)"
    using hwx_open_refines [OF assms(1) p(2-4)] assms(2) p(1) by (simp add: open_refines_def)
  obtain st a where st: "find (\<lambda>st. thr_flavor st = HWX_ANE_SEG_STATE \<and> seg_state_fits st) (hf_thread_states f) = Some st"
    "get_u32 (thr_data st) 2068 = Some a" "a * 4 \<noteq> 0" "md_td_size m = a * 4"
    using assms(3) by (auto simp: model_of_def bind_eq_Some_conv split: if_splits)
  have "st \<in> set (hf_thread_states f)" "thr_flavor st = HWX_ANE_SEG_STATE"
    using find_Some_set [OF st(1)] by simp_all
  then have "strip_thread st \<in> strip_thread ` set (hf_thread_states f)"
    "thr_flavor (strip_thread st) = HWX_ANE_SEG_STATE" "get_u32 (thr_data (strip_thread st)) 2068 = Some a"
    using st(2) by (simp_all add: strip_thread_def)
  with assms(4) [OF p(1,2)] spec have "ok (tile_align (ucast (a * 4)))"
    unfolding td_size_fits_def abs_file_def by (metis list.set_map)
  with st(3,4) show ?thesis by simp
qed

lemma os_malloc_ok:
  assumes "io_ok w" and "os_malloc w = (Some b, w1)"
  shows "io_ok w1" "live w1 = insert b (live w)" "paths w1 = paths w" "b \<notin> live w"
    "heap_ok (live w) {#b#} w1" "fds w1 = fds w"
  using assms
  by (auto simp: os_malloc_def io_ok_def heap_ok_def less_Suc_eq split: list.splits bool.splits)

lemma model_of_simps:
  assumes "model_of f = Some m"
  shows "md_hwx m = Some f" "md_tiles m = replicate TILE_COUNT 0" "md_src_count m = 0" "md_dst_count m = 0"
    "md_td_size m \<noteq> 0"
  using assms by (auto simp: model_of_def bind_eq_Some_conv zero_model_def split: if_splits)

section \<open>Channels\<close>

section \<open>When a name is lost\<close>

text \<open>Where the search is undefined: a device gives its name, the allocation for it fails, and the
  name is asked for and terminated all the same.\<close>

definition name_lost :: "'d dapi \<Rightarrow> nat \<Rightarrow> 'd lib \<Rightarrow> bool" where
  "name_lost D fd s \<longleftrightarrow> (case d_version D fd (l_dev s) of
     (Inr name, d1) \<Rightarrow> name \<noteq> [] \<and> fst (os_malloc (l_io s)) = None \<and>
       (case fst (d_version D fd d1) of Inr name2 \<Rightarrow> True | Inl e \<Rightarrow> False)
   | _ \<Rightarrow> False)"

definition open_loses :: "'d dapi \<Rightarrow> string \<Rightarrow> 'd lib \<Rightarrow> bool" where
  "open_loses D node s \<longleftrightarrow> (case d_open D node (l_dev s) of
     (Some fd, d) \<Rightarrow> name_lost D fd (put_dev d s) | _ \<Rightarrow> False)"

fun scan_loses :: "'d dapi \<Rightarrow> int \<Rightarrow> nat \<Rightarrow> nat \<Rightarrow> int \<Rightarrow> 'd lib \<Rightarrow> bool" where
  "scan_loses D dev_id i 0 n_found s \<longleftrightarrow> False"
| "scan_loses D dev_id i (Suc n) n_found s \<longleftrightarrow> open_loses D (node_name i) s \<or>
     (case open_fd D (node_name i) s of
        Some (Inl e, s1) \<Rightarrow> scan_loses D dev_id (Suc i) n n_found s1
      | Some (Inr fd, s1) \<Rightarrow> dev_id \<noteq> n_found \<and>
          scan_loses D dev_id (Suc i) n (n_found + 1) (put_dev (d_close D fd (l_dev s1)) s1)
      | None \<Rightarrow> False)"

text \<open>In a call of \<open>__ane_init\<close>: its block is allocated, the file is loaded, and then a name is lost.\<close>

definition init_loses_name :: "'d dapi \<Rightarrow> string option \<Rightarrow> int \<Rightarrow> 'd lib \<Rightarrow> bool" where
  "init_loses_name D path dev_id s \<longleftrightarrow> (case os_malloc (l_io s) of
     (Some self, w) \<Rightarrow> (case ane_model_init path w of
          Some (err, model, w1) \<Rightarrow> \<not> err < 0 \<and> 0 \<le> dev_id \<and> dev_id < MAX_ANE_DEVICES \<and>
            scan_loses D dev_id 0 MAX_NODE_COUNT 0 (put_io w1 (put_io w s))
        | None \<Rightarrow> False)
   | _ \<Rightarrow> False)"

context accel_node
begin

lemma free_chans_ok:
  assumes "res v m fd (E + chans_handles fd chans) (F + chans_maps chans) s" and "bdx + n \<le> length chans"
  shows "\<exists>chans' s1. free_chans D fd bdx n chans s = Some (chans', s1) \<and> l_io s1 = l_io s \<and>
    length chans' = length chans \<and> res v m fd (E + chans_handles fd chans') (F + chans_maps chans') s1 \<and>
    (\<forall>i < length chans. if bdx \<le> i \<and> i < bdx + n then unused (chans' ! i) else chans' ! i = chans ! i)"
  using assms
proof (induction n arbitrary: bdx chans s)
  case 0
  then show ?case by auto
next
  case (Suc n)
  then have i: "bdx < length chans" by simp
  have "res v m fd (bo_handles fd (chans ! bdx) + (E + others (bo_handles fd) chans bdx))
      (bo_maps (chans ! bdx) + (F + others bo_maps chans bdx)) s"
    using Suc.prems(1) by (simp add: chans_at [OF i] ac_simps)
  from lib_ane_bo_free_ok [OF this] obtain bo s1 where 1:
    "lib_ane_bo_free D fd (chans ! bdx) s = Some (bo, s1)" "l_io s1 = l_io s" "unused bo"
    "res v m fd (E + others (bo_handles fd) chans bdx) (F + others bo_maps chans bdx) s1" by blast
  then have "res v m fd (E + chans_handles fd (chans[bdx := bo])) (F + chans_maps (chans[bdx := bo])) s1"
    by (simp add: chans_at [OF i] unused_simps)
  from Suc.IH [OF this, of "Suc bdx"] Suc.prems(2) obtain chans' s2 where 2:
    "free_chans D fd (Suc bdx) n (chans[bdx := bo]) s1 = Some (chans', s2)" "l_io s2 = l_io s1"
    "length chans' = length chans" "res v m fd (E + chans_handles fd chans') (F + chans_maps chans') s2"
    "\<forall>i < length chans. if Suc bdx \<le> i \<and> i < Suc bdx + n then unused (chans' ! i)
       else chans' ! i = chans[bdx := bo] ! i" by auto
  have "if bdx \<le> j \<and> j < bdx + Suc n then unused (chans' ! j) else chans' ! j = chans ! j"
    if "j < length chans" for j
    using 2(5) [rule_format, OF that] 1(3) that i by (cases "j = bdx") (auto split: if_splits)
  with 1 2(1-4) i show ?case by simp
qed

lemma ane_chan_free_ok:
  assumes "res v m (nn_fd nn) (bo_handles (nn_fd nn) (nn_btsp nn) + chans_handles (nn_fd nn) (nn_chans nn))
      (bo_maps (nn_btsp nn) + chans_maps (nn_chans nn)) s" and "length (nn_chans nn) = TILE_COUNT"
  shows "\<exists>nn1 s1. ane_chan_free D nn s = Some (nn1, s1) \<and> l_io s1 = l_io s \<and> nn_fd nn1 = nn_fd nn \<and>
    nn_model nn1 = nn_model nn \<and> nn_self nn1 = nn_self nn \<and> list_all unused (nn_btsp nn1 # nn_chans nn1) \<and>
    res v m (nn_fd nn) {#} {#} s1"
proof -
  obtain btsp s1 where 1: "lib_ane_bo_free D (nn_fd nn) (nn_btsp nn) s = Some (btsp, s1)" "l_io s1 = l_io s"
    "unused btsp" "res v m (nn_fd nn) ({#} + chans_handles (nn_fd nn) (nn_chans nn)) ({#} + chans_maps (nn_chans nn)) s1"
    using lib_ane_bo_free_ok [OF assms(1)] by auto
  from free_chans_ok [OF this(4), of 0 TILE_COUNT] assms(2) obtain chans s2 where 2:
    "free_chans D (nn_fd nn) 0 TILE_COUNT (nn_chans nn) s1 = Some (chans, s2)" "l_io s2 = l_io s1"
    "length chans = TILE_COUNT" "\<forall>i < TILE_COUNT. unused (chans ! i)"
    "res v m (nn_fd nn) ({#} + chans_handles (nn_fd nn) chans) ({#} + chans_maps chans) s2"
    by (auto split: if_splits)
  have "list_all unused chans" using 2(3,4) by (simp add: list_all_length)
  with 1 2 chans_unused(1,2) [OF this] show ?thesis
    by (simp add: ane_chan_free_def)
qed

text \<open>The network \<open>nn\<close> holds its channels and nothing else.\<close>

definition nn_res :: "dview \<Rightarrow> (nat \<rightharpoonup> bytes) \<Rightarrow> lib_nn \<Rightarrow> 'd lib \<Rightarrow> bool" where
  "nn_res v m nn s \<longleftrightarrow> res v m (nn_fd nn)
       (bo_handles (nn_fd nn) (nn_btsp nn) + chans_handles (nn_fd nn) (nn_chans nn))
       (bo_maps (nn_btsp nn) + chans_maps (nn_chans nn)) s \<and>
     length (nn_chans nn) = TILE_COUNT \<and> length (md_tiles (nn_model nn)) = TILE_COUNT \<and>
     list_all (lib_bo_ok (l_mem s)) (nn_btsp nn # nn_chans nn)"

text \<open>Only the channels differ.\<close>

definition same_nn :: "lib_nn \<Rightarrow> lib_nn \<Rightarrow> bool" where
  "same_nn nn nn1 \<longleftrightarrow> nn_fd nn1 = nn_fd nn \<and> nn_model nn1 = nn_model nn \<and> nn_self nn1 = nn_self nn"

lemma same_nn_refl [simp]: "same_nn nn nn"
  by (simp add: same_nn_def)

lemma init_chans_ok:
  assumes "nn_res v m nn s" and "bdx + n = TILE_COUNT" and "unused (nn_btsp nn)"
    and "list_all unused (drop bdx (nn_chans nn))"
    and "\<forall>t \<in> set (md_tiles (nn_model nn)). t \<noteq> 0 \<longrightarrow> size_ok (tile_shift (ucast t))"
  shows "\<exists>e nn1 s1. init_chans D bdx n nn s = Some (e, nn1, s1) \<and> l_io s1 = l_io s \<and> e \<le> 0 \<and>
    same_nn nn nn1 \<and> nn_btsp nn1 = nn_btsp nn \<and> nn_res v m nn1 s1 \<and>
    ((\<forall>t \<in> set (md_tiles (nn_model nn)). t = 0) \<longrightarrow> e = 0 \<and> nn1 = nn \<and> s1 = s)"
  using assms
proof (induction n arbitrary: bdx nn s)
  case 0
  then show ?case by simp
next
  case (Suc n)
  let ?t = "md_tiles (nn_model nn) ! bdx" and ?bos = "nn_chans nn" and ?fd = "nn_fd nn"
  have len: "length ?bos = TILE_COUNT" "length (md_tiles (nn_model nn)) = TILE_COUNT"
    using Suc.prems(1) by (simp_all add: nn_res_def)
  with Suc.prems(2) have i: "bdx < length ?bos" "bdx < length (md_tiles (nn_model nn))" by simp_all
  have d: "drop bdx ?bos = ?bos ! bdx # drop (Suc bdx) ?bos" using i by (simp add: Cons_nth_drop_Suc)
  then have un: "unused (?bos ! bdx)" "list_all unused (drop (Suc bdx) ?bos)" using Suc.prems(4) by simp_all
  show ?case
  proof (cases "?t = 0")
    case True
    with Suc.IH [OF Suc.prems(1) _ Suc.prems(3) un(2) Suc.prems(5)] Suc.prems(2) i show ?thesis by simp
  next
    case False
    have "?t \<in> set (md_tiles (nn_model nn))" using i by simp
    with Suc.prems(5) False have sz: "size_ok (tile_shift (ucast ?t))" by blast
    let ?bo = "(?bos ! bdx)\<lparr>lb_size := tile_shift (ucast ?t)\<rparr>"
    let ?M = "bo_maps (nn_btsp nn) + others bo_maps ?bos bdx"
    have bo: "unused ?bo" "size_ok (lb_size ?bo)" using un(1) sz by (simp_all add: unused_def)
    have r: "res v m ?fd (bo_handles ?fd (nn_btsp nn) + others (bo_handles ?fd) ?bos bdx) ?M s"
      using Suc.prems(1) un(1) by (simp add: nn_res_def chans_at [OF i(1)] unused_simps)
    from lib_ane_bo_init_ok [OF r bo] obtain e bo1 s1 where 1:
      "lib_ane_bo_init D ?fd ?bo s = Some (e, bo1, s1)" "l_io s1 = l_io s"
      "res v m ?fd (bo_handles ?fd bo1 + (bo_handles ?fd (nn_btsp nn) + others (bo_handles ?fd) ?bos bdx))
         (bo_maps bo1 + ?M) s1" "lib_bo_ok (l_mem s1) bo1"
      "\<forall>a \<in># ?M. l_mem s1 a = l_mem s a" "if e < 0 then unused bo1 else e = 0 \<and> lb_map bo1 \<noteq> None"
      by blast
    let ?nn1 = "nn\<lparr>nn_chans := ?bos[bdx := bo1]\<rparr>"
    have old: "chans_maps ?bos = others bo_maps ?bos bdx"
      using chans_at(2) [OF i(1)] un(1) by (simp add: unused_simps)
    have "list_all (lib_bo_ok (l_mem s1)) (nn_btsp nn # ?bos)"
    proof -
      have "chans_maps (nn_btsp nn # ?bos) = ?M" by (simp add: chans_maps_def old [unfolded chans_maps_def])
      then have agree: "l_mem s1 a = l_mem s a" if "a \<in># chans_maps (nn_btsp nn # ?bos)" for a
        using 1(5) that by simp
      have "list_all (lib_bo_ok (l_mem s1)) (nn_btsp nn # ?bos) = list_all (lib_bo_ok (l_mem s)) (nn_btsp nn # ?bos)"
        by (rule list_all_bo_ok_mem) (rule agree)
      then show ?thesis using Suc.prems(1) by (simp add: nn_res_def)
    qed
    then have "list_all (lib_bo_ok (l_mem s1)) (nn_btsp nn # ?bos[bdx := bo1])"
      using 1(4) by (auto simp: list_all_iff dest: set_update_subset_insert [THEN subsetD])
    then have nn1: "nn_res v m ?nn1 s1"
      using 1(3) len by (simp add: nn_res_def chans_at [OF i(1)] ac_simps)
    have same: "same_nn nn ?nn1" by (simp add: same_nn_def)
    have nz: "\<not> (\<forall>t \<in> set (md_tiles (nn_model nn)). t = 0)"
      using False \<open>?t \<in> _\<close> by blast
    show ?thesis
    proof (cases "e < 0")
      case True
      with 1(1,2) nn1 same nz False i show ?thesis by (simp add: tile_size_def)
    next
      case nonneg: False
      have "list_all unused (drop (Suc bdx) (nn_chans ?nn1))" using un(2) by simp
      from Suc.IH [OF nn1 _ _ this] Suc.prems(2,3,5) obtain e2 nn2 s2 where
        "init_chans D (Suc bdx) n ?nn1 s1 = Some (e2, nn2, s2)" "l_io s2 = l_io s1" "e2 \<le> 0"
        "same_nn ?nn1 nn2" "nn_btsp nn2 = nn_btsp nn" "nn_res v m nn2 s2" by auto
      with 1(1,2) nonneg False i nz show ?thesis by (auto simp: tile_size_def same_nn_def)
    qed
  qed
qed

text \<open>The outcome of \<open>ane_chan_init\<close>: all channels and the filled bootstrap channel, or nothing.\<close>

definition chans_ready :: "inode \<Rightarrow> hwx_file \<Rightarrow> bool \<Rightarrow> lib_nn \<Rightarrow> 'd lib \<Rightarrow> bool" where
  "chans_ready ino f quiet nn s \<longleftrightarrow> (\<exists>a tx mem. lb_map (nn_btsp nn) = Some a \<and> l_mem s a = Some mem \<and>
     found (hwx_get_tsk_section (Some f)) = Some tx \<and>
     lb_size (nn_btsp nn) = tile_align (ucast (md_td_size (nn_model nn))) \<and>
     btsp_filled ino tx (min (unat (md_td_size (nn_model nn))) (unat (sec_size tx)))
       (lb_size (nn_btsp nn)) quiet mem)"

lemma chan_error_ok:
  assumes "nn_res v m nn1 s1" and "e < 0" and "same_nn nn nn1"
  shows "\<exists>nn2 s2. chan_error D e nn1 s1 = Some (e, nn2, s2) \<and> same_nn nn nn2 \<and> l_io s2 = l_io s1 \<and>
    res v m (nn_fd nn) {#} {#} s2"
  using ane_chan_free_ok [of v m nn1 s1] assms
  by (auto simp: chan_error_def nn_res_def same_nn_def)

lemma ane_chan_init_ok:
  assumes nn: "nn_res v m nn s" "list_all unused (nn_btsp nn # nn_chans nn)"
    and tiles: "\<forall>t \<in> set (md_tiles (nn_model nn)). t \<noteq> 0 \<longrightarrow> size_ok (tile_shift (ucast t))"
    and f: "md_hwx (nn_model nn) = Some f" "file_wf f" "file_open ino f (l_io s)"
    and td: "md_td_size (nn_model nn) \<noteq> 0" "size_ok (tile_align (ucast (md_td_size (nn_model nn))))"
  shows "\<exists>e nn1 s1. ane_chan_init D nn s = Some (e, nn1, s1) \<and> same_nn nn nn1 \<and> same_res (l_io s) (l_io s1) \<and>
    (if e < 0 then res v m (nn_fd nn) {#} {#} s1
     else e = 0 \<and> nn_res v m nn1 s1 \<and> chans_ready ino f (fault_free (l_io s)) nn1 s1) \<and>
    ((\<forall>t \<in> set (md_tiles (nn_model nn)). t = 0) \<longrightarrow> 0 \<le> e \<longrightarrow> nn_chans nn1 = nn_chans nn)"
proof -
  let ?td = "md_td_size (nn_model nn)"
  obtain e nn1 s1 where 1: "init_chans D 0 TILE_COUNT nn s = Some (e, nn1, s1)" "l_io s1 = l_io s" "e \<le> 0"
    "same_nn nn nn1" "nn_btsp nn1 = nn_btsp nn" "nn_res v m nn1 s1"
    "(\<forall>t \<in> set (md_tiles (nn_model nn)). t = 0) \<longrightarrow> e = 0 \<and> nn1 = nn \<and> s1 = s"
    using init_chans_ok [OF nn(1), of 0 TILE_COUNT] nn(2) tiles by auto
  show ?thesis
  proof (cases "e < 0")
    case True
    with chan_error_ok [OF 1(6) True 1(4)] 1(1,2) show ?thesis
      by (auto simp: ane_chan_init_def)
  next
    case False
    have model: "nn_model nn1 = nn_model nn" and fd: "nn_fd nn1 = nn_fd nn"
      using 1(4) by (simp_all add: same_nn_def)
    let ?fd = "nn_fd nn1" and ?bo = "(nn_btsp nn)\<lparr>lb_size := tile_align (ucast ?td)\<rparr>"
    have un: "unused (nn_btsp nn)" using nn(2) by simp
    have r: "res v m ?fd (chans_handles ?fd (nn_chans nn1)) (chans_maps (nn_chans nn1)) s1"
      using 1(5,6) un by (simp add: nn_res_def unused_simps)
    have bo: "unused ?bo" "size_ok (lb_size ?bo)" using un td(2) by (simp_all add: unused_def)
    obtain e2 btsp s2 where 2: "lib_ane_bo_init D ?fd ?bo s1 = Some (e2, btsp, s2)" "l_io s2 = l_io s1"
      "lb_size btsp = tile_align (ucast ?td)"
      "res v m ?fd (bo_handles ?fd btsp + chans_handles ?fd (nn_chans nn1)) (bo_maps btsp + chans_maps (nn_chans nn1)) s2"
      "lib_bo_ok (l_mem s2) btsp" "\<forall>a \<in># chans_maps (nn_chans nn1). l_mem s2 a = l_mem s1 a"
      "if e2 < 0 then unused btsp else e2 = 0 \<and> lb_map btsp \<noteq> None"
      using lib_ane_bo_init_ok [OF r bo] by auto
    let ?nn2 = "nn1\<lparr>nn_btsp := btsp\<rparr>"
    have "list_all (lib_bo_ok (l_mem s2)) (nn_chans nn1) = list_all (lib_bo_ok (l_mem s1)) (nn_chans nn1)"
      by (rule list_all_bo_ok_mem) (use 2(6) in blast)
    with 1(6) 2(4,5) have nn2: "nn_res v m ?nn2 s2" by (simp add: nn_res_def)
    have same: "same_nn nn ?nn2" using 1(4) by (simp add: same_nn_def)
    show ?thesis
    proof (cases "e2 < 0")
      case True
      with chan_error_ok [OF nn2 True same] 1 2 False model td(1) show ?thesis
        by (auto simp: ane_chan_init_def)
    next
      case nonneg: False
      then obtain a bs0 where a: "lb_map btsp = Some a" "l_mem s2 a = Some bs0" "length bs0 = unat (lb_size btsp)"
        using 2(5,7) by (auto simp: lib_bo_ok_def split: option.splits)
      have big: "unat ?td \<le> unat (lb_size btsp)" "4 \<le> unat (lb_size btsp)"
        using tile_align_bounds [OF td(1)] 2(3) by simp_all
      have "\<exists>tx w mem. found (hwx_get_tsk_section (Some f)) = Some tx \<and>
          set_btsp_and_command ?nn2 s2 = Some (put_mem a mem (put_io w s2)) \<and> same_res (l_io s2) w \<and>
          btsp_filled ino tx (min (unat (md_td_size (nn_model ?nn2))) (unat (sec_size tx)))
            (lb_size (nn_btsp ?nn2)) (fault_free (l_io s2)) mem"
        by (rule set_btsp_ok [where ?bs0.0 = bs0]) (use f a big td(1) 1(2) 2(2) model in simp_all)
      then obtain tx w mem where 3: "found (hwx_get_tsk_section (Some f)) = Some tx"
        "set_btsp_and_command ?nn2 s2 = Some (put_mem a mem (put_io w s2))" "same_res (l_io s2) w"
        "btsp_filled ino tx (min (unat ?td) (unat (sec_size tx))) (lb_size btsp) (fault_free (l_io s)) mem"
        using model 1(2) 2(2) by auto
      let ?s3 = "put_mem a mem (put_io w s2)"
      have fresh: "a \<notin># chans_maps (nn_chans nn1)"
        using 2(4) a(1) by (auto simp: res_def holds_def bo_maps_def count_eq_zero_iff)
      have "list_all (lib_bo_ok (l_mem ?s3)) (nn_chans nn1) = list_all (lib_bo_ok (l_mem s2)) (nn_chans nn1)"
        by (rule list_all_bo_ok_mem) (use fresh in auto)
      moreover have "lib_bo_ok (l_mem ?s3) btsp"
        using 2(5) a(1) 3(4) by (simp add: lib_bo_ok_def btsp_filled_def)
      moreover have "res v m ?fd (bo_handles ?fd btsp + chans_handles ?fd (nn_chans nn1))
          (bo_maps btsp + chans_maps (nn_chans nn1)) ?s3"
        using 2(4) a(1) by (auto simp: res_def bo_maps_def)
      ultimately have "nn_res v m ?nn2 ?s3" using nn2 by (simp add: nn_res_def)
      moreover have "chans_ready ino f (fault_free (l_io s)) ?nn2 ?s3"
        using a(1) 3(1,4) 2(3) model by (simp add: chans_ready_def)
      ultimately show ?thesis
        using 1 2(1,2) 3(2,3) False nonneg model td(1) same by (auto simp: ane_chan_init_def)
    qed
  qed
qed

section \<open>Finding the device\<close>

definition calm :: "nat set \<Rightarrow> nat multiset \<Rightarrow> 'd lib \<Rightarrow> 'd lib \<Rightarrow> bool" where
  "calm L M s s1 \<longleftrightarrow> inv (l_dev s1) \<and> l_mem s1 = l_mem s \<and> heap_ok L M (l_io s1) \<and>
     fds (l_io s1) = fds (l_io s) \<and> (fault_free (l_io s) \<longrightarrow> fault_free (l_io s1))"

lemma calm_trans: "calm L M s s1 \<Longrightarrow> calm L M s1 s2 \<Longrightarrow> calm L M s s2"
  by (simp add: calm_def)

lemma is_ane_device_ok:
  assumes "inv (l_dev s)" and "heap_ok L M (l_io s)"
  shows "case is_ane_device D fd s of
      None \<Rightarrow> \<not> fault_free (l_io s) \<and> name_lost D fd s
    | Some (e, s1) \<Rightarrow> calm L M s s1 \<and> dview (l_dev s1) = dview (l_dev s)"
proof -
  obtain v d1 where v: "d_version D fd (l_dev s) = (v, d1)" by fastforce
  then have d1: "inv d1" "dview d1 = dview (l_dev s)" using dev_version [OF assms(1), of fd] by simp_all
  obtain v2 d2 where v2: "d_version D fd d1 = (v2, d2)" by fastforce
  then have d2: "inv d2" "dview d2 = dview (l_dev s)" using dev_version [OF d1(1), of fd] d1 by simp_all
  obtain p w where m: "os_malloc (l_io s) = (p, w)" by fastforce
  note env = os_malloc_env [OF m]
  consider (fails) e where "v = Inl e" | (empty) "v = Inr []" | (name) n where "v = Inr n" "n \<noteq> []"
    by (cases v) auto
  then show ?thesis
  proof cases
    case name
    show ?thesis
    proof (cases p)
      case None
      then have bad: "\<not> fault_free (l_io s)" using env(2) by blast
      have w: "heap_ok L M w"
        using assms(2) by (cases rule: os_malloc_cases) (use m None in auto)
      show ?thesis
        using v v2 d2 m None w name bad env(1)
        by (cases v2) (simp_all add: is_ane_device_def Let_def os_free_def calm_def name_lost_def)
    next
      case (Some b)
      have w: "heap_ok L (add_mset b M) w"
        using assms(2) by (cases rule: os_malloc_cases) (use m Some in auto)
      obtain w1 where w1: "os_free (Some b) w = Some w1" "heap_ok L M w1" "fds w1 = fds w"
        using heap_ok_free [OF w] by blast
      have env1: "fault_free w1 = fault_free w" using os_free_env [OF w1(1)] by simp
      have len: "\<not> length n < length n2" if "v2 = Inr n2" for n2
        using dev_name [of fd "l_dev s" n d1 n2 d2] v v2 name that by simp
      show ?thesis
        using v v2 d2 m Some w1 env env1 name len
        by (cases v2) (simp_all add: is_ane_device_def Let_def calm_def)
    qed
  qed (use assms v d1 in \<open>simp_all add: is_ane_device_def Let_def calm_def\<close>)
qed

lemma open_fd_ok:
  assumes "inv (l_dev s)" and "heap_ok L M (l_io s)"
  shows "case open_fd D node s of
      None \<Rightarrow> \<not> fault_free (l_io s) \<and> open_loses D node s
    | Some (Inl e, s1) \<Rightarrow> calm L M s s1 \<and> dview (l_dev s1) = dview (l_dev s)
    | Some (Inr fd, s1) \<Rightarrow> calm L M s s1 \<and> fd \<notin> dv_fds (dview (l_dev s)) \<and>
        (\<forall>h. (fd, h) \<notin> dv_handles (dview (l_dev s))) \<and>
        dview (l_dev s1) = (dview (l_dev s))\<lparr>dv_fds := insert fd (dv_fds (dview (l_dev s)))\<rparr>"
proof -
  obtain r d where r: "d_open D node (l_dev s) = (r, d)" by fastforce
  note o = dev_open [OF assms(1) r]
  show ?thesis
  proof (cases r)
    case None
    with o r assms show ?thesis by (simp add: open_fd_def calm_def)
  next
    case (Some fd)
    let ?s = "put_dev d s"
    have d: "inv (l_dev ?s)" "heap_ok L M (l_io ?s)" "fd \<notin> dv_fds (dview (l_dev s))"
      "\<forall>h. (fd, h) \<notin> dv_handles (dview (l_dev s))"
      "dview d = (dview (l_dev s))\<lparr>dv_fds := insert fd (dv_fds (dview (l_dev s)))\<rparr>"
      using o Some assms(2) by auto
    note dev = is_ane_device_ok [OF d(1,2), of fd]
    show ?thesis
    proof (cases "is_ane_device D fd ?s")
      case None
      with dev r Some show ?thesis by (simp add: open_fd_def open_loses_def)
    next
      case (Some x)
      obtain e s1 where x: "x = (e, s1)" by fastforce
      have s1: "calm L M ?s s1" "dview (l_dev s1) = dview d" using dev Some x by simp_all
      show ?thesis
      proof (cases "e < 0")
        case False
        with r \<open>r = Some fd\<close> Some x s1 d show ?thesis by (simp add: open_fd_def calm_def)
      next
        case True
        have "inv (d_close D fd (l_dev s1)) \<and>
            dview (d_close D fd (l_dev s1)) = (dview (l_dev s1))\<lparr>dv_fds := dv_fds (dview (l_dev s1)) - {fd}\<rparr>"
          using s1 d by (intro dev_close) (auto simp: calm_def)
        moreover have "(dview (l_dev s1))\<lparr>dv_fds := dv_fds (dview (l_dev s1)) - {fd}\<rparr> = dview (l_dev s)"
          using s1(2) d(3,5) by simp
        ultimately show ?thesis
          using True r \<open>r = Some fd\<close> Some x s1 by (simp add: open_fd_def calm_def)
      qed
    qed
  qed
qed

lemma scan_nodes_ok:
  assumes "inv (l_dev s)" and "heap_ok L M (l_io s)"
  shows "case scan_nodes D dev_id i n k s of
      None \<Rightarrow> \<not> fault_free (l_io s) \<and> scan_loses D dev_id i n k s
    | Some (Inl e, s1) \<Rightarrow> calm L M s s1 \<and> dview (l_dev s1) = dview (l_dev s)
    | Some (Inr fd, s1) \<Rightarrow> calm L M s s1 \<and> fd \<notin> dv_fds (dview (l_dev s)) \<and>
        (\<forall>h. (fd, h) \<notin> dv_handles (dview (l_dev s))) \<and>
        dview (l_dev s1) = (dview (l_dev s))\<lparr>dv_fds := insert fd (dv_fds (dview (l_dev s)))\<rparr>"
  using assms
proof (induction n arbitrary: i k s)
  case 0
  then show ?case by (simp add: calm_def)
next
  case (Suc n)
  note open_ok = open_fd_ok [OF Suc.prems, of "node_name i"]
  have step: ?case
    if s2: "calm L M s s2" "dview (l_dev s2) = dview (l_dev s)"
      and eq: "scan_nodes D dev_id i (Suc n) k s = scan_nodes D dev_id (Suc i) n k2 s2"
      and loses: "scan_loses D dev_id (Suc i) n k2 s2 \<Longrightarrow> scan_loses D dev_id i (Suc n) k s" for s2 k2
  proof -
    have "inv (l_dev s2)" "heap_ok L M (l_io s2)" using s2(1) by (simp_all add: calm_def)
    from Suc.IH [OF this, of "Suc i" k2] s2 loses show ?thesis
      unfolding eq
      by (auto simp: calm_def simp del: scan_loses.simps split: option.splits sum.splits)
  qed
  show ?case
  proof (cases "open_fd D (node_name i) s")
    case None
    with open_ok show ?thesis by simp
  next
    case (Some x)
    obtain r s1 where x: "x = (r, s1)" by fastforce
    show ?thesis
    proof (cases r)
      case (Inl e)
      show ?thesis
        by (rule step [of s1 k]) (use open_ok Some x Inl in simp_all)
    next
      case (Inr fd)
      have fd: "calm L M s s1" "fd \<notin> dv_fds (dview (l_dev s))" "\<forall>h. (fd, h) \<notin> dv_handles (dview (l_dev s))"
        "dview (l_dev s1) = (dview (l_dev s))\<lparr>dv_fds := insert fd (dv_fds (dview (l_dev s)))\<rparr>"
        using open_ok Some x Inr by simp_all
      show ?thesis
      proof (cases "dev_id = k")
        case True
        with fd Some x Inr show ?thesis by simp
      next
        case False
        let ?s2 = "put_dev (d_close D fd (l_dev s1)) s1"
        have c: "inv (d_close D fd (l_dev s1)) \<and>
            dview (d_close D fd (l_dev s1)) = (dview (l_dev s1))\<lparr>dv_fds := dv_fds (dview (l_dev s1)) - {fd}\<rparr>"
          using fd by (intro dev_close) (auto simp: calm_def)
        moreover have "(dview (l_dev s1))\<lparr>dv_fds := dv_fds (dview (l_dev s1)) - {fd}\<rparr> = dview (l_dev s)"
          using fd(2,4) by simp
        ultimately show ?thesis
          by (intro step [of ?s2 "k + 1"]) (use fd(1) False Some x Inr in \<open>simp_all add: calm_def\<close>)
      qed
    qed
  qed
qed

section \<open>Opening and closing a network\<close>

text \<open>A state in which the library may be called; everything is as before; a network is open.\<close>

definition lib_ok :: "'d lib \<Rightarrow> bool" where
  "lib_ok s \<longleftrightarrow> io_ok (l_io s) \<and> inv (l_dev s) \<and> dom (l_mem s) \<subseteq> dv_maps (dview (l_dev s))"

definition restored :: "'d lib \<Rightarrow> 'd lib \<Rightarrow> bool" where
  "restored s s1 \<longleftrightarrow> inv (l_dev s1) \<and> dview (l_dev s1) = dview (l_dev s) \<and> l_mem s1 = l_mem s \<and>
     live (l_io s1) = live (l_io s) \<and> fds (l_io s1) = fds (l_io s)"

definition with_fd :: "nat \<Rightarrow> dview \<Rightarrow> dview" where
  "with_fd fd v = v\<lparr>dv_fds := insert fd (dv_fds v)\<rparr>"

definition opened :: "string option \<Rightarrow> 'd lib \<Rightarrow> lib_nn \<Rightarrow> 'd lib \<Rightarrow> bool" where
  "opened path s nn s1 \<longleftrightarrow> (\<exists>p ino f. path = Some p \<and> paths (l_io s) p = Inr ino \<and> file_wf f \<and>
     model_of f = Some (nn_model nn) \<and> file_open ino f (l_io s1) \<and>
     heap_ok (live (l_io s)) (add_mset (nn_self nn) (mset (blocks (file_blocks f)))) (l_io s1) \<and>
     fds (l_io s) (hf_fd f) = None \<and> fds (l_io s1) = (fds (l_io s))(hf_fd f \<mapsto> ino) \<and>
     nn_fd nn \<notin> dv_fds (dview (l_dev s)) \<and> (\<forall>h. (nn_fd nn, h) \<notin> dv_handles (dview (l_dev s))) \<and>
     nn_res (with_fd (nn_fd nn) (dview (l_dev s))) (l_mem s) nn s1 \<and>
     nn_chans nn = replicate TILE_COUNT zero_bo \<and>
     chans_ready ino f (fault_free (l_io s)) nn s1)"

lemma free_nn_ok:
  assumes "md_hwx (nn_model nn) = Some f" and "file_wf f"
    and "heap_ok L (add_mset (nn_self nn) (mset (blocks (file_blocks f)))) (l_io s)"
  shows "\<exists>s1. free_nn nn s = Some s1 \<and> live (l_io s1) = L \<and>
    fds (l_io s1) = (fds (l_io s))(hf_fd f := None) \<and> l_dev s1 = l_dev s \<and> l_mem s1 = l_mem s"
proof -
  have "heap_ok L (mset (blocks (file_blocks f)) + {#nn_self nn#}) (l_io s)" using assms(3) by simp
  from hwx_close_ok [OF this] assms(2) obtain w1 where w1: "hwx_close (Some f) (l_io s) = Some w1"
    "heap_ok L {#nn_self nn#} w1" "fds w1 = (fds (l_io s))(hf_fd f := None)"
    by (auto simp: file_wf_def)
  from heap_ok_free [OF w1(2)] obtain w2 where "os_free (Some (nn_self nn)) w1 = Some w2"
    "heap_ok L {#} w2" "fds w2 = fds w1" by blast
  with w1 assms(1) show ?thesis
    by (simp add: free_nn_def ane_model_free_def heap_ok_def)
qed

text \<open>Closing the device once the channels are freed.\<close>

lemma close_ok:
  assumes "res (with_fd fd v) m fd {#} {#} s" and "fd \<notin> dv_fds v" and "\<forall>h. (fd, h) \<notin> dv_handles v"
  shows "inv (d_close D fd (l_dev s)) \<and> dview (d_close D fd (l_dev s)) = v \<and> l_mem s = m"
proof -
  note e = res_end [OF assms(1)]
  have "inv (d_close D fd (l_dev s)) \<and>
      dview (d_close D fd (l_dev s)) = (dview (l_dev s))\<lparr>dv_fds := dv_fds (dview (l_dev s)) - {fd}\<rparr>"
    using assms(1,3) e(1) by (intro dev_close) (auto simp: res_def with_fd_def)
  then show ?thesis using e assms(2) by (simp add: with_fd_def)
qed

lemma ane_free_ok:
  assumes "opened path s nn s1"
  shows "\<exists>s2. ane_free D nn s1 = Some s2 \<and> restored s s2"
proof -
  obtain p ino f where o: "file_wf f" "model_of f = Some (nn_model nn)"
    "heap_ok (live (l_io s)) (add_mset (nn_self nn) (mset (blocks (file_blocks f)))) (l_io s1)"
    "fds (l_io s) (hf_fd f) = None" "fds (l_io s1) = (fds (l_io s))(hf_fd f \<mapsto> ino)"
    "nn_fd nn \<notin> dv_fds (dview (l_dev s))" "\<forall>h. (nn_fd nn, h) \<notin> dv_handles (dview (l_dev s))"
    "nn_res (with_fd (nn_fd nn) (dview (l_dev s))) (l_mem s) nn s1"
    using assms by (auto simp: opened_def)
  obtain nn2 s2 where 2: "ane_chan_free D nn s1 = Some (nn2, s2)" "l_io s2 = l_io s1" "nn_fd nn2 = nn_fd nn"
    "nn_model nn2 = nn_model nn" "nn_self nn2 = nn_self nn"
    "res (with_fd (nn_fd nn) (dview (l_dev s))) (l_mem s) (nn_fd nn) {#} {#} s2"
    using ane_chan_free_ok [of "with_fd (nn_fd nn) (dview (l_dev s))" "l_mem s" nn s1] o(8)
    by (auto simp: nn_res_def)
  note c = close_ok [OF 2(6) o(6,7)]
  let ?nn3 = "nn2\<lparr>nn_fd := 0\<rparr>" and ?s3 = "put_dev (d_close D (nn_fd nn) (l_dev s2)) s2"
  obtain s4 where 4: "free_nn ?nn3 ?s3 = Some s4" "live (l_io s4) = live (l_io s)"
    "fds (l_io s4) = (fds (l_io s1))(hf_fd f := None)" "l_dev s4 = l_dev ?s3" "l_mem s4 = l_mem s2"
    using free_nn_ok [of ?nn3 f "live (l_io s)" ?s3] 2 o(1,3) model_of_simps(1) [OF o(2)] by auto
  have "ane_free D nn s1 = Some s4"
    using 2(1,3) 4(1) by (simp add: ane_free_def ane_device_close_def)
  moreover have "fds (l_io s4) = fds (l_io s)" using 4(3) o(4,5) by auto
  ultimately show ?thesis using c 4 by (simp add: restored_def)
qed

text \<open>The outcome of \<open>__ane_init\<close>.\<close>

definition init_outcome :: "string option \<Rightarrow> int \<Rightarrow> 'd lib \<Rightarrow> (lib_nn option \<times> 'd lib) option \<Rightarrow> bool" where
  "init_outcome path dev_id s r \<longleftrightarrow>
     (case r of
        None \<Rightarrow> \<not> fault_free (l_io s) \<and> init_loses_name D path dev_id s \<or>
          (\<exists>p ino. path = Some p \<and> paths (l_io s) p = Inr ino \<and> short_file (contents ino))
      | Some (None, s1) \<Rightarrow> restored s s1
      | Some (Some nn, s1) \<Rightarrow> opened path s nn s1)"

text \<open>From the device on, with the model loaded.\<close>

lemma init_device_ok:
  fixes s0 :: "'d lib"
  defines "v \<equiv> dview (l_dev s0)" and "L \<equiv> live (l_io s0)"
  assumes s: "inv (l_dev s)" "l_dev s = l_dev s0" "l_mem s = l_mem s0" "dom (l_mem s0) \<subseteq> dv_maps v"
    and heap: "heap_ok L (add_mset (nn_self nn) (mset (blocks (file_blocks f)))) (l_io s)"
    and f: "file_wf f" "model_of f = Some (nn_model nn)" "path = Some p" "paths (l_io s0) p = Inr ino"
      "file_open ino f (l_io s)" "fds (l_io s0) (hf_fd f) = None" "fds (l_io s) = (fds (l_io s0))(hf_fd f \<mapsto> ino)"
    and nn: "nn_chans nn = replicate TILE_COUNT zero_bo" "nn_btsp nn = zero_bo"
    and td: "md_td_size (nn_model nn) \<noteq> 0" "size_ok (tile_align (ucast (md_td_size (nn_model nn))))"
    and quiet: "fault_free (l_io s0) \<Longrightarrow> fault_free (l_io s)"
    and loses: "0 \<le> dev_id \<Longrightarrow> dev_id < MAX_ANE_DEVICES \<Longrightarrow> scan_loses D dev_id 0 MAX_NODE_COUNT 0 s \<Longrightarrow>
      init_loses_name D path dev_id s0"
  shows "init_outcome path dev_id s0
    (Option.bind (ane_device_open D nn dev_id s) (\<lambda>(err, nn2, s2).
         if err < 0 then map_option (\<lambda>s3. (None, s3)) (free_nn nn2 s2)
         else Option.bind (ane_chan_init D nn2 s2) (\<lambda>(err, nn3, s3).
           if err < 0
           then let (nn4, s4) = ane_device_close D nn3 s3 in map_option (\<lambda>s5. (None, s5)) (free_nn nn4 s4)
           else Some (Some nn3, s3))))"
proof -
  have undo: "((fds (l_io s0))(hf_fd f \<mapsto> ino))(hf_fd f := None) = fds (l_io s0)" using f(6) by auto
  note hwx = model_of_simps(1) [OF f(2)]
  have dev: "case device_open D dev_id s of
      None \<Rightarrow> \<not> fault_free (l_io s) \<and> init_loses_name D path dev_id s0
    | Some (Inl e, s1) \<Rightarrow> calm L (add_mset (nn_self nn) (mset (blocks (file_blocks f)))) s s1 \<and>
        dview (l_dev s1) = v
    | Some (Inr fd, s1) \<Rightarrow> calm L (add_mset (nn_self nn) (mset (blocks (file_blocks f)))) s s1 \<and>
        fd \<notin> dv_fds v \<and> (\<forall>h. (fd, h) \<notin> dv_handles v) \<and> dview (l_dev s1) = with_fd fd v"
  proof (cases "dev_id < 0 \<or> MAX_ANE_DEVICES \<le> dev_id")
    case True
    with s(1,2) heap show ?thesis by (auto simp: device_open_def calm_def v_def)
  next
    case False
    then have "device_open D dev_id s = scan_nodes D dev_id 0 MAX_NODE_COUNT 0 s"
      by (simp only: device_open_def if_False)
    then show ?thesis
      using scan_nodes_ok [OF s(1) heap, of dev_id 0 MAX_NODE_COUNT 0] s(2) loses False
      by (auto simp: v_def with_fd_def simp del: scan_nodes.simps scan_loses.simps split: option.splits sum.splits)
  qed
  consider (undef) "device_open D dev_id s = None"
    | (no_dev) e s1 where "device_open D dev_id s = Some (Inl e, s1)"
    | (found_dev) fd s1 where "device_open D dev_id s = Some (Inr fd, s1)"
    by (metis option.exhaust prod.exhaust sum.exhaust)
  then show ?thesis
  proof cases
    case undef
    with dev quiet show ?thesis by (auto simp: ane_device_open_def init_outcome_def)
  next
    case no_dev
    with dev have c: "calm L (add_mset (nn_self nn) (mset (blocks (file_blocks f)))) s s1" "dview (l_dev s1) = v"
      by simp_all
    then obtain s3 where "free_nn nn s1 = Some s3" "live (l_io s3) = L"
      "fds (l_io s3) = (fds (l_io s1))(hf_fd f := None)" "l_dev s3 = l_dev s1" "l_mem s3 = l_mem s1"
      using free_nn_ok [OF hwx f(1), of L s1] by (auto simp: calm_def)
    with no_dev c f(7) undo s(3) show ?thesis
      by (simp add: ane_device_open_def init_outcome_def restored_def calm_def v_def L_def)
  next
    case found_dev
    let ?nn = "nn\<lparr>nn_fd := fd\<rparr>"
    from found_dev dev have c: "calm L (add_mset (nn_self nn) (mset (blocks (file_blocks f)))) s s1"
      "fd \<notin> dv_fds v" "\<forall>h. (fd, h) \<notin> dv_handles v" "dview (l_dev s1) = with_fd fd v" by simp_all
    have io1: "fds (l_io s1) = fds (l_io s)" "fault_free (l_io s) \<longrightarrow> fault_free (l_io s1)"
      "heap_ok L (add_mset (nn_self nn) (mset (blocks (file_blocks f)))) (l_io s1)" "inv (l_dev s1)"
      "l_mem s1 = l_mem s0" using c(1) s(3) by (simp_all add: calm_def)
    have open1: "file_open ino f (l_io s1)" using f(5) io1(1) by (simp add: file_open_def)
    have unused: "list_all unused (nn_btsp ?nn # nn_chans ?nn)" using nn by (simp add: list_all_iff)
    have tiles: "md_tiles (nn_model ?nn) = replicate TILE_COUNT 0" using model_of_simps(2) [OF f(2)] by simp
    have "res (dview (l_dev s1)) (l_mem s1) fd {#} {#} s1"
      using io1(4,5) c(4) s(4) by (intro res_start) (simp_all add: with_fd_def)
    then have res1: "nn_res (with_fd fd v) (l_mem s0) ?nn s1"
      using nn tiles unused chans_unused [of "replicate TILE_COUNT zero_bo"] c(4) io1(5)
      by (simp add: nn_res_def unused_simps list_all_length)
    have nnfd: "nn_fd ?nn = fd" by simp
    have "\<exists>e nn1 s2. ane_chan_init D ?nn s1 = Some (e, nn1, s2) \<and> same_nn ?nn nn1 \<and> same_res (l_io s1) (l_io s2) \<and>
      (if e < 0 then res (with_fd fd v) (l_mem s0) (nn_fd ?nn) {#} {#} s2
       else e = 0 \<and> nn_res (with_fd fd v) (l_mem s0) nn1 s2 \<and> chans_ready ino f (fault_free (l_io s1)) nn1 s2) \<and>
      ((\<forall>t \<in> set (md_tiles (nn_model ?nn)). t = 0) \<longrightarrow> 0 \<le> e \<longrightarrow> nn_chans nn1 = nn_chans ?nn)"
      by (rule ane_chan_init_ok [OF res1 unused]) (use tiles hwx f(1) open1 td in simp_all)
    then obtain e nn1 s2 where 2: "ane_chan_init D ?nn s1 = Some (e, nn1, s2)" "same_nn ?nn nn1"
      "same_res (l_io s1) (l_io s2)"
      "if e < 0 then res (with_fd fd v) (l_mem s0) fd {#} {#} s2
       else e = 0 \<and> nn_res (with_fd fd v) (l_mem s0) nn1 s2 \<and> chans_ready ino f (fault_free (l_io s1)) nn1 s2"
      "0 \<le> e \<longrightarrow> nn_chans nn1 = replicate TILE_COUNT zero_bo"
      using tiles nn unfolding nnfd by auto
    have nn1: "nn_fd nn1 = fd" "nn_model nn1 = nn_model nn" "nn_self nn1 = nn_self nn"
      using 2(2) by (simp_all add: same_nn_def)
    have heap2: "heap_ok L (add_mset (nn_self nn) (mset (blocks (file_blocks f)))) (l_io s2)"
      using io1(3) heap_ok_same_res [OF 2(3)] by simp
    have fds2: "fds (l_io s2) = (fds (l_io s0))(hf_fd f \<mapsto> ino)"
      using 2(3) io1(1) f(7) by (simp add: same_res_def)
    show ?thesis
    proof (cases "e < 0")
      case True
      note cl = close_ok [OF 2(4) [unfolded if_P [OF True]] c(2,3)]
      let ?nn4 = "nn1\<lparr>nn_fd := 0\<rparr>" and ?s4 = "put_dev (d_close D fd (l_dev s2)) s2"
      obtain s5 where "free_nn ?nn4 ?s4 = Some s5" "live (l_io s5) = L"
        "fds (l_io s5) = (fds (l_io s2))(hf_fd f := None)" "l_dev s5 = l_dev ?s4" "l_mem s5 = l_mem s2"
        using free_nn_ok [of ?nn4 f L ?s4] hwx f(1) heap2 nn1 by auto
      with found_dev 2(1) True nn1 cl fds2 undo show ?thesis
        by (simp add: ane_device_open_def ane_device_close_def init_outcome_def restored_def v_def L_def)
    next
      case False
      have "chans_ready ino f (fault_free (l_io s0)) nn1 s2"
        using 2(4) False quiet io1(2) by (auto simp: chans_ready_def btsp_filled_def)
      moreover have "file_open ino f (l_io s2)" using open1 2(3) by (simp add: file_open_def same_res_def)
      ultimately have "opened path s0 nn1 s2"
        using 2(4,5) False f(1-4,6) nn1 heap2 fds2 c(2,3)
        unfolding opened_def v_def L_def by (intro exI [of _ p] exI [of _ ino] exI [of _ f]) auto
      with found_dev 2(1) False show ?thesis
        by (simp add: ane_device_open_def init_outcome_def)
    qed
  qed
qed

lemma ane_init_ok:
  assumes s: "lib_ok s"
    and fits: "\<And>p ino. path = Some p \<Longrightarrow> paths (l_io s) p = Inr ino \<Longrightarrow> td_size_fits size_ok (contents ino)"
  shows "init_outcome path dev_id s (ane_init D path dev_id s)"
proof -
  have io: "io_ok (l_io s)" and d: "inv (l_dev s)" "dom (l_mem s) \<subseteq> dv_maps (dview (l_dev s))"
    using s by (simp_all add: lib_ok_def)
  have heap0: "heap_ok (live (l_io s)) {#} (l_io s)" using io by (simp add: heap_ok_def io_ok_def)
  obtain q w where m: "os_malloc (l_io s) = (q, w)" by fastforce
  show ?thesis
  proof (cases q)
    case None
    with m have "live w = live (l_io s) \<and> fds w = fds (l_io s)"
      by (auto simp: os_malloc_def split: list.splits bool.splits)
    with None m d show ?thesis by (simp add: ane_init_def init_outcome_def restored_def)
  next
    case (Some self)
    note a = os_malloc_ok [OF io m [unfolded Some]]
    have q0: "fault_free (l_io s) \<Longrightarrow> fault_free w" using os_malloc_env [OF m] by blast
    let ?nn = "zero_nn self" and ?s = "put_io w s"
    have eq: "ane_init D path dev_id s = ane_init_body D path dev_id ?nn ?s"
      using m Some by (simp add: ane_init_def)
    note model = ane_model_init_ok [OF a(1), of path]
    show ?thesis
    proof (cases "ane_model_init path w")
      case None
      with model a(3) show ?thesis
        by (auto simp: eq ane_init_body_def init_outcome_def)
    next
      case (Some x)
      obtain e md w1 where x: "x = (e, md, w1)" by (cases x) auto
      show ?thesis
      proof (cases "e < 0")
        case True
        with model Some x have w1: "heap_ok (live w) {#} w1" "fds w1 = fds w" by simp_all
        then have "heap_ok (live (l_io s)) {#self#} w1" using a(2,4) heap_ok_move by simp
        from heap_ok_free [OF this] obtain w2 where "os_free (Some self) w1 = Some w2"
          "heap_ok (live (l_io s)) {#} w2" "fds w2 = fds w1" by blast
        with True Some x w1 a(6) d show ?thesis
          by (simp add: eq ane_init_body_def init_outcome_def zero_nn_def restored_def heap_ok_def)
      next
        case False
        with model Some x obtain f where f: "hwx_open path w = Some (Some f, w1)" "md_hwx md = Some f"
          "model_of f = Some md" "e = 0" by auto
        obtain p ino where p: "path = Some p" "paths w p = Inr ino" "fds w (hf_fd f) = None"
          "open_result ((fds w)(hf_fd f \<mapsto> ino)) (live w) ino (hf_fd f) (Some (Some f, w1))"
          using hwx_open_ok [OF a(1), of path] f(1) by auto
        have small: "length (contents ino) < 2 ^ 63" using a(1) p(2) by (simp add: io_ok_def)
        have r: "heap_ok (live w) (mset (blocks (file_blocks f))) w1" "fds w1 = (fds w)(hf_fd f \<mapsto> ino)"
          "file_wf f" "file_open ino f w1"
          using p(4) small by (simp_all add: open_result_def file_open_def)
        have heap: "heap_ok (live (l_io s)) (add_mset self (mset (blocks (file_blocks f)))) w1"
          using r(1) a(2,4) heap_ok_move by simp
        have td: "md_td_size md \<noteq> 0 \<and> size_ok (tile_align (ucast (md_td_size md)))"
          by (rule model_of_fits [OF a(1) f(1) f(3)]) (use fits a(3) in auto)
        have quiet: "fault_free (l_io s) \<Longrightarrow> fault_free w1"
          using hwx_open_fault_free [OF a(1) f(1)] q0 by blast
        have loses: "init_loses_name D path dev_id s"
          if "0 \<le> dev_id" "dev_id < MAX_ANE_DEVICES" "scan_loses D dev_id 0 MAX_NODE_COUNT 0 (put_io w1 ?s)"
          using that m \<open>q = Some self\<close> Some x False by (simp add: init_loses_name_def del: scan_loses.simps)
        have "init_outcome path dev_id s
          (Option.bind (ane_device_open D (?nn\<lparr>nn_model := md\<rparr>) dev_id (put_io w1 ?s)) (\<lambda>(err, nn2, s2).
           if err < 0 then map_option (\<lambda>s3. (None, s3)) (free_nn nn2 s2)
           else Option.bind (ane_chan_init D nn2 s2) (\<lambda>(err, nn3, s3).
             if err < 0
             then let (nn4, s4) = ane_device_close D nn3 s3 in map_option (\<lambda>s5. (None, s5)) (free_nn nn4 s4)
             else Some (Some nn3, s3))))"
          by (rule init_device_ok [where f = f and p = p and ino = ino])
            (use d heap r f p a td quiet loses in \<open>simp_all add: zero_nn_def del: scan_loses.simps\<close>)
        with False Some x f(4) show ?thesis by (simp add: eq ane_init_body_def)
      qed
    qed
  qed
qed

end

end
