(* ===== verification/Lib_Tile.thy ===== *)
theory Lib_Tile
  imports Ane_Prelude
begin

text \<open>
  The layout conversions \<open>ane_tile\<close> and \<open>ane_untile\<close> of \<open>src/src/libane/ane.c\<close>: from a dense
  array of half-words with dimensions N, C, H, W to the padded layout of the engine, in which
  a row takes R bytes and a plane P bytes, and back. Buffers are byte lists and separate
  objects; a copy that leaves one of them, and a division by zero, have no result. All sizes
  and offsets are 64-bit.
\<close>

section \<open>Operations\<close>

text \<open>The triple loop both functions run: a row of \<open>stride\<close> bytes is copied from \<open>soff n c h\<close>
  to \<open>doff n c h\<close>.\<close>

definition copy_rows ::
  "bytes \<Rightarrow> u64 \<Rightarrow> u64 \<Rightarrow> u64 \<Rightarrow> u64 \<Rightarrow> (u64 \<Rightarrow> u64 \<Rightarrow> u64 \<Rightarrow> u64) \<Rightarrow> (u64 \<Rightarrow> u64 \<Rightarrow> u64 \<Rightarrow> u64) \<Rightarrow>
    bytes \<Rightarrow> bytes option" where
  "copy_rows src N C H stride soff doff =
     for_loop 0 (unat N) (\<lambda>n. for_loop 0 (unat C) (\<lambda>c. for_loop 0 (unat H) (\<lambda>h dst.
       Option.bind (mem_read src (unat (soff (of_nat n) (of_nat c) (of_nat h))) (unat stride))
         (mem_write dst (unat (doff (of_nat n) (of_nat c) (of_nat h)))))))"

definition ane_tile ::
  "bytes \<Rightarrow> bytes \<Rightarrow> u64 \<Rightarrow> u64 \<Rightarrow> u64 \<Rightarrow> u64 \<Rightarrow> u64 \<Rightarrow> u64 \<Rightarrow> bytes option" where
  "ane_tile data tile N C H W P R =
     (if R = 0 then None else
      let new_H = P div R; new_W = R div 2; stride = W * 2;
          C0 = C * H * W; C1 = C * new_H * new_W; H0 = H * W; H1 = new_H * new_W
      in if new_H = H \<and> new_W = W
         then Option.bind (mem_read data 0 (unat (N * C * P))) (mem_write tile 0)
         else Option.bind (mem_write tile 0 (replicate (unat (N * C * P)) 0))
           (copy_rows data N C H stride
              (\<lambda>n c h. (n * C0 + c * H0 + h * W) * 2) (\<lambda>n c h. (n * C1 + c * H1 + h * new_W) * 2)))"

definition ane_untile ::
  "bytes \<Rightarrow> bytes \<Rightarrow> u64 \<Rightarrow> u64 \<Rightarrow> u64 \<Rightarrow> u64 \<Rightarrow> u64 \<Rightarrow> u64 \<Rightarrow> bytes option" where
  "ane_untile data tile N C H W P R =
     (if R = 0 then None else
      let new_H = P div R; new_W = R div 2; stride = W * 2;
          C0 = C * H * W; C1 = C * new_H * new_W; H0 = H * W; H1 = new_H * new_W
      in if new_H = H \<and> new_W = W
         then Option.bind (mem_read tile 0 (unat (N * C * H * W * 2))) (mem_write data 0)
         else Option.bind (mem_write data 0 (replicate (unat (N * C * H * W * 2)) 0))
           (copy_rows tile N C H stride
              (\<lambda>n c h. (n * C1 + c * H1 + h * new_W) * 2) (\<lambda>n c h. (n * C0 + c * H0 + h * W) * 2)))"

section \<open>Copying rows between two layouts\<close>

text \<open>
  Byte \<open>k\<close> of a layout with \<open>dH\<close> rows of \<open>dW\<close> bytes per plane, filled from one with \<open>sH\<close> rows
  of \<open>sW\<close> bytes: the same byte of the same row of the same plane where there is one, else 0.
\<close>

definition cell :: "bytes \<Rightarrow> nat \<Rightarrow> nat \<Rightarrow> nat \<Rightarrow> nat \<Rightarrow> nat \<Rightarrow> nat \<Rightarrow> nat \<Rightarrow> u8" where
  "cell src H len sH sW dH dW k =
     (let row = k div dW; j = k mod dW
      in if row mod dH < H \<and> j < len then src ! ((row div dH * sH + row mod dH) * sW + j) else 0)"

text \<open>The destination \<open>t\<close> when the rows before \<open>b\<close> are filled and the others still clear.\<close>

definition filled :: "bytes \<Rightarrow> nat \<Rightarrow> nat \<Rightarrow> nat \<Rightarrow> nat \<Rightarrow> nat \<Rightarrow> nat \<Rightarrow> bytes \<Rightarrow> nat \<Rightarrow> nat \<Rightarrow> bytes \<Rightarrow> bool" where
  "filled src H len sH sW dH dW dst area b t \<longleftrightarrow> length t = length dst \<and>
     (\<forall>k < length dst. t ! k = (if k < area then (if k div dW < b then cell src H len sH sW dH dW k else 0)
        else dst ! k))"

lemma in_row: "(k :: nat) div w = r \<longleftrightarrow> r * w \<le> k \<and> k < r * w + w" if "0 < w"
  using that dividend_less_times_div [OF that, of k] by (auto simp: algebra_simps intro: div_nat_eqI)

lemma filled_row:
  assumes t: "filled src H len sH sW dH dW dst area (p * dH + h) t"
    and h: "h < H" "H \<le> dH" and len: "len \<le> dW"
    and src: "(p * sH + h) * sW + len \<le> length src"
    and dst: "(p * dH + h) * dW + dW \<le> area" "area \<le> length dst"
  shows "\<exists>t'. Option.bind (mem_read src ((p * sH + h) * sW) len) (mem_write t ((p * dH + h) * dW)) = Some t' \<and>
    filled src H len sH sW dH dW dst area (p * dH + Suc h) t'"
proof -
  let ?r = "p * dH + h"
  let ?row = "take len (drop ((p * sH + h) * sW) src)"
  have row: "mem_read src ((p * sH + h) * sW) len = Some ?row" "length ?row = len"
    using src by (simp_all add: mem_read_def)
  have lt: "length t = length dst" using t by (simp add: filled_def)
  have "?r * dW + length ?row \<le> length t" using dst len row(2) lt by linarith
  then obtain t' where t': "mem_write t (?r * dW) ?row = Some t'" using mem_write_ok by blast
  have "t' ! k = (if k < area then (if k div dW < Suc ?r then cell src H len sH sW dH dW k else 0) else dst ! k)"
    if k: "k < length dst" for k
  proof -
    have old: "t ! k = (if k < area then (if k div dW < ?r then cell src H len sH sW dH dW k else 0) else dst ! k)"
      using t k by (simp add: filled_def)
    have new: "t' ! k = (if ?r * dW \<le> k \<and> k < ?r * dW + len then ?row ! (k - ?r * dW) else t ! k)"
      using mem_write_nth [OF t', of k] k lt row(2) by simp
    show ?thesis
    proof (cases "dW = 0")
      case True
      then have "len = 0" using len by simp
      with new old True h show ?thesis by (auto simp: cell_def)
    next
      case False
      then have w: "0 < dW" by simp
      show ?thesis
      proof (cases "k div dW = ?r")
        case True
        then have b: "?r * dW \<le> k" "k < ?r * dW + dW" using in_row [OF w] by blast+
        then have "k < area" using dst by linarith
        have j: "k - ?r * dW = k mod dW" using True by (metis minus_div_mult_eq_mod)
        have "?r div dH = p" "?r mod dH = h" using h by simp_all
        then have c: "cell src H len sH sW dH dW k =
            (if k mod dW < len then src ! ((p * sH + h) * sW + k mod dW) else 0)"
          using True h by (simp add: cell_def Let_def)
        have "k < ?r * dW + len \<longleftrightarrow> k mod dW < len" using b j by linarith
        with new old c b True \<open>k < area\<close> j src show ?thesis by simp
      next
        case False
        then have "\<not> (?r * dW \<le> k \<and> k < ?r * dW + len)" using in_row [OF w, of k ?r] len by auto
        with new old False show ?thesis by (auto simp: less_Suc_eq)
      qed
    qed
  qed
  with t' row lt show ?thesis
    by (auto simp: filled_def mem_write_length)
qed

text \<open>The rows of a plane beyond the ones copied stay clear.\<close>

lemma filled_plane:
  assumes t: "filled src H len sH sW dH dW dst area (p * dH + H) t" and H: "H \<le> dH"
  shows "filled src H len sH sW dH dW dst area (Suc p * dH + 0) t"
proof -
  have "cell src H len sH sW dH dW k = 0" if "p * dH + H \<le> k div dW" "k div dW < Suc p * dH" for k
  proof -
    have "k div dW div dH = p" using that by (intro div_nat_eqI) (auto simp: algebra_simps)
    then have "H \<le> k div dW mod dH" using that by (simp add: modulo_nat_def mult.commute)
    then show ?thesis by (simp add: cell_def)
  qed
  moreover have "p * dH + H \<le> Suc p * dH" using H by simp
  ultimately show ?thesis using t by (auto simp: filled_def not_less)
qed

text \<open>The word offsets of the loop, when the whole layout has fewer than \<open>2 ^ 64\<close> bytes.\<close>

lemma len64: "LENGTH(64) = 64"
  by simp

definition row_offset :: "u64 \<Rightarrow> u64 \<Rightarrow> u64 \<Rightarrow> u64 \<Rightarrow> u64 \<Rightarrow> u64 \<Rightarrow> u64" where
  "row_offset C HH WW n c h = (n * (C * HH * WW) + c * (HH * WW) + h * WW) * 2"

lemma plane_less: "(n :: nat) < N \<Longrightarrow> c < C \<Longrightarrow> n * C + c < N * C"
proof -
  assume "n < N" "c < C"
  then have "n * C + c < Suc n * C" "Suc n * C \<le> N * C" by (simp, intro mult_le_mono1, simp)
  then show ?thesis by linarith
qed

lemma row_less:
  assumes "(p :: nat) < planes" and "h < HH"
  shows "(p * HH + h) * w + w \<le> planes * HH * w"
proof -
  have "Suc (p * HH + h) \<le> planes * HH" using plane_less [OF assms] by simp
  then have "Suc (p * HH + h) * w \<le> planes * HH * w" by (rule mult_le_mono1)
  then show ?thesis by simp
qed

lemma unat_row_offset:
  assumes n: "n < N" and c: "c < unat C" and h: "h < unat HH" and W: "0 < unat WW"
    and small: "N * unat C * unat HH * (2 * unat WW) < 2 ^ 64"
  shows "unat (row_offset C HH WW (of_nat n) (of_nat c) (of_nat h)) =
    ((n * unat C + c) * unat HH + h) * (2 * unat WW)"
proof -
  have "row_offset C HH WW (of_nat n) (of_nat c) (of_nat h) =
      of_nat (((n * unat C + c) * unat HH + h) * (2 * unat WW))"
    by (simp add: row_offset_def algebra_simps)
  moreover have "((n * unat C + c) * unat HH + h) * (2 * unat WW) < 2 ^ 64"
    using row_less [OF plane_less [OF n c] h, of "2 * unat WW"] small by linarith
  then have "unat (of_nat (((n * unat C + c) * unat HH + h) * (2 * unat WW)) :: u64) =
      ((n * unat C + c) * unat HH + h) * (2 * unat WW)"
    by (intro unat_of_nat_less) simp
  ultimately show ?thesis by simp
qed

text \<open>The loop fills the destination.\<close>

lemma copy_rows_ok:
  fixes N C H stride sHH sWW dHH dWW :: u64
  defines "sH \<equiv> unat sHH" and "sW \<equiv> 2 * unat sWW" and "dH \<equiv> unat dHH" and "dW \<equiv> 2 * unat dWW"
  assumes H: "unat H \<le> sH" "unat H \<le> dH" and len: "0 < unat stride" "unat stride \<le> sW" "unat stride \<le> dW"
    and src: "unat N * unat C * sH * sW \<le> length src" "unat N * unat C * sH * sW < 2 ^ 64"
    and dst: "unat N * unat C * dH * dW \<le> length dst" "unat N * unat C * dH * dW < 2 ^ 64"
    and t: "filled src (unat H) (unat stride) sH sW dH dW dst (unat N * unat C * dH * dW) 0 t"
  shows "\<exists>t'. copy_rows src N C H stride (row_offset C sHH sWW) (row_offset C dHH dWW) t = Some t' \<and>
    filled src (unat H) (unat stride) sH sW dH dW dst (unat N * unat C * dH * dW) (unat N * unat C * dH) t'"
proof -
  let ?F = "filled src (unat H) (unat stride) sH sW dH dW dst (unat N * unat C * dH * dW)"
  have W: "0 < unat sWW" "0 < unat dWW" using len by (simp_all add: sW_def dW_def)
  have row: "\<exists>t'. Option.bind (mem_read src (unat (row_offset C sHH sWW (of_nat n) (of_nat c) (of_nat h))) (unat stride))
        (mem_write t (unat (row_offset C dHH dWW (of_nat n) (of_nat c) (of_nat h)))) = Some t' \<and>
      ?F ((n * unat C + c) * dH + Suc h) t'"
    if "n < unat N" "c < unat C" "h < unat H" "?F ((n * unat C + c) * dH + h) t" for n c h t
  proof -
    have hs: "h < sH" "h < dH" using that(3) H by linarith+
    note p = plane_less [OF that(1,2)]
    have "unat (row_offset C sHH sWW (of_nat n) (of_nat c) (of_nat h)) = ((n * unat C + c) * sH + h) * sW"
      unfolding sH_def sW_def
      by (rule unat_row_offset [OF that(1,2) _ W(1)]) (use hs src in \<open>simp_all add: sH_def sW_def\<close>)
    moreover have "unat (row_offset C dHH dWW (of_nat n) (of_nat c) (of_nat h)) = ((n * unat C + c) * dH + h) * dW"
      unfolding dH_def dW_def
      by (rule unat_row_offset [OF that(1,2) _ W(2)]) (use hs dst in \<open>simp_all add: dH_def dW_def\<close>)
    moreover have "((n * unat C + c) * sH + h) * sW + unat stride \<le> length src"
      using row_less [OF p hs(1), of sW] src(1) len(2) by linarith
    ultimately show ?thesis
      using filled_row [OF that(4,3) H(2) len(3) _ row_less [OF p hs(2), of dW] dst(1)] by simp
  qed
  have plane: "\<exists>t'. for_loop 0 (unat H) (\<lambda>h dst. Option.bind
        (mem_read src (unat (row_offset C sHH sWW (of_nat n) (of_nat c) (of_nat h))) (unat stride))
        (mem_write dst (unat (row_offset C dHH dWW (of_nat n) (of_nat c) (of_nat h))))) t = Some t' \<and>
      ?F ((n * unat C + Suc c) * dH + 0) t'"
    if "n < unat N" "c < unat C" "?F ((n * unat C + c) * dH + 0) t" for n c t
  proof -
    have "\<exists>t'. for_loop 0 (unat H) (\<lambda>h dst. Option.bind
        (mem_read src (unat (row_offset C sHH sWW (of_nat n) (of_nat c) (of_nat h))) (unat stride))
        (mem_write dst (unat (row_offset C dHH dWW (of_nat n) (of_nat c) (of_nat h))))) t = Some t' \<and>
      ?F ((n * unat C + c) * dH + (0 + unat H)) t'"
      by (rule for_loop_invariant) (use that row in auto)
    then show ?thesis using filled_plane [OF _ H(2)] by auto
  qed
  have image: "\<exists>t'. for_loop 0 (unat C) (\<lambda>c. for_loop 0 (unat H) (\<lambda>h dst. Option.bind
        (mem_read src (unat (row_offset C sHH sWW (of_nat n) (of_nat c) (of_nat h))) (unat stride))
        (mem_write dst (unat (row_offset C dHH dWW (of_nat n) (of_nat c) (of_nat h)))))) t = Some t' \<and>
      ?F ((Suc n * unat C + 0) * dH + 0) t'"
    if "n < unat N" "?F ((n * unat C + 0) * dH + 0) t" for n t
  proof -
    have "\<exists>t'. for_loop 0 (unat C) (\<lambda>c. for_loop 0 (unat H) (\<lambda>h dst. Option.bind
        (mem_read src (unat (row_offset C sHH sWW (of_nat n) (of_nat c) (of_nat h))) (unat stride))
        (mem_write dst (unat (row_offset C dHH dWW (of_nat n) (of_nat c) (of_nat h)))))) t = Some t' \<and>
      ?F ((n * unat C + (0 + unat C)) * dH + 0) t'"
      by (rule for_loop_invariant) (use that plane in auto)
    then show ?thesis by (simp add: add.commute)
  qed
  have "\<exists>t'. copy_rows src N C H stride (row_offset C sHH sWW) (row_offset C dHH dWW) t = Some t' \<and>
      ?F (((0 + unat N) * unat C + 0) * dH + 0) t'"
    unfolding copy_rows_def by (rule for_loop_invariant) (use t image in auto)
  then show ?thesis by simp
qed

section \<open>What the conversions compute\<close>

text \<open>Sensible parameters: rows of R bytes that hold W half-words, planes of P bytes that hold H
  rows, and sizes that fit 64 bits.\<close>

definition tile_shape :: "u64 \<Rightarrow> u64 \<Rightarrow> u64 \<Rightarrow> u64 \<Rightarrow> u64 \<Rightarrow> u64 \<Rightarrow> bool" where
  "tile_shape N C H W P R \<longleftrightarrow> 0 < unat W \<and> 2 * unat W \<le> unat R \<and> even (unat R) \<and>
     unat R dvd unat P \<and> unat H \<le> unat P div unat R \<and> unat N * unat C * unat P < 2 ^ 64"

lemma tile_shapeD:
  assumes "tile_shape N C H W P R"
  shows "R \<noteq> 0" "unat (P div R) = unat P div unat R" "2 * unat (R div 2) = unat R"
    "unat (P div R) * (2 * unat (R div 2)) = unat P" "unat (W * 2) = 2 * unat W"
    "unat (N * C * P) = unat N * unat C * unat P" "0 < unat W" "2 * unat W \<le> unat R"
    "unat H \<le> unat (P div R)"
proof -
  have W: "0 < unat W" "2 * unat W \<le> unat R" and R: "even (unat R)" "unat R dvd unat P"
    and H: "unat H \<le> unat P div unat R" and small: "unat N * unat C * unat P < 2 ^ 64"
    using assms by (auto simp: tile_shape_def)
  show "R \<noteq> 0" using W by auto
  show p: "unat (P div R) = unat P div unat R" by (rule unat_div)
  show r: "2 * unat (R div 2) = unat R" using R by (simp add: unat_div)
  show "unat (P div R) * (2 * unat (R div 2)) = unat P" using R(2) by (simp add: p r)
  show "unat (W * 2) = 2 * unat W"
    using W(2) u64_less [of R] by (simp add: unat_mult_less)
  show "0 < unat W" "2 * unat W \<le> unat R" by (rule W)+
  show "unat H \<le> unat (P div R)" using H p by simp
  show "unat (N * C * P) = unat N * unat C * unat P"
  proof (cases "unat P = 0")
    case False
    then have "unat N * unat C * 1 \<le> unat N * unat C * unat P" by (intro mult_le_mono2) simp
    then have "unat N * unat C < 2 ^ 64" using small by linarith
    then have "unat (N * C) = unat N * unat C" by (intro unat_mult_less) simp
    then show ?thesis using small by (simp add: unat_mult_less)
  qed (simp add: unat_eq_zero)
qed

text \<open>The dense array is not larger than the padded one.\<close>

lemma dense_size:
  assumes "tile_shape N C H W P R"
  shows "unat N * unat C * unat H * (2 * unat W) \<le> unat N * unat C * unat P"
    and "unat (N * C * H * W * 2) = unat N * unat C * unat H * (2 * unat W)"
proof -
  note s = tile_shapeD [OF assms]
  have "unat H * (2 * unat W) \<le> unat (P div R) * (2 * unat (R div 2))"
    using s(3,8,9) by (intro mult_le_mono) simp_all
  then have hw: "unat H * (2 * unat W) \<le> unat P" using s(4) by simp
  then have "unat N * unat C * (unat H * (2 * unat W)) \<le> unat N * unat C * unat P" by (rule mult_le_mono2)
  then show le: "unat N * unat C * unat H * (2 * unat W) \<le> unat N * unat C * unat P"
    by (simp only: mult.assoc)
  have small: "unat N * unat C * unat P < 2 ^ 64" using assms by (simp add: tile_shape_def)
  have "N * C * H * W * 2 = of_nat (unat N * unat C * unat H * (2 * unat W))" by (simp add: algebra_simps)
  moreover have "unat (of_nat (unat N * unat C * unat H * (2 * unat W)) :: u64) =
      unat N * unat C * unat H * (2 * unat W)"
    using le_less_trans [OF le small] by (intro unat_of_nat_less) (simp only: len64)
  ultimately show "unat (N * C * H * W * 2) = unat N * unat C * unat H * (2 * unat W)"
    by (simp only:)
qed

lemma cell_at:
  assumes "j < dW" and "h < dH"
  shows "cell src H len sH sW dH dW ((p * dH + h) * dW + j) =
    (if h < H \<and> j < len then src ! ((p * sH + h) * sW + j) else 0)"
proof -
  have "((p * dH + h) * dW + j) div dW = p * dH + h" "((p * dH + h) * dW + j) mod dW = j"
    using assms(1) by simp_all
  moreover have "(p * dH + h) div dH = p" "(p * dH + h) mod dH = h" using assms(2) by simp_all
  ultimately show ?thesis by (simp only: cell_def Let_def)
qed

lemma cell_same: "0 < H \<Longrightarrow> 0 < w \<Longrightarrow> cell src H w H w H w k = src ! k"
  by (simp add: cell_def Let_def)

text \<open>A buffer cleared in its first bytes.\<close>

lemma filled_none:
  assumes "mem_write dst 0 (replicate n 0) = Some t"
  shows "filled src H len sH sW dH dW dst n 0 t"
  using assms by (auto simp: filled_def mem_write_nth mem_write_length)

text \<open>A buffer whose first bytes are copied as they are.\<close>

lemma copy_whole:
  assumes "n \<le> length src" and "n \<le> length dst"
  shows "\<exists>t. Option.bind (mem_read src 0 n) (mem_write dst 0) = Some t \<and> length t = length dst \<and>
    (\<forall>k < length dst. t ! k = (if k < n then src ! k else dst ! k))"
proof -
  obtain t where "mem_write dst 0 (take n src) = Some t"
    using mem_write_ok [of 0 "take n src" dst] assms by auto
  with assms show ?thesis by (auto simp: mem_read_def mem_write_nth mem_write_length)
qed

text \<open>When every row is filled.\<close>

lemma filled_all:
  assumes "filled src H len sH sW dH dW dst (planes * dH * dW) (planes * dH) t"
  shows "length t = length dst \<and>
    (\<forall>k < length dst. t ! k = (if k < planes * dH * dW then cell src H len sH sW dH dW k else dst ! k))"
  using assms by (auto simp: filled_def less_mult_imp_div_less)

lemma tile_loop_offsets:
  "(\<lambda>n c h. (n * (C * HH * WW) + c * (HH * WW) + h * WW) * 2) = row_offset C HH WW"
  by (intro ext) (simp add: row_offset_def)

lemma ane_tile_cells:
  assumes shape: "tile_shape N C H W P R"
    and data: "unat N * unat C * unat H * (2 * unat W) \<le> length data"
    and tile: "unat N * unat C * unat P \<le> length tile"
  shows "\<exists>t. ane_tile data tile N C H W P R = Some t \<and> length t = length tile \<and>
    (\<forall>k < length tile. t ! k = (if k < unat N * unat C * unat P
       then cell data (unat H) (2 * unat W) (unat H) (2 * unat W) (unat (P div R)) (unat R) k
       else tile ! k))"
proof -
  note s = tile_shapeD [OF shape]
  have small: "unat N * unat C * unat P < 2 ^ 64" using shape by (simp add: tile_shape_def)
  have area: "unat N * unat C * unat (P div R) * (2 * unat (R div 2)) = unat N * unat C * unat P"
    using s(4) by (simp only: mult.assoc)
  have fits: "unat N * unat C * unat (P div R) * (2 * unat (R div 2)) \<le> length tile"
    "unat N * unat C * unat (P div R) * (2 * unat (R div 2)) < 2 ^ 64"
    "unat N * unat C * unat H * (2 * unat W) < 2 ^ 64"
    using tile small le_less_trans [OF dense_size(1) [OF shape] small] by (simp_all only: area)
  have w: "0 < unat (W * 2)" "unat (W * 2) \<le> 2 * unat W" "unat (W * 2) \<le> 2 * unat (R div 2)"
    using s(3,5,7,8) by simp_all
  show ?thesis
  proof (cases "P div R = H \<and> R div 2 = W")
    case True
    then have P: "unat P = unat H * (2 * unat W)" "unat R = 2 * unat W" using s(3,4) by auto
    then have "unat N * unat C * unat P = unat N * unat C * unat H * (2 * unat W)"
      by (simp only: mult.assoc)
    with data have "unat N * unat C * unat P \<le> length data" by (simp only:)
    from copy_whole [OF this tile] obtain t where t: "Option.bind (mem_read data 0 (unat N * unat C * unat P)) (mem_write tile 0) = Some t"
      "length t = length tile" "\<forall>k < length tile. t ! k = (if k < unat N * unat C * unat P then data ! k else tile ! k)"
      by blast
    have "cell data (unat H) (2 * unat W) (unat H) (2 * unat W) (unat (P div R)) (unat R) k = data ! k"
      if "k < unat N * unat C * unat P" for k
    proof -
      have "0 < unat H" using that P by (cases "unat H") auto
      with s(7) True P show ?thesis by (simp add: cell_same)
    qed
    with t True s(1,6) show ?thesis
      by (intro exI [of _ t]) (simp add: ane_tile_def Let_def)
  next
    case False
    obtain t0 where t0: "mem_write tile 0 (replicate (unat (N * C * P)) 0) = Some t0"
      using mem_write_ok [of 0 "replicate (unat (N * C * P)) 0" tile] tile s(6) by auto
    have "\<exists>t. copy_rows data N C H (W * 2) (row_offset C H W) (row_offset C (P div R) (R div 2)) t0 = Some t \<and>
      filled data (unat H) (unat (W * 2)) (unat H) (2 * unat W) (unat (P div R)) (2 * unat (R div 2)) tile
        (unat N * unat C * unat (P div R) * (2 * unat (R div 2))) (unat N * unat C * unat (P div R)) t"
      by (rule copy_rows_ok [OF order_refl s(9) w data fits(3,1,2)])
        (simp only: area, use filled_none [OF t0] in \<open>simp only: s(6)\<close>)
    then obtain t where t: "copy_rows data N C H (W * 2) (row_offset C H W) (row_offset C (P div R) (R div 2)) t0 = Some t"
      "filled data (unat H) (unat (W * 2)) (unat H) (2 * unat W) (unat (P div R)) (2 * unat (R div 2)) tile
        (unat N * unat C * unat (P div R) * (2 * unat (R div 2))) (unat N * unat C * unat (P div R)) t"
      by blast
    have "ane_tile data tile N C H W P R = Some t"
      unfolding ane_tile_def Let_def tile_loop_offsets using s(1) False t0 t(1) by auto
    with filled_all [OF t(2), unfolded area, unfolded s(3,5)] show ?thesis
      by blast
  qed
qed

lemma ane_untile_cells:
  assumes shape: "tile_shape N C H W P R"
    and data: "unat N * unat C * unat H * (2 * unat W) \<le> length data"
    and tile: "unat N * unat C * unat P \<le> length tile"
  shows "\<exists>d. ane_untile data tile N C H W P R = Some d \<and> length d = length data \<and>
    (\<forall>k < length data. d ! k = (if k < unat N * unat C * unat H * (2 * unat W)
       then cell tile (unat H) (2 * unat W) (unat (P div R)) (unat R) (unat H) (2 * unat W) k
       else data ! k))"
proof -
  note s = tile_shapeD [OF shape]
  let ?n = "unat N * unat C * unat H * (2 * unat W)"
  have small: "unat N * unat C * unat P < 2 ^ 64" using shape by (simp add: tile_shape_def)
  have area: "unat N * unat C * unat (P div R) * (2 * unat (R div 2)) = unat N * unat C * unat P"
    using s(4) by (simp only: mult.assoc)
  have fits: "unat N * unat C * unat (P div R) * (2 * unat (R div 2)) \<le> length tile"
    "unat N * unat C * unat (P div R) * (2 * unat (R div 2)) < 2 ^ 64"
    "unat N * unat C * unat H * (2 * unat W) < 2 ^ 64"
    using tile small le_less_trans [OF dense_size(1) [OF shape] small] by (simp_all only: area)
  have w: "0 < unat (W * 2)" "unat (W * 2) \<le> 2 * unat W" "unat (W * 2) \<le> 2 * unat (R div 2)"
    using s(3,5,7,8) by simp_all
  show ?thesis
  proof (cases "P div R = H \<and> R div 2 = W")
    case True
    then have P: "unat R = 2 * unat W" using s(3) by auto
    obtain d where d: "Option.bind (mem_read tile 0 ?n) (mem_write data 0) = Some d"
      "length d = length data" "\<forall>k < length data. d ! k = (if k < ?n then tile ! k else data ! k)"
      using copy_whole [of ?n tile data] order_trans [OF dense_size(1) [OF shape] tile] data by auto
    have "cell tile (unat H) (2 * unat W) (unat (P div R)) (unat R) (unat H) (2 * unat W) k = tile ! k"
      if "k < ?n" for k
    proof -
      have "0 < unat H" using that by (cases "unat H") auto
      with s(7) True P show ?thesis by (simp add: cell_same)
    qed
    with d True s(1) dense_size(2) [OF shape] show ?thesis
      by (intro exI [of _ d]) (simp add: ane_untile_def Let_def)
  next
    case False
    obtain d0 where d0: "mem_write data 0 (replicate (unat (N * C * H * W * 2)) 0) = Some d0"
      using mem_write_ok [of 0 "replicate (unat (N * C * H * W * 2)) 0" data] data dense_size(2) [OF shape] by auto
    have "\<exists>d. copy_rows tile N C H (W * 2) (row_offset C (P div R) (R div 2)) (row_offset C H W) d0 = Some d \<and>
      filled tile (unat H) (unat (W * 2)) (unat (P div R)) (2 * unat (R div 2)) (unat H) (2 * unat W) data
        ?n (unat N * unat C * unat H) d"
      by (rule copy_rows_ok [OF s(9) order_refl w(1,3,2) fits(1,2) data fits(3)])
        (use filled_none [OF d0] in \<open>simp only: dense_size(2) [OF shape]\<close>)
    then obtain d where d: "copy_rows tile N C H (W * 2) (row_offset C (P div R) (R div 2)) (row_offset C H W) d0 = Some d"
      "filled tile (unat H) (unat (W * 2)) (unat (P div R)) (2 * unat (R div 2)) (unat H) (2 * unat W) data
        ?n (unat N * unat C * unat H) d"
      by blast
    have "ane_untile data tile N C H W P R = Some d"
      unfolding ane_untile_def Let_def tile_loop_offsets using s(1) False d0 d(1) by auto
    with filled_all [OF d(2), unfolded s(3,5)] show ?thesis
      by blast
  qed
qed

section \<open>Correctness\<close>

text \<open>C33: \<open>ane_tile\<close> stays inside its buffers and puts row \<open>h\<close> of plane \<open>p\<close> of the data at row \<open>h\<close>
  of plane \<open>p\<close> of the tile, every other byte of the tile's N * C planes is 0, and nothing
  behind them is written.\<close>
theorem ane_tile_correct:
  assumes "tile_shape N C H W P R" and "unat N * unat C * unat H * (2 * unat W) \<le> length data"
    and "unat N * unat C * unat P \<le> length tile"
  shows "\<exists>t. ane_tile data tile N C H W P R = Some t \<and> length t = length tile \<and>
    drop (unat N * unat C * unat P) t = drop (unat N * unat C * unat P) tile \<and>
    (\<forall>p < unat N * unat C. \<forall>h < unat P div unat R. \<forall>j < unat R.
      t ! ((p * (unat P div unat R) + h) * unat R + j) =
        (if h < unat H \<and> j < 2 * unat W then data ! ((p * unat H + h) * (2 * unat W) + j) else 0))"
proof -
  note s = tile_shapeD [OF assms(1)]
  obtain t where t: "ane_tile data tile N C H W P R = Some t" "length t = length tile"
    "\<And>k. k < length tile \<Longrightarrow> t ! k = (if k < unat N * unat C * unat P
       then cell data (unat H) (2 * unat W) (unat H) (2 * unat W) (unat (P div R)) (unat R) k
       else tile ! k)"
    using ane_tile_cells [OF assms] by blast
  have R: "unat P div unat R * unat R = unat P" using s(2,3,4) by simp
  have "t ! ((p * (unat P div unat R) + h) * unat R + j) =
      (if h < unat H \<and> j < 2 * unat W then data ! ((p * unat H + h) * (2 * unat W) + j) else 0)"
    if "p < unat N * unat C" "h < unat P div unat R" "j < unat R" for p h j
  proof -
    let ?k = "(p * (unat P div unat R) + h) * unat R + j"
    have "?k < unat N * unat C * (unat P div unat R) * unat R"
      using row_less [OF that(1,2), of "unat R"] that(3) by linarith
    then have k: "?k < unat N * unat C * unat P" by (simp only: R mult.assoc)
    from k t(3) [of ?k] assms(3) show ?thesis by (simp add: cell_at [OF that(3,2)] s(2))
  qed
  moreover have "drop (unat N * unat C * unat P) t = drop (unat N * unat C * unat P) tile"
    by (rule nth_equalityI) (simp_all add: t)
  ultimately show ?thesis using t(1,2) by blast
qed

text \<open>Two planes of one row of one half-word, in rows of 4 bytes and planes of two rows.\<close>

theorem ane_tile_correct_witness:
  "\<exists>t. ane_tile [1, 2, 3, 4] (replicate 17 0xff) 1 2 1 1 8 4 = Some t \<and> t ! 3 = 0 \<and>
    t ! 8 = 3 \<and> t ! 9 = 4 \<and> t ! 12 = 0 \<and> drop 16 t = [0xff]"
proof -
  have shape: "tile_shape 1 2 1 1 8 4" by (simp add: tile_shape_def)
  obtain t where t: "ane_tile [1, 2, 3, 4] (replicate 17 0xff) 1 2 1 1 8 4 = Some t" "drop 16 t = [0xff]"
    "\<And>p h j. p < 2 \<Longrightarrow> h < 2 \<Longrightarrow> j < 4 \<Longrightarrow> t ! ((p * 2 + h) * 4 + j) =
      (if h < 1 \<and> j < 2 then [1, 2, 3, 4] ! ((p * 1 + h) * 2 + j) else 0)"
    using ane_tile_correct [OF shape, of "[1, 2, 3, 4]" "replicate 17 0xff"] by auto
  from t(1,2) t(3) [of 0 0 3] t(3) [of 1 0 0] t(3) [of 1 0 1] t(3) [of 1 1 0] show ?thesis
    by simp
qed

text \<open>Whatever was in the buffer it writes to, \<open>ane_untile\<close> gives the data back.\<close>

lemma untile_tiled:
  assumes "tile_shape N C H W P R" and "unat N * unat C * unat H * (2 * unat W) \<le> length data"
    and "unat N * unat C * unat P \<le> length tile"
    and "unat N * unat C * unat H * (2 * unat W) \<le> length out"
    and tiled: "ane_tile data tile N C H W P R = Some t"
  shows "length t = length tile" and "ane_untile out t N C H W P R =
      Some (take (unat N * unat C * unat H * (2 * unat W)) data @
            drop (unat N * unat C * unat H * (2 * unat W)) out)"
proof -
  note s = tile_shapeD [OF assms(1)]
  let ?n = "unat N * unat C * unat H * (2 * unat W)"
  have t: "length t = length tile"
    "k < length tile \<Longrightarrow> t ! k = (if k < unat N * unat C * unat P
       then cell data (unat H) (2 * unat W) (unat H) (2 * unat W) (unat (P div R)) (unat R) k
       else tile ! k)" for k
    using ane_tile_cells [OF assms(1-3)] tiled by auto
  show "length t = length tile" by (fact t(1))
  obtain d where d: "ane_untile out t N C H W P R = Some d" "length d = length out"
    "\<And>k. k < length out \<Longrightarrow> d ! k = (if k < ?n
       then cell t (unat H) (2 * unat W) (unat (P div R)) (unat R) (unat H) (2 * unat W) k
       else out ! k)"
    using ane_untile_cells [OF assms(1,4), of t] assms(3) t(1) by auto
  have R: "unat (P div R) * unat R = unat P" using s(3,4) by simp
  have "cell t (unat H) (2 * unat W) (unat (P div R)) (unat R) (unat H) (2 * unat W) k = data ! k"
    if k: "k < ?n" for k
  proof -
    define j where "j = k mod (2 * unat W)"
    define h where "h = k div (2 * unat W) mod unat H"
    define p where "p = k div (2 * unat W) div unat H"
    have k_eq: "k = (p * unat H + h) * (2 * unat W) + j" unfolding p_def h_def j_def by (simp only: div_mult_mod_eq)
    have row: "k div (2 * unat W) < unat N * unat C * unat H" using k by (simp add: less_mult_imp_div_less)
    then have H: "h < unat H" by (cases "unat H") (auto simp: h_def)
    have p: "p < unat N * unat C" unfolding p_def using row by (rule less_mult_imp_div_less)
    have j: "j < 2 * unat W" unfolding j_def using s(7) by (intro mod_less_divisor) simp
    have h: "h < unat (P div R)" and jR: "j < unat R" using H j s(8,9) by linarith+
    let ?i = "(p * unat (P div R) + h) * unat R + j"
    have "?i < unat N * unat C * unat (P div R) * unat R"
      using row_less [OF p h, of "unat R"] jR by linarith
    then have i: "?i < unat N * unat C * unat P" by (simp only: R mult.assoc)
    have "t ! ?i = data ! k"
      using t(2) [of ?i] i assms(3) H j by (simp add: cell_at [OF jR h] flip: k_eq)
    moreover have "cell t (unat H) (2 * unat W) (unat (P div R)) (unat R) (unat H) (2 * unat W) k = t ! ?i"
      unfolding k_eq cell_at [OF j H] using H j by simp
    ultimately show ?thesis by simp
  qed
  with d(2,3) have "d = take ?n data @ drop ?n out"
    using assms(2,4) by (intro nth_equalityI) (auto simp: nth_append min_def)
  with d(1) show "ane_untile out t N C H W P R = Some (take ?n data @ drop ?n out)" by simp
qed

text \<open>C13: \<open>ane_untile\<close> reverses \<open>ane_tile\<close>: whatever was in the buffer it writes to, it gives back the
  data, and nothing behind them is written.\<close>
theorem ane_untile_tile:
  assumes "tile_shape N C H W P R" and "unat N * unat C * unat H * (2 * unat W) \<le> length data"
    and "unat N * unat C * unat P \<le> length tile"
    and "unat N * unat C * unat H * (2 * unat W) \<le> length out"
  shows "\<exists>t. ane_tile data tile N C H W P R = Some t \<and>
    ane_untile out t N C H W P R =
      Some (take (unat N * unat C * unat H * (2 * unat W)) data @
            drop (unat N * unat C * unat H * (2 * unat W)) out)"
  using ane_tile_cells [OF assms(1-3)] untile_tiled(2) [OF assms(1-4)] by blast

theorem ane_untile_tile_witness:
  "\<exists>t. ane_tile [1, 2, 3, 4] (replicate 17 0xff) 1 2 1 1 8 4 = Some t \<and>
    ane_untile (replicate 5 9) t 1 2 1 1 8 4 = Some [1, 2, 3, 4, 9]"
  using ane_untile_tile [of 1 2 1 1 8 4 "[1, 2, 3, 4]" "replicate 17 0xff" "replicate 5 9"]
  by (simp add: tile_shape_def)

end
