(* ===== verification/Lib_Io.thy ===== *)
theory Lib_Io
  imports Lib_Safe Lib_Tile Drv_Submit
begin

text \<open>
  Using a network: \<open>ane_exec\<close>, the sizes of inputs and outputs, sending and reading them raw
  and tiled (\<open>src/src/libane/ane.c\<close>, wrapped inline by \<open>ane.h\<close>), and the functions of the
  Python binding, \<open>src/bindings/python/dylib/libane_python.c\<close>.

  A buffer of the caller is the list of its bytes. The contents of a mapped channel are those of
  \<open>l_mem\<close> at the channel's address.
\<close>

section \<open>Execution\<close>

text \<open>The arguments \<open>ane_exec\<close> collects; \<open>handles\<close> gets every channel.\<close>

definition exec_args :: "lib_nn \<Rightarrow> submit_args option" where
  "exec_args nn =
     (if ANE_MAX_TILE_COUNT \<le> length (nn_chans nn)
      then Some \<lparr>s_tsk_size = md_tsk_size (nn_model nn), s_td_count = md_td_count (nn_model nn),
        s_td_size = md_td_size (nn_model nn),
        s_handles = map (\<lambda>bdx. lb_handle (nn_chans nn ! bdx)) [0..<ANE_MAX_TILE_COUNT],
        s_btsp_handle = lb_handle (nn_btsp nn), s_pad = 0\<rparr>
      else None)"

text \<open>The ioctl itself is commented out.\<close>

definition ane_exec :: "lib_nn \<Rightarrow> int option" where
  "ane_exec nn = map_option (\<lambda>args. 0) (exec_args nn)"

section \<open>Inputs and outputs\<close>

definition dst_bdx :: "lib_nn \<Rightarrow> u32 \<Rightarrow> u32" where
  "dst_bdx nn idx = 4 + idx"

definition src_bdx :: "lib_nn \<Rightarrow> u32 \<Rightarrow> u32" where
  "src_bdx nn idx = 4 + md_dst_count (nn_model nn) + idx"

definition ane_src_size :: "lib_nn \<Rightarrow> u32 \<Rightarrow> u64 option" where
  "ane_src_size nn idx =
     (if md_src_count (nn_model nn) \<le> idx then Some 0 else tile_size nn (unat (src_bdx nn idx)))"

definition ane_dst_size :: "lib_nn \<Rightarrow> u32 \<Rightarrow> u64 option" where
  "ane_dst_size nn idx =
     (if md_dst_count (nn_model nn) \<le> idx then Some 0 else tile_size nn (unat (dst_bdx nn idx)))"

text \<open>\<open>nn->chans[bdx].map\<close>; undefined outside the array and for an unmapped channel.\<close>

definition chan_map :: "lib_nn \<Rightarrow> nat \<Rightarrow> nat option" where
  "chan_map nn bdx = (if bdx < length (nn_chans nn) then lb_map (nn_chans nn ! bdx) else None)"

definition ane_send :: "lib_nn \<Rightarrow> bytes \<Rightarrow> u32 \<Rightarrow> 'd lib \<Rightarrow> 'd lib option" where
  "ane_send nn from_buf idx s =
     (if md_src_count (nn_model nn) \<le> idx then Some s
      else do {
        a \<leftarrow> chan_map nn (unat (src_bdx nn idx));
        sz \<leftarrow> tile_size nn (unat (src_bdx nn idx));
        mem \<leftarrow> l_mem s a;
        bs \<leftarrow> mem_read from_buf 0 (unat sz);
        mem1 \<leftarrow> mem_write mem 0 bs;
        Some (put_mem a mem1 s) })"

definition ane_read :: "lib_nn \<Rightarrow> bytes \<Rightarrow> u32 \<Rightarrow> 'd lib \<Rightarrow> bytes option" where
  "ane_read nn to_buf idx s =
     (if md_dst_count (nn_model nn) \<le> idx then Some to_buf
      else do {
        a \<leftarrow> chan_map nn (unat (dst_bdx nn idx));
        sz \<leftarrow> tile_size nn (unat (dst_bdx nn idx));
        mem \<leftarrow> l_mem s a;
        bs \<leftarrow> mem_read mem 0 (unat sz);
        mem_write to_buf 0 bs })"

text \<open>\<open>const int bdx = src_bdx(nn, idx)\<close>: an index above \<open>2 ^ 31\<close> is negative.\<close>

definition int_index :: "u32 \<Rightarrow> nat option" where
  "int_index bdx = (if sint bdx < 0 then None else Some (nat (sint bdx)))"

text \<open>The six dimensions of a channel, \<open>model->nchw[bdx][0]\<close> to \<open>[5]\<close>.\<close>

definition nchw_at :: "lib_model \<Rightarrow> nat \<Rightarrow> u64 list option" where
  "nchw_at md bdx =
     (if bdx < length (md_nchw md) \<and> length (md_nchw md ! bdx) = 6 then Some (md_nchw md ! bdx) else None)"

definition tile_send :: "lib_nn \<Rightarrow> bytes \<Rightarrow> u32 \<Rightarrow> 'd lib \<Rightarrow> 'd lib option" where
  "tile_send nn from_buf idx s = do {
     bdx \<leftarrow> int_index (src_bdx nn idx);
     d \<leftarrow> nchw_at (nn_model nn) bdx;
     a \<leftarrow> chan_map nn bdx;
     mem \<leftarrow> l_mem s a;
     mem1 \<leftarrow> ane_tile from_buf mem (d ! 0) (d ! 1) (d ! 2) (d ! 3) (d ! 4) (d ! 5);
     Some (put_mem a mem1 s) }"

definition tile_read :: "lib_nn \<Rightarrow> bytes \<Rightarrow> u32 \<Rightarrow> 'd lib \<Rightarrow> bytes option" where
  "tile_read nn to_buf idx s = do {
     bdx \<leftarrow> int_index (dst_bdx nn idx);
     d \<leftarrow> nchw_at (nn_model nn) bdx;
     a \<leftarrow> chan_map nn bdx;
     mem \<leftarrow> l_mem s a;
     ane_untile to_buf mem (d ! 0) (d ! 1) (d ! 2) (d ! 3) (d ! 4) (d ! 5) }"

definition ane_tile_send :: "lib_nn \<Rightarrow> bytes \<Rightarrow> u32 \<Rightarrow> 'd lib \<Rightarrow> 'd lib option" where
  "ane_tile_send nn from_buf idx s =
     (if md_src_count (nn_model nn) \<le> idx then Some s else tile_send nn from_buf idx s)"

definition ane_tile_read :: "lib_nn \<Rightarrow> bytes \<Rightarrow> u32 \<Rightarrow> 'd lib \<Rightarrow> bytes option" where
  "ane_tile_read nn to_buf idx s =
     (if md_dst_count (nn_model nn) \<le> idx then Some to_buf else tile_read nn to_buf idx s)"

section \<open>The Python binding\<close>

text \<open>The 32 arguments are put in an array of \<open>TILE_COUNT\<close> pointers, the rest NULL. The loop
  stops at the count of the model; an index outside the array has no result, and neither has
  a NULL buffer that is used.\<close>

definition pyane_array :: "bytes list \<Rightarrow> bytes option list" where
  "pyane_array xs = map Some xs @ replicate (TILE_COUNT - length xs) None"

fun pyane_send_loop :: "lib_nn \<Rightarrow> bytes option list \<Rightarrow> nat \<Rightarrow> nat \<Rightarrow> 'd lib \<Rightarrow> 'd lib option" where
  "pyane_send_loop nn xs i 0 s = Some s"
| "pyane_send_loop nn xs i (Suc n) s =
     (if i < length xs
      then do { x \<leftarrow> xs ! i; s1 \<leftarrow> ane_tile_send nn x (of_nat i) s; pyane_send_loop nn xs (Suc i) n s1 }
      else None)"

fun pyane_read_loop :: "lib_nn \<Rightarrow> bytes option list \<Rightarrow> nat \<Rightarrow> nat \<Rightarrow> 'd lib \<Rightarrow> bytes option list option" where
  "pyane_read_loop nn xs i 0 s = Some xs"
| "pyane_read_loop nn xs i (Suc n) s =
     (if i < length xs
      then do { x \<leftarrow> xs ! i; y \<leftarrow> ane_tile_read nn x (of_nat i) s;
                pyane_read_loop nn (xs[i := Some y]) (Suc i) n s }
      else None)"

definition pyane_init :: "'d dapi \<Rightarrow> string option \<Rightarrow> int \<Rightarrow> 'd lib \<Rightarrow> (lib_nn option \<times> 'd lib) option" where
  "pyane_init D path dev_id s = ane_init D path dev_id s"

definition pyane_send :: "lib_nn \<Rightarrow> bytes list \<Rightarrow> 'd lib \<Rightarrow> (int \<times> 'd lib) option" where
  "pyane_send nn xs s = map_option (\<lambda>s1. (0, s1))
     (pyane_send_loop nn (pyane_array xs) 0 (unat (md_src_count (nn_model nn))) s)"

definition pyane_read :: "lib_nn \<Rightarrow> bytes list \<Rightarrow> 'd lib \<Rightarrow> (int \<times> bytes option list) option" where
  "pyane_read nn xs s = map_option (\<lambda>ys. (0, ys))
     (pyane_read_loop nn (pyane_array xs) 0 (unat (md_dst_count (nn_model nn))) s)"

definition pyane_free :: "'d dapi \<Rightarrow> lib_nn \<Rightarrow> 'd lib \<Rightarrow> (int \<times> 'd lib) option" where
  "pyane_free D nn s = map_option (\<lambda>s1. (0, s1)) (ane_free D nn s)"

definition pyane_exec :: "lib_nn \<Rightarrow> int option" where
  "pyane_exec nn = ane_exec nn"

section \<open>The channels of an open network\<close>

text \<open>The contents of a mapped channel.\<close>

definition chan_data :: "lib_nn \<Rightarrow> 'd lib \<Rightarrow> nat \<Rightarrow> bytes option" where
  "chan_data nn s bdx = Option.bind (chan_map nn bdx) (l_mem s)"

text \<open>Every channel that has tiles is mapped in their size, and no two share a mapping.\<close>

definition chans_open :: "lib_nn \<Rightarrow> 'd lib \<Rightarrow> bool" where
  "chans_open nn s \<longleftrightarrow> length (nn_chans nn) = TILE_COUNT \<and> length (md_tiles (nn_model nn)) = TILE_COUNT \<and>
     (\<forall>i j. chan_map nn i = chan_map nn j \<longrightarrow> chan_map nn i = None \<or> i = j) \<and>
     (\<forall>i < TILE_COUNT. md_tiles (nn_model nn) ! i \<noteq> 0 \<longrightarrow>
        (\<exists>mem. chan_data nn s i = Some mem \<and> length mem = unat (md_tiles (nn_model nn) ! i) * 0x4000))"

text \<open>The first four channels are those of the engine; the outputs and then the inputs follow.\<close>

definition io_channels :: "lib_model \<Rightarrow> bool" where
  "io_channels md \<longleftrightarrow> 4 + unat (md_dst_count md) + unat (md_src_count md) \<le> TILE_COUNT \<and>
     (\<forall>i < 4 + unat (md_dst_count md) + unat (md_src_count md). 4 \<le> i \<longrightarrow> md_tiles md ! i \<noteq> 0)"

lemma unat_tile_shift: "unat (tile_shift (ucast (t :: u32))) = unat t * 0x4000"
proof -
  have "unat (ucast t * 0x4000 :: u64) = unat t * 0x4000"
    using u32_less [of t] by (simp add: unat_mult_less)
  then show ?thesis by (simp add: tile_shift_def push_bit_eq_mult)
qed

text \<open>An input and an output have their own channels, inside the array.\<close>

lemma bdx_bounds:
  assumes "io_channels (nn_model nn)"
  shows "idx < md_src_count (nn_model nn) \<Longrightarrow>
      unat (src_bdx nn idx) = 4 + unat (md_dst_count (nn_model nn)) + unat idx \<and> unat (src_bdx nn idx) < TILE_COUNT"
    and "idx < md_dst_count (nn_model nn) \<Longrightarrow>
      unat (dst_bdx nn idx) = 4 + unat idx \<and> unat (dst_bdx nn idx) < TILE_COUNT"
proof -
  let ?d = "md_dst_count (nn_model nn)" and ?s = "md_src_count (nn_model nn)"
  have le: "4 + unat ?d + unat ?s \<le> TILE_COUNT" using assms by (simp add: io_channels_def)
  show "unat (src_bdx nn idx) = 4 + unat ?d + unat idx \<and> unat (src_bdx nn idx) < TILE_COUNT" if "idx < ?s"
  proof -
    have i: "unat idx < unat ?s" using that by (simp add: word_less_nat_alt)
    have "src_bdx nn idx = of_nat (4 + unat ?d + unat idx)" by (simp add: src_bdx_def)
    then have "unat (src_bdx nn idx) = 4 + unat ?d + unat idx"
      using le i by (simp add: unsigned_of_nat take_bit_nat_eq_self del: of_nat_add)
    with le i show ?thesis by linarith
  qed
  show "unat (dst_bdx nn idx) = 4 + unat idx \<and> unat (dst_bdx nn idx) < TILE_COUNT" if "idx < ?d"
  proof -
    have i: "unat idx < unat ?d" using that by (simp add: word_less_nat_alt)
    have "dst_bdx nn idx = of_nat (4 + unat idx)" by (simp add: dst_bdx_def)
    then have "unat (dst_bdx nn idx) = 4 + unat idx"
      using le i by (simp add: unsigned_of_nat take_bit_nat_eq_self del: of_nat_add)
    with le i show ?thesis by linarith
  qed
qed

lemma int_index_small:
  assumes "unat b < 2 ^ 31"
  shows "int_index b = Some (unat b)"
proof -
  have u: "uint b < 2 ^ 31" using assms by (simp only: of_nat_less_iff [where 'a = int, symmetric]) simp
  have "0 \<le> uint b" by simp
  then have "- 0x80000000 \<le> uint b" by linarith
  with u have "sint b = uint b"
    unfolding sint_uint by (intro signed_take_bit_int_eq_self) simp_all
  then show ?thesis by (simp add: int_index_def)
qed

text \<open>A mapped channel and its contents.\<close>

lemma chans_openD:
  assumes "chans_open nn s" and "i < TILE_COUNT" and "md_tiles (nn_model nn) ! i \<noteq> 0"
  obtains a mem where "chan_map nn i = Some a" "l_mem s a = Some mem" "chan_data nn s i = Some mem"
    "tile_size nn i = Some (tile_shift (ucast (md_tiles (nn_model nn) ! i)))"
    "length mem = unat (md_tiles (nn_model nn) ! i) * 0x4000"
proof -
  obtain mem where "chan_data nn s i = Some mem" "length mem = unat (md_tiles (nn_model nn) ! i) * 0x4000"
    using assms by (auto simp: chans_open_def)
  with assms that show thesis
    by (auto simp: chan_data_def bind_eq_Some_conv chans_open_def tile_size_def)
qed

text \<open>Replacing the contents of one channel.\<close>

lemma chan_write:
  assumes "chans_open nn s" and "chan_map nn i = Some a" and "chan_data nn s i = Some mem"
    and "length mem1 = length mem"
  shows "chans_open nn (put_mem a mem1 s)" "chan_data nn (put_mem a mem1 s) i = Some mem1"
    "j \<noteq> i \<Longrightarrow> chan_data nn (put_mem a mem1 s) j = chan_data nn s j"
proof -
  have other: "chan_data nn (put_mem a mem1 s) j = chan_data nn s j" if "j \<noteq> i" for j
  proof (cases "chan_map nn j")
    case None
    then show ?thesis by (simp add: chan_data_def)
  next
    case (Some b)
    with assms(1,2) that have "b \<noteq> a" unfolding chans_open_def by (metis option.distinct(1))
    with Some show ?thesis by (simp add: chan_data_def)
  qed
  then show "j \<noteq> i \<Longrightarrow> chan_data nn (put_mem a mem1 s) j = chan_data nn s j" .
  show same: "chan_data nn (put_mem a mem1 s) i = Some mem1" using assms(2) by (simp add: chan_data_def)
  have "\<exists>m. chan_data nn (put_mem a mem1 s) k = Some m \<and> length m = unat (md_tiles (nn_model nn) ! k) * 0x4000"
    if k: "k < TILE_COUNT" "md_tiles (nn_model nn) ! k \<noteq> 0" for k
  proof -
    obtain m where "chan_data nn s k = Some m" "length m = unat (md_tiles (nn_model nn) ! k) * 0x4000"
      using chans_openD [OF assms(1) k] by blast
    with same other [of k] assms(3,4) show ?thesis by (cases "k = i") auto
  qed
  with assms(1) show "chans_open nn (put_mem a mem1 s)" by (simp add: chans_open_def)
qed

lemma ane_send_ok:
  assumes open_nn: "chans_open nn s" and io: "io_channels (nn_model nn)" and idx: "idx < md_src_count (nn_model nn)"
  defines "bdx \<equiv> 4 + unat (md_dst_count (nn_model nn)) + unat idx"
  assumes buf: "unat (md_tiles (nn_model nn) ! bdx) * 0x4000 \<le> length buf"
  shows "\<exists>s1. ane_send nn buf idx s = Some s1 \<and> chans_open nn s1 \<and>
    chan_data nn s1 bdx = Some (take (unat (md_tiles (nn_model nn) ! bdx) * 0x4000) buf) \<and>
    (\<forall>j. j \<noteq> bdx \<longrightarrow> chan_data nn s1 j = chan_data nn s j) \<and> l_io s1 = l_io s \<and> l_dev s1 = l_dev s"
proof -
  have b: "unat (src_bdx nn idx) = bdx" "bdx < TILE_COUNT"
    using bdx_bounds(1) [OF io idx] by (simp_all add: bdx_def)
  have "unat idx < unat (md_src_count (nn_model nn))" using idx by (simp add: word_less_nat_alt)
  then have t: "md_tiles (nn_model nn) ! bdx \<noteq> 0" using io by (simp add: io_channels_def bdx_def)
  obtain a mem where c: "chan_map nn bdx = Some a" "l_mem s a = Some mem" "chan_data nn s bdx = Some mem"
    "tile_size nn bdx = Some (tile_shift (ucast (md_tiles (nn_model nn) ! bdx)))"
    "length mem = unat (md_tiles (nn_model nn) ! bdx) * 0x4000"
    by (rule chans_openD [OF open_nn b(2) t])
  let ?mem1 = "take (length mem) buf"
  have "ane_send nn buf idx s = Some (put_mem a ?mem1 s)"
    using idx b(1) c buf by (simp add: ane_send_def not_le [symmetric] unat_tile_shift mem_read_def mem_write_def)
  with chan_write [OF open_nn c(1,3), of ?mem1] buf c(5) show ?thesis by simp
qed

lemma ane_read_ok:
  assumes open_nn: "chans_open nn s" and io: "io_channels (nn_model nn)" and idx: "idx < md_dst_count (nn_model nn)"
  defines "bdx \<equiv> 4 + unat idx"
  assumes buf: "unat (md_tiles (nn_model nn) ! bdx) * 0x4000 \<le> length buf"
  obtains mem where "chan_data nn s bdx = Some mem" "ane_read nn buf idx s = Some (mem @ drop (length mem) buf)"
    "length mem = unat (md_tiles (nn_model nn) ! bdx) * 0x4000"
proof -
  have b: "unat (dst_bdx nn idx) = bdx" "bdx < TILE_COUNT"
    using bdx_bounds(2) [OF io idx] by (simp_all add: bdx_def)
  have "unat idx < unat (md_dst_count (nn_model nn))" using idx by (simp add: word_less_nat_alt)
  then have t: "md_tiles (nn_model nn) ! bdx \<noteq> 0" using io by (simp add: io_channels_def bdx_def)
  obtain a mem where c: "chan_map nn bdx = Some a" "l_mem s a = Some mem" "chan_data nn s bdx = Some mem"
    "tile_size nn bdx = Some (tile_shift (ucast (md_tiles (nn_model nn) ! bdx)))"
    "length mem = unat (md_tiles (nn_model nn) ! bdx) * 0x4000"
    by (rule chans_openD [OF open_nn b(2) t])
  show thesis
    by (rule that [OF c(3) _ c(5)])
      (use idx b(1) c buf in \<open>simp add: ane_read_def not_le [symmetric] unat_tile_shift mem_read_def mem_write_def\<close>)
qed

section \<open>Tiled inputs and outputs\<close>

text \<open>The dimensions of a channel agree with its tiles, and the buffer holds the dense data.\<close>

definition tile_fits :: "lib_model \<Rightarrow> nat \<Rightarrow> bytes \<Rightarrow> bool" where
  "tile_fits md bdx buf \<longleftrightarrow> (case nchw_at md bdx of
     Some [N, C, H, W, P, R] \<Rightarrow> tile_shape N C H W P R \<and>
       unat N * unat C * unat P \<le> unat (md_tiles md ! bdx) * 0x4000 \<and>
       unat N * unat C * unat H * (2 * unat W) \<le> length buf
   | _ \<Rightarrow> False)"

text \<open>The number of bytes of the dense data, and the data read back from a channel.\<close>

definition dense_bytes :: "lib_model \<Rightarrow> nat \<Rightarrow> nat" where
  "dense_bytes md bdx = (case nchw_at md bdx of
     Some [N, C, H, W, P, R] \<Rightarrow> unat N * unat C * unat H * (2 * unat W) | _ \<Rightarrow> 0)"

definition untiled :: "lib_model \<Rightarrow> nat \<Rightarrow> bytes \<Rightarrow> bytes \<Rightarrow> bytes option" where
  "untiled md bdx buf mem = (case nchw_at md bdx of
     Some [N, C, H, W, P, R] \<Rightarrow> ane_untile buf mem N C H W P R | _ \<Rightarrow> None)"

lemma tile_fitsD:
  assumes "tile_fits md bdx buf"
  obtains N C H W P R where "nchw_at md bdx = Some [N, C, H, W, P, R]" "tile_shape N C H W P R"
    "unat N * unat C * unat P \<le> unat (md_tiles md ! bdx) * 0x4000"
    "unat N * unat C * unat H * (2 * unat W) \<le> length buf"
    "dense_bytes md bdx = unat N * unat C * unat H * (2 * unat W)"
    "\<And>buf mem. untiled md bdx buf mem = ane_untile buf mem N C H W P R"
  using assms that
  by (simp add: tile_fits_def dense_bytes_def untiled_def split: option.splits list.splits)

text \<open>What is sent can be read back from the channel.\<close>

definition holds_input :: "lib_nn \<Rightarrow> 'd lib \<Rightarrow> nat \<Rightarrow> bytes \<Rightarrow> bool" where
  "holds_input nn s bdx buf \<longleftrightarrow> (\<exists>mem. chan_data nn s bdx = Some mem \<and>
     (\<forall>out. length out = dense_bytes (nn_model nn) bdx \<longrightarrow>
        untiled (nn_model nn) bdx out mem = Some (take (dense_bytes (nn_model nn) bdx) buf)))"

lemma ane_tile_send_ok:
  assumes open_nn: "chans_open nn s" and io: "io_channels (nn_model nn)" and idx: "idx < md_src_count (nn_model nn)"
  defines "bdx \<equiv> 4 + unat (md_dst_count (nn_model nn)) + unat idx"
  assumes buf: "tile_fits (nn_model nn) bdx buf"
  shows "\<exists>s1. ane_tile_send nn buf idx s = Some s1 \<and> chans_open nn s1 \<and> holds_input nn s1 bdx buf \<and>
    (\<forall>j. j \<noteq> bdx \<longrightarrow> chan_data nn s1 j = chan_data nn s j)"
proof -
  have b: "unat (src_bdx nn idx) = bdx" "bdx < TILE_COUNT"
    using bdx_bounds(1) [OF io idx] by (simp_all add: bdx_def)
  have "unat idx < unat (md_src_count (nn_model nn))" using idx by (simp add: word_less_nat_alt)
  then have t: "md_tiles (nn_model nn) ! bdx \<noteq> 0" using io by (simp add: io_channels_def bdx_def)
  obtain a mem where c: "chan_map nn bdx = Some a" "l_mem s a = Some mem" "chan_data nn s bdx = Some mem"
    "length mem = unat (md_tiles (nn_model nn) ! bdx) * 0x4000"
    by (rule chans_openD [OF open_nn b(2) t])
  obtain N C H W P R where d: "nchw_at (nn_model nn) bdx = Some [N, C, H, W, P, R]" "tile_shape N C H W P R"
    "unat N * unat C * unat P \<le> length mem" "unat N * unat C * unat H * (2 * unat W) \<le> length buf"
    "dense_bytes (nn_model nn) bdx = unat N * unat C * unat H * (2 * unat W)"
    "\<And>buf mem. untiled (nn_model nn) bdx buf mem = ane_untile buf mem N C H W P R"
    using tile_fitsD [OF buf] c(4) by metis
  obtain mem1 where m: "ane_tile buf mem N C H W P R = Some mem1"
    using ane_tile_cells [OF d(2,4,3)] by blast
  have "length mem1 = length mem"
    using untile_tiled(1) [OF d(2,4,3) _ m, of "replicate (dense_bytes (nn_model nn) bdx) 0"] d(5) by simp
  note w = chan_write [OF open_nn c(1,3) this]
  have "holds_input nn (put_mem a mem1 s) bdx buf"
    using w(2) d(5,6) untile_tiled(2) [OF d(2,4,3) _ m] by (simp add: holds_input_def)
  moreover have "int_index (src_bdx nn idx) = Some bdx" using b int_index_small [of "src_bdx nn idx"] by simp
  ultimately show ?thesis
    using idx c d(1) m w(1,3) by (simp add: ane_tile_send_def tile_send_def not_le [symmetric])
qed

text \<open>The loops over all inputs and all outputs.\<close>

lemma pyane_send_loop_ok:
  assumes "chans_open nn s" and "io_channels (nn_model nn)"
    and "i + n = unat (md_src_count (nn_model nn))" and "i + n \<le> length bufs"
    and "\<And>k. i \<le> k \<Longrightarrow> k < i + n \<Longrightarrow>
      tile_fits (nn_model nn) (4 + unat (md_dst_count (nn_model nn)) + k) (bufs ! k)"
  shows "\<exists>s1. pyane_send_loop nn (pyane_array bufs) i n s = Some s1 \<and> chans_open nn s1 \<and>
    (\<forall>k. i \<le> k \<and> k < i + n \<longrightarrow> holds_input nn s1 (4 + unat (md_dst_count (nn_model nn)) + k) (bufs ! k)) \<and>
    (\<forall>j. \<not> (4 + unat (md_dst_count (nn_model nn)) + i \<le> j \<and> j < 4 + unat (md_dst_count (nn_model nn)) + i + n) \<longrightarrow>
       chan_data nn s1 j = chan_data nn s j)"
  using assms
proof (induction n arbitrary: i s)
  case 0
  then show ?case by auto
next
  case (Suc n)
  let ?b = "4 + unat (md_dst_count (nn_model nn))"
  have small: "unat (of_nat i :: u32) = i"
    using Suc.prems(3) u32_less [of "md_src_count (nn_model nn)"] by (simp add: unsigned_of_nat take_bit_nat_eq_self)
  then have idx: "(of_nat i :: u32) < md_src_count (nn_model nn)"
    using Suc.prems(3) by (simp add: word_less_nat_alt)
  obtain s1 where 1: "ane_tile_send nn (bufs ! i) (of_nat i) s = Some s1" "chans_open nn s1"
    "holds_input nn s1 (?b + i) (bufs ! i)" "\<forall>j. j \<noteq> ?b + i \<longrightarrow> chan_data nn s1 j = chan_data nn s j"
    using ane_tile_send_ok [OF Suc.prems(1,2) idx, of "bufs ! i"] Suc.prems(5) [of i] small by auto
  obtain s2 where 2: "pyane_send_loop nn (pyane_array bufs) (Suc i) n s1 = Some s2" "chans_open nn s2"
    "\<forall>k. Suc i \<le> k \<and> k < Suc i + n \<longrightarrow> holds_input nn s2 (?b + k) (bufs ! k)"
    "\<forall>j. \<not> (?b + Suc i \<le> j \<and> j < ?b + Suc i + n) \<longrightarrow> chan_data nn s2 j = chan_data nn s1 j"
    using Suc.IH [OF 1(2) Suc.prems(2), of "Suc i"] Suc.prems(3-5) by fastforce
  have "chan_data nn s2 (?b + i) = chan_data nn s1 (?b + i)" using 2(4) by simp
  with 1(3) have "holds_input nn s2 (?b + i) (bufs ! i)" by (simp add: holds_input_def)
  moreover have "pyane_array bufs ! i = Some (bufs ! i)" "i < length (pyane_array bufs)"
    using Suc.prems(4) by (simp_all add: pyane_array_def nth_append)
  ultimately show ?case
    using 1(1,4) 2 by (auto simp: le_Suc_eq Suc_le_eq intro: exI [of _ s2] dest: le_neq_implies_less)
qed

lemma ane_tile_read_ok:
  assumes open_nn: "chans_open nn s" and io: "io_channels (nn_model nn)" and idx: "idx < md_dst_count (nn_model nn)"
    and buf: "tile_fits (nn_model nn) (4 + unat idx) buf"
  obtains mem ys where "chan_data nn s (4 + unat idx) = Some mem" "ane_tile_read nn buf idx s = Some ys"
    "untiled (nn_model nn) (4 + unat idx) buf mem = Some ys" "length ys = length buf"
proof -
  have b: "unat (dst_bdx nn idx) = 4 + unat idx" "4 + unat idx < TILE_COUNT"
    using bdx_bounds(2) [OF io idx] by simp_all
  have "unat idx < unat (md_dst_count (nn_model nn))" using idx by (simp add: word_less_nat_alt)
  then have t: "md_tiles (nn_model nn) ! (4 + unat idx) \<noteq> 0" using io by (simp add: io_channels_def)
  obtain a mem where c: "chan_map nn (4 + unat idx) = Some a" "l_mem s a = Some mem"
    "chan_data nn s (4 + unat idx) = Some mem" "length mem = unat (md_tiles (nn_model nn) ! (4 + unat idx)) * 0x4000"
    by (rule chans_openD [OF open_nn b(2) t])
  obtain N C H W P R where d: "nchw_at (nn_model nn) (4 + unat idx) = Some [N, C, H, W, P, R]"
    "tile_shape N C H W P R" "unat N * unat C * unat P \<le> length mem"
    "unat N * unat C * unat H * (2 * unat W) \<le> length buf"
    "\<And>buf mem. untiled (nn_model nn) (4 + unat idx) buf mem = ane_untile buf mem N C H W P R"
    using tile_fitsD [OF buf] c(4) by metis
  obtain ys where y: "ane_untile buf mem N C H W P R = Some ys" "length ys = length buf"
    using ane_untile_cells [OF d(2,4,3)] by blast
  have "int_index (dst_bdx nn idx) = Some (4 + unat idx)" using b int_index_small [of "dst_bdx nn idx"] by simp
  then show thesis
    by (intro that [OF c(3), of ys])
      (use idx c d y in \<open>simp_all add: ane_tile_read_def tile_read_def not_le [symmetric]\<close>)
qed

lemma pyane_read_loop_ok:
  assumes "chans_open nn s" and "io_channels (nn_model nn)"
    and "i + n = unat (md_dst_count (nn_model nn))" and "i + n \<le> length bufs"
    and "\<And>k. i \<le> k \<Longrightarrow> k < i + n \<Longrightarrow> \<exists>buf. bufs ! k = Some buf \<and> tile_fits (nn_model nn) (4 + k) buf"
  shows "\<exists>ys. pyane_read_loop nn bufs i n s = Some ys \<and> length ys = length bufs \<and>
    (\<forall>k. ys ! k = (if i \<le> k \<and> k < i + n
       then untiled (nn_model nn) (4 + k) (the (bufs ! k)) (the (chan_data nn s (4 + k))) else bufs ! k))"
  using assms
proof (induction n arbitrary: i bufs)
  case 0
  then show ?case by auto
next
  case (Suc n)
  have small: "unat (of_nat i :: u32) = i"
    using Suc.prems(3) u32_less [of "md_dst_count (nn_model nn)"] by (simp add: unsigned_of_nat take_bit_nat_eq_self)
  then have idx: "(of_nat i :: u32) < md_dst_count (nn_model nn)"
    using Suc.prems(3) by (simp add: word_less_nat_alt)
  obtain buf where buf: "bufs ! i = Some buf" "tile_fits (nn_model nn) (4 + i) buf"
    using Suc.prems(5) [of i] by auto
  obtain mem y where r: "chan_data nn s (4 + i) = Some mem" "ane_tile_read nn buf (of_nat i) s = Some y"
    "untiled (nn_model nn) (4 + i) buf mem = Some y" "length y = length buf"
    using ane_tile_read_ok [OF Suc.prems(1,2) idx, of buf] buf(2) small by metis
  let ?bufs = "bufs[i := Some y]"
  have ih: "\<exists>ys. pyane_read_loop nn ?bufs (Suc i) n s = Some ys \<and> length ys = length ?bufs \<and>
    (\<forall>k. ys ! k = (if Suc i \<le> k \<and> k < Suc i + n
       then untiled (nn_model nn) (4 + k) (the (?bufs ! k)) (the (chan_data nn s (4 + k))) else ?bufs ! k))"
    by (rule Suc.IH) (use Suc.prems in auto)
  then obtain ys where ys: "pyane_read_loop nn ?bufs (Suc i) n s = Some ys" "length ys = length bufs"
    "\<And>k. ys ! k = (if Suc i \<le> k \<and> k < Suc i + n
       then untiled (nn_model nn) (4 + k) (the (?bufs ! k)) (the (chan_data nn s (4 + k))) else ?bufs ! k)"
    by auto
  have len: "i < length bufs" using Suc.prems(4) by simp
  have "ys ! k = (if i \<le> k \<and> k < i + Suc n
      then untiled (nn_model nn) (4 + k) (the (bufs ! k)) (the (chan_data nn s (4 + k))) else bufs ! k)" for k
  proof (cases "k = i")
    case True
    with ys(3) [of k] len buf(1) r(1,3) show ?thesis by simp
  next
    case False
    then have "Suc i \<le> k \<and> k < Suc i + n \<longleftrightarrow> i \<le> k \<and> k < i + Suc n" by auto
    with ys(3) [of k] False show ?thesis by (simp only:) simp
  qed
  with ys(1,2) len buf(1) r(2) show ?case by simp
qed

section \<open>Where the channels come from\<close>

text \<open>An object \<open>ane_bo_init\<close> succeeds on is mapped in the size asked for.\<close>

lemma lib_ane_bo_init_mapped:
  assumes "lib_ane_bo_init D fd bo s = Some (e, bo1, s1)" and "\<not> e < 0"
  shows "lb_map bo1 \<noteq> None" "lb_size bo1 = lb_size bo"
  using assms
  by (auto simp: lib_ane_bo_init_def bo_init_def bo_mmap_def bind_eq_Some_conv split: prod.splits if_splits option.splits)

text \<open>Every channel with tiles is mapped in their size.\<close>

definition chan_sized :: "lib_nn \<Rightarrow> nat \<Rightarrow> bool" where
  "chan_sized nn i \<longleftrightarrow> md_tiles (nn_model nn) ! i \<noteq> 0 \<longrightarrow> lb_map (nn_chans nn ! i) \<noteq> None \<and>
     lb_size (nn_chans nn ! i) = tile_shift (ucast (md_tiles (nn_model nn) ! i))"

lemma init_chans_sized:
  assumes "init_chans D bdx n nn s = Some (e, nn1, s1)" and "\<not> e < 0"
  shows "nn_model nn1 = nn_model nn \<and> length (nn_chans nn1) = length (nn_chans nn) \<and>
    (\<forall>i. (i < bdx \<or> bdx + n \<le> i) \<longrightarrow> nn_chans nn1 ! i = nn_chans nn ! i) \<and>
    (\<forall>i. bdx \<le> i \<and> i < bdx + n \<longrightarrow> chan_sized nn1 i)"
  using assms
proof (induction n arbitrary: bdx nn s)
  case 0
  then show ?case by auto
next
  case (Suc n)
  have b: "bdx < length (nn_chans nn)" "bdx < length (md_tiles (nn_model nn))"
    using Suc.prems(1) by (simp_all split: if_splits)
  have step: ?case
    if "nn_model nn1 = nn_model nn \<and> length (nn_chans nn1) = length (nn_chans nn) \<and>
      (\<forall>i. (i < Suc bdx \<or> Suc bdx + n \<le> i) \<longrightarrow> nn_chans nn1 ! i = (nn_chans nn)[bdx := bo] ! i) \<and>
      (\<forall>i. Suc bdx \<le> i \<and> i < Suc bdx + n \<longrightarrow> chan_sized nn1 i)" and "chan_sized nn1 bdx" for bo
    using that by (auto simp: Suc_le_eq dest: le_neq_implies_less)
  show ?case
  proof (cases "md_tiles (nn_model nn) ! bdx = 0")
    case True
    with Suc.prems b have "init_chans D (Suc bdx) n nn s = Some (e, nn1, s1)" by simp
    from Suc.IH [OF this Suc.prems(2)] show ?thesis
      by (intro step [of "nn_chans nn ! bdx"]) (use True in \<open>simp_all add: chan_sized_def\<close>)
  next
    case False
    let ?sz = "tile_shift (ucast (md_tiles (nn_model nn) ! bdx))"
    obtain e2 bo s2 where 2: "lib_ane_bo_init D (nn_fd nn) ((nn_chans nn ! bdx)\<lparr>lb_size := ?sz\<rparr>) s = Some (e2, bo, s2)"
      using Suc.prems b False by (auto simp: tile_size_def bind_eq_Some_conv)
    let ?nn = "nn\<lparr>nn_chans := (nn_chans nn)[bdx := bo]\<rparr>"
    have e2: "\<not> e2 < 0" and rest: "init_chans D (Suc bdx) n ?nn s2 = Some (e, nn1, s1)"
      using Suc.prems b False 2 by (auto simp: tile_size_def Let_def split: if_splits)
    note ih = Suc.IH [OF rest Suc.prems(2)]
    then have "nn_chans nn1 ! bdx = bo" using b(1) by simp
    then have "chan_sized nn1 bdx"
      using lib_ane_bo_init_mapped [OF 2 e2] ih by (simp add: chan_sized_def)
    with ih show ?thesis by (intro step [of bo]) simp_all
  qed
qed

text \<open>Different objects have different mappings.\<close>

lemma holds_distinct_maps:
  assumes "holds base (bo_maps b + chans_maps bos) cur" and "i < length bos" "j < length bos"
    and "lb_map (bos ! i) = Some a" "lb_map (bos ! j) = Some a"
  shows "i = j"
proof (rule ccontr)
  assume ne: "i \<noteq> j"
  have "a \<in># others bo_maps bos i"
  proof -
    have "a \<in># bo_maps (bos ! j)" using assms(5) by (simp add: bo_maps_def)
    moreover have "bo_maps (bos ! j) \<subseteq># others bo_maps bos i"
    proof -
      have *: "bo_maps x \<subseteq># sum_list (map bo_maps xs)" if "x \<in> set xs" for x xs
        using that by (induction xs) (auto intro: subset_mset.add_increasing subset_mset.add_increasing2)
      consider "j < i" | "i < j" using ne by linarith
      then show ?thesis
      proof cases
        case 1
        then have "bos ! j \<in> set (take i bos)"
          using assms(2) by (auto simp: in_set_conv_nth intro!: exI [of _ j])
        from * [OF this] show ?thesis by (simp add: others_def subset_mset.add_increasing2)
      next
        case 2
        then have "bos ! j = drop (Suc i) bos ! (j - Suc i)" "j - Suc i < length (drop (Suc i) bos)"
          using assms(3) by simp_all
        then have "bos ! j \<in> set (drop (Suc i) bos)" by (metis nth_mem)
        from * [OF this] show ?thesis by (simp add: others_def subset_mset.add_increasing)
      qed
    qed
    ultimately show ?thesis by (rule mset_subset_eqD [rotated])
  qed
  then have "2 \<le> count (chans_maps bos) a"
    using chans_at(2) [OF assms(2)] assms(4) by (simp add: bo_maps_def Suc_le_eq)
  moreover have "count (bo_maps b + chans_maps bos) a = 1"
  proof -
    have "a \<in># chans_maps bos" using calculation by (metis count_eq_zero_iff not_numeral_le_zero)
    with assms(1) show ?thesis unfolding holds_def by simp
  qed
  ultimately show False by simp
qed

context accel_node
begin

text \<open>The channels \<open>ane_chan_init\<close> gives are those that sending and reading need.\<close>

lemma chans_open_init:
  assumes nn: "nn_res v m nn1 s1" and "\<And>i. i < TILE_COUNT \<Longrightarrow> chan_sized nn1 i"
  shows "chans_open nn1 s1"
proof -
  have r: "holds (dv_maps v) (bo_maps (nn_btsp nn1) + chans_maps (nn_chans nn1)) (dv_maps (dview (l_dev s1)))"
    and len: "length (nn_chans nn1) = TILE_COUNT" "length (md_tiles (nn_model nn1)) = TILE_COUNT"
    and ok: "\<And>i. i < TILE_COUNT \<Longrightarrow> lib_bo_ok (l_mem s1) (nn_chans nn1 ! i)"
    using nn by (auto simp: nn_res_def res_def list_all_iff)
  have "chan_map nn1 i = None \<or> i = j" if "chan_map nn1 i = chan_map nn1 j" for i j
    using holds_distinct_maps [OF r, of i j] that
    by (cases "chan_map nn1 i") (auto simp: chan_map_def split: if_splits)
  moreover have "\<exists>mem. chan_data nn1 s1 i = Some mem \<and> length mem = unat (md_tiles (nn_model nn1) ! i) * 0x4000"
    if "i < TILE_COUNT" "md_tiles (nn_model nn1) ! i \<noteq> 0" for i
    using assms(2) [OF that(1)] ok [OF that(1)] that len
    by (auto simp: chan_sized_def lib_bo_ok_def chan_data_def chan_map_def unat_tile_shift)
  ultimately show ?thesis using len by (simp add: chans_open_def)
qed

end

end
