(* ===== verification/Lib_Driver.thy ===== *)
theory Lib_Driver
  imports Lib_Safe Lib_Io Drv_Ref
begin

text \<open>
  The device node the library opens, provided by the model of the driver: the ioctls
  \<open>DRM_IOCTL_ANE_BO_INIT\<close> and \<open>DRM_IOCTL_ANE_BO_FREE\<close> are \<open>ane_bo_init\<close> and \<open>ane_bo_free\<close> of
  \<open>Drv_Gem\<close>, and the handles are those of the one open file of \<open>Drv_Kernel\<close>. What is around
  them belongs to the kernel's DRM core and not to the repository: the descriptor, the name
  of the driver and the mappings of the process, new shared memory being zero.

  With this the contract \<open>accel_node\<close> the library relies on is proved of the driver, for every
  kernel that meets \<open>drm_kernel\<close>, and for the reference kernel in particular.
\<close>

record 'k node =
  nd_drv :: "'k drv"
  nd_open :: bool
  nd_maps :: "nat list"
  nd_script :: "bool list"

abbreviation NODE_FD :: nat where "NODE_FD \<equiv> 3"

definition node_view :: "('k \<Rightarrow> kview) \<Rightarrow> 'k node \<Rightarrow> dview" where
  "node_view view d = \<lparr>dv_fds = (if nd_open d then {NODE_FD} else {}),
     dv_handles = {NODE_FD} \<times> dom (v_handles (view (d_kern (nd_drv d)))), dv_maps = set (nd_maps d)\<rparr>"

definition node_inv :: "('k \<Rightarrow> kview) \<Rightarrow> u64 \<Rightarrow> u64 \<Rightarrow> nat \<Rightarrow> 'k node \<Rightarrow> bool" where
  "node_inv view lo hi shift d \<longleftrightarrow> drv_inv view lo hi shift (nd_drv d) \<and>
     (\<not> nd_open d \<longrightarrow> v_handles (view (d_kern (nd_drv d))) = (\<lambda>_. None))"

text \<open>The size the driver computes does not wrap at \<open>2 ^ 32\<close>.\<close>

definition node_size_ok :: "'k kapi \<Rightarrow> u64 \<Rightarrow> bool" where
  "node_size_ok K sz \<longleftrightarrow> unat (round_up sz (page_size K)) < 2 ^ 32"

definition node_open :: "string \<Rightarrow> 'k node \<Rightarrow> nat option \<times> 'k node" where
  "node_open p d = (if p = ''/dev/accel/accel0'' \<and> \<not> nd_open d then (Some NODE_FD, d\<lparr>nd_open := True\<rparr>) else (None, d))"

definition node_close :: "nat \<Rightarrow> 'k node \<Rightarrow> 'k node" where
  "node_close fd d = (if fd = NODE_FD then d\<lparr>nd_open := False\<rparr> else d)"

definition node_bo_init :: "'k kapi \<Rightarrow> nat \<Rightarrow> nat \<Rightarrow> u64 \<Rightarrow> 'k node \<Rightarrow> ((int \<times> u32 \<times> u64) \<times> 'k node) option" where
  "node_bo_init K shift fd sz d =
     map_option (\<lambda>(e, args, s). ((e, i_handle args, i_offset args), d\<lparr>nd_drv := s\<rparr>))
       (ane_bo_init K shift \<lparr>i_handle = 0, i_pad = 0, i_size = sz, i_offset = 0\<rparr> (nd_drv d))"

definition node_bo_free :: "'k kapi \<Rightarrow> nat \<Rightarrow> nat \<Rightarrow> u32 \<Rightarrow> 'k node \<Rightarrow> 'k node option" where
  "node_bo_free K shift fd h d =
     map_option (\<lambda>(e, s). d\<lparr>nd_drv := s\<rparr>) (ane_bo_free K shift h 0 (nd_drv d))"

definition node_mmap :: "nat \<Rightarrow> u64 \<Rightarrow> u64 \<Rightarrow> 'k node \<Rightarrow> (nat \<times> bytes) option \<times> 'k node" where
  "node_mmap fd sz off d =
     (let a = fresh (nd_maps d); new = (Some (a, replicate (unat sz) 0), d\<lparr>nd_maps := a # nd_maps d\<rparr>)
      in case nd_script d of
           [] \<Rightarrow> new
         | fail # rest \<Rightarrow>
             if fail then (None, d\<lparr>nd_script := rest\<rparr>)
             else (fst new, d\<lparr>nd_maps := a # nd_maps d, nd_script := rest\<rparr>))"

definition node_munmap :: "nat \<Rightarrow> u64 \<Rightarrow> 'k node \<Rightarrow> 'k node" where
  "node_munmap a sz d = d\<lparr>nd_maps := filter (\<lambda>b. b \<noteq> a) (nd_maps d)\<rparr>"

definition node_api :: "'k kapi \<Rightarrow> nat \<Rightarrow> 'k node dapi" where
  "node_api K shift = \<lparr>d_open = node_open, d_close = node_close, d_version = (\<lambda>fd d. (Inr (cstr ''ane''), d)),
     d_bo_init = node_bo_init K shift, d_bo_free = node_bo_free K shift, d_mmap = node_mmap,
     d_munmap = node_munmap\<rparr>"

section \<open>The driver meets the contract\<close>

locale ane_node = drm_kernel +
  fixes shift :: nat
  assumes shift: "shift < 32" "k_page_shift K = shift"
begin

text \<open>A handle that is handed out is not zero.\<close>

lemma new_handle_nonzero:
  assumes "ane_bo_init K shift args s = Some (e, args1, s1)" and "\<not> e < 0"
  shows "i_handle args1 \<noteq> 0"
proof -
  have *: "i_handle args1 \<noteq> 0" if "bo_init_handle K shift b a s = Some (e, args1, s1)" for b a s
    using that assms(2) handle_create [of b "d_kern s"]
    by (auto simp: bo_init_handle_def fail_with_def Let_def split: prod.splits if_splits)
  have **: "i_handle args1 \<noteq> 0" if "bo_init_pages K shift b sz a s = Some (e, args1, s1)" for b sz a s
    using that assms(2) get_pages [of b "d_kern s"] *
    by (auto simp: bo_init_pages_def fail_with_def Let_def bind_eq_Some_conv
        split: prod.splits if_splits sum.splits)
  from assms ** show ?thesis
    by (auto simp: ane_bo_init_def fail_with_def Let_def split: prod.splits if_splits option.splits)
qed

lemma node_bo_init_law:
  assumes d: "node_inv view lo hi shift d" and fd: "fd \<in> dv_fds (node_view view d)" and sz: "node_size_ok K sz"
  shows "\<exists>e h off d1. node_bo_init K shift fd sz d = Some ((e, h, off), d1) \<and> node_inv view lo hi shift d1 \<and>
    (if e < 0 then node_view view d1 = node_view view d
     else h \<noteq> 0 \<and> (fd, h) \<notin> dv_handles (node_view view d) \<and>
       node_view view d1 = (node_view view d)\<lparr>dv_handles := insert (fd, h) (dv_handles (node_view view d))\<rparr>)"
proof -
  let ?args = "\<lparr>i_handle = 0, i_pad = 0, i_size = sz, i_offset = 0\<rparr>"
  have inv: "drv_inv view lo hi shift (nd_drv d)" and opn: "nd_open d" and "fd = NODE_FD"
    using d fd by (auto simp: node_inv_def node_view_def split: if_splits)
  have size: "unat (round_up (i_size ?args) (page_size K)) < 2 ^ 32" using sz by (simp add: node_size_ok_def)
  obtain e args1 s1 where r: "ane_bo_init K shift ?args (nd_drv d) = Some (e, args1, s1)"
    "drv_inv view lo hi shift s1"
    and res: "if e < 0 then d_bos s1 = d_bos (nd_drv d) \<and> same_resources (view (d_kern (nd_drv d))) (view (d_kern s1))
     else e = 0 \<and> i_pad ?args = 0 \<and> v_handles (view (d_kern (nd_drv d))) (i_handle args1) = None \<and>
       (\<exists>b bo. d_bos (nd_drv d) b = None \<and> d_bos s1 = (d_bos (nd_drv d))(b \<mapsto> bo) \<and>
         v_handles (view (d_kern s1)) = (v_handles (view (d_kern (nd_drv d))))(i_handle args1 \<mapsto> b) \<and>
         unat (bo_npages bo) = unat (round_up (i_size ?args) (page_size K)) div 2 ^ shift)"
    using ane_bo_init_ok [OF inv shift size] by blast
  show ?thesis
  proof (cases "e < 0")
    case True
    then have "same_resources (view (d_kern (nd_drv d))) (view (d_kern s1))" using res by simp
    with True r opn \<open>fd = NODE_FD\<close> show ?thesis
      by (simp add: node_bo_init_def node_inv_def node_view_def same_resources_fields)
  next
    case False
    then obtain b where "v_handles (view (d_kern (nd_drv d))) (i_handle args1) = None"
      "v_handles (view (d_kern s1)) = (v_handles (view (d_kern (nd_drv d))))(i_handle args1 \<mapsto> b)"
      using res by auto
    with False r opn \<open>fd = NODE_FD\<close> new_handle_nonzero [OF r(1) False] show ?thesis
      by (auto simp: node_bo_init_def node_inv_def node_view_def)
  qed
qed

lemma node_bo_free_law:
  assumes d: "node_inv view lo hi shift d" and fd: "fd \<in> dv_fds (node_view view d)"
    and h: "(fd, h) \<in> dv_handles (node_view view d)"
  shows "\<exists>d1. node_bo_free K shift fd h d = Some d1 \<and> node_inv view lo hi shift d1 \<and>
    node_view view d1 = (node_view view d)\<lparr>dv_handles := dv_handles (node_view view d) - {(fd, h)}\<rparr>"
proof -
  have inv: "drv_inv view lo hi shift (nd_drv d)" and opn: "nd_open d" and "fd = NODE_FD"
    and named: "v_handles (view (d_kern (nd_drv d))) h \<noteq> None"
    using d fd h by (auto simp: node_inv_def node_view_def split: if_splits)
  then obtain s1 where "ane_bo_free K shift h 0 (nd_drv d) = Some (0, s1)" "drv_inv view lo hi shift s1"
    "v_handles (view (d_kern s1)) = (v_handles (view (d_kern (nd_drv d))))(h := None)"
    using ane_bo_free_ok [OF inv shift(1), of h 0] by auto
  with opn \<open>fd = NODE_FD\<close> show ?thesis
    by (auto simp: node_bo_free_def node_inv_def node_view_def)
qed

end

sublocale ane_node \<subseteq> node: accel_node "node_api K shift" "node_view view" "node_inv view lo hi shift" "node_size_ok K"
proof (unfold_locales, unfold node_api_def dapi.simps)
  show "node_inv view lo hi shift d1 \<and> (case r of None \<Rightarrow> node_view view d1 = node_view view d
      | Some fd \<Rightarrow> fd \<notin> dv_fds (node_view view d) \<and> (\<forall>h. (fd, h) \<notin> dv_handles (node_view view d)) \<and>
          node_view view d1 = (node_view view d)\<lparr>dv_fds := insert fd (dv_fds (node_view view d))\<rparr>)"
    if "node_inv view lo hi shift d" "node_open p d = (r, d1)" for d p r d1
    using that by (auto simp: node_open_def node_inv_def node_view_def split: if_splits)
  show "node_inv view lo hi shift d1 \<and> (case m of None \<Rightarrow> node_view view d1 = node_view view d
      | Some (a, bs) \<Rightarrow> a \<notin> dv_maps (node_view view d) \<and> length bs = unat sz \<and>
          node_view view d1 = (node_view view d)\<lparr>dv_maps := insert a (dv_maps (node_view view d))\<rparr>)"
    if "node_inv view lo hi shift d" "node_mmap fd sz off d = (m, d1)" for d fd sz off m d1
    using that fresh_not_in [of "nd_maps d"]
    by (auto simp: node_mmap_def Let_def node_inv_def node_view_def split: list.splits if_splits)
  show "node_inv view lo hi shift (node_close fd d) \<and>
      node_view view (node_close fd d) = (node_view view d)\<lparr>dv_fds := dv_fds (node_view view d) - {fd}\<rparr>"
    if "node_inv view lo hi shift d" "fd \<in> dv_fds (node_view view d)"
      "\<And>h. (fd, h) \<notin> dv_handles (node_view view d)" for d fd
    using that by (auto simp: node_close_def node_inv_def node_view_def dom_def split: if_splits)
  show "node_inv view lo hi shift (node_munmap a sz d) \<and>
      node_view view (node_munmap a sz d) = (node_view view d)\<lparr>dv_maps := dv_maps (node_view view d) - {a}\<rparr>"
    if "node_inv view lo hi shift d" "a \<in> dv_maps (node_view view d)" for d a sz
    using that by (auto simp: node_munmap_def node_inv_def node_view_def)
qed (simp, simp, (erule node_bo_init_law node_bo_free_law, assumption+)+)

interpretation ref_node: ane_node "ref_kapi lo hi 14" ref_view lo hi 14 for lo hi
  by unfold_locales (simp_all add: ref_kapi_def)

end
