(* ===== verification/Lib_Sample.thy ===== *)
theory Lib_Sample
  imports Lib_Driver Hwx_Correct
begin

text \<open>
  A network the library opens on the driver with the reference kernel: an HWX file with one
  segment state, written by the encoder of \<open>Hwx_Encode\<close>. The properties of \<open>Lib_Correct\<close> are
  applied to it.
\<close>

section \<open>When opening succeeds\<close>

lemma init_chans_no_tiles:
  assumes "bdx + n \<le> length (nn_chans nn)" and "bdx + n \<le> length (md_tiles (nn_model nn))"
    and "\<forall>t \<in> set (md_tiles (nn_model nn)). t = 0"
  shows "init_chans D bdx n nn s = Some (0, nn, s)"
  using assms by (induction n arbitrary: bdx) auto

text \<open>The first node is tried first.\<close>

lemma node_name_0: "node_name 0 = ''/dev/accel/accel0''"
  by code_simp

lemma fault_free_malloc:
  assumes "fault_free w"
  shows "os_malloc w = (Some (io.fresh w), w\<lparr>alloc_fail := tl (alloc_fail w), live := insert (io.fresh w) (live w),
    fresh := Suc (io.fresh w)\<rparr>)"
  using assms by (auto simp: os_malloc_def fault_free_def split: list.splits bool.splits)

lemma node_device_open:
  assumes "fault_free (l_io s)" and "\<not> nd_open (l_dev s)"
  shows "\<exists>s1. device_open (node_api K shift) 0 s = Some (Inr NODE_FD, s1) \<and>
    l_dev s1 = (l_dev s)\<lparr>nd_open := True\<rparr> \<and> l_mem s1 = l_mem s"
proof -
  have "\<exists>s1. open_fd (node_api K shift) (node_name 0) s = Some (Inr NODE_FD, s1) \<and>
    l_dev s1 = (l_dev s)\<lparr>nd_open := True\<rparr> \<and> l_mem s1 = l_mem s"
    using assms(2)
    by (simp add: open_fd_def node_api_def node_open_def node_name_0 is_ane_device_def Let_def
        fault_free_malloc [OF assms(1)] os_free_def cstr_def)
  then show ?thesis
    by (auto simp: device_open_def numeral_eq_Suc)
qed

context accel_node
begin

lemma ane_init_succeeds:
  assumes s: "lib_ok s" "fault_free (l_io s)"
    and fits: "\<And>p ino. path = Some p \<Longrightarrow> paths (l_io s) p = Inr ino \<Longrightarrow>
      td_size_fits size_ok (contents ino) \<and> \<not> short_file (contents ino)"
    and w: "os_malloc (l_io s) = (Some self, w)" "hwx_open path w = Some (Some f, w1)" "model_of f = Some m"
    and d: "device_open D dev_id (put_io w1 (put_io w s)) = Some (Inr fd, s2)"
    and bo: "lib_ane_bo_init D fd (zero_bo\<lparr>lb_size := tile_align (ucast (md_td_size m))\<rparr>) s2 = Some (e, bo, s3)"
      "\<not> e < 0"
  shows "\<exists>nn s4. ane_init D path dev_id s = Some (Some nn, s4) \<and> nn_model nn = m"
proof -
  let ?nn = "(zero_nn self)\<lparr>nn_model := m, nn_fd := fd\<rparr>"
  have io: "io_ok w" using os_malloc_ok(1) [OF _ w(1)] s(1) by (simp add: lib_ok_def)
  have outcome: "init_outcome path dev_id s (ane_init D path dev_id s)"
    by (rule ane_init_ok [OF s(1)]) (use fits in blast)
  have same: "paths w = paths (l_io s)" using os_malloc_ok(3) [OF _ w(1)] s(1) by (simp add: lib_ok_def)
  have model: "ane_model_init path w = Some (0, m, w1)"
  proof (cases "ane_model_init path w")
    case None
    with ane_model_init_ok [OF io, of path] fits same show ?thesis by auto
  next
    case (Some x)
    with ane_model_init_ok [OF io, of path] w(2,3) show ?thesis by (cases x) (auto split: if_splits)
  qed
  note tiles = model_of_simps(2) [OF w(3)]
  have chans: "init_chans D 0 TILE_COUNT ?nn s2 = Some (0, ?nn, s2)"
    by (rule init_chans_no_tiles) (simp_all add: zero_nn_def tiles)
  let ?nn2 = "?nn\<lparr>nn_btsp := bo\<rparr>"
  have td: "md_td_size m \<noteq> 0" using model_of_simps(5) [OF w(3)] .
  have eq: "ane_init D path dev_id s = map_option (\<lambda>s4. (Some ?nn2, s4)) (set_btsp_and_command ?nn2 s3)"
    using w(1) model d chans bo td
    by (cases "set_btsp_and_command ?nn2 s3")
      (simp_all add: ane_init_def ane_init_body_def ane_device_open_def ane_chan_init_def zero_nn_def Let_def)
  have "ane_init D path dev_id s \<noteq> None"
    using outcome fits s(2) by (cases "ane_init D path dev_id s") (auto simp: init_outcome_def)
  with eq show ?thesis by auto
qed

end

section \<open>The file\<close>

text \<open>One descriptor of 157 words, \<open>0x274\<close> bytes, announced by the segment state.\<close>

definition net_state :: bytes where
  "net_state = replicate 2068 0 @ le32 157 @ replicate 8 0 @ le32 1 @ replicate 20 0"

definition net_thread :: hwx_thread_state where
  "net_thread = \<lparr>thr_flavor = HWX_ANE_SEG_STATE, thr_count = 526, thr_byte_size = 2104,
     thr_data = net_state, thr_data_ptr = None\<rparr>"

definition net_segment :: hwx_segment where
  "net_segment = sample_segment\<lparr>seg_fileoff := 2384,
     seg_sections := [sample_section ''__text'' 8 2384, sample_section ''__const'' 4 2392]\<rparr>"

definition net_header :: mach_header where
  "net_header = sample_header\<lparr>hd_sizeofcmds := 2352\<rparr>"

definition net_commands :: "command list" where
  "net_commands = [Seg net_segment, Thr [net_thread]]"

definition net_payload :: bytes where
  "net_payload = map of_nat [10..<22]"

definition net_file :: bytes where
  "net_file = put_file net_header net_commands net_payload"

lemma net_state_length: "length net_state = 2104"
  by (simp add: net_state_def)

lemma net_state_fields: "get_u32 net_state 2068 = Some 157" "get_u32 net_state 2080 = Some 1"
  by (simp_all add: net_state_def fields)

lemma net_lengths: "length (put_commands net_commands) = 2352" "length net_payload = 12"
  by (simp_all add: put_commands_def net_commands_def net_segment_def sample_segment_def put_segment_def
      put_section_def sample_section_def put_name_def cstr_def net_thread_def
      put_thread_state_def net_payload_def net_state_length Let_def)

lemma net_ok: "file_ok net_header net_commands net_payload"
proof -
  have len: "length (put_file net_header net_commands net_payload) = 2396"
    by (simp add: put_file_def net_lengths)
  have cmds: "list_all (command_ok 2396) net_commands"
    by (simp add: net_commands_def segment_ok_def net_segment_def sample_segment_def section_ok_def
        sample_section_def sample_names thread_ok_def net_thread_def put_thread_state_def net_state_length)
  have seg: "segments_of net_commands = [net_segment]"
    by (simp add: segments_of_def net_commands_def)
  have "find_section (Some (cstr ''__TEXT'')) (cstr ''__text'') [net_segment] \<noteq> None"
    "find_section (Some (cstr ''__TEXT'')) (cstr ''__const'') [net_segment] \<noteq> None"
    by (simp_all add: net_segment_def sample_segment_def sample_section_def cstr_def)
  with len cmds seg show ?thesis
    by (simp add: file_ok_def net_lengths) (simp add: net_header_def sample_header_def net_commands_def)
qed

definition net_inode :: inode where
  "net_inode = \<lparr>stat_error = None, is_regular = True, contents = net_file\<rparr>"

definition net_env :: io where
  "net_env = env_of net_file [] [Short 4, Failed EINTR]"

lemma net_env_ok: "io_ok net_env" "fault_free net_env" "paths net_env p = Inr net_inode"
  using net_ok
  by (simp_all add: net_env_def net_inode_def env_of_def io_ok_def fault_free_def only_intr_def net_file_def
      file_ok_def)

lemma net_spec: "spec_file net_file = Some (net_header, [net_segment], [net_thread])"
  using spec_put_file [OF net_ok] by (simp add: net_file_def segments_of_def threads_of_def net_commands_def)

lemma net_not_short: "\<not> short_file net_file"
  using no_short_file [OF net_ok] by (simp add: net_file_def)

text \<open>Its metadata.\<close>

lemma net_model:
  assumes "file_wf f" and "abs_file f = (net_header, [net_segment], [net_thread])"
  obtains m where "model_of f = Some m" "md_td_size m = 0x274" "md_td_count m = 1"
proof -
  from assms(2) obtain st where st: "hf_thread_states f = [st]" "strip_thread st = net_thread"
    by (auto simp: abs_file_def)
  then have f: "thr_flavor st = HWX_ANE_SEG_STATE" "thr_byte_size st = 2104" "thr_data st = net_state"
    by (cases st; simp add: strip_thread_def net_thread_def)+
  have "thr_data_ptr st \<noteq> None"
    using assms(1) st(1) f(3) net_state_length by (auto simp: file_wf_def thread_wf_def)
  with f have "seg_state_fits st" by (simp add: seg_state_fits_def)
  moreover obtain tsk krn where "found (hwx_get_tsk_section (Some f)) = Some tsk"
    "found (hwx_get_krn_section (Some f)) = Some krn" using assms(1) by (auto simp: file_wf_def)
  ultimately have "\<exists>m. model_of f = Some m \<and> md_td_size m = 0x274 \<and> md_td_count m = 1"
    using st(1) f net_state_fields by (simp add: model_of_def zero_model_def)
  with that show thesis by blast
qed

section \<open>The device\<close>

definition net_node :: "ref_kernel node" where
  "net_node = \<lparr>nd_drv = empty_drv, nd_open = False, nd_maps = [], nd_script = []\<rparr>"

definition net_lib :: "ref_kernel node lib" where
  "net_lib = \<lparr>l_io = net_env, l_dev = net_node, l_mem = (\<lambda>_. None)\<rparr>"

abbreviation net_api :: "ref_kernel node dapi" where
  "net_api \<equiv> node_api sample_api 14"

lemma one_page: "map_loop K shift iova pages i 1 k = map_loop K shift iova pages i (Suc 0) k"
  by simp

text \<open>The driver gives it a bootstrap channel of one page.\<close>

lemma net_bo: "\<exists>args d. ane_bo_init sample_api 14 \<lparr>i_handle = 0, i_pad = 0, i_size = 0x4000, i_offset = 0\<rparr> empty_drv =
    Some (0, args, d)"
  apply (simp add: ane_bo_init_def ref_kapi_def ref_kzalloc_def fails_def fresh_def ref_gem_init_def
      ref_mmap_offset_def empty_drv_def empty_kernel_def page_size_def round_up_def
      put_kern_def put_bo_def)
  apply (simp add: bo_init_pages_def ref_get_pages_def fails_def upt_conv_Cons Let_def put_bo_def
      put_kern_def new_bo_def)
  apply (simp add: ane_iommu_map_pages_def ref_kzalloc_def fails_def fresh_def lock_iommu_def
      put_bo_def put_kern_def Let_def)
  apply (simp add: map_node_def Let_def bo_bytes_def page_bytes_def ref_mm_insert_def fails_def place_def)
  apply (simp add: pages_of_def put_bo_def put_kern_def ref_iommu_map_def fails_def
      page_iova_def unlock_iommu_def)
  apply (simp add: bo_init_handle_def ref_handle_create_def fails_def fresh_def put_kern_def)
  done

lemma net_bo_init:
  assumes "l_dev s = net_node\<lparr>nd_open := True\<rparr>"
  shows "\<exists>bo s1. lib_ane_bo_init net_api NODE_FD (zero_bo\<lparr>lb_size := 0x4000\<rparr>) s = Some (0, bo, s1)"
proof -
  obtain args d where "ane_bo_init sample_api 14 \<lparr>i_handle = 0, i_pad = 0, i_size = 0x4000, i_offset = 0\<rparr> empty_drv =
    Some (0, args, d)" using net_bo by blast
  with assms show ?thesis
    by (simp add: lib_ane_bo_init_def bo_init_def bo_mmap_def node_api_def node_bo_init_def node_mmap_def
        net_node_def Let_def zero_bo_def)
qed

lemma net_td_fits: "td_size_fits (node_size_ok sample_api) net_file"
proof -
  have "node_size_ok sample_api (tile_align (ucast (0x274 :: u32)))"
    by (simp add: node_size_ok_def sample_page_size tile_align_def round_up_def)
  then show ?thesis
    by (auto simp: td_size_fits_def net_spec net_thread_def net_state_fields)
qed

lemma net_lib_ok: "ref_node.node.lib_ok 0x4000 0xe0000000 net_lib"
  using empty_drv_inv
  by (simp add: ref_node.node.lib_ok_def net_lib_def net_env_ok node_inv_def net_node_def)
    (simp add: empty_drv_def empty_kernel_def ref_view_def)

text \<open>Opening the file.\<close>

lemma net_file_opened_with:
  assumes "io_ok w" and "fault_free w" and "paths w = paths net_env"
  obtains f w1 m where "hwx_open (Some ''model.hwx'') w = Some (Some f, w1)" "file_wf f"
    "model_of f = Some m" "md_td_size m = 0x274" "md_td_count m = 1" "fault_free w1"
proof -
  obtain f w1 where f: "hwx_open (Some ''model.hwx'') w = Some (Some f, w1)"
    "abs_file f = (net_header, [net_segment], [net_thread])"
    using hwx_open_put_file [OF assms(1,2) net_ok, of "''model.hwx''"] assms(3) net_env_ok(3)
    by (auto simp: net_inode_def net_file_def segments_of_def threads_of_def net_commands_def)
  have wf: "file_wf f"
    using hwx_open_ok [OF assms(1), of "Some ''model.hwx''"] f(1) by (auto simp: open_result_def)
  obtain m where m: "model_of f = Some m" "md_td_size m = 0x274" "md_td_count m = 1"
    by (rule net_model [OF wf f(2)])
  show thesis by (rule that [OF f(1) wf m hwx_open_fault_free [OF assms(1) f(1) assms(2)]])
qed

lemma net_file_opened:
  obtains f w1 m where "hwx_open (Some ''model.hwx'') net_env = Some (Some f, w1)"
    "model_of f = Some m" "md_td_size m = 0x274"
  by (rule net_file_opened_with [OF net_env_ok(1,2) refl])

text \<open>Opening the network succeeds.\<close>

lemma net_init: "\<exists>nn s1. ane_init net_api (Some ''model.hwx'') 0 net_lib = Some (Some nn, s1) \<and>
    md_td_size (nn_model nn) = 0x274 \<and> md_td_count (nn_model nn) = 1"
proof -
  let ?p = "Some ''model.hwx''"
  obtain self w where w: "os_malloc net_env = (Some self, w)" "fault_free w" "paths w = paths net_env"
    using fault_free_malloc [OF net_env_ok(2)] os_malloc_env [of net_env] net_env_ok(2)
      os_malloc_ok(3) [OF net_env_ok(1)] by metis
  have io: "io_ok w" by (rule os_malloc_ok(1) [OF net_env_ok(1) w(1)])
  obtain f w1 m where f: "hwx_open ?p w = Some (Some f, w1)" and m: "model_of f = Some m"
    "md_td_size m = 0x274" "md_td_count m = 1" and free1: "fault_free w1"
    by (rule net_file_opened_with [OF io w(2,3)])
  let ?s = "put_io w1 (put_io w net_lib)"
  obtain s2 where s2: "device_open net_api 0 ?s = Some (Inr NODE_FD, s2)" "l_dev s2 = net_node\<lparr>nd_open := True\<rparr>"
    using node_device_open [of ?s] free1 by (auto simp: net_lib_def net_node_def)
  have "tile_align (ucast (md_td_size m)) = 0x4000" by (simp add: m(2) tile_align_def)
  then obtain bo s3 where bo: "lib_ane_bo_init net_api NODE_FD (zero_bo\<lparr>lb_size := tile_align (ucast (md_td_size m))\<rparr>) s2 =
    Some (0, bo, s3)" using net_bo_init [OF s2(2)] by auto
  have "\<exists>nn s4. ane_init net_api ?p 0 net_lib = Some (Some nn, s4) \<and> nn_model nn = m"
    by (rule ref_node.node.ane_init_succeeds [OF net_lib_ok _ _ _ f m(1) s2(1) bo])
      (use net_env_ok net_td_fits net_not_short w(1) in \<open>auto simp: net_lib_def net_inode_def\<close>)
  with m show ?thesis by auto
qed

section \<open>A network with an input and an output\<close>

text \<open>One tile each; two halfwords in a row of 64 bytes. The output is channel 4, the input 5.\<close>

definition io_bo :: "nat \<Rightarrow> lib_bo" where
  "io_bo a = \<lparr>lb_map = Some a, lb_size = 0x4000, lb_handle = of_nat a, lb_offset = 0\<rparr>"

definition io_model :: lib_model where
  "io_model = zero_model\<lparr>md_src_count := 1, md_dst_count := 1,
     md_tiles := replicate 4 0 @ [1, 1] @ replicate 91 0,
     md_nchw := replicate 97 [1, 1, 1, 2, 64, 64]\<rparr>"

definition io_nn :: lib_nn where
  "io_nn = (zero_nn 0)\<lparr>nn_model := io_model,
     nn_chans := replicate 4 zero_bo @ [io_bo 1, io_bo 2] @ replicate 91 zero_bo\<rparr>"

definition io_lib :: "ref_kernel node lib" where
  "io_lib = net_lib\<lparr>l_mem := [1 \<mapsto> replicate 0x4000 7, 2 \<mapsto> replicate 0x4000 9]\<rparr>"

lemma io_nn_simps [simp]: "nn_model io_nn = io_model" "md_src_count io_model = 1" "md_dst_count io_model = 1"
  "length (md_tiles io_model) = 97"
  by (simp_all add: io_nn_def io_model_def)

lemma io_tile: "i < 97 \<Longrightarrow> md_tiles io_model ! i = (if i = 4 \<or> i = 5 then 1 else 0)"
  by (simp add: io_model_def nth_append nth_Cons' del: replicate.simps)

lemma io_map: "chan_map io_nn i = (if i = 4 then Some 1 else if i = 5 then Some 2 else None)"
  by (simp add: chan_map_def io_nn_def nth_append nth_Cons' io_bo_def zero_bo_def del: replicate.simps)

lemma io_data: "chan_data io_nn io_lib i =
    (if i = 4 then Some (replicate 0x4000 7) else if i = 5 then Some (replicate 0x4000 9) else None)"
  by (simp add: chan_data_def io_map io_lib_def)

lemma io_chans_open: "chans_open io_nn io_lib"
proof -
  have "length (nn_chans io_nn) = TILE_COUNT" by (simp add: io_nn_def)
  then show ?thesis by (auto simp: chans_open_def io_map io_data io_tile)
qed

lemma io_channels_io: "io_channels io_model"
  by (auto simp: io_channels_def io_tile)

lemma io_dims: "bdx < 97 \<Longrightarrow> nchw_at io_model bdx = Some [1, 1, 1, 2, 64, 64]"
  by (simp add: nchw_at_def io_model_def)

lemma io_tile_fits: "bdx = 4 \<or> bdx = 5 \<Longrightarrow> 4 \<le> length buf \<Longrightarrow> tile_fits io_model bdx buf"
  by (auto simp: tile_fits_def io_dims tile_shape_def io_tile)

lemma io_dense: "bdx = 4 \<or> bdx = 5 \<Longrightarrow> dense_bytes io_model bdx = 4"
  by (auto simp: dense_bytes_def io_dims)

end
