(* ===== verification/Lib_Correct.thy ===== *)
theory Lib_Correct
  imports Lib_Sample
begin

text \<open>
  The properties of the library: what \<open>__ane_init\<close> and \<open>__ane_free\<close> do with the resources of the
  process, the loader's metadata and the bootstrap channel, and what can be done with a
  network. They are stated for the library on the driver, under any kernel that meets the
  contract \<open>drm_kernel\<close>, and applied to the network of \<open>Lib_Sample\<close>.
\<close>

section \<open>States\<close>

text \<open>A process that may call the library.\<close>

definition client_ok :: "('k \<Rightarrow> kview) \<Rightarrow> u64 \<Rightarrow> u64 \<Rightarrow> nat \<Rightarrow> 'k node lib \<Rightarrow> bool" where
  "client_ok view lo hi shift s \<longleftrightarrow> io_ok (l_io s) \<and> node_inv view lo hi shift (l_dev s) \<and>
     dom (l_mem s) \<subseteq> set (nd_maps (l_dev s))"

text \<open>The files of the process can be loaded: a descriptor size the driver does not wrap.\<close>

definition loadable :: "'k kapi \<Rightarrow> string option \<Rightarrow> 'd lib \<Rightarrow> bool" where
  "loadable K path s \<longleftrightarrow> (\<forall>p ino. path = Some p \<longrightarrow> paths (l_io s) p = Inr ino \<longrightarrow>
     td_size_fits (node_size_ok K) (contents ino))"

text \<open>Blocks, descriptors, handles, mappings and memory are as before.\<close>

definition as_before :: "('k \<Rightarrow> kview) \<Rightarrow> 'k node lib \<Rightarrow> 'k node lib \<Rightarrow> bool" where
  "as_before view s s1 \<longleftrightarrow> node_view view (l_dev s1) = node_view view (l_dev s) \<and> l_mem s1 = l_mem s \<and>
     live (l_io s1) = live (l_io s) \<and> fds (l_io s1) = fds (l_io s)"

text \<open>What an open network holds on top: its block and those of its file, one file descriptor,
  the device, and one handle with its mapping, the bootstrap channel.\<close>

definition network_open :: "('k \<Rightarrow> kview) \<Rightarrow> string option \<Rightarrow> 'k node lib \<Rightarrow> lib_nn \<Rightarrow> 'k node lib \<Rightarrow> bool" where
  "network_open view path s nn s1 \<longleftrightarrow> (\<exists>p ino f. path = Some p \<and> paths (l_io s) p = Inr ino \<and>
     model_of f = Some (nn_model nn) \<and>
     heap_ok (live (l_io s)) (add_mset (nn_self nn) (mset (blocks (file_blocks f)))) (l_io s1) \<and>
     fds (l_io s) (hf_fd f) = None \<and> fds (l_io s1) = (fds (l_io s))(hf_fd f \<mapsto> ino) \<and>
     (let v = node_view view (l_dev s); v1 = node_view view (l_dev s1); h = lb_handle (nn_btsp nn)
      in nn_fd nn \<notin> dv_fds v \<and> dv_fds v1 = insert (nn_fd nn) (dv_fds v) \<and>
         h \<noteq> 0 \<and> (nn_fd nn, h) \<notin> dv_handles v \<and> dv_handles v1 = insert (nn_fd nn, h) (dv_handles v) \<and>
         (\<exists>a mem. lb_map (nn_btsp nn) = Some a \<and> a \<notin> dv_maps v \<and> dv_maps v1 = insert a (dv_maps v) \<and>
            l_mem s1 = (l_mem s)(a \<mapsto> mem) \<and> length mem = unat (lb_size (nn_btsp nn)))) \<and>
     nn_chans nn = replicate TILE_COUNT zero_bo)"

context ane_node
begin

lemma client_ok_iff: "client_ok view lo hi shift s = node.lib_ok s"
  by (simp add: client_ok_def node.lib_ok_def node_view_def)

lemma init_outcome_client:
  assumes "client_ok view lo hi shift s" and "loadable K path s"
  shows "node.init_outcome path dev_id s (ane_init (node_api K shift) path dev_id s)"
  by (rule node.ane_init_ok) (use assms in \<open>simp_all add: client_ok_iff loadable_def\<close>)

lemma restored_client:
  "node.restored s s1 \<Longrightarrow> node_inv view lo hi shift (l_dev s1) \<and> as_before view s s1"
  by (simp add: node.restored_def as_before_def)

lemma opened_network:
  assumes s: "client_ok view lo hi shift s" and o: "node.opened path s nn s1"
  shows "network_open view path s nn s1"
proof -
  let ?v = "node_view view (l_dev s)" and ?v1 = "node_view view (l_dev s1)"
  obtain p ino f where f: "path = Some p" "paths (l_io s) p = Inr ino" "model_of f = Some (nn_model nn)"
    "heap_ok (live (l_io s)) (add_mset (nn_self nn) (mset (blocks (file_blocks f)))) (l_io s1)"
    "fds (l_io s) (hf_fd f) = None" "fds (l_io s1) = (fds (l_io s))(hf_fd f \<mapsto> ino)"
    "nn_fd nn \<notin> dv_fds ?v" "node.nn_res (node.with_fd (nn_fd nn) ?v) (l_mem s) nn s1"
    "nn_chans nn = replicate TILE_COUNT zero_bo" "node.chans_ready ino f (fault_free (l_io s)) nn s1"
    using o by (auto simp: node.opened_def)
  have unused: "chans_handles (nn_fd nn) (nn_chans nn) = {#}" "chans_maps (nn_chans nn) = {#}"
    using chans_unused [of "nn_chans nn"] f(9) by (simp_all add: list_all_iff)
  obtain a mem where a: "lb_map (nn_btsp nn) = Some a" "l_mem s1 a = Some mem"
    "length mem = unat (lb_size (nn_btsp nn))"
    using f(10) by (auto simp: node.chans_ready_def btsp_filled_def)
  have h: "lb_handle (nn_btsp nn) \<noteq> 0" using f(8) a(1) by (simp add: node.nn_res_def lib_bo_ok_def)
  have r: "node.res (node.with_fd (nn_fd nn) ?v) (l_mem s) (nn_fd nn) {#(nn_fd nn, lb_handle (nn_btsp nn))#} {#a#} s1"
    using f(8) unused h a(1) by (simp add: node.nn_res_def bo_handles_def bo_maps_def)
  then have "l_mem s1 = (l_mem s)(a \<mapsto> mem)" using a(2) by (auto simp: node.res_def)
  with f h a r show ?thesis
    by (auto simp: network_open_def node.res_def node.with_fd_def holds_def Let_def intro!: exI [of _ f])
qed

lemma init_all_or_nothing:
  assumes "client_ok view lo hi shift s" and "loadable K path s"
  shows "case ane_init (node_api K shift) path dev_id s of
      None \<Rightarrow> \<not> fault_free (l_io s) \<and> init_loses_name (node_api K shift) path dev_id s \<or>
        (\<exists>p ino. path = Some p \<and> paths (l_io s) p = Inr ino \<and> short_file (contents ino))
    | Some (None, s1) \<Rightarrow> node_inv view lo hi shift (l_dev s1) \<and> as_before view s s1
    | Some (Some nn, s1) \<Rightarrow> node_inv view lo hi shift (l_dev s1) \<and> network_open view path s nn s1"
proof -
  have opened: "node_inv view lo hi shift (l_dev s1) \<and> network_open view path s nn s1"
    if "node.opened path s nn s1" for nn s1
    using opened_network [OF assms(1) that] that by (auto simp: node.opened_def node.nn_res_def node.res_def)
  show ?thesis
    using init_outcome_client [OF assms, of dev_id] restored_client opened
    by (auto simp: node.init_outcome_def split: option.splits)
qed

lemma init_opened:
  assumes "client_ok view lo hi shift s" and "loadable K path s"
    and "ane_init (node_api K shift) path dev_id s = Some (Some nn, s1)"
  shows "node.opened path s nn s1"
  using init_outcome_client [OF assms(1,2), of dev_id] assms(3) by (simp add: node.init_outcome_def)

lemma free_restores:
  assumes "client_ok view lo hi shift s" and "loadable K path s"
    and "ane_init (node_api K shift) path dev_id s = Some (Some nn, s1)"
  shows "\<exists>s2. ane_free (node_api K shift) nn s1 = Some s2 \<and> node_inv view lo hi shift (l_dev s2) \<and>
    as_before view s s2"
  using node.ane_free_ok [OF init_opened [OF assms]] restored_client by blast

text \<open>The first descriptor of the file, with the network id in its first word.\<close>

lemma init_bootstrap:
  assumes "client_ok view lo hi shift s" and "loadable K path s"
    and "ane_init (node_api K shift) path dev_id s = Some (Some nn, s1)"
  shows "\<exists>p ino f tx a mem w text. path = Some p \<and> paths (l_io s) p = Inr ino \<and>
    model_of f = Some (nn_model nn) \<and> found (hwx_get_tsk_section (Some f)) = Some tx \<and>
    lb_map (nn_btsp nn) = Some a \<and> l_mem s1 a = Some mem \<and>
    (let td = unat (md_td_size (nn_model nn)); size = (td + 0x3fff) div 0x4000 * 0x4000;
         descriptor = window_bytes ino (unat (sec_offset tx)) (min td (unat (sec_size tx)));
         image = text @ replicate (size - length text) 0
     in text \<in> {[], descriptor} \<and> (fault_free (l_io s) \<longrightarrow> text = descriptor) \<and>
        length text \<le> size \<and> get_u32 image 0 = Some w \<and>
        mem = le32 ((w AND 0xf00ffff) OR 0x400000) @ drop 4 image)"
proof -
  obtain p ino f where f: "path = Some p" "paths (l_io s) p = Inr ino" "model_of f = Some (nn_model nn)"
    "node.chans_ready ino f (fault_free (l_io s)) nn s1"
    using init_opened [OF assms(1-3)] by (auto simp: node.opened_def)
  let ?td = "unat (md_td_size (nn_model nn))"
  let ?size = "(?td + 0x3fff) div 0x4000 * 0x4000"
  obtain a tx mem bs where b: "lb_map (nn_btsp nn) = Some a" "l_mem s1 a = Some mem"
    "found (hwx_get_tsk_section (Some f)) = Some tx" "length bs \<le> ?size"
    "set_nid (bs @ replicate (?size - length bs) 0) 0x40 = Some mem"
    "bs \<in> {[], window_bytes ino (unat (sec_offset tx)) (min ?td (unat (sec_size tx)))}"
    "fault_free (l_io s) \<longrightarrow> bs = window_bytes ino (unat (sec_offset tx)) (min ?td (unat (sec_size tx)))"
    using f(4) unfolding node.chans_ready_def btsp_filled_def by (metis unat_tile_align)
  have "md_td_size (nn_model nn) \<noteq> 0"
    using model_of_simps(5) [OF f(3)] .
  from tile_align_bounds(2) [OF this] have "4 \<le> ?size" by (simp add: unat_tile_align)
  then have "4 \<le> length (bs @ replicate (?size - length bs) 0)" using b(4) by simp
  then obtain w where "get_u32 (bs @ replicate (?size - length bs) 0) 0 = Some w"
    "set_nid (bs @ replicate (?size - length bs) 0) 0x40 =
      Some (le32 ((w AND 0xf00ffff) OR push_bit 16 (0x40 AND 0xff)) @ drop 4 (bs @ replicate (?size - length bs) 0))"
    by (rule set_nid_ok [of _ "0x40"])
  moreover have "push_bit 16 (0x40 AND 0xff) = (0x400000 :: u32)" by simp
  ultimately have "get_u32 (bs @ replicate (?size - length bs) 0) 0 = Some w"
    "mem = le32 ((w AND 0xf00ffff) OR 0x400000) @ drop 4 (bs @ replicate (?size - length bs) 0)"
    using b(5) by simp_all
  with f(1-3) b(1-4,6,7) show ?thesis
    unfolding Let_def
    by (intro exI [of _ p] exI [of _ ino] exI [of _ f] exI [of _ tx] exI [of _ a] exI [of _ mem] exI [of _ w]
        exI [of _ bs]) simp
qed

text \<open>No input or output, and a submission the driver would refuse.\<close>

lemma init_no_io:
  assumes "client_ok view lo hi shift s" and "loadable K path s"
    and "ane_init (node_api K shift) path dev_id s = Some (Some nn, s1)"
  shows "ane_exec nn = Some 0 \<and> (\<exists>args. exec_args nn = Some args \<and> submit_refused args) \<and>
    (\<forall>idx buf (t :: 'a node lib). ane_src_size nn idx = Some 0 \<and> ane_dst_size nn idx = Some 0 \<and>
       ane_send nn buf idx t = Some t \<and> ane_read nn buf idx t = Some buf \<and>
       ane_tile_send nn buf idx t = Some t \<and> ane_tile_read nn buf idx t = Some buf) \<and>
    pyane_exec nn = Some 0 \<and>
    (\<forall>bufs (t :: 'a node lib). pyane_send nn bufs t = Some (0, t) \<and>
       pyane_read nn bufs t = Some (0, pyane_array bufs))"
proof -
  obtain f where f: "model_of f = Some (nn_model nn)" "nn_chans nn = replicate TILE_COUNT zero_bo"
    using init_opened [OF assms] by (auto simp: node.opened_def)
  note m = model_of_simps(3,4) [OF f(1)]
  have "submit_refused \<lparr>s_tsk_size = a, s_td_count = b, s_td_size = c,
      s_handles = map (\<lambda>bdx. lb_handle (nn_chans nn ! bdx)) [0..<ANE_MAX_TILE_COUNT], s_btsp_handle = h, s_pad = 0\<rparr>"
    for a b c h
    by (simp add: submit_refused_def f(2) zero_bo_def del: replicate.simps upt.simps)
  then show ?thesis
    by (simp add: ane_exec_def exec_args_def f(2) m ane_src_size_def ane_dst_size_def ane_send_def
        ane_read_def ane_tile_send_def ane_tile_read_def pyane_exec_def pyane_send_def pyane_read_def)
qed

text \<open>A session of the Python binding: whatever buffers are passed, nothing is sent or read, and
  freeing the network gives back what opening it took.\<close>

lemma pyane_session:
  assumes "client_ok view lo hi shift s" and "loadable K path s"
    and "pyane_init (node_api K shift) path dev_id s = Some (Some nn, s1)"
  shows "\<exists>s2. pyane_send nn ins s1 = Some (0, s1) \<and> pyane_exec nn = Some 0 \<and>
    pyane_read nn outs s1 = Some (0, pyane_array outs) \<and>
    pyane_free (node_api K shift) nn s1 = Some (0, s2) \<and> as_before view s s2"
  using init_no_io [OF assms(1,2)] free_restores [OF assms(1,2)] assms(3)
  by (fastforce simp: pyane_init_def pyane_free_def)

end

section \<open>Opening and closing a network\<close>


lemma net_client: "client_ok ref_view 0x4000 0xe0000000 14 net_lib"
  using net_lib_ok by (simp add: ref_node.client_ok_iff)

lemma net_loadable: "loadable sample_api (Some ''model.hwx'') net_lib"
  using net_td_fits by (simp add: loadable_def net_lib_def net_env_ok net_inode_def)


text \<open>C15: \<open>__ane_free\<close> undoes \<open>__ane_init\<close>: after it, every block, descriptor, handle, mapping and
  byte of memory is as before the network was opened, and nothing is freed twice.\<close>
theorem ane_free_undoes_init:
  assumes "ane_node K view lo hi shift" and "client_ok view lo hi shift s" and "loadable K path s"
    and "ane_init (node_api K shift) path dev_id s = Some (Some nn, s1)"
  shows "\<exists>s2. ane_free (node_api K shift) nn s1 = Some s2 \<and> node_inv view lo hi shift (l_dev s2) \<and>
    as_before view s s2"
  by (rule ane_node.free_restores [OF assms])

theorem ane_free_undoes_init_witness:
  "\<exists>nn s1 s2. ane_init net_api (Some ''model.hwx'') 0 net_lib = Some (Some nn, s1) \<and>
    ane_free net_api nn s1 = Some s2 \<and> as_before ref_view net_lib s2"
  using ane_free_undoes_init [OF ref_node.ane_node_axioms net_client net_loadable] net_init by blast

text \<open>C22: the bootstrap channel of an opened network is the descriptor size rounded up to whole
  tiles. Without faults it holds the first descriptor of the code section followed by zeros; when
  reading the section fails, which \<open>__ane_init\<close> does not report, it holds zeros. Either way the
  first word, and only it, is then changed to carry the network id 0x40.\<close>
theorem ane_init_bootstrap:
  assumes "ane_node K view lo hi shift" and "client_ok view lo hi shift s" and "loadable K path s"
    and "ane_init (node_api K shift) path dev_id s = Some (Some nn, s1)"
  shows "\<exists>p ino f tx a mem w text. path = Some p \<and> paths (l_io s) p = Inr ino \<and>
    model_of f = Some (nn_model nn) \<and> found (hwx_get_tsk_section (Some f)) = Some tx \<and>
    lb_map (nn_btsp nn) = Some a \<and> l_mem s1 a = Some mem \<and>
    (let td = unat (md_td_size (nn_model nn)); size = (td + 0x3fff) div 0x4000 * 0x4000;
         descriptor = window_bytes ino (unat (sec_offset tx)) (min td (unat (sec_size tx)));
         image = text @ replicate (size - length text) 0
     in text \<in> {[], descriptor} \<and> (fault_free (l_io s) \<longrightarrow> text = descriptor) \<and>
        length text \<le> size \<and> get_u32 image 0 = Some w \<and>
        mem = le32 ((w AND 0xf00ffff) OR 0x400000) @ drop 4 image)"
  by (rule ane_node.init_bootstrap [OF assms])

theorem ane_init_bootstrap_witness:
  "\<exists>nn s1 a mem. ane_init net_api (Some ''model.hwx'') 0 net_lib = Some (Some nn, s1) \<and>
    md_td_size (nn_model nn) = 0x274 \<and> lb_map (nn_btsp nn) = Some a \<and> l_mem s1 a = Some mem \<and>
    length mem = 0x4000"
proof -
  obtain nn s1 where n: "ane_init net_api (Some ''model.hwx'') 0 net_lib = Some (Some nn, s1)"
    "md_td_size (nn_model nn) = 0x274" using net_init by blast
  from ane_init_bootstrap [OF ref_node.ane_node_axioms net_client net_loadable n(1)] n
  show ?thesis by (fastforce simp: Let_def)
qed

text \<open>a network that \<open>__ane_init\<close> returns has no inputs and no outputs: the sizes are 0,
  sending and reading do nothing, also through the Python binding, and \<open>ane_exec\<close> reports
  success without a submission, whose arguments the driver would refuse since the handle of
  the commands is 0.\<close>
theorem ane_init_no_io:
  fixes s :: "'k node lib"
  assumes "ane_node K view lo hi shift" and "client_ok view lo hi shift s" and "loadable K path s"
    and "ane_init (node_api K shift) path dev_id s = Some (Some nn, s1)"
  shows "ane_exec nn = Some 0 \<and> (\<exists>args. exec_args nn = Some args \<and> submit_refused args) \<and>
    (\<forall>idx buf (t :: 'k node lib). ane_src_size nn idx = Some 0 \<and> ane_dst_size nn idx = Some 0 \<and>
       ane_send nn buf idx t = Some t \<and> ane_read nn buf idx t = Some buf \<and>
       ane_tile_send nn buf idx t = Some t \<and> ane_tile_read nn buf idx t = Some buf) \<and>
    pyane_exec nn = Some 0 \<and>
    (\<forall>bufs (t :: 'k node lib). pyane_send nn bufs t = Some (0, t) \<and>
       pyane_read nn bufs t = Some (0, pyane_array bufs))"
  by (rule ane_node.init_no_io [OF assms])

theorem ane_init_no_io_witness:
  "\<exists>nn s1 args. ane_init net_api (Some ''model.hwx'') 0 net_lib = Some (Some nn, s1) \<and>
    ane_exec nn = Some 0 \<and> exec_args nn = Some args \<and> submit_refused args"
  using ane_init_no_io [OF ref_node.ane_node_axioms net_client net_loadable] net_init by blast

text \<open>C34: \<open>ane_model_init\<close> computes the specification \<open>model_of\<close>: the descriptor size and count of
  the first thread state of the right flavor that is complete, and the sizes of the two
  sections. Without such a state, or with a size of 0, it fails and closes the file again.\<close>
theorem ane_model_init_correct:
  assumes "io_ok w" and "hwx_open path w = Some (Some f, w1)"
  shows "\<exists>e m w2. ane_model_init path w = Some (e, m, w2) \<and>
    (case model_of f of
       None \<Rightarrow> e < 0 \<and> md_hwx m = None \<and> live w2 = live w \<and> fds w2 = fds w
     | Some md \<Rightarrow> e = 0 \<and> m = md \<and> w2 = w1)"
proof (cases "ane_model_init path w")
  case None
  with ane_model_init_ok [OF assms(1), of path] assms(2) show ?thesis by simp
next
  case (Some x)
  obtain e m w2 where x: "x = (e, m, w2)" by (metis prod.exhaust)
  show ?thesis
    using ane_model_init_ok [OF assms(1), of path] assms(2) Some x
    by (cases "e < 0") (auto simp: heap_ok_def)
qed

theorem ane_model_init_correct_witness:
  "\<exists>f w1 m. hwx_open (Some ''model.hwx'') net_env = Some (Some f, w1) \<and>
    ane_model_init (Some ''model.hwx'') net_env = Some (0, m, w1) \<and> md_td_size m = 0x274"
proof -
  obtain f w1 m where f: "hwx_open (Some ''model.hwx'') net_env = Some (Some f, w1)"
    "model_of f = Some m" "md_td_size m = 0x274"
    by (rule net_file_opened)
  from ane_model_init_correct [OF net_env_ok(1) f(1)] f show ?thesis by auto
qed

section \<open>Using a network\<close>

text \<open>C12: On a network whose counts fit the channel array and whose inputs and outputs have tiles
  (which the code does not check, and the buffers long enough), sending an input puts the bytes
  of the buffer into the channel behind the four of the engine and all outputs, as many as that
  channel has tiles for, and changes no other channel; reading an output gives exactly the
  contents of the channel behind the four of the engine, and keeps the rest of the buffer.\<close>
theorem ane_send_read_correct:
  assumes "chans_open nn s" and "io_channels (nn_model nn)"
    and "idx < md_src_count (nn_model nn)" and "idx' < md_dst_count (nn_model nn)"
  defines "src \<equiv> 4 + unat (md_dst_count (nn_model nn)) + unat idx" and "dst \<equiv> 4 + unat idx'"
  assumes "unat (md_tiles (nn_model nn) ! src) * 0x4000 \<le> length buf"
    and "unat (md_tiles (nn_model nn) ! dst) * 0x4000 \<le> length out"
  shows "\<exists>s1 mem. ane_send nn buf idx s = Some s1 \<and> chans_open nn s1 \<and>
    chan_data nn s1 src = Some (take (unat (md_tiles (nn_model nn) ! src) * 0x4000) buf) \<and>
    (\<forall>j. j \<noteq> src \<longrightarrow> chan_data nn s1 j = chan_data nn s j) \<and>
    chan_data nn s dst = Some mem \<and> ane_read nn out idx' s1 = Some (mem @ drop (length mem) out)"
proof -
  obtain s1 where s1: "ane_send nn buf idx s = Some s1" "chans_open nn s1"
    "chan_data nn s1 src = Some (take (unat (md_tiles (nn_model nn) ! src) * 0x4000) buf)"
    "\<forall>j. j \<noteq> src \<longrightarrow> chan_data nn s1 j = chan_data nn s j"
    using ane_send_ok [OF assms(1-3)] assms(7) unfolding src_def by blast
  obtain mem where mem: "chan_data nn s1 dst = Some mem" "ane_read nn out idx' s1 = Some (mem @ drop (length mem) out)"
    using ane_read_ok [OF s1(2) assms(2,4)] assms(8) unfolding dst_def by blast
  have "unat idx' < unat (md_dst_count (nn_model nn))" using assms(4) by (simp add: word_less_nat_alt)
  then have "dst \<noteq> src" by (simp add: dst_def src_def)
  with s1 mem show ?thesis by auto
qed

theorem ane_send_read_correct_witness:
  "\<exists>s1. ane_send io_nn (replicate 0x5000 1) 0 io_lib = Some s1 \<and>
    chan_data io_nn s1 5 = Some (replicate 0x4000 1) \<and>
    ane_read io_nn (replicate 0x4001 2) 0 s1 = Some (replicate 0x4000 7 @ [2])"
  using ane_send_read_correct [OF io_chans_open, of 0 0 "replicate 0x5000 1" "replicate 0x4001 2"] io_channels_io
  by (auto simp: io_tile io_data)

text \<open>C23: On a network as in C12 with sensible layouts, and given a buffer for every input,
  \<open>pyane_send\<close> tiles every input into its channel: what the channel holds afterwards untiles to
  the dense data of the buffer given for it, and every other channel of the array, before and
  behind those of the inputs, is as before.\<close>
theorem pyane_send_correct:
  assumes "chans_open nn s" and "io_channels (nn_model nn)"
    and "unat (md_src_count (nn_model nn)) \<le> length bufs"
    and "\<forall>k < unat (md_src_count (nn_model nn)).
      tile_fits (nn_model nn) (4 + unat (md_dst_count (nn_model nn)) + k) (bufs ! k)"
  shows "\<exists>s1. pyane_send nn bufs s = Some (0, s1) \<and> chans_open nn s1 \<and>
    (\<forall>k < unat (md_src_count (nn_model nn)).
       holds_input nn s1 (4 + unat (md_dst_count (nn_model nn)) + k) (bufs ! k)) \<and>
    (\<forall>j. \<not> (4 + unat (md_dst_count (nn_model nn)) \<le> j \<and>
        j < 4 + unat (md_dst_count (nn_model nn)) + unat (md_src_count (nn_model nn))) \<longrightarrow>
       chan_data nn s1 j = chan_data nn s j)"
  using pyane_send_loop_ok [OF assms(1,2), of 0 "unat (md_src_count (nn_model nn))" bufs] assms(3,4)
  by (auto simp: pyane_send_def)

theorem pyane_send_correct_witness:
  "\<exists>s1. pyane_send io_nn (replicate 32 [1, 2, 3, 4, 5]) io_lib = Some (0, s1) \<and>
    holds_input io_nn s1 5 [1, 2, 3, 4, 5] \<and> chan_data io_nn s1 4 = Some (replicate 0x4000 7)"
  using pyane_send_correct [OF io_chans_open, of "replicate 32 [1, 2, 3, 4, 5]"] io_channels_io
    io_tile_fits [of 5 "[1, 2, 3, 4, 5]"]
  by (auto simp: io_data)

text \<open>C24: \<open>pyane_read\<close> untiles every output channel into the buffer given for it and leaves the
  buffers beyond the count alone.\<close>
theorem pyane_read_correct:
  assumes "chans_open nn s" and "io_channels (nn_model nn)"
    and "unat (md_dst_count (nn_model nn)) \<le> length bufs"
    and "\<forall>k < unat (md_dst_count (nn_model nn)). tile_fits (nn_model nn) (4 + k) (bufs ! k)"
  shows "\<exists>ys. pyane_read nn bufs s = Some (0, ys) \<and>
    (\<forall>k < length bufs. ys ! k = (if k < unat (md_dst_count (nn_model nn))
       then untiled (nn_model nn) (4 + k) (bufs ! k) (the (chan_data nn s (4 + k))) else Some (bufs ! k)))"
proof -
  have arr: "pyane_array bufs ! k = Some (bufs ! k)" if "k < length bufs" for k
    using that by (simp add: pyane_array_def nth_append)
  obtain ys where "pyane_read_loop nn (pyane_array bufs) 0 (unat (md_dst_count (nn_model nn))) s = Some ys"
    "\<forall>k. ys ! k = (if 0 \<le> k \<and> k < 0 + unat (md_dst_count (nn_model nn))
       then untiled (nn_model nn) (4 + k) (the (pyane_array bufs ! k)) (the (chan_data nn s (4 + k)))
       else pyane_array bufs ! k)"
    using pyane_read_loop_ok [OF assms(1,2), of 0 "unat (md_dst_count (nn_model nn))" "pyane_array bufs"]
      assms(3,4) arr by (auto simp: pyane_array_def)
  with arr assms(3) show ?thesis by (auto simp: pyane_read_def)
qed

theorem pyane_read_correct_witness:
  "\<exists>ys. pyane_read io_nn (replicate 32 [1, 2, 3, 4, 5]) io_lib = Some (0, ys) \<and>
    ys ! 0 = untiled io_model 4 [1, 2, 3, 4, 5] (replicate 0x4000 7) \<and> ys ! 1 = Some [1, 2, 3, 4, 5]"
  using pyane_read_correct [OF io_chans_open, of "replicate 32 [1, 2, 3, 4, 5]"] io_channels_io
    io_tile_fits [of 4 "[1, 2, 3, 4, 5]"]
  by (auto simp: io_data)

end
