(* ===== verification/Td_Type.thy ===== *)
theory Td_Type
  imports Ane_Prelude
begin

text \<open>
  Task descriptors are C++ structs of 32-bit words whose bits are named by the template
  \<open>Bitfield<U32, N, S>\<close> of \<open>src/src/libane/bitfield.h\<close>, the field of \<open>S\<close> bits from bit \<open>N\<close>.
  Here are the template's operations, a datatype of the struct types the headers are written
  in, and what a type says of the bytes: its size, and where each member lies.
\<close>

section \<open>Bit fields\<close>

definition bf_mask :: "nat \<Rightarrow> nat \<Rightarrow> u32" where
  "bf_mask N S = ucast (push_bit N (push_bit S 1 - 1 :: u64))"

definition bf_max :: "nat \<Rightarrow> u32" where
  "bf_max S = drop_bit (32 - S) (- 1)"

definition bf_get :: "nat \<Rightarrow> nat \<Rightarrow> u32 \<Rightarrow> u32" where
  "bf_get N S data = drop_bit N (data AND bf_mask N S)"

text \<open>\<open>operator=\<close>: a x that is too large is an assertion failure.\<close>

definition bf_set :: "nat \<Rightarrow> nat \<Rightarrow> u32 \<Rightarrow> u32 \<Rightarrow> u32 option" where
  "bf_set N S x data =
     (if bf_max S < x then None
      else Some ((data AND NOT (bf_mask N S)) OR (push_bit N x AND bf_mask N S)))"

text \<open>The template's static assertions.\<close>

definition bf_ok :: "nat \<Rightarrow> nat \<Rightarrow> bool" where
  "bf_ok N S \<longleftrightarrow> 0 < S \<and> N + S \<le> 32"

lemma bit_bf_mask:
  assumes "bf_ok N S"
  shows "bit (bf_mask N S) i \<longleftrightarrow> N \<le> i \<and> i < N + S"
proof -
  have m: "push_bit S 1 - 1 = (mask S :: u64)" by (simp add: mask_eq_exp_minus_1 push_bit_eq_mult)
  have "bit (bf_mask N S) i \<longleftrightarrow> i < 32 \<and> N \<le> i \<and> i - N < S"
    unfolding bf_mask_def m by (auto simp: bit_simps)
  with assms show ?thesis by (auto simp: bf_ok_def)
qed

lemma bit_bf_get:
  assumes "bf_ok N S"
  shows "bit (bf_get N S data) i \<longleftrightarrow> i < S \<and> bit data (N + i)"
  using assms by (auto simp: bf_get_def bit_simps bit_bf_mask)

lemma bf_max_eq: "0 < S \<Longrightarrow> S \<le> 32 \<Longrightarrow> bf_max S = mask S"
  by (rule bit_word_eqI) (auto simp: bf_max_def bit_simps)

lemma bf_get_le_max:
  assumes "bf_ok N S"
  shows "bf_get N S data \<le> bf_max S"
proof -
  have "bf_get N S data = take_bit S (bf_get N S data)"
    by (rule bit_word_eqI) (use assms in \<open>auto simp: bit_simps bit_bf_get\<close>)
  moreover have "bf_max S = mask S" using assms by (intro bf_max_eq) (auto simp: bf_ok_def)
  ultimately show ?thesis by (metis take_bit_eq_mask word_and_le1)
qed

text \<open>A field reads back what was written, and every other bit is kept.\<close>

lemma bf_set_get:
  assumes "bf_ok N S" and "x \<le> bf_max S"
  shows "\<exists>data1. bf_set N S x data = Some data1 \<and> bf_get N S data1 = x \<and>
    (\<forall>i. \<not> (N \<le> i \<and> i < N + S) \<longrightarrow> bit data1 i = bit data i)"
proof -
  let ?d = "(data AND NOT (bf_mask N S)) OR (push_bit N x AND bf_mask N S)"
  have S: "S \<le> 32" and "bf_max S = mask S" using assms(1) by (auto simp: bf_ok_def intro: bf_max_eq)
  with assms(2) have le: "unat x \<le> unat (mask S :: u32)" by (simp add: word_le_nat_alt)
  have "unat x < 2 ^ S"
  proof (cases "S = 32")
    case True
    then show ?thesis using u32_less [of x] by simp
  next
    case False
    then have "unat (mask S :: u32) = 2 ^ S - 1" using S by (intro unat_mask_less) simp
    moreover have "0 < (2 :: nat) ^ S" by simp
    ultimately show ?thesis using le by linarith
  qed
  then have v: "x = take_bit S x"
    by (simp add: word_unat_eq_iff unsigned_take_bit_eq take_bit_nat_eq_self)
  have "bf_get N S ?d = take_bit S x"
    by (rule bit_word_eqI) (use assms(1) in \<open>auto simp: bit_bf_get bit_simps bit_bf_mask bf_ok_def\<close>)
  with v have "bf_get N S ?d = x" by simp
  moreover have "bit ?d i = bit data i" if "\<not> (N \<le> i \<and> i < N + S)" for i
    using that assms(1) by (auto simp: bit_simps bit_bf_mask dest: bit_imp_le_length)
  ultimately show ?thesis using assms(2) by (simp add: bf_set_def not_less)
qed

lemma bf_get_other:
  assumes "bf_ok N S" and "\<And>i. N \<le> i \<Longrightarrow> i < N + S \<Longrightarrow> bit data1 i = bit data i"
  shows "bf_get N S data1 = bf_get N S data"
  by (rule bit_word_eqI) (use assms in \<open>auto simp: bit_bf_get\<close>)

section \<open>Struct types\<close>

text \<open>A union of bit fields, a list of names with first bit and length, is one word; anonymous
  unions put the names of their fields in the scope of the struct.\<close>

type_synonym fields = "(string \<times> nat \<times> nat) list"

datatype td_type = U32 | Bits fields | Array td_type nat | Struct "td_member list"
  and td_member = Anon fields | Mem string td_type

fun td_sizeof :: "td_type \<Rightarrow> nat" and members_size :: "td_member list \<Rightarrow> nat" where
  "td_sizeof U32 = 4"
| "td_sizeof (Bits fs) = 4"
| "td_sizeof (Array t n) = n * td_sizeof t"
| "td_sizeof (Struct ms) = members_size ms"
| "members_size [] = 0"
| "members_size (Anon fs # ms) = 4 + members_size ms"
| "members_size (Mem name t # ms) = td_sizeof t + members_size ms"

text \<open>A leaf: its path, the offset of its word, its first bit and its length. The elements of an
  array are named by their index.\<close>

type_synonym leaf = "string list \<times> nat \<times> nat \<times> nat"

definition under :: "string \<Rightarrow> leaf list \<Rightarrow> leaf list" where
  "under name ls = map (\<lambda>(p, l). (name # p, l)) ls"

definition bits_at :: "nat \<Rightarrow> fields \<Rightarrow> leaf list" where
  "bits_at off fs = map (\<lambda>(name, N, S). ([name], off, N, S)) fs"

fun leaves :: "nat \<Rightarrow> td_type \<Rightarrow> leaf list" and member_leaves :: "nat \<Rightarrow> td_member list \<Rightarrow> leaf list" where
  "leaves off U32 = [([], off, 0, 32)]"
| "leaves off (Bits fs) = bits_at off fs"
| "leaves off (Array t n) = concat (map (\<lambda>i. under (decimal i) (leaves (off + i * td_sizeof t) t)) [0..<n])"
| "leaves off (Struct ms) = member_leaves off ms"
| "member_leaves off [] = []"
| "member_leaves off (Anon fs # ms) = bits_at off fs @ member_leaves (off + 4) ms"
| "member_leaves off (Mem name t # ms) = under name (leaves off t) @ member_leaves (off + td_sizeof t) ms"

definition td_leaf :: "td_type \<Rightarrow> string list \<Rightarrow> (nat \<times> nat \<times> nat) option" where
  "td_leaf t path = map_of (leaves 0 t) path"

text \<open>\<open>offsetof\<close> of a member of a struct\<close>

fun td_offsetof :: "td_member list \<Rightarrow> string \<Rightarrow> nat option" where
  "td_offsetof [] name = None"
| "td_offsetof (Anon fs # ms) name = map_option (\<lambda>k. 4 + k) (td_offsetof ms name)"
| "td_offsetof (Mem n t # ms) name =
     (if n = name then Some 0 else map_option (\<lambda>k. td_sizeof t + k) (td_offsetof ms name))"

section \<open>Reading and writing a member\<close>

definition td_get :: "bytes \<Rightarrow> nat \<times> nat \<times> nat \<Rightarrow> u32 option" where
  "td_get raw = (\<lambda>(off, N, S). map_option (bf_get N S) (get_u32 raw off))"

definition td_put :: "bytes \<Rightarrow> nat \<times> nat \<times> nat \<Rightarrow> u32 \<Rightarrow> bytes option" where
  "td_put raw = (\<lambda>(off, N, S) x. do {
     data \<leftarrow> get_u32 raw off; data1 \<leftarrow> bf_set N S x data; mem_write raw off (le32 data1) })"

section \<open>Well-formed types\<close>

fun fields_ok :: "fields \<Rightarrow> bool" where
  "fields_ok [] = True"
| "fields_ok ((name, N, S) # fs) = (bf_ok N S \<and>
     list_all (\<lambda>(name', N', S'). name \<noteq> name' \<and> (N + S \<le> N' \<or> N' + S' \<le> N)) fs \<and> fields_ok fs)"

fun member_names :: "td_member list \<Rightarrow> string list" where
  "member_names [] = []"
| "member_names (Anon fs # ms) = map fst fs @ member_names ms"
| "member_names (Mem name t # ms) = name # member_names ms"

fun td_ok :: "td_type \<Rightarrow> bool" and members_ok :: "td_member list \<Rightarrow> bool" where
  "td_ok U32 = True"
| "td_ok (Bits fs) = fields_ok fs"
| "td_ok (Array t n) = (td_ok t)"
| "td_ok (Struct ms) = (distinct (member_names ms) \<and> members_ok ms)"
| "members_ok [] = True"
| "members_ok (Anon fs # ms) = (fields_ok fs \<and> members_ok ms)"
| "members_ok (Mem name t # ms) = (td_ok t \<and> members_ok ms)"


section \<open>The layout of a well-formed type\<close>

text \<open>\<open>leaf_at lo hi\<close>: a leaf lies in the bytes from \<open>lo\<close> to \<open>hi\<close>, in an aligned word. A list of
  leaves is laid out there when moreover no path occurs twice and no two leaves share a bit.\<close>

definition leaf_at :: "nat \<Rightarrow> nat \<Rightarrow> nat \<times> nat \<times> nat \<Rightarrow> bool" where
  "leaf_at lo hi = (\<lambda>(off, N, S). 4 dvd off \<and> lo \<le> off \<and> off + 4 \<le> hi \<and> bf_ok N S)"

definition leaf_apart :: "nat \<times> nat \<times> nat \<Rightarrow> nat \<times> nat \<times> nat \<Rightarrow> bool" where
  "leaf_apart = (\<lambda>(off, N, S) (off', N', S'). off \<noteq> off' \<or> N + S \<le> N' \<or> N' + S' \<le> N)"

definition laid_out :: "nat \<Rightarrow> nat \<Rightarrow> leaf list \<Rightarrow> bool" where
  "laid_out lo hi ls \<longleftrightarrow> distinct (map fst ls) \<and> (\<forall>l\<in>set ls. leaf_at lo hi (snd l)) \<and>
     (\<forall>l\<in>set ls. \<forall>l'\<in>set ls. fst l \<noteq> fst l' \<longrightarrow> leaf_apart (snd l) (snd l'))"

lemma leaf_apart_sym: "leaf_apart l l' \<Longrightarrow> leaf_apart l' l"
  by (auto simp: leaf_apart_def)

lemma leaf_at_mono: "leaf_at lo hi l \<Longrightarrow> lo' \<le> lo \<Longrightarrow> hi \<le> hi' \<Longrightarrow> leaf_at lo' hi' l"
  by (auto simp: leaf_at_def)

lemma leaf_at_apart: "leaf_at lo mid l \<Longrightarrow> leaf_at mid hi l' \<Longrightarrow> leaf_apart l l'"
  by (auto simp: leaf_at_def leaf_apart_def)

lemma laid_out_Nil [simp]: "laid_out lo hi []"
  by (simp add: laid_out_def)

lemma laid_out_append:
  assumes "laid_out lo mid xs" and "laid_out mid hi ys" and "lo \<le> mid" and "mid \<le> hi"
    and "fst ` set xs \<inter> fst ` set ys = {}"
  shows "laid_out lo hi (xs @ ys)"
proof -
  have "leaf_apart (snd l) (snd l') \<and> leaf_apart (snd l') (snd l)" if "l \<in> set xs" "l' \<in> set ys" for l l'
    using that assms(1,2) unfolding laid_out_def by (meson leaf_at_apart leaf_apart_sym)
  moreover have "leaf_at lo hi (snd l)" if "l \<in> set xs \<union> set ys" for l
    using that assms(1-4) unfolding laid_out_def
    by (metis Un_iff leaf_at_mono order_refl)
  ultimately show ?thesis using assms(1,2,5) unfolding laid_out_def by (auto simp: ball_Un)
qed

lemma laid_out_mono: "laid_out lo hi ls \<Longrightarrow> hi \<le> hi' \<Longrightarrow> laid_out lo hi' ls"
  by (auto simp: laid_out_def intro: leaf_at_mono)

lemma set_under: "set (under name ls) = (\<lambda>l. (name # fst l, snd l)) ` set ls"
  by (auto simp: under_def case_prod_unfold)

lemma map_fst_under: "map fst (under name ls) = map ((#) name) (map fst ls)"
  by (simp add: under_def case_prod_unfold comp_def)

lemma laid_out_under: "laid_out lo hi ls \<Longrightarrow> laid_out lo hi (under name ls)"
  unfolding laid_out_def set_under map_fst_under
  by (auto simp: distinct_map inj_on_def)

lemma laid_out_Cons:
  assumes "laid_out lo hi ls" and "leaf_at lo hi (snd l)"
    and "\<And>l'. l' \<in> set ls \<Longrightarrow> fst l' \<noteq> fst l \<and> leaf_apart (snd l) (snd l')"
  shows "laid_out lo hi (l # ls)"
proof -
  have "fst l \<notin> fst ` set ls" using assms(3) by (metis imageE)
  moreover have "\<forall>l'\<in>set ls. leaf_apart (snd l) (snd l')" using assms(3) by blast
  ultimately show ?thesis
    using assms(1,2) unfolding laid_out_def by (simp add: leaf_apart_sym)
qed

lemma laid_out_bits_at:
  assumes "fields_ok fs" and "4 dvd off"
  shows "laid_out off (off + 4) (bits_at off fs)"
  using assms(1)
proof (induction fs rule: fields_ok.induct)
  case (2 name N S fs)
  then have IH: "laid_out off (off + 4) (bits_at off fs)" and "bf_ok N S"
    and ne: "list_all (\<lambda>(name', N', S'). name \<noteq> name' \<and> (N + S \<le> N' \<or> N' + S' \<le> N)) fs" by auto
  have "fst l \<noteq> [name] \<and> leaf_apart (off, N, S) (snd l)" if "l \<in> set (bits_at off fs)" for l
    using that ne by (auto simp: bits_at_def list_all_iff leaf_apart_def)
  moreover have "bits_at off ((name, N, S) # fs) = ([name], off, N, S) # bits_at off fs"
    by (simp add: bits_at_def)
  ultimately show ?case using IH \<open>bf_ok N S\<close> \<open>4 dvd off\<close>
    by (simp only:, intro laid_out_Cons) (auto simp: leaf_at_def)
qed (simp add: bits_at_def)

text \<open>The decimal numerals, the names of the elements of an array, are different.\<close>

definition undecimal :: "string \<Rightarrow> nat" where
  "undecimal cs = foldl (\<lambda>n c. 10 * n + (of_char c - 48)) 0 cs"

lemma undecimal_decimal: "undecimal (decimal n) = n"
proof (induction n rule: decimal.induct)
  case (1 n)
  have d: "of_char (char_of (48 + n mod 10) :: char) = 48 + n mod 10" for n :: nat
    by (simp add: of_char_of)
  show ?case
  proof (cases "n < 10")
    case True
    then show ?thesis using d [of n] by (subst decimal.simps) (simp add: undecimal_def)
  next
    case False
    with 1 d [of n] show ?thesis by (subst decimal.simps) (simp add: undecimal_def)
  qed
qed

lemma decimal_inject: "decimal m = decimal n \<longleftrightarrow> m = n"
  by (metis undecimal_decimal)

lemma four_dvd_sizeof: "4 dvd td_sizeof t" "4 dvd members_size ms"
  by (induction t and ms rule: td_sizeof_members_size.induct) auto

lemma member_leaves_heads: "l \<in> set (member_leaves off ms) \<Longrightarrow> \<exists>n p. fst l = n # p \<and> n \<in> set (member_names ms)"
proof (induction ms arbitrary: off rule: member_names.induct)
  case (2 fs ms)
  then show ?case by (cases "l \<in> set (bits_at off fs)") (force simp: bits_at_def, force)
next
  case (3 name t ms)
  then show ?case by (cases "l \<in> set (under name (leaves off t))") (force simp: set_under, force)
qed simp

lemma under_disjoint: "name \<noteq> name' \<Longrightarrow> fst ` set (under name ls) \<inter> fst ` set (under name' ls') = {}"
  by (auto simp: set_under)

lemma laid_out_array:
  assumes "\<And>i. i < n \<Longrightarrow> laid_out (off + i * k) (off + i * k + k) (f i)"
  shows "laid_out off (off + n * k) (concat (map (\<lambda>i. under (decimal i) (f i)) [0..<n]))"
  using assms
proof (induction n)
  case (Suc n)
  have "fst ` set (concat (map (\<lambda>i. under (decimal i) (f i)) [0..<n])) \<inter> fst ` set (under (decimal n) (f n)) = {}"
    by (auto simp: set_under decimal_inject)
  with laid_out_append [OF Suc.IH laid_out_under [OF Suc.prems]] Suc.prems
  show ?case by (simp add: add.commute add.left_commute)
qed simp

lemma td_ok_laid_out:
  shows "td_ok t \<Longrightarrow> 4 dvd off \<Longrightarrow> laid_out off (off + td_sizeof t) (leaves off t)"
    and "distinct (member_names ms) \<Longrightarrow> members_ok ms \<Longrightarrow> 4 dvd off \<Longrightarrow>
      laid_out off (off + members_size ms) (member_leaves off ms)"
proof (induction off t and off ms rule: leaves_member_leaves.induct)
  case (1 off)
  then show ?case by (simp add: laid_out_def leaf_at_def bf_ok_def)
next
  case (2 off fs)
  then show ?case by (simp add: laid_out_bits_at)
next
  case (3 off t n)
  then show ?case by (simp add: laid_out_array four_dvd_sizeof)
next
  case (6 off fs ms)
  have "fst ` set (bits_at off fs) \<inter> fst ` set (member_leaves (off + 4) ms) = {}"
    using 6 by (fastforce simp: bits_at_def dest!: member_leaves_heads)
  then have "laid_out off (off + 4 + members_size ms) (bits_at off fs @ member_leaves (off + 4) ms)"
    using 6 by (intro laid_out_append [where mid = "off + 4"]) (auto intro: laid_out_bits_at)
  then show ?case by (simp add: add.assoc)
next
  case (7 off name t ms)
  have "fst ` set (under name (leaves off t)) \<inter> fst ` set (member_leaves (off + td_sizeof t) ms) = {}"
    using 7 by (fastforce simp: set_under dest!: member_leaves_heads)
  then have "laid_out off (off + td_sizeof t + members_size ms)
      (under name (leaves off t) @ member_leaves (off + td_sizeof t) ms)"
    using 7 by (intro laid_out_append [where mid = "off + td_sizeof t"] laid_out_under)
      (auto simp: four_dvd_sizeof)
  then show ?case by (simp add: add.assoc)
qed simp_all

text \<open>The leaves of a well-formed type can be read and written independently of each other.\<close>

lemma td_leaf_at:
  assumes "td_ok t" and "td_leaf t path = Some l"
  shows "leaf_at 0 (td_sizeof t) l"
proof -
  have "(path, l) \<in> set (leaves 0 t)" using assms(2) by (simp add: td_leaf_def map_of_SomeD)
  with td_ok_laid_out(1) [OF assms(1), of 0] show ?thesis by (force simp: laid_out_def)
qed

lemma td_leaf_apart:
  assumes "td_ok t" and "td_leaf t path = Some l" and "td_leaf t path' = Some l'" and "path \<noteq> path'"
  shows "leaf_apart l l'"
proof -
  have "(path, l) \<in> set (leaves 0 t)" "(path', l') \<in> set (leaves 0 t)"
    using assms(2,3) by (simp_all add: td_leaf_def map_of_SomeD)
  with td_ok_laid_out(1) [OF assms(1), of 0] assms(4) show ?thesis by (force simp: laid_out_def)
qed

lemma get_put_word:
  assumes "mem_write raw off (le32 w) = Some raw1" and "4 dvd off" and "4 dvd off'"
  shows "get_u32 raw1 off' = (if off' = off then Some w else get_u32 raw off')"
proof (cases "off' = off")
  case True
  then show ?thesis using mem_read_write_same [OF assms(1)] by (simp add: get_u32_le32)
next
  case False
  with assms(2,3) have "off' + 4 \<le> off \<or> off + 4 \<le> off'" by (auto elim!: dvdE)
  with mem_read_write_other [OF assms(1), of off' 4] False show ?thesis by (simp add: get_u32_def)
qed

lemma td_put_leaf:
  assumes "leaf_at 0 sz l" and "sz \<le> length raw" and "x \<le> bf_max (snd (snd l))"
  obtains raw1 where "td_put raw l x = Some raw1" and "td_get raw1 l = Some x" and "length raw1 = length raw"
    and "\<And>l'. leaf_at 0 sz l' \<Longrightarrow> leaf_apart l l' \<Longrightarrow> td_get raw1 l' = td_get raw l'"
proof -
  obtain off N S where l: "l = (off, N, S)" by (cases l)
  with assms(1) have ok: "4 dvd off" "off + 4 \<le> sz" "bf_ok N S" by (auto simp: leaf_at_def)
  then obtain w where w: "get_u32 raw off = Some w"
    using assms(2) get_u32_None_iff [of raw off] by (cases "get_u32 raw off") auto
  obtain w1 where w1: "bf_set N S x w = Some w1" "bf_get N S w1 = x"
    "\<And>i. \<not> (N \<le> i \<and> i < N + S) \<Longrightarrow> bit w1 i = bit w i"
    using bf_set_get [OF ok(3)] assms(3) by (auto simp: l)
  obtain raw1 where raw1: "mem_write raw off (le32 w1) = Some raw1"
    using mem_write_ok [of off "le32 w1" raw] ok(2) assms(2) by auto
  note get = get_put_word [OF raw1 ok(1)]
  show ?thesis
  proof (rule that)
    show "td_put raw l x = Some raw1" by (simp add: td_put_def l w w1(1) raw1)
    show "td_get raw1 l = Some x" using get [OF ok(1)] by (simp add: td_get_def l w1(2))
    show "length raw1 = length raw" using raw1 by (rule mem_write_length)
    fix l' assume l': "leaf_at 0 sz l'" "leaf_apart l l'"
    obtain off' N' S' where eq: "l' = (off', N', S')" by (cases l')
    with l' l have "4 dvd off'" "bf_ok N' S'" "off' = off \<Longrightarrow> N + S \<le> N' \<or> N' + S' \<le> N"
      by (auto simp: leaf_at_def leaf_apart_def)
    then show "td_get raw1 l' = td_get raw l'"
      by (auto simp: td_get_def eq get w intro!: bf_get_other w1(3))
  qed
qed

section \<open>The paths of a type\<close>

fun paths_of :: "td_type \<Rightarrow> string list list" and member_paths :: "td_member list \<Rightarrow> string list list" where
  "paths_of U32 = [[]]"
| "paths_of (Bits fs) = map (\<lambda>f. [fst f]) fs"
| "paths_of (Array t n) = concat (map (\<lambda>i. map ((#) (decimal i)) (paths_of t)) [0..<n])"
| "paths_of (Struct ms) = member_paths ms"
| "member_paths [] = []"
| "member_paths (Anon fs # ms) = map (\<lambda>f. [fst f]) fs @ member_paths ms"
| "member_paths (Mem name t # ms) = map ((#) name) (paths_of t) @ member_paths ms"

lemma bits_at_paths: "map fst (bits_at off fs) = map (\<lambda>f. [fst f]) fs"
  by (simp add: bits_at_def comp_def case_prod_unfold)

lemma leaf_paths:
  "map fst (leaves off t) = paths_of t"
  "map fst (member_leaves off ms) = member_paths ms"
proof (induction off t and off ms rule: leaves_member_leaves.induct)
  case (3 off t n)
  have element: "map fst (under (decimal i) (leaves (off + i * td_sizeof t) t)) = map ((#) (decimal i)) (paths_of t)"
    if "i < n" for i
    using 3 [of i] that by (simp add: map_fst_under del: map_map)
  have "map fst (leaves off (Array t n)) =
      concat (map (\<lambda>i. map fst (under (decimal i) (leaves (off + i * td_sizeof t) t))) [0..<n])"
    by (simp add: map_concat comp_def)
  also have "\<dots> = paths_of (Array t n)"
    unfolding paths_of.simps by (intro arg_cong [where f = concat] map_cong refl element) simp
  finally show ?case .
qed (simp_all add: bits_at_paths map_fst_under)

lemma td_leaf_path: "td_leaf t p \<noteq> None \<longleftrightarrow> p \<in> set (paths_of t)"
  unfolding td_leaf_def map_of_eq_None_iff leaf_paths(1) [of 0, symmetric] by simp

lemma member_paths_scope:
  "Mem name t \<in> set ms \<Longrightarrow> p \<in> set (paths_of t) \<Longrightarrow> name # p \<in> set (member_paths ms)"
  by (induction ms rule: member_names.induct) auto

end
