(* ===== verification/Td_Layout.thy ===== *)
theory Td_Layout
  imports Td_Type
begin

text \<open>
  The task descriptors of \<open>td_v5.h\<close>, \<open>td_v7.h\<close> and \<open>td_v11.h\<close> (all under \<open>src/src/libane\<close>),
  struct by struct, in the order of the headers. A named union of bit fields is a \<open>Bits\<close>, an
  anonymous one an \<open>Anon\<close>, \<open>uint32_t\<close> and \<open>U32\<close> are the same type.
\<close>

section \<open>Version 5\<close>

definition TDHeader_V5 :: td_type where
  "TDHeader_V5 = Struct [
     Anon [(''tid'', 0, 16), (''nid'', 16, 8), (''lnid'', 24, 1), (''eon'', 25, 1)],
     Anon [(''exe_cycles'', 0, 16), (''next_size'', 16, 9)], Anon [(''log_events'', 0, 24)],
     Anon [(''exceptions'', 0, 24)], Anon [(''debug_log_events'', 0, 24)],
     Anon [(''debug_exceptions'', 0, 24)],
     Anon [(''disallow_abort'', 8, 1), (''td_skip'', 9, 1), (''kpc'', 10, 1), (''spl'', 11, 1),
       (''tsr'', 12, 1), (''spc'', 13, 1), (''dpc'', 14, 1), (''tse'', 15, 1),
       (''next_priority'', 16, 6), (''tde'', 24, 1), (''src_loc'', 28, 1), (''dst_loc'', 29, 1),
       (''tq_dis'', 31, 1)],
     Anon [(''next_pointer'', 0, 32)],
     Anon [(''rbase0'', 0, 5), (''rbe0'', 5, 1), (''rbase1'', 6, 5), (''rbe1'', 11, 1),
       (''wbase'', 12, 5), (''wbe'', 17, 1), (''tbase'', 18, 5), (''tbe'', 23, 1),
       (''ene'', 24, 3)],
     Anon [(''kbase0'', 0, 5), (''kbe0'', 5, 1), (''kbase1'', 6, 5), (''kbe1'', 11, 1),
       (''kbase2'', 12, 5), (''kbe2'', 17, 1), (''kbase3'', 18, 5), (''kbe3'', 23, 1)],
     Mem ''header10'' U32]"

definition CoeffDMAConfig_V5 :: td_type where
  "CoeffDMAConfig_V5 = Bits [(''en'', 0, 1), (''cr_h'', 4, 2), (''cache_hint'', 6, 4),
    (''prefetch_participate_en'', 28, 1)]"

definition KernelDMASrc_V5 :: td_type where
  "KernelDMASrc_V5 = Struct [
     Mem ''coeff_dma_config'' (Array CoeffDMAConfig_V5 16), Mem ''coeff_addr'' (Array U32 16),
     Mem ''coeff_size'' (Array U32 16)]"

definition CommonHeader_V5 :: td_type where
  "CommonHeader_V5 = Struct [
     Anon [(''InDim_Win'', 0, 15), (''InDim_Hin'', 16, 15)], Mem ''unk004'' U32,
     Anon [(''ChCfg_InFmt'', 0, 2), (''ChCfg_OutFmt'', 4, 2)], Anon [(''Cin_Cin'', 0, 17)],
     Anon [(''Cout_Cout'', 0, 17)], Anon [(''OutDim_Wout'', 0, 15), (''OutDim_Hout'', 16, 15)],
     Mem ''unk018'' U32,
     Anon [(''ConvCfg_Kw'', 0, 5), (''ConvCfg_Kh'', 5, 5), (''ConvCfg_OCGSize'', 10, 3),
       (''ConvCfg_Sx'', 13, 2), (''ConvCfg_Sy'', 15, 2), (''ConvCfg_Px'', 17, 5),
       (''ConvCfg_Py'', 22, 5), (''ConvCfg_Ox'', 28, 2), (''ConvCfg_Oy'', 30, 2)],
     Mem ''unk020'' U32,
     Anon [(''GroupConvCfg_NumGroups'', 0, 13), (''GroupConvCfg_UnicastEn'', 14, 1),
       (''GroupConvCfg_ElemMultMode'', 15, 1), (''GroupConvCfg_UnicastCin'', 16, 16)],
     Anon [(''TileCfg_TileHeight'', 0, 15)], Mem ''unk02C'' U32, Mem ''unk030'' U32,
     Anon [(''Cfg_SmallSourceMode'', 2, 1), (''Cfg_ShPref'', 8, 3), (''Cfg_ShMin'', 12, 3),
       (''Cfg_ShMax'', 16, 3), (''Cfg_ActiveNE'', 19, 3), (''Cfg_ContextSwitchIn'', 22, 1),
       (''Cfg_ContextSwitchOut'', 24, 1), (''Cfg_AccDoubleBufEn'', 26, 1)],
     Anon [(''TaskInfo_TaskID'', 0, 16), (''TaskInfo_TaskQ'', 16, 4),
       (''TaskInfo_NID'', 20, 8)],
     Anon [(''DPE_Category'', 0, 4)]]"

definition DMASrcConfig_V5 :: td_type where
  "DMASrcConfig_V5 = Bits [(''en'', 0, 1), (''cr_h'', 4, 2), (''cache_hint'', 6, 4),
    (''cache_hint_reuse'', 10, 4), (''cache_hint_noreuse'', 14, 4), (''dependency_mode'', 18, 2)]"

definition DMASrcFormat_V5 :: td_type where
  "DMASrcFormat_V5 = Bits [(''FmtMode'', 0, 2), (''Truncate'', 4, 2), (''Shift'', 8, 1),
    (''MemFmt'', 12, 2), (''OffsetCh'', 16, 3), (''Interleave'', 24, 4), (''CmpVec'', 28, 4)]"

definition TileDMASrc_V5 :: td_type where
  "TileDMASrc_V5 = Struct [
     Mem ''DMAConfig'' DMASrcConfig_V5, Mem ''unk04'' U32, Mem ''BaseAddr'' U32,
     Mem ''RowStride'' U32, Mem ''PlaneStride'' U32, Mem ''DepthStride'' U32,
     Mem ''GroupStride'' U32, Mem ''unk1'' (Array U32 7), Mem ''Fmt'' DMASrcFormat_V5,
     Mem ''unk2'' (Array U32 5), Mem ''PixelOffset'' (Array U32 4)]"

definition L2Config_V5 :: td_type where
  "L2Config_V5 = Struct [
     Anon [(''L2Cfg_InputReLU'', 0, 1), (''L2Cfg_PaddingMode'', 2, 2)],
     Anon [(''SourceCfg_SourceType'', 0, 2), (''SourceCfg_Dependent'', 2, 2),
       (''SourceCfg_AliasConvSrc'', 4, 1), (''SourceCfg_AliasConvRslt'', 5, 1),
       (''SourceCfg_DMAFmt'', 6, 2), (''SourceCfg_DMAInterleave'', 8, 4),
       (''SourceCfg_DMACmpVec'', 12, 4), (''SourceCfg_DMAOffsetCh'', 16, 3),
       (''SourceCfg_AliasPlanarSrc'', 20, 1), (''SourceCfg_AliasPlanarRslt'', 22, 1)],
     Anon [(''SourceBase_Addr'', 4, 17)], Anon [(''SourceChannelStride_Stride'', 4, 17)],
     Anon [(''SourceRowStride_Stride'', 4, 17)], Mem ''unk_maybe_stride1'' U32,
     Mem ''unk_maybe_stride2'' U32, Mem ''unk01C'' U32, Mem ''unk020'' U32,
     Mem ''unk024'' U32, Mem ''unk028'' U32, Mem ''unk02C'' U32,
     Anon [(''ResultCfg_ResultType'', 0, 2), (''ResultCfg_L2BfrMode'', 3, 1),
       (''ResultCfg_AliasConvSrc'', 4, 1), (''ResultCfg_AliasConvRslt'', 5, 1),
       (''ResultCfg_DMAFmt'', 6, 2), (''ResultCfg_DMAInterleave'', 8, 4),
       (''ResultCfg_DMACmpVec'', 12, 4), (''ResultCfg_DMAOffsetCh'', 16, 3),
       (''ResultCfg_AliasPlanarSrc'', 20, 1), (''ResultCfg_AliasPlanarRslt'', 22, 1)],
     Anon [(''ResultBase_Addr'', 4, 17)], Anon [(''ConvResultChannelStride_Stride'', 4, 17)],
     Anon [(''ConvResultRowStride_Stride'', 4, 17)]]"

definition NEConfig_V5 :: td_type where
  "NEConfig_V5 = Struct [
     Anon [(''KernelCfg_KernelFmt'', 0, 2), (''KernelCfg_PalettizedEn'', 2, 1),
       (''KernelCfg_PalettizedBits'', 4, 4), (''KernelCfg_SparseFmt'', 8, 1),
       (''KernelCfg_GroupKernelReuse'', 10, 1)],
     Anon [(''MACCfg_OpMode'', 0, 3), (''MACCfg_KernelMode'', 3, 1),
       (''MACCfg_BiasMode'', 4, 1), (''MACCfg_MatrixBiasEn'', 6, 1),
       (''MACCfg_BinaryPoint'', 8, 5), (''MACCfg_PostScaleMode'', 14, 1),
       (''MACCfg_NonlinearMode'', 16, 2)],
     Anon [(''MatrixVectorBias_MatrixVectorBias'', 0, 16)],
     Anon [(''AccBias_AccBias'', 0, 16), (''AccBias_AccBiasShift'', 16, 5)],
     Anon [(''PostScale_PostScale'', 0, 16), (''PostScale_PostRightShift'', 16, 5)]]"

definition DMADstConfig_V5 :: td_type where
  "DMADstConfig_V5 = Bits [(''en'', 0, 1), (''cr_h'', 4, 2), (''cache_hint'', 6, 4),
    (''l2_bfr_mode'', 26, 1), (''bypass_eow'', 27, 1)]"

definition DMADstFormat_V5 :: td_type where
  "DMADstFormat_V5 = Bits [(''FmtMode'', 0, 2), (''Truncate'', 4, 2), (''Shift'', 8, 1),
    (''MemFmt'', 12, 2), (''OffsetCh'', 16, 3), (''ZeroPadLast'', 20, 1), (''ZeroPadFirst'', 21, 1),
    (''CmpVecFill'', 22, 1), (''Interleave'', 24, 4), (''CmpVec'', 28, 4)]"

definition TileDMADst_V5 :: td_type where
  "TileDMADst_V5 = Struct [
     Mem ''DMAConfig'' DMADstConfig_V5, Mem ''BaseAddr'' U32, Mem ''RowStride'' U32,
     Mem ''PlaneStride'' U32, Mem ''DepthStride'' U32, Mem ''GroupStride'' U32,
     Mem ''Fmt'' DMADstFormat_V5]"

definition TD_V5 :: td_type where
  "TD_V5 = Struct [
     Mem ''header'' TDHeader_V5, Mem ''unk30'' U32, Mem ''unk34'' U32,
     Mem ''kernel_dma_src'' KernelDMASrc_V5, Mem ''unk1F4'' (Array U32 13),
     Mem ''common'' CommonHeader_V5, Mem ''unk168'' U32, Mem ''tile_dma_src'' TileDMASrc_V5,
     Mem ''unk1CC'' (Array U32 5), Mem ''l2_config'' L2Config_V5, Mem ''unk220'' (Array U32 8),
     Mem ''ne_config'' NEConfig_V5, Mem ''unk254'' U32, Mem ''tile_dma_dst'' TileDMADst_V5]"

section \<open>Version 7\<close>

text \<open>\<open>TDCoeffDMAConfig\<close> is a \<open>struct\<close> here and a \<open>union\<close> in version 5: its four bit fields are
  in four words.\<close>

definition TDHeader_V7 :: td_type where
  "TDHeader_V7 = Struct [
     Anon [(''tid'', 0, 16), (''nid'', 16, 8), (''lnid'', 24, 1), (''eon'', 25, 1)],
     Anon [(''exe_cycles'', 0, 16), (''next_size'', 16, 9)], Anon [(''log_events'', 0, 24)],
     Anon [(''exceptions'', 0, 24)], Anon [(''debug_log_events'', 0, 24)],
     Anon [(''debug_exceptions'', 0, 24)],
     Anon [(''disallow_abort'', 8, 1), (''td_skip'', 9, 1), (''kpc'', 10, 1), (''spl'', 11, 1),
       (''tsr'', 12, 1), (''spc'', 13, 1), (''dpc'', 14, 1), (''tse'', 15, 1),
       (''next_priority'', 16, 6), (''tde'', 24, 1), (''src_loc'', 28, 1), (''dst_loc'', 29, 1),
       (''tq_dis'', 31, 1)],
     Anon [(''next_pointer'', 0, 32)],
     Anon [(''rbase0'', 0, 5), (''rbe0'', 5, 1), (''rbase1'', 6, 5), (''rbe1'', 11, 1),
       (''wbase'', 12, 5), (''wbe'', 17, 1), (''tbase'', 18, 5), (''tbe'', 23, 1),
       (''ene'', 24, 3)],
     Anon [(''kbase0'', 0, 5), (''kbe0'', 5, 1), (''kbase1'', 6, 5), (''kbe1'', 11, 1),
       (''kbase2'', 12, 5), (''kbe2'', 17, 1), (''kbase3'', 18, 5), (''kbe3'', 23, 1)],
     Anon [(''dtid'', 0, 16)]]"

definition TDCoeffDMAConfig :: td_type where
  "TDCoeffDMAConfig = Struct [
     Anon [(''en'', 0, 1)], Anon [(''cr_h'', 4, 2)], Anon [(''cache_hint'', 6, 4)],
     Anon [(''prefetch_participate_en'', 28, 1)]]"

definition KernelDMASrc :: td_type where
  "KernelDMASrc = Struct [
     Mem ''coeff_dma_config'' (Array TDCoeffDMAConfig 16), Mem ''coeff_addr'' (Array U32 16),
     Mem ''coeff_size'' (Array U32 16)]"

definition TD_V7 :: td_type where
  "TD_V7 = Struct [
     Mem ''header'' TDHeader_V7, Mem ''unk30'' U32, Mem ''unk34'' U32,
     Mem ''kernel_dma_src'' KernelDMASrc]"

section \<open>Version 11\<close>

definition TDHeader_V11 :: td_type where
  "TDHeader_V11 = Struct [
     Mem ''unk00'' U32, Mem ''unk04'' U32, Mem ''unk08'' U32, Mem ''unk0C'' U32,
     Mem ''unk10'' U32, Mem ''unk14'' U32, Anon [(''unk_maybe_log_events'', 0, 24)],
     Anon [(''unk_maybe_exceptions'', 0, 24)], Anon [(''unk_maybe_debug_log_events'', 0, 24)],
     Anon [(''unk_maybe_debug_exceptions'', 0, 24)]]"

definition TDCoeffDMAConfig_V11 :: td_type where
  "TDCoeffDMAConfig_V11 = Bits [(''en'', 0, 1), (''cache_hint'', 4, 4), (''data_set_id'', 8, 8)]"

abbreviation DMASrcFormat_V11 :: td_type where "DMASrcFormat_V11 \<equiv> DMASrcFormat_V5"
abbreviation DMADstFormat_V11 :: td_type where "DMADstFormat_V11 \<equiv> DMADstFormat_V5"

definition TileDMASrc_V11 :: td_type where
  "TileDMASrc_V11 = Struct [
     Mem ''unk00'' U32, Mem ''RowStride'' U32, Mem ''PlaneStride'' U32,
     Mem ''DepthStride'' U32, Mem ''GroupStride'' U32, Mem ''unk14'' U32,
     Mem ''Fmt'' DMASrcFormat_V11]"

definition CommonHeader_V11 :: td_type where
  "CommonHeader_V11 = Struct [
     Anon [(''InDim_Win'', 0, 15), (''InDim_Hin'', 16, 15)], Anon [(''Cin_Cin'', 0, 17)],
     Anon [(''Cout_Cout'', 0, 17)], Anon [(''OutDim_Wout'', 0, 15), (''OutDim_Hout'', 16, 15)],
     Mem ''unk010'' U32, Mem ''unk014'' U32]"

definition L2Config_V11 :: td_type where
  "L2Config_V11 = Struct [
     Anon [(''SourceCfg_SourceType'', 0, 2), (''SourceCfg_Dependent'', 2, 2),
       (''SourceCfg_AliasConvSrc'', 4, 1), (''SourceCfg_AliasConvRslt'', 5, 1),
       (''SourceCfg_DMAFmt'', 6, 2), (''SourceCfg_DMAInterleave'', 8, 4),
       (''SourceCfg_DMACmpVec'', 12, 4), (''SourceCfg_DMAOffsetCh'', 16, 3),
       (''SourceCfg_AliasPlanarSrc'', 20, 1), (''SourceCfg_AliasPlanarRslt'', 22, 1)],
     Anon [(''SourceChannelStride_Stride'', 4, 17)], Anon [(''SourceRowStride_Stride'', 4, 17)],
     Mem ''unk_maybe_stride1'' U32, Mem ''unk_maybe_stride2'' U32,
     Anon [(''ResultCfg_ResultType'', 0, 2), (''ResultCfg_L2BfrMode'', 3, 1),
       (''ResultCfg_AliasConvSrc'', 4, 1), (''ResultCfg_AliasConvRslt'', 5, 1),
       (''ResultCfg_DMAFmt'', 6, 2), (''ResultCfg_DMAInterleave'', 8, 4),
       (''ResultCfg_DMACmpVec'', 12, 4), (''ResultCfg_DMAOffsetCh'', 16, 3),
       (''ResultCfg_AliasPlanarSrc'', 20, 1), (''ResultCfg_AliasPlanarRslt'', 22, 1)],
     Anon [(''ResultBase_Addr'', 4, 17)]]"

definition NEConfig_V11 :: td_type where
  "NEConfig_V11 = Struct [
     Anon [(''KernelCfg_KernelFmt'', 0, 2), (''KernelCfg_PalettizedEn'', 2, 1),
       (''KernelCfg_PalettizedBits'', 4, 4), (''KernelCfg_SparseFmt'', 8, 1),
       (''KernelCfg_GroupKernelReuse'', 10, 1)],
     Anon [(''MACCfg_OpMode'', 0, 3), (''MACCfg_KernelMode'', 3, 1),
       (''MACCfg_BiasMode'', 4, 1), (''MACCfg_MatrixBiasEn'', 6, 1),
       (''MACCfg_BinaryPoint'', 8, 5), (''MACCfg_PostScaleMode'', 14, 1),
       (''MACCfg_NonlinearMode'', 16, 2)],
     Anon [(''PostScale_PostScale'', 0, 16), (''PostScale_PostRightShift'', 16, 5)]]"

definition TileDMADst_V11 :: td_type where
  "TileDMADst_V11 = Struct [
     Mem ''unk00'' U32, Mem ''RowStride'' U32, Mem ''PlaneStride'' U32,
     Mem ''DepthStride'' U32, Mem ''GroupStride'' U32, Mem ''Fmt'' DMADstFormat_V11]"

definition TD_V11 :: td_type where
  "TD_V11 = Struct [
     Mem ''header'' TDHeader_V11, Mem ''unk028'' (Array U32 9), Mem ''common'' CommonHeader_V11,
     Mem ''unk064'' (Array U32 4), Mem ''tile_dma_src'' TileDMASrc_V11, Mem ''unk090'' U32,
     Mem ''l2_config'' L2Config_V11, Mem ''unk0B0'' U32, Mem ''ne_config'' NEConfig_V11,
     Mem ''unk0C0'' U32, Mem ''tile_dma_dst'' TileDMADst_V11, Mem ''unk0DC'' (Array U32 9)]"

end
