(* ===== verification/Td_Correct.thy ===== *)
theory Td_Correct
  imports Td_Layout Lib_Model
begin

text \<open>
  What holds of the task descriptors: reading and writing of their members, and \<open>set_nid\<close> of
  \<open>ane.c\<close>, which writes a member by hand.
\<close>

lemma td_ok_V5: "td_ok TD_V5"
  by code_simp

lemma td_ok_V7: "td_ok TD_V7"
  by code_simp

lemma td_ok_V11: "td_ok TD_V11"
  by code_simp

lemmas td_oks = td_ok_V5 td_ok_V7 td_ok_V11

lemmas td_layout_defs =
  TDHeader_V5_def CoeffDMAConfig_V5_def KernelDMASrc_V5_def CommonHeader_V5_def DMASrcConfig_V5_def
  DMASrcFormat_V5_def TileDMASrc_V5_def L2Config_V5_def NEConfig_V5_def DMADstConfig_V5_def
  DMADstFormat_V5_def TileDMADst_V5_def TD_V5_def
  TDHeader_V7_def TDCoeffDMAConfig_def KernelDMASrc_def TD_V7_def
  TDHeader_V11_def TDCoeffDMAConfig_V11_def TileDMASrc_V11_def CommonHeader_V11_def
  L2Config_V11_def NEConfig_V11_def TileDMADst_V11_def TD_V11_def

section \<open>Members\<close>

text \<open>C38: Any member of a descriptor of any of the three versions can be written: it then reads
  back the value, every other member keeps its value, the descriptor its length and every byte
  outside the member's word its contents; a value too large for the field is an assertion failure.\<close>
theorem td_member_roundtrip:
  assumes "t \<in> {TD_V5, TD_V7, TD_V11}" and "td_sizeof t \<le> length raw"
    and "td_leaf t path = Some (off, N, S)"
  shows "if bf_max S < x then td_put raw (off, N, S) x = None
    else \<exists>raw1. td_put raw (off, N, S) x = Some raw1 \<and> td_get raw1 (off, N, S) = Some x \<and>
      length raw1 = length raw \<and> take off raw1 = take off raw \<and> drop (off + 4) raw1 = drop (off + 4) raw \<and>
      (\<forall>path' l'. path' \<noteq> path \<and> td_leaf t path' = Some l' \<longrightarrow> td_get raw1 l' = td_get raw l')"
proof -
  have ok: "td_ok t" using assms(1) td_oks by blast
  note at = td_leaf_at [OF ok]
  have off: "off + 4 \<le> length raw" using at [OF assms(3)] assms(2) by (simp add: leaf_at_def)
  show ?thesis
  proof (cases "bf_max S < x")
    case True
    then show ?thesis by (cases "get_u32 raw off") (simp_all add: td_put_def bf_set_def)
  next
    case False
    then have "x \<le> bf_max (snd (snd (off, N, S)))" by simp
    from td_put_leaf [OF at [OF assms(3)] assms(2) this] obtain raw1
      where put: "td_put raw (off, N, S) x = Some raw1" and get: "td_get raw1 (off, N, S) = Some x"
        "length raw1 = length raw"
        "\<And>l'. leaf_at 0 (td_sizeof t) l' \<Longrightarrow> leaf_apart (off, N, S) l' \<Longrightarrow> td_get raw1 l' = td_get raw l'"
      by metis
    from put off have "take off raw1 = take off raw \<and> drop (off + 4) raw1 = drop (off + 4) raw"
      by (auto simp: td_put_def bind_eq_Some_conv mem_write_Some_iff min_def)
    with put get False at td_leaf_apart [OF ok assms(3)] show ?thesis
      by (simp (no_asm_simp)) metis
  qed
qed

text \<open>The network id of a descriptor of zeros: \<open>tid\<close> keeps its value.\<close>

theorem td_member_roundtrip_witness:
  "\<exists>raw1. td_put (replicate 0x274 0) (0, 16, 8) 0x40 = Some raw1 \<and> td_get raw1 (0, 16, 8) = Some 0x40 \<and>
     td_get raw1 (0, 0, 16) = td_get (replicate 0x274 0) (0, 0, 16)"
proof -
  have "td_leaf TD_V5 [''header'', ''nid''] = Some (0, 16, 8)" "td_leaf TD_V5 [''header'', ''tid''] = Some (0, 0, 16)"
    and "\<not> bf_max 8 < 0x40" and "td_sizeof TD_V5 \<le> length (replicate 0x274 (0 :: u8))"
    by code_simp+
  moreover have "[''header'', ''tid''] \<noteq> [''header'', ''nid'']" by simp
  ultimately show ?thesis
    using td_member_roundtrip [of TD_V5 "replicate 0x274 0" "[''header'', ''nid'']" 0 16 8 "0x40"]
    by (simp only: if_False insert_iff simp_thms) metis
qed

section \<open>The network id\<close>

lemma nid_leaf: "td_leaf TD_V5 [''header'', ''nid''] = Some (0, 16, 8)" "td_leaf TD_V7 [''header'', ''nid''] = Some (0, 16, 8)"
  by code_simp+

lemma leaves_from:
  "\<forall>l\<in>set (leaves off t). off \<le> fst (snd l)"
  "\<forall>l\<in>set (member_leaves off ms). off \<le> fst (snd l)"
proof (induction off t and off ms rule: leaves_member_leaves.induct)
  case (3 off t n)
  then show ?case by (force simp: set_under)
next
  case (7 off name t ms)
  then show ?case by (force simp: set_under)
qed (auto simp: bits_at_def)

lemma word0_leaves:
  assumes "(p, 0, N, S) \<in> set (leaves 0 (Struct (Mem n (Struct (Anon fs # ms)) # ms')))"
  shows "\<exists>name. (name, N, S) \<in> set fs"
  using assms by (auto simp: bits_at_def set_under dest!: bspec [OF leaves_from(2)])

lemma word0_bits:
  assumes "t \<in> {TD_V5, TD_V7}" and "(p, 0, N, S) \<in> set (leaves 0 t)"
  shows "N + S \<le> 28"
  using assms unfolding TD_V5_def TD_V7_def TDHeader_V5_def TDHeader_V7_def
  by (auto simp del: leaves.simps dest!: word0_leaves)

text \<open>\<open>set_nid\<close> and the assignment to the bit field agree on the bits that have names.\<close>

lemma set_nid_word:
  assumes "i < 28"
  shows "bit ((w AND 0xf00ffff) OR push_bit 16 (nid AND 0xff) :: u32) i \<longleftrightarrow>
    bit ((w AND NOT (bf_mask 16 8)) OR (push_bit 16 (nid AND 0xff) AND bf_mask 16 8)) i"
proof -
  have eqs: "(0xf00ffff :: u32) = mask 16 OR push_bit 24 (mask 4)" "(0xff :: u32) = mask 8"
    by (simp_all add: mask_eq_exp_minus_1)
  have "bf_ok 16 8" by (simp add: bf_ok_def)
  with assms show ?thesis unfolding eqs by (auto simp: bit_simps bit_bf_mask)
qed

text \<open>\<open>set_nid\<close>, which patches the first word of a descriptor with constants of its own, is
  the assignment of the low eight bits to the member \<open>header.nid\<close> of the descriptors of
  versions 5 and 7: every member reads the same after either, and so do all later bytes.\<close>
theorem set_nid_is_member:
  assumes "t \<in> {TD_V5, TD_V7}" and "td_sizeof t \<le> length raw"
  shows "\<exists>l raw1 raw2. td_leaf t [''header'', ''nid''] = Some l \<and>
    td_put raw l (nid AND 0xff) = Some raw1 \<and> set_nid raw nid = Some raw2 \<and>
    td_get raw2 l = Some (nid AND 0xff) \<and> drop 4 raw2 = drop 4 raw1 \<and>
    (\<forall>path l'. td_leaf t path = Some l' \<longrightarrow> td_get raw2 l' = td_get raw1 l')"
proof -
  let ?l = "(0, 16, 8)" and ?x = "nid AND 0xff"
  have ok: "td_ok t" and l: "td_leaf t [''header'', ''nid''] = Some ?l"
    using assms(1) td_oks nid_leaf by auto
  have len: "4 \<le> length raw" using td_leaf_at [OF ok l] assms(2) by (simp add: leaf_at_def)
  from set_nid_ok [OF len, of nid] obtain w where w: "get_u32 raw 0 = Some w"
    and raw2: "set_nid raw nid = Some (le32 ((w AND 0xf00ffff) OR push_bit 16 ?x) @ drop 4 raw)"
    by metis
  define w1 where "w1 = (w AND NOT (bf_mask 16 8)) OR (push_bit 16 ?x AND bf_mask 16 8)"
  define w2 where "w2 = (w AND 0xf00ffff) OR push_bit 16 ?x"
  have x: "\<not> bf_max 8 < ?x" by (simp add: bf_max_eq mask_eq_exp_minus_1 not_less word_and_le1)
  then have raw1: "td_put raw ?l ?x = Some (le32 w1 @ drop 4 raw)"
    using len by (simp add: td_put_def w bf_set_def w1_def mem_write_def)
  have same: "td_get (le32 w2 @ drop 4 raw) l' = td_get (le32 w1 @ drop 4 raw) l'"
    if l': "td_leaf t path = Some l'" for path l'
  proof -
    obtain off N S where eq: "l' = (off, N, S)" by (cases l')
    have "4 dvd off" "bf_ok N S" using td_leaf_at [OF ok l'] by (auto simp: eq leaf_at_def)
    have bound: "off = 0 \<longrightarrow> N + S \<le> 28"
      using l' word0_bits [OF assms(1)] by (auto simp: td_leaf_def eq dest!: map_of_SomeD)
    show ?thesis
    proof (cases "off = 0")
      case True
      have "bit w2 i = bit w1 i" if "i < 28" for i
        unfolding w1_def w2_def by (rule set_nid_word [OF that])
      with bound True have "bf_get N S w2 = bf_get N S w1"
        using \<open>bf_ok N S\<close> by (intro bf_get_other) auto
      then show ?thesis by (simp add: td_get_def eq True get_u32_exact)
    next
      case False
      with \<open>4 dvd off\<close> have "4 \<le> off" by (auto elim!: dvdE)
      then show ?thesis by (simp add: td_get_def eq get_u32_def mem_read_append_right)
    qed
  qed
  have "?x \<le> bf_max (snd (snd ?l))" using x by simp
  from td_put_leaf [OF td_leaf_at [OF ok l] assms(2) this] raw1
  have "td_get (le32 w1 @ drop 4 raw) ?l = Some ?x" by (metis option.inject)
  with same [OF l] l raw1 raw2 same show ?thesis unfolding w2_def by auto
qed

text \<open>An id of more than eight bits loses the upper ones.\<close>

theorem set_nid_is_member_witness:
  "\<exists>raw2. set_nid (replicate 0x274 0) 0x140 = Some raw2 \<and> td_get raw2 (0, 16, 8) = Some 0x40"
proof -
  have "td_sizeof TD_V5 \<le> length (replicate 0x274 (0 :: u8))" by code_simp
  then obtain l raw2 where "td_leaf TD_V5 [''header'', ''nid''] = Some l"
    "set_nid (replicate 0x274 0) 0x140 = Some raw2" "td_get raw2 l = Some (0x140 AND 0xff)"
    using set_nid_is_member [of TD_V5 "replicate 0x274 0" "0x140"] by auto
  with nid_leaf(1) show ?thesis by simp
qed

end
