(* ===== verification/Td_Bitfield.thy ===== *)
theory Td_Bitfield
  imports Td_Type
begin

text \<open>
  The rest of the template \<open>Bitfield<T, N, S>\<close> of \<open>src/src/libane/bitfield.h\<close>: adding and
  subtracting, the aliases \<open>Bitrange\<close> and \<open>Bit\<close>, and a signed 32-bit \<open>T\<close>, whose fields are in
  two's complement. Shifts of signed integers are those of C++20.
\<close>

section \<open>Arithmetic\<close>

text \<open>\<open>operator+=\<close> and \<open>operator-=\<close>: read, add in \<open>T\<close>, and write, which checks the result.\<close>

definition bf_add :: "nat \<Rightarrow> nat \<Rightarrow> u32 \<Rightarrow> u32 \<Rightarrow> u32 option" where
  "bf_add N S rhs data = bf_set N S (bf_get N S data + rhs) data"

definition bf_sub :: "nat \<Rightarrow> nat \<Rightarrow> u32 \<Rightarrow> u32 \<Rightarrow> u32 option" where
  "bf_sub N S rhs data = bf_set N S (bf_get N S data - rhs) data"

lemma bf_set_defined: "bf_set N S x data \<noteq> None \<longleftrightarrow> x \<le> bf_max S"
  by (auto simp: bf_set_def not_less [symmetric])

text \<open>A sum that fits is read back, and subtracting undoes it, all other bits included.\<close>

lemma bf_add_sub:
  assumes ok: "bf_ok N S" and fits: "bf_get N S data + rhs \<le> bf_max S"
  shows "\<exists>data1. bf_add N S rhs data = Some data1 \<and> bf_get N S data1 = bf_get N S data + rhs \<and>
    bf_sub N S rhs data1 = Some data"
proof -
  obtain d where d: "bf_add N S rhs data = Some d" "bf_get N S d = bf_get N S data + rhs"
    "\<And>i. \<not> (N \<le> i \<and> i < N + S) \<Longrightarrow> bit d i = bit data i"
    using bf_set_get [OF ok fits] unfolding bf_add_def by blast
  obtain e where e: "bf_sub N S rhs d = Some e" "bf_get N S e = bf_get N S data"
    "\<And>i. \<not> (N \<le> i \<and> i < N + S) \<Longrightarrow> bit e i = bit d i"
    using bf_set_get [OF ok bf_get_le_max [OF ok], of data d] d(2) unfolding bf_sub_def by auto
  have "e = data"
  proof (rule bit_word_eqI)
    fix i
    show "bit e i = bit data i"
    proof (cases "N \<le> i \<and> i < N + S")
      case True
      then have i: "i - N < S" "N + (i - N) = i" by auto
      have "bit (bf_get N S e) (i - N) = bit (bf_get N S data) (i - N)" by (simp add: e(2))
      with i show ?thesis by (simp only: bit_bf_get [OF ok] simp_thms)
    next
      case False
      with d(3) e(3) show ?thesis by blast
    qed
  qed
  with d e show ?thesis by blast
qed

section \<open>Aliases\<close>

definition bitrange_len :: "nat \<Rightarrow> nat \<Rightarrow> nat" where
  "bitrange_len S E = E - S + 1"

abbreviation bitrange_get :: "nat \<Rightarrow> nat \<Rightarrow> u32 \<Rightarrow> u32" where
  "bitrange_get S E \<equiv> bf_get S (bitrange_len S E)"

definition bit_len :: nat where
  "bit_len = 1"

lemma bitrange_bits:
  assumes "S \<le> E" and "E < 32"
  shows "bf_ok S (bitrange_len S E)"
    and "bit (bitrange_get S E data) i \<longleftrightarrow> S + i \<le> E \<and> bit data (S + i)"
proof -
  show ok: "bf_ok S (bitrange_len S E)" using assms by (simp add: bf_ok_def bitrange_len_def)
  show "bit (bitrange_get S E data) i \<longleftrightarrow> S + i \<le> E \<and> bit data (S + i)"
    using assms unfolding bit_bf_get [OF ok] by (auto simp: bitrange_len_def)
qed

lemma bit_field:
  assumes "N < 32" shows "bf_get N bit_len data = of_bool (bit data N)"
  by (rule bit_word_eqI) (use assms in \<open>auto simp: bit_bf_get bf_ok_def bit_len_def bit_simps\<close>)

section \<open>Signed fields\<close>

definition sbf_max :: "nat \<Rightarrow> 32 word" where
  "sbf_max S = signed_drop_bit (32 - S) 0x7fffffff"

definition sbf_min :: "nat \<Rightarrow> 32 word" where
  "sbf_min S = signed_drop_bit (32 - S) 0x80000000"

definition sbf_get :: "nat \<Rightarrow> nat \<Rightarrow> 32 word \<Rightarrow> 32 word" where
  "sbf_get N S data = signed_drop_bit (32 - S) (push_bit (32 - S - N) (data AND bf_mask N S))"

definition sbf_set :: "nat \<Rightarrow> nat \<Rightarrow> 32 word \<Rightarrow> 32 word \<Rightarrow> 32 word option" where
  "sbf_set N S x data =
     (if x <s sbf_min S \<or> sbf_max S <s x then None
      else Some ((data AND NOT (bf_mask N S)) OR (push_bit N x AND bf_mask N S)))"

text \<open>A signed field has more than one bit.\<close>

definition sbf_ok :: "nat \<Rightarrow> nat \<Rightarrow> bool" where
  "sbf_ok N S \<longleftrightarrow> bf_ok N S \<and> 1 < S"

lemma drop_pow:
  fixes S :: nat
  assumes "0 < S" and "S \<le> 32"
  shows "(2 :: int) ^ 31 = 2 ^ (32 - S) * 2 ^ (S - 1)"
proof -
  have "(32 - S) + (S - 1) = 31" using assms by linarith
  then show ?thesis by (metis power_add)
qed

lemma sbf_bounds:
  assumes "0 < S" and "S \<le> 32"
  shows "sint (sbf_max S) = 2 ^ (S - 1) - 1" and "sint (sbf_min S) = - (2 ^ (S - 1))"
proof -
  note p = drop_pow [OF assms]
  have m: "sint (0x7fffffff :: 32 word) = 2 ^ 31 - 1" "sint (0x80000000 :: 32 word) = - (2 ^ 31)" by simp_all
  have "(2 ^ 31 - 1) div 2 ^ (32 - S) = (2 ^ (S - 1) :: int) - 1"
  proof -
    have "(2 :: int) ^ 31 - 1 = (2 ^ (32 - S) - 1) + 2 ^ (32 - S) * (2 ^ (S - 1) - 1)"
      unfolding p by (simp add: algebra_simps)
    also have "\<dots> div 2 ^ (32 - S) = 2 ^ (S - 1) - 1" by (simp add: div_pos_pos_trivial)
    finally show ?thesis .
  qed
  then show "sint (sbf_max S) = 2 ^ (S - 1) - 1"
    unfolding sbf_max_def sint_signed_drop_bit_eq m drop_bit_eq_div .
  have "- (2 ^ 31) div 2 ^ (32 - S) = - (2 ^ (S - 1) :: int)"
    unfolding p by (simp add: mult_minus_right [symmetric] del: mult_minus_right)
  then show "sint (sbf_min S) = - (2 ^ (S - 1))"
    unfolding sbf_min_def sint_signed_drop_bit_eq m drop_bit_eq_div .
qed

text \<open>What is in range is written and reads back with its sign; all else fails the assertion.\<close>

lemma sbf_set_defined:
  assumes "sbf_ok N S"
  shows "sbf_set N S x data \<noteq> None \<longleftrightarrow> - (2 ^ (S - 1)) \<le> sint x \<and> sint x < 2 ^ (S - 1)"
  using assms sbf_bounds [of S] by (auto simp: sbf_set_def sbf_ok_def bf_ok_def word_sless_alt)

lemma bit_sbf_get:
  assumes "bf_ok N S"
  shows "bit (sbf_get N S data) i \<longleftrightarrow> i < 32 \<and> bit data (N + min i (S - 1))"
  using assms
  by (auto simp: sbf_get_def bit_signed_drop_bit_iff bit_simps bit_bf_mask bf_ok_def min_def le_diff_conv add.commute)

lemma sbf_set_get:
  assumes ok: "sbf_ok N S" and x: "- (2 ^ (S - 1)) \<le> sint x" "sint x < 2 ^ (S - 1)"
  shows "\<exists>data1. sbf_set N S x data = Some data1 \<and> sbf_get N S data1 = x \<and>
    (\<forall>i. \<not> (N \<le> i \<and> i < N + S) \<longrightarrow> bit data1 i = bit data i)"
proof -
  let ?d = "(data AND NOT (bf_mask N S)) OR (push_bit N x AND bf_mask N S)"
  have b: "bf_ok N S" "0 < S" "N + S \<le> 32" using ok by (simp_all add: sbf_ok_def bf_ok_def)
  have d: "bit ?d i \<longleftrightarrow> (if N \<le> i \<and> i < N + S then bit x (i - N) else bit data i)" for i
    using b by (auto simp: bit_simps bit_bf_mask dest: bit_imp_le_length)
  have sign: "bit x i = bit x (min i (S - 1))" if "i < 32" for i
  proof -
    have "signed_take_bit (S - 1) (sint x) = sint x" by (rule signed_take_bit_int_eq_self [OF x])
    then have "bit (sint x) i = bit (sint x) (min (S - 1) i)"
      using bit_signed_take_bit_iff [of "S - 1" "sint x" i] by simp
    moreover have "bit (sint x) j = bit x j" if "j < 32" for j
      using that by (simp add: bit_sint_iff)
    ultimately show ?thesis using that b by (simp add: min.commute)
  qed
  have "sbf_get N S ?d = x"
  proof (rule bit_word_eqI)
    fix i assume "i < LENGTH(32)"
    then have i: "i < 32" by simp
    have "bit (sbf_get N S ?d) i = bit ?d (N + min i (S - 1))" using bit_sbf_get [OF b(1)] i by blast
    also have "\<dots> = bit x (min i (S - 1))" using d [of "N + min i (S - 1)"] b by auto
    finally show "bit (sbf_get N S ?d) i = bit x i" using sign [OF i] by simp
  qed
  moreover have "sbf_set N S x data = Some ?d"
    using sbf_set_defined [OF ok, of x data] x by (auto simp: sbf_set_def split: if_splits)
  ultimately show ?thesis using d by auto
qed

text \<open>\<open>operator+=\<close> and \<open>operator-=\<close> of a signed field; a sum that leaves \<open>T\<close> has no value.\<close>

definition sbf_add :: "nat \<Rightarrow> nat \<Rightarrow> 32 word \<Rightarrow> 32 word \<Rightarrow> 32 word option" where
  "sbf_add N S rhs data = (let old = sbf_get N S data in
     if sint (old + rhs) = sint old + sint rhs then sbf_set N S (old + rhs) data else None)"

definition sbf_sub :: "nat \<Rightarrow> nat \<Rightarrow> 32 word \<Rightarrow> 32 word \<Rightarrow> 32 word option" where
  "sbf_sub N S rhs data = (let old = sbf_get N S data in
     if sint (old - rhs) = sint old - sint rhs then sbf_set N S (old - rhs) data else None)"

lemma sbf_add_value:
  assumes "sbf_ok N S" and "sbf_add N S rhs data = Some data1"
  shows "sint (sbf_get N S data1) = sint (sbf_get N S data) + sint rhs"
proof -
  let ?x = "sbf_get N S data + rhs"
  have x: "sint ?x = sint (sbf_get N S data) + sint rhs" "sbf_set N S ?x data = Some data1"
    using assms(2) by (auto simp: sbf_add_def Let_def split: if_splits)
  then have "sbf_get N S data1 = ?x"
    using sbf_set_defined [OF assms(1), of ?x data] sbf_set_get [OF assms(1), of ?x data] by auto
  with x(1) show ?thesis by simp
qed

lemma sbf_sub_value:
  assumes "sbf_ok N S" and "sbf_sub N S rhs data = Some data1"
  shows "sint (sbf_get N S data1) = sint (sbf_get N S data) - sint rhs"
proof -
  let ?x = "sbf_get N S data - rhs"
  have x: "sint ?x = sint (sbf_get N S data) - sint rhs" "sbf_set N S ?x data = Some data1"
    using assms(2) by (auto simp: sbf_sub_def Let_def split: if_splits)
  then have "sbf_get N S data1 = ?x"
    using sbf_set_defined [OF assms(1), of ?x data] sbf_set_get [OF assms(1), of ?x data] by auto
  with x(1) show ?thesis by simp
qed

end
