(* ===== verification/Dis_Text.thy ===== *)
theory Dis_Text
  imports Ane_Prelude
begin

text \<open>
  The text the disassembler \<open>src/tools/ane-disasm\<close> prints: the formats of \<open>std::format\<close> it
  uses, \<open>dump.cpp\<close>, and output as the list of the prints in their order.
\<close>

datatype out = Stdout string | Stderr string

definition newline :: string where
  "newline = [char_of (10 :: nat)]"

definition println :: "string \<Rightarrow> out" where
  "println s = Stdout (s @ newline)"

definition eprintln :: "string \<Rightarrow> out" where
  "eprintln s = Stderr (s @ newline)"

section \<open>Numbers\<close>

text \<open>\<open>{:X}\<close>: upper case, without leading zeros.\<close>

definition hex_digit :: "nat \<Rightarrow> char" where
  "hex_digit d = (if d < 10 then char_of (48 + d) else char_of (55 + d))"

fun hexadecimal :: "nat \<Rightarrow> string" where
  "hexadecimal n = (if n < 16 then [hex_digit n] else hexadecimal (n div 16) @ [hex_digit (n mod 16)])"

declare hexadecimal.simps [simp del]

text \<open>\<open>{:0wX}\<close> and \<open>{:w}\<close>\<close>

definition pad :: "char \<Rightarrow> nat \<Rightarrow> string \<Rightarrow> string" where
  "pad c w s = replicate (w - length s) c @ s"

definition hex :: "u64 \<Rightarrow> string" where
  "hex x = ''0x'' @ hexadecimal (unat x)"

text \<open>What is printed can be read back.\<close>

definition unhex_digit :: "char \<Rightarrow> nat" where
  "unhex_digit c = (let n = of_char c in if n < 58 then n - 48 else n - 55)"

definition unhexadecimal :: "string \<Rightarrow> nat" where
  "unhexadecimal cs = foldl (\<lambda>n c. 16 * n + unhex_digit c) 0 cs"

lemma unhex_hex_digit: "d < 16 \<Longrightarrow> unhex_digit (hex_digit d) = d"
  by (auto simp: unhex_digit_def hex_digit_def of_char_of Let_def)

lemma unhexadecimal_hexadecimal: "unhexadecimal (hexadecimal n) = n"
proof (induction n rule: hexadecimal.induct)
  case (1 n)
  show ?case
  proof (cases "n < 16")
    case True
    then show ?thesis by (subst hexadecimal.simps) (simp add: unhexadecimal_def unhex_hex_digit)
  next
    case False
    with 1 show ?thesis by (subst hexadecimal.simps) (simp add: unhexadecimal_def unhex_hex_digit)
  qed
qed

lemma hexadecimal_inject: "hexadecimal m = hexadecimal n \<longleftrightarrow> m = n"
  by (metis unhexadecimal_hexadecimal)

section \<open>Sequences of prints\<close>

text \<open>The prints of several steps, in order; a step without result has no continuation.\<close>

fun sequence :: "'a list option list \<Rightarrow> 'a list option" where
  "sequence [] = Some []"
| "sequence (x # xs) = do { ys \<leftarrow> x; zs \<leftarrow> sequence xs; Some (ys @ zs) }"

lemma sequence_Some_iff: "(\<exists>ys. sequence xs = Some ys) \<longleftrightarrow> None \<notin> set xs"
proof (induction xs)
  case (Cons x xs)
  then show ?case by (cases x) (auto simp: bind_eq_Some_conv)
qed simp

lemma sequence_map_Some: "(\<And>x. x \<in> set xs \<Longrightarrow> f x = Some (g x)) \<Longrightarrow>
    sequence (map f xs) = Some (concat (map g xs))"
  by (induction xs) auto

end
