(* ===== verification/Dis_Td.thy ===== *)
theory Dis_Td
  imports Dis_Text Td_Layout Hwx_Query
begin

text \<open>
  The dumpers of task descriptors, \<open>dump.h\<close>, \<open>dump_td_v5.cpp\<close> and \<open>dump_td_v11.cpp\<close> under
  \<open>src/tools/ane-disasm\<close>. The prints of a dumper are a table, in the order of the source; the
  functions around the tables differ in the type and the name of the descriptor only.
\<close>

section \<open>Fields\<close>

text \<open>The two formats \<open>0x{:X}\<close> and \<open>{:d}\<close>, the only ones used.\<close>

datatype td_fmt = Hex | Dec

fun vformat :: "td_fmt \<Rightarrow> u32 \<Rightarrow> string" where
  "vformat Hex x = ''0x'' @ hexadecimal (unat x)"
| "vformat Dec x = decimal (unat x)"

definition print_td_field :: "string \<Rightarrow> u32 \<Rightarrow> td_fmt \<Rightarrow> out" where
  "print_td_field field_name x fmt = Stdout (''      '' @ field_name @ '' = '' @ vformat fmt x @ newline)"

definition print_td_enable_field :: "string \<Rightarrow> u32 \<Rightarrow> u32 \<Rightarrow> out" where
  "print_td_enable_field field_name base enable =
     (if enable \<noteq> 0
      then Stdout (''      '' @ field_name @ '' = Enabled (base='' @ decimal (unat base) @ '')'' @ newline)
      else Stdout (''      '' @ field_name @ '' = Disabled'' @ newline))"

text \<open>A member of the descriptor in \<open>raw\<close>; its name in the source has the parts of its path
  separated by dots.\<close>

fun split_dots :: "string \<Rightarrow> string list" where
  "split_dots [] = [[]]"
| "split_dots (c # cs) = (if c = CHR ''.'' then [] # split_dots cs
     else (case split_dots cs of [] \<Rightarrow> [[c]] | p # ps \<Rightarrow> (c # p) # ps))"

definition member :: "td_type \<Rightarrow> bytes \<Rightarrow> string list \<Rightarrow> u32 option" where
  "member t raw path = do { l \<leftarrow> td_leaf t path; td_get raw l }"

text \<open>\<open>PRINT(scope, field, fmt)\<close>, \<open>print_td_enable_field(name, scope.base, scope.enable)\<close>, the
  heading of a block, and the call of \<open>dump_kernel_dma\<close>.\<close>

datatype td_item =
  Heading string
| Field string string td_fmt
| Enable string string string string
| Kernel_Dma

section \<open>Kernel DMA\<close>

definition coeff_line :: "nat \<Rightarrow> string \<Rightarrow> out" where
  "coeff_line i line = println (''    coeff['' @ decimal i @ '']  = '' @ line)"

definition coeff_enabled :: "u32 \<Rightarrow> u32 \<Rightarrow> string" where
  "coeff_enabled base sz =
     ''Enabled (base: 0x'' @ hexadecimal (unat base) @ '', size: 0x'' @ hexadecimal (unat sz) @ '')''"

definition coeff_config :: "u32 \<Rightarrow> u32 \<Rightarrow> u32 \<Rightarrow> out list" where
  "coeff_config cr_h cache_hint prefetch =
     [println (''      cr_h                  = '' @ decimal (unat cr_h)),
      println (''      cache_hint            = '' @ decimal (unat cache_hint)),
      println (''      prefetch_participate  = '' @ decimal (unat prefetch))]"

definition dump_coeff :: "td_type \<Rightarrow> bytes \<Rightarrow> nat \<Rightarrow> out list option" where
  "dump_coeff t raw i = do {
     let config = (\<lambda>name. member t raw [''kernel_dma_src'', ''coeff_dma_config'', decimal i, name]);
     en \<leftarrow> config ''en'';
     base \<leftarrow> member t raw [''kernel_dma_src'', ''coeff_addr'', decimal i];
     sz \<leftarrow> member t raw [''kernel_dma_src'', ''coeff_size'', decimal i];
     if en = 0 then Some [coeff_line i ''Disabled'']
     else do {
       cr_h \<leftarrow> config ''cr_h'';
       cache_hint \<leftarrow> config ''cache_hint'';
       prefetch \<leftarrow> config ''prefetch_participate_en'';
       Some (coeff_line i (coeff_enabled base sz) # coeff_config cr_h cache_hint prefetch) } }"

definition dump_kernel_dma :: "td_type \<Rightarrow> bytes \<Rightarrow> out list option" where
  "dump_kernel_dma t raw = do {
     coeffs \<leftarrow> sequence (map (dump_coeff t raw) [0..<16]);
     Some (println (newline @ ''  Kernel DMA Sources'') # coeffs) }"

definition dump_item :: "td_type \<Rightarrow> bytes \<Rightarrow> td_item \<Rightarrow> out list option" where
  "dump_item t raw item = (case item of
     Heading name \<Rightarrow> Some [println (newline @ ''  '' @ name)]
   | Field scope field fmt \<Rightarrow> do {
       x \<leftarrow> member t raw (scope # split_dots field);
       Some [print_td_field field x fmt] }
   | Enable name scope base enable \<Rightarrow> do {
       b \<leftarrow> member t raw [scope, base];
       e \<leftarrow> member t raw [scope, enable];
       Some [print_td_enable_field name b e] }
   | Kernel_Dma \<Rightarrow> dump_kernel_dma t raw)"

definition dump_items :: "td_type \<Rightarrow> td_item list \<Rightarrow> bytes \<Rightarrow> out list option" where
  "dump_items t items raw = sequence (map (dump_item t raw) items)"

section \<open>The tables\<close>

subsection \<open>Version 5\<close>

definition td_v5_header :: "td_item list" where
  "td_v5_header = [
    Heading ''Header'', Field ''header'' ''tid'' Hex, Field ''header'' ''nid'' Hex,
    Field ''header'' ''lnid'' Dec, Field ''header'' ''eon'' Dec, Field ''header'' ''exe_cycles'' Dec,
    Field ''header'' ''next_size'' Dec, Field ''header'' ''log_events'' Hex,
    Field ''header'' ''exceptions'' Hex, Field ''header'' ''debug_log_events'' Hex,
    Field ''header'' ''debug_exceptions'' Hex, Field ''header'' ''disallow_abort'' Dec,
    Field ''header'' ''td_skip'' Dec, Field ''header'' ''kpc'' Dec, Field ''header'' ''spl'' Dec,
    Field ''header'' ''tsr'' Dec, Field ''header'' ''spc'' Dec, Field ''header'' ''dpc'' Dec,
    Field ''header'' ''tse'' Dec, Field ''header'' ''next_priority'' Dec, Field ''header'' ''tde'' Dec,
    Field ''header'' ''src_loc'' Dec, Field ''header'' ''dst_loc'' Dec,
    Field ''header'' ''tq_dis'' Dec, Field ''header'' ''next_pointer'' Hex,
    Enable ''r0'' ''header'' ''rbase0'' ''rbe0'', Enable ''r1'' ''header'' ''rbase1'' ''rbe1'',
    Enable ''w'' ''header'' ''wbase'' ''wbe'', Enable ''t'' ''header'' ''tbase'' ''tbe'',
    Field ''header'' ''ene'' Dec, Enable ''k0'' ''header'' ''kbase0'' ''kbe0'',
    Enable ''k1'' ''header'' ''kbase1'' ''kbe1'', Enable ''k2'' ''header'' ''kbase2'' ''kbe2'',
    Enable ''k3'' ''header'' ''kbase3'' ''kbe3'']"

definition td_v5_common :: "td_item list" where
  "td_v5_common = [
    Heading ''Common Header'', Field ''common'' ''InDim_Win'' Dec, Field ''common'' ''InDim_Hin'' Dec,
    Field ''common'' ''unk004'' Hex, Field ''common'' ''ChCfg_InFmt'' Dec,
    Field ''common'' ''ChCfg_OutFmt'' Dec, Field ''common'' ''Cin_Cin'' Dec,
    Field ''common'' ''Cout_Cout'' Dec, Field ''common'' ''OutDim_Wout'' Dec,
    Field ''common'' ''OutDim_Hout'' Dec, Field ''common'' ''unk018'' Hex,
    Field ''common'' ''ConvCfg_Kw'' Dec, Field ''common'' ''ConvCfg_Kh'' Dec,
    Field ''common'' ''ConvCfg_OCGSize'' Dec, Field ''common'' ''ConvCfg_Sx'' Dec,
    Field ''common'' ''ConvCfg_Sy'' Dec, Field ''common'' ''ConvCfg_Px'' Dec,
    Field ''common'' ''ConvCfg_Py'' Dec, Field ''common'' ''ConvCfg_Ox'' Dec,
    Field ''common'' ''ConvCfg_Oy'' Dec, Field ''common'' ''unk020'' Hex,
    Field ''common'' ''GroupConvCfg_NumGroups'' Dec, Field ''common'' ''GroupConvCfg_UnicastEn'' Dec,
    Field ''common'' ''GroupConvCfg_ElemMultMode'' Dec,
    Field ''common'' ''GroupConvCfg_UnicastCin'' Dec, Field ''common'' ''TileCfg_TileHeight'' Dec,
    Field ''common'' ''unk02C'' Hex, Field ''common'' ''unk030'' Hex,
    Field ''common'' ''Cfg_SmallSourceMode'' Dec, Field ''common'' ''Cfg_ShPref'' Dec,
    Field ''common'' ''Cfg_ShMin'' Dec, Field ''common'' ''Cfg_ShMax'' Dec,
    Field ''common'' ''Cfg_ActiveNE'' Dec, Field ''common'' ''Cfg_ContextSwitchIn'' Dec,
    Field ''common'' ''Cfg_ContextSwitchOut'' Dec, Field ''common'' ''Cfg_AccDoubleBufEn'' Dec,
    Field ''common'' ''TaskInfo_TaskID'' Dec, Field ''common'' ''TaskInfo_TaskQ'' Dec,
    Field ''common'' ''TaskInfo_NID'' Dec, Field ''common'' ''DPE_Category'' Dec]"

definition td_v5_tile_dma_src :: "td_item list" where
  "td_v5_tile_dma_src = [
    Heading ''Tile DMA Source'', Field ''tile_dma_src'' ''DMAConfig.en'' Dec,
    Field ''tile_dma_src'' ''DMAConfig.cr_h'' Dec, Field ''tile_dma_src'' ''DMAConfig.cache_hint'' Dec,
    Field ''tile_dma_src'' ''DMAConfig.cache_hint_reuse'' Dec,
    Field ''tile_dma_src'' ''DMAConfig.cache_hint_noreuse'' Dec,
    Field ''tile_dma_src'' ''DMAConfig.dependency_mode'' Dec, Field ''tile_dma_src'' ''unk04'' Hex,
    Field ''tile_dma_src'' ''BaseAddr'' Hex, Field ''tile_dma_src'' ''RowStride'' Dec,
    Field ''tile_dma_src'' ''PlaneStride'' Dec, Field ''tile_dma_src'' ''DepthStride'' Dec,
    Field ''tile_dma_src'' ''GroupStride'' Dec, Field ''tile_dma_src'' ''Fmt.FmtMode'' Dec,
    Field ''tile_dma_src'' ''Fmt.Truncate'' Dec, Field ''tile_dma_src'' ''Fmt.Shift'' Dec,
    Field ''tile_dma_src'' ''Fmt.MemFmt'' Dec, Field ''tile_dma_src'' ''Fmt.OffsetCh'' Dec,
    Field ''tile_dma_src'' ''Fmt.Interleave'' Dec, Field ''tile_dma_src'' ''Fmt.CmpVec'' Dec]"

definition td_v5_l2_config :: "td_item list" where
  "td_v5_l2_config = [
    Heading ''L2 Config'', Field ''l2_config'' ''L2Cfg_InputReLU'' Dec,
    Field ''l2_config'' ''L2Cfg_PaddingMode'' Dec, Field ''l2_config'' ''SourceCfg_SourceType'' Dec,
    Field ''l2_config'' ''SourceCfg_Dependent'' Dec,
    Field ''l2_config'' ''SourceCfg_AliasConvSrc'' Dec,
    Field ''l2_config'' ''SourceCfg_AliasConvRslt'' Dec, Field ''l2_config'' ''SourceCfg_DMAFmt'' Dec,
    Field ''l2_config'' ''SourceCfg_DMAInterleave'' Dec,
    Field ''l2_config'' ''SourceCfg_DMACmpVec'' Dec, Field ''l2_config'' ''SourceCfg_DMAOffsetCh'' Dec,
    Field ''l2_config'' ''SourceCfg_AliasPlanarSrc'' Dec,
    Field ''l2_config'' ''SourceCfg_AliasPlanarRslt'' Dec, Field ''l2_config'' ''SourceBase_Addr'' Hex,
    Field ''l2_config'' ''SourceChannelStride_Stride'' Hex,
    Field ''l2_config'' ''SourceRowStride_Stride'' Hex, Field ''l2_config'' ''unk_maybe_stride1'' Hex,
    Field ''l2_config'' ''unk_maybe_stride2'' Hex, Field ''l2_config'' ''unk01C'' Hex,
    Field ''l2_config'' ''unk020'' Hex, Field ''l2_config'' ''unk024'' Hex,
    Field ''l2_config'' ''unk028'' Hex, Field ''l2_config'' ''unk02C'' Hex,
    Field ''l2_config'' ''ResultCfg_ResultType'' Dec, Field ''l2_config'' ''ResultCfg_L2BfrMode'' Dec,
    Field ''l2_config'' ''ResultCfg_AliasConvSrc'' Dec,
    Field ''l2_config'' ''ResultCfg_AliasConvRslt'' Dec, Field ''l2_config'' ''ResultCfg_DMAFmt'' Dec,
    Field ''l2_config'' ''ResultCfg_DMAInterleave'' Dec,
    Field ''l2_config'' ''ResultCfg_DMACmpVec'' Dec, Field ''l2_config'' ''ResultCfg_DMAOffsetCh'' Dec,
    Field ''l2_config'' ''ResultCfg_AliasPlanarSrc'' Dec,
    Field ''l2_config'' ''ResultCfg_AliasPlanarRslt'' Dec, Field ''l2_config'' ''ResultBase_Addr'' Hex,
    Field ''l2_config'' ''ConvResultChannelStride_Stride'' Hex,
    Field ''l2_config'' ''ConvResultRowStride_Stride'' Hex]"

definition td_v5_ne_config :: "td_item list" where
  "td_v5_ne_config = [
    Heading ''NE Config'', Field ''ne_config'' ''KernelCfg_KernelFmt'' Dec,
    Field ''ne_config'' ''KernelCfg_PalettizedEn'' Dec,
    Field ''ne_config'' ''KernelCfg_PalettizedBits'' Dec,
    Field ''ne_config'' ''KernelCfg_SparseFmt'' Dec,
    Field ''ne_config'' ''KernelCfg_GroupKernelReuse'' Dec, Field ''ne_config'' ''MACCfg_OpMode'' Dec,
    Field ''ne_config'' ''MACCfg_KernelMode'' Dec, Field ''ne_config'' ''MACCfg_BiasMode'' Dec,
    Field ''ne_config'' ''MACCfg_MatrixBiasEn'' Dec, Field ''ne_config'' ''MACCfg_BinaryPoint'' Dec,
    Field ''ne_config'' ''MACCfg_PostScaleMode'' Dec, Field ''ne_config'' ''MACCfg_NonlinearMode'' Dec,
    Field ''ne_config'' ''MatrixVectorBias_MatrixVectorBias'' Dec,
    Field ''ne_config'' ''AccBias_AccBias'' Dec, Field ''ne_config'' ''AccBias_AccBiasShift'' Dec,
    Field ''ne_config'' ''PostScale_PostScale'' Dec,
    Field ''ne_config'' ''PostScale_PostRightShift'' Dec]"

definition td_v5_tile_dma_dst :: "td_item list" where
  "td_v5_tile_dma_dst = [
    Heading ''Tile DMA Dest'', Field ''tile_dma_dst'' ''DMAConfig.en'' Dec,
    Field ''tile_dma_dst'' ''DMAConfig.cr_h'' Dec, Field ''tile_dma_dst'' ''DMAConfig.cache_hint'' Dec,
    Field ''tile_dma_dst'' ''DMAConfig.l2_bfr_mode'' Dec,
    Field ''tile_dma_dst'' ''DMAConfig.bypass_eow'' Dec, Field ''tile_dma_dst'' ''BaseAddr'' Hex,
    Field ''tile_dma_dst'' ''RowStride'' Dec, Field ''tile_dma_dst'' ''PlaneStride'' Dec,
    Field ''tile_dma_dst'' ''DepthStride'' Dec, Field ''tile_dma_dst'' ''GroupStride'' Dec,
    Field ''tile_dma_dst'' ''Fmt.FmtMode'' Dec, Field ''tile_dma_dst'' ''Fmt.Truncate'' Dec,
    Field ''tile_dma_dst'' ''Fmt.Shift'' Dec, Field ''tile_dma_dst'' ''Fmt.MemFmt'' Dec,
    Field ''tile_dma_dst'' ''Fmt.OffsetCh'' Dec, Field ''tile_dma_dst'' ''Fmt.ZeroPadLast'' Dec,
    Field ''tile_dma_dst'' ''Fmt.ZeroPadFirst'' Dec, Field ''tile_dma_dst'' ''Fmt.CmpVecFill'' Dec,
    Field ''tile_dma_dst'' ''Fmt.Interleave'' Dec, Field ''tile_dma_dst'' ''Fmt.CmpVec'' Dec]"

definition td_v5_items :: "td_item list" where
  "td_v5_items = td_v5_header @ [Kernel_Dma] @ td_v5_common @ td_v5_tile_dma_src @
     td_v5_l2_config @ td_v5_ne_config @ td_v5_tile_dma_dst"

subsection \<open>Version 11\<close>

definition td_v11_header :: "td_item list" where
  "td_v11_header = [
    Heading ''Header'', Field ''header'' ''unk_maybe_log_events'' Hex,
    Field ''header'' ''unk_maybe_exceptions'' Hex, Field ''header'' ''unk_maybe_debug_log_events'' Hex,
    Field ''header'' ''unk_maybe_debug_exceptions'' Hex]"

definition td_v11_tile_dma_src :: "td_item list" where
  "td_v11_tile_dma_src = [
    Heading ''Tile DMA Src'', Field ''tile_dma_src'' ''unk00'' Hex,
    Field ''tile_dma_src'' ''RowStride'' Dec, Field ''tile_dma_src'' ''PlaneStride'' Dec,
    Field ''tile_dma_src'' ''DepthStride'' Dec, Field ''tile_dma_src'' ''GroupStride'' Dec,
    Field ''tile_dma_src'' ''unk14'' Hex, Field ''tile_dma_src'' ''Fmt.FmtMode'' Dec,
    Field ''tile_dma_src'' ''Fmt.Truncate'' Dec, Field ''tile_dma_src'' ''Fmt.Shift'' Dec,
    Field ''tile_dma_src'' ''Fmt.MemFmt'' Dec, Field ''tile_dma_src'' ''Fmt.OffsetCh'' Dec,
    Field ''tile_dma_src'' ''Fmt.Interleave'' Dec, Field ''tile_dma_src'' ''Fmt.CmpVec'' Dec]"

definition td_v11_common :: "td_item list" where
  "td_v11_common = [
    Heading ''Common Header'', Field ''common'' ''InDim_Win'' Dec, Field ''common'' ''InDim_Hin'' Dec,
    Field ''common'' ''Cin_Cin'' Dec, Field ''common'' ''Cout_Cout'' Dec,
    Field ''common'' ''OutDim_Wout'' Dec, Field ''common'' ''OutDim_Hout'' Dec,
    Field ''common'' ''unk010'' Dec, Field ''common'' ''unk014'' Dec]"

definition td_v11_l2_config :: "td_item list" where
  "td_v11_l2_config = [
    Heading ''L2 Config'', Field ''l2_config'' ''SourceCfg_SourceType'' Dec,
    Field ''l2_config'' ''SourceCfg_Dependent'' Dec,
    Field ''l2_config'' ''SourceCfg_AliasConvSrc'' Dec,
    Field ''l2_config'' ''SourceCfg_AliasConvRslt'' Dec, Field ''l2_config'' ''SourceCfg_DMAFmt'' Dec,
    Field ''l2_config'' ''SourceCfg_DMAInterleave'' Dec,
    Field ''l2_config'' ''SourceCfg_DMACmpVec'' Dec, Field ''l2_config'' ''SourceCfg_DMAOffsetCh'' Dec,
    Field ''l2_config'' ''SourceCfg_AliasPlanarSrc'' Dec,
    Field ''l2_config'' ''SourceCfg_AliasPlanarRslt'' Dec,
    Field ''l2_config'' ''SourceChannelStride_Stride'' Hex,
    Field ''l2_config'' ''SourceRowStride_Stride'' Hex, Field ''l2_config'' ''unk_maybe_stride1'' Hex,
    Field ''l2_config'' ''unk_maybe_stride2'' Hex, Field ''l2_config'' ''ResultCfg_ResultType'' Dec,
    Field ''l2_config'' ''ResultCfg_L2BfrMode'' Dec,
    Field ''l2_config'' ''ResultCfg_AliasConvSrc'' Dec,
    Field ''l2_config'' ''ResultCfg_AliasConvRslt'' Dec, Field ''l2_config'' ''ResultCfg_DMAFmt'' Dec,
    Field ''l2_config'' ''ResultCfg_DMAInterleave'' Dec,
    Field ''l2_config'' ''ResultCfg_DMACmpVec'' Dec, Field ''l2_config'' ''ResultCfg_DMAOffsetCh'' Dec,
    Field ''l2_config'' ''ResultCfg_AliasPlanarSrc'' Dec,
    Field ''l2_config'' ''ResultCfg_AliasPlanarRslt'' Dec, Field ''l2_config'' ''ResultBase_Addr'' Hex]"

definition td_v11_ne_config :: "td_item list" where
  "td_v11_ne_config = [
    Heading ''NE Config'', Field ''ne_config'' ''KernelCfg_KernelFmt'' Dec,
    Field ''ne_config'' ''KernelCfg_PalettizedEn'' Dec,
    Field ''ne_config'' ''KernelCfg_PalettizedBits'' Dec,
    Field ''ne_config'' ''KernelCfg_SparseFmt'' Dec,
    Field ''ne_config'' ''KernelCfg_GroupKernelReuse'' Dec, Field ''ne_config'' ''MACCfg_OpMode'' Dec,
    Field ''ne_config'' ''MACCfg_KernelMode'' Dec, Field ''ne_config'' ''MACCfg_BiasMode'' Dec,
    Field ''ne_config'' ''MACCfg_MatrixBiasEn'' Dec, Field ''ne_config'' ''MACCfg_BinaryPoint'' Dec,
    Field ''ne_config'' ''MACCfg_PostScaleMode'' Dec, Field ''ne_config'' ''MACCfg_NonlinearMode'' Dec,
    Field ''ne_config'' ''PostScale_PostScale'' Dec,
    Field ''ne_config'' ''PostScale_PostRightShift'' Dec]"

definition td_v11_tile_dma_dst :: "td_item list" where
  "td_v11_tile_dma_dst = [
    Heading ''Tile DMA Dest'', Field ''tile_dma_dst'' ''unk00'' Hex,
    Field ''tile_dma_dst'' ''RowStride'' Dec, Field ''tile_dma_dst'' ''PlaneStride'' Dec,
    Field ''tile_dma_dst'' ''DepthStride'' Dec, Field ''tile_dma_dst'' ''GroupStride'' Dec,
    Field ''tile_dma_dst'' ''Fmt.FmtMode'' Dec, Field ''tile_dma_dst'' ''Fmt.Truncate'' Dec,
    Field ''tile_dma_dst'' ''Fmt.Shift'' Dec, Field ''tile_dma_dst'' ''Fmt.MemFmt'' Dec,
    Field ''tile_dma_dst'' ''Fmt.OffsetCh'' Dec, Field ''tile_dma_dst'' ''Fmt.ZeroPadLast'' Dec,
    Field ''tile_dma_dst'' ''Fmt.ZeroPadFirst'' Dec, Field ''tile_dma_dst'' ''Fmt.CmpVecFill'' Dec,
    Field ''tile_dma_dst'' ''Fmt.Interleave'' Dec, Field ''tile_dma_dst'' ''Fmt.CmpVec'' Dec]"

definition td_v11_items :: "td_item list" where
  "td_v11_items = td_v11_header @ td_v11_tile_dma_src @ td_v11_common @
     td_v11_l2_config @ td_v11_ne_config @ td_v11_tile_dma_dst"

section \<open>The dumpers\<close>

text \<open>\<open>strerror\<close> of the C library is a parameter.\<close>

definition dump_td :: "(int \<Rightarrow> string) \<Rightarrow> string \<Rightarrow> td_type \<Rightarrow> td_item list \<Rightarrow>
    hwx_file option \<Rightarrow> hwx_section option \<Rightarrow> io \<Rightarrow> (out list \<times> io) option" where
  "dump_td strerror name t items hwx section w = (case (hwx, section) of
     (Some f, Some s) \<Rightarrow>
       let entry_size = of_nat (td_sizeof t) in
       if entry_size = 0 then Some ([], w)
       else if sec_size s < entry_size
       then Some ([println (newline @ ''__TEXT/__text is smaller than a '' @ name @ ''; skipping dump.'')], w)
       else
         let entry_count = sec_size s div entry_size;
             trailing_bytes = sec_size s mod entry_size;
             head = [println (newline @ ''TD (__TEXT/__text)''),
                     println (''  total entries : '' @ decimal (unat entry_count) @ '' (showing first)'')] @
               (if trailing_bytes \<noteq> 0 then [println (''  trailing bytes : '' @ decimal (unat trailing_bytes))]
                else [])
         in do {
           (r, w1) \<leftarrow> hwx_section_read hwx section 0 True entry_size w;
           case r of
             None \<Rightarrow> Some (head @ [eprintln (''Failed to read __TEXT/__text: '' @ strerror (errno w1))], w1)
           | Some raw \<Rightarrow> do {
               outs \<leftarrow> dump_items t items raw;
               Some (head @ outs, w1) } }
   | _ \<Rightarrow> Some ([], w))"

definition dump_td_v5 :: "(int \<Rightarrow> string) \<Rightarrow> hwx_file option \<Rightarrow> hwx_section option \<Rightarrow> io \<Rightarrow> (out list \<times> io) option" where
  "dump_td_v5 strerror = dump_td strerror ''TD_V5'' TD_V5 td_v5_items"

definition dump_td_v11 :: "(int \<Rightarrow> string) \<Rightarrow> hwx_file option \<Rightarrow> hwx_section option \<Rightarrow> io \<Rightarrow> (out list \<times> io) option" where
  "dump_td_v11 strerror = dump_td strerror ''TD_V11'' TD_V11 td_v11_items"

end
