(* ===== verification/Dis_Main.thy ===== *)
theory Dis_Main
  imports Dis_Td Hwx_Open
begin

text \<open>
  The disassembler itself, \<open>src/tools/ane-disasm/main.cpp\<close>: it opens the container named on
  the command line, prints header, segments, sections and thread states, and hands the
  section with the task descriptors to the dumper of its version.
\<close>

section \<open>Text\<close>

definition text_of :: "bytes \<Rightarrow> string" where
  "text_of b = map (\<lambda>x. char_of (unat x)) b"

text \<open>\<open>{}\<close> and \<open>0x{:X}\<close> of the two widths\<close>

abbreviation dec32 :: "u32 \<Rightarrow> string" where "dec32 x \<equiv> decimal (unat x)"
abbreviation dec64 :: "u64 \<Rightarrow> string" where "dec64 x \<equiv> decimal (unat x)"
abbreviation hex32 :: "u32 \<Rightarrow> string" where "hex32 x \<equiv> ''0x'' @ hexadecimal (unat x)"
abbreviation hex64 :: "u64 \<Rightarrow> string" where "hex64 x \<equiv> ''0x'' @ hexadecimal (unat x)"

text \<open>\<open>0x{:016X}\<close>\<close>

definition address :: "u64 \<Rightarrow> string" where
  "address x = ''0x'' @ pad (CHR ''0'') 16 (hexadecimal (unat x))"

text \<open>The first \<open>n\<close> elements of an array, accessed in order; an access out of bounds has no
  result.\<close>

definition elements :: "u32 \<Rightarrow> 'a list \<Rightarrow> 'a list option" where
  "elements n xs = (if unat n \<le> length xs then Some (take (unat n) xs) else None)"

section \<open>Thread states\<close>


definition thread_flavor_name :: "u32 \<Rightarrow> string" where
  "thread_flavor_name flavor =
     (if flavor = HWX_ANE_TD_STATE then ''HWX_ANE_TD_STATE''
      else if flavor = HWX_ANE_BIND_STATE then ''HWX_ANE_BIND_STATE''
      else if flavor = HWX_ANE_SEG_STATE then ''HWX_ANE_SEG_STATE''
      else ''unknown'')"

fun nonzero_loop :: "string \<Rightarrow> nat \<Rightarrow> u64 list \<Rightarrow> bool \<Rightarrow> out list \<times> bool" where
  "nonzero_loop label i [] any = ([], any)"
| "nonzero_loop label i (x # xs) any =
     (if x = 0 then nonzero_loop label (Suc i) xs any
      else let first = (if any then [] else [println (''    '' @ label @ '':'')]);
               line = println (''      ['' @ pad (CHR '' '') 3 (decimal i) @ ''] '' @ address x)
           in case nonzero_loop label (Suc i) xs True of (rest, any1) \<Rightarrow> (first @ line # rest, any1))"

definition dump_nonzero_addresses :: "string \<Rightarrow> u64 list \<Rightarrow> out list" where
  "dump_nonzero_addresses label xs = (case nonzero_loop label 0 xs False of (outs, any) \<Rightarrow>
     if any then outs else outs @ [println (''    '' @ label @ '': <none>'')])"

text \<open>The lines start at the multiples of 16 below \<open>dump\<close>.\<close>

definition dump_line :: "bytes \<Rightarrow> nat \<Rightarrow> nat \<Rightarrow> out list option" where
  "dump_line data dump offset =
     (let line = min 16 (dump - offset) in do {
        xs \<leftarrow> mem_read data offset line;
        Some (Stdout (''      '' @ pad (CHR ''0'') 4 (hexadecimal offset) @ '' : '') #
              map (\<lambda>x. Stdout (pad (CHR ''0'') 2 (hexadecimal (unat x)) @ '' '')) xs @ [println []]) })"

definition dump_state_bytes :: "ptr \<Rightarrow> bytes \<Rightarrow> u32 \<Rightarrow> nat \<Rightarrow> out list option" where
  "dump_state_bytes p data sz max_bytes =
     (if p = None \<or> sz = 0 then Some [println ''    data : <none>'']
      else let dump = min (unat sz) max_bytes in do {
        lines \<leftarrow> sequence (map (\<lambda>k. dump_line data dump (16 * k)) [0..<(dump + 15) div 16]);
        Some (println (''    data : showing '' @ decimal dump @ '' of '' @ dec32 sz @ '' bytes'') # lines @
              (if dump < unat sz then [println ''      ...''] else [])) })"

text \<open>The structs of \<open>hwx.h\<close> a payload is cast to: their sizes, and their fields by offset.\<close>

abbreviation TD_STATE_SIZE :: u32 where "TD_STATE_SIZE \<equiv> 2072"
abbreviation BIND_STATE_SIZE :: u32 where "BIND_STATE_SIZE \<equiv> 4"
abbreviation SEG_STATE_BYTES :: u32 where "SEG_STATE_BYTES \<equiv> 2104"

definition base_addr :: "bytes \<Rightarrow> u64 list option" where
  "base_addr data = sequence (map (\<lambda>i. map_option (\<lambda>x. [x]) (get_u64 data (8 * i))) [0..<256])"

definition truncated :: "string \<Rightarrow> hwx_thread_state \<Rightarrow> out list option" where
  "truncated name st = do {
     rest \<leftarrow> dump_state_bytes (thr_data_ptr st) (thr_data st) (thr_byte_size st) 64;
     Some (println (''    '' @ name @ '' payload truncated ('' @ dec32 (thr_byte_size st) @ '' bytes)'') # rest) }"

definition dump_td_state :: "bytes \<Rightarrow> out list option" where
  "dump_td_state d = do {
     addrs \<leftarrow> base_addr d;
     td_addr \<leftarrow> get_u64 d 2048; td_words \<leftarrow> get_u32 d 2056; td_count \<leftarrow> get_u32 d 2060;
     ane \<leftarrow> get_u32 d 2064; ene \<leftarrow> get_u32 d 2068;
     Some (dump_nonzero_addresses ''td base_addr'' addrs @
       [println (''    td_addr  : '' @ address td_addr),
        println (''    td_words : '' @ dec32 td_words),
        println (''    td_size  : '' @ dec64 (ucast td_words * 4 + 4)),
        println (''    td_count : '' @ dec32 td_count),
        println (''    ane      : '' @ dec32 ane),
        println (''    ene      : '' @ dec32 ene)]) }"

definition dump_bind_state :: "bytes \<Rightarrow> out list option" where
  "dump_bind_state d = do {
     unk \<leftarrow> get_u32 d 0;
     Some [println (''    unk      : 0x'' @ pad (CHR ''0'') 8 (hexadecimal (unat unk)))] }"

definition dump_seg_state :: "bytes \<Rightarrow> out list option" where
  "dump_seg_state d = do {
     addrs \<leftarrow> base_addr d;
     seg_addr \<leftarrow> get_u64 d 2048; sect_idx \<leftarrow> get_u64 d 2056; seg_header_size \<leftarrow> get_u32 d 2064;
     seg_words \<leftarrow> get_u32 d 2068; seg_id \<leftarrow> get_u32 d 2072; first_td_id \<leftarrow> get_u32 d 2076;
     td_count \<leftarrow> get_u32 d 2080; next_segment_count \<leftarrow> get_u32 d 2084;
     next0 \<leftarrow> get_u32 d 2088; next1 \<leftarrow> get_u32 d 2092; ane \<leftarrow> get_u32 d 2096; ene \<leftarrow> get_u32 d 2100;
     Some (dump_nonzero_addresses ''seg base_addr'' addrs @
       [println (''    seg_addr : '' @ address seg_addr),
        println (''    sect_idx : '' @ dec64 sect_idx),
        println (''    seg_header_size    : '' @ dec32 seg_header_size),
        println (''    seg_words          : '' @ dec32 seg_words),
        println (''    seg_size           : '' @ dec64 (ucast seg_words * 4)),
        println (''    seg_id             : '' @ dec32 seg_id),
        println (''    first_td_id        : '' @ dec32 first_td_id),
        println (''    td_count           : '' @ dec32 td_count),
        println (''    next_segment_count : '' @ dec32 next_segment_count),
        println (''    next_segment_id    : ['' @ dec32 next0 @ '', '' @ dec32 next1 @ '']''),
        println (''    ane                : '' @ dec32 ane),
        println (''    ene                : '' @ dec32 ene)]) }"

definition dump_thread_state_detail :: "hwx_thread_state \<Rightarrow> out list option" where
  "dump_thread_state_detail st =
     (if thr_flavor st = HWX_ANE_TD_STATE then
        (if thr_data_ptr st = None \<or> thr_byte_size st < TD_STATE_SIZE then truncated ''td_state'' st
         else dump_td_state (thr_data st))
      else if thr_flavor st = HWX_ANE_BIND_STATE then
        (if thr_data_ptr st = None \<or> thr_byte_size st < BIND_STATE_SIZE then truncated ''bind_state'' st
         else dump_bind_state (thr_data st))
      else if thr_flavor st = HWX_ANE_SEG_STATE then
        (if thr_data_ptr st = None \<or> thr_byte_size st < SEG_STATE_BYTES then truncated ''seg_state'' st
         else dump_seg_state (thr_data st))
      else dump_state_bytes (thr_data_ptr st) (thr_data st) (thr_byte_size st) 64)"

section \<open>Segments\<close>

definition dump_section :: "hwx_section \<Rightarrow> out list" where
  "dump_section s =
     [println (''      Section '' @ text_of (sec_section_name s)),
      println (''        segment : '' @ text_of (sec_segment_name s)),
      println (''        addr    : '' @ hex64 (sec_addr s)),
      println (''        size    : '' @ hex64 (sec_size s)),
      println (''        offset  : '' @ hex32 (sec_offset s)),
      println (''        align   : '' @ dec32 (sec_align s)),
      println (''        flags   : '' @ hex32 (sec_flags s))]"

definition pick_section :: "hwx_segment \<Rightarrow> hwx_section \<Rightarrow> hwx_section option \<Rightarrow> hwx_section option" where
  "pick_section sg s td_section =
     (if td_section = None \<and> seg_name sg = cstr ''__TEXT'' \<and> sec_section_name s = cstr ''__text''
      then Some s else td_section)"

text \<open>The two loops carry the section with the descriptors, the first of its name.\<close>

fun dump_sections :: "hwx_segment \<Rightarrow> hwx_section list \<Rightarrow> hwx_section option \<Rightarrow> out list \<times> hwx_section option" where
  "dump_sections sg [] td_section = ([], td_section)"
| "dump_sections sg (s # ss) td_section =
     (case dump_sections sg ss (pick_section sg s td_section) of (outs, td1) \<Rightarrow> (dump_section s @ outs, td1))"

definition dump_segment :: "hwx_segment \<Rightarrow> out list" where
  "dump_segment sg =
     [println (''  Segment '' @ text_of (seg_name sg)),
      println (''    vmaddr   : '' @ hex64 (seg_vmaddr sg)),
      println (''    vmsize   : '' @ hex64 (seg_vmsize sg)),
      println (''    fileoff  : '' @ hex64 (seg_fileoff sg)),
      println (''    filesize : '' @ hex64 (seg_filesize sg)),
      println (''    maxprot  : '' @ hex32 (seg_maxprot sg)),
      println (''    initprot : '' @ hex32 (seg_initprot sg)),
      println (''    flags    : '' @ hex32 (seg_flags sg)),
      println (''    Sections ('' @ dec32 (seg_section_count sg) @ '')'')]"

fun dump_segments :: "hwx_segment list \<Rightarrow> hwx_section option \<Rightarrow> (out list \<times> hwx_section option) option" where
  "dump_segments [] td_section = Some ([], td_section)"
| "dump_segments (sg # sgs) td_section = do {
     sections \<leftarrow> elements (seg_section_count sg) (seg_sections sg);
     case dump_sections sg sections td_section of (outs, td1) \<Rightarrow> do {
       (rest, td2) \<leftarrow> dump_segments sgs td1;
       Some (dump_segment sg @ outs @ rest, td2) } }"

section \<open>Thread states and header\<close>

definition dump_state :: "nat \<Rightarrow> hwx_thread_state \<Rightarrow> out list option" where
  "dump_state i st = do {
     detail \<leftarrow> dump_thread_state_detail st;
     Some ([println (''  State '' @ decimal i),
            println (''    flavor   : '' @ hex32 (thr_flavor st) @ '' ('' @ thread_flavor_name (thr_flavor st) @ '')''),
            println (''    count    : '' @ dec32 (thr_count st)),
            println (''    byte_size: '' @ dec32 (thr_byte_size st))] @ detail) }"

definition dump_states :: "hwx_file \<Rightarrow> out list option" where
  "dump_states f =
     (let n = hwx_thread_state_count (Some f) in do {
        outs \<leftarrow> (if n = 0 \<or> hwx_thread_states (Some f) = None then Some [println ''  <none>'']
          else do {
            sts \<leftarrow> elements n (hf_thread_states f);
            sequence (map (\<lambda>(i, st). dump_state i st) (enumerate 0 sts)) });
        Some (println (newline @ ''Thread States ('' @ dec32 n @ '')'') # outs) })"

definition dump_header :: "hwx_file \<Rightarrow> out list" where
  "dump_header f = (let h = hf_header f in
     [println ''HWX Header'',
      println (''  magic      : '' @ hex32 (hd_magic h)),
      println (''  cputype    : '' @ hex32 (hd_cputype h)),
      println (''  cpusubtype : '' @ hex32 (hd_cpusubtype h) @ '' ('' @ hwx_cpu_subtype_name_raw (hd_cpusubtype h) @ '')''),
      println (''  filetype   : '' @ hex32 (hd_filetype h)),
      println (''  ncmds      : '' @ dec32 (hd_ncmds h)),
      println (''  sizeofcmds : '' @ dec32 (hd_sizeofcmds h)),
      println (''  flags      : '' @ hex32 (hd_flags h)),
      println (''  reserved   : '' @ hex32 (hd_reserved h)),
      println (''  td_version : '' @ dec32 (hwx_td_version (Some f)))])"

section \<open>The program\<close>

definition dump_tds :: "(int \<Rightarrow> string) \<Rightarrow> hwx_file \<Rightarrow> hwx_section option \<Rightarrow> io \<Rightarrow> (out list \<times> io) option" where
  "dump_tds strerror f td_section w =
     (if td_section = None then Some ([println (newline @ ''No __TEXT/__text section present.'')], w)
      else let version = hwx_td_version (Some f) in
        if version = 5 then dump_td_v5 strerror (Some f) td_section w
        else if version = 7 then dump_td_v5 strerror (Some f) td_section w
        else if version = 11 then dump_td_v11 strerror (Some f) td_section w
        else Some ([eprintln (newline @ ''Unsupported TD version: '' @ dec32 version)], w))"

text \<open>\<open>main\<close> between \<open>hwx_open\<close> and \<open>hwx_close\<close>\<close>

definition dump_file :: "(int \<Rightarrow> string) \<Rightarrow> hwx_file \<Rightarrow> io \<Rightarrow> (out list \<times> io) option" where
  "dump_file strerror f w = (let n = hwx_segment_count (Some f) in do {
     sgs \<leftarrow> elements n (hf_segments f);
     (segments, td_section) \<leftarrow> dump_segments sgs None;
     states \<leftarrow> dump_states f;
     (tds, w1) \<leftarrow> dump_tds strerror f td_section w;
     Some (dump_header f @ println (newline @ ''Segments ('' @ dec32 n @ '')'') # segments @ states @ tds, w1) })"

abbreviation EXIT_SUCCESS :: int where "EXIT_SUCCESS \<equiv> 0"
abbreviation EXIT_FAILURE :: int where "EXIT_FAILURE \<equiv> 1"

text \<open>The arguments include the name of the program. \<open>hwx_header\<close> of a file is never NULL.\<close>

definition disasm_main :: "(int \<Rightarrow> string) \<Rightarrow> string list \<Rightarrow> io \<Rightarrow> (int \<times> out list \<times> io) option" where
  "disasm_main strerror argv w =
     (if length argv < 2
      then Some (EXIT_FAILURE, [eprintln ''Usage: ane-disasm <path/to/model.hwx>''], w)
      else let path = argv ! 1 in do {
        (hwx, w1) \<leftarrow> hwx_open (Some path) w;
        case hwx of
          None \<Rightarrow> Some (EXIT_FAILURE,
            [eprintln (''Failed to load '' @ path @ '': '' @ strerror (errno w1))], w1)
        | Some f \<Rightarrow>
            (case hwx_header (Some f) of
               None \<Rightarrow> do {
                 w2 \<leftarrow> hwx_close (Some f) w1;
                 Some (EXIT_FAILURE, [eprintln (''Failed to read HWX header from '' @ path)], w2) }
             | Some header \<Rightarrow> do {
                 (outs, w2) \<leftarrow> dump_file strerror f w1;
                 w3 \<leftarrow> hwx_close (Some f) w2;
                 Some (EXIT_SUCCESS, outs, w3) }) })"

end
