(* ===== verification/Dis_Print.thy ===== *)
theory Dis_Print
  imports Dis_Td Td_Correct
begin

text \<open>
  The tables of \<open>Dis_Td\<close> against the structs of \<open>Td_Layout\<close>: every member a dumper prints
  exists and has a value in every descriptor of the right size, every member but those listed is
  printed, and from the text each printed value can be recovered.
\<close>

section \<open>The members an item prints\<close>

fun reads :: "td_item \<Rightarrow> string list list" where
  "reads (Heading name) = []"
| "reads (Field scope field fmt) = [scope # split_dots field]"
| "reads (Enable name scope base enable) = [[scope, base], [scope, enable]]"
| "reads Kernel_Dma =
     concat (map (\<lambda>i. map (\<lambda>name. [''kernel_dma_src'', ''coeff_dma_config'', decimal i, name])
       [''en'', ''cr_h'', ''cache_hint'', ''prefetch_participate_en'']) [0..<16]) @
     map (\<lambda>i. [''kernel_dma_src'', ''coeff_addr'', decimal i]) [0..<16] @
     map (\<lambda>i. [''kernel_dma_src'', ''coeff_size'', decimal i]) [0..<16]"

text \<open>A block of a table prints all the members of its struct, those with a name in \<open>omit\<close> apart.\<close>

definition shown :: "string list \<Rightarrow> string \<Rightarrow> td_type \<Rightarrow> string list list" where
  "shown omit scope t = map ((#) scope) (filter (\<lambda>p. hd p \<notin> set omit) (paths_of t))"

definition item_reads :: "td_item list \<Rightarrow> string list list" where
  "item_reads items = concat (map reads items)"

lemma item_reads_append: "item_reads (xs @ ys) = item_reads xs @ item_reads ys"
  by (simp add: item_reads_def)

lemma V5_header_shown: "item_reads td_v5_header = shown [''header10''] ''header'' TDHeader_V5"
  by (simp add: item_reads_def shown_def td_v5_header_def TDHeader_V5_def)

lemma V5_common_shown: "item_reads td_v5_common = shown [] ''common'' CommonHeader_V5"
  by (simp add: item_reads_def shown_def td_v5_common_def CommonHeader_V5_def)

lemma V5_tile_dma_src_shown:
  "item_reads td_v5_tile_dma_src = shown [''unk1'', ''unk2'', ''PixelOffset''] ''tile_dma_src'' TileDMASrc_V5"
  by (simp add: item_reads_def shown_def td_v5_tile_dma_src_def TileDMASrc_V5_def DMASrcConfig_V5_def
      DMASrcFormat_V5_def)

lemma V5_l2_config_shown: "item_reads td_v5_l2_config = shown [] ''l2_config'' L2Config_V5"
  by (simp add: item_reads_def shown_def td_v5_l2_config_def L2Config_V5_def)

lemma V5_ne_config_shown: "item_reads td_v5_ne_config = shown [] ''ne_config'' NEConfig_V5"
  by (simp add: item_reads_def shown_def td_v5_ne_config_def NEConfig_V5_def)

lemma V5_tile_dma_dst_shown: "item_reads td_v5_tile_dma_dst = shown [] ''tile_dma_dst'' TileDMADst_V5"
  by (simp add: item_reads_def shown_def td_v5_tile_dma_dst_def TileDMADst_V5_def DMADstConfig_V5_def
      DMADstFormat_V5_def)

lemma V5_kernel_shown: "item_reads [Kernel_Dma] = shown [] ''kernel_dma_src'' KernelDMASrc_V5"
  by (simp add: item_reads_def shown_def KernelDMASrc_V5_def CoeffDMAConfig_V5_def map_concat comp_def)

lemma V11_header_shown:
  "item_reads td_v11_header =
     shown [''unk00'', ''unk04'', ''unk08'', ''unk0C'', ''unk10'', ''unk14''] ''header'' TDHeader_V11"
  by (simp add: item_reads_def shown_def td_v11_header_def TDHeader_V11_def)

lemma V11_tile_dma_src_shown: "item_reads td_v11_tile_dma_src = shown [] ''tile_dma_src'' TileDMASrc_V11"
  by (simp add: item_reads_def shown_def td_v11_tile_dma_src_def TileDMASrc_V11_def DMASrcFormat_V5_def)

lemma V11_common_shown: "item_reads td_v11_common = shown [] ''common'' CommonHeader_V11"
  by (simp add: item_reads_def shown_def td_v11_common_def CommonHeader_V11_def)

lemma V11_l2_config_shown: "item_reads td_v11_l2_config = shown [] ''l2_config'' L2Config_V11"
  by (simp add: item_reads_def shown_def td_v11_l2_config_def L2Config_V11_def)

lemma V11_ne_config_shown: "item_reads td_v11_ne_config = shown [] ''ne_config'' NEConfig_V11"
  by (simp add: item_reads_def shown_def td_v11_ne_config_def NEConfig_V11_def)

lemma V11_tile_dma_dst_shown: "item_reads td_v11_tile_dma_dst = shown [] ''tile_dma_dst'' TileDMADst_V11"
  by (simp add: item_reads_def shown_def td_v11_tile_dma_dst_def TileDMADst_V11_def DMADstFormat_V5_def)

text \<open>The two dumpers print members of the descriptor only.\<close>

lemma shown_member_paths:
  assumes "Mem scope t \<in> set ms" shows "set (shown omit scope t) \<subseteq> set (member_paths ms)"
  using member_paths_scope [OF assms] by (auto simp: shown_def)

lemma td_v5_items_paths: "set (item_reads td_v5_items) \<subseteq> set (paths_of TD_V5)"
  unfolding td_v5_items_def item_reads_append set_append V5_header_shown V5_kernel_shown V5_common_shown
    V5_tile_dma_src_shown V5_l2_config_shown V5_ne_config_shown V5_tile_dma_dst_shown
    TD_V5_def paths_of.simps
  by (intro Un_least shown_member_paths) (simp_all only: set_simps insert_iff simp_thms)

lemma td_v11_items_paths: "set (item_reads td_v11_items) \<subseteq> set (paths_of TD_V11)"
  unfolding td_v11_items_def item_reads_append set_append V11_header_shown V11_common_shown
    V11_tile_dma_src_shown V11_l2_config_shown V11_ne_config_shown V11_tile_dma_dst_shown
    TD_V11_def paths_of.simps
  by (intro Un_least shown_member_paths) (simp_all only: set_simps insert_iff simp_thms)

section \<open>Every print has a value\<close>

text \<open>A descriptor of the right size has a value for every member.\<close>

lemma member_Some:
  assumes "td_ok t" and "td_sizeof t \<le> length raw" and "p \<in> set (paths_of t)"
  shows "\<exists>x. member t raw p = Some x"
proof -
  from assms(3) obtain off N S where l: "td_leaf t p = Some (off, N, S)"
    using td_leaf_path [of t p] by (cases "td_leaf t p") auto
  with td_leaf_at [OF assms(1) l] assms(2) get_u32_None_iff [of raw off] show ?thesis
    by (auto simp: member_def td_get_def leaf_at_def)
qed

lemma sequence_Some: "(\<And>i. i \<in> set is \<Longrightarrow> f i \<noteq> None) \<Longrightarrow> \<exists>ys. sequence (map f is) = Some ys"
  by (metis imageE list.set_map sequence_Some_iff)

lemma coeff_reads:
  assumes "i < 16"
  shows "name \<in> set [''en'', ''cr_h'', ''cache_hint'', ''prefetch_participate_en''] \<Longrightarrow>
      [''kernel_dma_src'', ''coeff_dma_config'', decimal i, name] \<in> set (reads Kernel_Dma)"
    and "[''kernel_dma_src'', ''coeff_addr'', decimal i] \<in> set (reads Kernel_Dma)"
    and "[''kernel_dma_src'', ''coeff_size'', decimal i] \<in> set (reads Kernel_Dma)"
  using assms unfolding reads.simps set_append set_concat set_map image_image set_upt by auto

lemma dump_coeff_Some:
  assumes "\<And>p. p \<in> set (reads Kernel_Dma) \<Longrightarrow> member t raw p \<noteq> None" and "i < 16"
  shows "dump_coeff t raw i \<noteq> None"
proof -
  note vals = coeff_reads [OF assms(2), THEN assms(1)]
  show ?thesis
    using vals(1) [of "''en''"] vals(1) [of "''cr_h''"] vals(1) [of "''cache_hint''"]
      vals(1) [of "''prefetch_participate_en''"] vals(2,3)
    by (auto simp: dump_coeff_def)
qed

lemma dump_item_Some:
  assumes "\<And>p. p \<in> set (reads item) \<Longrightarrow> member t raw p \<noteq> None"
  shows "dump_item t raw item \<noteq> None"
proof (cases item)
  case Kernel_Dma
  have "dump_coeff t raw i \<noteq> None" if "i \<in> set [0..<16]" for i
    using that assms unfolding Kernel_Dma set_upt by (intro dump_coeff_Some) auto
  then obtain ys where "sequence (map (dump_coeff t raw) [0..<16]) = Some ys"
    using sequence_Some [of "[0..<16]" "dump_coeff t raw"] by blast
  then show ?thesis
    by (auto simp: Kernel_Dma dump_item_def dump_kernel_dma_def simp del: upt_rec_numeral)
next
  case (Field scope field fmt)
  then show ?thesis using assms [of "scope # split_dots field"] by (auto simp: dump_item_def)
next
  case (Enable name scope base enable)
  then show ?thesis using assms [of "[scope, base]"] assms [of "[scope, enable]"]
    by (auto simp: dump_item_def)
qed (simp add: dump_item_def)

lemma dump_items_Some:
  assumes "td_ok t" and "td_sizeof t \<le> length raw" and "set (item_reads items) \<subseteq> set (paths_of t)"
  shows "\<exists>outs. dump_items t items raw = Some outs"
  unfolding dump_items_def
proof (rule sequence_Some)
  fix item assume "item \<in> set items"
  with assms(3) have "set (reads item) \<subseteq> set (paths_of t)" by (auto simp: item_reads_def)
  with member_Some [OF assms(1,2)] show "dump_item t raw item \<noteq> None" by (intro dump_item_Some) auto
qed

section \<open>The text determines the values\<close>

lemma append_separator:
  "c \<notin> set xs \<Longrightarrow> c \<notin> set ys \<Longrightarrow> xs @ c # us = ys @ c # vs \<longleftrightarrow> xs = ys \<and> us = vs"
proof (induction xs arbitrary: ys)
  case Nil
  then show ?case by (cases ys) auto
next
  case (Cons x xs)
  then show ?case by (cases ys) auto
qed

lemma vformat_inject: "vformat fmt x = vformat fmt y \<longleftrightarrow> x = y"
  by (cases fmt) (auto simp: hexadecimal_inject decimal_inject word_unat_eq_iff)

lemma print_td_field_inject: "print_td_field name x fmt = print_td_field name y fmt \<longleftrightarrow> x = y"
  by (simp add: print_td_field_def vformat_inject)

lemma print_td_enable_inject:
  "print_td_enable_field name b e = print_td_enable_field name b' e' \<longleftrightarrow>
     (e = 0) = (e' = 0) \<and> (e \<noteq> 0 \<longrightarrow> b = b')"
  by (auto simp: print_td_enable_field_def decimal_inject word_unat_eq_iff [of b])

lemma hexadecimal_no_comma: "CHR '','' \<notin> set (hexadecimal n)"
proof (induction n rule: hexadecimal.induct)
  case (1 n)
  have "CHR '','' \<noteq> hex_digit d" if "d < 16" for d
  proof -
    have "of_char (hex_digit d) \<noteq> (44 :: nat)" using that by (simp add: hex_digit_def of_char_of)
    moreover have "of_char (CHR '','') = (44 :: nat)" by simp
    ultimately show ?thesis by metis
  qed
  with 1 show ?case by (subst hexadecimal.simps) auto
qed

text \<open>
  The prints of an item are prefix-free: from the prints of a list of items those of each item
  can be told apart.
\<close>

definition told_apart :: "'a list option \<Rightarrow> 'a list option \<Rightarrow> bool" where
  "told_apart p q \<longleftrightarrow> (\<forall>xs ys us vs. p = Some xs \<longrightarrow> q = Some ys \<longrightarrow> xs @ us = ys @ vs \<longrightarrow> xs = ys)"

lemma told_apartI:
  assumes "\<And>xs ys us vs. p = Some xs \<Longrightarrow> q = Some ys \<Longrightarrow> xs @ us = ys @ vs \<Longrightarrow> xs = ys"
  shows "told_apart p q"
  unfolding told_apart_def using assms by blast

lemma told_apartD: "told_apart p q \<Longrightarrow> p = Some xs \<Longrightarrow> q = Some ys \<Longrightarrow> xs @ us = ys @ vs \<Longrightarrow> xs = ys"
  unfolding told_apart_def by blast

lemma sequence_told_apart:
  assumes "\<And>i. i \<in> set is \<Longrightarrow> told_apart (f i) (g i)"
    and "sequence (map f is) = Some xs" and "sequence (map g is) = Some ys" and "xs @ us = ys @ vs"
  shows "xs = ys \<and> (\<forall>i\<in>set is. f i = g i)"
  using assms
proof (induction "is" arbitrary: xs ys)
  case (Cons i "is")
  obtain x y xs' ys' where eq: "f i = Some x" "sequence (map f is) = Some xs'" "xs = x @ xs'"
    "g i = Some y" "sequence (map g is) = Some ys'" "ys = y @ ys'"
    using Cons.prems(2,3) by (auto simp: bind_eq_Some_conv)
  have "x = y"
    using Cons.prems(1) [of i] Cons.prems(4) eq
    by (intro told_apartD [of "f i" "g i" x y "xs' @ us" "ys' @ vs"]) simp_all
  moreover have "xs' = ys' \<and> (\<forall>i\<in>set is. f i = g i)"
    by (rule Cons.IH [OF Cons.prems(1) eq(2,5)]) (use Cons.prems(4) eq \<open>x = y\<close> in simp_all)
  ultimately show ?case using eq by simp
qed simp

lemma coeff_line_inject: "coeff_line i x = coeff_line i y \<longleftrightarrow> x = y"
  by (simp add: coeff_line_def println_def)

lemma coeff_enabled_inject: "coeff_enabled b s = coeff_enabled b' s' \<longleftrightarrow> b = b' \<and> s = s'"
  by (auto simp: coeff_enabled_def append_separator hexadecimal_no_comma hexadecimal_inject word_unat_eq_iff)

lemma coeff_enabled_disabled: "coeff_enabled b s \<noteq> ''Disabled''"
  by (simp add: coeff_enabled_def)

lemma dump_coeff_cases:
  assumes "dump_coeff t raw i = Some xs"
  obtains (disabled) "member t raw [''kernel_dma_src'', ''coeff_dma_config'', decimal i, ''en''] = Some 0"
      and "xs = [coeff_line i ''Disabled'']"
  | (enabled) en base sz cr_h hint prefetch where
      "member t raw [''kernel_dma_src'', ''coeff_dma_config'', decimal i, ''en''] = Some en" "en \<noteq> 0"
      and "member t raw [''kernel_dma_src'', ''coeff_addr'', decimal i] = Some base"
      and "member t raw [''kernel_dma_src'', ''coeff_size'', decimal i] = Some sz"
      and "member t raw [''kernel_dma_src'', ''coeff_dma_config'', decimal i, ''cr_h''] = Some cr_h"
      and "member t raw [''kernel_dma_src'', ''coeff_dma_config'', decimal i, ''cache_hint''] = Some hint"
      and "member t raw [''kernel_dma_src'', ''coeff_dma_config'', decimal i, ''prefetch_participate_en''] = Some prefetch"
      and "xs = coeff_line i (coeff_enabled base sz) # coeff_config cr_h hint prefetch"
  using assms by (auto simp: dump_coeff_def bind_eq_Some_conv coeff_config_def split: if_splits)

lemma dump_coeff_told_apart: "told_apart (dump_coeff t raw i) (dump_coeff t raw' i)"
proof (rule told_apartI)
  fix xs ys us vs
  assume "dump_coeff t raw i = Some xs" and "dump_coeff t raw' i = Some ys" and "xs @ us = ys @ vs"
  then show "xs = ys"
    by (elim dump_coeff_cases)
      (auto simp: coeff_line_inject coeff_enabled_disabled coeff_config_def dest: coeff_enabled_disabled [THEN notE, OF sym])
qed

lemma dump_kernel_told_apart: "told_apart (dump_kernel_dma t raw) (dump_kernel_dma t raw')"
proof (rule told_apartI)
  fix xs ys us vs
  assume "dump_kernel_dma t raw = Some xs" and "dump_kernel_dma t raw' = Some ys" and "xs @ us = ys @ vs"
  then obtain cs ds where "sequence (map (dump_coeff t raw) [0..<16]) = Some cs"
    and "sequence (map (dump_coeff t raw') [0..<16]) = Some ds" and "cs @ us = ds @ vs"
    and xs: "xs = println (newline @ ''  Kernel DMA Sources'') # cs" "ys = println (newline @ ''  Kernel DMA Sources'') # ds"
    by (auto simp: dump_kernel_dma_def bind_eq_Some_conv simp del: upt_rec_numeral)
  from sequence_told_apart [OF dump_coeff_told_apart this(1-3)] xs show "xs = ys" by simp
qed

lemma dump_item_told_apart: "told_apart (dump_item t raw item) (dump_item t raw' item)"
proof (cases item)
  case Kernel_Dma
  then show ?thesis by (simp add: dump_item_def dump_kernel_told_apart)
qed (auto simp: told_apart_def dump_item_def bind_eq_Some_conv)

text \<open>
  When two descriptors agree on what an item prints: the value of a field; of a pair, whether it
  is enabled, and the base if it is; of each coefficient, whether it is enabled, and if it is the
  five values.
\<close>

fun agree :: "td_type \<Rightarrow> bytes \<Rightarrow> bytes \<Rightarrow> td_item \<Rightarrow> bool" where
  "agree t raw raw' (Heading name) = True"
| "agree t raw raw' (Field scope field fmt) =
     (member t raw (scope # split_dots field) = member t raw' (scope # split_dots field))"
| "agree t raw raw' (Enable name scope base enable) =
     ((member t raw [scope, enable] = Some 0) = (member t raw' [scope, enable] = Some 0) \<and>
      (member t raw [scope, enable] \<noteq> Some 0 \<longrightarrow> member t raw [scope, base] = member t raw' [scope, base]))"
| "agree t raw raw' Kernel_Dma = list_all (\<lambda>i.
     let en = [''kernel_dma_src'', ''coeff_dma_config'', decimal i, ''en''] in
     (member t raw en = Some 0) = (member t raw' en = Some 0) \<and>
     (member t raw en \<noteq> Some 0 \<longrightarrow> list_all (\<lambda>p. member t raw p = member t raw' p)
        [[''kernel_dma_src'', ''coeff_addr'', decimal i], [''kernel_dma_src'', ''coeff_size'', decimal i],
         [''kernel_dma_src'', ''coeff_dma_config'', decimal i, ''cr_h''],
         [''kernel_dma_src'', ''coeff_dma_config'', decimal i, ''cache_hint''],
         [''kernel_dma_src'', ''coeff_dma_config'', decimal i, ''prefetch_participate_en'']])) [0..<16]"

lemma coeff_config_inject:
  "coeff_config a b c = coeff_config a' b' c' \<longleftrightarrow> a = a' \<and> b = b' \<and> c = c'"
  by (auto simp: coeff_config_def println_def decimal_inject word_unat_eq_iff [of a] word_unat_eq_iff [of b]
      word_unat_eq_iff [of c])

lemma sequence_eq_iff:
  assumes "\<And>i. i \<in> set is \<Longrightarrow> told_apart (f i) (g i)"
    and "\<And>i. i \<in> set is \<Longrightarrow> f i \<noteq> None" and "\<And>i. i \<in> set is \<Longrightarrow> g i \<noteq> None"
  shows "sequence (map f is) = sequence (map g is) \<longleftrightarrow> (\<forall>i\<in>set is. f i = g i)"
proof
  assume eq: "sequence (map f is) = sequence (map g is)"
  obtain xs where xs: "sequence (map f is) = Some xs" using sequence_Some [of "is" f] assms(2) by blast
  with eq have "sequence (map g is) = Some xs" by simp
  from sequence_told_apart [OF assms(1) xs this refl] show "\<forall>i\<in>set is. f i = g i" by blast
qed (simp cong: map_cong)

lemma dump_coeff_agree:
  assumes "dump_coeff t raw i \<noteq> None" and "dump_coeff t raw' i \<noteq> None"
  defines "en \<equiv> [''kernel_dma_src'', ''coeff_dma_config'', decimal i, ''en'']"
  shows "dump_coeff t raw i = dump_coeff t raw' i \<longleftrightarrow>
     (member t raw en = Some 0) = (member t raw' en = Some 0) \<and>
     (member t raw en \<noteq> Some 0 \<longrightarrow> list_all (\<lambda>p. member t raw p = member t raw' p)
        [[''kernel_dma_src'', ''coeff_addr'', decimal i], [''kernel_dma_src'', ''coeff_size'', decimal i],
         [''kernel_dma_src'', ''coeff_dma_config'', decimal i, ''cr_h''],
         [''kernel_dma_src'', ''coeff_dma_config'', decimal i, ''cache_hint''],
         [''kernel_dma_src'', ''coeff_dma_config'', decimal i, ''prefetch_participate_en'']])"
proof -
  from assms(1,2) obtain xs ys where xs: "dump_coeff t raw i = Some xs" and ys: "dump_coeff t raw' i = Some ys"
    by blast
  show ?thesis unfolding xs ys en_def
    by (rule dump_coeff_cases [OF xs]; rule dump_coeff_cases [OF ys])
      (auto simp: coeff_line_inject coeff_enabled_disabled coeff_enabled_disabled [symmetric]
        coeff_enabled_inject coeff_config_inject)
qed

lemma dump_item_agree:
  assumes "\<And>p. p \<in> set (reads item) \<Longrightarrow> member t raw p \<noteq> None"
    and "\<And>p. p \<in> set (reads item) \<Longrightarrow> member t raw' p \<noteq> None"
  shows "dump_item t raw item = dump_item t raw' item \<longleftrightarrow> agree t raw raw' item"
proof (cases item)
  case Kernel_Dma
  have coeffs: "dump_coeff t raw i \<noteq> None \<and> dump_coeff t raw' i \<noteq> None" if "i \<in> set [0..<16]" for i
  proof -
    from that have "i < 16" unfolding set_upt by simp
    then show ?thesis using assms dump_coeff_Some unfolding Kernel_Dma by blast
  qed
  have "dump_item t raw item = dump_item t raw' item \<longleftrightarrow>
      sequence (map (dump_coeff t raw) [0..<16]) = sequence (map (dump_coeff t raw') [0..<16])"
    using sequence_Some [of "[0..<16]" "dump_coeff t raw"] sequence_Some [of "[0..<16]" "dump_coeff t raw'"] coeffs
    by (auto simp: Kernel_Dma dump_item_def dump_kernel_dma_def simp del: upt_rec_numeral)
  also have "\<dots> \<longleftrightarrow> (\<forall>i\<in>set [0..<16]. dump_coeff t raw i = dump_coeff t raw' i)"
    using coeffs by (intro sequence_eq_iff dump_coeff_told_apart) auto
  also have "\<dots> \<longleftrightarrow> agree t raw raw' item"
    unfolding Kernel_Dma agree.simps list_all_iff Let_def
    using coeffs by (intro ball_cong refl) (simp add: dump_coeff_agree list_all_iff)
  finally show ?thesis .
next
  case (Field scope field fmt)
  then show ?thesis using assms [of "scope # split_dots field"]
    by (auto simp: dump_item_def print_td_field_inject)
next
  case (Enable name scope base enable)
  then show ?thesis using assms [of "[scope, base]"] assms [of "[scope, enable]"]
    by (auto simp: dump_item_def print_td_enable_inject)
qed (simp add: dump_item_def)

lemma dump_items_agree:
  assumes "td_ok t" and "td_sizeof t \<le> length raw" and "td_sizeof t \<le> length raw'"
    and "set (item_reads items) \<subseteq> set (paths_of t)"
  shows "dump_items t items raw = dump_items t items raw' \<longleftrightarrow> list_all (agree t raw raw') items"
proof -
  have vals: "member t raw p \<noteq> None" "member t raw' p \<noteq> None" if "item \<in> set items" "p \<in> set (reads item)" for item p
    using member_Some [OF assms(1,2), of p] member_Some [OF assms(1,3), of p] assms(4) that
    by (auto simp: item_reads_def)
  have "dump_items t items raw = dump_items t items raw' \<longleftrightarrow>
      (\<forall>item\<in>set items. dump_item t raw item = dump_item t raw' item)"
    unfolding dump_items_def using vals by (intro sequence_eq_iff dump_item_told_apart dump_item_Some)
  also have "\<dots> \<longleftrightarrow> list_all (agree t raw raw') items"
    unfolding list_all_iff using vals by (intro ball_cong refl dump_item_agree)
  finally show ?thesis .
qed

section \<open>What is not printed\<close>

text \<open>The members no item prints, each with everything below it.\<close>

definition td_v5_omitted :: "string list list" where
  "td_v5_omitted = [[''header'', ''header10''], [''unk30''], [''unk34''], [''unk1F4''], [''unk168''],
     [''tile_dma_src'', ''unk1''], [''tile_dma_src'', ''unk2''], [''tile_dma_src'', ''PixelOffset''],
     [''unk1CC''], [''unk220''], [''unk254'']]"

definition td_v11_omitted :: "string list list" where
  "td_v11_omitted = [[''header'', ''unk00''], [''header'', ''unk04''], [''header'', ''unk08''],
     [''header'', ''unk0C''], [''header'', ''unk10''], [''header'', ''unk14''], [''unk028''], [''unk064''],
     [''unk090''], [''unk0B0''], [''unk0C0''], [''unk0DC'']]"

definition printed_or :: "string list list \<Rightarrow> string list list \<Rightarrow> string list \<Rightarrow> bool" where
  "printed_or omitted printed p \<longleftrightarrow> p \<in> set printed \<or> (\<exists>q\<in>set omitted. take (length q) p = q)"

lemma member_paths_ne: "[] \<notin> set (member_paths ms)"
  by (induction ms rule: member_names.induct) auto

lemma printed_or_shown:
  assumes "q \<in> set (paths_of t)" and "set (shown omit scope t) \<subseteq> set printed"
    and "\<And>x. x \<in> set omit \<Longrightarrow> [scope, x] \<in> set omitted" and "q \<noteq> [] \<or> omit = []"
  shows "printed_or omitted printed (scope # q)"
proof (cases "hd q \<in> set omit")
  case True
  with assms(4) obtain x r where "q = x # r" by (cases q) auto
  with True assms(3) [of x] show ?thesis by (force simp: printed_or_def)
next
  case False
  with assms(1,2) show ?thesis by (auto simp: printed_or_def shown_def)
qed

lemma printed_or_omitted: "[scope] \<in> set omitted \<Longrightarrow> printed_or omitted printed (scope # q)"
  by (force simp: printed_or_def)

lemma member_paths_Mem: "p \<in> set (member_paths (Mem name t # ms)) \<longleftrightarrow>
    (\<exists>q. q \<in> set (paths_of t) \<and> p = name # q) \<or> p \<in> set (member_paths ms)"
  by auto

lemma printed_or_all:
  "q \<in> set (paths_of t) \<Longrightarrow> set (shown [] scope t) \<subseteq> set printed \<Longrightarrow> printed_or omitted printed (scope # q)"
  by (rule printed_or_shown [where omit = "[]"]) simp_all

lemma td_v5_printed:
  assumes "p \<in> set (paths_of TD_V5)"
  shows "printed_or td_v5_omitted (item_reads td_v5_items) p"
proof -
  have sections: "set (item_reads td_v5_items) = set (shown [''header10''] ''header'' TDHeader_V5) \<union>
      set (shown [] ''kernel_dma_src'' KernelDMASrc_V5) \<union> set (shown [] ''common'' CommonHeader_V5) \<union>
      set (shown [''unk1'', ''unk2'', ''PixelOffset''] ''tile_dma_src'' TileDMASrc_V5) \<union>
      set (shown [] ''l2_config'' L2Config_V5) \<union> set (shown [] ''ne_config'' NEConfig_V5) \<union>
      set (shown [] ''tile_dma_dst'' TileDMADst_V5)"
    unfolding td_v5_items_def item_reads_append set_append V5_header_shown V5_kernel_shown
      V5_common_shown V5_tile_dma_src_shown V5_l2_config_shown V5_ne_config_shown V5_tile_dma_dst_shown
    by (simp only: Un_assoc)
  have ne: "[] \<notin> set (paths_of TDHeader_V5)" "[] \<notin> set (paths_of TileDMASrc_V5)"
    unfolding TDHeader_V5_def TileDMASrc_V5_def paths_of.simps by (rule member_paths_ne)+
  let ?P = "printed_or td_v5_omitted (item_reads td_v5_items)"
  have header: "?P (''header'' # q)" if "q \<in> set (paths_of TDHeader_V5)" for q
    by (rule printed_or_shown [OF that, where omit = "[''header10'']"])
      (use that ne in \<open>auto simp: sections td_v5_omitted_def\<close>)
  have src: "?P (''tile_dma_src'' # q)" if "q \<in> set (paths_of TileDMASrc_V5)" for q
    by (rule printed_or_shown [OF that, where omit = "[''unk1'', ''unk2'', ''PixelOffset'']"])
      (use that ne in \<open>auto simp: sections td_v5_omitted_def\<close>)
  have all: "?P (scope # q)" if "q \<in> set (paths_of t)" and "(scope, t) \<in> set [
      (''kernel_dma_src'', KernelDMASrc_V5), (''common'', CommonHeader_V5), (''l2_config'', L2Config_V5),
      (''ne_config'', NEConfig_V5), (''tile_dma_dst'', TileDMADst_V5)]" for scope t q
    by (rule printed_or_all [OF that(1)]) (use that(2) in \<open>auto simp: sections\<close>)
  have omitted: "?P (scope # q)"
    if "scope \<in> set [''unk30'', ''unk34'', ''unk1F4'', ''unk168'', ''unk1CC'', ''unk220'', ''unk254'']" for scope q
    by (rule printed_or_omitted) (use that in \<open>auto simp: td_v5_omitted_def\<close>)
  show ?thesis
    using assms
    unfolding TD_V5_def paths_of.simps member_paths_Mem member_paths.simps(1) list.set(1) empty_iff simp_thms
    by (elim disjE exE conjE)
      (hypsubst, (rule header, assumption | rule src, assumption | rule omitted, (simp; fail) |
        rule all, assumption, (simp; fail)))+
qed

lemma td_v11_printed:
  assumes "p \<in> set (paths_of TD_V11)"
  shows "printed_or td_v11_omitted (item_reads td_v11_items) p"
proof -
  let ?omit = "[''unk00'', ''unk04'', ''unk08'', ''unk0C'', ''unk10'', ''unk14'']"
  have sections: "set (item_reads td_v11_items) = set (shown ?omit ''header'' TDHeader_V11) \<union>
      set (shown [] ''tile_dma_src'' TileDMASrc_V11) \<union> set (shown [] ''common'' CommonHeader_V11) \<union>
      set (shown [] ''l2_config'' L2Config_V11) \<union> set (shown [] ''ne_config'' NEConfig_V11) \<union>
      set (shown [] ''tile_dma_dst'' TileDMADst_V11)"
    unfolding td_v11_items_def item_reads_append set_append V11_header_shown V11_tile_dma_src_shown
      V11_common_shown V11_l2_config_shown V11_ne_config_shown V11_tile_dma_dst_shown
    by (simp only: Un_assoc)
  have ne: "[] \<notin> set (paths_of TDHeader_V11)"
    unfolding TDHeader_V11_def paths_of.simps by (rule member_paths_ne)
  let ?P = "printed_or td_v11_omitted (item_reads td_v11_items)"
  have header: "?P (''header'' # q)" if "q \<in> set (paths_of TDHeader_V11)" for q
    by (rule printed_or_shown [OF that, where omit = ?omit])
      (use that ne in \<open>auto simp: sections td_v11_omitted_def\<close>)
  have all: "?P (scope # q)" if "q \<in> set (paths_of t)" and "(scope, t) \<in> set [
      (''tile_dma_src'', TileDMASrc_V11), (''common'', CommonHeader_V11), (''l2_config'', L2Config_V11),
      (''ne_config'', NEConfig_V11), (''tile_dma_dst'', TileDMADst_V11)]" for scope t q
    by (rule printed_or_all [OF that(1)]) (use that(2) in \<open>auto simp: sections\<close>)
  have omitted: "?P (scope # q)"
    if "scope \<in> set [''unk028'', ''unk064'', ''unk090'', ''unk0B0'', ''unk0C0'', ''unk0DC'']" for scope q
    by (rule printed_or_omitted) (use that in \<open>auto simp: td_v11_omitted_def\<close>)
  show ?thesis
    using assms
    unfolding TD_V11_def paths_of.simps member_paths_Mem member_paths.simps(1) list.set(1) empty_iff simp_thms
    by (elim disjE exE conjE)
      (hypsubst, (rule header, assumption | rule omitted, (simp; fail) | rule all, assumption, (simp; fail)))+
qed

end
