(* ===== verification/Dis_Correct.thy ===== *)
theory Dis_Correct
  imports Dis_Main Dis_Print Hwx_Correct
begin

text \<open>
  The properties of the disassembler: its dumpers print the members of the descriptor in the file,
  all the bit fields among them, and the program reads nothing it must not and gives back what
  it took.
\<close>

section \<open>The descriptor of a section\<close>

lemma td_sizes: "td_sizeof TD_V5 = 0x274" "td_sizeof TD_V11 = 0x100"
  by (simp_all add: td_layout_defs)

lemma td_items_paths:
  assumes "(t, items) \<in> {(TD_V5, td_v5_items), (TD_V11, td_v11_items)}"
  shows "td_ok t" and "set (item_reads items) \<subseteq> set (paths_of t)" and "0 < td_sizeof t"
    and "td_sizeof t < 2 ^ 32"
proof -
  consider "t = TD_V5" "items = td_v5_items" | "t = TD_V11" "items = td_v11_items" using assms by auto
  then show "td_ok t" and "set (item_reads items) \<subseteq> set (paths_of t)" and "0 < td_sizeof t"
    and "td_sizeof t < 2 ^ 32"
    by (cases; simp only: td_oks td_v5_items_paths td_v11_items_paths td_sizes; simp)+
qed

text \<open>What is printed before the descriptor.\<close>

definition td_head :: "nat \<Rightarrow> u64 \<Rightarrow> out list" where
  "td_head n sz = [println (newline @ ''TD (__TEXT/__text)''),
     println (''  total entries : '' @ decimal (unat sz div n) @ '' (showing first)'')] @
     (if n dvd unat sz then []
      else [println (''  trailing bytes : '' @ decimal (unat sz mod n))])"

lemma dump_td_ok:
  assumes t: "(t, items) \<in> {(TD_V5, td_v5_items), (TD_V11, td_v11_items)}"
    and open_f: "file_open ino f w" and win: "sec.window_ok f s"
  shows "\<exists>outs w1. dump_td strerror name t items (Some f) (Some s) w = Some (outs, w1) \<and> same_res w w1 \<and>
    (if unat (sec_size s) < td_sizeof t
     then outs = [println (newline @ ''__TEXT/__text is smaller than a '' @ name @ ''; skipping dump.'')]
     else \<exists>lines. dump_items t items (window_bytes ino (unat (sec_offset s)) (td_sizeof t)) = Some lines \<and>
       (outs = td_head (td_sizeof t) (sec_size s) @ lines \<or> \<not> fault_free w \<and>
        outs = td_head (td_sizeof t) (sec_size s) @ [eprintln (''Failed to read __TEXT/__text: '' @ strerror (errno w1))]))"
proof -
  note ok = td_items_paths [OF t]
  let ?n = "of_nat (td_sizeof t) :: u64"
  have n: "unat ?n = td_sizeof t" using ok(4) by (simp add: unat_of_nat)
  then have pos: "?n \<noteq> 0" using ok(3) by (metis less_numeral_extra(3) unat_0)
  show ?thesis
  proof (cases "unat (sec_size s) < td_sizeof t")
    case True
    then show ?thesis using pos n
      by (simp add: dump_td_def word_less_nat_alt same_res_def)
  next
    case False
    have rest: "sec_size s mod ?n = 0 \<longleftrightarrow> td_sizeof t dvd unat (sec_size s)"
      by (simp add: word_unat_eq_iff [of _ 0] unat_mod n dvd_eq_mod_eq_0)
    obtain r w1 where r: "hwx_section_read (Some f) (Some s) 0 True ?n w = Some (r, w1)"
      using sec.read_total [of f "Some s" 0 True ?n w] by auto
    let ?raw = "window_bytes ino (unat (sec_offset s)) (td_sizeof t)"
    have data: "bs = ?raw" if "r = Some bs" for bs
      using sec.read_data [OF open_f win r [unfolded that]] by (simp add: n)
    have quiet: "r \<noteq> None" if "fault_free w"
      using sec.read_succeeds [OF open_f win that, of 0 ?n] False r by (auto simp: n)
    have "length ?raw = td_sizeof t"
      using win open_f False ok(3)
      by (auto simp: sec.window_ok_def file_open_def window_bytes_def unat_of_nat)
    with dump_items_Some [OF ok(1) _ ok(2), of ?raw] obtain lines where
      lines: "dump_items t items ?raw = Some lines" by auto
    have eq: "dump_td strerror name t items (Some f) (Some s) w =
        (case r of None \<Rightarrow> Some (td_head (td_sizeof t) (sec_size s) @
            [eprintln (''Failed to read __TEXT/__text: '' @ strerror (errno w1))], w1)
         | Some raw \<Rightarrow> do { outs \<leftarrow> dump_items t items raw; Some (td_head (td_sizeof t) (sec_size s) @ outs, w1) })"
      using False pos n rest
      by (cases r) (simp_all add: dump_td_def word_less_nat_alt r Let_def td_head_def unat_div unat_mod)
    show ?thesis
    proof (cases r)
      case None
      with False sec.read_same_res [OF r] quiet lines show ?thesis by (auto simp: eq)
    next
      case (Some bs)
      with data have "bs = ?raw" by blast
      with Some False sec.read_same_res [OF r] lines show ?thesis by (simp add: eq)
    qed
  qed
qed

section \<open>What main goes through\<close>

lemma elements_all: "unat n = length xs \<Longrightarrow> elements n xs = Some xs"
  by (simp add: elements_def)

text \<open>The section picked is the first \<open>__text\<close> of a segment \<open>__TEXT\<close>.\<close>

lemma dump_sections_picked:
  "snd (dump_sections sg ss td) = (case td of
     None \<Rightarrow> if seg_name sg = cstr ''__TEXT'' then find (\<lambda>s. sec_section_name s = cstr ''__text'') ss else None
   | Some s \<Rightarrow> Some s)"
  by (induction ss arbitrary: td) (auto simp: pick_section_def case_prod_unfold split: option.splits)

lemma dump_segments_picked:
  assumes "\<And>sg. sg \<in> set sgs \<Longrightarrow> unat (seg_section_count sg) = length (seg_sections sg)"
  shows "\<exists>outs. dump_segments sgs td = Some (outs, case td of
     None \<Rightarrow> find_section (Some (cstr ''__TEXT'')) (cstr ''__text'') sgs | Some s \<Rightarrow> Some s)"
  using assms
proof (induction sgs arbitrary: td)
  case (Cons sg sgs)
  obtain outs td1 where d: "dump_sections sg (seg_sections sg) td = (outs, td1)" by fastforce
  with dump_sections_picked [of sg "seg_sections sg" td] have td1: "td1 = (case td of
     None \<Rightarrow> if seg_name sg = cstr ''__TEXT'' then find (\<lambda>s. sec_section_name s = cstr ''__text'') (seg_sections sg)
       else None | Some s \<Rightarrow> Some s)" by simp
  obtain rest where rest: "dump_segments sgs td1 = Some (rest, case td1 of
     None \<Rightarrow> find_section (Some (cstr ''__TEXT'')) (cstr ''__text'') sgs | Some s \<Rightarrow> Some s)"
    using Cons.IH [of td1] Cons.prems by auto
  with Cons.prems [of sg] d td1 show ?case
    by (auto simp: elements_all cstr_def split: option.splits)
qed (simp split: option.splits)

text \<open>The payload of a well-formed state is as long as it says, so no access leaves it.\<close>

lemma dump_line_Some: "dump \<le> length data \<Longrightarrow> 16 * k < dump \<Longrightarrow> dump_line data dump (16 * k) \<noteq> None"
  by (auto simp: dump_line_def Let_def mem_read_def)

lemma dump_state_bytes_Some:
  assumes "thread_wf st"
  shows "dump_state_bytes (thr_data_ptr st) (thr_data st) (thr_byte_size st) n \<noteq> None"
proof -
  let ?dump = "min (unat (thr_byte_size st)) n"
  have "dump_line (thr_data st) ?dump (16 * k) \<noteq> None" if "k \<in> set [0..<(?dump + 15) div 16]" for k
    using that assms by (intro dump_line_Some) (auto simp: thread_wf_def)
  then obtain ls where "sequence (map (\<lambda>k. dump_line (thr_data st) ?dump (16 * k)) [0..<(?dump + 15) div 16]) = Some ls"
    using sequence_Some [of "[0..<(?dump + 15) div 16]" "\<lambda>k. dump_line (thr_data st) ?dump (16 * k)"] by blast
  then show ?thesis by (simp add: dump_state_bytes_def Let_def)
qed

lemma truncated_Some: "thread_wf st \<Longrightarrow> truncated name st \<noteq> None"
  using dump_state_bytes_Some [of st 64] by (auto simp: truncated_def)

text \<open>A chain of reads that stay inside.\<close>

lemma get_u32_bind: "off + 4 \<le> length b \<Longrightarrow> (\<And>x. g x \<noteq> None) \<Longrightarrow> Option.bind (get_u32 b off) g \<noteq> None"
  by (cases "get_u32 b off") (auto simp: get_u32_None_iff)

lemma get_u64_bind: "off + 8 \<le> length b \<Longrightarrow> (\<And>x. g x \<noteq> None) \<Longrightarrow> Option.bind (get_u64 b off) g \<noteq> None"
  by (cases "get_u64 b off") (auto simp: get_u64_None_iff)

lemma base_addr_bind:
  assumes "2048 \<le> length b" and "\<And>x. g x \<noteq> None"
  shows "Option.bind (base_addr b) g \<noteq> None"
proof -
  have "map_option (\<lambda>x. [x]) (get_u64 b (8 * i)) \<noteq> None" if "i \<in> set [0..<256]" for i
    using that assms(1) unfolding set_upt by (simp add: get_u64_None_iff)
  then obtain xs where "base_addr b = Some xs"
    using sequence_Some [of "[0..<256]" "\<lambda>i. map_option (\<lambda>x. [x]) (get_u64 b (8 * i))"]
    unfolding base_addr_def by blast
  with assms(2) show ?thesis by simp
qed

lemmas get_binds = get_u32_bind get_u64_bind base_addr_bind option.distinct(2)

lemma dump_td_state_Some: "2072 \<le> length d \<Longrightarrow> dump_td_state d \<noteq> None"
  unfolding dump_td_state_def by (intro get_binds) simp_all

lemma dump_bind_state_Some: "4 \<le> length d \<Longrightarrow> dump_bind_state d \<noteq> None"
  unfolding dump_bind_state_def by (intro get_binds) simp_all

lemma dump_seg_state_Some: "2104 \<le> length d \<Longrightarrow> dump_seg_state d \<noteq> None"
  unfolding dump_seg_state_def by (intro get_binds) simp_all

lemma dump_state_Some:
  assumes "thread_wf st"
  shows "dump_state i st \<noteq> None"
proof -
  have len: "length (thr_data st) = unat (thr_byte_size st)" using assms by (simp add: thread_wf_def)
  have "dump_thread_state_detail st \<noteq> None"
    using truncated_Some [OF assms] dump_state_bytes_Some [OF assms, of 64]
    unfolding dump_thread_state_detail_def
    by (auto simp del: not_None_eq simp: not_less word_le_nat_alt len
        intro!: dump_td_state_Some dump_bind_state_Some dump_seg_state_Some)
  then show ?thesis by (auto simp: dump_state_def)
qed

lemma dump_states_Some:
  assumes "file_counts_ok f" and "list_all thread_wf (hf_thread_states f)"
  shows "\<exists>outs. dump_states f = Some outs"
proof -
  have n: "hwx_thread_state_count (Some f) = hf_thread_state_count f" by (simp add: hwx_thread_state_count_def)
  have "(\<lambda>(i, st). dump_state i st) x \<noteq> None" if "x \<in> set (enumerate 0 (hf_thread_states f))" for x
  proof -
    obtain i st where x: "x = (i, st)" by (cases x)
    with that have "st \<in> set (hf_thread_states f)" by (auto simp: in_set_enumerate_eq)
    with assms(2) x show ?thesis using dump_state_Some [of st i] by (simp add: list_all_iff del: not_None_eq)
  qed
  then obtain outs where "sequence (map (\<lambda>(i, st). dump_state i st) (enumerate 0 (hf_thread_states f))) = Some outs"
    using sequence_Some [of "enumerate 0 (hf_thread_states f)" "\<lambda>(i, st). dump_state i st"] by blast
  with assms(1) show ?thesis
    by (simp add: dump_states_def n elements_all file_counts_ok_def Let_def)
qed

section \<open>The program\<close>

lemma found_tsk_section:
  assumes "file_wf f"
  obtains s where "found (hwx_get_tsk_section (Some f)) = Some s" and "sec.window_ok f s"
    and "find_section (Some (cstr ''__TEXT'')) (cstr ''__text'') (hf_segments f) = Some s"
proof -
  have counts: "file_counts_ok f" using assms by (simp add: file_wf_def)
  obtain s where s: "found (hwx_get_tsk_section (Some f)) = Some s"
    using assms by (auto simp: file_wf_def)
  then have "find_section (Some (cstr ''__TEXT'')) (cstr ''__text'') (hf_segments f) = Some s"
    by (simp add: hwx_get_tsk_section_def hwx_section_by_name_def found_def file_counts_take [OF counts])
  with s found_section_window [OF assms, of "Some (cstr ''__TEXT'')" "cstr ''__text''" s] show thesis
    by (intro that) (simp_all add: hwx_get_tsk_section_def)
qed

lemma dump_tds_ok:
  assumes "file_open ino f w" and "sec.window_ok f s"
  shows "\<exists>tds w1. dump_tds strerror f (Some s) w = Some (tds, w1) \<and> same_res w w1"
proof -
  have "\<exists>tds w1. dump_td strerror name t items (Some f) (Some s) w = Some (tds, w1) \<and> same_res w w1"
    if "(t, items) \<in> {(TD_V5, td_v5_items), (TD_V11, td_v11_items)}" for name t items
    using dump_td_ok [OF that assms, of strerror name] by auto
  then show ?thesis
    by (simp add: dump_tds_def dump_td_v5_def dump_td_v11_def Let_def)
qed

lemma dump_file_ok:
  assumes wf: "file_wf f" and open_f: "file_open ino f w"
  shows "\<exists>segments states tds w1.
    dump_segments (hf_segments f) None = Some (segments, found (hwx_get_tsk_section (Some f))) \<and>
    dump_states f = Some states \<and>
    dump_tds strerror f (found (hwx_get_tsk_section (Some f))) w = Some (tds, w1) \<and> same_res w w1 \<and>
    dump_file strerror f w = Some (dump_header f @
      println (newline @ ''Segments ('' @ dec32 (hf_segment_count f) @ '')'') # segments @ states @ tds, w1)"
proof -
  obtain s where s: "found (hwx_get_tsk_section (Some f)) = Some s" "sec.window_ok f s"
    "find_section (Some (cstr ''__TEXT'')) (cstr ''__text'') (hf_segments f) = Some s"
    using found_tsk_section [OF wf] .
  have counts: "file_counts_ok f" and threads: "list_all thread_wf (hf_thread_states f)"
    using wf by (simp_all add: file_wf_def)
  have "unat (seg_section_count sg) = length (seg_sections sg)" if "sg \<in> set (hf_segments f)" for sg
    using wf that by (simp add: file_wf_def list_all_iff segment_wf_def)
  then obtain segments where segments: "dump_segments (hf_segments f) None = Some (segments, Some s)"
    using dump_segments_picked [of "hf_segments f" None] s(3) by auto
  obtain states where states: "dump_states f = Some states"
    using dump_states_Some [OF counts threads] by blast
  obtain tds w1 where tds: "dump_tds strerror f (Some s) w = Some (tds, w1)" "same_res w w1"
    using dump_tds_ok [OF open_f s(2)] by blast
  have "elements (hf_segment_count f) (hf_segments f) = Some (hf_segments f)"
    using counts by (intro elements_all) (simp add: file_counts_ok_def)
  with segments states tds s(1) show ?thesis
    by (simp add: dump_file_def hwx_segment_count_def)
qed

text \<open>C27: Of a section of an open file the dumpers print the descriptor it starts with: a section
  smaller than a descriptor is skipped with a message; otherwise the number of entries and of
  trailing bytes are printed, and then every line of the table, from the bytes of the section in
  the file, or, when a read fails, a single error line. Nothing stays open or allocated.\<close>
theorem dump_td_correct:
  assumes "(dump, name, t, items) \<in>
      {(dump_td_v5 strerror, ''TD_V5'', TD_V5, td_v5_items), (dump_td_v11 strerror, ''TD_V11'', TD_V11, td_v11_items)}"
    and "file_wf f" and "file_open ino f w" and "sg \<in> set (hf_segments f)" and "s \<in> set (seg_sections sg)"
  shows "\<exists>outs w1. dump (Some f) (Some s) w = Some (outs, w1) \<and> same_res w w1 \<and>
    (if unat (sec_size s) < td_sizeof t
     then outs = [println (newline @ ''__TEXT/__text is smaller than a '' @ name @ ''; skipping dump.'')]
     else \<exists>lines. dump_items t items (window_bytes ino (unat (sec_offset s)) (td_sizeof t)) = Some lines \<and>
       (outs = td_head (td_sizeof t) (sec_size s) @ lines \<or> \<not> fault_free w \<and>
        outs = td_head (td_sizeof t) (sec_size s) @ [eprintln (''Failed to read __TEXT/__text: '' @ strerror (errno w1))]))"
proof -
  have t: "(t, items) \<in> {(TD_V5, td_v5_items), (TD_V11, td_v11_items)}" and
    dump: "dump = dump_td strerror name t items"
    using assms(1) by (auto simp: dump_td_v5_def dump_td_v11_def)
  from dump_td_ok [OF t assms(3) section_window [OF assms(2,4,5)], of strerror name] show ?thesis
    unfolding dump .
qed

text \<open>C26: Whatever the file holds, main of the disassembler comes to its end wherever
  \<open>hwx_open\<close> does: no array is indexed out of bounds, no payload read beyond its length, and
  what was opened and allocated is given back. It succeeds exactly when \<open>hwx_open\<close> opens the
  file; then it prints header, all segments and all thread states, and hands the section
  \<open>hwx_get_tsk_section\<close> finds to the dumper of the version. The only files on which \<open>hwx_open\<close>
  itself, and so main, has no defined result are the short ones: those with a segment command
  shorter than its fixed part.\<close>
theorem disasm_main_correct:
  assumes "io_ok w"
  shows "if length argv < 2
    then disasm_main strerror argv w = Some (EXIT_FAILURE, [eprintln ''Usage: ane-disasm <path/to/model.hwx>''], w)
    else (case hwx_open (Some (argv ! 1)) w of
        None \<Rightarrow> disasm_main strerror argv w = None \<and>
          (\<exists>ino. paths w (argv ! 1) = Inr ino \<and> short_file (contents ino))
      | Some (None, w2) \<Rightarrow> (\<exists>w1. disasm_main strerror argv w = Some (EXIT_FAILURE,
            [eprintln (''Failed to load '' @ argv ! 1 @ '': '' @ strerror (errno w2))], w1) \<and>
          live w1 = live w \<and> fds w1 = fds w)
      | Some (Some f, w2) \<Rightarrow> (\<exists>segments states tds w3 w1.
          dump_segments (hf_segments f) None = Some (segments, found (hwx_get_tsk_section (Some f))) \<and>
          dump_states f = Some states \<and>
          dump_tds strerror f (found (hwx_get_tsk_section (Some f))) w2 = Some (tds, w3) \<and>
          disasm_main strerror argv w = Some (EXIT_SUCCESS,
            dump_header f @ println (newline @ ''Segments ('' @ dec32 (hf_segment_count f) @ '')'') #
              segments @ states @ tds, w1) \<and>
          live w1 = live w \<and> fds w1 = fds w))"
proof (cases "length argv < 2")
  case True
  then show ?thesis by (simp add: disasm_main_def)
next
  case False
  let ?path = "argv ! 1"
  note opened = hwx_open_ok [OF assms(1), of "Some ?path"]
  show ?thesis
  proof (cases "hwx_open (Some ?path) w")
    case None
    with opened False show ?thesis by (simp add: disasm_main_def)
  next
    case (Some r)
    show ?thesis
    proof (cases "fst r")
      case None
      with opened Some False show ?thesis
        by (cases r) (simp add: disasm_main_def heap_ok_def)
    next
      case f: (Some f)
      obtain w2 where r: "r = (Some f, w2)" using f by (cases r) simp
      with opened Some obtain ino where ino: "paths w ?path = Inr ino" "fds w (hf_fd f) = None"
        "open_result ((fds w)(hf_fd f \<mapsto> ino)) (live w) ino (hf_fd f) (Some (Some f, w2))" by auto
      have res: "heap_ok (live w) (mset (blocks (file_blocks f)) + {#}) w2" "file_wf f"
        "fds w2 = (fds w)(hf_fd f \<mapsto> ino)"
        using ino(3) by (simp_all add: open_result_def)
      then have counts: "file_counts_ok f" by (simp add: file_wf_def)
      have "file_open ino f w2"
        using ino assms(1) by (auto simp: open_result_def file_open_def io_ok_def)
      from dump_file_ok [OF res(2) this, of strerror] obtain segments states tds w3 where
        d: "dump_segments (hf_segments f) None = Some (segments, found (hwx_get_tsk_section (Some f)))"
          "dump_states f = Some states"
          "dump_tds strerror f (found (hwx_get_tsk_section (Some f))) w2 = Some (tds, w3)" "same_res w2 w3"
          "dump_file strerror f w2 = Some (dump_header f @ println (newline @ ''Segments ('' @
             dec32 (hf_segment_count f) @ '')'') # segments @ states @ tds, w3)" by blast
      have "heap_ok (live w) (mset (blocks (file_blocks f)) + {#}) w3"
        using res(1) d(4) by (simp add: heap_ok_def same_res_def)
      from hwx_close_ok [OF this counts] obtain w4 where
        w4: "hwx_close (Some f) w3 = Some w4" "heap_ok (live w) {#} w4" "fds w4 = (fds w3)(hf_fd f := None)" by blast
      have "fds w4 = fds w" using w4(3) d(4) res(3) ino(2) by (auto simp: same_res_def)
      with w4 d Some r False show ?thesis
        by (simp add: disasm_main_def hwx_header_def heap_ok_def)
    qed
  qed
qed

text \<open>C28: Of two descriptors of one version the dumpers print the same text exactly when they agree on
  every value printed, so the text determines the values; every descriptor can be printed; and each
  member of the structs is printed or is one of those listed, or is in one of them.\<close>
theorem dump_items_readback:
  assumes "(t, items, omitted) \<in> {(TD_V5, td_v5_items, td_v5_omitted), (TD_V11, td_v11_items, td_v11_omitted)}"
    and "length raw = td_sizeof t" and "length raw' = td_sizeof t"
  shows "dump_items t items raw \<noteq> None \<and>
    (dump_items t items raw = dump_items t items raw' \<longleftrightarrow> list_all (agree t raw raw') items) \<and>
    (\<forall>p\<in>set (paths_of t). printed_or omitted (item_reads items) p)"
proof -
  have t: "(t, items) \<in> {(TD_V5, td_v5_items), (TD_V11, td_v11_items)}" using assms(1) by auto
  note ok = td_items_paths [OF t]
  have "\<forall>p\<in>set (paths_of t). printed_or omitted (item_reads items) p"
    using assms(1) td_v5_printed td_v11_printed by auto
  moreover have "dump_items t items raw \<noteq> None"
    using dump_items_Some [OF ok(1) _ ok(2), of raw] assms(2) by auto
  ultimately show ?thesis
    using dump_items_agree [OF ok(1) _ _ ok(2), of raw raw'] assms(2,3) by simp
qed

section \<open>Samples\<close>

theorem dump_items_readback_witness:
  "dump_items TD_V11 td_v11_items (replicate 0x100 0) \<noteq> None \<and>
    (dump_items TD_V11 td_v11_items (replicate 0x100 0) = dump_items TD_V11 td_v11_items (replicate 0x100 1) \<longleftrightarrow>
     list_all (agree TD_V11 (replicate 0x100 0) (replicate 0x100 1)) td_v11_items) \<and>
    printed_or td_v11_omitted (item_reads td_v11_items) [''common'', ''InDim_Win'']"
proof -
  have "[''common'', ''InDim_Win''] \<in> set (paths_of TD_V11)"
    by (simp add: TD_V11_def CommonHeader_V11_def)
  with dump_items_readback [of TD_V11 td_v11_items td_v11_omitted "replicate 0x100 0" "replicate 0x100 1"]
  show ?thesis by (simp add: td_sizes)
qed

text \<open>A file with a descriptor of version 5 and four more bytes in its \<open>__text\<close>.\<close>

definition td_segment :: hwx_segment where
  "td_segment = sample_segment\<lparr>seg_filesize := 0x27C,
     seg_sections := [sample_section ''__text'' 0x278 288, sample_section ''__const'' 4 920]\<rparr>"

definition td_commands :: "command list" where
  "td_commands = [Seg td_segment, Thr [sample_thread]]"

definition td_payload :: bytes where
  "td_payload = replicate 0x280 0"

definition td_header :: mach_header where
  "td_header = sample_header\<lparr>hd_cpusubtype := 1\<rparr>"

lemma td_lengths: "length (put_commands td_commands) = 252" "length td_payload = 0x280"
  by (simp_all add: put_commands_def td_commands_def td_segment_def sample_segment_def put_segment_def
      put_section_def sample_section_def put_name_def cstr_def sample_thread_def
      put_thread_state_def td_payload_def Let_def)

lemma td_file_ok: "file_ok td_header td_commands td_payload"
proof -
  have len: "length (put_file td_header td_commands td_payload) = 924"
    by (simp add: put_file_def td_lengths)
  have cmds: "list_all (command_ok 924) td_commands"
    by (simp add: td_commands_def segment_ok_def td_segment_def sample_segment_def section_ok_def
        sample_section_def sample_names thread_ok_def sample_thread_def put_thread_state_def)
  have seg: "segments_of td_commands = [td_segment]"
    by (simp add: segments_of_def td_commands_def)
  have "find_section (Some (cstr ''__TEXT'')) (cstr ''__text'') [td_segment] \<noteq> None"
    "find_section (Some (cstr ''__TEXT'')) (cstr ''__const'') [td_segment] \<noteq> None"
    by (simp_all add: td_segment_def sample_segment_def sample_section_def cstr_def)
  with len cmds seg show ?thesis
    by (simp add: file_ok_def td_lengths) (simp add: td_header_def sample_header_def td_commands_def)
qed

definition td_env :: io where
  "td_env = env_of (put_file td_header td_commands td_payload) [] []"

lemma td_opened:
  obtains f w1 ino sg where "hwx_open (Some ''td.hwx'') td_env = Some (Some f, w1)" "file_wf f"
    "file_open ino f w1" "sg \<in> set (hf_segments f)"
    "sample_section ''__text'' 0x278 288 \<in> set (seg_sections sg)"
proof -
  have env: "io_ok td_env" "fault_free td_env" "paths td_env ''td.hwx'' =
      Inr \<lparr>stat_error = None, is_regular = True, contents = put_file td_header td_commands td_payload\<rparr>"
    using td_file_ok by (simp_all add: td_env_def env_of_def io_ok_def fault_free_def only_intr_def file_ok_def)
  from hwx_open_put_file [OF env(1,2) td_file_ok env(3)] obtain f w1 where
    f: "hwx_open (Some ''td.hwx'') td_env = Some (Some f, w1)" "abs_file f = (td_header, [td_segment], [sample_thread])"
    by (auto simp: segments_of_def threads_of_def td_commands_def)
  from f(2) obtain sg where sg: "hf_segments f = [sg]" "strip_segment sg = td_segment"
    by (auto simp: abs_file_def)
  then have "seg_sections sg = seg_sections td_segment" by (simp add: strip_segment_def flip: sg(2))
  then have "sample_section ''__text'' 0x278 288 \<in> set (seg_sections sg)" by (simp add: td_segment_def)
  with f sg hwx_open_ok [OF env(1), of "Some ''td.hwx''"] env(3) td_file_ok show thesis
    by (intro that [of f w1 "\<lparr>stat_error = None, is_regular = True, contents = put_file td_header td_commands td_payload\<rparr>" sg])
      (auto simp: open_result_def file_open_def file_ok_def)
qed

theorem dump_td_correct_witness:
  "\<exists>f w1 outs w2. hwx_open (Some ''td.hwx'') td_env = Some (Some f, w1) \<and>
     dump_td_v5 (\<lambda>e. ''error'') (Some f) (Some (sample_section ''__text'' 0x278 288)) w1 = Some (outs, w2) \<and>
     take 3 outs = td_head 0x274 0x278"
proof -
  obtain f w1 ino sg where f: "hwx_open (Some ''td.hwx'') td_env = Some (Some f, w1)" "file_wf f"
    "file_open ino f w1" "sg \<in> set (hf_segments f)"
    "sample_section ''__text'' 0x278 288 \<in> set (seg_sections sg)" by (rule td_opened)
  have head: "length (td_head 0x274 0x278) = 3" by (simp add: td_head_def)
  have size: "sec_size (sample_section ''__text'' 0x278 288) = 0x278" by (simp add: sample_section_def)
  from dump_td_correct [of "dump_td_v5 (\<lambda>e. ''error'')" "''TD_V5''" TD_V5 td_v5_items "\<lambda>e. ''error''", OF _ f(2-5)]
  obtain outs w2 rest where
    "dump_td_v5 (\<lambda>e. ''error'') (Some f) (Some (sample_section ''__text'' 0x278 288)) w1 = Some (outs, w2)"
    "outs = td_head 0x274 0x278 @ rest"
    by (auto simp: td_sizes size)
  with f(1) head show ?thesis by auto
qed

theorem disasm_main_correct_witness:
  "(\<exists>outs w1. disasm_main (\<lambda>e. ''error'') [''ane-disasm'', ''model.hwx''] sample_env = Some (EXIT_SUCCESS, outs, w1) \<and>
     live w1 = live sample_env \<and> fds w1 = fds sample_env \<and> hd outs = println ''HWX Header'') \<and>
   (\<exists>w1. disasm_main (\<lambda>e. ''error'') [''ane-disasm''] sample_env =
     Some (EXIT_FAILURE, [eprintln ''Usage: ane-disasm <path/to/model.hwx>''], w1))"
proof
  obtain f w1 where f: "hwx_open (Some ''model.hwx'') sample_env = Some (Some f, w1)" using sample_opens by blast
  with disasm_main_correct [OF sample_env_ok(1), of "[''ane-disasm'', ''model.hwx'']" "\<lambda>e. ''error''"]
  show "\<exists>outs w1. disasm_main (\<lambda>e. ''error'') [''ane-disasm'', ''model.hwx''] sample_env = Some (EXIT_SUCCESS, outs, w1) \<and>
     live w1 = live sample_env \<and> fds w1 = fds sample_env \<and> hd outs = println ''HWX Header''"
    by (auto simp: dump_header_def Let_def)
  show "\<exists>w1. disasm_main (\<lambda>e. ''error'') [''ane-disasm''] sample_env =
     Some (EXIT_FAILURE, [eprintln ''Usage: ane-disasm <path/to/model.hwx>''], w1)"
    using disasm_main_correct [OF sample_env_ok(1), of "[''ane-disasm'']" "\<lambda>e. ''error''"] by auto
qed

end
