(* ===== verification/Lib_Round.thy ===== *)
theory Lib_Round
  imports Complex_Main Ane_Prelude
begin

text \<open>
  Rounding as IEEE 754 does it, to the nearest and in case of a tie to the even neighbour, for the
  conversions of \<open>ane_f16.h\<close>. A format has \<open>p\<close> bits of fraction and the least exponent \<open>emin\<close>; its
  finite numbers are the \<open>m * 2 ^ e\<close> with \<open>m < 2 ^ (p + 1)\<close> and \<open>emin \<le> e\<close>, written as one natural
  number, the exponent before the fraction.
\<close>

section \<open>Length\<close>

fun bit_length :: "nat \<Rightarrow> nat" where
  "bit_length m = (if m = 0 then 0 else Suc (bit_length (m div 2)))"

declare bit_length.simps [simp del]

lemma bit_length_0 [simp]: "bit_length 0 = 0"
  by (simp add: bit_length.simps)

lemma bit_length_bounds: "0 < m \<Longrightarrow> 2 ^ bit_length m \<le> 2 * m \<and> m < 2 ^ bit_length m"
proof (induction m rule: bit_length.induct)
  case (1 m)
  show ?case
  proof (cases "m = 1")
    case True
    then show ?thesis by (simp add: bit_length.simps)
  next
    case False
    with 1 have "2 ^ bit_length (m div 2) \<le> 2 * (m div 2)" "m div 2 < 2 ^ bit_length (m div 2)" by simp_all
    moreover have "bit_length m = Suc (bit_length (m div 2))"
      using 1 by (subst bit_length.simps) simp
    ultimately show ?thesis using 1(2) by simp linarith
  qed
qed

lemma bit_length_unique:
  assumes "2 ^ k \<le> m" and "m < 2 ^ Suc k"
  shows "bit_length m = Suc k"
proof -
  have "0 < m" using assms(1) by (metis gr0I not_one_le_zero one_le_numeral one_le_power order_trans)
  note b = bit_length_bounds [OF this]
  have "(2 :: nat) ^ k < 2 ^ bit_length m" using assms(1) b by linarith
  moreover have "(2 :: nat) ^ bit_length m < 2 ^ Suc (Suc k)" using assms(2) b by simp
  ultimately have "k < bit_length m" "bit_length m < Suc (Suc k)"
    by (metis one_less_numeral_iff power_less_imp_less_exp semiring_norm(76))+
  then show ?thesis by simp
qed

lemma bit_length_le: "m < 2 ^ k \<Longrightarrow> bit_length m \<le> k"
proof (cases "m = 0")
  case False
  assume "m < 2 ^ k"
  with False bit_length_bounds [of m] have "(2 :: nat) ^ bit_length m < 2 ^ Suc k" by simp
  then show ?thesis by (metis less_Suc_eq_le one_less_numeral_iff power_less_imp_less_exp semiring_norm(76))
qed simp

lemma bit_length_shift: "0 < m \<Longrightarrow> bit_length (m * 2 ^ k) = bit_length m + k"
proof -
  assume m: "0 < m"
  then obtain l where l: "bit_length m = Suc l" by (cases "bit_length m") (auto simp: bit_length.simps split: if_splits)
  with bit_length_bounds [OF m] have "2 ^ l \<le> m" "m < 2 ^ Suc l" by simp_all
  then have "2 ^ (l + k) \<le> m * 2 ^ k" "m * 2 ^ k < 2 ^ Suc (l + k)" by (simp_all add: power_add)
  then show ?thesis using bit_length_unique [of "l + k" "m * 2 ^ k"] l by simp
qed

section \<open>Rounding to a multiple of a power of two\<close>

text \<open>\<open>m / 2 ^ s\<close> rounded; with a negative \<open>s\<close> nothing is lost.\<close>

definition rne :: "nat \<Rightarrow> nat \<Rightarrow> nat" where
  "rne m s = (let q = m div 2 ^ s; r = m mod 2 ^ s in
     if 2 * r < 2 ^ s \<or> 2 * r = 2 ^ s \<and> even q then q else Suc q)"

definition shift_rne :: "nat \<Rightarrow> int \<Rightarrow> nat" where
  "shift_rne m s = (if s \<le> 0 then m * 2 ^ nat (- s) else rne m (nat s))"

lemma rne_0 [simp]: "rne m 0 = m"
  by (simp add: rne_def)

lemma rne_shift: "rne (m * 2 ^ k) (s + k) = rne m s"
proof -
  have "m * 2 ^ k div 2 ^ (s + k) = m div 2 ^ s" by (simp add: power_add div_mult_mult1_if mult.commute)
  moreover have "m * 2 ^ k mod 2 ^ (s + k) = (m mod 2 ^ s) * 2 ^ k"
    by (simp add: power_add mult_mod_left)
  moreover have "2 * (r * 2 ^ k) < 2 ^ (s + k) \<longleftrightarrow> 2 * r < 2 ^ s" for r :: nat
    by (simp add: power_add flip: mult.assoc)
  moreover have "2 * (r * 2 ^ k) = 2 ^ (s + k) \<longleftrightarrow> 2 * r = 2 ^ s" for r :: nat
    by (simp add: power_add flip: mult.assoc)
  ultimately show ?thesis by (simp only: rne_def Let_def)
qed

lemma shift_rne_shift: "shift_rne (m * 2 ^ k) (s + int k) = shift_rne m s"
proof (cases "s \<le> 0")
  case True
  show ?thesis
  proof (cases "s + int k \<le> 0")
    case True
    with \<open>s \<le> 0\<close> have "nat (- s) = k + nat (- (s + int k))" by linarith
    with True \<open>s \<le> 0\<close> show ?thesis by (simp add: shift_rne_def power_add mult.assoc)
  next
    case False
    with \<open>s \<le> 0\<close> have k: "k = nat (s + int k) + nat (- s)" by linarith
    have "rne (m * 2 ^ k) (nat (s + int k)) = m * 2 ^ nat (- s)"
      using rne_shift [of "m * 2 ^ nat (- s)" "nat (s + int k)" 0] by (subst k) (simp add: power_add ac_simps)
    with False \<open>s \<le> 0\<close> show ?thesis by (simp add: shift_rne_def)
  qed
next
  case False
  then have "nat (s + int k) = nat s + k" by linarith
  with False rne_shift [of m k "nat s"] show ?thesis by (simp add: shift_rne_def)
qed

text \<open>A multiple of twice the unit does not take part.\<close>

lemma rne_add: "even c \<Longrightarrow> rne (c * 2 ^ s + m) s = c + rne m s"
  by (auto simp: rne_def Let_def)

text \<open>The result is a nearest multiple, and at a tie an even one.\<close>

lemma multiple_apart:
  assumes "0 \<le> r" and "r < M"
  shows "c * M - (q * M + r) \<le> - r \<or> M - r \<le> c * M - (q * M + (r :: int))"
proof (cases "c \<le> q")
  case True
  then have "c * M \<le> q * M" using assms by (intro mult_right_mono) auto
  then show ?thesis by simp
next
  case False
  then have "(q + 1) * M \<le> c * M" using assms by (intro mult_right_mono) auto
  then show ?thesis by (simp add: algebra_simps)
qed

text \<open>The distance of the rounded number, below or above.\<close>

lemma rne_cases:
  obtains q r :: int where "int m = q * 2 ^ s + r" and "0 \<le> r" and "r < 2 ^ s"
    and "int (rne m s) = q \<and> 2 * r \<le> 2 ^ s \<or> int (rne m s) = q + 1 \<and> 2 ^ s \<le> 2 * r"
    and "2 * r = 2 ^ s \<longrightarrow> even (rne m s)"
proof -
  define M where "M = (2 :: nat) ^ s"
  define q where "q = m div M"
  define r where "r = m mod M"
  have m: "m = q * M + r" and r: "r < M" by (simp_all only: q_def r_def div_mult_mod_eq) (simp add: M_def)
  have c: "rne m s = (if 2 * r < M \<or> 2 * r = M \<and> even q then q else Suc q)"
    by (simp add: rne_def Let_def q_def r_def M_def)
  have M: "(2 :: int) ^ s = int M" by (simp add: M_def)
  show thesis
  proof (rule that [of "int q" "int r", unfolded M])
    show "int m = int q * int M + int r" by (simp add: m)
    show "int (rne m s) = int q \<and> 2 * int r \<le> int M \<or> int (rne m s) = int q + 1 \<and> int M \<le> 2 * int r"
      unfolding c by auto
    show "2 * int r = int M \<longrightarrow> even (rne m s)" unfolding c by auto
  qed (use r in simp_all)
qed

lemma rne_nearest: "\<bar>int (rne m s) * 2 ^ s - int m\<bar> \<le> \<bar>c * 2 ^ s - int m\<bar>"
proof -
  obtain q r :: int where qr: "int m = q * 2 ^ s + r" "0 \<le> r" "r < 2 ^ s"
    "int (rne m s) = q \<and> 2 * r \<le> 2 ^ s \<or> int (rne m s) = q + 1 \<and> 2 ^ s \<le> 2 * r"
    by (rule rne_cases [of m s])
  have "int (rne m s) * 2 ^ s - int m = - r \<and> 2 * r \<le> 2 ^ s \<or>
      int (rne m s) * 2 ^ s - int m = 2 ^ s - r \<and> 2 ^ s \<le> 2 * r"
    using qr(4) unfolding qr(1) by (auto simp: algebra_simps)
  moreover have "c * 2 ^ s - int m \<le> - r \<or> 2 ^ s - r \<le> c * 2 ^ s - int m"
    using multiple_apart [OF qr(2,3), of c q] unfolding qr(1) .
  ultimately show ?thesis using qr(2,3) by linarith
qed

lemma rne_tie:
  assumes "\<bar>int (rne m s) * 2 ^ s - int m\<bar> = \<bar>c * 2 ^ s - int m\<bar>" and "c \<noteq> int (rne m s)"
  shows "even (rne m s)"
proof -
  obtain q r :: int where qr: "int m = q * 2 ^ s + r" "0 \<le> r" "r < 2 ^ s"
    "int (rne m s) = q \<and> 2 * r \<le> 2 ^ s \<or> int (rne m s) = q + 1 \<and> 2 ^ s \<le> 2 * r"
    "2 * r = 2 ^ s \<longrightarrow> even (rne m s)" by (rule rne_cases [of m s])
  have d: "int (rne m s) * 2 ^ s - int m = - r \<and> 2 * r \<le> 2 ^ s \<or>
      int (rne m s) * 2 ^ s - int m = 2 ^ s - r \<and> 2 ^ s \<le> 2 * r"
    using qr(4) unfolding qr(1) by (auto simp: algebra_simps)
  have M: "(0 :: int) \<le> 2 ^ s" "0 < (2 :: int) ^ s" by simp_all
  consider "c \<le> q - 1" | "c = q" "int (rne m s) = q + 1" | "c = q + 1" "int (rne m s) = q" | "q + 2 \<le> c"
    using assms(2) qr(4) by linarith
  then have "2 * r = 2 ^ s"
  proof cases
    case 1
    then have "c * 2 ^ s \<le> (q - 1) * 2 ^ s" using M(1) by (rule mult_right_mono)
    then have "c * 2 ^ s - int m \<le> - r - 2 ^ s" unfolding qr(1) by (simp add: algebra_simps)
    with assms(1) d qr(2,3) M(2) show ?thesis by linarith
  next
    case 2
    then have "c * 2 ^ s - int m = - r" "int (rne m s) * 2 ^ s - int m = 2 ^ s - r"
      unfolding qr(1) by (simp_all add: algebra_simps)
    with assms(1) qr(2,3) show ?thesis by linarith
  next
    case 3
    then have "c * 2 ^ s - int m = 2 ^ s - r" "int (rne m s) * 2 ^ s - int m = - r"
      unfolding qr(1) by (simp_all add: algebra_simps)
    with assms(1) qr(2,3) show ?thesis by linarith
  next
    case 4
    then have "(q + 2) * 2 ^ s \<le> c * 2 ^ s" using M(1) by (rule mult_right_mono)
    then have "2 * 2 ^ s - r \<le> c * 2 ^ s - int m" unfolding qr(1) by (simp add: algebra_simps)
    with assms(1) d qr(2,3) M(2) show ?thesis by linarith
  qed
  with qr(5) show ?thesis by blast
qed

section \<open>Formats\<close>

text \<open>The number nearest to \<open>m * 2 ^ e\<close> in the format, with exponents that may be too large; the
  carry of a fraction that rounds up goes into the exponent.\<close>

definition fp_exponent :: "nat \<Rightarrow> int \<Rightarrow> nat \<Rightarrow> int \<Rightarrow> int" where
  "fp_exponent p emin m e = max (e + int (bit_length m) - int p - 1) emin"

definition fp_round :: "nat \<Rightarrow> int \<Rightarrow> nat \<Rightarrow> int \<Rightarrow> nat" where
  "fp_round p emin m e = (if m = 0 then 0
     else nat (fp_exponent p emin m e - emin) * 2 ^ p + shift_rne m (fp_exponent p emin m e - e))"

definition fp_decode :: "nat \<Rightarrow> int \<Rightarrow> nat \<Rightarrow> nat \<times> int" where
  "fp_decode p emin b = (if b < 2 ^ p then (b, emin)
     else (2 ^ p + b mod 2 ^ p, int (b div 2 ^ p) - 1 + emin))"

text \<open>Only the value counts.\<close>

lemma fp_round_shift: "fp_round p emin (m * 2 ^ k) (e - int k) = fp_round p emin m e"
proof (cases "m = 0")
  case False
  then have "fp_exponent p emin (m * 2 ^ k) (e - int k) = fp_exponent p emin m e"
    by (simp add: fp_exponent_def bit_length_shift)
  moreover have "shift_rne (m * 2 ^ k) (x - (e - int k)) = shift_rne m (x - e)" for x
    using shift_rne_shift [of m k "x - e"] by (simp add: algebra_simps)
  ultimately show ?thesis using False by (simp add: fp_round_def)
qed (simp add: fp_round_def)

text \<open>A number of the format is not changed.\<close>

lemma digits:
  assumes "r < 2 ^ p"
  shows "(c * 2 ^ p + r) div 2 ^ p = (c :: nat)" and "(c * 2 ^ p + r) mod 2 ^ p = r"
  using assms by simp_all

lemma leading_bit:
  assumes "2 ^ p \<le> x" and "x < 2 ^ (p + 1)"
  obtains r :: nat where "x = 2 ^ p + r" and "r < 2 ^ p" and "x div 2 ^ p = 1" and "x mod 2 ^ p = r"
proof -
  obtain r where r: "x = 2 ^ p + r" "r < 2 ^ p" using assms by (intro that [of "x - 2 ^ p"]) auto
  then have "x div 2 ^ p = 1" "x mod 2 ^ p = r" using digits [of r p 1] by simp_all
  with r show thesis by (rule that)
qed

lemma fp_round_exact:
  assumes "m < 2 ^ (p + 1)" and "emin \<le> e"
  shows "\<exists>k. fp_decode p emin (fp_round p emin m e) = (m * 2 ^ k, if m = 0 then emin else e - int k)"
proof (cases "m = 0")
  case True
  then show ?thesis by (simp add: fp_round_def fp_decode_def)
next
  case False
  let ?E = "fp_exponent p emin m e" and ?k = "nat (e - fp_exponent p emin m e)"
  have le: "?E \<le> e" "emin \<le> ?E"
    using assms bit_length_le [OF assms(1)] by (simp_all add: fp_exponent_def)
  then have b: "fp_round p emin m e = nat (?E - emin) * 2 ^ p + m * 2 ^ ?k"
    using False by (simp add: fp_round_def shift_rne_def)
  have E: "?E = e - int ?k" using le(1) by simp
  have q: "0 < m * 2 ^ ?k" "bit_length (m * 2 ^ ?k) = bit_length m + ?k"
    using False bit_length_shift [of m ?k] by simp_all
  note len = bit_length_bounds [OF q(1), unfolded q(2)]
  have max: "?E = max (?E + int (bit_length m + ?k) - int p - 1) emin"
    using E by (simp add: fp_exponent_def)
  have top: "m * 2 ^ ?k < 2 ^ (p + 1)"
  proof -
    have "bit_length m + ?k \<le> p + 1" using max by linarith
    then have "(2 :: nat) ^ (bit_length m + ?k) \<le> 2 ^ (p + 1)" by (intro power_increasing) simp_all
    with len show ?thesis by linarith
  qed
  have "fp_decode p emin (fp_round p emin m e) = (m * 2 ^ ?k, ?E)"
  proof (cases "?E = emin")
    case True
    have "m * 2 ^ ?k div 2 ^ p = 1 \<and> 2 ^ p + m * 2 ^ ?k mod 2 ^ p = m * 2 ^ ?k" if "\<not> m * 2 ^ ?k < 2 ^ p"
    proof -
      have "2 ^ p \<le> m * 2 ^ ?k" using that by simp
      then obtain r where "m * 2 ^ ?k = 2 ^ p + r" "m * 2 ^ ?k div 2 ^ p = 1" "m * 2 ^ ?k mod 2 ^ p = r"
        using top by (rule leading_bit)
      then show ?thesis by simp
    qed
    with b True show ?thesis by (simp add: fp_decode_def)
  next
    case False
    then have "bit_length m + ?k = p + 1" using max le(2) by linarith
    then have low: "2 ^ p \<le> m * 2 ^ ?k" using len by simp
    obtain r where r: "m * 2 ^ ?k = 2 ^ p + r" "r < 2 ^ p"
      using low top by (rule leading_bit)
    from False le(2) have "nat (?E - emin) = Suc (nat (?E - emin - 1))" by linarith
    with b r(1) have "fp_round p emin m e = (nat (?E - emin) + 1) * 2 ^ p + r" by simp
    then have "fp_round p emin m e div 2 ^ p = nat (?E - emin) + 1" "fp_round p emin m e mod 2 ^ p = r"
      by (simp_all only: digits [OF r(2)])
    moreover from this(1) have "\<not> fp_round p emin m e < 2 ^ p" by auto
    ultimately show ?thesis using le(2) r(1) by (simp add: fp_decode_def)
  qed
  with E False show ?thesis by (metis)
qed

section \<open>What rounding gives\<close>

text \<open>The fraction has the right size: the exponent is the least one or the leading bit is set.\<close>

lemma shift_rne_bounds:
  fixes m p e emin
  defines "E \<equiv> fp_exponent p emin m e"
  assumes "0 < m"
  shows "shift_rne m (E - e) \<le> 2 ^ (p + 1)" and "E = emin \<or> 2 ^ p \<le> shift_rne m (E - e)"
proof -
  note len = bit_length_bounds [OF assms(2)]
  have max: "E = max (e + int (bit_length m) - int p - 1) emin" by (simp add: E_def fp_exponent_def)
  have "shift_rne m (E - e) \<le> 2 ^ (p + 1) \<and> (E = emin \<or> 2 ^ p \<le> shift_rne m (E - e))"
  proof (cases "E \<le> e")
    case True
    let ?k = "nat (e - E)"
    have "bit_length m + ?k \<le> p + 1" using True max by linarith
    then have "m * 2 ^ ?k < 2 ^ (p + 1)"
      using len by (smt (verit, best) less_le_trans mult_less_mono1 one_le_numeral power_add power_increasing zero_less_numeral zero_less_power)
    moreover have "2 ^ p \<le> m * 2 ^ ?k" if "E \<noteq> emin"
    proof -
      have "bit_length m + ?k = Suc p" using True max that by linarith
      then have "2 * 2 ^ p \<le> 2 * m * 2 ^ ?k"
        using len mult_le_mono1 [of "2 ^ bit_length m" "2 * m" "2 ^ ?k"] by (simp flip: power_add power_Suc)
      then show ?thesis by simp
    qed
    ultimately show ?thesis using True by (auto simp: shift_rne_def)
  next
    case False
    let ?s = "nat (E - e)"
    have q: "shift_rne m (E - e) = rne m ?s" "m div 2 ^ ?s \<le> rne m ?s" "rne m ?s \<le> m div 2 ^ ?s + 1"
      using False by (auto simp: shift_rne_def rne_def Let_def)
    have "bit_length m \<le> p + 1 + ?s" using False max by linarith
    then have "m < 2 ^ (p + 1 + ?s)" using len by (meson less_le_trans one_le_numeral power_increasing)
    then have "m div 2 ^ ?s < 2 ^ (p + 1)" by (simp add: power_add less_mult_imp_div_less)
    moreover have "2 ^ p \<le> m div 2 ^ ?s" if "E \<noteq> emin"
    proof -
      have "bit_length m = Suc (p + ?s)" using False max that by linarith
      then have "2 ^ (p + ?s) \<le> m" using len by simp
      then show ?thesis by (simp add: power_add less_eq_div_iff_mult_less_eq)
    qed
    ultimately show ?thesis using q by linarith
  qed
  then show "shift_rne m (E - e) \<le> 2 ^ (p + 1)" and "E = emin \<or> 2 ^ p \<le> shift_rne m (E - e)" by simp_all
qed

definition fp_real :: "nat \<times> int \<Rightarrow> real" where
  "fp_real = (\<lambda>(m, e). real m * 2 powi e)"

lemma fp_real_shift: "fp_real (m * 2 ^ k, e - int k) = fp_real (m, e)"
  by (simp add: fp_real_def power_int_diff)

text \<open>Rounding what is already rounded changes nothing, so the number written is the rounded one.\<close>

lemma fp_round_again:
  fixes m p e emin
  assumes "0 < m"
  defines "E \<equiv> fp_exponent p emin m e"
  shows "fp_round p emin (shift_rne m (E - e)) E = fp_round p emin m e"
proof -
  let ?q = "shift_rne m (E - e)"
  note b = shift_rne_bounds [OF assms(1), of p emin e, folded E_def]
  have E: "emin \<le> E" by (simp add: E_def fp_exponent_def)
  have bits: "fp_round p emin m e = nat (E - emin) * 2 ^ p + ?q" using assms by (simp add: fp_round_def)
  have same: "fp_round p emin x F = nat (F - emin) * 2 ^ p + x"
    if "x < 2 ^ (p + 1)" "F = emin \<or> 2 ^ p \<le> x" "emin \<le> F" for x F
  proof (cases "x = 0")
    case True
    with that show ?thesis by (auto simp: fp_round_def)
  next
    case False
    have "fp_exponent p emin x F = F"
      using that bit_length_unique [of p x] bit_length_le [of x "p + 1"] by (auto simp: fp_exponent_def)
    with False show ?thesis by (simp add: fp_round_def shift_rne_def)
  qed
  show ?thesis
  proof (cases "?q = 2 ^ (p + 1)")
    case True
    have "fp_round p emin ?q E = fp_round p emin (2 ^ p) (E + 1)"
      using fp_round_shift [of p emin "2 ^ p" 1 "E + 1"] by (simp add: True mult.commute)
    also have "\<dots> = nat (E + 1 - emin) * 2 ^ p + 2 ^ p" using E by (intro same) simp_all
    also have "nat (E + 1 - emin) = Suc (nat (E - emin))" using E by simp
    finally show ?thesis using bits True by simp
  next
    case False
    with b E show ?thesis by (simp add: bits same)
  qed
qed

lemma fp_round_value:
  fixes m p e emin
  assumes "0 < m"
  defines "E \<equiv> fp_exponent p emin m e"
  shows "fp_real (fp_decode p emin (fp_round p emin m e)) = fp_real (shift_rne m (E - e), E)"
proof -
  have exact: "fp_real (fp_decode p emin (fp_round p emin x F)) = fp_real (x, F)"
    if "x < 2 ^ (p + 1)" "emin \<le> F" for x F
    using fp_round_exact [OF that] fp_real_shift [of x _ F] by (auto simp: fp_real_def)
  let ?q = "shift_rne m (E - e)"
  have E: "emin \<le> E" by (simp add: E_def fp_exponent_def)
  note again = fp_round_again [OF assms(1), of p emin e, folded E_def]
  note b = shift_rne_bounds(1) [OF assms(1), of p emin e, folded E_def]
  show ?thesis
  proof (cases "?q = 2 ^ (p + 1)")
    case True
    have "fp_round p emin ?q E = fp_round p emin (2 ^ p) (E + 1)"
      using fp_round_shift [of p emin "2 ^ p" 1 "E + 1"] by (simp add: True mult.commute)
    moreover have "fp_real (2 ^ p, E + 1) = fp_real (?q, E)"
      using fp_real_shift [of "2 ^ p" 1 "E + 1"] by (simp add: True mult.commute)
    ultimately show ?thesis using again exact [of "2 ^ p" "E + 1"] E by simp
  next
    case False
    with again b E exact [of ?q E] show ?thesis by simp
  qed
qed

text \<open>No number of the format is nearer, and one as near only if the fraction is even.\<close>

lemma multiples_real:
  fixes s :: nat and e :: int
  defines "u \<equiv> (2 :: real) powi e"
  shows "\<bar>fp_real (rne m s, e + int s) - fp_real (m, e)\<bar> \<le> \<bar>real_of_int c * 2 ^ s * u - fp_real (m, e)\<bar> \<and>
    (\<bar>fp_real (rne m s, e + int s) - fp_real (m, e)\<bar> = \<bar>real_of_int c * 2 ^ s * u - fp_real (m, e)\<bar> \<longrightarrow>
      c = int (rne m s) \<or> even (rne m s))"
proof -
  have u: "0 < u" by (simp add: u_def)
  have d: "\<bar>real_of_int c * 2 ^ s * u - fp_real (m, e)\<bar> = real_of_int \<bar>c * 2 ^ s - int m\<bar> * u" for c
    using u by (simp add: fp_real_def u_def abs_mult flip: left_diff_distrib)
  have r: "fp_real (rne m s, e + int s) = real_of_int (int (rne m s)) * 2 ^ s * u"
    by (simp add: fp_real_def u_def power_int_add)
  show ?thesis
    unfolding r d using u rne_nearest [of m s c] rne_tie [of m s c]
    by (auto simp: mult_right_mono simp del: of_int_abs)
qed

lemma fp_round_nearest:
  fixes p m e m' e' emin
  assumes p: "0 < p" and x: "m' < 2 ^ (p + 1)" "emin \<le> e'"
  defines "r \<equiv> fp_real (fp_decode p emin (fp_round p emin m e))"
  shows "\<bar>r - fp_real (m, e)\<bar> \<le> \<bar>fp_real (m', e') - fp_real (m, e)\<bar> \<and>
    (\<bar>r - fp_real (m, e)\<bar> = \<bar>fp_real (m', e') - fp_real (m, e)\<bar> \<longrightarrow>
      fp_real (m', e') = r \<or> even (fp_round p emin m e))"
proof (cases "m = 0")
  case True
  then show ?thesis by (simp add: r_def fp_round_def fp_decode_def fp_real_def)
next
  case False
  let ?E = "fp_exponent p emin m e"
  have r: "r = fp_real (shift_rne m (?E - e), ?E)"
    using fp_round_value [of m p emin e] False by (simp add: r_def)
  show ?thesis
  proof (cases "?E \<le> e")
    case True
    then have "r = fp_real (m, e)"
      using fp_real_shift [of m "nat (e - ?E)" e] by (simp add: r shift_rne_def)
    then show ?thesis by auto
  next
    case below: False
    define s where "s = nat (?E - e)"
    have E: "?E = e + int s" and s: "nat (?E - e) = s" using below by (simp_all add: s_def)
    have rs: "r = fp_real (rne m s, e + int s)" using below unfolding r shift_rne_def s by (simp add: E)
    have bits: "even (fp_round p emin m e) \<longleftrightarrow> even (rne m s)"
      using False below p by (simp add: fp_round_def shift_rne_def s)
    note near = multiples_real [of m s e, folded rs]
    show ?thesis
    proof (cases "?E \<le> e'")
      case True
      define c where "c = int m' * 2 ^ nat (e' - ?E)"
      have x: "fp_real (m', e') = real_of_int c * 2 ^ s * 2 powi e"
      proof -
        obtain k where k: "e' = ?E + int k" using True zle_iff_zadd by blast
        then have "c = int m' * 2 ^ k" by (simp add: c_def)
        then show ?thesis by (simp add: fp_real_def k E power_int_add)
      qed
      have "r = real_of_int (int (rne m s)) * 2 ^ s * 2 powi e"
        by (simp add: rs fp_real_def power_int_add)
      with x have same: "fp_real (m', e') = r" if "c = int (rne m s)" by (simp only: that)
      from near [of c, folded x] same bits show ?thesis by blast
    next
      case False
      then have "?E = e + int (bit_length m) - int p - 1" using x(2) by (simp add: fp_exponent_def)
      then have "bit_length m = Suc (p + s)" using E by linarith
      then have "2 ^ (p + s) \<le> m" using bit_length_bounds [of m] \<open>m \<noteq> 0\<close> by simp
      then have "2 ^ (p + s) \<le> real m" by (metis of_nat_le_iff of_nat_numeral of_nat_power)
      then have top: "real_of_int (2 ^ p) * 2 ^ s * 2 powi e \<le> fp_real (m, e)"
        by (simp add: fp_real_def power_add)
      have low: "fp_real (m', e') < real_of_int (2 ^ p) * 2 ^ s * 2 powi e"
      proof -
        have "real m' < 2 ^ (p + 1)" using x(1) by (metis of_nat_less_iff of_nat_numeral of_nat_power)
        moreover have "(2 :: real) powi e' \<le> 2 powi (?E - 1)" using False by (intro power_int_increasing) simp_all
        ultimately have "real m' * 2 powi e' < 2 ^ (p + 1) * 2 powi (?E - 1)"
          by (intro mult_less_le_imp_less) simp_all
        also have "\<dots> = real_of_int (2 ^ p) * 2 ^ s * 2 powi e"
          by (subst E) (simp add: power_int_diff power_int_add)
        finally show ?thesis by (simp add: fp_real_def)
      qed
      from near [of "2 ^ p"] top low have "\<bar>r - fp_real (m, e)\<bar> < \<bar>fp_real (m', e') - fp_real (m, e)\<bar>"
        by linarith
      then show ?thesis by simp
    qed
  qed
qed

end
