(* ===== verification/Lib_Half.thy ===== *)
theory Lib_Half
  imports Lib_Round
begin

text \<open>
  The conversions between half and single precision of \<open>src/src/libane/ane_f16.h\<close>. A \<open>float\<close> is its
  bit pattern, IEEE 754 binary32, and its operations are those of IEEE 754 in the default rounding
  mode, each rounded to binary32 (\<open>FLT_EVAL_METHOD\<close> 0, as on AArch64); which NaN an operation returns
  is left open by the parameter \<open>nan\<close>.
\<close>

section \<open>Single precision\<close>

type_synonym f32 = u32

definition f32_sign :: "f32 \<Rightarrow> bool" where
  "f32_sign w = bit w 31"

text \<open>The magnitude: the bits below the sign.\<close>

definition f32_mag :: "f32 \<Rightarrow> nat" where
  "f32_mag w = unat w mod 2 ^ 31"

abbreviation F32_INF :: nat where "F32_INF \<equiv> 0x7F800000"

definition f32_nan :: "f32 \<Rightarrow> bool" where
  "f32_nan w \<longleftrightarrow> F32_INF < f32_mag w"

abbreviation f32_round :: "nat \<Rightarrow> int \<Rightarrow> nat" where
  "f32_round \<equiv> fp_round 23 (- 149)"

abbreviation f32_decode :: "nat \<Rightarrow> nat \<times> int" where
  "f32_decode \<equiv> fp_decode 23 (- 149)"

text \<open>A sign and a magnitude too large for a finite number give infinity.\<close>

definition f32_make :: "bool \<Rightarrow> nat \<Rightarrow> f32" where
  "f32_make s b = of_nat ((if s then 2 ^ 31 else 0) + min b F32_INF)"

definition f32_abs :: "f32 \<Rightarrow> f32" where
  "f32_abs a = a AND 0x7FFFFFFF"

definition f32_neg :: "f32 \<Rightarrow> f32" where
  "f32_neg a = a XOR 0x80000000"

definition f32_mul :: "(f32 \<Rightarrow> f32 \<Rightarrow> f32) \<Rightarrow> f32 \<Rightarrow> f32 \<Rightarrow> f32" where
  "f32_mul nan a b =
     (let s = (f32_sign a \<noteq> f32_sign b) in
      if f32_nan a \<or> f32_nan b then nan a b
      else if f32_mag a = F32_INF then (if f32_mag b = 0 then nan a b else f32_make s F32_INF)
      else if f32_mag b = F32_INF then (if f32_mag a = 0 then nan a b else f32_make s F32_INF)
      else case (f32_decode (f32_mag a), f32_decode (f32_mag b)) of ((m, e), (n, f)) \<Rightarrow>
        f32_make s (f32_round (m * n) (e + f)))"

text \<open>The exact sum, in units of the smaller exponent.\<close>

definition f32_add :: "(f32 \<Rightarrow> f32 \<Rightarrow> f32) \<Rightarrow> f32 \<Rightarrow> f32 \<Rightarrow> f32" where
  "f32_add nan a b =
     (if f32_nan a \<or> f32_nan b then nan a b
      else if f32_mag a = F32_INF then
        (if f32_mag b = F32_INF \<and> f32_sign a \<noteq> f32_sign b then nan a b else a)
      else if f32_mag b = F32_INF then b
      else case (f32_decode (f32_mag a), f32_decode (f32_mag b)) of ((m, e), (n, f)) \<Rightarrow>
        let g = min e f;
            x = (if f32_sign a then - 1 else 1) * int m * 2 ^ nat (e - g);
            y = (if f32_sign b then - 1 else 1) * int n * 2 ^ nat (f - g);
            z = x + y
        in if z = 0 then f32_make (f32_sign a \<and> f32_sign b) 0
           else f32_make (z < 0) (f32_round (nat \<bar>z\<bar>) g))"

definition f32_sub :: "(f32 \<Rightarrow> f32 \<Rightarrow> f32) \<Rightarrow> f32 \<Rightarrow> f32 \<Rightarrow> f32" where
  "f32_sub nan a b = (if f32_nan a \<or> f32_nan b then nan a b else f32_add nan a (f32_neg b))"

section \<open>The conversions\<close>

type_synonym f16 = u16

text \<open>The casts through a union\<close>

definition f32_from_bits :: "u32 \<Rightarrow> f32" where "f32_from_bits w = w"
definition f32_to_bits :: "f32 \<Rightarrow> u32" where "f32_to_bits f = f"

text \<open>The hexadecimal constants have the bits the source gives them for compilers without them;
  \<open>0.5\<close> has the exponent -1.\<close>

definition ane_compute_f16_to_f32 :: "(f32 \<Rightarrow> f32 \<Rightarrow> f32) \<Rightarrow> f16 \<Rightarrow> f32" where
  "ane_compute_f16_to_f32 nan h =
     (let w = push_bit 16 (ucast h) :: u32;
          sign = w AND 0x80000000;
          two_w = w + w;
          exp_offset = push_bit 23 0xE0;
          exp_scale = f32_from_bits 0x7800000;
          normalized_value = f32_mul nan (f32_from_bits (drop_bit 4 two_w + exp_offset)) exp_scale;
          magic_mask = push_bit 23 126;
          magic_bias = f32_from_bits 0x3F000000;
          denormalized_value = f32_sub nan (f32_from_bits (drop_bit 17 two_w OR magic_mask)) magic_bias;
          denormalized_cutoff = push_bit 27 1;
          result = sign OR (if two_w < denormalized_cutoff then f32_to_bits denormalized_value
                            else f32_to_bits normalized_value)
      in f32_from_bits result)"

definition ane_compute_f32_to_f16 :: "(f32 \<Rightarrow> f32 \<Rightarrow> f32) \<Rightarrow> f32 \<Rightarrow> f16" where
  "ane_compute_f32_to_f16 nan f =
     (let scale_to_inf = f32_from_bits 0x77800000;
          scale_to_zero = f32_from_bits 0x08800000;
          base = f32_mul nan (f32_mul nan (f32_abs f) scale_to_inf) scale_to_zero;
          w = f32_to_bits f;
          shl1_w = w + w;
          sign = w AND 0x80000000;
          bias0 = shl1_w AND 0xFF000000;
          bias = (if bias0 < 0x71000000 then 0x71000000 else bias0);
          base = f32_add nan (f32_from_bits (drop_bit 1 bias + 0x07800000)) base;
          bits = f32_to_bits base;
          exp_bits = drop_bit 13 bits AND 0x00007C00;
          mantissa_bits = bits AND 0x00000FFF;
          nonsign = exp_bits + mantissa_bits
      in ucast (drop_bit 16 sign OR (if shl1_w > 0xFF000000 then 0x7E00 else nonsign)))"

text \<open>Rows of \<open>n\<close> numbers; an access out of bounds has no result.\<close>

definition ane_f16_to_f32_row :: "(f32 \<Rightarrow> f32 \<Rightarrow> f32) \<Rightarrow> f16 list \<Rightarrow> f32 list \<Rightarrow> u64 \<Rightarrow> f32 list option" where
  "ane_f16_to_f32_row nan x y n =
     (if unat n \<le> length x \<and> unat n \<le> length y
      then Some (map (ane_compute_f16_to_f32 nan) (take (unat n) x) @ drop (unat n) y) else None)"

definition ane_f32_to_f16_row :: "(f32 \<Rightarrow> f32 \<Rightarrow> f32) \<Rightarrow> f32 list \<Rightarrow> f16 list \<Rightarrow> u64 \<Rightarrow> f16 list option" where
  "ane_f32_to_f16_row nan x y n =
     (if unat n \<le> length x \<and> unat n \<le> length y
      then Some (map (ane_compute_f32_to_f16 nan) (take (unat n) x) @ drop (unat n) y) else None)"

section \<open>Bits as numbers\<close>

lemma unat_u32: "unat (x :: u32) < 2 ^ 32"
  using unsigned_less [of x] by simp

lemma unat_of_nat_u32: "b < 2 ^ 32 \<Longrightarrow> unat (of_nat b :: u32) = b"
  by (simp add: unat_of_nat)

lemma f32_sign_iff: "f32_sign w \<longleftrightarrow> 2 ^ 31 \<le> unat w"
proof -
  have "unat w div 2 ^ 31 < 2" using unat_u32 [of w] by (intro less_mult_imp_div_less) simp
  then have c: "unat w div 2 ^ 31 = 0 \<or> unat w div 2 ^ 31 = 1" by linarith
  have "bit w 31 \<longleftrightarrow> bit (unat w) 31" by (simp add: bit_unsigned_iff)
  also have "\<dots> \<longleftrightarrow> odd (unat w div 2 ^ 31)" by (rule bit_iff_odd)
  also have "\<dots> \<longleftrightarrow> 2 ^ 31 \<le> unat w" using c by (auto simp: div_eq_0_iff)
  finally show ?thesis by (simp add: f32_sign_def)
qed

lemma unat_f32: "unat w = (if f32_sign w then 2 ^ 31 else 0) + f32_mag w"
proof (cases "f32_sign w")
  case True
  then have "2 ^ 31 \<le> unat w" by (simp add: f32_sign_iff)
  moreover from this have "unat w mod 2 ^ 31 = unat w - 2 ^ 31"
    using unat_u32 [of w] by (subst le_mod_geq) simp_all
  ultimately show ?thesis using True by (simp add: f32_mag_def)
next
  case False
  then show ?thesis by (simp add: f32_mag_def f32_sign_iff)
qed

lemma f32_mag_less: "f32_mag w < 2 ^ 31"
  by (simp add: f32_mag_def)

lemma f32_of_nat:
  assumes "b < 2 ^ 31"
  shows "f32_sign (of_nat b) = False" and "f32_mag (of_nat b) = b"
  using assms by (simp_all add: f32_sign_iff f32_mag_def unat_of_nat_u32)

lemma f32_make_pos: "f32_make False b = of_nat (min b F32_INF)"
  by (simp add: f32_make_def)

lemma f32_make_mag: "f32_mag (f32_make s b) = min b F32_INF" and f32_make_sign: "f32_sign (f32_make s b) = s"
proof -
  have "unat (f32_make s b) = (if s then 2 ^ 31 else 0) + min b F32_INF"
    unfolding f32_make_def by (rule unat_of_nat_u32) auto
  then show "f32_mag (f32_make s b) = min b F32_INF" "f32_sign (f32_make s b) = s"
    by (auto simp: f32_mag_def f32_sign_iff)
qed

lemma f32_eqI: "f32_sign a = f32_sign b \<Longrightarrow> f32_mag a = f32_mag b \<Longrightarrow> a = b"
  by (metis unat_f32 word_unat_eq_iff)

lemma and_high: "x AND push_bit n (mask 32) = push_bit n (drop_bit n (x :: u32))"
  by (rule bit_eqI) (auto simp: bit_simps)

lemma unat_high:
  fixes x :: u32
  assumes "n < 32"
  shows "unat (push_bit n (drop_bit n x)) = unat x div 2 ^ n * 2 ^ n"
proof -
  have "unat x div 2 ^ n * 2 ^ n \<le> unat x" by simp
  then have "unat x div 2 ^ n * 2 ^ n < 2 ^ 32" using unat_u32 [of x] by linarith
  then show ?thesis
    using unat_u32 [of x]
    by (simp add: unsigned_push_bit_eq unsigned_drop_bit_eq take_bit_eq_mod push_bit_eq_mult [where ?'a = nat]
        drop_bit_eq_div [where ?'a = nat])
qed

lemma unat_push: "unat x * 2 ^ n < 2 ^ 32 \<Longrightarrow> unat (push_bit n (x :: u32)) = unat x * 2 ^ n"
  by (simp add: unsigned_push_bit_eq take_bit_eq_mod push_bit_eq_mult [where ?'a = nat])

lemma unat_drop: "unat (drop_bit n (x :: u32)) = unat x div 2 ^ n"
  using unat_u32 [of x]
  by (simp add: unsigned_drop_bit_eq take_bit_eq_mod drop_bit_eq_div [where ?'a = nat])

lemma u32_eqI: "b < 2 ^ 32 \<Longrightarrow> unat (x :: u32) = b \<Longrightarrow> x = of_nat b"
  by (simp add: word_unat_eq_iff unat_of_nat_u32)

lemma f32_mag_bits: "f32_mag w = unat (take_bit 31 w)"
  unfolding f32_mag_def by (simp only: unsigned_take_bit_eq) (simp only: take_bit_eq_mod)

lemma sign_bit: "(0x80000000 :: u32) = push_bit 31 1" and mag_mask: "(0x7FFFFFFF :: u32) = mask 31"
  by (simp_all add: mask_eq_exp_minus_1)

lemma bit_sign_bit: "bit (0x80000000 :: int) n \<longleftrightarrow> n = 31"
proof -
  have "(0x80000000 :: int) = push_bit 31 1" by (simp add: push_bit_eq_mult)
  then show ?thesis by (simp only: bit_push_bit_iff bit_1_iff) auto
qed

lemma f32_neg: "f32_sign (f32_neg w) \<longleftrightarrow> \<not> f32_sign w" "f32_mag (f32_neg w) = f32_mag w"
proof -
  have "take_bit 31 (f32_neg w) = take_bit 31 w"
    unfolding f32_neg_def sign_bit by (rule bit_eqI) (auto simp: bit_simps)
  then show "f32_mag (f32_neg w) = f32_mag w" by (simp add: f32_mag_bits)
  show "f32_sign (f32_neg w) \<longleftrightarrow> \<not> f32_sign w"
    unfolding f32_neg_def sign_bit f32_sign_def by (simp add: bit_simps)
qed

lemma f32_abs: "f32_abs w = of_nat (f32_mag w)"
proof -
  have "f32_abs w = take_bit 31 w"
    unfolding f32_abs_def mag_mask by (rule bit_eqI) (auto simp: bit_simps)
  then show ?thesis by (simp add: f32_mag_bits)
qed

text \<open>A sign put before a magnitude\<close>

definition f32_with_sign :: "bool \<Rightarrow> f32 \<Rightarrow> f32" where
  "f32_with_sign s w = (if s then 0x80000000 else 0) OR w"

lemma f32_with_sign: "f32_mag (f32_with_sign s w) = f32_mag w" "f32_sign (f32_with_sign s w) \<longleftrightarrow> s \<or> f32_sign w"
proof -
  have "take_bit 31 (f32_with_sign s w) = take_bit 31 w"
    unfolding f32_with_sign_def by (rule bit_eqI) (auto simp: bit_simps bit_sign_bit)
  then show "f32_mag (f32_with_sign s w) = f32_mag w" by (simp add: f32_mag_bits)
  show "f32_sign (f32_with_sign s w) \<longleftrightarrow> s \<or> f32_sign w"
    unfolding f32_with_sign_def f32_sign_def by (auto simp: bit_simps bit_sign_bit)
qed

section \<open>Operations on positive numbers\<close>

lemma f32_pos_simps:
  assumes "b \<le> F32_INF"
  shows "f32_sign (of_nat b) = False" and "f32_mag (of_nat b) = b" and "f32_nan (of_nat b) = False"
  using assms f32_of_nat [of b] by (simp_all add: f32_nan_def)

lemma f32_mul_pos:
  assumes "a < F32_INF" and "b < F32_INF" and "f32_decode a = (m, e)" and "f32_decode b = (n, f)"
  shows "f32_mul nan (of_nat a) (of_nat b) = of_nat (min (f32_round (m * n) (e + f)) F32_INF)"
  using assms f32_pos_simps [of a] f32_pos_simps [of b]
  by (simp add: f32_mul_def Let_def f32_make_pos)

lemma f32_mul_inf:
  assumes "0 < b" and "b < F32_INF"
  shows "f32_mul nan (of_nat F32_INF) (of_nat b) = of_nat F32_INF"
  using assms f32_pos_simps [of F32_INF] f32_pos_simps [of b]
  by (simp add: f32_mul_def Let_def f32_make_pos del: of_nat_numeral)

lemma f32_add_pos:
  assumes "a < F32_INF" and "b < F32_INF" and "f32_decode a = (m, e)" and "f32_decode b = (n, f)"
  shows "f32_add nan (of_nat a) (of_nat b) =
    of_nat (min (f32_round (m * 2 ^ nat (e - min e f) + n * 2 ^ nat (f - min e f)) (min e f)) F32_INF)"
proof -
  let ?g = "min e f"
  let ?z = "m * 2 ^ nat (e - ?g) + n * 2 ^ nat (f - ?g)"
  have "int m * 2 ^ nat (e - ?g) + int n * 2 ^ nat (f - ?g) = int ?z" by simp
  moreover have "f32_round 0 ?g = 0" by (simp add: fp_round_def)
  ultimately show ?thesis
    using assms f32_pos_simps [of a] f32_pos_simps [of b]
    by (auto simp: f32_add_def Let_def f32_make_pos simp del: of_nat_add of_nat_mult of_nat_power)
qed

lemma f32_sub_pos:
  assumes "a < F32_INF" and "b < F32_INF" and "f32_decode a = (m, e)" and "f32_decode b = (n, e)" and "n \<le> m"
  shows "f32_sub nan (of_nat a) (of_nat b) = of_nat (min (f32_round (m - n) e) F32_INF)"
proof -
  have "f32_round 0 e = 0" by (simp add: fp_round_def)
  moreover have "nat (int m - int n) = m - n" by simp
  ultimately show ?thesis
    using assms f32_pos_simps [of a] f32_pos_simps [of b] f32_neg [of "of_nat b"]
    by (auto simp: f32_sub_def f32_add_def f32_nan_def Let_def f32_make_pos)
qed

section \<open>Half precision\<close>

abbreviation F16_INF :: nat where "F16_INF \<equiv> 0x7C00"

definition f16_sign :: "f16 \<Rightarrow> bool" where
  "f16_sign h = bit h 15"

definition f16_mag :: "f16 \<Rightarrow> nat" where
  "f16_mag h = unat h mod 2 ^ 15"

abbreviation f16_round :: "nat \<Rightarrow> int \<Rightarrow> nat" where
  "f16_round \<equiv> fp_round 10 (- 24)"

abbreviation f16_decode :: "nat \<Rightarrow> nat \<times> int" where
  "f16_decode \<equiv> fp_decode 10 (- 24)"

definition f16_make :: "bool \<Rightarrow> nat \<Rightarrow> f16" where
  "f16_make s b = of_nat ((if s then 2 ^ 15 else 0) + b)"

lemma f16_mag_less: "f16_mag h < 2 ^ 15"
  by (simp add: f16_mag_def)

section \<open>From half to single precision\<close>

lemma two_w:
  fixes h :: f16
  shows "unat (push_bit 16 (ucast h) + push_bit 16 (ucast h) :: u32) = f16_mag h * 2 ^ 17"
proof -
  have "unat h < 2 ^ 16" using unsigned_less [of h] by simp
  moreover from this have "unat (ucast h :: u32) = unat h"
    by (simp add: unsigned_ucast_eq take_bit_nat_eq_self)
  ultimately have "unat (push_bit 16 (ucast h) :: u32) = unat h * 2 ^ 16"
    by (subst unat_push) simp_all
  then have "unat (push_bit 16 (ucast h) + push_bit 16 (ucast h) :: u32) = (unat h * 2 ^ 17) mod (2 ^ 15 * 2 ^ 17)"
    unfolding unat_word_ariths by (simp add: mult.commute)
  then show ?thesis by (simp only: mod_mult_mult2 f16_mag_def)
qed

lemma normalized_bits:
  assumes "unat (x :: u32) = b * 2 ^ 17" and "b < 2 ^ 15"
  shows "drop_bit 4 x + push_bit 23 0xE0 = of_nat (b * 2 ^ 13 + 0xE0 * 2 ^ 23)"
proof (rule u32_eqI)
  have "unat (drop_bit 4 x) = b * 2 ^ 13" unfolding unat_drop assms(1) by simp
  then show "unat (drop_bit 4 x + push_bit 23 0xE0) = b * 2 ^ 13 + 0xE0 * 2 ^ 23"
    using assms(2) by (subst unat_plus_less) simp_all
qed (use assms(2) in simp)

lemma low_high: "a \<le> b \<Longrightarrow> take_bit a x AND push_bit b y = (0 :: u32)"
  by (rule bit_eqI) (auto simp: bit_simps)

lemma denormalized_bits:
  assumes "unat (x :: u32) = b * 2 ^ 17" and "b < 2 ^ 15"
  shows "drop_bit 17 x OR push_bit 23 126 = of_nat (b + 126 * 2 ^ 23)"
proof (rule u32_eqI)
  have d: "unat (drop_bit 17 x) = b" unfolding unat_drop assms(1) by simp
  then have t: "take_bit 15 (drop_bit 17 x) = drop_bit 17 x"
    using assms(2) by (intro word_unat_eq_iff [THEN iffD2]) (simp only: unsigned_take_bit_eq take_bit_nat_eq_self)
  have "drop_bit 17 x AND push_bit 23 126 = 0"
    using low_high [of 15 23 "drop_bit 17 x" 126] unfolding t by simp
  from disjunctive_add_eq_or [OF this]
  have or: "drop_bit 17 x OR push_bit 23 126 = drop_bit 17 x + push_bit 23 126" by (rule sym)
  show "unat (drop_bit 17 x OR push_bit 23 126) = b + 126 * 2 ^ 23"
    unfolding or using assms(2) d by (subst unat_plus_less) simp_all
qed (use assms(2) in simp)

lemma sign_of_w:
  fixes h :: f16
  shows "(push_bit 16 (ucast h) AND 0x80000000) = (if f16_sign h then 0x80000000 else (0 :: u32))"
  unfolding sign_bit f16_sign_def
  by (rule bit_eqI) (auto simp: bit_simps bit_sign_bit)

lemma f32_make_with_sign:
  "f32_with_sign s (of_nat (min b F32_INF)) = f32_make s b"
  by (rule f32_eqI) (simp_all add: f32_with_sign f32_make_mag f32_make_sign f32_pos_simps del: of_nat_numeral)

text \<open>What the function computes, as a sign and a magnitude.\<close>

lemma f16_to_f32_cases:
  "ane_compute_f16_to_f32 nan h = f32_with_sign (f16_sign h)
     (if f16_mag h < 2 ^ 10
      then f32_sub nan (of_nat (f16_mag h + 126 * 2 ^ 23)) (of_nat (126 * 2 ^ 23))
      else f32_mul nan (of_nat (f16_mag h * 2 ^ 13 + 0xE0 * 2 ^ 23)) (of_nat (15 * 2 ^ 23)))"
proof -
  note w = two_w [of h]
  have cutoff: "push_bit 16 (ucast h) + push_bit 16 (ucast h) < (push_bit 27 1 :: u32) \<longleftrightarrow> f16_mag h < 2 ^ 10"
    unfolding word_less_nat_alt w by simp
  show ?thesis
    unfolding ane_compute_f16_to_f32_def Let_def f32_from_bits_def f32_to_bits_def
      cutoff normalized_bits [OF w f16_mag_less] denormalized_bits [OF w f16_mag_less] sign_of_w
    by (simp add: f32_with_sign_def)
qed

lemma f32_exponents: "f32_decode (15 * 2 ^ 23) = (2 ^ 23, - 135)" "f32_decode (126 * 2 ^ 23) = (2 ^ 23, - 24)"
  by (simp_all add: fp_decode_def)

lemma fp_decode_parts:
  assumes "r < 2 ^ p" and "0 < c"
  shows "fp_decode p emin (c * 2 ^ p + r) = (2 ^ p + r, int c - 1 + emin)"
proof -
  have "2 ^ p \<le> c * 2 ^ p" using assms(2) by simp
  then have "\<not> c * 2 ^ p + r < 2 ^ p" by linarith
  then show ?thesis using digits [OF assms(1), of c] by (simp add: fp_decode_def)
qed

lemma f16_to_f32_finite:
  assumes "f16_mag h < F16_INF" and "f16_decode (f16_mag h) = (m, e)"
  shows "ane_compute_f16_to_f32 nan h = f32_make (f16_sign h) (f32_round m e)"
proof (cases "f16_mag h < 2 ^ 10")
  case True
  then have m: "m = f16_mag h" "e = - 24" using assms(2) by (simp_all add: fp_decode_def)
  have "f32_decode (f16_mag h + 126 * 2 ^ 23) = (2 ^ 23 + f16_mag h, - 24)"
    using True fp_decode_parts [of "f16_mag h" 23 126 "- 149"] by (simp add: add.commute)
  from f32_sub_pos [OF _ _ this f32_exponents(2), of nan] True m
  have "f32_sub nan (of_nat (f16_mag h + 126 * 2 ^ 23)) (of_nat (126 * 2 ^ 23)) = of_nat (min (f32_round m e) F32_INF)"
    by simp
  then show ?thesis using True by (simp only: f16_to_f32_cases if_True f32_make_with_sign)
next
  case False
  define c where "c = f16_mag h div 2 ^ 10"
  define r where "r = f16_mag h mod 2 ^ 10"
  have parts: "f16_mag h = c * 2 ^ 10 + r" by (simp only: c_def r_def div_mult_mod_eq)
  have c: "0 < c" "c < 31" "r < 2 ^ 10" using False assms(1) by (simp_all add: c_def r_def div_greater_zero_iff)
  have m: "m = 2 ^ 10 + r" "e = int c - 25"
    using fp_decode_parts [OF c(3,1), of "- 24"] assms(2) parts by simp_all
  have b: "f16_mag h * 2 ^ 13 + 0xE0 * 2 ^ 23 = (c + 0xE0) * 2 ^ 23 + r * 2 ^ 13"
    unfolding parts by (simp add: algebra_simps)
  have "f32_decode (f16_mag h * 2 ^ 13 + 0xE0 * 2 ^ 23) = (2 ^ 23 + r * 2 ^ 13, int c + 74)"
    unfolding b by (subst fp_decode_parts) (use c in simp_all)
  from f32_mul_pos [OF _ _ this f32_exponents(1), of nan]
  have "f32_mul nan (of_nat (f16_mag h * 2 ^ 13 + 0xE0 * 2 ^ 23)) (of_nat (15 * 2 ^ 23)) =
      of_nat (min (f32_round ((2 ^ 23 + r * 2 ^ 13) * 2 ^ 23) (int c + 74 + - 135)) F32_INF)"
    using assms(1) by simp
  moreover have "(2 ^ 23 + r * 2 ^ 13) * 2 ^ 23 = m * 2 ^ 36" "int c + 74 + - 135 = e - int 36"
    by (simp_all add: m algebra_simps)
  ultimately have "f32_mul nan (of_nat (f16_mag h * 2 ^ 13 + 0xE0 * 2 ^ 23)) (of_nat (15 * 2 ^ 23)) =
      of_nat (min (f32_round m e) F32_INF)" by (simp only: fp_round_shift)
  then show ?thesis using False by (simp only: f16_to_f32_cases if_False f32_make_with_sign)
qed

lemma f16_to_f32_inf:
  assumes "f16_mag h = F16_INF"
  shows "ane_compute_f16_to_f32 nan h = f32_make (f16_sign h) F32_INF"
proof -
  have "F16_INF * 2 ^ 13 + 0xE0 * 2 ^ 23 = F32_INF" by simp
  moreover have "(15 :: nat) * 2 ^ 23 < F32_INF" by simp
  ultimately show ?thesis
    using f32_mul_inf [of "15 * 2 ^ 23" nan] f32_make_with_sign [of "f16_sign h" F32_INF] assms
    by (simp only: f16_to_f32_cases) simp
qed

lemma f16_to_f32_nan:
  assumes "F16_INF < f16_mag h" and "\<And>a b. f32_nan a \<or> f32_nan b \<Longrightarrow> f32_nan (nan a b)"
  shows "f32_nan (ane_compute_f16_to_f32 nan h)"
proof -
  let ?a = "f16_mag h * 2 ^ 13 + 0xE0 * 2 ^ 23"
  have "?a < 2 ^ 31" using f16_mag_less [of h] by simp
  then have "f32_nan (of_nat ?a)"
    using assms(1) f32_of_nat(2) [of ?a] unfolding f32_nan_def by simp
  then have "f32_nan (f32_mul nan (of_nat ?a) (of_nat (15 * 2 ^ 23)))"
    unfolding f32_mul_def Let_def by (simp only: simp_thms if_True assms(2))
  then show ?thesis
    using assms(1) by (simp only: f16_to_f32_cases f32_nan_def f32_with_sign) simp
qed

section \<open>From single to half precision\<close>

text \<open>A finite number far enough from the largest is only moved by a power of two.\<close>

lemma fp_round_less:
  assumes "m < 2 ^ (p + 1)" and "emin \<le> e"
  shows "fp_round p emin m e < nat (e - emin + 2) * 2 ^ p"
proof -
  let ?b = "fp_round p emin m e"
  obtain k where k: "fp_decode p emin ?b = (m * 2 ^ k, if m = 0 then emin else e - int k)"
    using fp_round_exact [OF assms] by blast
  have "?b div 2 ^ p < nat (e - emin + 2)"
  proof (cases "?b < 2 ^ p")
    case True
    then show ?thesis using assms(2) by simp
  next
    case False
    then have "int (?b div 2 ^ p) - 1 + emin \<le> e"
      using k assms(2) by (auto simp: fp_decode_def split: if_splits)
    then show ?thesis by linarith
  qed
  then show ?thesis by (simp add: div_less_iff_less_mult)
qed

lemma fp_round_normal:
  assumes "2 ^ p \<le> m" and "m < 2 ^ (p + 1)" and "emin \<le> e"
  shows "fp_round p emin m e = nat (e - emin) * 2 ^ p + m"
proof -
  have "m \<noteq> 0" using assms(1) by (metis not_one_le_zero one_le_numeral one_le_power order_trans)
  moreover have "fp_exponent p emin m e = e"
    using bit_length_unique [of p m] assms by (simp add: fp_exponent_def)
  ultimately show ?thesis by (simp add: fp_round_def shift_rne_def)
qed

text \<open>The sum with a much larger power of two rounds the smaller number to its units.\<close>

lemma fp_round_sum:
  assumes "0 < p" and "emin \<le> t" and "g \<le> t" and "n < 2 ^ p * 2 ^ nat (t - g)"
  shows "fp_round p emin (2 ^ p * 2 ^ nat (t - g) + n) g = nat (t - emin) * 2 ^ p + 2 ^ p + rne n (nat (t - g))"
proof -
  let ?s = "nat (t - g)"
  let ?z = "2 ^ p * 2 ^ ?s + n"
  have "bit_length ?z = Suc (p + ?s)"
    using assms(4) by (intro bit_length_unique) (simp_all add: power_add)
  then have "fp_exponent p emin ?z g = t" using assms(2,3) by (simp add: fp_exponent_def)
  moreover have "shift_rne ?z (t - g) = 2 ^ p + rne n ?s"
    using assms(1,3) rne_add [of "2 ^ p" ?s n] by (auto simp: shift_rne_def)
  ultimately show ?thesis by (simp add: fp_round_def)
qed

lemma f32_scale:
  assumes a: "a < F32_INF" "f32_decode a = (m * 2 ^ j, f)" "m < 2 ^ 24" "m = 0 \<or> f = x - int j"
    and c: "c < F32_INF" "f32_decode c = (2 ^ 23, d)"
    and y: "- 149 \<le> x + 23 + d" "x + 23 + d \<le> 104"
  shows "\<exists>b k g. f32_mul nan (of_nat a) (of_nat c) = of_nat b \<and> b < F32_INF \<and>
    f32_decode b = (m * 2 ^ k, g) \<and> (m = 0 \<or> g = x + 23 + d - int k)"
proof -
  let ?y = "x + 23 + d"
  let ?b = "f32_round m ?y"
  have mul: "f32_mul nan (of_nat a) (of_nat c) = of_nat (min (f32_round (m * 2 ^ j * 2 ^ 23) (f + d)) F32_INF)"
    by (rule f32_mul_pos) (use a c in simp_all)
  have round: "f32_round (m * 2 ^ j * 2 ^ 23) (f + d) = ?b"
  proof (cases "m = 0")
    case True
    then show ?thesis by (simp add: fp_round_def)
  next
    case False
    then have "f + d = ?y - int (j + 23)" using a(4) by simp
    moreover have "m * 2 ^ j * 2 ^ 23 = m * 2 ^ (j + 23)" by (simp add: power_add)
    ultimately show ?thesis by (simp only: fp_round_shift)
  qed
  have m: "m < 2 ^ (23 + 1)" using a(3) by simp
  have "nat (?y - - 149 + 2) \<le> 255" using y by simp
  then have "nat (?y - - 149 + 2) * 2 ^ 23 \<le> 255 * 2 ^ 23" by (rule mult_le_mono1)
  then have less: "?b < F32_INF" using fp_round_less [OF m y(1)] by simp
  obtain k where "f32_decode ?b = (m * 2 ^ k, if m = 0 then - 149 else ?y - int k)"
    using fp_round_exact [OF m y(1)] by blast
  with mul round less show ?thesis by (intro exI [of _ ?b] exI [of _ k]) auto
qed

lemma f32_decode_bounds:
  assumes "f32_decode b = (m, e)"
  shows "m < 2 ^ 24" and "- 149 \<le> e" and "e \<le> int (max (b div 2 ^ 23) 1) - 150"
    and "1 \<le> b div 2 ^ 23 \<Longrightarrow> 2 ^ 23 \<le> m \<and> e = int (b div 2 ^ 23) - 150"
    and "b div 2 ^ 23 = 0 \<Longrightarrow> m < 2 ^ 23 \<and> e = - 149"
proof -
  have "b mod 2 ^ 23 < (2 ^ 23 :: nat)" by simp
  moreover have "b < 2 ^ 23 \<longleftrightarrow> b div 2 ^ 23 = 0" by (simp add: div_eq_0_iff)
  ultimately show "m < 2 ^ 24" and "- 149 \<le> e" and "e \<le> int (max (b div 2 ^ 23) 1) - 150"
    and "1 \<le> b div 2 ^ 23 \<Longrightarrow> 2 ^ 23 \<le> m \<and> e = int (b div 2 ^ 23) - 150"
    and "b div 2 ^ 23 = 0 \<Longrightarrow> m < 2 ^ 23 \<and> e = - 149"
    using assms by (auto simp: fp_decode_def split: if_splits)
qed

text \<open>The exponent the rounded number gets in half precision.\<close>

lemma f16_exponent:
  assumes "f32_decode b = (m, e)" and "0 < m"
  shows "fp_exponent 10 (- 24) m e = int (max (b div 2 ^ 23) 113) - 137"
proof (cases "b div 2 ^ 23 = 0")
  case True
  then have "bit_length m \<le> 23" "e = - 149"
    using f32_decode_bounds(5) [OF assms(1)] bit_length_le [of m 23] by simp_all
  with True show ?thesis by (simp add: fp_exponent_def)
next
  case False
  then have "bit_length m = 24" "e = int (b div 2 ^ 23) - 150"
    using f32_decode_bounds(1,4) [OF assms(1)] bit_length_unique [of 23 m] by simp_all
  then show ?thesis by (simp add: fp_exponent_def max_def)
qed

text \<open>The two multiplications and the addition of the function, on a number below \<open>2 ^ 16\<close>.\<close>

lemma f32_to_f16_sum:
  assumes b: "b < 143 * 2 ^ 23" "f32_decode b = (m, e)"
  defines "F \<equiv> max (b div 2 ^ 23) 113 + 15"
  shows "f32_add nan (of_nat (F * 2 ^ 23)) (f32_mul nan (f32_mul nan (of_nat b) (of_nat (239 * 2 ^ 23))) (of_nat (17 * 2 ^ 23))) =
     of_nat (F * 2 ^ 23 + shift_rne m (int F - 152 - e))"
    and "shift_rne m (int F - 152 - e) \<le> 2 ^ 11"
    and "min (f16_round m e) F16_INF = (F - 128) * 2 ^ 10 + shift_rne m (int F - 152 - e)"
proof -
  let ?E = "b div 2 ^ 23" and ?q = "shift_rne m (int F - 152 - e)"
  let ?t = "int F - 150"
  have E: "?E \<le> 142" using b(1) less_mult_imp_div_less [of b 143 "2 ^ 23"] by simp
  then have F: "128 \<le> F" "F \<le> 157" "int F = int (max ?E 113) + 15" by (simp_all add: F_def)
  note d = f32_decode_bounds [OF b(2)]
  have zero: "shift_rne 0 x = 0" for x by (simp add: shift_rne_def rne_def)
  show q: "?q \<le> 2 ^ 11"
    using shift_rne_bounds(1) [of m 10 "- 24" e] f16_exponent [OF b(2)] zero
    by (cases "m = 0") (simp_all add: F(3))
  have "f16_round m e = (F - 128) * 2 ^ 10 + ?q"
  proof (cases "m = 0")
    case True
    then have "?E = 0" using d(4) by (cases "?E = 0") auto
    with True show ?thesis by (simp add: fp_round_def zero F_def)
  next
    case False
    then have "fp_exponent 10 (- 24) m e = int F - 152" using f16_exponent [OF b(2)] F(3) by simp
    moreover have "nat (int F - 152 - - 24) = F - 128" using F(1) by simp
    ultimately show ?thesis using False by (simp only: fp_round_def if_False)
  qed
  moreover have "(F - 128) * 2 ^ 10 \<le> 29 * 2 ^ 10" using F(2) by (intro mult_le_mono1) simp
  ultimately show "min (f16_round m e) F16_INF = (F - 128) * 2 ^ 10 + ?q" using q by simp
  have less: "b < F32_INF" "239 * 2 ^ 23 < F32_INF" "17 * 2 ^ 23 < F32_INF" using b(1) by simp_all
  have scales: "f32_decode (239 * 2 ^ 23) = (2 ^ 23, 89)" "f32_decode (17 * 2 ^ 23) = (2 ^ 23, - 133)"
    by (simp_all add: fp_decode_def)
  have top: "e + 112 \<le> 104" using d(3) E by simp
  have start: "f32_decode b = (m * 2 ^ 0, e)" "m = 0 \<or> e = e - int 0" using b(2) by simp_all
  have y: "e + 23 + 89 = e + 112" "- 149 \<le> e + 23 + 89" "e + 23 + 89 \<le> 104" using d(2) top by simp_all
  from f32_scale [OF less(1) start(1) d(1) start(2) less(2) scales(1) y(2,3), of nan, unfolded y(1)]
  obtain b1 k1 f1 where b1: "f32_mul nan (of_nat b) (of_nat (239 * 2 ^ 23)) = of_nat b1" "b1 < F32_INF"
    "f32_decode b1 = (m * 2 ^ k1, f1)" "m = 0 \<or> f1 = e + 112 - int k1" by blast
  have z: "e + 112 + 23 + - 133 = e + 2" "- 149 \<le> e + 112 + 23 + - 133" "e + 112 + 23 + - 133 \<le> 104"
    using d(2) top by simp_all
  from f32_scale [OF b1(2,3) d(1) b1(4) less(3) scales(2) z(2,3), of nan, unfolded z(1)]
  obtain b2 k g where b2: "f32_mul nan (of_nat b1) (of_nat (17 * 2 ^ 23)) = of_nat b2" "b2 < F32_INF"
    "f32_decode b2 = (m * 2 ^ k, g)" "m = 0 \<or> g = e + 2 - int k" by blast
  let ?n = "m * 2 ^ k * 2 ^ nat (g - min ?t g)" and ?s = "nat (?t - min ?t g)"
  have n: "?n < 2 ^ 23 * 2 ^ ?s \<and> rne ?n ?s = ?q"
  proof (cases "m = 0")
    case True
    then show ?thesis by (simp add: zero rne_def)
  next
    case False
    define j where "j = k + nat (g - min ?t g)"
    have j: "int j = e + 2 - min ?t g" using b2(4) False by (simp add: j_def)
    have n: "?n = m * 2 ^ j" by (simp add: j_def power_add)
    have "e + 3 \<le> ?t" using d(3) F(3) by simp
    then have "24 + j \<le> 23 + ?s" using j by simp
    then have "(2 :: nat) ^ (24 + j) \<le> 2 ^ (23 + ?s)" by (rule power_increasing) simp
    moreover have "m * 2 ^ j < 2 ^ 24 * 2 ^ j" using d(1) by (intro mult_less_mono1) simp_all
    ultimately have "?n < 2 ^ 23 * 2 ^ ?s" unfolding n power_add by linarith
    moreover have s: "int ?s = int F - 152 - e + int j" using j by simp
    have "rne ?n ?s = shift_rne ?n (int ?s)" by (cases "?s = 0") (auto simp: shift_rne_def)
    then have "rne ?n ?s = ?q" by (simp only: n s shift_rne_shift)
    ultimately show ?thesis by blast
  qed
  have X: "F * 2 ^ 23 < F32_INF" "f32_decode (F * 2 ^ 23) = (2 ^ 23, ?t)"
    using F fp_decode_parts [of 0 23 F "- 149"] by simp_all
  have "f32_round (2 ^ 23 * 2 ^ ?s + ?n) (min ?t g) = nat (?t - - 149) * 2 ^ 23 + 2 ^ 23 + rne ?n ?s"
    using n F(1) by (intro fp_round_sum) simp_all
  also have "\<dots> = F * 2 ^ 23 + ?q" using n F(1) by (simp add: nat_diff_distrib algebra_simps)
  finally have "f32_round (2 ^ 23 * 2 ^ ?s + ?n) (min ?t g) = F * 2 ^ 23 + ?q" .
  moreover have "F * 2 ^ 23 \<le> 157 * 2 ^ 23" using F(2) by (rule mult_le_mono1)
  ultimately show "f32_add nan (of_nat (F * 2 ^ 23)) (f32_mul nan (f32_mul nan (of_nat b) (of_nat (239 * 2 ^ 23))) (of_nat (17 * 2 ^ 23))) =
     of_nat (F * 2 ^ 23 + ?q)"
    using f32_add_pos [OF X(1) b2(2) X(2) b2(3), of nan] q by (simp only: b1(1) b2(1)) simp
qed

lemma f32_to_f16_big:
  assumes "143 * 2 ^ 23 \<le> b" and "b \<le> F32_INF"
  shows "f32_mul nan (f32_mul nan (of_nat b) (of_nat (239 * 2 ^ 23))) (of_nat (17 * 2 ^ 23)) = of_nat F32_INF"
    and "b < F32_INF \<Longrightarrow> f32_decode b = (m, e) \<Longrightarrow> min (f16_round m e) F16_INF = F16_INF"
proof -
  have c: "0 < (239 :: nat) * 2 ^ 23" "(239 :: nat) * 2 ^ 23 < F32_INF" "0 < (17 :: nat) * 2 ^ 23" "(17 :: nat) * 2 ^ 23 < F32_INF"
    by simp_all
  have d: "2 ^ 23 \<le> m" "m < 2 ^ 24" "- 7 \<le> e" "e = int (b div 2 ^ 23) - 150" "143 \<le> b div 2 ^ 23"
    if "f32_decode b = (m, e)" for m e
  proof -
    have "143 * 2 ^ 23 div 2 ^ 23 \<le> b div 2 ^ 23" by (rule div_le_mono [OF assms(1)])
    then show "143 \<le> b div 2 ^ 23" by simp
    then show "2 ^ 23 \<le> m" "m < 2 ^ 24" "- 7 \<le> e" "e = int (b div 2 ^ 23) - 150"
      using f32_decode_bounds(1,4) [OF that] by simp_all
  qed
  have "f32_mul nan (of_nat b) (of_nat (239 * 2 ^ 23)) = of_nat F32_INF"
  proof (cases "b = F32_INF")
    case True
    then show ?thesis using f32_mul_inf [OF c(1,2)] by (simp only:)
  next
    case False
    obtain m e where b: "f32_decode b = (m, e)" by fastforce
    note bd = d [OF b]
    have "f32_decode (239 * 2 ^ 23) = (2 ^ 23, 89)" by (simp add: fp_decode_def)
    with b have "f32_mul nan (of_nat b) (of_nat (239 * 2 ^ 23)) = of_nat (min (f32_round (m * 2 ^ 23) (e + 89)) F32_INF)"
      using False assms(2) c(2) by (intro f32_mul_pos) simp_all
    moreover have "f32_round (m * 2 ^ 23) (e + 89) = f32_round m (e + 112)"
    proof -
      have "e + 89 = e + 112 - int 23" by simp
      then show ?thesis by (simp only: fp_round_shift)
    qed
    moreover have "f32_round m (e + 112) = nat (e + 112 - - 149) * 2 ^ 23 + m"
      using bd by (intro fp_round_normal) simp_all
    moreover have "254 * 2 ^ 23 \<le> nat (e + 112 - - 149) * 2 ^ 23"
      using bd(3) by (intro mult_le_mono1) simp
    ultimately show ?thesis using bd(1) by simp
  qed
  then show "f32_mul nan (f32_mul nan (of_nat b) (of_nat (239 * 2 ^ 23))) (of_nat (17 * 2 ^ 23)) = of_nat F32_INF"
    using f32_mul_inf [OF c(3,4)] by (simp only:)
  assume b: "f32_decode b = (m, e)"
  note bd = d [OF b]
  have m: "0 < m" using bd(1) by simp
  have E: "fp_exponent 10 (- 24) m e = int (b div 2 ^ 23) - 137"
    using f16_exponent [OF b m] bd(5) by simp
  then have "2 ^ 10 \<le> shift_rne m (fp_exponent 10 (- 24) m e - e)"
    using shift_rne_bounds(2) [OF m, of 10 "- 24" e] bd(5) by auto
  moreover have "30 * 2 ^ 10 \<le> nat (fp_exponent 10 (- 24) m e - - 24) * 2 ^ 10"
    using bd(5) by (intro mult_le_mono1) (simp add: E)
  ultimately show "min (f16_round m e) F16_INF = F16_INF"
    using m by (simp add: fp_round_def)
qed

section \<open>The bits of the result\<close>

lemma shl1: "unat (f + f :: u32) = 2 * f32_mag f"
proof -
  have "unat (f + f) = (2 * unat f) mod (2 * 2 ^ 31)" by (simp add: unat_word_ariths)
  then show ?thesis by (simp only: mod_mult_mult1 f32_mag_def)
qed

lemma exponent_mask: "(x :: u32) AND 0xFF000000 = push_bit 24 (drop_bit 24 x)"
proof -
  have "(0xFF000000 :: u32) = push_bit 24 (mask 32)" by (simp add: mask_eq_exp_minus_1)
  then show ?thesis by (simp only: and_high)
qed

lemma unat_bias: "unat ((f + f) AND 0xFF000000 :: u32) = f32_mag f div 2 ^ 23 * 2 ^ 24"
proof -
  have "unat (push_bit 24 (drop_bit 24 (f + f))) = unat (f + f) div (2 * 2 ^ 23) * 2 ^ 24"
    using unat_high [of 24 "f + f"] by (simp only:) simp
  then show ?thesis unfolding exponent_mask shl1 by (simp only: div_mult_mult1_if) simp
qed

lemma and_field: "drop_bit a x AND push_bit b (mask c) = push_bit b (take_bit c (drop_bit (a + b) (x :: u32)))"
  by (rule bit_eqI) (auto simp: bit_simps)

lemma nonsign_bits:
  "unat ((drop_bit 13 x AND 0x7C00) + (x AND 0xFFF) :: u32) = unat x div 2 ^ 23 mod 32 * 2 ^ 10 + unat x mod 2 ^ 12"
proof -
  have "(0x7C00 :: u32) = push_bit 10 (mask 5)" by (simp add: mask_eq_exp_minus_1)
  then have e: "drop_bit 13 x AND 0x7C00 = push_bit 10 (take_bit 5 (drop_bit (13 + 10) x))"
    by (simp only: and_field)
  have "(0xFFF :: u32) = mask 12" by (simp add: mask_eq_exp_minus_1)
  then have f: "x AND 0xFFF = take_bit 12 x" by (simp only: take_bit_eq_mask)
  have t: "unat (take_bit n x) = unat x mod 2 ^ n" for n and x :: u32
    by (simp only: unsigned_take_bit_eq) (simp only: take_bit_eq_mod)
  have less: "unat x div 2 ^ 23 mod 32 < 32" "unat x mod 2 ^ 12 < 2 ^ 12" by simp_all
  have "unat (push_bit 10 (take_bit 5 (drop_bit (13 + 10) x))) = unat x div 2 ^ 23 mod 32 * 2 ^ 10"
    using less(1) by (subst unat_push) (simp_all only: t unat_drop, simp_all)
  then show ?thesis
    unfolding e f using less by (subst unat_plus_less) (simp_all only: t, simp_all)
qed

lemma drop_one_bit:
  "a + b < 32 \<Longrightarrow> drop_bit a (f AND push_bit (a + b) 1) = (if bit f (a + b) then push_bit b 1 else (0 :: u32))"
  by (rule bit_eqI) (auto simp: bit_simps bit_1_iff)

lemma f16_of_bits:
  assumes "unat x < 2 ^ 15"
  shows "ucast (drop_bit 16 (f AND 0x80000000) OR x :: u32) = f16_make (f32_sign f) (unat x)"
proof -
  have t: "take_bit 15 x = x"
    using assms by (intro word_unat_eq_iff [THEN iffD2]) (simp only: unsigned_take_bit_eq take_bit_nat_eq_self)
  have "drop_bit 16 (f AND 0x80000000) = (if f32_sign f then push_bit 15 1 else (0 :: u32))"
    using drop_one_bit [of 16 15 f] unfolding sign_bit f32_sign_def by simp
  moreover have "push_bit 15 1 OR x = push_bit 15 1 + x"
  proof -
    have "take_bit 15 x AND push_bit 15 1 = 0" by (rule low_high) simp
    then show ?thesis using disjunctive_add_eq_or [of x "push_bit 15 1"] t by (simp add: or.commute add.commute)
  qed
  ultimately have "unat (drop_bit 16 (f AND 0x80000000) OR x) = (if f32_sign f then 2 ^ 15 else 0) + unat x"
    using assms by (auto simp: unat_plus_less)
  moreover have "ucast y = (of_nat (unat y) :: f16)" for y :: u32 by (rule of_nat_unat [symmetric])
  ultimately show ?thesis by (simp only: f16_make_def)
qed

lemma f32_nan_shl1: "0xFF000000 < (f + f :: u32) \<longleftrightarrow> f32_nan f"
  unfolding word_less_nat_alt shl1 f32_nan_def by simp

lemma bias_max:
  fixes f :: u32
  defines "x \<equiv> (f + f) AND 0xFF000000"
  shows "unat (if x < 0x71000000 then 0x71000000 else x) = max (f32_mag f div 2 ^ 23) 113 * 2 ^ 24"
proof -
  have "unat x = f32_mag f div 2 ^ 23 * 2 ^ 24" by (simp only: x_def unat_bias)
  then show ?thesis by (auto simp: word_less_nat_alt max_def)
qed

text \<open>The three cases together.\<close>

definition f16_of_mag :: "nat \<Rightarrow> nat" where
  "f16_of_mag b = (if F32_INF < b then 0x7E00 else if b = F32_INF then F16_INF
     else case f32_decode b of (m, e) \<Rightarrow> min (f16_round m e) F16_INF)"

lemma sum_bits:
  fixes x :: u32
  assumes "unat x = max E 113 * 2 ^ 24" and "E \<le> 255"
  shows "E \<le> 142 \<Longrightarrow> drop_bit 1 x + 0x07800000 = of_nat ((max E 113 + 15) * 2 ^ 23)"
    and "143 \<le> E \<Longrightarrow> f32_add nan (drop_bit 1 x + 0x07800000) (of_nat F32_INF) = of_nat F32_INF"
proof -
  let ?x = "drop_bit 1 x + 0x07800000"
  have d: "unat (drop_bit 1 x) = max E 113 * 2 ^ 23" unfolding unat_drop assms(1) by simp
  then have sum: "unat ?x = (max E 113 + 15) * 2 ^ 23 mod 2 ^ 32" by (simp add: unat_word_ariths)
  show "?x = of_nat ((max E 113 + 15) * 2 ^ 23)" if "E \<le> 142"
  proof (rule u32_eqI)
    have "(max E 113 + 15) * 2 ^ 23 \<le> 157 * 2 ^ 23" using that by (intro mult_le_mono1) simp
    then show "(max E 113 + 15) * 2 ^ 23 < 2 ^ 32" by simp
    with sum show "unat ?x = (max E 113 + 15) * 2 ^ 23" by simp
  qed
  assume E: "143 \<le> E"
  then have x: "unat ?x = (E + 15) * 2 ^ 23 mod (512 * 2 ^ 23)" using sum by simp
  then have x2: "unat ?x = (E + 15) mod 512 * 2 ^ 23" by (simp only: mod_mult_mult2)
  then have "f32_mag ?x = (E + 15) mod 512 * 2 ^ 23 mod (256 * 2 ^ 23)" by (simp add: f32_mag_def)
  then have mag: "f32_mag ?x = (E + 15) mod 512 mod 256 * 2 ^ 23" by (simp only: mod_mult_mult2)
  have "(E + 15) mod 512 mod 256 \<le> 255" by (simp add: less_Suc_eq_le [symmetric])
  then have "(E + 15) mod 512 mod 256 * 2 ^ 23 \<le> 255 * 2 ^ 23" by (rule mult_le_mono1)
  then have n: "\<not> f32_nan ?x" unfolding f32_nan_def mag by simp
  have same: "?x = of_nat F32_INF" if "f32_mag ?x = F32_INF"
  proof (rule u32_eqI)
    have "(E + 15) mod 512 mod 256 * 2 ^ 23 = 255 * 2 ^ 23" using that mag by simp
    then have "(E + 15) mod 512 mod 256 = 255" by (simp only: mult_cancel2) simp
    moreover have "(E + 15) mod 512 = E + 15" using assms(2) by simp
    ultimately have wrap: "(E + 15) mod 256 = 255" by (simp only:)
    have "E = 240"
    proof (cases "E + 15 < 256")
      case True
      with wrap show ?thesis by simp
    next
      case False
      then have "(E + 15) mod 256 = E + 15 - 256" using assms(2) by (subst le_mod_geq) simp_all
      with wrap assms(2) show ?thesis by simp
    qed
    then show "unat ?x = F32_INF" using x2 by simp
  qed simp
  have *: "f32_add nan ?x (of_nat F32_INF) = (if f32_mag ?x = F32_INF \<and> \<not> f32_sign ?x then ?x else
      if f32_mag ?x = F32_INF then nan ?x (of_nat F32_INF) else of_nat F32_INF)"
    using n f32_pos_simps [of F32_INF] by (auto simp: f32_add_def simp del: of_nat_numeral)
  show "f32_add nan ?x (of_nat F32_INF) = of_nat F32_INF"
  proof (cases "f32_mag ?x = F32_INF")
    case True
    with same f32_pos_simps(1) [of F32_INF] have "\<not> f32_sign ?x" by (simp only: order_refl) simp
    with True same * show ?thesis by (simp only: simp_thms if_True)
  next
    case False
    with * show ?thesis by (simp only: simp_thms if_False)
  qed
qed

lemma f32_to_f16_result:
  "ane_compute_f32_to_f16 nan f = f16_make (f32_sign f) (f16_of_mag (f32_mag f))"
proof -
  define x where "x = (f + f) AND 0xFF000000"
  define bias where "bias = (if x < 0x71000000 then 0x71000000 else x)"
  define base where "base = f32_mul nan (f32_mul nan (of_nat (f32_mag f)) (of_nat (239 * 2 ^ 23))) (of_nat (17 * 2 ^ 23))"
  define bits where "bits = f32_add nan (drop_bit 1 bias + 0x07800000) base"
  let ?E = "f32_mag f div 2 ^ 23"
  have bias: "unat bias = max ?E 113 * 2 ^ 24" by (simp only: bias_def x_def bias_max)
  have E: "?E \<le> 255" using f32_mag_less [of f] less_mult_imp_div_less [of "f32_mag f" 256 "2 ^ 23"] by simp
  have scales: "of_nat (239 * 2 ^ 23) = (0x77800000 :: u32)" "of_nat (17 * 2 ^ 23) = (0x08800000 :: u32)" by simp_all
  have eq: "ane_compute_f32_to_f16 nan f = ucast (drop_bit 16 (f AND 0x80000000) OR
      (if f32_nan f then 0x7E00 else (drop_bit 13 bits AND 0x7C00) + (bits AND 0xFFF)))"
    unfolding ane_compute_f32_to_f16_def Let_def f32_from_bits_def f32_to_bits_def f32_abs f32_nan_shl1
      bits_def base_def bias_def x_def scales ..
  show ?thesis
  proof (cases "f32_nan f")
    case True
    then show ?thesis
      unfolding eq by (subst f16_of_bits) (simp_all add: f16_of_mag_def f32_nan_def)
  next
    case False
    then have le: "f32_mag f \<le> F32_INF" by (simp add: f32_nan_def)
    have nonsign: "unat ((drop_bit 13 bits AND 0x7C00) + (bits AND 0xFFF)) = f16_of_mag (f32_mag f)"
    proof (cases "143 \<le> ?E")
      case True
      then have big: "143 * 2 ^ 23 \<le> f32_mag f" by (simp add: less_eq_div_iff_mult_less_eq)
      have "base = of_nat F32_INF" unfolding base_def by (rule f32_to_f16_big(1) [OF big le])
      then have "bits = of_nat F32_INF" unfolding bits_def by (simp only: sum_bits(2) [OF bias E True])
      then have "unat bits = F32_INF" by (simp only: unat_of_nat_u32) simp
      moreover have "f16_of_mag (f32_mag f) = F16_INF"
        using f32_to_f16_big(2) [OF big le] le by (auto simp: f16_of_mag_def split: prod.splits)
      ultimately show ?thesis unfolding nonsign_bits by simp
    next
      case False
      then have small: "f32_mag f < 143 * 2 ^ 23" by (simp add: div_less_iff_less_mult)
      obtain m e where d: "f32_decode (f32_mag f) = (m, e)" by fastforce
      define F where "F = max ?E 113 + 15"
      define q where "q = shift_rne m (int F - 152 - e)"
      note sum = f32_to_f16_sum(1) [OF small d, of nan, folded F_def, folded q_def base_def]
        f32_to_f16_sum(2,3) [OF small d, folded F_def, folded q_def]
      have F: "128 \<le> F" "F \<le> 157" using False by (simp_all add: F_def)
      have "bits = of_nat (F * 2 ^ 23 + q)"
      proof -
        have "?E \<le> 142" using False by simp
        from sum_bits(1) [OF bias E this, folded F_def] show ?thesis unfolding bits_def by (simp only: sum(1))
      qed
      moreover have "F * 2 ^ 23 \<le> 157 * 2 ^ 23" using F(2) by (rule mult_le_mono1)
      ultimately have bits: "unat bits = F * 2 ^ 23 + q" using sum(2) by (simp only:) (rule unat_of_nat_u32, simp)
      have "q < 2 ^ 23" using sum(2) by simp
      then have "unat bits div 2 ^ 23 = F" unfolding bits by (rule digits)
      moreover have "unat bits mod 2 ^ 12 = q"
      proof -
        have "unat bits = (F * 2 ^ 11) * 2 ^ 12 + q" unfolding bits by simp
        then show ?thesis using sum(2) digits(2) [of q 12 "F * 2 ^ 11"] by simp
      qed
      moreover have "F mod 32 = F - 128"
      proof -
        have "(F - 128 + 4 * 32) mod 32 = (F - 128) mod 32" by (rule mod_mult_self1)
        then show ?thesis using F by simp
      qed
      moreover have "f16_of_mag (f32_mag f) = (F - 128) * 2 ^ 10 + q"
        using small sum(3) by (simp add: f16_of_mag_def d)
      ultimately show ?thesis unfolding nonsign_bits by simp
    qed
    moreover have "f16_of_mag (f32_mag f) < 2 ^ 15"
      using le by (auto simp: f16_of_mag_def split: prod.splits)
    ultimately show ?thesis
      unfolding eq using False by (simp only: if_False f16_of_bits)
  qed
qed

end
