(* ===== verification/Lib_Half_Correct.thy ===== *)
theory Lib_Half_Correct
  imports Lib_Half
begin

text \<open>
  The properties of the conversions of \<open>ane_f16.h\<close>: every half precision number becomes a single
  precision number of the same value and is given back by the way back; every single precision number
  becomes the nearest of half precision.
\<close>

section \<open>Values\<close>

definition f32_real :: "f32 \<Rightarrow> real" where
  "f32_real f = (if f32_sign f then - 1 else 1) * fp_real (f32_decode (f32_mag f))"

definition f16_real :: "f16 \<Rightarrow> real" where
  "f16_real h = (if f16_sign h then - 1 else 1) * fp_real (f16_decode (f16_mag h))"

lemma f16_decode_bounds:
  assumes "f16_decode b = (m, e)"
  shows "m < 2 ^ 11" and "- 24 \<le> e"
proof -
  have "b mod 2 ^ 10 < (2 ^ 10 :: nat)" by simp
  moreover have "b < 2 ^ 10 \<longleftrightarrow> b div 2 ^ 10 = 0" by (simp add: div_eq_0_iff)
  ultimately show "m < 2 ^ 11" and "- 24 \<le> e"
    using assms by (auto simp: fp_decode_def split: if_splits)
qed

lemma fp_decode_inverse: "fp_round p emin (fst (fp_decode p emin b)) (snd (fp_decode p emin b)) = b"
proof (cases "b < 2 ^ p")
  case True
  have "fp_exponent p emin b emin = emin" if "0 < b"
    using bit_length_le [OF True] by (simp add: fp_exponent_def)
  with True show ?thesis by (cases "b = 0") (simp_all add: fp_decode_def fp_round_def shift_rne_def)
next
  case False
  then have c: "0 < b div 2 ^ p" by (simp add: div_greater_zero_iff)
  have "b mod 2 ^ p < 2 ^ p" by simp
  then have "fp_round p emin (2 ^ p + b mod 2 ^ p) (int (b div 2 ^ p) - 1 + emin) =
      nat (int (b div 2 ^ p) - 1 + emin - emin) * 2 ^ p + (2 ^ p + b mod 2 ^ p)"
    using c by (intro fp_round_normal) simp_all
  also have "nat (int (b div 2 ^ p) - 1 + emin - emin) = b div 2 ^ p - 1" by simp
  also have "(b div 2 ^ p - 1) * 2 ^ p + (2 ^ p + b mod 2 ^ p) = b div 2 ^ p * 2 ^ p + b mod 2 ^ p"
    using c by (cases "b div 2 ^ p") simp_all
  also have "\<dots> = b" by (rule div_mult_mod_eq)
  finally show ?thesis using False by (simp add: fp_decode_def)
qed

lemma f16_sign_div: "unat h div 2 ^ 15 = (if f16_sign h then 1 else 0)"
proof -
  have "bit h 15 \<longleftrightarrow> bit (unat h) 15" by (simp add: bit_unsigned_iff)
  also have "\<dots> \<longleftrightarrow> odd (unat h div 2 ^ 15)" by (rule bit_iff_odd)
  finally have s: "f16_sign h \<longleftrightarrow> odd (unat h div 2 ^ 15)" by (simp add: f16_sign_def)
  have "unat h < 2 ^ 16" using unsigned_less [of h] by simp
  then have "unat h div 2 ^ 15 < 2" by (intro less_mult_imp_div_less) simp
  with s show ?thesis by (auto simp: less_2_cases_iff)
qed

lemma f16_parts: "f16_make (f16_sign h) (f16_mag h) = h"
proof -
  have "unat h div 2 ^ 15 * 2 ^ 15 + f16_mag h = unat h" by (simp only: f16_mag_def div_mult_mod_eq)
  then have "unat h = (if f16_sign h then 2 ^ 15 else 0) + f16_mag h"
    unfolding f16_sign_div by (simp split: if_splits)
  then have "f16_make (f16_sign h) (f16_mag h) = of_nat (unat h)" by (simp only: f16_make_def)
  then show ?thesis by simp
qed

lemma f16_make_parts:
  assumes "b < 2 ^ 15"
  shows "f16_mag (f16_make s b) = b" and "f16_sign (f16_make s b) = s"
proof -
  have u: "unat (f16_make s b) = (if s then 1 else 0) * 2 ^ 15 + b"
    unfolding f16_make_def using assms by (subst unat_of_nat) (auto simp: mod_less)
  then show "f16_mag (f16_make s b) = b" using digits(2) [OF assms] by (simp only: f16_mag_def)
  have "unat (f16_make s b) div 2 ^ 15 = (if s then 1 else 0)" unfolding u by (rule digits(1) [OF assms])
  then show "f16_sign (f16_make s b) = s" unfolding f16_sign_div by (simp split: if_splits)
qed

text \<open>From a half precision number to single precision, the value is kept.\<close>

lemma f16_to_f32_value:
  assumes "f16_mag h < F16_INF"
  shows "f32_sign (ane_compute_f16_to_f32 nan h) = f16_sign h"
    and "f32_mag (ane_compute_f16_to_f32 nan h) < F32_INF"
    and "\<exists>m e k. f16_decode (f16_mag h) = (m, e) \<and>
      f32_decode (f32_mag (ane_compute_f16_to_f32 nan h)) = (m * 2 ^ k, if m = 0 then - 149 else e - int k)"
proof -
  obtain m e where d: "f16_decode (f16_mag h) = (m, e)" by fastforce
  note b = f16_decode_bounds [OF d]
  have e: "e \<le> 5"
    using d assms less_mult_imp_div_less [of "f16_mag h" 31 "2 ^ 10"]
    by (auto simp: fp_decode_def split: if_splits)
  have m: "m < 2 ^ (23 + 1)" "- 149 \<le> e" using b by simp_all
  have "nat (e - - 149 + 2) \<le> 156" using e by simp
  then have "nat (e - - 149 + 2) * 2 ^ 23 \<le> 156 * 2 ^ 23" by (rule mult_le_mono1)
  then have less: "f32_round m e < F32_INF" using fp_round_less [OF m] by simp
  note eq = f16_to_f32_finite [OF assms d, of nan]
  show "f32_sign (ane_compute_f16_to_f32 nan h) = f16_sign h" by (simp add: eq f32_make_sign)
  have mag: "f32_mag (ane_compute_f16_to_f32 nan h) = f32_round m e" using less by (simp add: eq f32_make_mag)
  with less show "f32_mag (ane_compute_f16_to_f32 nan h) < F32_INF" by simp
  show "\<exists>m e k. f16_decode (f16_mag h) = (m, e) \<and>
      f32_decode (f32_mag (ane_compute_f16_to_f32 nan h)) = (m * 2 ^ k, if m = 0 then - 149 else e - int k)"
    using d fp_round_exact [OF m] unfolding mag by blast
qed

text \<open>And back again.\<close>

lemma f16_round_trip:
  assumes "f16_mag h \<le> F16_INF"
  shows "ane_compute_f32_to_f16 nan (ane_compute_f16_to_f32 nan h) = h"
proof -
  let ?f = "ane_compute_f16_to_f32 nan h"
  have "f32_sign ?f = f16_sign h \<and> f16_of_mag (f32_mag ?f) = f16_mag h"
  proof (cases "f16_mag h = F16_INF")
    case True
    then show ?thesis by (simp add: f16_to_f32_inf f32_make_sign f32_make_mag f16_of_mag_def)
  next
    case False
    then have less: "f16_mag h < F16_INF" using assms by simp
    note v = f16_to_f32_value [OF less, of nan]
    from v(3) obtain m e k where d: "f16_decode (f16_mag h) = (m, e)"
      "f32_decode (f32_mag ?f) = (m * 2 ^ k, if m = 0 then - 149 else e - int k)" by blast
    have "f16_round (m * 2 ^ k) (if m = 0 then - 149 else e - int k) = f16_round m e"
      by (cases "m = 0") (simp_all add: fp_round_shift fp_round_def [of _ _ 0])
    also have "\<dots> = f16_mag h" using fp_decode_inverse [of 10 "- 24" "f16_mag h"] d(1) by simp
    finally have "f16_of_mag (f32_mag ?f) = f16_mag h"
      using v(2) less d(2) by (simp add: f16_of_mag_def)
    with v(1) show ?thesis by blast
  qed
  then show ?thesis by (simp add: f32_to_f16_result f16_parts)
qed

section \<open>The nearest number\<close>

lemma f16_large:
  assumes "F16_INF \<le> r"
  shows "65536 \<le> fp_real (f16_decode r)"
proof -
  obtain m e where d: "f16_decode r = (m, e)" by fastforce
  have "F16_INF div 2 ^ 10 \<le> r div 2 ^ 10" by (rule div_le_mono [OF assms])
  then have me: "2 ^ 10 \<le> m" "6 \<le> e" using d assms by (simp_all add: fp_decode_def)
  have "(1024 :: real) * 2 powi 6 \<le> real m * 2 powi e"
    using me by (intro mult_mono power_int_increasing) simp_all
  then show ?thesis by (simp add: d fp_real_def)
qed

lemma f16_small:
  assumes "r < F16_INF"
  shows "fp_real (f16_decode r) \<le> 65504" and "fp_real (f16_decode r) = 65504 \<Longrightarrow> odd r"
proof -
  obtain m e where d: "f16_decode r = (m, e)" by fastforce
  have val: "fp_real (f16_decode r) = real m * 2 powi e" by (simp add: d fp_real_def)
  have c: "r div 2 ^ 10 \<le> 30" using assms less_mult_imp_div_less [of r 31 "2 ^ 10"] by simp
  have m: "m \<le> 2047" using f16_decode_bounds(1) [OF d] by simp
  have e: "e \<le> 5" using d c by (auto simp: fp_decode_def split: if_splits)
  have "real m * 2 powi e \<le> 2047 * 2 powi 5"
    using m e by (intro mult_mono power_int_increasing) simp_all
  then show "fp_real (f16_decode r) \<le> 65504" by (simp add: val)
  assume top: "fp_real (f16_decode r) = 65504"
  have "e = 5"
  proof (rule ccontr)
    assume "e \<noteq> 5"
    then have "real m * 2 powi e \<le> 2047 * 2 powi 4"
      using m e by (intro mult_mono power_int_increasing) simp_all
    with top show False by (simp add: val)
  qed
  with top have "m = 2047" by (simp add: val)
  with d have "2 ^ 10 + r mod 2 ^ 10 = 2047" using assms by (auto simp: fp_decode_def split: if_splits)
  then have "r mod 2 ^ 10 = 1023" by simp
  then have "odd (r mod 2 ^ 10)" by simp
  then show "odd r" by (metis dvd_mod_iff dvd_power zero_less_numeral)
qed

lemma f16_overflow:
  assumes "f32_decode b = (m, e)"
  shows "F16_INF \<le> f16_round m e \<longleftrightarrow> 65520 \<le> fp_real (m, e)"
proof -
  let ?v = "fp_real (m, e)" and ?r = "f16_round m e"
  let ?x = "fp_real (f16_decode ?r)"
  have max: "fp_real (2047, 5) = 65504" and pow: "fp_real (1024, 6) = 65536" by (simp_all add: fp_real_def)
  have near: "\<bar>?x - ?v\<bar> \<le> \<bar>65504 - ?v\<bar>" "\<bar>?x - ?v\<bar> \<le> \<bar>65536 - ?v\<bar>"
    using fp_round_nearest [of 10 2047 "- 24" 5 m e] fp_round_nearest [of 10 1024 "- 24" 6 m e] by (simp_all add: max pow)
  have tie: "\<bar>?x - ?v\<bar> = \<bar>65536 - ?v\<bar> \<Longrightarrow> 65536 = ?x \<or> even ?r"
    using fp_round_nearest [of 10 1024 "- 24" 6 m e] by (simp add: pow)
  show ?thesis
  proof
    assume "F16_INF \<le> ?r"
    from f16_large [OF this] near(1) show "65520 \<le> ?v" by linarith
  next
    assume v: "65520 \<le> ?v"
    show "F16_INF \<le> ?r"
    proof (rule ccontr)
      assume "\<not> F16_INF \<le> ?r"
      then have r: "?r < F16_INF" by simp
      note x = f16_small [OF r]
      from x(1) near(2) v have "?v = 65520" "?x = 65504" by linarith+
      with tie x(2) show False by simp
    qed
  qed
qed

lemma signed_nearest:
  fixes x v y :: real
  assumes "\<bar>x - v\<bar> \<le> \<bar>y - v\<bar>" and "\<bar>x - v\<bar> = \<bar>y - v\<bar> \<longrightarrow> y = x \<or> P" and "0 \<le> v" "0 \<le> y" "0 \<le> x"
    and zero: "\<bar>x - v\<bar> \<le> \<bar>v\<bar>" and s: "s = 1 \<or> s = - 1" and t: "t = 1 \<or> t = - 1"
  shows "\<bar>s * x - s * v\<bar> \<le> \<bar>t * y - s * v\<bar> \<and>
    (\<bar>s * x - s * v\<bar> = \<bar>t * y - s * v\<bar> \<longrightarrow> t * y = s * x \<or> P)"
proof (cases "s = t")
  case True
  with s assms(1,2) show ?thesis by (auto simp: abs_minus_commute)
next
  case False
  then have t': "t = - s" using s t by auto
  have d: "\<bar>s * x - s * v\<bar> = \<bar>x - v\<bar>" "\<bar>t * y - s * v\<bar> = y + v"
    using s assms(3,4) by (auto simp: t')
  show ?thesis
  proof (intro conjI impI)
    show "\<bar>s * x - s * v\<bar> \<le> \<bar>t * y - s * v\<bar>" unfolding d using assms(1,3,4) by linarith
    assume "\<bar>s * x - s * v\<bar> = \<bar>t * y - s * v\<bar>"
    then have eq: "\<bar>x - v\<bar> = y + v" unfolding d .
    with assms(1,3,4) have "\<bar>x - v\<bar> = \<bar>y - v\<bar>" by linarith
    with assms(2) have "y = x \<or> P" by blast
    moreover have "t * y = s * x" if "y = x" using that eq zero assms(3-5) by (auto simp: abs_if split: if_splits)
    ultimately show "t * y = s * x \<or> P" by blast
  qed
qed

lemma fp_real_nonneg: "0 \<le> fp_real d"
  by (cases d) (simp add: fp_real_def)

section \<open>The conversions\<close>

text \<open>C30: A half precision number converted to single precision keeps its value, and converted back
  it is the number it was, bit by bit, infinities and both zeros included; a NaN comes back as the
  quiet NaN with an empty payload. A row of numbers is given back likewise.\<close>
theorem ane_f16_roundtrip:
  assumes "\<And>a b. f32_nan a \<or> f32_nan b \<Longrightarrow> f32_nan (nan a b)"
  shows "(if f16_mag h \<le> F16_INF
      then ane_compute_f32_to_f16 nan (ane_compute_f16_to_f32 nan h) = h
      else f16_mag (ane_compute_f32_to_f16 nan (ane_compute_f16_to_f32 nan h)) = 0x7E00) \<and>
    (f16_mag h < F16_INF \<longrightarrow> f32_real (ane_compute_f16_to_f32 nan h) = f16_real h) \<and>
    (list_all (\<lambda>h. f16_mag h \<le> F16_INF) x \<and> unat n = length x \<and> length y = length x \<longrightarrow>
      Option.bind (ane_f16_to_f32_row nan x y n) (\<lambda>z. ane_f32_to_f16_row nan z x n) = Some x)"
proof (intro conjI impI)
  show "if f16_mag h \<le> F16_INF
      then ane_compute_f32_to_f16 nan (ane_compute_f16_to_f32 nan h) = h
      else f16_mag (ane_compute_f32_to_f16 nan (ane_compute_f16_to_f32 nan h)) = 0x7E00"
  proof (cases "f16_mag h \<le> F16_INF")
    case True
    then show ?thesis by (simp add: f16_round_trip)
  next
    case False
    then have "f32_nan (ane_compute_f16_to_f32 nan h)" using assms by (intro f16_to_f32_nan) auto
    with False show ?thesis
      by (simp add: f32_to_f16_result f16_of_mag_def f32_nan_def f16_make_parts)
  qed
next
  assume less: "f16_mag h < F16_INF"
  note v = f16_to_f32_value [OF less, of nan]
  from v(3) obtain m e k where d: "f16_decode (f16_mag h) = (m, e)"
    "f32_decode (f32_mag (ane_compute_f16_to_f32 nan h)) = (m * 2 ^ k, if m = 0 then - 149 else e - int k)" by blast
  have "fp_real (m * 2 ^ k, if m = 0 then - 149 else e - int k) = fp_real (m, e)"
    by (cases "m = 0") (simp_all add: fp_real_shift, simp add: fp_real_def)
  with v(1) d show "f32_real (ane_compute_f16_to_f32 nan h) = f16_real h"
    by (simp add: f32_real_def f16_real_def)
next
  assume x: "list_all (\<lambda>h. f16_mag h \<le> F16_INF) x \<and> unat n = length x \<and> length y = length x"
  then have "map (\<lambda>h. ane_compute_f32_to_f16 nan (ane_compute_f16_to_f32 nan h)) x = x"
    by (intro map_idI) (auto simp: list_all_iff f16_round_trip)
  with x show "Option.bind (ane_f16_to_f32_row nan x y n) (\<lambda>z. ane_f32_to_f16_row nan z x n) = Some x"
    by (simp add: ane_f16_to_f32_row_def ane_f32_to_f16_row_def comp_def)
qed

text \<open>C29: A finite single precision number becomes the half precision number nearest to it: no
  finite one is nearer, of two as near it is the one with an even fraction, and from 65520, half
  way between the largest finite number and the next power of two, on it is an infinity; the sign is
  kept. Infinities stay infinities and NaNs NaNs.\<close>
theorem ane_f32_to_f16_nearest:
  "f16_sign (ane_compute_f32_to_f16 nan f) = f32_sign f \<and>
   (if f32_nan f then f16_mag (ane_compute_f32_to_f16 nan f) = 0x7E00
    else if f32_mag f = F32_INF \<or> 65520 \<le> \<bar>f32_real f\<bar> then f16_mag (ane_compute_f32_to_f16 nan f) = F16_INF
    else f16_mag (ane_compute_f32_to_f16 nan f) < F16_INF \<and>
      (\<forall>h. f16_mag h < F16_INF \<longrightarrow>
        \<bar>f16_real (ane_compute_f32_to_f16 nan f) - f32_real f\<bar> \<le> \<bar>f16_real h - f32_real f\<bar> \<and>
        (\<bar>f16_real (ane_compute_f32_to_f16 nan f) - f32_real f\<bar> = \<bar>f16_real h - f32_real f\<bar> \<longrightarrow>
          f16_real h = f16_real (ane_compute_f32_to_f16 nan f) \<or> even (f16_mag (ane_compute_f32_to_f16 nan f)))))"
proof -
  let ?h = "ane_compute_f32_to_f16 nan f"
  obtain m e where d: "f32_decode (f32_mag f) = (m, e)" by fastforce
  have less: "f16_of_mag (f32_mag f) < 2 ^ 15" by (auto simp: f16_of_mag_def split: prod.splits)
  note parts = f16_make_parts [OF less, of "f32_sign f", folded f32_to_f16_result [of nan]]
  have v: "\<bar>f32_real f\<bar> = fp_real (m, e)"
    using fp_real_nonneg by (simp add: f32_real_def d abs_mult)
  show ?thesis
  proof (cases "f32_mag f < F32_INF")
    case False
    then show ?thesis by (auto simp: parts f16_of_mag_def f32_nan_def)
  next
    case True
    then have mag: "f16_mag ?h = min (f16_round m e) F16_INF"
      by (simp add: parts f16_of_mag_def d)
    note over = f16_overflow [OF d, folded v]
    show ?thesis
    proof (cases "65520 \<le> \<bar>f32_real f\<bar>")
      case big: True
      then have "f16_mag ?h = F16_INF" using over by (simp add: mag)
      with big True show ?thesis by (simp add: parts(2) f32_nan_def)
    next
      case small: False
      then have h: "f16_mag ?h = f16_round m e" "f16_mag ?h < F16_INF" using over by (simp_all add: mag)
      have "\<bar>f16_real ?h - f32_real f\<bar> \<le> \<bar>f16_real h - f32_real f\<bar> \<and>
        (\<bar>f16_real ?h - f32_real f\<bar> = \<bar>f16_real h - f32_real f\<bar> \<longrightarrow>
          f16_real h = f16_real ?h \<or> even (f16_mag ?h))" if "f16_mag h < F16_INF" for h
      proof -
        obtain m' e' where d': "f16_decode (f16_mag h) = (m', e')" by fastforce
        note b = f16_decode_bounds [OF d']
        have near: "\<bar>fp_real (f16_decode (f16_round m e)) - fp_real (m, e)\<bar> \<le> \<bar>fp_real (m', e') - fp_real (m, e)\<bar> \<and>
          (\<bar>fp_real (f16_decode (f16_round m e)) - fp_real (m, e)\<bar> = \<bar>fp_real (m', e') - fp_real (m, e)\<bar> \<longrightarrow>
            fp_real (m', e') = fp_real (f16_decode (f16_round m e)) \<or> even (f16_round m e))"
          by (rule fp_round_nearest) (use b in simp_all)
        have zero: "\<bar>fp_real (f16_decode (f16_round m e)) - fp_real (m, e)\<bar> \<le> \<bar>fp_real (m, e)\<bar>"
          using fp_round_nearest [of 10 0 "- 24" 0 m e] by (simp add: fp_real_def)
        show ?thesis
          unfolding f16_real_def f32_real_def d d' h(1) parts(2)
          by (rule signed_nearest [OF conjunct1 [OF near] conjunct2 [OF near] fp_real_nonneg fp_real_nonneg fp_real_nonneg zero])
            simp_all
      qed
      with small True h(2) show ?thesis by (simp add: parts(2) f32_nan_def)
    qed
  qed
qed

section \<open>Samples\<close>

definition sample_nan :: "f32 \<Rightarrow> f32 \<Rightarrow> f32" where
  "sample_nan a b = 0x7FC00000"

theorem ane_f16_roundtrip_witness:
  "ane_compute_f32_to_f16 sample_nan (ane_compute_f16_to_f32 sample_nan 0x8001) = 0x8001 \<and>
   f32_real (ane_compute_f16_to_f32 sample_nan 0x8001) = f16_real 0x8001 \<and>
   f16_mag (ane_compute_f32_to_f16 sample_nan (ane_compute_f16_to_f32 sample_nan 0x7C01)) = 0x7E00 \<and>
   Option.bind (ane_f16_to_f32_row sample_nan [0x3C00, 0xFC00] [0, 0] 2)
     (\<lambda>z. ane_f32_to_f16_row sample_nan z [0x3C00, 0xFC00] 2) = Some [0x3C00, 0xFC00]"
proof -
  have nan: "f32_nan (sample_nan a b)" for a b
    by (simp add: sample_nan_def f32_nan_def f32_mag_def)
  have mags: "f16_mag 0x8001 = 1" "f16_mag 0x7C01 = 0x7C01" "f16_mag 0x3C00 = 0x3C00" "f16_mag 0xFC00 = F16_INF"
    by (simp_all add: f16_mag_def)
  from ane_f16_roundtrip [of sample_nan "0x8001" "[0x3C00, 0xFC00]" 2 "[0, 0]", OF nan]
    ane_f16_roundtrip [of sample_nan "0x7C01" "[]" 0 "[]", OF nan]
  show ?thesis by (simp add: mags)
qed

text \<open>Half way between 1 and the next number, and the first number that is too large.\<close>

theorem ane_f32_to_f16_nearest_witness:
  "(f16_mag (ane_compute_f32_to_f16 sample_nan 0x3F801000) < F16_INF \<and>
    \<bar>f16_real (ane_compute_f32_to_f16 sample_nan 0x3F801000) - f32_real 0x3F801000\<bar> \<le>
      \<bar>f16_real 0x3C00 - f32_real 0x3F801000\<bar>) \<and>
   f16_mag (ane_compute_f32_to_f16 sample_nan 0x477FF000) = F16_INF"
proof
  have mags: "f32_mag 0x3F801000 = 0x3F801000" "f32_mag 0x477FF000 = 0x477FF000" "f16_mag 0x3C00 = 0x3C00"
    by (simp_all add: f32_mag_def f16_mag_def)
  have signs: "\<not> f32_sign 0x3F801000" "\<not> f32_sign 0x477FF000" by (simp_all add: f32_sign_iff)
  have "f32_real 0x477FF000 = 65520"
    by (simp add: f32_real_def signs mags fp_decode_def fp_real_def)
  moreover have "\<not> f32_nan 0x477FF000" by (simp add: f32_nan_def mags)
  ultimately show "f16_mag (ane_compute_f32_to_f16 sample_nan 0x477FF000) = F16_INF"
    using ane_f32_to_f16_nearest [of sample_nan "0x477FF000"] by simp
  have "f32_real 0x3F801000 = 8392704 * 2 powi (- 23)"
    by (simp add: f32_real_def signs mags fp_decode_def fp_real_def)
  then have "f32_real 0x3F801000 = 8392704 / 2 ^ 23" by (simp add: power_int_minus field_simps)
  then have "\<bar>f32_real 0x3F801000\<bar> < 65520" by simp
  moreover have "\<not> f32_nan 0x3F801000" "f32_mag 0x3F801000 \<noteq> F32_INF" by (simp_all add: f32_nan_def mags)
  ultimately show "f16_mag (ane_compute_f32_to_f16 sample_nan 0x3F801000) < F16_INF \<and>
    \<bar>f16_real (ane_compute_f32_to_f16 sample_nan 0x3F801000) - f32_real 0x3F801000\<bar> \<le>
      \<bar>f16_real 0x3C00 - f32_real 0x3F801000\<bar>"
    using ane_f32_to_f16_nearest [of sample_nan "0x3F801000"] mags(3) by auto
qed

end
