(* ===== verification/Spec2Isabelle.thy ===== *)
theory Spec2Isabelle
  imports Hwx_Correct Drv_Correct Drv_Life Drv_Race Lib_Correct Td_Correct Td_Bitfield Dis_Correct Lib_Half_Correct
begin

text \<open>
  Verification of the Apple Neural Engine stack: the kernel driver (\<open>src/driver\<close>), the user
  space library \<open>libane\<close> (\<open>src/src/libane\<close>) with its Python binding, and the disassembler
  (\<open>src/tools/ane-disasm\<close>). Every definition is translated from the C or C++ source and can be
  executed; the properties, numbered C1, C2, ..., stand in the theories \<open>*_Correct\<close>, \<open>Drv_Life\<close>,
  \<open>Drv_Race\<close> and \<open>Lib_Tile\<close>.

  \<^bold>\<open>How the parts interact.\<close> A network starts as an HWX file, a Mach-O container. \<open>hwx_open\<close> of
  \<open>hwx.c\<close> reads it; \<open>__ane_init\<close> of \<open>ane.c\<close> takes the size and number of the task descriptors
  from a thread state of it, opens a device node, has the driver create buffer objects
  (\<open>DRM_IOCTL_ANE_BO_INIT\<close>), maps them, and copies the first descriptor of the code section to
  the bootstrap channel. The driver keeps each object in the address space of the engine and on
  submission hands the addresses of the objects to the registers of the task manager. Client
  data is tiled into the input channels and untiled from the output channels, and may be
  converted from and to half precision. The disassembler opens the same containers and prints
  the task descriptors, whose layouts are the C++ structs of \<open>td_v5.h\<close>, \<open>td_v7.h\<close> and \<open>td_v11.h\<close>.

  \<^bold>\<open>Conventions\<close> (\<open>Ane_Prelude\<close>). Integers are words of their width, as \<open>integer.h\<close> and \<open>stdint.h\<close>
  name them; a buffer is a list of bytes, read and written with bounds checks. A computation
  that returns an \<open>option\<close> has no value exactly where the program has no defined behaviour (an
  access outside an object, a double free, an assertion that fails, a mutex taken twice); an
  error that the code reports is a value. So \<open>\<exists>x. f s = Some x\<close> is the absence of undefined
  behaviour. State is passed explicitly, and what the code calls and the repository does not
  hold is an argument of the definitions.

  \<^bold>\<open>The container loader\<close> (\<open>hwx.c\<close>, \<open>hwx.h\<close>).
  \<^item> \<open>Hwx_Io\<close>: descriptors, heap and \<open>pread\<close> as the loader sees them, with scripts of failing
    allocations and of failing, interrupted and short reads; \<open>hwx_pread_exact\<close>.
  \<^item> \<open>Hwx_Format\<close>: the structures of a Mach-O file and of an open HWX file, byte by byte.
  \<^item> \<open>Hwx_Open\<close>: \<open>hwx_open\<close> and \<open>hwx_close\<close>, one definition per function and per stage of the
    command loop, every error path included. \<open>Hwx_Query\<close>: the queries and bounded reads; the two
    reads share the locale \<open>window_reader\<close>.
  \<^item> \<open>Hwx_Open_Safe\<close>: the invariant of a load (counts, ownership of blocks), kept by every stage.
  \<^item> \<open>Hwx_Spec\<close>: the specification, a function from the bytes of a file to its segments and
    states, and the refinement in both directions. \<open>Hwx_Encode\<close>: a writer, inverse to it.
  \<^item> \<open>Hwx_Correct\<close>: soundness and completeness, failures give everything back, well-formedness,
    where behaviour is undefined, reads, termination, and reading what the writer laid out.

  \<^bold>\<open>The kernel driver\<close> (\<open>ane_drv.c\<close>, \<open>ane_h13.c\<close>, \<open>ane_h14.c\<close>, \<open>ane.h\<close>, \<open>ane_accel.h\<close>).
  \<^item> \<open>Drv_Kernel\<close>: the kernel services as a record of functions, and their documented behaviour
    as the locale \<open>drm_kernel\<close> (\<open>drm_mm\<close>, IOMMU, GEM, handles, \<open>kzalloc\<close>). \<open>Drv_Ref\<close> interprets it
    on a kernel written out in lists, in which every service can be made to fail.
  \<^item> \<open>Drv_Iommu\<close> and \<open>Drv_Gem\<close>: mapping the pages of an object with rollback, \<open>ane_bo_init\<close>,
    \<open>ane_bo_free\<close>, and the invariant that objects, ranges, mappings and handles agree.
  \<^item> \<open>Drv_Tm\<close>: the register protocol of both generations as the reads and writes made on an
    arbitrary device. The locale \<open>tm_backend\<close> is what submission needs of a generation; the one
    that waits for the engine meets it for every bounded poll (\<open>polled_device\<close>).
  \<^item> \<open>Drv_Submit\<close>: \<open>ane_submit\<close>, the page fault handler and a specification that looks every
    handle up once. \<open>Drv_Step\<close>: the driver as a state machine over its ioctls and power callbacks,
    on the handle table of one open file. \<open>Drv_Files\<close>: any number of open files, each with a table
    of its own (locale \<open>drm_files\<close>), whose calls follow one another, the \<open>GEM_CLOSE\<close> of the DRM core
    among them; closing a file is a \<open>GEM_CLOSE\<close> of each handle it has left.
  \<^item> \<open>Drv_Power\<close>: probe, remove, open, close and the power references over the locale
    \<open>platform\<close>; \<open>Drv_Mmap\<close>: \<open>ane_drm_mmap\<close> over the locale \<open>user_map\<close>.
  \<^item> \<open>Drv_Correct\<close>: isolation of the objects in every state the files reach, what a call may
    change of other files, calls return, the leak of a handle dropped with \<open>GEM_CLOSE\<close>; all or
    nothing for each ioctl, bounds and contents of a submission, the order of the register
    accesses, release by \<open>ANE_BO_FREE\<close>. \<open>Drv_Life\<close>: probe and remove with what they leave behind,
    usage counter, mappings of a process.
  \<^item> \<open>Drv_Conc\<close>: the ioctls and power callbacks once more, as threads that run at once. A call
    advances from one kernel service to the next and may be overtaken between any two; \<open>conc_step\<close>
    is the relation, \<open>schedule\<close> runs it, on the handle table of one file. \<open>Drv_Alone\<close>: a thread on its own is the ioctl as
    \<open>Drv_Gem\<close> and \<open>Drv_Submit\<close> have it.
  \<^item> \<open>Drv_Level\<close>: the invariant of \<open>Drv_Gem\<close> for objects that are built or taken down half way,
    each at a level from 0 (a block) to 4 (mapped). \<open>Drv_Inter\<close>: the invariant of interleaved
    calls, which says whose each object is, and why a step of one thread keeps it for all.
    \<open>Drv_Inter_Step\<close>: every step of every call keeps it. \<open>Drv_Sched\<close>: whole schedules, a bound
    on the steps of a call, no deadlock, calls that keep off each other's handles.
  \<^item> \<open>Drv_Race\<close>: safety, isolation, submissions and termination under all interleavings in which
    no handle is freed that another call is using, and the races of those in which one is.

  \<^bold>\<open>The library\<close> (\<open>ane.c\<close>, \<open>ane.h\<close>, \<open>ane_f16.h\<close>, \<open>libane_python.c\<close>).
  \<^item> \<open>Lib_Bo\<close>, \<open>Lib_Model\<close>, \<open>Lib_Nn\<close>: buffer objects over a device node that meets the locale
    \<open>accel_node\<close>; the metadata of a model; networks with their channels and the search for a
    device. \<open>Lib_Safe\<close>: what a network holds, proved inside the locale.
  \<^item> \<open>Lib_Driver\<close>: the node whose ioctls are the driver's own \<open>ane_bo_init\<close> and \<open>ane_bo_free\<close>
    meets \<open>accel_node\<close> (locale \<open>ane_node\<close>, a sublocale), so that the properties of the library
    hold of the library on the driver. \<open>Lib_Sample\<close> is a network opened on it.
  \<^item> \<open>Lib_Tile\<close>: tiling and untiling. \<open>Lib_Io\<close>: \<open>ane_exec\<close>, sizes, send and read, raw and tiled,
    and the Python binding. \<open>Lib_Correct\<close>: opening and closing a network, the bootstrap channel,
    what a network can do, and the channels of networks that have inputs and outputs.
  \<^item> \<open>Lib_Round\<close>, \<open>Lib_Half\<close>, \<open>Lib_Half_Correct\<close>: rounding to the nearest on natural numbers, the
    conversions with every operation on single precision done on the bits, and their
    correctness against the numbers they stand for. The definitions compute on natural numbers;
    real numbers appear only in the statements.

  \<^bold>\<open>Task descriptors and the disassembler\<close> (\<open>bitfield.h\<close>, \<open>td_v5.h\<close>, \<open>td_v7.h\<close>, \<open>td_v11.h\<close>,
  \<open>ane-disasm\<close>).
  \<^item> \<open>Td_Type\<close>: the template \<open>Bitfield\<close> and a type of layouts with sizes, offsets and members.
    \<open>Td_Bitfield\<close>: its other operators and its fields of a signed type.
    \<open>Td_Layout\<close>: every struct of the three headers. \<open>Td_Correct\<close>: reading and writing of
    members, \<open>set_nid\<close>.
  \<^item> \<open>Dis_Text\<close>: decimal and hexadecimal numbers as printed. \<open>Dis_Td\<close>: the dumpers as tables of
    prints in their order. \<open>Dis_Main\<close>: the program, its output as the list of its prints.
    \<open>Dis_Print\<close>: the tables against the layouts. \<open>Dis_Correct\<close>: it ends wherever \<open>hwx_open\<close> has a
    defined result, prints the bytes of the file, and the text determines the values printed.

  \<^bold>\<open>Interfaces.\<close> Each locale is interpreted on definitions of the model: \<open>window_reader\<close> on the two
  reads, \<open>accel_node\<close> on the driver's node, \<open>tm_backend\<close> and \<open>polled_device\<close> on both generations.
  Those that stand for the kernel (\<open>drm_kernel\<close>, \<open>drm_files\<close>, \<open>platform\<close>, \<open>user_map\<close>) are met by reference
  providers with scripts of failures; they state single calls (what an allocation, a mapping or
  a lookup does), and no property of the program is among them. Properties quantify over every
  provider, and their witnesses use the reference ones.

  \<^bold>\<open>Loops and bounds.\<close> Loops over arrays and counts recurse structurally on what is left. The
  others are total by a measure: \<open>hwx_pread_exact\<close> by the bytes missing and the interruptions
  left in the script (each execution that ends has a finite one), the states of a thread command
  by the bytes left, \<open>seg_state_loop\<close> by the states behind the cursor, the interrupt drain by
  its 32-bit counter. No definition that translates code takes fuel: the number of rounds of a
  poll is the quotient of the timeout and the delay in the source, and the device search tries
  64 nodes as the source does. Two auxiliaries of statements take a number of steps: \<open>visited\<close>,
  about iteration, for which the number of states is enough, and \<open>alone\<close>, a thread on its own,
  for which 201 are (\<open>rank\<close>).

  \<^bold>\<open>What the properties assume.\<close> They hold up to limits of the code that it does not check itself:
  a buffer object asked for is below 4 GiB once rounded (\<open>call_ok\<close>; above, the 32-bit products of
  the source wrap, \<open>bo_over_4gib_wraps\<close>); a file has no segment command shorter than its fixed
  part (\<open>short_file\<close>); a network that sends and reads has at most 0x61 channels and a tile for
  each (\<open>io_channels\<close>; nothing in \<open>ane.c\<close> sets these counts, so a network straight from
  \<open>__ane_init\<close> has no inputs and outputs); a descriptor has from 4 to less than \<open>2 ^ 18\<close> bytes.
  Calls that run at once do not free a handle that another is using (\<open>calm_run\<close>, \<open>polite\<close>); where
  they do, \<open>double_free_race\<close> and \<open>submit_free_race\<close> show what happens.

  \<^bold>\<open>Not modelled.\<close>
  \<^item> The Python package, tests and experiments (another language or test drivers), the build
    files and the device tree; \<open>integer.h\<close>, whose typedefs are the words of the prelude.
  \<^item> Messages (\<open>printk\<close>, \<open>dev_err\<close>, \<open>fprintf\<close> of the library), tables of callbacks and module
    macros, prototypes, include guards, the inline functions of \<open>ane.h\<close> that only call another
    one, the code under \<open>#if 0\<close> in \<open>ane_h14.c\<close>, the request structure and the allocators that
    nothing uses. The disassembler's output is modelled; the text of \<open>strerror\<close> is an argument.
  \<^item> Objects shared between open files (flink names, PRIME), so that two handles never name one
    object; several files and \<open>GEM_CLOSE\<close> in the interleavings of \<open>Drv_Conc\<close>, and in
    \<open>driver_releases_all\<close>, which is about the ioctls of the driver on one table.
  \<^item> Sizes of the heap blocks of the loader's arrays, which are lists (its 32-bit counters are
    proved not to wrap), and contents of the heap after a free.
  \<^item> Which NaN an operation on floats returns (an argument; properties need only that it is
    one), exception flags, and rounding modes other than the default.
  \<^item> Concurrency below the level of \<open>Drv_Conc\<close>: what the source does while it holds the mutex of
    the address space is one step, a kernel service is one step, and memory ordering is not
    modelled. Probing, removal, opening and mapping are not interleaved with ioctls. The other
    theories of the driver take an ioctl as one step, and calls of the library come from one
    thread.
\<close>

end
